(* ===== verification/Prelude.thy ===== *)
theory Prelude
  imports Main "HOL-Library.Word" "HOL-Library.Monad_Syntax" "HOL-Library.Multiset"
begin

text \<open>
  Shared vocabulary of the development: machine-word type names, bounds-checked array access,
  conversions between machine integers and the contract of a binary search. An access outside an
  array is the value \<open>None\<close>, so a theorem that an operation returns \<open>Some\<close> is also a theorem that it
  never reads or writes out of bounds.
\<close>

type_synonym byte = "8 word"
type_synonym u16 = "16 word"
type_synonym u32 = "32 word"
type_synonym u64 = "64 word"

named_theorems mem_simps \<open>evaluation of bounds-checked array accesses\<close>
named_theorems codec_simps \<open>round trips of the fixed-width codecs\<close>

subsection \<open>Bounds-checked arrays\<close>

definition rd :: "'a list \<Rightarrow> nat \<Rightarrow> 'a option" where
  "rd xs i = (if i < length xs then Some (xs ! i) else None)"

definition wr :: "'a list \<Rightarrow> nat \<Rightarrow> 'a \<Rightarrow> 'a list option" where
  "wr xs i v = (if i < length xs then Some (xs[i := v]) else None)"

lemma rd_eq_Some [mem_simps]: "i < length xs \<Longrightarrow> rd xs i = Some (xs ! i)"
  by (simp add: rd_def)

lemma wr_eq_Some [mem_simps]: "i < length xs \<Longrightarrow> wr xs i v = Some (xs[i := v])"
  by (simp add: wr_def)

lemma rd_SomeD: "rd xs i = Some x \<Longrightarrow> i < length xs \<and> x = xs ! i"
  by (auto simp: rd_def split: if_splits)

lemma wr_SomeD: "wr xs i v = Some ys \<Longrightarrow> i < length xs \<and> ys = xs[i := v]"
  by (auto simp: wr_def split: if_splits)

lemma wr_length: "wr xs i v = Some ys \<Longrightarrow> length ys = length xs"
  by (auto dest: wr_SomeD)

text \<open>\<open>unsigned int\<close> arithmetic is arithmetic modulo \<open>2 ^ 32\<close>.\<close>

definition u32n :: "nat \<Rightarrow> nat" where
  "u32n n = n mod 2 ^ 32"

lemma u32n_id [simp]: "n < 4294967296 \<Longrightarrow> u32n n = n"
  by (simp add: u32n_def)

lemma u32n_less [simp]: "u32n n < 4294967296"
  by (simp add: u32n_def)

subsection \<open>Conversions between machine integers\<close>

lemma sint_small: "unat (w::32 word) < 2 ^ 31 \<Longrightarrow> sint w = int (unat w)"
proof -
  assume w: "unat w < 2 ^ 31"
  have "int (unat w) < int (2 ^ 31)" using w by (simp only: of_nat_less_iff)
  then have "uint w < 2 ^ 31" by (simp only: uint_nat) simp
  moreover have "0 \<le> uint w" by simp
  ultimately have "signed_take_bit 31 (uint w) = uint w"
    by (intro signed_take_bit_int_eq_self) linarith+
  then have "sint w = uint w" by (simp add: sint_uint)
  then show ?thesis by (simp only: uint_nat)
qed

lemma scast_small: "unat (w::32 word) < 2 ^ 31 \<Longrightarrow> unat (scast w :: 64 word) = unat w"
proof -
  assume w: "unat w < 2 ^ 31"
  have "(scast w :: 64 word) = of_nat (unat w)"
    by (simp only: scast_eq sint_small [OF w] of_int_of_nat_eq)
  then show ?thesis using w by (simp only: unat_of_nat) simp
qed

lemma unat_u32_less: "unat (w::32 word) < 4294967296"
  using unsigned_less [of w, where ?'a = nat] by simp

lemma unat_u64_less: "unat (w::64 word) < 18446744073709551616"
  using unsigned_less [of w, where ?'a = nat] by simp

lemma ucast_small: "unat (w::64 word) < 2 ^ 32 \<Longrightarrow> unat (ucast w :: 32 word) = unat w"
  by (simp add: unsigned_ucast_eq take_bit_nat_eq_self)

lemma unat_ucast_up: "unat (ucast (w::32 word) :: 64 word) = unat w"
  using unat_u32_less [of w] by (simp add: unsigned_ucast_eq take_bit_nat_eq_self)

text \<open>Two bytes are equal when each of their bits is.\<close>

lemma word8_eqI: "list_all (\<lambda>n. bit a n = bit (b :: 8 word) n) [0, 1, 2, 3, 4, 5, 6, 7] \<Longrightarrow> a = b"
proof (rule bit_word_eqI)
  fix n assume l: "list_all (\<lambda>n. bit a n = bit b n) [0, 1, 2, 3, 4, 5, 6, 7]" and "n < LENGTH(8)"
  then have "n \<in> set [0, 1, 2, 3, 4, 5, 6, 7]" by simp presburger
  then show "bit a n = bit b n" using l by (simp only: list_all_iff)
qed

subsection \<open>Binary search over the positions \<open>1..N\<close>\<close>

text \<open>
  The contract the two searches of \<^verbatim>\<open>midl.c\<close> share. \<open>probe i\<close> is the comparison at position \<open>i\<close>, \<open>None\<close>
  outside the array; the loop moves left on a negative value and right on a positive one. \<open>found_at v N x\<close>
  says that \<open>x\<close> is the answer for the comparison values \<open>v 1, \<dots>, v N\<close>.
\<close>

definition found_at :: "(nat \<Rightarrow> int) \<Rightarrow> nat \<Rightarrow> nat \<Rightarrow> bool" where
  "found_at v N x \<longleftrightarrow> 1 \<le> x \<and> x \<le> N + 1 \<and>
     (\<forall>i. 1 \<le> i \<and> i < x \<longrightarrow> 0 \<le> v i) \<and> (\<forall>i. x \<le> i \<and> i \<le> N \<longrightarrow> v i \<le> 0) \<and>
     (x \<le> N \<and> v x = 0 \<or> (\<forall>i. 1 \<le> i \<and> i \<le> N \<longrightarrow> v i \<noteq> 0))"

locale probe_search =
  fixes loop :: "nat \<Rightarrow> nat \<Rightarrow> int \<Rightarrow> nat \<Rightarrow> nat option"
    and probe :: "nat \<Rightarrow> int option"
  assumes loop_eq: "loop base cursor val n =
    (if 0 < n then
       (case probe (u32n (base + n div 2 + 1)) of
          None \<Rightarrow> None
        | Some v \<Rightarrow>
            if v < 0 then loop base (u32n (base + n div 2 + 1)) v (n div 2)
            else if v > 0
            then loop (u32n (base + n div 2 + 1)) (u32n (base + n div 2 + 1)) v (n - (n div 2 + 1))
            else Some (u32n (base + n div 2 + 1)))
     else Some (if val > 0 then u32n (cursor + 1) else cursor))"
begin

lemma loop_correct:
  assumes probe: "\<And>i. 1 \<le> i \<Longrightarrow> i \<le> N \<Longrightarrow> probe i = Some (v i)"
    and mono: "\<And>i j. 1 \<le> i \<Longrightarrow> i < j \<Longrightarrow> j \<le> N \<Longrightarrow> v j \<le> v i"
    and N: "N + 1 < 2 ^ 32"
  shows "base + n \<le> N \<Longrightarrow> \<forall>i. 1 \<le> i \<and> i \<le> base \<longrightarrow> 0 < v i \<Longrightarrow>
    \<forall>i. base + n < i \<and> i \<le> N \<longrightarrow> v i < 0 \<Longrightarrow>
    (val = 0 \<and> cursor = 1 \<and> base = 0) \<or> (val < 0 \<and> cursor = base + n + 1) \<or> (0 < val \<and> cursor = base)
    \<Longrightarrow> \<exists>x. loop base cursor val n = Some x \<and> found_at v N x"
proof (induction n arbitrary: base cursor val rule: less_induct)
  case (less n)
  let ?c = "base + n div 2 + 1"
  show ?case
  proof (cases "n = 0")
    case True
    then have "loop base cursor val n = Some (base + 1)"
      using less.prems(1,4) N by (subst loop_eq) auto
    moreover have "found_at v N (base + 1)"
    proof -
      have pos: "0 < v i" if "1 \<le> i" "i \<le> base" for i
        using less.prems(2) that by blast
      have neg: "v i < 0" if "base < i" "i \<le> N" for i
        using less.prems(3) that True by simp
      have "(1 \<le> i \<and> i < base + 1 \<longrightarrow> 0 \<le> v i) \<and> (base + 1 \<le> i \<and> i \<le> N \<longrightarrow> v i \<le> 0) \<and>
          (1 \<le> i \<and> i \<le> N \<longrightarrow> v i \<noteq> 0)" for i
        using pos [of i] neg [of i] by linarith
      then show ?thesis
        using less.prems(1) unfolding found_at_def by auto
    qed
    ultimately show ?thesis by blast
  next
    case False
    then have c: "1 \<le> ?c" "?c \<le> N" "?c \<le> base + n" "u32n ?c = ?c"
      using less.prems(1) N by auto
    have step: "loop base cursor val n =
        (if v ?c < 0 then loop base ?c (v ?c) (n div 2)
         else if v ?c > 0 then loop ?c ?c (v ?c) (n - (n div 2 + 1)) else Some ?c)"
      using False c probe by (subst loop_eq) simp
    consider (lt) "v ?c < 0" | (gt) "0 < v ?c" | (eq) "v ?c = 0" by linarith
    then show ?thesis
    proof cases
      case lt
      have "\<exists>x. loop base ?c (v ?c) (n div 2) = Some x \<and> found_at v N x"
      proof (rule less.IH)
        show "\<forall>i. base + n div 2 < i \<and> i \<le> N \<longrightarrow> v i < 0"
        proof (intro allI impI)
          fix i assume i: "base + n div 2 < i \<and> i \<le> N"
          then have "i = ?c \<or> ?c < i" by linarith
          then show "v i < 0" using lt mono [of ?c i] i c by fastforce
        qed
      qed (use False less.prems lt c in auto)
      then show ?thesis using lt step by simp
    next
      case gt
      have "\<exists>x. loop ?c ?c (v ?c) (n - (n div 2 + 1)) = Some x \<and> found_at v N x"
      proof (rule less.IH)
        show "\<forall>i. 1 \<le> i \<and> i \<le> ?c \<longrightarrow> 0 < v i"
        proof (intro allI impI)
          fix i assume i: "1 \<le> i \<and> i \<le> ?c"
          then have "i = ?c \<or> i < ?c" by linarith
          then show "0 < v i" using gt mono [of i ?c] i c by fastforce
        qed
      qed (use False less.prems gt c in auto)
      then show ?thesis using gt step by simp
    next
      case eq
      have "found_at v N ?c"
        unfolding found_at_def using eq c mono [of _ ?c] mono [of ?c]
        by (auto simp: le_eq_less_or_eq)
      then show ?thesis using eq step by simp
    qed
  qed
qed

lemma search_correct:
  assumes "\<And>i. 1 \<le> i \<Longrightarrow> i \<le> N \<Longrightarrow> probe i = Some (v i)"
    and "\<And>i j. 1 \<le> i \<Longrightarrow> i < j \<Longrightarrow> j \<le> N \<Longrightarrow> v j \<le> v i"
    and "N + 1 < 2 ^ 32"
  shows "\<exists>x. loop 0 1 0 N = Some x \<and> found_at v N x"
  by (rule loop_correct [OF assms]) auto

end

end
