(* ===== verification/Midl.thy ===== *)
theory Midl
  imports Prelude
begin

text \<open>
  The ID lists of the embedded LMDB (\<^verbatim>\<open>src/urbackupserver/lmdb/midl.c\<close>, \<^verbatim>\<open>midl.h\<close>). An \<open>MDB_IDL\<close> is a
  C array whose cell \<open>0\<close> holds the number of IDs, whose cells \<open>1..\<close> hold the IDs in descending order,
  and whose cell \<open>-1\<close> holds the number of IDs there is room for. The record \<open>midl\<close> keeps cell \<open>-1\<close> as
  \<open>ids_alloc\<close> and the cells from \<open>0\<close> as the list \<open>ids_cells\<close>. Array accesses are bounds-checked, so the
  correctness theorems include memory safety. The contents of memory that \<open>malloc\<close> and \<open>realloc\<close> hand
  out are an arbitrary function \<open>fresh\<close>, and whether they succeed is the argument \<open>mem_ok\<close>.
\<close>

type_synonym mdb_id = "64 word"

record midl =
  ids_alloc :: mdb_id
  ids_cells :: "mdb_id list"

definition MDB_IDL_UM_MAX :: nat where
  "MDB_IDL_UM_MAX = 2 ^ 17 - 1"

definition MDB_IDL_DIRTY_MAX :: nat where
  "MDB_IDL_DIRTY_MAX = 256"

definition CMP :: "mdb_id \<Rightarrow> mdb_id \<Rightarrow> int" where
  "CMP x y = (if x < y then -1 else if x > y then 1 else 0)"

subsection \<open>Binary search\<close>

text \<open>The \<open>while\<close> loop of \<open>mdb_midl_search\<close> with its locals as arguments.\<close>

function mdb_midl_search_loop ::
    "mdb_id list \<Rightarrow> mdb_id \<Rightarrow> nat \<Rightarrow> nat \<Rightarrow> int \<Rightarrow> nat \<Rightarrow> nat option" where
  "mdb_midl_search_loop ids idv base cursor val n =
     (if 0 < n then
        let pivot = n div 2; cursor = u32n (base + pivot + 1) in
        (case rd ids cursor of
           None \<Rightarrow> None
         | Some x \<Rightarrow>
             let val = CMP x idv in
             if val < 0 then mdb_midl_search_loop ids idv base cursor val pivot
             else if val > 0 then mdb_midl_search_loop ids idv cursor cursor val (n - (pivot + 1))
             else Some cursor)
      else Some (if val > 0 then u32n (cursor + 1) else cursor))"
  by pat_completeness auto
termination
  by (relation "measure (\<lambda>(ids, idv, base, cursor, val, n). n)") auto

declare mdb_midl_search_loop.simps [simp del]

definition mdb_midl_search :: "mdb_id list \<Rightarrow> mdb_id \<Rightarrow> nat option" where
  "mdb_midl_search ids idv =
     do { c \<leftarrow> rd ids 0; mdb_midl_search_loop ids idv 0 1 0 (u32n (unat c)) }"

subsection \<open>Allocation\<close>

text \<open>\<open>realloc\<close> of the block that starts at cell \<open>-1\<close>, to \<open>nwords\<close> words: the kept prefix, then memory
  with arbitrary contents.\<close>

definition realloc_cells :: "(nat \<Rightarrow> mdb_id) \<Rightarrow> nat \<Rightarrow> mdb_id list \<Rightarrow> mdb_id list" where
  "realloc_cells fresh nwords cells =
     take (nwords - 1) cells @ map fresh [length cells..<nwords - 1]"

definition mdb_midl_alloc :: "bool \<Rightarrow> (nat \<Rightarrow> mdb_id) \<Rightarrow> nat \<Rightarrow> midl option" where
  "mdb_midl_alloc mem_ok fresh num =
     (if mem_ok
      then Some \<lparr>ids_alloc = of_nat num, ids_cells = (realloc_cells fresh (num + 2) [])[0 := 0]\<rparr>
      else None)"

definition mdb_midl_shrink :: "bool \<Rightarrow> (nat \<Rightarrow> mdb_id) \<Rightarrow> midl \<Rightarrow> midl" where
  "mdb_midl_shrink mem_ok fresh idp =
     (if of_nat MDB_IDL_UM_MAX < ids_alloc idp \<and> mem_ok
      then \<lparr>ids_alloc = of_nat MDB_IDL_UM_MAX,
            ids_cells = realloc_cells fresh (MDB_IDL_UM_MAX + 2) (ids_cells idp)\<rparr>
      else idp)"

text \<open>Return codes: \<open>Inl ENOMEM\<close> is the error return, \<open>Inr\<close> the list after the call; the outer option is
  \<open>None\<close> on an access outside the block.\<close>

datatype midl_err = ENOMEM

definition mdb_midl_grow :: "bool \<Rightarrow> (nat \<Rightarrow> mdb_id) \<Rightarrow> midl \<Rightarrow> 32 word \<Rightarrow> midl_err + midl" where
  "mdb_midl_grow mem_ok fresh idp num =
     (if mem_ok
      then Inr \<lparr>ids_alloc = ids_alloc idp + scast num,
                ids_cells = realloc_cells fresh (unat (ids_alloc idp + scast num + 2)) (ids_cells idp)\<rparr>
      else Inl ENOMEM)"

definition mdb_midl_need :: "bool \<Rightarrow> (nat \<Rightarrow> mdb_id) \<Rightarrow> midl \<Rightarrow> 32 word \<Rightarrow> (midl_err + midl) option" where
  "mdb_midl_need mem_ok fresh idp num =
     do { c \<leftarrow> rd (ids_cells idp) 0;
          let num = num + ucast c;
          Some (if ids_alloc idp < ucast num
                then (let num = and (num + num div 4 + (256 + 2)) (- 256) in
                      if mem_ok
                      then Inr \<lparr>ids_alloc = ucast (num - 2),
                                ids_cells = realloc_cells fresh (unat num) (ids_cells idp)\<rparr>
                      else Inl ENOMEM)
                else Inr idp) }"

subsection \<open>Appending\<close>

definition mdb_midl_append ::
    "bool \<Rightarrow> (nat \<Rightarrow> mdb_id) \<Rightarrow> midl \<Rightarrow> mdb_id \<Rightarrow> (midl_err + midl) option" where
  "mdb_midl_append mem_ok fresh idp idv =
     do { c \<leftarrow> rd (ids_cells idp) 0;
          case (if ids_alloc idp \<le> c then mdb_midl_grow mem_ok fresh idp (of_nat MDB_IDL_UM_MAX)
                else Inr idp) of
            Inl e \<Rightarrow> Some (Inl e)
          | Inr ids \<Rightarrow>
              do { cells \<leftarrow> wr (ids_cells ids) 0 (c + 1);
                   cells \<leftarrow> wr cells (unat (c + 1)) idv;
                   Some (Inr (ids\<lparr>ids_cells := cells\<rparr>)) } }"

text \<open>\<open>memcpy(&dst[d], &src[s], n * sizeof(MDB_ID))\<close>, element by element.\<close>

fun copy_ids :: "mdb_id list \<Rightarrow> nat \<Rightarrow> mdb_id list \<Rightarrow> nat \<Rightarrow> nat \<Rightarrow> mdb_id list option" where
  "copy_ids dst d src s 0 = Some dst"
| "copy_ids dst d src s (Suc n) =
     do { x \<leftarrow> rd src s; dst \<leftarrow> wr dst d x; copy_ids dst (Suc d) src (Suc s) n }"

definition mdb_midl_append_list ::
    "bool \<Rightarrow> (nat \<Rightarrow> mdb_id) \<Rightarrow> midl \<Rightarrow> mdb_id list \<Rightarrow> (midl_err + midl) option" where
  "mdb_midl_append_list mem_ok fresh idp app =
     do { c \<leftarrow> rd (ids_cells idp) 0;
          a \<leftarrow> rd app 0;
          case (if ids_alloc idp \<le> c + a then mdb_midl_grow mem_ok fresh idp (ucast a)
                else Inr idp) of
            Inl e \<Rightarrow> Some (Inl e)
          | Inr ids \<Rightarrow>
              do { cells \<leftarrow> copy_ids (ids_cells ids) (unat (c + 1)) app 1 (unat a);
                   cells \<leftarrow> wr cells 0 (c + a);
                   Some (Inr (ids\<lparr>ids_cells := cells\<rparr>)) } }"

fun append_range_loop :: "mdb_id list \<Rightarrow> nat \<Rightarrow> nat \<Rightarrow> mdb_id \<Rightarrow> mdb_id list option" where
  "append_range_loop cells len 0 idv = Some cells"
| "append_range_loop cells len (Suc n) idv =
     do { cells \<leftarrow> wr cells (len + Suc n) idv; append_range_loop cells len n (idv + 1) }"

definition mdb_midl_append_range ::
    "bool \<Rightarrow> (nat \<Rightarrow> mdb_id) \<Rightarrow> midl \<Rightarrow> mdb_id \<Rightarrow> 32 word \<Rightarrow> (midl_err + midl) option" where
  "mdb_midl_append_range mem_ok fresh idp idv n =
     do { len \<leftarrow> rd (ids_cells idp) 0;
          case (if ids_alloc idp < len + ucast n
                then mdb_midl_grow mem_ok fresh idp (or n (of_nat MDB_IDL_UM_MAX))
                else Inr idp) of
            Inl e \<Rightarrow> Some (Inl e)
          | Inr ids \<Rightarrow>
              do { cells \<leftarrow> wr (ids_cells ids) 0 (len + ucast n);
                   cells \<leftarrow> append_range_loop cells (unat len) (unat n) idv;
                   Some (Inr (ids\<lparr>ids_cells := cells\<rparr>)) } }"

definition mdb_midl_xappend :: "mdb_id list \<Rightarrow> mdb_id \<Rightarrow> mdb_id list option" where
  "mdb_midl_xappend idl idv =
     do { c \<leftarrow> rd idl 0; idl \<leftarrow> wr idl 0 (c + 1); wr idl (unat (c + 1)) idv }"

subsection \<open>Merging\<close>

text \<open>The inner \<open>for\<close> of \<open>mdb_midl_xmerge\<close>: shift the IDs below \<open>merge_id\<close> up. Its state is the array, the
  scan position \<open>j\<close>, the store position \<open>k\<close> and \<open>old_id\<close>.\<close>

fun xmerge_shift ::
    "mdb_id list \<Rightarrow> mdb_id \<Rightarrow> nat \<Rightarrow> nat \<Rightarrow> mdb_id \<Rightarrow> (mdb_id list \<times> nat \<times> nat \<times> mdb_id) option" where
  "xmerge_shift idl merge_id j k old_id =
     (if old_id < merge_id then
        case j of
          0 \<Rightarrow> None
        | Suc j' \<Rightarrow>
            do { idl \<leftarrow> wr idl k old_id;
                 old_id \<leftarrow> rd idl j';
                 xmerge_shift idl merge_id j' (k - 1) old_id }
      else Some (idl, j, k, old_id))"

declare xmerge_shift.simps [simp del]

fun xmerge_loop ::
    "mdb_id list \<Rightarrow> mdb_id list \<Rightarrow> nat \<Rightarrow> nat \<Rightarrow> nat \<Rightarrow> mdb_id \<Rightarrow> mdb_id list option" where
  "xmerge_loop idl merge 0 j k old_id = Some idl"
| "xmerge_loop idl merge (Suc i) j k old_id =
     do { merge_id \<leftarrow> rd merge (Suc i);
          (idl, j, k, old_id) \<leftarrow> xmerge_shift idl merge_id j k old_id;
          idl \<leftarrow> wr idl k merge_id;
          xmerge_loop idl merge i j (k - 1) old_id }"

definition mdb_midl_xmerge :: "mdb_id list \<Rightarrow> mdb_id list \<Rightarrow> mdb_id list option" where
  "mdb_midl_xmerge idl merge =
     do { i \<leftarrow> rd merge 0;
          j \<leftarrow> rd idl 0;
          let total = i + j;
          idl \<leftarrow> wr idl 0 (- 1);
          old_id \<leftarrow> rd idl (unat j);
          idl \<leftarrow> xmerge_loop idl merge (unat i) (unat j) (unat total) old_id;
          wr idl 0 total }"

subsection \<open>Well-formed lists and their elements\<close>

definition idl_count :: "mdb_id list \<Rightarrow> nat" where
  "idl_count cells = unat (hd cells)"

definition idl_ok :: "mdb_id list \<Rightarrow> bool" where
  "idl_ok cells \<longleftrightarrow> cells \<noteq> [] \<and> idl_count cells < length cells"

definition idl_elems :: "mdb_id list \<Rightarrow> mdb_id list" where
  "idl_elems cells = take (idl_count cells) (tl cells)"

definition midl_wf :: "midl \<Rightarrow> bool" where
  "midl_wf m \<longleftrightarrow> length (ids_cells m) = Suc (unat (ids_alloc m)) \<and> idl_ok (ids_cells m)"

abbreviation desc :: "mdb_id list \<Rightarrow> bool" where
  "desc \<equiv> sorted_wrt (\<ge>)"

lemma idl_count_nth: "cells \<noteq> [] \<Longrightarrow> idl_count cells = unat (cells ! 0)"
  by (simp add: idl_count_def hd_conv_nth)

lemma length_idl_elems: "idl_ok cells \<Longrightarrow> length (idl_elems cells) = idl_count cells"
  by (auto simp: idl_ok_def idl_elems_def)

lemma idl_elems_nth: "idl_ok cells \<Longrightarrow> i < idl_count cells \<Longrightarrow> idl_elems cells ! i = cells ! Suc i"
  by (auto simp: idl_ok_def idl_elems_def nth_tl)

lemma idl_elems_nth1: "idl_ok cells \<Longrightarrow> 1 \<le> i \<Longrightarrow> i \<le> idl_count cells \<Longrightarrow> cells ! i = idl_elems cells ! (i - 1)"
  using idl_elems_nth [of cells "i - 1"] by simp

lemma set_idl_elems:
  assumes "idl_ok cells"
  shows "x \<in> set (idl_elems cells) \<longleftrightarrow> (\<exists>i. 1 \<le> i \<and> i \<le> idl_count cells \<and> cells ! i = x)"
proof
  assume "x \<in> set (idl_elems cells)"
  then obtain k where "k < idl_count cells" "idl_elems cells ! k = x"
    using assms by (auto simp: in_set_conv_nth length_idl_elems)
  then show "\<exists>i. 1 \<le> i \<and> i \<le> idl_count cells \<and> cells ! i = x"
    using assms by (intro exI [of _ "Suc k"]) (simp add: idl_elems_nth)
next
  assume "\<exists>i. 1 \<le> i \<and> i \<le> idl_count cells \<and> cells ! i = x"
  then obtain i where i: "1 \<le> i" "i \<le> idl_count cells" "cells ! i = x" by blast
  then have "idl_elems cells ! (i - 1) = x" "i - 1 < length (idl_elems cells)"
    using assms by (simp_all add: idl_elems_nth length_idl_elems)
  then show "x \<in> set (idl_elems cells)" by (metis nth_mem)
qed

lemma CMP_simps [simp]:
  "CMP x y < 0 \<longleftrightarrow> x < y" "0 < CMP x y \<longleftrightarrow> y < x" "CMP x y = 0 \<longleftrightarrow> x = y"
  "0 \<le> CMP x y \<longleftrightarrow> y \<le> x" "CMP x y \<le> 0 \<longleftrightarrow> x \<le> y"
  by (auto simp: CMP_def)

lemma CMP_mono1: "x \<le> x' \<Longrightarrow> CMP x y \<le> CMP x' y"
  by (auto simp: CMP_def)

lemma CMP_mono2: "y \<le> y' \<Longrightarrow> CMP x y' \<le> CMP x y"
  by (auto simp: CMP_def)

interpretation midl_bs: probe_search "mdb_midl_search_loop ids idv"
    "\<lambda>i. map_option (\<lambda>x. CMP x idv) (rd ids i)" for ids idv
proof
  fix base cursor val n
  show "mdb_midl_search_loop ids idv base cursor val n = (if 0 < n then
       (case map_option (\<lambda>x. CMP x idv) (rd ids (u32n (base + n div 2 + 1))) of
          None \<Rightarrow> None
        | Some v \<Rightarrow>
            if v < 0 then mdb_midl_search_loop ids idv base (u32n (base + n div 2 + 1)) v (n div 2)
            else if v > 0
            then mdb_midl_search_loop ids idv (u32n (base + n div 2 + 1)) (u32n (base + n div 2 + 1)) v (n - (n div 2 + 1))
            else Some (u32n (base + n div 2 + 1)))
     else Some (if val > 0 then u32n (cursor + 1) else cursor))"
    by (subst mdb_midl_search_loop.simps) (auto simp: Let_def split: option.splits)
qed

lemma mdb_midl_search_found_at:
  assumes ok: "idl_ok cells" and sorted: "desc (idl_elems cells)"
    and small: "idl_count cells + 1 < 2 ^ 32"
  shows "\<exists>x. mdb_midl_search cells idv = Some x \<and>
    found_at (\<lambda>i. CMP (cells ! i) idv) (idl_count cells) x"
proof -
  let ?N = "idl_count cells" and ?v = "\<lambda>i. CMP (cells ! i) idv"
  have "\<exists>x. mdb_midl_search_loop cells idv 0 1 0 ?N = Some x \<and> found_at ?v ?N x"
  proof (rule midl_bs.search_correct)
    fix i assume "1 \<le> i" "i \<le> ?N"
    then show "map_option (\<lambda>x. CMP x idv) (rd cells i) = Some (?v i)"
      using ok by (simp add: idl_ok_def mem_simps)
  next
    fix i j assume "1 \<le> i" "i < j" "j \<le> ?N"
    then have "cells ! j \<le> cells ! i"
      using ok sorted sorted_wrt_nth_less [OF sorted, of "i - 1" "j - 1"]
      by (simp add: length_idl_elems idl_elems_nth)
    then show "?v j \<le> ?v i" by (rule CMP_mono1)
  qed (use small in simp)
  then show ?thesis
    using ok small by (auto simp: mdb_midl_search_def idl_ok_def mem_simps idl_count_nth)
qed

subsection \<open>Allocation and appending keep the list well formed\<close>

lemma length_realloc_cells [simp]:
  "length cells \<le> n - 1 \<Longrightarrow> length (realloc_cells fresh n cells) = n - 1"
  by (simp add: realloc_cells_def)

lemma hd_realloc_cells:
  "cells \<noteq> [] \<Longrightarrow> length cells \<le> n - 1 \<Longrightarrow> hd (realloc_cells fresh n cells) = hd cells"
  by (simp add: realloc_cells_def)

lemma idl_elems_realloc:
  assumes "idl_ok cells" "length cells \<le> n - 1"
  shows "idl_elems (realloc_cells fresh n cells) = idl_elems cells"
    and "idl_count (realloc_cells fresh n cells) = idl_count cells"
    and "idl_ok (realloc_cells fresh n cells)"
proof -
  have eq: "realloc_cells fresh n cells = cells @ map fresh [length cells..<n - 1]"
    using assms(2) by (simp add: realloc_cells_def)
  have ne: "cells \<noteq> []" and lt: "idl_count cells < length cells"
    using assms(1) by (auto simp: idl_ok_def)
  show cnt: "idl_count (realloc_cells fresh n cells) = idl_count cells"
    using ne by (simp add: eq idl_count_def)
  show "idl_elems (realloc_cells fresh n cells) = idl_elems cells"
    unfolding idl_elems_def cnt using ne lt by (simp add: eq)
  show "idl_ok (realloc_cells fresh n cells)"
    using ne lt by (simp add: idl_ok_def cnt) (simp add: eq)
qed

lemma mdb_midl_alloc_wf:
  assumes "num < 2 ^ 63" "mdb_midl_alloc ok fresh num = Some m"
  shows "midl_wf m \<and> idl_elems (ids_cells m) = [] \<and> unat (ids_alloc m) = num"
proof -
  have m: "m = \<lparr>ids_alloc = of_nat num, ids_cells = (0 # map fresh [1..<num + 1])\<rparr>"
    using assms(2) by (auto simp: mdb_midl_alloc_def realloc_cells_def upt_conv_Cons split: if_splits)
  show ?thesis
    using assms(1) by (auto simp: m midl_wf_def idl_ok_def idl_elems_def idl_count_def unat_of_nat)
qed

text \<open>Room for the cell count and the two words of bookkeeping in a \<open>size_t\<close>.\<close>

lemma mdb_midl_grow_wf:
  assumes wf: "midl_wf m" and num: "unat num < 2 ^ 31"
    and room: "unat (ids_alloc m) + unat num + 2 < 2 ^ 64"
    and grow: "mdb_midl_grow ok fresh m num = Inr m'"
  shows "midl_wf m' \<and> idl_elems (ids_cells m') = idl_elems (ids_cells m) \<and>
    ids_cells m' ! 0 = ids_cells m ! 0 \<and> unat (ids_alloc m') = unat (ids_alloc m) + unat num"
proof -
  have sc: "unat (scast num :: mdb_id) = unat num"
    using num by (rule scast_small)
  have al: "unat (ids_alloc m + scast num) = unat (ids_alloc m) + unat num"
    using room sc by (simp add: unat_word_ariths)
  have al2: "unat (ids_alloc m + scast num + 2) = unat (ids_alloc m) + unat num + 2"
    using room sc by (simp add: unat_word_ariths)
  have m': "m' = \<lparr>ids_alloc = ids_alloc m + scast num,
      ids_cells = realloc_cells fresh (unat (ids_alloc m) + unat num + 2) (ids_cells m)\<rparr>"
    using grow al2 by (auto simp: mdb_midl_grow_def split: if_splits)
  have len: "length (ids_cells m) \<le> unat (ids_alloc m) + unat num + 2 - 1" and ok: "idl_ok (ids_cells m)"
    using wf by (auto simp: midl_wf_def)
  show ?thesis
    using idl_elems_realloc [OF ok len] hd_realloc_cells [OF _ len] ok len al m'
    by (auto simp: midl_wf_def idl_ok_def hd_conv_nth realloc_cells_def nth_append)
qed

lemma idl_cells_cons: "idl_ok cells \<Longrightarrow> cells = hd cells # tl cells"
  by (simp add: idl_ok_def)

text \<open>Storing a new last element and bumping the count.\<close>

lemma idl_store_last:
  assumes ok: "idl_ok cells" and room: "idl_count cells + 1 < length cells"
    and len: "length cells < 2 ^ 64"
  shows "idl_ok (cells[0 := cells ! 0 + 1, Suc (idl_count cells) := x])"
    and "idl_elems (cells[0 := cells ! 0 + 1, Suc (idl_count cells) := x]) = idl_elems cells @ [x]"
    and "unat (cells ! 0 + 1) = Suc (idl_count cells)"
proof -
  obtain c cs where cells: "cells = c # cs" using ok by (cases cells) (auto simp: idl_ok_def)
  have cnt: "unat (c + 1) = Suc (unat c)"
    using room len by (simp add: cells idl_count_def unat_word_ariths)
  show "unat (cells ! 0 + 1) = Suc (idl_count cells)"
    using cnt by (simp add: cells idl_count_def)
  show "idl_ok (cells[0 := cells ! 0 + 1, Suc (idl_count cells) := x])"
    using room cnt by (simp add: cells idl_ok_def idl_count_def)
  show "idl_elems (cells[0 := cells ! 0 + 1, Suc (idl_count cells) := x]) = idl_elems cells @ [x]"
    using room cnt by (simp add: cells idl_elems_def idl_count_def take_Suc_conv_app_nth)
qed

lemma mdb_midl_append_Inr:
  assumes wf: "midl_wf m" and room: "unat (ids_alloc m) + 2 ^ 17 + 2 < 2 ^ 64"
  shows "\<exists>m'. mdb_midl_append True fresh m idv = Some (Inr m') \<and> midl_wf m' \<and>
    idl_elems (ids_cells m') = idl_elems (ids_cells m) @ [idv]"
proof -
  let ?m1 = "if ids_alloc m \<le> ids_cells m ! 0 then mdb_midl_grow True fresh m (of_nat MDB_IDL_UM_MAX) else Inr m"
  obtain m1 where m1: "?m1 = Inr m1" by (cases ?m1) (auto simp: mdb_midl_grow_def split: if_splits)
  have um: "unat (of_nat MDB_IDL_UM_MAX :: 32 word) = MDB_IDL_UM_MAX"
    by (simp add: unat_of_nat MDB_IDL_UM_MAX_def)
  have c0: "idl_count (ids_cells m) = unat (ids_cells m ! 0)"
    using wf by (simp add: midl_wf_def idl_ok_def idl_count_nth)
  have *: "midl_wf m1 \<and> idl_elems (ids_cells m1) = idl_elems (ids_cells m) \<and>
      ids_cells m1 ! 0 = ids_cells m ! 0 \<and> unat (ids_cells m1 ! 0) < unat (ids_alloc m1) \<and>
      unat (ids_alloc m1) < 2 ^ 64 - 1"
  proof (cases "ids_alloc m \<le> ids_cells m ! 0")
    case True
    have "midl_wf m1 \<and> idl_elems (ids_cells m1) = idl_elems (ids_cells m) \<and>
        ids_cells m1 ! 0 = ids_cells m ! 0 \<and>
        unat (ids_alloc m1) = unat (ids_alloc m) + unat (of_nat MDB_IDL_UM_MAX :: 32 word)"
      using True m1 wf room um by (intro mdb_midl_grow_wf [where fresh = fresh]) (auto simp: MDB_IDL_UM_MAX_def)
    then show ?thesis
      using wf room um c0 by (auto simp: midl_wf_def idl_ok_def MDB_IDL_UM_MAX_def)
  next
    case False
    then have "m1 = m" using m1 by simp
    then show ?thesis using False wf room by (auto simp: word_less_nat_alt not_le)
  qed
  let ?cs = "ids_cells m1"
  have ok: "idl_ok ?cs" and len: "length ?cs = Suc (unat (ids_alloc m1))" and cnt: "idl_count ?cs = unat (?cs ! 0)"
    using * by (auto simp: midl_wf_def idl_ok_def idl_count_nth)
  have room': "idl_count ?cs + 1 < length ?cs" and len': "length ?cs < 2 ^ 64"
    using * len cnt by auto
  note st = idl_store_last(1,2) [OF ok room' len', of idv] and st3 = idl_store_last(3) [OF ok room' len']
  have "mdb_midl_append True fresh m idv =
      Some (Inr (m1\<lparr>ids_cells := ?cs[0 := ?cs ! 0 + 1, Suc (idl_count ?cs) := idv]\<rparr>))"
    using wf m1 * room' st3 by (auto simp: mdb_midl_append_def midl_wf_def idl_ok_def mem_simps)
  then show ?thesis
    using st * len by (auto simp: midl_wf_def)
qed
lemma unat_and_neg256: "unat (and (x::32 word) (- 256)) = unat x div 256 * 256"
proof -
  have m: "(- 256 :: 32 word) = not (mask 8)" by (simp add: mask_eq_exp_minus_1)
  have "and x (- 256) = push_bit 8 (drop_bit 8 x)"
    unfolding m by (rule bit_word_eqI) (auto simp: bit_simps)
  moreover have "unat (push_bit 8 (drop_bit 8 x)) = take_bit 32 (unat x div 256 * 256)"
    using unat_u32_less [of x]
    by (simp only: unsigned_push_bit_eq unsigned_drop_bit_eq)
       (simp add: push_bit_eq_mult drop_bit_eq_div take_bit_nat_eq_self)
  moreover have "unat x div 256 * 256 < 2 ^ 32"
    using unat_u32_less [of x] by (simp add: le_less_trans [OF div_times_less_eq_dividend])
  ultimately show ?thesis by (simp add: take_bit_nat_eq_self)
qed

lemma mdb_midl_need_Inr:
  assumes wf: "midl_wf m"
    and small: "2 * (unat num + idl_count (ids_cells m)) + 258 < 2 ^ 32"
  shows "\<exists>m'. mdb_midl_need True fresh m num = Some (Inr m') \<and> midl_wf m' \<and>
    idl_elems (ids_cells m') = idl_elems (ids_cells m) \<and> ids_cells m' ! 0 = ids_cells m ! 0 \<and>
    idl_count (ids_cells m) + unat num \<le> unat (ids_alloc m')"
proof -
  let ?c = "ids_cells m ! 0"
  let ?n = "num + ucast ?c"
  let ?k = "and (?n + ?n div 4 + (256 + 2)) (- 256)"
  have ok: "idl_ok (ids_cells m)" and ne: "ids_cells m \<noteq> []" and len: "length (ids_cells m) = Suc (unat (ids_alloc m))"
    using wf by (auto simp: midl_wf_def idl_ok_def)
  have c: "idl_count (ids_cells m) = unat ?c" using ne by (rule idl_count_nth)
  have n: "unat ?n = unat num + unat ?c"
    using small c by (simp add: unat_word_ariths ucast_small)
  have n4: "unat (?n + ?n div 4 + (256 + 2)) = unat ?n + unat ?n div 4 + 258"
    using small c n by (simp add: unat_word_ariths unat_div_distrib)
  have k: "unat ?k = (unat ?n + unat ?n div 4 + 258) div 256 * 256"
    unfolding unat_and_neg256 n4 by simp
  have "unat ?n + unat ?n div 4 + 258 < unat ?k + 256"
    unfolding k using dividend_less_div_times [of 256 "unat ?n + unat ?n div 4 + 258"] by simp
  then have k1: "unat ?n + 3 \<le> unat ?k" by linarith
  have k2: "unat (?k - 2) = unat ?k - 2" 
    using k1 unat_sub [of 2 ?k] by (simp add: word_le_nat_alt)
  show ?thesis
  proof (cases "ids_alloc m < ucast ?n")
    case True
    then have al: "unat (ids_alloc m) < unat ?n"
      by (simp add: word_less_nat_alt unat_ucast_up)
    have len': "length (ids_cells m) \<le> unat ?k - 1" using al k1 len by simp
    let ?m' = "\<lparr>ids_alloc = ucast (?k - 2), ids_cells = realloc_cells fresh (unat ?k) (ids_cells m)\<rparr>"
    have "mdb_midl_need True fresh m num = Some (Inr ?m')"
      using True ne by (simp add: mdb_midl_need_def mem_simps Let_def)
    moreover have "midl_wf ?m'"
      using idl_elems_realloc(3) [OF ok len'] len' k1 k2 by (simp add: midl_wf_def unat_ucast_up)
    moreover have "ids_cells ?m' ! 0 = ?c"
      using ne len' by (simp add: realloc_cells_def nth_append)
    ultimately show ?thesis
      using idl_elems_realloc(1) [OF ok len'] k1 k2 n c by (intro exI [of _ ?m']) (simp add: unat_ucast_up)
  next
    case False
    then have "mdb_midl_need True fresh m num = Some (Inr m)"
      using ne by (simp add: mdb_midl_need_def mem_simps Let_def)
    then show ?thesis using False wf n c by (auto simp: word_less_nat_alt unat_ucast_up)
  qed
qed

lemma copy_ids_eq:
  "d + n \<le> length dst \<Longrightarrow> s + n \<le> length src \<Longrightarrow>
     copy_ids dst d src s n = Some (take d dst @ take n (drop s src) @ drop (d + n) dst)"
proof (induction n arbitrary: dst d s)
  case 0
  then show ?case by simp
next
  case (Suc n)
  have "copy_ids dst d src s (Suc n) = copy_ids (dst[d := src ! s]) (Suc d) src (Suc s) n"
    using Suc.prems by (simp add: mem_simps)
  also have "\<dots> = Some (take (Suc d) (dst[d := src ! s]) @ take n (drop (Suc s) src) @
      drop (Suc d + n) (dst[d := src ! s]))"
    using Suc.prems by (intro Suc.IH) auto
  also have "take (Suc d) (dst[d := src ! s]) = take d dst @ [src ! s]"
    using Suc.prems by (simp add: take_Suc_conv_app_nth)
  finally show ?case
    using Suc.prems by (simp add: Cons_nth_drop_Suc [symmetric])
qed

lemma append_range_loop_eq:
  "len + n < length cells \<Longrightarrow>
     append_range_loop cells len n idv =
       Some (take (len + 1) cells @ map (\<lambda>k. idv + of_nat (n - 1 - k)) [0..<n] @ drop (len + n + 1) cells)"
proof (induction n arbitrary: cells idv)
  case 0
  then show ?case by simp
next
  case (Suc n)
  let ?c = "cells[len + Suc n := idv]"
  have "append_range_loop cells len (Suc n) idv = append_range_loop ?c len n (idv + 1)"
    using Suc.prems by (simp add: mem_simps)
  also have "\<dots> = Some (take (len + 1) ?c @ map (\<lambda>k. idv + 1 + of_nat (n - 1 - k)) [0..<n] @ drop (len + n + 1) ?c)"
    using Suc.prems by (intro Suc.IH) auto
  also have "drop (len + n + 1) ?c = idv # drop (len + Suc n + 1) cells"
    using Suc.prems by (simp add: drop_update_swap Cons_nth_drop_Suc [symmetric])
  also have "map (\<lambda>k. idv + 1 + of_nat (n - 1 - k)) [0..<n] = map (\<lambda>k. idv + of_nat (n - k)) [0..<n]"
  proof (rule map_cong [OF refl])
    fix k assume "k \<in> set [0..<n]"
    then have "n - k = Suc (n - 1 - k)" by auto
    then show "idv + 1 + of_nat (n - 1 - k) = idv + of_nat (n - k)" by simp
  qed
  finally show ?case by simp
qed

lemma xmerge_shift_eq:
  assumes "G \<noteq> []" "merge_id \<le> s"
  shows "\<exists>A1 A2 G'. A = A1 @ A2 \<and> length G' = length G \<and> (\<forall>x \<in> set A2. x < merge_id) \<and>
    merge_id \<le> last (s # A1) \<and>
    xmerge_shift (s # A @ G @ R) merge_id (length A) (length A + length G) (last (s # A)) =
      Some (s # A1 @ G' @ A2 @ R, length A1, length A1 + length G, last (s # A1))"
  using assms
proof (induction A arbitrary: G R rule: rev_induct)
  case Nil
  then show ?case by (subst xmerge_shift.simps) (auto intro!: exI [of _ G])
next
  case (snoc a B)
  show ?case
  proof (cases "a < merge_id")
    case False
    then show ?thesis
      by (intro exI [of _ "B @ [a]"] exI [of _ "[]"] exI [of _ G]) (subst xmerge_shift.simps, auto)
  next
    case True
    obtain G0 g where G: "G = G0 @ [g]" using snoc.prems(1) by (cases G rule: rev_cases) auto
    let ?G = "a # G0"
    have upd: "(s # (B @ [a]) @ G @ R)[length (B @ [a]) + length G := a] = s # B @ ?G @ (a # R)"
      by (simp add: G list_update_append)
    have nth: "(s # B @ ?G @ (a # R)) ! length B = last (s # B)"
      by (cases B rule: rev_cases) (auto simp: nth_append nth_Cons')
    have "xmerge_shift (s # (B @ [a]) @ G @ R) merge_id (length (B @ [a])) (length (B @ [a]) + length G) (last (s # B @ [a]))
        = xmerge_shift (s # B @ ?G @ (a # R)) merge_id (length B) (length B + length ?G) (last (s # B))"
      using True upd nth by (subst xmerge_shift.simps) (simp add: mem_simps G)
    moreover obtain A1 A2 G' where "B = A1 @ A2" "length G' = length ?G" "\<forall>x \<in> set A2. x < merge_id"
        "merge_id \<le> last (s # A1)"
        "xmerge_shift (s # B @ ?G @ (a # R)) merge_id (length B) (length B + length ?G) (last (s # B)) =
          Some (s # A1 @ G' @ A2 @ (a # R), length A1, length A1 + length ?G, last (s # A1))"
      using snoc.IH [of ?G "a # R"] snoc.prems(2) by auto
    ultimately show ?thesis using True
      by (intro exI [of _ A1] exI [of _ "A2 @ [a]"] exI [of _ G']) (auto simp: G)
  qed
qed

subsection \<open>Merging two descending lists\<close>

lemma desc_snoc_ge: "desc (xs @ [y]) \<Longrightarrow> x \<in> set xs \<Longrightarrow> y \<le> x"
  by (simp add: sorted_wrt_append)

lemma xmerge_loop_eq:
  assumes "desc A" "desc (take n (tl merge))" "n < length merge" "length G = n"
    and max: "\<And>m. m \<le> s"
  shows "\<exists>T. desc T \<and> mset T = mset A + mset (take n (tl merge)) \<and>
    xmerge_loop (s # A @ G @ R) merge n (length A) (length A + n) (last (s # A)) = Some (s # T @ R)"
  using assms(1-4)
proof (induction n arbitrary: A G R)
  case 0
  then show ?case by auto
next
  case (Suc n)
  let ?m = "merge ! Suc n"
  have M: "take (Suc n) (tl merge) = take n (tl merge) @ [?m]"
    using Suc.prems(3) by (simp add: take_Suc_conv_app_nth nth_tl)
  have Gne: "G \<noteq> []" using Suc.prems(4) by auto
  obtain A1 A2 G' where A: "A = A1 @ A2" and G': "length G' = Suc n" and A2: "\<forall>x \<in> set A2. x < ?m"
      and A1: "?m \<le> last (s # A1)"
      and sh: "xmerge_shift (s # A @ G @ R) ?m (length A) (length A + Suc n) (last (s # A)) =
        Some (s # A1 @ G' @ A2 @ R, length A1, length A1 + Suc n, last (s # A1))"
    using xmerge_shift_eq [OF Gne max [of ?m], where A = A and R = R] unfolding Suc.prems(4) by blast
  obtain G0 g where G0: "G' = G0 @ [g]" "length G0 = n" using G' by (cases G' rule: rev_cases) auto
  have upd: "(s # A1 @ G' @ A2 @ R)[length A1 + Suc n := ?m] = s # A1 @ G0 @ (?m # A2 @ R)"
    using G0 by (simp add: list_update_append)
  obtain T where T: "desc T" "mset T = mset A1 + mset (take n (tl merge))"
      and eq: "xmerge_loop (s # A1 @ G0 @ (?m # A2 @ R)) merge n (length A1) (length A1 + n) (last (s # A1)) =
        Some (s # T @ (?m # A2 @ R))"
    using Suc.IH [of A1 G0 "?m # A2 @ R"] Suc.prems M G0 A by (auto simp: sorted_wrt_append)
  have "xmerge_loop (s # A @ G @ R) merge (Suc n) (length A) (length A + Suc n) (last (s # A)) =
      Some (s # (T @ ?m # A2) @ R)"
    using sh upd eq G' Suc.prems(3) by (simp add: mem_simps)
  moreover have "desc (T @ ?m # A2)"
  proof -
    have "?m \<le> x" if "x \<in> set A1" for x
      using A1 that Suc.prems(1) A by (cases A1 rule: rev_cases) (auto simp: sorted_wrt_append)
    moreover have "?m \<le> x" if "x \<in> set (take n (tl merge))" for x
      using desc_snoc_ge [of "take n (tl merge)" ?m x] Suc.prems(2) M that by simp
    moreover have "set T = set A1 \<union> set (take n (tl merge))"
      using T(2) by (metis set_mset_mset set_mset_union)
    ultimately have "\<forall>x \<in> set T. ?m \<le> x" by auto
    then show ?thesis
      using T(1) A2 Suc.prems(1) A by (fastforce simp: sorted_wrt_append)
  qed
  ultimately show ?case
    using T(2) M A by (intro exI [of _ "T @ ?m # A2"]) simp
qed

lemma desc_mset_unique: "desc xs \<Longrightarrow> mset xs = mset ys \<Longrightarrow> xs = rev (sort ys)"
proof -
  assume "desc xs" "mset xs = mset ys"
  then have "sorted (rev xs)" "mset (rev xs) = mset ys"
    by (simp_all add: sorted_wrt_rev)
  then have "sort ys = rev xs" by (simp add: properties_for_sort)
  then show ?thesis by simp
qed

lemma mdb_midl_xmerge_eq:
  assumes ok: "idl_ok idl" "idl_ok merge" and sorted: "desc (idl_elems idl)" "desc (idl_elems merge)"
    and room: "idl_count idl + idl_count merge < length idl" and len: "length idl < 2 ^ 64"
  shows "\<exists>idl'. mdb_midl_xmerge idl merge = Some idl' \<and> idl_ok idl' \<and> length idl' = length idl \<and>
    idl_elems idl' = rev (sort (idl_elems idl @ idl_elems merge))"
proof -
  obtain c cs where idl: "idl = c # cs" using ok(1) by (cases idl) (auto simp: idl_ok_def)
  obtain d ds where mrg: "merge = d # ds" using ok(2) by (cases merge) (auto simp: idl_ok_def)
  let ?n = "unat d" and ?j = "unat c"
  let ?A = "take ?j cs" and ?G = "take ?n (drop ?j cs)" and ?R = "drop (?j + ?n) cs"
  have lens: "?j + ?n \<le> length cs" "?n \<le> length ds"
    using room ok by (auto simp: idl mrg idl_count_def idl_ok_def)
  have tot: "unat (d + c) = ?j + ?n"
    using room len by (simp add: idl mrg idl_count_def unat_word_ariths)
  have split: "- 1 # cs = - 1 # ?A @ ?G @ ?R"
    using append_take_drop_id [of ?j cs] append_take_drop_id [of ?n "drop ?j cs"]
    by (simp add: add.commute)
  have lst: "(- 1 # cs) ! ?j = last (- 1 # ?A)"
    using lens by (cases "?j") (auto simp: last_conv_nth)
  have max: "\<And>m. m \<le> (- 1 :: mdb_id)" by simp
  obtain T where T: "desc T" "mset T = mset ?A + mset (take ?n (tl merge))"
      and eq: "xmerge_loop (- 1 # ?A @ ?G @ ?R) merge ?n (length ?A) (length ?A + ?n) (last (- 1 # ?A)) =
        Some (- 1 # T @ ?R)"
    using xmerge_loop_eq [of ?A ?n merge ?G "- 1" ?R] sorted lens max
    by (auto simp: idl mrg idl_elems_def idl_count_def)
  have "length T = ?j + ?n"
    using arg_cong [OF T(2), of size] lens by (simp add: mrg)
  have res: "mdb_midl_xmerge idl merge = Some ((d + c) # T @ ?R)"
    using eq split lst tot lens by (simp add: mdb_midl_xmerge_def idl mrg mem_simps Let_def)
  have cnt: "idl_count ((d + c) # T @ ?R) = length T"
    using tot \<open>length T = ?j + ?n\<close> by (simp add: idl_count_def)
  then have el: "idl_elems ((d + c) # T @ ?R) = T" by (simp add: idl_elems_def)
  moreover have "T = rev (sort (idl_elems idl @ idl_elems merge))"
    using T by (intro desc_mset_unique) (simp_all add: idl mrg idl_elems_def idl_count_def)
  ultimately show ?thesis
    using res cnt lens \<open>length T = ?j + ?n\<close> by (auto simp: idl_ok_def idl)
qed

lemma mdb_midl_grow_True: "\<exists>m'. mdb_midl_grow True fresh m num = Inr m'"
  by (simp add: mdb_midl_grow_def)

text \<open>Overwriting the cells after the current elements and raising the count to match.\<close>

lemma idl_store_block:
  assumes ok: "idl_ok cells" and room: "idl_count cells + length xs < length cells"
    and len: "length cells < 2 ^ 64" and c: "unat c = idl_count cells + length xs"
  defines "cells' \<equiv> c # take (idl_count cells) (tl cells) @ xs @ drop (idl_count cells + length xs) (tl cells)"
  shows "idl_ok cells'" and "idl_elems cells' = idl_elems cells @ xs" and "length cells' = length cells"
proof -
  obtain d ds where cells: "cells = d # ds" using ok by (cases cells) (auto simp: idl_ok_def)
  show l: "length cells' = length cells"
    using room by (simp add: cells'_def cells idl_count_def)
  have "idl_count cells' = idl_count cells + length xs"
    using c unfolding cells'_def by (subst idl_count_def) simp
  then show "idl_ok cells'" using room l by (auto simp: idl_ok_def cells'_def)
  show "idl_elems cells' = idl_elems cells @ xs"
    using c room by (simp add: cells'_def idl_elems_def idl_count_def cells)
qed

lemma mdb_midl_append_list_Inr:
  assumes wf: "midl_wf m" and ok: "idl_ok app" and small: "idl_count app < 2 ^ 31"
    and room: "unat (ids_alloc m) + idl_count app + 2 < 2 ^ 64"
  shows "\<exists>m'. mdb_midl_append_list True fresh m app = Some (Inr m') \<and> midl_wf m' \<and>
    idl_elems (ids_cells m') = idl_elems (ids_cells m) @ idl_elems app"
proof -
  let ?c = "ids_cells m ! 0" and ?a = "app ! 0"
  let ?m1 = "if ids_alloc m \<le> ?c + ?a then mdb_midl_grow True fresh m (ucast ?a) else Inr m"
  obtain m1 where m1: "?m1 = Inr m1" using mdb_midl_grow_True [of fresh m "ucast ?a"] by (cases "ids_alloc m \<le> ?c + ?a") auto
  have ne: "app \<noteq> []" "ids_cells m \<noteq> []" using wf ok by (auto simp: midl_wf_def idl_ok_def)
  have a: "idl_count app = unat ?a" and c: "idl_count (ids_cells m) = unat ?c"
    using ne by (auto simp: idl_count_nth)
  have cl: "unat ?c \<le> unat (ids_alloc m)" using wf c by (auto simp: midl_wf_def idl_ok_def)
  have ua: "unat (ucast ?a :: 32 word) = unat ?a" using small a by (simp add: ucast_small)
  have sum: "unat (?c + ?a) = unat ?c + unat ?a" using room a cl by (simp add: unat_word_ariths)
  have *: "midl_wf m1 \<and> idl_elems (ids_cells m1) = idl_elems (ids_cells m) \<and>
      ids_cells m1 ! 0 = ?c \<and> unat ?c + unat ?a \<le> unat (ids_alloc m1) \<and> unat (ids_alloc m1) < 2 ^ 64 - 1"
  proof (cases "ids_alloc m \<le> ?c + ?a")
    case True
    have "midl_wf m1 \<and> idl_elems (ids_cells m1) = idl_elems (ids_cells m) \<and>
        ids_cells m1 ! 0 = ?c \<and> unat (ids_alloc m1) = unat (ids_alloc m) + unat (ucast ?a :: 32 word)"
      using True m1 wf room ua a small by (intro mdb_midl_grow_wf [where fresh = fresh]) auto
    then show ?thesis using ua cl room a by auto
  next
    case False
    then have "m1 = m" using m1 by simp
    then show ?thesis using False wf room sum by (auto simp: word_less_nat_alt not_le)
  qed
  let ?cs = "ids_cells m1"
  have ok1: "idl_ok ?cs" and len: "length ?cs = Suc (unat (ids_alloc m1))"
    using * by (auto simp: midl_wf_def)
  have cnt: "idl_count ?cs = unat ?c" using * ok1 by (simp add: idl_ok_def idl_count_nth)
  have la: "length (idl_elems app) = unat ?a" using ok a by (simp add: length_idl_elems)
  have ela: "idl_elems app = take (unat ?a) (drop 1 app)" by (simp add: idl_elems_def a drop_Suc)
  have c1: "unat (?c + 1) = Suc (unat ?c)" using cl * len room by (simp add: unat_word_ariths)
  let ?res = "(?c + ?a) # take (unat ?c) (tl ?cs) @ idl_elems app @ drop (unat ?c + unat ?a) (tl ?cs)"
  have "unat ?c + 1 + unat ?a \<le> length ?cs" "1 + unat ?a \<le> length app"
    using * len ok a by (auto simp: idl_ok_def)
  then have cp: "copy_ids ?cs (unat (?c + 1)) app 1 (unat ?a) =
      Some (take (Suc (unat ?c)) ?cs @ idl_elems app @ drop (Suc (unat ?c) + unat ?a) ?cs)"
    unfolding c1 ela by (intro copy_ids_eq) auto
  have "?cs = ?cs ! 0 # tl ?cs" using ok1 by (cases ?cs) (auto simp: idl_ok_def)
  then have "take (Suc (unat ?c)) ?cs @ idl_elems app @ drop (Suc (unat ?c) + unat ?a) ?cs =
      ?cs ! 0 # take (unat ?c) (tl ?cs) @ idl_elems app @ drop (unat ?c + unat ?a) (tl ?cs)"
    by (metis append_Cons drop_Suc_Cons take_Suc_Cons add_Suc)
  then have "mdb_midl_append_list True fresh m app = Some (Inr (m1\<lparr>ids_cells := ?res\<rparr>))"
    using m1 ne cp by (simp add: mdb_midl_append_list_def mem_simps)
  moreover note idl_store_block [OF ok1, of "idl_elems app" "?c + ?a", unfolded cnt la]
  ultimately show ?thesis
    using * len sum by (auto simp: midl_wf_def)
qed

lemma unat_or_less:
  "unat (x::32 word) < 2 ^ k \<Longrightarrow> unat y < 2 ^ k \<Longrightarrow> unat (or x y) < 2 ^ k"
  by (simp add: unsigned_or_eq take_bit_or flip: take_bit_nat_eq_self_iff)

lemma mdb_midl_append_range_Inr:
  assumes wf: "midl_wf m" and small: "unat n < 2 ^ 31"
    and room: "unat (ids_alloc m) + 2 ^ 31 + 2 < 2 ^ 64"
  shows "\<exists>m'. mdb_midl_append_range True fresh m idv n = Some (Inr m') \<and> midl_wf m' \<and>
    idl_elems (ids_cells m') =
      idl_elems (ids_cells m) @ map (\<lambda>k. idv + of_nat (unat n - 1 - k)) [0..<unat n]"
proof -
  let ?c = "ids_cells m ! 0" and ?g = "or n (of_nat MDB_IDL_UM_MAX)"
  let ?m1 = "if ids_alloc m < ?c + ucast n then mdb_midl_grow True fresh m ?g else Inr m"
  obtain m1 where m1: "?m1 = Inr m1"
    using mdb_midl_grow_True [of fresh m ?g] by (cases "ids_alloc m < ?c + ucast n") auto
  have ne: "ids_cells m \<noteq> []" using wf by (auto simp: midl_wf_def idl_ok_def)
  have c: "idl_count (ids_cells m) = unat ?c" using ne by (rule idl_count_nth)
  have cl: "unat ?c \<le> unat (ids_alloc m)" using wf c by (auto simp: midl_wf_def idl_ok_def)
  have sum: "unat (?c + ucast n) = unat ?c + unat n"
    using room cl small by (simp add: unat_word_ariths unat_ucast_up)
  have um: "unat (of_nat MDB_IDL_UM_MAX :: 32 word) < 2 ^ 31"
    by (simp add: unat_of_nat MDB_IDL_UM_MAX_def)
  have g: "unat n \<le> unat ?g" "unat ?g < 2 ^ 31"
    using le_word_or2 [of n] unat_or_less [OF small um] by (simp_all add: word_le_nat_alt)
  have *: "midl_wf m1 \<and> idl_elems (ids_cells m1) = idl_elems (ids_cells m) \<and>
      ids_cells m1 ! 0 = ?c \<and> unat ?c + unat n \<le> unat (ids_alloc m1) \<and> unat (ids_alloc m1) < 2 ^ 64 - 1"
  proof (cases "ids_alloc m < ?c + ucast n")
    case True
    have "midl_wf m1 \<and> idl_elems (ids_cells m1) = idl_elems (ids_cells m) \<and>
        ids_cells m1 ! 0 = ?c \<and> unat (ids_alloc m1) = unat (ids_alloc m) + unat ?g"
      using True m1 wf room g by (intro mdb_midl_grow_wf [where fresh = fresh]) auto
    then show ?thesis using g cl room by auto
  next
    case False
    then have "m1 = m" using m1 by simp
    then show ?thesis using False wf room sum by (auto simp: word_less_nat_alt)
  qed
  let ?cs = "ids_cells m1" and ?xs = "map (\<lambda>k. idv + of_nat (unat n - 1 - k)) [0..<unat n]"
  have ok1: "idl_ok ?cs" and len: "length ?cs = Suc (unat (ids_alloc m1))"
    using * by (auto simp: midl_wf_def)
  have cnt: "idl_count ?cs = unat ?c" using * ok1 by (simp add: idl_ok_def idl_count_nth)
  obtain d ds where cs: "?cs = d # ds" using ok1 by (cases ?cs) (auto simp: idl_ok_def)
  let ?res = "(?c + ucast n) # take (unat ?c) (tl ?cs) @ ?xs @ drop (unat ?c + unat n) (tl ?cs)"
  have "append_range_loop (?cs[0 := ?c + ucast n]) (unat ?c) (unat n) idv = Some ?res"
    using * len by (subst append_range_loop_eq) (auto simp: cs)
  then have "mdb_midl_append_range True fresh m idv n = Some (Inr (m1\<lparr>ids_cells := ?res\<rparr>))"
    using m1 ne cs by (simp add: mdb_midl_append_range_def mem_simps)
  moreover note idl_store_block [OF ok1, of ?xs "?c + ucast n", unfolded cnt length_map length_upt]
  ultimately show ?thesis
    using * len sum by (auto simp: midl_wf_def)
qed

subsection \<open>Out of memory\<close>

text \<open>Without memory an operation that does not need to grow behaves as with memory, and one that does
  reports \<open>ENOMEM\<close> and leaves the list alone.\<close>

lemma mdb_midl_append_ENOMEM:
  assumes "midl_wf m"
  shows "mdb_midl_append False fresh m idv =
    (if unat (ids_alloc m) \<le> idl_count (ids_cells m) then Some (Inl ENOMEM) else mdb_midl_append True fresh m idv)"
  using assms by (auto simp: mdb_midl_append_def mdb_midl_grow_def midl_wf_def idl_ok_def idl_count_nth
      word_le_nat_alt mem_simps)

lemma mdb_midl_append_list_ENOMEM:
  assumes "midl_wf m" "idl_ok app" "unat (ids_alloc m) + idl_count app < 2 ^ 64"
  shows "mdb_midl_append_list False fresh m app =
    (if unat (ids_alloc m) \<le> idl_count (ids_cells m) + idl_count app then Some (Inl ENOMEM)
     else mdb_midl_append_list True fresh m app)"
proof -
  have "idl_count (ids_cells m) \<le> unat (ids_alloc m)" using assms by (auto simp: midl_wf_def idl_ok_def)
  then have "idl_count (ids_cells m) + idl_count app < 2 ^ 64" using assms(3) by linarith
  then have "ids_alloc m \<le> ids_cells m ! 0 + app ! 0 \<longleftrightarrow>
      unat (ids_alloc m) \<le> idl_count (ids_cells m) + idl_count app"
    using assms by (simp add: word_le_nat_alt unat_word_ariths midl_wf_def idl_ok_def idl_count_nth)
  then show ?thesis using assms
    by (auto simp: mdb_midl_append_list_def mdb_midl_grow_def midl_wf_def idl_ok_def mem_simps)
qed

text \<open>Binary search in a descending ID list never reads outside the array and returns the position of
  the ID if it is there, and otherwise the position where it would have to be inserted: everything before
  it is at least, everything from it on at most the ID.\<close>

theorem mdb_midl_search_correct:
  assumes "idl_ok cells" and "desc (idl_elems cells)" and "idl_count cells + 1 < 2 ^ 32"
  shows "\<exists>x. mdb_midl_search cells idv = Some x \<and> 1 \<le> x \<and> x \<le> idl_count cells + 1 \<and>
    (\<forall>i. 1 \<le> i \<and> i < x \<longrightarrow> idv \<le> cells ! i) \<and>
    (\<forall>i. x \<le> i \<and> i \<le> idl_count cells \<longrightarrow> cells ! i \<le> idv) \<and>
    (x \<le> idl_count cells \<and> cells ! x = idv \<longleftrightarrow> idv \<in> set (idl_elems cells))"
proof -
  obtain x where x: "mdb_midl_search cells idv = Some x"
      "found_at (\<lambda>i. CMP (cells ! i) idv) (idl_count cells) x"
    using mdb_midl_search_found_at [OF assms] by blast
  then have "x \<le> idl_count cells \<and> cells ! x = idv \<longleftrightarrow> idv \<in> set (idl_elems cells)"
    unfolding set_idl_elems [OF assms(1)] found_at_def by auto
  then show ?thesis using x by (auto simp: found_at_def)
qed

theorem mdb_midl_search_correct_witness:
  "\<exists>x. mdb_midl_search [3, 9, 5, 2, 77] 5 = Some x \<and> x \<le> 3 \<and> [3, 9, 5, 2, 77] ! x = (5 :: mdb_id)"
  using mdb_midl_search_correct [of "[3, 9, 5, 2, 77]" 5]
  by (fastforce simp: idl_ok_def idl_count_def idl_elems_def)

text \<open>Appending an ID to a well-formed list keeps it well formed and adds exactly that ID at the end,
  growing the block when it is full; when it is full and no memory can be had the result is \<open>ENOMEM\<close>.\<close>

theorem mdb_midl_append_correct:
  assumes "midl_wf m" and "unat (ids_alloc m) + 2 ^ 17 + 2 < 2 ^ 64"
  shows "case mdb_midl_append mem_ok fresh m idv of
      None \<Rightarrow> False
    | Some (Inl e) \<Rightarrow> \<not> mem_ok \<and> idl_count (ids_cells m) = unat (ids_alloc m)
    | Some (Inr m') \<Rightarrow> midl_wf m' \<and> idl_elems (ids_cells m') = idl_elems (ids_cells m) @ [idv]"
  using mdb_midl_append_Inr [OF assms, of fresh idv] mdb_midl_append_ENOMEM [OF assms(1), of fresh idv] assms(1)
  by (cases mem_ok) (auto simp: midl_wf_def idl_ok_def)

theorem mdb_midl_append_correct_witness:
  "case mdb_midl_append True (\<lambda>_. 0) \<lparr>ids_alloc = 2, ids_cells = [2, 9, 5]\<rparr> 4 of
     Some (Inr m') \<Rightarrow> midl_wf m' \<and> idl_elems (ids_cells m') = [9, 5, 4] | _ \<Rightarrow> False"
  using mdb_midl_append_correct [where m = "\<lparr>ids_alloc = 2, ids_cells = [2, 9, 5]\<rparr>" and mem_ok = True and fresh = "\<lambda>_. 0" and idv = 4]
  by (auto simp: midl_wf_def idl_ok_def idl_count_def idl_elems_def split: option.splits sum.splits)

text \<open>Appending a whole list puts its IDs after the present ones; appending a range of \<open>n\<close> pages puts
  the page numbers \<open>idv + n - 1\<close> down to \<open>idv\<close> there, so that a run of freed pages is stored in
  descending order.\<close>

theorem mdb_midl_append_list_range_correct:
  assumes "midl_wf m" and "idl_ok app" and "idl_count app < 2 ^ 31" and "unat n < 2 ^ 31"
    and "unat (ids_alloc m) + 2 ^ 31 + 2 < 2 ^ 64"
  shows "(\<exists>m'. mdb_midl_append_list True fresh m app = Some (Inr m') \<and> midl_wf m' \<and>
      idl_elems (ids_cells m') = idl_elems (ids_cells m) @ idl_elems app) \<and>
    (\<exists>m'. mdb_midl_append_range True fresh m idv n = Some (Inr m') \<and> midl_wf m' \<and>
      idl_elems (ids_cells m') = idl_elems (ids_cells m) @ map (\<lambda>k. idv + of_nat k) (rev [0..<unat n]))"
proof -
  have "rev [0..<k] = map (\<lambda>i. k - 1 - i) [0..<k]" for k :: nat
    by (rule nth_equalityI) (auto simp: rev_nth)
  then show ?thesis
    using mdb_midl_append_list_Inr [OF assms(1-3), of fresh] mdb_midl_append_range_Inr [OF assms(1,4,5), of fresh idv] assms
    by (simp add: comp_def)
qed

theorem mdb_midl_append_list_range_correct_witness:
  "\<exists>m'. mdb_midl_append_range True (\<lambda>_. 0) \<lparr>ids_alloc = 2, ids_cells = [2, 9, 5]\<rparr> 20 3 = Some (Inr m') \<and>
     idl_elems (ids_cells m') = [9, 5, 22, 21, 20]"
  using mdb_midl_append_list_range_correct
    [of "\<lparr>ids_alloc = 2, ids_cells = [2, 9, 5]\<rparr>" "[0]" 3 "\<lambda>_. 0" 20]
  by (auto simp: midl_wf_def idl_ok_def idl_count_def idl_elems_def upt_rec)

text \<open>Merging a descending list into a descending list that has room for both gives the descending
  arrangement of all their IDs, in place.\<close>

theorem mdb_midl_xmerge_correct:
  assumes "idl_ok idl" and "idl_ok merge" and "desc (idl_elems idl)" and "desc (idl_elems merge)"
    and "idl_count idl + idl_count merge < length idl" and "length idl < 2 ^ 64"
  shows "\<exists>idl'. mdb_midl_xmerge idl merge = Some idl' \<and> idl_ok idl' \<and> length idl' = length idl \<and>
    mset (idl_elems idl') = mset (idl_elems idl) + mset (idl_elems merge) \<and> desc (idl_elems idl')"
  using mdb_midl_xmerge_eq [OF assms] by (auto simp: sorted_wrt_rev)

theorem mdb_midl_xmerge_correct_witness:
  "\<exists>idl'. mdb_midl_xmerge [2, 9, 4, 0, 0] [2, 6, 3] = Some idl' \<and> length idl' = 5 \<and>
     mset (idl_elems idl') = {#9, 4, 6, 3#} \<and> desc (idl_elems idl')"
  using mdb_midl_xmerge_correct [of "[2, 9, 4, 0, 0]" "[2, 6, 3]"]
  by (auto simp: idl_ok_def idl_count_def idl_elems_def)

text \<open>\<open>mdb_midl_need\<close> leaves the IDs alone and makes room for \<open>num\<close> more, as long as the 32-bit
  arithmetic of the new size does not wrap; it fails only without memory.\<close>

theorem mdb_midl_need_correct:
  assumes "midl_wf m" and "2 * (unat num + idl_count (ids_cells m)) + 258 < 2 ^ 32"
  shows "case mdb_midl_need mem_ok fresh m num of
      None \<Rightarrow> False
    | Some (Inl e) \<Rightarrow> \<not> mem_ok
    | Some (Inr m') \<Rightarrow> midl_wf m' \<and> idl_elems (ids_cells m') = idl_elems (ids_cells m) \<and>
        idl_count (ids_cells m) + unat num \<le> unat (ids_alloc m')"
proof (cases mem_ok)
  case True
  then show ?thesis using mdb_midl_need_Inr [OF assms, of fresh] by auto
next
  case False
  have "mdb_midl_need False fresh m num = Some (Inl ENOMEM) \<or>
      mdb_midl_need False fresh m num = mdb_midl_need True fresh m num"
    using assms(1) by (auto simp: mdb_midl_need_def Let_def midl_wf_def idl_ok_def mem_simps)
  then show ?thesis using False mdb_midl_need_Inr [OF assms, of fresh] by auto
qed

theorem mdb_midl_need_correct_witness:
  "case mdb_midl_need True (\<lambda>_. 0) \<lparr>ids_alloc = 2, ids_cells = [2, 9, 5]\<rparr> 7 of
     Some (Inr m') \<Rightarrow> midl_wf m' \<and> idl_elems (ids_cells m') = [9, 5] \<and> 9 \<le> unat (ids_alloc m') | _ \<Rightarrow> False"
  using mdb_midl_need_correct [of "\<lparr>ids_alloc = 2, ids_cells = [2, 9, 5]\<rparr>" 7 True "\<lambda>_. 0"]
  by (auto simp: midl_wf_def idl_ok_def idl_count_def idl_elems_def split: option.splits sum.splits)

end
