(* ===== verification/Mid2l.thy ===== *)
theory Mid2l
  imports Midl
begin

text \<open>
  ID2 lists of \<^verbatim>\<open>src/urbackupserver/lmdb/midl.c\<close>: the array of page-number/page-pointer pairs that holds the
  dirty pages of a write transaction. Search, sorted insertion and appending, with the bound
  \<open>MDB_IDL_UM_MAX\<close> at which an insertion is refused.
\<close>

subsection \<open>Model\<close>

text \<open>An \<open>MDB_ID2L\<close> is an array of ID/pointer pairs, ascending by ID; the \<open>mid\<close> of cell \<open>0\<close> counts the
  entries. The pointed-to type is a parameter.\<close>

record 'p mdb_id2 =
  mid :: mdb_id
  mptr :: 'p

function mdb_mid2l_search_loop ::
    "'p mdb_id2 list \<Rightarrow> mdb_id \<Rightarrow> nat \<Rightarrow> nat \<Rightarrow> int \<Rightarrow> nat \<Rightarrow> nat option" where
  "mdb_mid2l_search_loop ids idv base cursor val n =
     (if 0 < n then
        let pivot = n div 2; cursor = u32n (base + pivot + 1) in
        (case rd ids cursor of
           None \<Rightarrow> None
         | Some x \<Rightarrow>
             let val = CMP idv (mid x) in
             if val < 0 then mdb_mid2l_search_loop ids idv base cursor val pivot
             else if val > 0 then mdb_mid2l_search_loop ids idv cursor cursor val (n - (pivot + 1))
             else Some cursor)
      else Some (if val > 0 then u32n (cursor + 1) else cursor))"
  by pat_completeness auto
termination
  by (relation "measure (\<lambda>(ids, idv, base, cursor, val, n). n)") auto

declare mdb_mid2l_search_loop.simps [simp del]

definition mdb_mid2l_search :: "'p mdb_id2 list \<Rightarrow> mdb_id \<Rightarrow> nat option" where
  "mdb_mid2l_search ids idv =
     do { c \<leftarrow> rd ids 0; mdb_mid2l_search_loop ids idv 0 1 0 (u32n (unat (mid c))) }"

text \<open>The \<open>for (i = ids[0].mid; i > x; i--) ids[i] = ids[i-1]\<close> of \<open>mdb_mid2l_insert\<close>.\<close>

fun mid2l_shift :: "'p mdb_id2 list \<Rightarrow> nat \<Rightarrow> nat \<Rightarrow> 'p mdb_id2 list option" where
  "mid2l_shift ids x 0 = Some ids"
| "mid2l_shift ids x (Suc i) =
     (if x < Suc i
      then do { v \<leftarrow> rd ids i; ids \<leftarrow> wr ids (Suc i) v; mid2l_shift ids x i }
      else Some ids)"

text \<open>The second component of the result is the \<open>int\<close> the C function returns.\<close>

definition mdb_mid2l_insert :: "'p mdb_id2 list \<Rightarrow> 'p mdb_id2 \<Rightarrow> ('p mdb_id2 list \<times> int) option" where
  "mdb_mid2l_insert ids idv =
     do { x \<leftarrow> mdb_mid2l_search ids (mid idv);
          c \<leftarrow> rd ids 0;
          if x < 1 then Some (ids, - 2)
          else do {
            dup \<leftarrow> (if x \<le> unat (mid c) then map_option (\<lambda>y. mid y = mid idv) (rd ids x)
                    else Some False);
            if dup then Some (ids, - 1)
            else if of_nat MDB_IDL_UM_MAX \<le> mid c then Some (ids, - 2)
            else do {
              ids \<leftarrow> wr ids 0 (c\<lparr>mid := mid c + 1\<rparr>);
              ids \<leftarrow> mid2l_shift ids x (u32n (unat (mid c + 1)));
              ids \<leftarrow> wr ids x idv;
              Some (ids, 0) } } }"

definition mdb_mid2l_append :: "'p mdb_id2 list \<Rightarrow> 'p mdb_id2 \<Rightarrow> ('p mdb_id2 list \<times> int) option" where
  "mdb_mid2l_append ids idv =
     do { c \<leftarrow> rd ids 0;
          if of_nat MDB_IDL_UM_MAX \<le> mid c then Some (ids, - 2)
          else do {
            ids \<leftarrow> wr ids 0 (c\<lparr>mid := mid c + 1\<rparr>);
            ids \<leftarrow> wr ids (unat (mid c + 1)) idv;
            Some (ids, 0) } }"

subsection \<open>Well-formed ID2 lists and their elements\<close>

definition id2l_count :: "'p mdb_id2 list \<Rightarrow> nat" where
  "id2l_count ids = unat (mid (hd ids))"

definition id2l_ok :: "'p mdb_id2 list \<Rightarrow> bool" where
  "id2l_ok ids \<longleftrightarrow> ids \<noteq> [] \<and> id2l_count ids < length ids"

definition id2l_elems :: "'p mdb_id2 list \<Rightarrow> 'p mdb_id2 list" where
  "id2l_elems ids = take (id2l_count ids) (tl ids)"

text \<open>The order the dirty list of a transaction is kept in: strictly ascending page numbers.\<close>

definition id2l_sorted :: "'p mdb_id2 list \<Rightarrow> bool" where
  "id2l_sorted ids \<longleftrightarrow> sorted_wrt (\<lambda>x y. mid x < mid y) (id2l_elems ids)"

lemma id2l_count_nth: "ids \<noteq> [] \<Longrightarrow> id2l_count ids = unat (mid (ids ! 0))"
  by (simp add: id2l_count_def hd_conv_nth)

lemma length_id2l_elems: "id2l_ok ids \<Longrightarrow> length (id2l_elems ids) = id2l_count ids"
  by (auto simp: id2l_ok_def id2l_elems_def)

lemma id2l_elems_nth: "id2l_ok ids \<Longrightarrow> i < id2l_count ids \<Longrightarrow> id2l_elems ids ! i = ids ! Suc i"
  by (auto simp: id2l_ok_def id2l_elems_def nth_tl)

lemma id2l_elems_nth1:
  "id2l_ok ids \<Longrightarrow> 1 \<le> i \<Longrightarrow> i \<le> id2l_count ids \<Longrightarrow> ids ! i = id2l_elems ids ! (i - 1)"
  using id2l_elems_nth [of ids "i - 1"] by simp

interpretation mid2l_bs: probe_search "mdb_mid2l_search_loop ids idv"
    "\<lambda>i. map_option (\<lambda>x. CMP idv (mid x)) (rd ids i)" for ids :: "'p mdb_id2 list" and idv
proof
  fix base cursor val n
  show "mdb_mid2l_search_loop ids idv base cursor val n = (if 0 < n then
       (case map_option (\<lambda>x. CMP idv (mid x)) (rd ids (u32n (base + n div 2 + 1))) of
          None \<Rightarrow> None
        | Some v \<Rightarrow>
            if v < 0 then mdb_mid2l_search_loop ids idv base (u32n (base + n div 2 + 1)) v (n div 2)
            else if v > 0
            then mdb_mid2l_search_loop ids idv (u32n (base + n div 2 + 1)) (u32n (base + n div 2 + 1)) v (n - (n div 2 + 1))
            else Some (u32n (base + n div 2 + 1)))
     else Some (if val > 0 then u32n (cursor + 1) else cursor))"
    by (subst mdb_mid2l_search_loop.simps) (auto simp: Let_def split: option.splits)
qed

lemma mdb_mid2l_search_found_at:
  assumes ok: "id2l_ok ids" and sorted: "id2l_sorted ids" and small: "id2l_count ids + 1 < 2 ^ 32"
  shows "\<exists>x. mdb_mid2l_search ids idv = Some x \<and>
    found_at (\<lambda>i. CMP idv (mid (ids ! i))) (id2l_count ids) x"
proof -
  let ?N = "id2l_count ids" and ?v = "\<lambda>i. CMP idv (mid (ids ! i))"
  have "\<exists>x. mdb_mid2l_search_loop ids idv 0 1 0 ?N = Some x \<and> found_at ?v ?N x"
  proof (rule mid2l_bs.search_correct)
    fix i assume "1 \<le> i" "i \<le> ?N"
    then show "map_option (\<lambda>x. CMP idv (mid x)) (rd ids i) = Some (?v i)"
      using ok by (simp add: id2l_ok_def mem_simps)
  next
    fix i j assume "1 \<le> i" "i < j" "j \<le> ?N"
    then have "mid (ids ! i) < mid (ids ! j)"
      using ok sorted_wrt_nth_less [OF sorted [unfolded id2l_sorted_def], of "i - 1" "j - 1"]
      by (simp add: length_id2l_elems id2l_elems_nth)
    then show "?v j \<le> ?v i" by (intro CMP_mono2) simp
  qed (use small in simp)
  then show ?thesis
    using ok small by (auto simp: mdb_mid2l_search_def id2l_ok_def mem_simps id2l_count_nth)
qed

lemma mid2l_shift_eq:
  "x \<le> i \<Longrightarrow> i < length ids \<Longrightarrow>
     mid2l_shift ids x i = Some (take (Suc x) ids @ take (i - x) (drop x ids) @ drop (Suc i) ids)"
proof (induction i arbitrary: ids)
  case 0
  then show ?case by (simp add: append_take_drop_id [of 1 ids, simplified])
next
  case (Suc i)
  show ?case
  proof (cases "x = Suc i")
    case True
    then show ?thesis by simp
  next
    case False
    let ?ids = "ids[Suc i := ids ! i]"
    have "mid2l_shift ids x (Suc i) = mid2l_shift ?ids x i"
      using Suc.prems False by (simp add: mem_simps)
    also have "\<dots> = Some (take (Suc x) ?ids @ take (i - x) (drop x ?ids) @ drop (Suc i) ?ids)"
      using Suc.prems False by (intro Suc.IH) auto
    also have "take (Suc x) ?ids = take (Suc x) ids" using False Suc.prems by simp
    also have "take (i - x) (drop x ?ids) = take (i - x) (drop x ids)"
      using False Suc.prems by (simp add: drop_update_swap)
    also have "drop (Suc i) ?ids = ids ! i # drop (Suc (Suc i)) ids"
      using Suc.prems by (simp add: drop_update_swap Cons_nth_drop_Suc [symmetric])
    also have "take (i - x) (drop x ids) @ ids ! i # drop (Suc (Suc i)) ids =
        take (Suc i - x) (drop x ids) @ drop (Suc (Suc i)) ids"
      using False Suc.prems by (simp add: Suc_diff_le take_Suc_conv_app_nth)
    finally show ?thesis .
  qed
qed

lemma id2l_mid_in_elems:
  assumes ok: "id2l_ok ids"
  shows "v \<in> mid ` set (id2l_elems ids) \<longleftrightarrow> (\<exists>i. 1 \<le> i \<and> i \<le> id2l_count ids \<and> mid (ids ! i) = v)"
proof
  assume "v \<in> mid ` set (id2l_elems ids)"
  then obtain k where "k < id2l_count ids" "v = mid (id2l_elems ids ! k)"
    using ok by (auto simp: in_set_conv_nth length_id2l_elems)
  then show "\<exists>i. 1 \<le> i \<and> i \<le> id2l_count ids \<and> mid (ids ! i) = v"
    using ok by (intro exI [of _ "Suc k"]) (simp add: id2l_elems_nth)
next
  assume "\<exists>i. 1 \<le> i \<and> i \<le> id2l_count ids \<and> mid (ids ! i) = v"
  then obtain i where "1 \<le> i" "i \<le> id2l_count ids" "mid (ids ! i) = v" by blast
  then have "mid (id2l_elems ids ! (i - 1)) = v" "i - 1 < length (id2l_elems ids)"
    using ok by (simp_all add: id2l_elems_nth length_id2l_elems)
  then show "v \<in> mid ` set (id2l_elems ids)" by (metis nth_mem imageI)
qed

lemma id2l_split_at:
  assumes ok: "id2l_ok ids" and fa: "found_at (\<lambda>i. CMP v (mid (ids ! i))) (id2l_count ids) p"
    and p: "p = Suc q" and new: "v \<notin> mid ` set (id2l_elems ids)"
  shows "(\<forall>y \<in> set (take q (id2l_elems ids)). mid y < v) \<and> (\<forall>y \<in> set (drop q (id2l_elems ids)). v < mid y)"
proof -
  let ?E = "id2l_elems ids" and ?N = "id2l_count ids"
  have nth: "?E ! k = ids ! Suc k" if "k < ?N" for k using ok that by (rule id2l_elems_nth)
  have len: "length ?E = ?N" using ok by (rule length_id2l_elems)
  have "mid y < v" if "y \<in> set (take q ?E)" for y
  proof -
    from that obtain k where k: "k < q" "k < ?N" "y = ?E ! k"
      using len by (auto simp: in_set_conv_nth)
    then have "mid y \<le> v" using fa p nth by (auto simp: found_at_def)
    moreover have "mid y \<noteq> v" using new k len by (metis imageI nth_mem)
    ultimately show ?thesis by simp
  qed
  moreover have "v < mid y" if "y \<in> set (drop q ?E)" for y
  proof -
    from that obtain k where k: "k < ?N - q" "y = ?E ! (q + k)"
      using len by (auto simp: in_set_conv_nth)
    then have "v \<le> mid y" using fa p nth by (auto simp: found_at_def)
    moreover have "mid y \<noteq> v" using new that by (metis imageI in_set_dropD)
    ultimately show ?thesis by (metis le_neq_trans)
  qed
  ultimately show ?thesis by blast
qed

lemma mdb_mid2l_insert_cases:
  assumes ok: "id2l_ok ids" and sorted: "id2l_sorted ids" and small: "id2l_count ids < 2 ^ 17"
    and room: "id2l_count ids + 1 < length ids"
  shows "if mid x \<in> mid ` set (id2l_elems ids) then mdb_mid2l_insert ids x = Some (ids, - 1)
    else if MDB_IDL_UM_MAX \<le> id2l_count ids then mdb_mid2l_insert ids x = Some (ids, - 2)
    else \<exists>ids'. mdb_mid2l_insert ids x = Some (ids', 0) \<and> id2l_ok ids' \<and> length ids' = length ids \<and>
      id2l_elems ids' = filter (\<lambda>y. mid y < mid x) (id2l_elems ids) @ x # filter (\<lambda>y. mid x < mid y) (id2l_elems ids)"
proof -
  let ?N = "id2l_count ids" and ?E = "id2l_elems ids" and ?c = "ids ! 0"
  obtain p where p: "mdb_mid2l_search ids (mid x) = Some p"
      and fa: "found_at (\<lambda>i. CMP (mid x) (mid (ids ! i))) ?N p"
    using mdb_mid2l_search_found_at [OF ok sorted, of "mid x"] small by auto
  have p1: "1 \<le> p" "p \<le> ?N + 1" using fa by (auto simp: found_at_def)
  have ne: "ids \<noteq> []" using ok by (simp add: id2l_ok_def)
  have c: "unat (mid ?c) = ?N" using ne by (simp add: id2l_count_nth)
  have dup: "p \<le> ?N \<and> mid (ids ! p) = mid x \<longleftrightarrow> mid x \<in> mid ` set ?E"
    using fa id2l_mid_in_elems [OF ok, of "mid x"] by (auto simp: found_at_def)
  have full: "of_nat MDB_IDL_UM_MAX \<le> mid ?c \<longleftrightarrow> MDB_IDL_UM_MAX \<le> ?N"
    using c by (simp add: word_le_nat_alt unat_of_nat MDB_IDL_UM_MAX_def)
  have body: "mdb_mid2l_insert ids x =
      (if mid x \<in> mid ` set ?E then Some (ids, - 1)
       else if MDB_IDL_UM_MAX \<le> ?N then Some (ids, - 2)
       else do { ids \<leftarrow> wr ids 0 (?c\<lparr>mid := mid ?c + 1\<rparr>);
                 ids \<leftarrow> mid2l_shift ids p (u32n (unat (mid ?c + 1)));
                 ids \<leftarrow> wr ids p x; Some (ids, 0) })"
    using p p1 ne dup full c room by (auto simp: mdb_mid2l_insert_def mem_simps)
  show ?thesis
  proof (cases "mid x \<in> mid ` set ?E \<or> MDB_IDL_UM_MAX \<le> ?N")
    case True
    then show ?thesis using body by auto
  next
    case False
    obtain d ds where ids: "ids = d # ds" using ne by (cases ids) auto
    obtain q where q: "p = Suc q" "q \<le> ?N" using p1 by (cases p) auto
    let ?d = "d\<lparr>mid := mid d + 1\<rparr>"
    let ?res = "?d # take q ds @ x # drop q (take ?N ds) @ drop (Suc ?N) ds"
    have c1: "unat (mid d + 1) = Suc ?N" "u32n (Suc ?N) = Suc ?N"
      using small c by (auto simp: ids unat_word_ariths)
    have lds: "Suc ?N \<le> length ds" using room by (simp add: ids)
    have sh: "mid2l_shift (?d # ds) p (Suc ?N) =
        Some (?d # take (Suc q) ds @ take (?N - q) (drop q ds) @ drop (Suc ?N) ds)"
      using q lds by (subst mid2l_shift_eq) auto
    have "(?d # take (Suc q) ds @ take (?N - q) (drop q ds) @ drop (Suc ?N) ds)[p := x] = ?res"
      using q lds by (simp add: take_Suc_conv_app_nth list_update_append take_drop)
    then have res: "mdb_mid2l_insert ids x = Some (?res, 0)"
      using body False sh c1 lds q by (simp add: ids mem_simps)
    have E: "?E = take q ?E @ drop q ?E" by simp
    have Eds: "?E = take ?N ds" by (simp add: id2l_elems_def ids)
    have lt: "\<forall>y \<in> set (take q ?E). mid y < mid x" and gt: "\<forall>y \<in> set (drop q ?E). mid x < mid y"
      using id2l_split_at [OF ok fa q(1)] False by auto
    have fl: "filter (\<lambda>y. mid y < mid x) ?E = take q ?E"
    proof -
      have "filter (\<lambda>y. mid y < mid x) (take q ?E) = take q ?E" using lt by (simp only: filter_id_conv)
      moreover have "filter (\<lambda>y. mid y < mid x) (drop q ?E) = []"
        using gt by (auto simp: filter_empty_conv dest: order.asym)
      ultimately show ?thesis by (metis E filter_append append_Nil2)
    qed
    have fg: "filter (\<lambda>y. mid x < mid y) ?E = drop q ?E"
    proof -
      have "filter (\<lambda>y. mid x < mid y) (take q ?E) = []"
        using lt by (auto simp: filter_empty_conv dest: order.asym)
      moreover have "filter (\<lambda>y. mid x < mid y) (drop q ?E) = drop q ?E" using gt by (simp only: filter_id_conv)
      ultimately show ?thesis by (metis E filter_append append_Nil)
    qed
    have cnt: "id2l_count ?res = Suc ?N" using c1 by (subst id2l_count_def) simp
    have "id2l_elems ?res = take q ?E @ x # drop q ?E"
      unfolding id2l_elems_def [of ?res] cnt Eds using q lds by (simp add: min_def Suc_diff_le)
    moreover have "length ?res = length ids" "id2l_ok ?res"
      using lds q room cnt by (auto simp: ids id2l_ok_def min_def)
    ultimately show ?thesis using False res fl fg by auto
  qed
qed

lemma id2l_insert_sorted:
  assumes "id2l_sorted ids"
  shows "sorted_wrt (\<lambda>x y. mid x < mid y)
    (filter (\<lambda>y. mid y < mid x) (id2l_elems ids) @ x # filter (\<lambda>y. mid x < mid y) (id2l_elems ids))"
  using assms by (auto simp: id2l_sorted_def sorted_wrt_append sorted_wrt_filter)

lemma id2l_insert_set:
  assumes "mid x \<notin> mid ` set (id2l_elems ids)"
  shows "set (filter (\<lambda>y. mid y < mid x) (id2l_elems ids) @ x # filter (\<lambda>y. mid x < mid y) (id2l_elems ids)) =
    insert x (set (id2l_elems ids))"
  using assms by (auto simp: neq_iff image_iff)

text \<open>Inserting into the dirty list is refused with \<open>-1\<close> on a duplicate page and with \<open>-2\<close> on a full
  list, both times leaving it unchanged; otherwise the entry goes to its place in the ascending order.\<close>

theorem mdb_mid2l_insert_correct:
  assumes "id2l_ok ids" and "id2l_sorted ids" and "id2l_count ids < 2 ^ 17"
    and "id2l_count ids + 1 < length ids"
  shows "case mdb_mid2l_insert ids x of
      None \<Rightarrow> False
    | Some (ids', rc) \<Rightarrow>
        if mid x \<in> mid ` set (id2l_elems ids) then rc = - 1 \<and> ids' = ids
        else if MDB_IDL_UM_MAX \<le> id2l_count ids then rc = - 2 \<and> ids' = ids
        else rc = 0 \<and> id2l_ok ids' \<and> id2l_sorted ids' \<and> length ids' = length ids \<and>
          set (id2l_elems ids') = insert x (set (id2l_elems ids))"
  using mdb_mid2l_insert_cases [OF assms, of x] id2l_insert_sorted [OF assms(2), of x] id2l_insert_set [of x ids]
  by (auto split: if_splits simp: id2l_sorted_def)

theorem mdb_mid2l_insert_correct_witness:
  "case mdb_mid2l_insert (map (\<lambda>(i, p). \<lparr>mid = i, mptr = p\<rparr>) [(2, 0), (4, 40), (8, 80), (0, 0 :: nat)])
      \<lparr>mid = 6, mptr = 60\<rparr> of
     None \<Rightarrow> False
   | Some (ids', rc) \<Rightarrow> rc = 0 \<and> id2l_sorted ids' \<and> mid ` set (id2l_elems ids') = {4, 6, 8}"
  using mdb_mid2l_insert_correct [of "map (\<lambda>(i, p). \<lparr>mid = i, mptr = p\<rparr>) [(2, 0), (4, 40), (8, 80), (0, 0 :: nat)]"
      "\<lparr>mid = 6, mptr = 60\<rparr>"]
  by (auto simp: id2l_ok_def id2l_count_def id2l_elems_def id2l_sorted_def MDB_IDL_UM_MAX_def
      split: option.splits prod.splits)

end
