(* ===== verification/Midl_Sort.thy ===== *)
theory Midl_Sort
  imports Midl
begin

text \<open>
  \<open>mdb_midl_sort\<close> of \<^verbatim>\<open>src/urbackupserver/lmdb/midl.c\<close>: an in-place quicksort with an explicit stack of
  pending segments in a fixed array \<open>istack\<close>, falling back to insertion sort for segments of at most
  \<open>SMALL\<close> elements. Every loop of the C function is a definition; the array and \<open>istack\<close> are
  bounds-checked.
\<close>

definition SMALL :: nat where
  "SMALL = 8"

text \<open>\<open>sizeof(int) * CHAR_BIT * 2\<close> cells.\<close>

definition istack_size :: nat where
  "istack_size = 64"

text \<open>\<open>MIDL_SWAP(ids[i], ids[j])\<close>.\<close>

definition MIDL_SWAP :: "mdb_id list \<Rightarrow> nat \<Rightarrow> nat \<Rightarrow> mdb_id list option" where
  "MIDL_SWAP ids i j =
     do { itmp \<leftarrow> rd ids i; b \<leftarrow> rd ids j; ids \<leftarrow> wr ids i b; wr ids j itmp }"

text \<open>\<open>for (i=j-1;i>=1;i--) { if (ids[i] >= a) break; ids[i+1] = ids[i]; }\<close>: the array and the final \<open>i\<close>.\<close>

fun ins_shift :: "mdb_id list \<Rightarrow> mdb_id \<Rightarrow> nat \<Rightarrow> (mdb_id list \<times> nat) option" where
  "ins_shift ids a 0 = Some (ids, 0)"
| "ins_shift ids a (Suc i) =
     do { x \<leftarrow> rd ids (Suc i);
          if a \<le> x then Some (ids, Suc i)
          else do { ids \<leftarrow> wr ids (Suc i + 1) x; ins_shift ids a i } }"

text \<open>\<open>for (j=l+1;j<=ir;j++)\<close>, the insertion sort of \<open>ids[l..ir]\<close>.\<close>

function ins_loop :: "mdb_id list \<Rightarrow> nat \<Rightarrow> nat \<Rightarrow> mdb_id list option" where
  "ins_loop ids j ir =
     (if j \<le> ir then
        do { a \<leftarrow> rd ids j;
             (ids, i) \<leftarrow> ins_shift ids a (j - 1);
             ids \<leftarrow> wr ids (i + 1) a;
             ins_loop ids (j + 1) ir }
      else Some ids)"
  by pat_completeness auto
termination
  by (relation "measure (\<lambda>(ids, j, ir). ir + 1 - j)") auto

text \<open>\<open>do i++; while(ids[i] > a);\<close> and \<open>do j--; while(ids[j] < a);\<close>.\<close>

function scan_up :: "mdb_id list \<Rightarrow> mdb_id \<Rightarrow> nat \<Rightarrow> nat option" where
  "scan_up ids a i =
     (case rd ids (i + 1) of
        None \<Rightarrow> None
      | Some x \<Rightarrow> if x > a then scan_up ids a (i + 1) else Some (i + 1))"
  by pat_completeness auto
termination
  by (relation "measure (\<lambda>(ids, a, i). length ids - i)") (auto dest: rd_SomeD)

fun scan_down :: "mdb_id list \<Rightarrow> mdb_id \<Rightarrow> nat \<Rightarrow> nat option" where
  "scan_down ids a 0 = None"
| "scan_down ids a (Suc j) =
     do { x \<leftarrow> rd ids j; if x < a then scan_down ids a j else Some j }"

declare scan_up.simps [simp del] ins_loop.simps [simp del]

lemma scan_up_gt: "scan_up ids a i = Some k \<Longrightarrow> i < k \<and> k < length ids"
proof (induction ids a i rule: scan_up.induct)
  case (1 ids a i)
  then show ?case
    by (subst (asm) (2) scan_up.simps) (auto dest: rd_SomeD split: option.splits if_splits)
qed

lemma MIDL_SWAP_SomeD:
  "MIDL_SWAP ids i j = Some ids' \<Longrightarrow>
     i < length ids \<and> j < length ids \<and> ids' = ids[i := ids ! j, j := ids ! i]"
  by (auto simp: MIDL_SWAP_def dest!: rd_SomeD wr_SomeD split: bind_splits)

text \<open>The partitioning loop \<open>for(;;)\<close>: it returns the array and the final \<open>i\<close> and \<open>j\<close>.\<close>

function part_loop ::
    "mdb_id list \<Rightarrow> mdb_id \<Rightarrow> nat \<Rightarrow> nat \<Rightarrow> (mdb_id list \<times> nat \<times> nat) option" where
  "part_loop ids a i j =
     (case scan_up ids a i of
        None \<Rightarrow> None
      | Some i' \<Rightarrow>
          (case scan_down ids a j of
             None \<Rightarrow> None
           | Some j' \<Rightarrow>
               if j' < i' then Some (ids, i', j')
               else (case MIDL_SWAP ids i' j' of
                       None \<Rightarrow> None
                     | Some ids' \<Rightarrow> part_loop ids' a i' j')))"
  by pat_completeness auto
termination
  by (relation "measure (\<lambda>(ids, a, i, j). length ids - i)")
     (auto dest!: scan_up_gt MIDL_SWAP_SomeD)

declare part_loop.simps [simp del]

text \<open>Median of left, centre and right, moved to \<open>ids[l+1]\<close>.\<close>

definition median3 :: "mdb_id list \<Rightarrow> nat \<Rightarrow> nat \<Rightarrow> mdb_id list option" where
  "median3 ids l ir =
     do { let k = (l + ir) div 2;
          ids \<leftarrow> MIDL_SWAP ids k (l + 1);
          x \<leftarrow> rd ids l; y \<leftarrow> rd ids ir;
          ids \<leftarrow> (if x < y then MIDL_SWAP ids l ir else Some ids);
          x \<leftarrow> rd ids (l + 1); y \<leftarrow> rd ids ir;
          ids \<leftarrow> (if x < y then MIDL_SWAP ids (l + 1) ir else Some ids);
          x \<leftarrow> rd ids l; y \<leftarrow> rd ids (l + 1);
          if x < y then MIDL_SWAP ids l (l + 1) else Some ids }"

text \<open>One partitioning step of \<open>ids[l..ir]\<close>: the array and the final \<open>i\<close> and \<open>j\<close>.\<close>

definition partition_seg :: "mdb_id list \<Rightarrow> nat \<Rightarrow> nat \<Rightarrow> (mdb_id list \<times> nat \<times> nat) option" where
  "partition_seg ids l ir =
     do { ids \<leftarrow> median3 ids l ir;
          a \<leftarrow> rd ids (l + 1);
          (ids, i, j) \<leftarrow> part_loop ids a (l + 1) ir;
          x \<leftarrow> rd ids j;
          ids \<leftarrow> wr ids (l + 1) x;
          ids \<leftarrow> wr ids j a;
          Some (ids, i, j) }"

text \<open>The outer \<open>for(;;)\<close>. Not returning is \<open>None\<close>, as is an access out of bounds.\<close>

partial_function (option) sort_loop ::
    "mdb_id list \<Rightarrow> nat \<Rightarrow> nat \<Rightarrow> nat list \<Rightarrow> nat \<Rightarrow> mdb_id list option" where
  "sort_loop ids l ir istack jstack =
     (if int ir - int l < int SMALL then
        do { ids \<leftarrow> ins_loop ids (l + 1) ir;
             if jstack = 0 then Some ids
             else do {
               ir \<leftarrow> rd istack jstack;
               l \<leftarrow> rd istack (jstack - 1);
               sort_loop ids l ir istack (jstack - 2) } }
      else
        do { (ids, i, j) \<leftarrow> partition_seg ids l ir;
             let jstack = jstack + 2;
             if int j - int l \<le> int ir - int i + 1
             then do {
               istack \<leftarrow> wr istack jstack ir;
               istack \<leftarrow> wr istack (jstack - 1) i;
               sort_loop ids l (j - 1) istack jstack }
             else do {
               istack \<leftarrow> wr istack jstack (j - 1);
               istack \<leftarrow> wr istack (jstack - 1) l;
               sort_loop ids i ir istack jstack } })"

text \<open>The contents of the uninitialised array \<open>istack\<close> are the argument \<open>istack0\<close>.\<close>

definition mdb_midl_sort :: "(nat \<Rightarrow> nat) \<Rightarrow> mdb_id list \<Rightarrow> mdb_id list option" where
  "mdb_midl_sort istack0 ids =
     do { c \<leftarrow> rd ids 0;
          sort_loop ids 1 (nat (sint (ucast c :: 32 word))) (map istack0 [0..<istack_size]) 0 }"

subsection \<open>Insertion sort of a segment\<close>

lemma ins_shift_eq:
  assumes "1 \<le> length pre" and "length pre = 1 \<or> a \<le> last pre"
  shows "\<forall>y \<in> set small. y < a \<Longrightarrow>
    ins_shift (pre @ small @ h # rest) a (length pre + length small - 1) =
      Some (pre @ hd (small @ [h]) # small @ rest, length pre - 1)"
proof (induction small arbitrary: h rest rule: rev_induct)
  case Nil
  show ?case
  proof (cases "length pre = 1")
    case True
    then show ?thesis by simp
  next
    case False
    then obtain m where m: "length pre - 1 = Suc m" "length pre = Suc (Suc m)"
      using assms(1) by (cases "length pre" rule: nat.exhaust; cases "length pre - 1") auto
    then have "(pre @ h # rest) ! Suc m = last pre" by (simp add: nth_append last_conv_nth) (metis m(2) last_conv_nth length_0_conv nat.distinct(1) diff_Suc_1)
    then show ?thesis using m assms False by (simp add: mem_simps)
  qed
next
  case (snoc y s)
  have idx: "length pre + length (s @ [y]) - 1 = Suc (length pre + length s - 1)"
    using assms(1) by simp
  have n: "Suc (length pre + length s - 1) = length pre + length s" using assms(1) by simp
  have y: "y < a" "\<forall>z \<in> set s. z < a" using snoc.prems by auto
  have "ins_shift (pre @ (s @ [y]) @ h # rest) a (length pre + length (s @ [y]) - 1) =
      ins_shift (pre @ s @ y # y # rest) a (length pre + length s - 1)"
    unfolding idx ins_shift.simps unfolding n using y by (auto simp: mem_simps nth_append list_update_append)
  also have "\<dots> = Some (pre @ hd (s @ [y]) # s @ y # rest, length pre - 1)"
    by (rule snoc.IH [OF y(2)])
  finally show ?case by (cases s) simp_all
qed

lemma desc_takeWhile_dropWhile:
  assumes "desc ys"
  shows "\<forall>y \<in> set (dropWhile (\<lambda>y. a \<le> y) ys). y < a"
proof (cases "dropWhile (\<lambda>y. a \<le> y) ys")
  case (Cons z zs)
  have "\<not> a \<le> z" using Cons by (metis hd_dropWhile list.distinct(1) list.sel(1))
  moreover have "desc (z # zs)" using assms Cons by (metis sorted_wrt_append takeWhile_dropWhile_id)
  ultimately show ?thesis unfolding Cons by (auto simp: not_le dest: order.strict_trans1)
qed (simp only: list.set ball_empty)

lemma ins_step_eq:
  assumes xs: "length xs = l" "1 \<le> l" and big: "l = 1 \<or> a \<le> last xs" and ys: "desc ys"
  shows "\<exists>i. ins_shift (xs @ ys @ a # rest) a (l + length ys - 1) =
      Some (xs @ takeWhile (\<lambda>y. a \<le> y) ys @ hd (dropWhile (\<lambda>y. a \<le> y) ys @ [a]) # dropWhile (\<lambda>y. a \<le> y) ys @ rest, i) \<and>
    i + 1 = length (xs @ takeWhile (\<lambda>y. a \<le> y) ys)"
proof -
  let ?b = "takeWhile (\<lambda>y. a \<le> y) ys" and ?s = "dropWhile (\<lambda>y. a \<le> y) ys"
  have b: "length (xs @ ?b) = 1 \<or> a \<le> last (xs @ ?b)"
  proof (cases "?b = []")
    case True
    then show ?thesis using xs big by simp
  next
    case False
    then show ?thesis by (metis last_appendR last_in_set set_takeWhileD)
  qed
  have "length ?b + length ?s = length ys" by (metis length_append takeWhile_dropWhile_id)
  then have "ins_shift ((xs @ ?b) @ ?s @ a # rest) a (l + length ys - 1) =
      Some ((xs @ ?b) @ hd (?s @ [a]) # ?s @ rest, length (xs @ ?b) - 1)"
    using ins_shift_eq [of "xs @ ?b" a ?s a rest] b xs desc_takeWhile_dropWhile [OF ys, of a]
    by (simp add: add.assoc)
  moreover have "(xs @ ?b) @ ?s @ a # rest = xs @ ys @ a # rest"
    by (metis append_assoc takeWhile_dropWhile_id)
  moreover have "length (xs @ ?b) - 1 + 1 = length (xs @ ?b)" using xs by simp
  ultimately show ?thesis by (metis append_assoc append_Cons)
qed

lemma desc_insort:
  assumes "desc ys"
  shows "desc (takeWhile (\<lambda>y. a \<le> y) ys @ a # dropWhile (\<lambda>y. a \<le> y) ys)"
proof -
  have "desc (takeWhile (\<lambda>y. a \<le> y) ys @ dropWhile (\<lambda>y. a \<le> y) ys)" using assms by simp
  then show ?thesis
    using desc_takeWhile_dropWhile [OF assms, of a]
    by (auto simp: sorted_wrt_append dest: set_takeWhileD less_imp_le simp del: takeWhile_dropWhile_id)
qed

lemma ins_loop_eq:
  assumes xs: "length xs = l" "1 \<le> l"
  shows "desc ys \<Longrightarrow> l = 1 \<or> (\<forall>y \<in> set seg. y \<le> last xs) \<Longrightarrow>
    Suc ir = l + length ys + length seg \<Longrightarrow>
    ins_loop (xs @ ys @ seg @ zs) (l + length ys) ir = Some (xs @ rev (sort (ys @ seg)) @ zs)"
proof (induction seg arbitrary: ys)
  case Nil
  then show ?case by (subst ins_loop.simps) (simp add: desc_mset_unique [symmetric] desc_mset_unique)
next
  case (Cons a seg)
  let ?b = "takeWhile (\<lambda>y. a \<le> y) ys" and ?s = "dropWhile (\<lambda>y. a \<le> y) ys"
  obtain i where i: "ins_shift (xs @ ys @ a # seg @ zs) a (l + length ys - 1) =
      Some (xs @ ?b @ hd (?s @ [a]) # ?s @ seg @ zs, i)" "i + 1 = length (xs @ ?b)"
    using ins_step_eq [OF xs _ Cons.prems(1), of a "seg @ zs"] Cons.prems(2) by auto
  have len: "length (?b @ a # ?s) = Suc (length ys)"
    by simp (metis length_append takeWhile_dropWhile_id)
  have ms: "mset (?b @ a # ?s) = add_mset a (mset ys)"
    by simp (metis mset_append takeWhile_dropWhile_id)
  have "ins_loop (xs @ ys @ (a # seg) @ zs) (l + length ys) ir =
      ins_loop (xs @ (?b @ a # ?s) @ seg @ zs) (l + length (?b @ a # ?s)) ir"
    unfolding len
    by (subst ins_loop.simps) (use i xs Cons.prems(3) in \<open>simp add: mem_simps nth_append list_update_append\<close>)
  also have "\<dots> = Some (xs @ rev (sort ((?b @ a # ?s) @ seg)) @ zs)"
    by (rule Cons.IH) (use Cons.prems len desc_insort in \<open>auto\<close>)
  also have "sort ((?b @ a # ?s) @ seg) = sort (ys @ a # seg)"
    by (rule properties_for_sort) (use ms in auto)
  finally show ?case .
qed

subsection \<open>Partitioning a segment\<close>

text \<open>\<open>ids'\<close> is \<open>ids\<close> with the cells \<open>l..r\<close> permuted.\<close>

definition perm_in :: "nat \<Rightarrow> nat \<Rightarrow> mdb_id list \<Rightarrow> mdb_id list \<Rightarrow> bool" where
  "perm_in l r ids ids' \<longleftrightarrow> length ids' = length ids \<and> mset ids' = mset ids \<and>
     (\<forall>p. p < l \<or> r < p \<longrightarrow> ids' ! p = ids ! p)"

lemma perm_in_refl: "perm_in l r ids ids"
  by (simp add: perm_in_def)

lemma perm_in_trans: "perm_in l r a b \<Longrightarrow> perm_in l r b c \<Longrightarrow> perm_in l r a c"
  by (simp add: perm_in_def)

lemma perm_in_swap:
  "l \<le> p \<Longrightarrow> p \<le> r \<Longrightarrow> l \<le> q \<Longrightarrow> q \<le> r \<Longrightarrow> r < length ids \<Longrightarrow>
     perm_in l r ids (ids[p := ids ! q, q := ids ! p])"
  by (auto simp: perm_in_def mset_swap nth_list_update)

lemma MIDL_SWAP_eq:
  "p < length ids \<Longrightarrow> q < length ids \<Longrightarrow> MIDL_SWAP ids p q = Some (ids[p := ids ! q, q := ids ! p])"
  by (simp add: MIDL_SWAP_def mem_simps)

text \<open>Order two cells so that the first holds the larger value.\<close>

definition order_cells :: "mdb_id list \<Rightarrow> nat \<Rightarrow> nat \<Rightarrow> mdb_id list" where
  "order_cells ids p q = (if ids ! p < ids ! q then ids[p := ids ! q, q := ids ! p] else ids)"

lemma length_order_cells [simp]: "length (order_cells ids p q) = length ids"
  by (simp add: order_cells_def)

lemma order_cells_eq:
  "p < length ids \<Longrightarrow> q < length ids \<Longrightarrow>
     (if ids ! p < ids ! q then MIDL_SWAP ids p q else Some ids) = Some (order_cells ids p q)"
  by (simp add: order_cells_def MIDL_SWAP_eq)

lemma order_cells_nth:
  assumes "p < length ids" "q < length ids" "p \<noteq> q"
  shows "order_cells ids p q ! p = max (ids ! p) (ids ! q)" "order_cells ids p q ! q = min (ids ! p) (ids ! q)"
    "r \<noteq> p \<Longrightarrow> r \<noteq> q \<Longrightarrow> order_cells ids p q ! r = ids ! r"
  using assms by (auto simp: order_cells_def nth_list_update max_def min_def)

lemma perm_in_order_cells:
  "l \<le> p \<Longrightarrow> p \<le> r \<Longrightarrow> l \<le> q \<Longrightarrow> q \<le> r \<Longrightarrow> r < length ids \<Longrightarrow> perm_in l r ids (order_cells ids p q)"
  by (auto simp: order_cells_def perm_in_refl intro: perm_in_swap)

text \<open>After the median step the three probed cells are ordered.\<close>

lemma median3_eq:
  assumes "l + 2 < ir" and "ir < length ids"
  shows "\<exists>ids'. median3 ids l ir = Some ids' \<and> perm_in l ir ids ids' \<and>
    ids' ! (l + 1) \<le> ids' ! l \<and> ids' ! ir \<le> ids' ! (l + 1)"
proof -
  let ?k = "(l + ir) div 2"
  have k: "l \<le> ?k" "?k \<le> ir" "?k < length ids" using assms by auto
  define a where "a = ids[?k := ids ! (l + 1), l + 1 := ids ! ?k]"
  define b where "b = order_cells a l ir"
  define c where "c = order_cells b (l + 1) ir"
  define d where "d = order_cells c l (l + 1)"
  have len [simp]: "length a = length ids" "length b = length ids" "length c = length ids"
    by (simp_all add: a_def b_def c_def)
  have "MIDL_SWAP ids ?k (l + 1) = Some a" using assms k by (simp add: a_def MIDL_SWAP_eq)
  then have m: "median3 ids l ir = Some d"
    using assms by (simp add: median3_def mem_simps order_cells_eq b_def [symmetric] c_def [symmetric] d_def Let_def
        del: One_nat_def add_Suc_right)
  have "perm_in l ir ids a" unfolding a_def using assms k by (intro perm_in_swap) auto
  moreover have "perm_in l ir a b" using assms perm_in_order_cells [of l l ir ir a] by (simp add: b_def)
  moreover have "perm_in l ir b c" using assms perm_in_order_cells [of l "l + 1" ir ir b] by (simp add: c_def)
  moreover have "perm_in l ir c d" using assms perm_in_order_cells [of l l ir "l + 1" c] by (simp add: d_def)
  ultimately have perm: "perm_in l ir ids d" by (blast intro: perm_in_trans)
  have bl: "b ! ir \<le> b ! l"
    using assms order_cells_nth(1,2) [of l a ir] by (simp add: b_def le_max_iff_disj)
  have c: "c ! ir = min (b ! (l + 1)) (b ! ir)" "c ! (l + 1) = max (b ! (l + 1)) (b ! ir)" "c ! l = b ! l"
    using assms order_cells_nth(1,2) [of "l + 1" b ir] order_cells_nth(3) [where ids = b and p = "l + 1" and q = ir and r = l] by (simp_all add: c_def)
  have d: "d ! ir = c ! ir" "d ! l = max (c ! l) (c ! (l + 1))" "d ! (l + 1) = min (c ! l) (c ! (l + 1))"
    using assms order_cells_nth(1,2) [of l c "l + 1"] order_cells_nth(3) [where ids = c and p = l and q = "l + 1" and r = ir] by (simp_all add: d_def)
  have "d ! (l + 1) \<le> d ! l" unfolding d by (simp add: min.coboundedI1)
  moreover have "d ! ir \<le> d ! (l + 1)" unfolding d c using bl by (simp add: min.coboundedI2)
  ultimately show ?thesis using m perm by blast
qed

lemma scan_up_eq:
  "i < su \<Longrightarrow> su < length ids \<Longrightarrow> ids ! su \<le> a \<Longrightarrow>
     \<exists>k. scan_up ids a i = Some k \<and> i < k \<and> k \<le> su \<and> ids ! k \<le> a \<and> (\<forall>p. i < p \<and> p < k \<longrightarrow> a < ids ! p)"
proof (induction "su - i" arbitrary: i rule: less_induct)
  case less
  show ?case
  proof (cases "a < ids ! (i + 1)")
    case True
    then have "i + 1 < su" using less.prems by (cases "i + 1 = su") auto
    then obtain k where "scan_up ids a (i + 1) = Some k" "i + 1 < k" "k \<le> su" "ids ! k \<le> a"
        "\<forall>p. i + 1 < p \<and> p < k \<longrightarrow> a < ids ! p"
      using less.hyps [of "i + 1"] less.prems by (auto simp: diff_less_mono2)
    moreover have "scan_up ids a i = scan_up ids a (i + 1)"
      using True less.prems by (subst scan_up.simps) (simp add: mem_simps)
    moreover have "a < ids ! p" if "i < p" "p < k" for p
      using that True calculation(5) by (cases "p = i + 1") auto
    ultimately show ?thesis by auto
  next
    case False
    then show ?thesis using less.prems by (subst scan_up.simps) (auto simp: mem_simps)
  qed
qed

lemma scan_down_eq:
  "sd < j \<Longrightarrow> j \<le> length ids \<Longrightarrow> a \<le> ids ! sd \<Longrightarrow>
     \<exists>k. scan_down ids a j = Some k \<and> sd \<le> k \<and> k < j \<and> a \<le> ids ! k \<and> (\<forall>p. k < p \<and> p < j \<longrightarrow> ids ! p < a)"
proof (induction j)
  case (Suc j)
  show ?case
  proof (cases "ids ! j < a")
    case True
    then have "sd < j" using Suc.prems by (cases "sd = j") auto
    then obtain k where "scan_down ids a j = Some k" "sd \<le> k" "k < j" "a \<le> ids ! k"
        "\<forall>p. k < p \<and> p < j \<longrightarrow> ids ! p < a"
      using Suc by auto
    moreover have "ids ! p < a" if "k < p" "p < Suc j" for p
      using that True calculation(5) by (cases "p = j") auto
    ultimately show ?thesis using True Suc.prems by (auto simp: mem_simps)
  next
    case False
    then show ?thesis using Suc.prems by (auto simp: mem_simps)
  qed
qed simp

lemma part_loop_eq:
  assumes "l + 1 \<le> i" "i \<le> j" "j \<le> ir" "ir < length ids"
    and "\<exists>su. i < su \<and> su \<le> ir \<and> ids ! su \<le> a" and "\<exists>sd. l + 1 \<le> sd \<and> sd < j \<and> a \<le> ids ! sd"
    and "\<forall>p. l \<le> p \<and> p \<le> i \<longrightarrow> a \<le> ids ! p" and "\<forall>p. j \<le> p \<and> p \<le> ir \<longrightarrow> ids ! p \<le> a"
    and "ids ! (l + 1) = a"
  shows "\<exists>ids' i' j'. part_loop ids a i j = Some (ids', i', j') \<and> perm_in l ir ids ids' \<and>
    l + 1 \<le> j' \<and> j' < i' \<and> i' \<le> ir \<and> ids' ! (l + 1) = a \<and>
    (\<forall>p. l \<le> p \<and> p < i' \<longrightarrow> a \<le> ids' ! p) \<and> (\<forall>p. j' < p \<and> p \<le> ir \<longrightarrow> ids' ! p \<le> a)"
  using assms
proof (induction ids a i j rule: part_loop.induct)
  case (1 ids a i j)
  obtain su where su: "i < su" "su \<le> ir" "ids ! su \<le> a" using "1.prems"(5) by auto
  obtain sd where sd: "l + 1 \<le> sd" "sd < j" "a \<le> ids ! sd" using "1.prems"(6) by auto
  obtain i' where i': "scan_up ids a i = Some i'" "i < i'" "i' \<le> su" "ids ! i' \<le> a"
      "\<forall>p. i < p \<and> p < i' \<longrightarrow> a < ids ! p"
    using scan_up_eq [OF su(1) _ su(3)] su(2) "1.prems"(4) by auto
  obtain j' where j': "scan_down ids a j = Some j'" "sd \<le> j'" "j' < j" "a \<le> ids ! j'"
      "\<forall>p. j' < p \<and> p < j \<longrightarrow> ids ! p < a"
    using scan_down_eq [OF sd(2) _ sd(3)] "1.prems"(3,4) by auto
  have lo: "a \<le> ids ! p" if "l \<le> p" "p < i'" for p
    using that "1.prems"(7) i'(5) by (cases "p \<le> i") (auto intro: less_imp_le)
  have hi: "ids ! p \<le> a" if "j' < p" "p \<le> ir" for p
    using that "1.prems"(8) j'(5) by (cases "j \<le> p") (auto intro: less_imp_le)
  show ?case
  proof (cases "j' < i'")
    case True
    then show ?thesis using i' j' sd su lo hi "1.prems"(9) perm_in_refl
      by (subst part_loop.simps) fastforce
  next
    case False
    have r: "l + 1 < i'" "i' \<le> j'" "j' < ir" "i' < length ids" "j' < length ids"
      using False "1.prems" i' j' by auto
    let ?n = "ids[i' := ids ! j', j' := ids ! i']"
    have sw: "MIDL_SWAP ids i' j' = Some ?n" using r by (intro MIDL_SWAP_eq) auto
    have step: "part_loop ids a i j = part_loop ?n a i' j'"
      using i' j' False sw by (subst part_loop.simps) simp
    have pn: "perm_in l ir ids ?n" using r "1.prems"(4) by (intro perm_in_swap) auto
    have nth: "?n ! p = (if p = j' then ids ! i' else if p = i' then ids ! j' else ids ! p)" for p
      using r by (auto simp: nth_list_update)
    have "\<exists>ids' i'' j''. part_loop ?n a i' j' = Some (ids', i'', j'') \<and> perm_in l ir ?n ids' \<and>
        l + 1 \<le> j'' \<and> j'' < i'' \<and> i'' \<le> ir \<and> ids' ! (l + 1) = a \<and>
        (\<forall>p. l \<le> p \<and> p < i'' \<longrightarrow> a \<le> ids' ! p) \<and> (\<forall>p. j'' < p \<and> p \<le> ir \<longrightarrow> ids' ! p \<le> a)"
    proof (rule "1.IH" [OF i'(1) j'(1) False sw])
      show "\<exists>su. i' < su \<and> su \<le> ir \<and> ?n ! su \<le> a"
        using j'(3) r "1.prems"(3,8) by (intro exI [of _ j]) (auto simp: nth)
      show "\<exists>sd. l + 1 \<le> sd \<and> sd < j' \<and> a \<le> ?n ! sd"
        using i'(2) r "1.prems"(1,7) by (intro exI [of _ i]) (auto simp: nth)
      show "\<forall>p. l \<le> p \<and> p \<le> i' \<longrightarrow> a \<le> ?n ! p" using lo r j'(4) by (auto simp: nth)
      show "\<forall>p. j' \<le> p \<and> p \<le> ir \<longrightarrow> ?n ! p \<le> a" using hi r i'(4) by (auto simp: nth)
    qed (use r "1.prems" in \<open>auto simp: nth\<close>)
    then show ?thesis using step perm_in_trans [OF pn] by auto
  qed
qed

lemma partition_seg_eq:
  assumes "l + 2 < ir" and "ir < length ids"
  shows "\<exists>ids' i j a. partition_seg ids l ir = Some (ids', i, j) \<and> perm_in l ir ids ids' \<and>
    l + 1 \<le> j \<and> j < i \<and> i \<le> ir \<and> (\<forall>p. l \<le> p \<and> p < i \<longrightarrow> a \<le> ids' ! p) \<and>
    (\<forall>p. j \<le> p \<and> p \<le> ir \<longrightarrow> ids' ! p \<le> a)"
proof -
  obtain m where m: "median3 ids l ir = Some m" "perm_in l ir ids m" "m ! (l + 1) \<le> m ! l"
      "m ! ir \<le> m ! (l + 1)"
    using median3_eq [OF assms] by auto
  let ?a = "m ! (l + 1)"
  have lm: "length m = length ids" using m(2) by (simp add: perm_in_def)
  have "\<exists>n i j. part_loop m ?a (l + 1) ir = Some (n, i, j) \<and> perm_in l ir m n \<and>
    l + 1 \<le> j \<and> j < i \<and> i \<le> ir \<and> n ! (l + 1) = ?a \<and>
    (\<forall>p. l \<le> p \<and> p < i \<longrightarrow> ?a \<le> n ! p) \<and> (\<forall>p. j < p \<and> p \<le> ir \<longrightarrow> n ! p \<le> ?a)"
  proof (rule part_loop_eq)
    show "\<exists>su. l + 1 < su \<and> su \<le> ir \<and> m ! su \<le> ?a" using m(4) assms by (intro exI [of _ ir]) auto
    show "\<exists>sd. l + 1 \<le> sd \<and> sd < ir \<and> ?a \<le> m ! sd" using assms by (intro exI [of _ "l + 1"]) auto
    show "\<forall>p. l \<le> p \<and> p \<le> l + 1 \<longrightarrow> ?a \<le> m ! p"
      using m(3) by (metis Suc_eq_plus1 le_Suc_eq order_antisym order_refl)
    show "\<forall>p. ir \<le> p \<and> p \<le> ir \<longrightarrow> m ! p \<le> ?a" using m(4) by (metis order_antisym)
  qed (use assms lm in auto)
  then obtain n i j where n: "part_loop m ?a (l + 1) ir = Some (n, i, j)" "perm_in l ir m n"
      "l + 1 \<le> j" "j < i" "i \<le> ir" "n ! (l + 1) = ?a"
      "\<forall>p. l \<le> p \<and> p < i \<longrightarrow> ?a \<le> n ! p" "\<forall>p. j < p \<and> p \<le> ir \<longrightarrow> n ! p \<le> ?a"
    by blast
  let ?r = "n[l + 1 := n ! j, j := n ! (l + 1)]"
  have ln: "length n = length ids" using n(2) lm by (simp add: perm_in_def)
  have "partition_seg ids l ir = Some (?r, i, j)"
    using m(1) n(1,3-6) assms lm ln by (simp add: partition_seg_def mem_simps)
  moreover have "perm_in l ir ids ?r"
    using perm_in_trans [OF perm_in_trans [OF m(2) n(2)] perm_in_swap] n(3-5) assms ln by auto
  moreover have nth: "?r ! p = (if p = j then ?a else if p = l + 1 then n ! j else n ! p)" for p
    using n(3-6) assms ln by (auto simp: nth_list_update)
  moreover have "?a \<le> ?r ! p" if "l \<le> p" "p < i" for p unfolding nth using that n(3-7) by auto
  moreover have "?r ! p \<le> ?a" if "j \<le> p" "p \<le> ir" for p unfolding nth using that n(3-8) by auto
  ultimately show ?thesis using n(3-5) by blast
qed

lemma segment_split:
  assumes "p \<le> q" and "q \<le> length ids"
  shows "ids = take p ids @ take (q - p) (drop p ids) @ drop q ids"
  using assms by (metis append_take_drop_id drop_drop le_add_diff_inverse2)

lemma partition_seg_list:
  assumes xs: "length xs = l" and s: "4 \<le> length seg" and ir: "Suc ir = l + length seg"
  shows "\<exists>A m a B. partition_seg (xs @ seg @ zs) l ir =
      Some (xs @ A @ replicate m a @ B @ zs, l + length A + m, l + length A) \<and>
    1 \<le> m \<and> 1 \<le> length A \<and> 1 \<le> length B \<and> length A + m + length B = length seg \<and>
    mset seg = mset A + mset (replicate m a) + mset B \<and> (\<forall>x \<in> set A. a \<le> x) \<and> (\<forall>x \<in> set B. x \<le> a)"
proof -
  let ?ids = "xs @ seg @ zs"
  have pre: "l + 2 < ir" "ir < length ?ids" using s ir xs by auto
  obtain ids' i j a where p: "partition_seg ?ids l ir = Some (ids', i, j)" "perm_in l ir ?ids ids'"
      "l + 1 \<le> j" "j < i" "i \<le> ir" "\<forall>p. l \<le> p \<and> p < i \<longrightarrow> a \<le> ids' ! p"
      "\<forall>p. j \<le> p \<and> p \<le> ir \<longrightarrow> ids' ! p \<le> a"
    using partition_seg_eq [OF pre] by blast
  have len: "length ids' = length ?ids" and ms: "mset ids' = mset ?ids"
    and fr: "\<forall>p. p < l \<or> ir < p \<longrightarrow> ids' ! p = ?ids ! p"
    using p(2) by (auto simp: perm_in_def)
  let ?A = "take (j - l) (drop l ids')" and ?M = "take (i - j) (drop j ids')"
    and ?B = "take (Suc ir - i) (drop i ids')"
  have tx: "take l ids' = xs"
    using fr len xs by (intro nth_equalityI) (auto simp: nth_append)
  have dz: "drop (Suc ir) ids' = zs"
    using fr len xs ir by (intro nth_equalityI) (auto simp: nth_append)
  have r: "j \<le> length ids'" "i \<le> length ids'" "Suc ir \<le> length ids'" using p(3-5) len pre by auto
  have "drop j ids' = ?M @ drop i ids'" "drop i ids' = ?B @ drop (Suc ir) ids'" "drop l ids' = ?A @ drop j ids'"
    using p(3-5) by (metis append_take_drop_id drop_drop le_add_diff_inverse2 less_imp_le le_SucI add_leD1)+
  then have split: "ids' = xs @ ?A @ ?M @ ?B @ zs" using tx dz by (metis append_take_drop_id append_assoc)
  have M: "?M = replicate (i - j) a"
  proof (rule nth_equalityI)
    fix k assume k: "k < length ?M"
    then have kk: "k < i - j" "j + k < length ids'" using r by auto
    have "a \<le> ids' ! (j + k)" "ids' ! (j + k) \<le> a" using p(3-7) kk by auto
    then show "?M ! k = replicate (i - j) a ! k" using kk by simp
  qed (use r in simp)
  have lens: "length ?A = j - l" "length ?B = Suc ir - i" using r p(3-5) by auto
  have "\<forall>x \<in> set ?A. a \<le> x" using p(3-6) r by (auto simp: in_set_conv_nth)
  moreover have "\<forall>x \<in> set ?B. x \<le> a" using p(3-5,7) r by (auto simp: in_set_conv_nth)
  moreover have "mset seg = mset ?A + mset (replicate (i - j) a) + mset ?B"
    using ms by (subst (asm) split) (simp add: M add.assoc)
  moreover have "partition_seg ?ids l ir =
      Some (xs @ ?A @ replicate (i - j) a @ ?B @ zs, l + length ?A + (i - j), l + length ?A)"
    using p(1,3,4) split unfolding lens by (simp add: M)
  ultimately show ?thesis using lens p(3-5) ir s
    by (intro exI [of _ ?A] exI [of _ "i - j"] exI [of _ a] exI [of _ ?B]) auto
qed

lemma sort_parts:
  assumes "mset seg = mset A + mset (replicate m a) + mset B"
    and "\<forall>x \<in> set A. a \<le> x" and "\<forall>x \<in> set B. x \<le> a"
  shows "rev (sort A) @ replicate m a @ rev (sort B) = rev (sort (seg :: mdb_id list))"
proof (rule desc_mset_unique)
  have "desc (replicate m a)" by (induction m) auto
  moreover have "y \<le> x" if "x \<in> set A" "y \<in> set B" for x y
    using assms(2,3) that order_trans by blast
  ultimately show "desc (rev (sort A) @ replicate m a @ rev (sort B))"
    using assms(2,3) by (auto simp: sorted_wrt_append sorted_wrt_rev)
qed (use assms(1) in \<open>simp add: ac_simps\<close>)

text \<open>Taking the next pending segment off \<open>istack\<close>, or stopping.\<close>

definition pop_seg :: "mdb_id list \<Rightarrow> nat list \<Rightarrow> nat \<Rightarrow> mdb_id list option" where
  "pop_seg ids istack jstack =
     (if jstack = 0 then Some ids
      else do { ir \<leftarrow> rd istack jstack; l \<leftarrow> rd istack (jstack - 1); sort_loop ids l ir istack (jstack - 2) })"

lemma pop_seg_pushed:
  "jstack + 2 < length istack \<Longrightarrow> istack ! (jstack + 2) = ir \<Longrightarrow> istack ! (jstack + 1) = l \<Longrightarrow>
     pop_seg ids istack (jstack + 2) = sort_loop ids l ir istack jstack"
  by (simp add: pop_seg_def mem_simps)

lemma sort_loop_small:
  assumes "length xs = l" "1 \<le> l" "l = 1 \<or> (\<forall>y \<in> set seg. y \<le> last xs)"
    and "Suc ir = l + length seg" and "length seg \<le> SMALL"
  shows "sort_loop (xs @ seg @ zs) l ir istack js = pop_seg (xs @ rev (sort seg) @ zs) istack js"
proof (cases seg)
  case Nil
  then have "ins_loop (xs @ seg @ zs) (l + 1) ir = Some (xs @ rev (sort seg) @ zs)"
    using assms by (subst ins_loop.simps) auto
  then show ?thesis using assms by (subst sort_loop.simps) (simp add: pop_seg_def)
next
  case (Cons y ys)
  have "ins_loop (xs @ [y] @ ys @ zs) (l + length [y]) ir = Some (xs @ rev (sort ([y] @ ys)) @ zs)"
    using assms by (intro ins_loop_eq) (auto simp: Cons)
  then show ?thesis using assms by (subst sort_loop.simps) (simp add: pop_seg_def Cons)
qed

lemma sort_loop_split:
  assumes part: "partition_seg ids l ir = Some (ids', i, j)" and big: "\<not> int ir - int l < int SMALL"
    and js: "js + 2 < length istack"
  shows "sort_loop ids l ir istack js =
    (if int j - int l \<le> int ir - int i + 1
     then sort_loop ids' l (j - 1) (istack[js + 2 := ir, js + 1 := i]) (js + 2)
     else sort_loop ids' i ir (istack[js + 2 := j - 1, js + 1 := l]) (js + 2))"
  using assms by (subst sort_loop.simps) (simp add: Let_def mem_simps)


lemma sort_loop_seg:
  "length xs = l \<Longrightarrow> 1 \<le> l \<Longrightarrow> \<forall>x \<in> set (tl xs). \<forall>y \<in> set seg. y \<le> x \<Longrightarrow>
   Suc ir = l + length seg \<Longrightarrow> length seg < 2 ^ k \<Longrightarrow> js + 2 * k \<le> istack_size \<Longrightarrow>
   length istack = istack_size \<Longrightarrow>
   \<exists>istack'. length istack' = istack_size \<and> (\<forall>p \<le> js. istack' ! p = istack ! p) \<and>
     sort_loop (xs @ seg @ zs) l ir istack js = pop_seg (xs @ rev (sort seg) @ zs) istack' js"
proof (induction "length seg" arbitrary: xs seg zs l ir k js istack rule: less_induct)
  case less
  note prems = less.prems
  show ?case
  proof (cases "length seg \<le> SMALL")
    case True
    have "l = 1 \<or> (\<forall>y \<in> set seg. y \<le> last xs)"
    proof (cases "l = 1")
      case False
      then have "tl xs \<noteq> []" using prems(1,2) by (cases xs) auto
      then have "last xs \<in> set (tl xs)" by (metis last_in_set last_tl)
      then show ?thesis using prems(3) by blast
    qed simp
    then show ?thesis using sort_loop_small [OF prems(1,2) _ prems(4) True] prems(7) by blast
  next
    case False
    then have nine: "9 \<le> length seg" by (simp add: SMALL_def)
    obtain A m a B where P: "partition_seg (xs @ seg @ zs) l ir =
          Some (xs @ A @ replicate m a @ B @ zs, l + length A + m, l + length A)"
        "1 \<le> m" "1 \<le> length A" "1 \<le> length B" "length A + m + length B = length seg"
        "mset seg = mset A + mset (replicate m a) + mset B" "\<forall>x \<in> set A. a \<le> x" "\<forall>x \<in> set B. x \<le> a"
      using partition_seg_list [OF prems(1) _ prems(4), of zs] nine by fastforce
    have sset: "set seg = set A \<union> {a} \<union> set B"
      using P(2) arg_cong [OF P(6), of set_mset] by auto
    obtain k' where k': "k = Suc k'" using prems(5) nine by (cases k) auto
    have "2 \<le> k'" 
    proof (rule ccontr)
      assume "\<not> 2 \<le> k'"
      then have "(2::nat) ^ k \<le> 2 ^ 2" unfolding k' by (intro power_increasing) auto
      then show False using prems(5) nine by simp
    qed
    then have js: "js + 2 < istack_size" using prems(6) k' by (simp add: istack_size_def)
    have left: "\<exists>st. length st = istack_size \<and> (\<forall>p \<le> j. st ! p = istack0 ! p) \<and>
        sort_loop (xs @ A @ ys) l (l + length A - 1) istack0 j = pop_seg (xs @ rev (sort A) @ ys) st j"
      if "length A < 2 ^ n" "j + 2 * n \<le> istack_size" "length istack0 = istack_size" for ys n j istack0
      by (rule less.hyps) (use P prems sset that in auto)
    have right: "\<exists>st. length st = istack_size \<and> (\<forall>p \<le> j. st ! p = istack0 ! p) \<and>
        sort_loop (ws @ B @ zs) (l + length A + m) ir istack0 j = pop_seg (ws @ rev (sort B) @ zs) st j"
      if "ws = xs @ A' @ replicate m a" "length A' = length A" "set A' = set A"
        "length B < 2 ^ n" "j + 2 * n \<le> istack_size" "length istack0 = istack_size" for ws A' n j istack0
    proof (rule less.hyps)
      have "tl ws = tl xs @ A' @ replicate m a" using that(1) prems(1,2) by (cases xs) auto
      moreover have "y \<le> x" if "x \<in> set A" "y \<in> set B" for x y
        using P(7,8) that order_trans by blast
      ultimately show "\<forall>x \<in> set (tl ws). \<forall>y \<in> set B. y \<le> x"
        using prems(3) sset P(8) that(3) by auto
    qed (use P prems that in auto)
    have R: "xs @ rev (sort A) @ replicate m a @ rev (sort B) @ zs = xs @ rev (sort seg) @ zs"
      using sort_parts [OF P(6-8)] by (metis append_assoc)
    have sp: "sort_loop (xs @ seg @ zs) l ir istack js =
      (if length A \<le> length B
       then sort_loop (xs @ A @ replicate m a @ B @ zs) l (l + length A - 1)
         (istack[js + 2 := ir, js + 1 := l + length A + m]) (js + 2)
       else sort_loop (xs @ A @ replicate m a @ B @ zs) (l + length A + m) ir
         (istack[js + 2 := l + length A - 1, js + 1 := l]) (js + 2))"
      using sort_loop_split [OF P(1), of js istack] nine prems(4,7) js P(5)
      by (simp add: SMALL_def of_nat_diff)
    have room: "js + 2 + 2 * k' \<le> istack_size" "js + 2 * k \<le> istack_size" using prems(6) k' by auto
    show ?thesis
    proof (cases "length A \<le> length B")
      case True
      let ?i = "istack[js + 2 := ir, js + 1 := l + length A + m]"
      have "length A < 2 ^ k'" using True prems(5) P(2,5) k' by simp
      then obtain s1 where s1: "length s1 = istack_size" "\<forall>p \<le> js + 2. s1 ! p = ?i ! p"
          "sort_loop (xs @ A @ replicate m a @ B @ zs) l (l + length A - 1) ?i (js + 2) =
             pop_seg (xs @ rev (sort A) @ replicate m a @ B @ zs) s1 (js + 2)"
        using left [of k' "js + 2" ?i] room(1) prems(7) by auto
      have "pop_seg (xs @ rev (sort A) @ replicate m a @ B @ zs) s1 (js + 2) =
          sort_loop (xs @ rev (sort A) @ replicate m a @ B @ zs) (l + length A + m) ir s1 js"
        using s1 js prems(7) by (intro pop_seg_pushed) auto
      moreover obtain s2 where "length s2 = istack_size" "\<forall>p \<le> js. s2 ! p = s1 ! p"
          "sort_loop (xs @ rev (sort A) @ replicate m a @ B @ zs) (l + length A + m) ir s1 js =
             pop_seg (xs @ rev (sort A) @ replicate m a @ rev (sort B) @ zs) s2 js"
        using right [OF refl, of "rev (sort A)" k js s1] prems(5) P(5) room(2) s1(1) by auto
      ultimately show ?thesis using sp True s1 R by (intro exI [of _ s2]) auto
    next
      case False
      let ?i = "istack[js + 2 := l + length A - 1, js + 1 := l]"
      have "length B < 2 ^ k'" using False prems(5) P(2,5) k' by simp
      then obtain s1 where s1: "length s1 = istack_size" "\<forall>p \<le> js + 2. s1 ! p = ?i ! p"
          "sort_loop (xs @ A @ replicate m a @ B @ zs) (l + length A + m) ir ?i (js + 2) =
             pop_seg (xs @ A @ replicate m a @ rev (sort B) @ zs) s1 (js + 2)"
        using right [OF refl refl refl, of k' "js + 2" ?i] room(1) prems(7) by auto
      have "pop_seg (xs @ A @ replicate m a @ rev (sort B) @ zs) s1 (js + 2) =
          sort_loop (xs @ A @ replicate m a @ rev (sort B) @ zs) l (l + length A - 1) s1 js"
        using s1 js prems(7) by (intro pop_seg_pushed) auto
      moreover obtain s2 where "length s2 = istack_size" "\<forall>p \<le> js. s2 ! p = s1 ! p"
          "sort_loop (xs @ A @ replicate m a @ rev (sort B) @ zs) l (l + length A - 1) s1 js =
             pop_seg (xs @ rev (sort A) @ replicate m a @ rev (sort B) @ zs) s2 js"
        using left [of k js s1 "replicate m a @ rev (sort B) @ zs"] prems(5) P(5) room(2) s1(1) by auto
      ultimately show ?thesis using sp False s1 R by (intro exI [of _ s2]) auto
    qed
  qed
qed

lemma mdb_midl_sort_eq:
  assumes "idl_ok cells" and "idl_count cells < 2 ^ 30"
  shows "mdb_midl_sort istack0 cells =
    Some (hd cells # rev (sort (idl_elems cells)) @ drop (Suc (idl_count cells)) cells)"
proof -
  let ?n = "idl_count cells"
  obtain c cs where cells: "cells = c # cs" using assms(1) by (cases cells) (auto simp: idl_ok_def)
  have n: "unat c = ?n" by (simp add: idl_count_def cells)
  have lc: "?n \<le> length cs" using assms(1) by (simp add: idl_ok_def cells)
  have "unat (ucast c :: 32 word) = ?n" using n assms(2) by (simp add: ucast_small)
  then have ir: "nat (sint (ucast c :: 32 word)) = ?n" using sint_small [of "ucast c"] assms(2) by simp
  obtain s where "sort_loop ([c] @ take ?n cs @ drop ?n cs) 1 ?n (map istack0 [0..<istack_size]) 0 =
      pop_seg ([c] @ rev (sort (take ?n cs)) @ drop ?n cs) s 0"
    using sort_loop_seg [of "[c]" 1 "take ?n cs" ?n 30 0 "map istack0 [0..<istack_size]" "drop ?n cs"] assms(2) lc
    by (auto simp: istack_size_def)
  then show ?thesis
    using ir by (simp add: mdb_midl_sort_def mem_simps cells pop_seg_def idl_elems_def)
qed

subsection \<open>The sort is correct\<close>

text \<open>C36. For fewer than \<open>2 ^ 30\<close> IDs and any garbage in its uninitialised stack, \<open>mdb_midl_sort\<close>
  terminates, never leaves the ID array or its 64-cell stack, and puts the IDs into descending order; the
  count and the cells after the IDs keep their contents.\<close>

theorem mdb_midl_sort_correct:
  assumes "idl_ok cells" and "idl_count cells < 2 ^ 30"
  shows "\<exists>cells'. mdb_midl_sort istack0 cells = Some cells' \<and> idl_ok cells' \<and> length cells' = length cells \<and>
    idl_count cells' = idl_count cells \<and>
    mset (idl_elems cells') = mset (idl_elems cells) \<and> desc (idl_elems cells') \<and>
    drop (Suc (idl_count cells)) cells' = drop (Suc (idl_count cells)) cells"
proof -
  let ?c = "hd cells # rev (sort (idl_elems cells)) @ drop (Suc (idl_count cells)) cells"
  have len: "length (idl_elems cells) = idl_count cells" by (rule length_idl_elems [OF assms(1)])
  have cnt: "idl_count ?c = idl_count cells" by (simp add: idl_count_def)
  then have el: "idl_elems ?c = rev (sort (idl_elems cells))" by (simp add: idl_elems_def [of ?c] len)
  have "length ?c = length cells" using assms(1) by (simp add: len idl_ok_def)
  then show ?thesis
    using mdb_midl_sort_eq [OF assms, of istack0] assms(1) cnt el len
    by (intro exI [of _ ?c]) (simp add: idl_ok_def sorted_wrt_rev)
qed

theorem mdb_midl_sort_correct_witness:
  "\<exists>cells'. mdb_midl_sort (\<lambda>_. 7) [11, 4, 8, 1, 9, 3, 2, 12, 7, 6, 30, 5, 0] = Some cells' \<and>
     mset (idl_elems cells') = {#4, 8, 1, 9, 3, 2, 12, 7, 6, 30, 5#} \<and> desc (idl_elems cells')"
  using mdb_midl_sort_correct [of "[11, 4, 8, 1, 9, 3, 2, 12, 7, 6, 30, 5, 0]" "\<lambda>_. 7"]
  by (fastforce simp: idl_ok_def idl_count_def idl_elems_def)

end
