(* ===== verification/Page_Memory.thy ===== *)
theory Page_Memory
  imports Prelude
begin

text \<open>
  Byte memory of database pages. A page is the list of its bytes; \<open>bslice p a n\<close> are the \<open>n\<close> bytes from
  offset \<open>a\<close>. Reads and writes at computed offsets are bounds-checked (\<open>None\<close> outside the page), 16-bit
  fields are little endian, as on the platforms the server is built for, and a store truncates to 16 bits.
\<close>

type_synonym page = "byte list"

definition bslice :: "'a list \<Rightarrow> nat \<Rightarrow> nat \<Rightarrow> 'a list" where
  "bslice p a n = take n (drop a p)"

definition patch :: "'a list \<Rightarrow> nat \<Rightarrow> 'a list \<Rightarrow> 'a list" where
  "patch p a bs = take a p @ bs @ drop (a + length bs) p"

definition rdb :: "page \<Rightarrow> nat \<Rightarrow> nat \<Rightarrow> byte list option" where
  "rdb p a n = (if a + n \<le> length p then Some (bslice p a n) else None)"

definition wrb :: "page \<Rightarrow> nat \<Rightarrow> byte list \<Rightarrow> page option" where
  "wrb p a bs = (if a + length bs \<le> length p then Some (patch p a bs) else None)"

text \<open>\<open>memmove(p + d, p + s, n)\<close> within one page: the source is read before the destination is written.\<close>

definition memmove :: "page \<Rightarrow> nat \<Rightarrow> nat \<Rightarrow> nat \<Rightarrow> page option" where
  "memmove p d s n = do { bs \<leftarrow> rdb p s n; wrb p d bs }"

definition le16 :: "byte list \<Rightarrow> nat" where
  "le16 bs = unat (bs ! 0) + 256 * unat (bs ! 1)"

definition enc16 :: "nat \<Rightarrow> byte list" where
  "enc16 v = [of_nat v, of_nat (v div 256)]"

definition get16 :: "page \<Rightarrow> nat \<Rightarrow> nat" where
  "get16 p a = le16 (bslice p a 2)"

definition rd16 :: "page \<Rightarrow> nat \<Rightarrow> nat option" where
  "rd16 p a = (if a + 2 \<le> length p then Some (get16 p a) else None)"

definition wr16 :: "page \<Rightarrow> nat \<Rightarrow> nat \<Rightarrow> page option" where
  "wr16 p a v = wrb p a (enc16 v)"

text \<open>64-bit page numbers in memory.\<close>

fun le_nat :: "byte list \<Rightarrow> nat" where
  "le_nat [] = 0"
| "le_nat (b # bs) = unat b + 256 * le_nat bs"

fun enc_le :: "nat \<Rightarrow> nat \<Rightarrow> byte list" where
  "enc_le 0 v = []"
| "enc_le (Suc n) v = of_nat v # enc_le n (v div 256)"

subsection \<open>Slices and patches\<close>

lemma length_bslice: "length (bslice p a n) = min n (length p - a)"
  by (simp add: bslice_def)

lemma length_bslice_in [simp]: "a + n \<le> length p \<Longrightarrow> length (bslice p a n) = n"
  by (simp add: bslice_def)

lemma nth_bslice: "k < n \<Longrightarrow> a + k < length p \<Longrightarrow> bslice p a n ! k = p ! (a + k)"
  by (simp add: bslice_def)

lemma bslice_0 [simp]: "bslice p a 0 = []"
  by (simp add: bslice_def)

lemma bslice_bslice: "k + m \<le> n \<Longrightarrow> bslice (bslice p a n) k m = bslice p (a + k) m"
  by (simp add: bslice_def take_drop add.commute min_def)

lemma bslice_append_bslice: "bslice p a (m + n) = bslice p a m @ bslice p (a + m) n"
  by (simp add: bslice_def take_add add.commute)

lemma length_patch [simp]: "a + length bs \<le> length p \<Longrightarrow> length (patch p a bs) = length p"
  by (simp add: patch_def)

lemma nth_patch:
  "a + length bs \<le> length p \<Longrightarrow> k < length p \<Longrightarrow>
     patch p a bs ! k = (if a \<le> k \<and> k < a + length bs then bs ! (k - a) else p ! k)"
  by (auto simp: patch_def nth_append min_def)

lemma bslice_patch_same [simp]: "a \<le> length p \<Longrightarrow> n = length bs \<Longrightarrow> bslice (patch p a bs) a n = bs"
  by (simp add: patch_def bslice_def min_def)

lemma bslice_patch_disjoint:
  assumes "a + length bs \<le> length p" and "b + n \<le> a \<or> a + length bs \<le> b"
  shows "bslice (patch p a bs) b n = bslice p b n"
proof (rule nth_equalityI)
  show "length (bslice (patch p a bs) b n) = length (bslice p b n)"
    using assms(1) by (simp add: length_bslice)
  fix k assume "k < length (bslice (patch p a bs) b n)"
  then have k: "k < n" "b + k < length p" using assms(1) by (auto simp: length_bslice)
  then show "bslice (patch p a bs) b n ! k = bslice p b n ! k"
    using assms by (auto simp: nth_bslice nth_patch)
qed

lemma bslice_patch_sub:
  assumes "a + length bs \<le> length p" and "a \<le> b" and "b + n \<le> a + length bs"
  shows "bslice (patch p a bs) b n = bslice bs (b - a) n"
proof (rule nth_equalityI)
  show "length (bslice (patch p a bs) b n) = length (bslice bs (b - a) n)"
    using assms by (simp add: length_bslice)
  fix k assume "k < length (bslice (patch p a bs) b n)"
  then have "k < n" "b + k < length p" using assms(1) by (auto simp: length_bslice)
  then show "bslice (patch p a bs) b n ! k = bslice bs (b - a) n ! k"
    using assms by (simp add: nth_bslice nth_patch)
qed

lemma rdb_eq_Some [mem_simps]: "a + n \<le> length p \<Longrightarrow> rdb p a n = Some (bslice p a n)"
  by (simp add: rdb_def)

lemma wrb_eq_Some [mem_simps]: "a + length bs \<le> length p \<Longrightarrow> wrb p a bs = Some (patch p a bs)"
  by (simp add: wrb_def)

lemma rd16_eq_Some [mem_simps]: "a + 2 \<le> length p \<Longrightarrow> rd16 p a = Some (get16 p a)"
  by (simp add: rd16_def)

lemma length_enc16 [simp]: "length (enc16 v) = 2"
  by (simp add: enc16_def)

lemma wr16_eq_Some [mem_simps]: "a + 2 \<le> length p \<Longrightarrow> wr16 p a v = Some (patch p a (enc16 v))"
  by (simp add: wr16_def wrb_def)

lemma memmove_eq_Some [mem_simps]:
  "s + n \<le> length p \<Longrightarrow> d + n \<le> length p \<Longrightarrow> memmove p d s n = Some (patch p d (bslice p s n))"
  by (simp add: memmove_def mem_simps)

subsection \<open>Little-endian fields\<close>

lemma le16_enc16 [codec_simps]: "le16 (enc16 v) = v mod 65536"
proof -
  have "v mod 65536 = v mod 256 + 256 * (v div 256 mod 256)"
    using mod_mult2_eq [of v 256 256] by simp
  then show ?thesis by (simp add: le16_def enc16_def unat_of_nat)
qed

lemma unat_byte_less: "unat (b :: byte) < 256"
  using unsigned_less [of b, where ?'a = nat] by simp

lemma get16_less: "get16 p a < 65536"
  unfolding get16_def le16_def using unat_byte_less [of "bslice p a 2 ! 0"] unat_byte_less [of "bslice p a 2 ! 1"] by linarith

lemma get16_patch_same: "a + 2 \<le> length p \<Longrightarrow> get16 (patch p a (enc16 v)) a = v mod 65536"
  by (simp add: get16_def codec_simps)

lemma get16_patch_other:
  "a + length bs \<le> length p \<Longrightarrow> b + 2 \<le> a \<or> a + length bs \<le> b \<Longrightarrow> get16 (patch p a bs) b = get16 p b"
  by (simp add: get16_def bslice_patch_disjoint)

lemma get16_bslice: "k + 2 \<le> n \<Longrightarrow> get16 (bslice p a n) k = get16 p (a + k)"
  by (simp add: get16_def bslice_bslice)

lemma length_enc_le [simp]: "length (enc_le n v) = n"
  by (induction n arbitrary: v) auto

lemma le_nat_enc_le [codec_simps]: "le_nat (enc_le n v) = v mod 256 ^ n"
proof (induction n arbitrary: v)
  case (Suc n)
  then show ?case using mod_mult2_eq [of v 256 "256 ^ n"] by (simp add: unat_of_nat)
qed simp

lemma enc_le_le_nat [codec_simps]: "enc_le (length bs) (le_nat bs) = bs"
proof (induction bs)
  case (Cons b bs)
  have "of_nat (unat b + 256 * le_nat bs) = b"
  proof -
    have "(256 :: byte) = 0" by simp
    then have "256 * (of_nat (le_nat bs) :: byte) = 0" by (simp only: mult_zero_left)
    then show ?thesis by (simp add: of_nat_mult)
  qed
  moreover have "(unat b + 256 * le_nat bs) div 256 = le_nat bs" using unat_byte_less [of b] by simp
  ultimately show ?case using Cons by simp
qed simp

subsection \<open>Composing patches\<close>

lemma patch_append:
  "a + length bs + length cs \<le> length p \<Longrightarrow> b = a + length bs \<Longrightarrow> patch (patch p a bs) b cs = patch p a (bs @ cs)"
  by (rule nth_equalityI) (auto simp: nth_patch nth_append)

lemma patch_prepend:
  "a + length bs + length cs \<le> length p \<Longrightarrow> b = a + length bs \<Longrightarrow> patch (patch p b cs) a bs = patch p a (bs @ cs)"
  by (rule nth_equalityI) (auto simp: nth_patch nth_append)

lemma patch_inside:
  assumes "a + length xs + length ys + length zs \<le> length p" "length ys' = length ys" "b = a + length xs"
  shows "patch (patch p a (xs @ ys @ zs)) b ys' = patch p a (xs @ ys' @ zs)"
  using assms by (intro nth_equalityI) (auto simp: nth_patch nth_append)

lemma patch_commute:
  assumes "a + length bs \<le> b" "b + length cs \<le> length p"
  shows "patch (patch p a bs) b cs = patch (patch p b cs) a bs"
  using assms by (intro nth_equalityI) (auto simp: nth_patch)

lemma patch_bslice_same: "a + n \<le> length p \<Longrightarrow> patch p a (bslice p a n) = p"
  by (rule nth_equalityI) (auto simp: nth_patch nth_bslice)

lemma patch_Nil [simp]: "patch p a [] = p"
  by (simp add: patch_def)

lemma byte_256: "(256 :: byte) = 0"
  by simp

lemma enc16_get16: "a + 2 \<le> length p \<Longrightarrow> enc16 (get16 p a) = bslice p a 2"
proof (rule nth_equalityI)
  fix k assume a: "a + 2 \<le> length p" and "k < length (enc16 (get16 p a))"
  then consider "k = 0" | "k = 1" by force
  then show "enc16 (get16 p a) ! k = bslice p a 2 ! k"
  proof cases
    case 1
    then show ?thesis
      by (simp add: enc16_def get16_def le16_def) (metis mult_zero_left byte_256)
  next
    case 2
    then show ?thesis using unat_byte_less [of "bslice p a 2 ! 0"]
      by (simp add: enc16_def get16_def le16_def)
  qed
qed simp

end
