(* ===== verification/LMDB_Page.thy ===== *)
theory LMDB_Page
  imports Page_Memory
begin

text \<open>
  B+tree pages of the embedded LMDB (\<^verbatim>\<open>src/urbackupserver/lmdb/mdb.c\<close>) at the level of bytes: the page and
  node header macros, the key comparison functions, the binary search in a page and the operations that
  add, delete and re-key a node. Nodes lie unordered at the end of a page, the 16-bit pointers \<open>mp_ptrs\<close> after
  the header give their order. Build configuration: \<open>MDB_DEVEL = 0\<close> (so \<open>PAGEBASE = 0\<close>), 64-bit page numbers,
  little endian.
\<close>

subsection \<open>Header macros\<close>

definition PAGEHDRSZ :: nat where
  "PAGEHDRSZ = 16"

definition NODESIZE :: nat where
  "NODESIZE = 8"

definition P_BRANCH :: nat where "P_BRANCH = 1"
definition P_LEAF :: nat where "P_LEAF = 2"
definition P_OVERFLOW :: nat where "P_OVERFLOW = 4"
definition P_META :: nat where "P_META = 8"
definition P_DIRTY :: nat where "P_DIRTY = 16"
definition P_LEAF2 :: nat where "P_LEAF2 = 32"
definition P_SUBP :: nat where "P_SUBP = 64"
definition P_LOOSE :: nat where "P_LOOSE = 0x4000"
definition P_KEEP :: nat where "P_KEEP = 0x8000"

definition F_BIGDATA :: nat where "F_BIGDATA = 1"
definition F_SUBDATA :: nat where "F_SUBDATA = 2"
definition F_DUPDATA :: nat where "F_DUPDATA = 4"
definition MDB_RESERVE :: nat where "MDB_RESERVE = 0x10000"

definition F_ISSET :: "nat \<Rightarrow> nat \<Rightarrow> bool" where
  "F_ISSET w f \<longleftrightarrow> and w f = f"

definition EVEN :: "nat \<Rightarrow> nat" where
  "EVEN n = (n + 1) div 2 * 2"

definition mp_pgno :: "page \<Rightarrow> nat" where
  "mp_pgno p = le_nat (bslice p 0 8)"

definition mp_flags :: "page \<Rightarrow> nat" where
  "mp_flags p = get16 p 10"

definition mp_lower :: "page \<Rightarrow> nat" where
  "mp_lower p = get16 p 12"

definition mp_upper :: "page \<Rightarrow> nat" where
  "mp_upper p = get16 p 14"

definition mp_pages :: "page \<Rightarrow> nat" where
  "mp_pages p = le_nat (bslice p 12 4)"

definition NUMKEYS :: "page \<Rightarrow> nat" where
  "NUMKEYS p = (mp_lower p - PAGEHDRSZ) div 2"

definition SIZELEFT :: "page \<Rightarrow> nat" where
  "SIZELEFT p = (mp_upper p + 65536 - mp_lower p) mod 65536"

definition PAGEFILL :: "nat \<Rightarrow> page \<Rightarrow> nat" where
  "PAGEFILL psize p = 1000 * (psize - PAGEHDRSZ - SIZELEFT p) div (psize - PAGEHDRSZ)"

definition IS_LEAF :: "page \<Rightarrow> bool" where
  "IS_LEAF p \<longleftrightarrow> F_ISSET (mp_flags p) P_LEAF"

definition IS_LEAF2 :: "page \<Rightarrow> bool" where
  "IS_LEAF2 p \<longleftrightarrow> F_ISSET (mp_flags p) P_LEAF2"

definition IS_BRANCH :: "page \<Rightarrow> bool" where
  "IS_BRANCH p \<longleftrightarrow> F_ISSET (mp_flags p) P_BRANCH"

definition IS_OVERFLOW :: "page \<Rightarrow> bool" where
  "IS_OVERFLOW p \<longleftrightarrow> F_ISSET (mp_flags p) P_OVERFLOW"

definition OVPAGES :: "nat \<Rightarrow> nat \<Rightarrow> nat" where
  "OVPAGES sz psize = (PAGEHDRSZ - 1 + sz) div psize + 1"

text \<open>An \<open>MDB_val\<close>: a size and the memory at its data pointer. The two are separate because a node whose
  data is on an overflow page is handled with the size of the data and a pointer to the page number.\<close>

record mdb_val =
  mv_size :: nat
  mv_data :: "byte list"

definition val_bytes :: "mdb_val \<Rightarrow> nat \<Rightarrow> byte list option" where
  "val_bytes v n = (if n \<le> length (mv_data v) then Some (take n (mv_data v)) else None)"

definition INDXSIZE :: "mdb_val option \<Rightarrow> nat" where
  "INDXSIZE k = NODESIZE + (case k of None \<Rightarrow> 0 | Some k \<Rightarrow> mv_size k)"

definition LEAFSIZE :: "mdb_val \<Rightarrow> mdb_val \<Rightarrow> nat" where
  "LEAFSIZE k d = NODESIZE + mv_size k + mv_size d"

text \<open>Nodes are addressed by their offset in the page. \<open>PTRS i\<close> is the offset of \<open>mp_ptrs[i]\<close>.\<close>

definition PTRS :: "nat \<Rightarrow> nat" where
  "PTRS i = PAGEHDRSZ + 2 * i"

definition NODEPTR :: "page \<Rightarrow> nat \<Rightarrow> nat option" where
  "NODEPTR p i = rd16 p (PTRS i)"

record mdb_node =
  mn_lo :: nat
  mn_hi :: nat
  mn_flags :: nat
  mn_ksize :: nat

definition node_hdr :: "page \<Rightarrow> nat \<Rightarrow> mdb_node option" where
  "node_hdr p node =
     (if node + NODESIZE \<le> length p
      then Some \<lparr>mn_lo = get16 p node, mn_hi = get16 p (node + 2),
                 mn_flags = get16 p (node + 4), mn_ksize = get16 p (node + 6)\<rparr>
      else None)"

definition NODEDSZ :: "mdb_node \<Rightarrow> nat" where
  "NODEDSZ n = mn_lo n + 2 ^ 16 * mn_hi n"

definition NODEPGNO :: "mdb_node \<Rightarrow> nat" where
  "NODEPGNO n = mn_lo n + 2 ^ 16 * mn_hi n + 2 ^ 32 * mn_flags n"

definition NODEKEY :: "page \<Rightarrow> nat \<Rightarrow> byte list option" where
  "NODEKEY p node = do { n \<leftarrow> node_hdr p node; rdb p (node + NODESIZE) (mn_ksize n) }"

definition NODEDATA :: "page \<Rightarrow> nat \<Rightarrow> nat option" where
  "NODEDATA p node = do { n \<leftarrow> node_hdr p node; Some (node + NODESIZE + mn_ksize n) }"

definition SETPGNO :: "page \<Rightarrow> nat \<Rightarrow> nat \<Rightarrow> page option" where
  "SETPGNO p node pgno =
     do { p \<leftarrow> wr16 p node pgno; p \<leftarrow> wr16 p (node + 2) (pgno div 2 ^ 16); wr16 p (node + 4) (pgno div 2 ^ 32) }"

definition SETDSZ :: "page \<Rightarrow> nat \<Rightarrow> nat \<Rightarrow> page option" where
  "SETDSZ p node sz = do { p \<leftarrow> wr16 p node sz; wr16 p (node + 2) (sz div 2 ^ 16) }"

definition LEAF2KEY :: "nat \<Rightarrow> nat \<Rightarrow> nat" where
  "LEAF2KEY i ks = PAGEHDRSZ + i * ks"

subsection \<open>Comparison functions\<close>

text \<open>The sign of \<open>memcmp\<close> on two blocks of the same length.\<close>

fun memcmp :: "byte list \<Rightarrow> byte list \<Rightarrow> int" where
  "memcmp (a # as) (b # bs) = (if a < b then - 1 else if b < a then 1 else memcmp as bs)"
| "memcmp _ _ = 0"

definition mdb_cmp_long :: "byte list \<Rightarrow> byte list \<Rightarrow> int option" where
  "mdb_cmp_long a b =
     do { x \<leftarrow> rdb a 0 8; y \<leftarrow> rdb b 0 8;
          Some (if le_nat x < le_nat y then - 1 else if le_nat x > le_nat y then 1 else 0) }"

definition mdb_cmp_int :: "byte list \<Rightarrow> byte list \<Rightarrow> int option" where
  "mdb_cmp_int a b =
     do { x \<leftarrow> rdb a 0 4; y \<leftarrow> rdb b 0 4;
          Some (if le_nat x < le_nat y then - 1 else if le_nat x > le_nat y then 1 else 0) }"

text \<open>The loop of \<open>mdb_cmp_cint\<close>: 16-bit units from the last to the first.\<close>

fun cmp_cint_loop :: "byte list \<Rightarrow> byte list \<Rightarrow> nat \<Rightarrow> int option" where
  "cmp_cint_loop a b u =
     (if u < 2 then None
      else do { x \<leftarrow> rd16 a (u - 2); y \<leftarrow> rd16 b (u - 2);
                if int x - int y \<noteq> 0 \<or> u - 2 = 0 then Some (int x - int y) else cmp_cint_loop a b (u - 2) })"

definition mdb_cmp_cint :: "byte list \<Rightarrow> byte list \<Rightarrow> int option" where
  "mdb_cmp_cint a b = cmp_cint_loop a b (length a)"

definition mdb_cmp_memn :: "byte list \<Rightarrow> byte list \<Rightarrow> int option" where
  "mdb_cmp_memn a b =
     (let len_diff = int (length a) - int (length b);
          len = u32n (if len_diff > 0 then length b else length a);
          len_diff = (if len_diff > 0 then 1 else len_diff);
          diff = memcmp (take len a) (take len b)
      in Some (if diff \<noteq> 0 then diff else if len_diff < 0 then - 1 else len_diff))"

fun cmp_memnr_loop :: "byte list \<Rightarrow> byte list \<Rightarrow> int" where
  "cmp_memnr_loop (a # as) (b # bs) =
     (if a = b then cmp_memnr_loop as bs else int (unat a) - int (unat b))"
| "cmp_memnr_loop _ _ = 0"

definition mdb_cmp_memnr :: "byte list \<Rightarrow> byte list \<Rightarrow> int option" where
  "mdb_cmp_memnr a b =
     (let len_diff = int (length a) - int (length b);
          diff = cmp_memnr_loop (rev a) (rev b)
      in Some (if diff \<noteq> 0 then diff else if len_diff > 0 then 1 else if len_diff < 0 then - 1 else 0))"

text \<open>The comparison functions a database can have (\<open>md_cmp\<close>) and the one its flags select.\<close>

datatype mdb_cmp_func = Cmp_long | Cmp_int | Cmp_cint | Cmp_memn | Cmp_memnr

fun run_cmp :: "mdb_cmp_func \<Rightarrow> byte list \<Rightarrow> byte list \<Rightarrow> int option" where
  "run_cmp Cmp_long = mdb_cmp_long"
| "run_cmp Cmp_int = mdb_cmp_int"
| "run_cmp Cmp_cint = mdb_cmp_cint"
| "run_cmp Cmp_memn = mdb_cmp_memn"
| "run_cmp Cmp_memnr = mdb_cmp_memnr"

subsection \<open>Binary search in a page\<close>

text \<open>The key of entry \<open>i\<close>: packed keys of \<open>pad\<close> bytes on a \<open>P_LEAF2\<close> page, node keys otherwise.\<close>

definition entry_key :: "page \<Rightarrow> nat \<Rightarrow> nat \<Rightarrow> byte list option" where
  "entry_key p pad i =
     (if IS_LEAF2 p then rdb p (LEAF2KEY i pad) pad
      else do { node \<leftarrow> NODEPTR p i; NODEKEY p node })"

text \<open>The \<open>while (low <= high)\<close> loop: the final \<open>i\<close> and \<open>rc\<close>.\<close>

function node_search_loop ::
    "(byte list \<Rightarrow> byte list \<Rightarrow> int option) \<Rightarrow> page \<Rightarrow> nat \<Rightarrow> byte list \<Rightarrow> int \<Rightarrow> int \<Rightarrow> nat \<Rightarrow> int
     \<Rightarrow> (nat \<times> int) option" where
  "node_search_loop cmp p pad key low high i rc =
     (if low \<le> high then
        (let i = nat ((low + high) div 2) in
         case entry_key p pad i of
           None \<Rightarrow> None
         | Some nodekey \<Rightarrow>
             (case cmp key nodekey of
                None \<Rightarrow> None
              | Some rc \<Rightarrow>
                  if low < 0 then None
                  else if rc = 0 then Some (i, rc)
                  else if rc > 0 then node_search_loop cmp p pad key (int i + 1) high i rc
                  else node_search_loop cmp p pad key low (int i - 1) i rc))
      else Some (i, rc))"
  by pat_completeness auto
termination
  by (relation "measure (\<lambda>(cmp, p, pad, key, low, high, i, rc). nat (high + 1 - low))") auto

declare node_search_loop.simps [simp del]

text \<open>\<open>mdb_node_search\<close> on the top page: the index stored in the cursor, \<open>*exactp\<close>, and whether the result
  is a node (an index past the end is the result \<open>NULL\<close>).\<close>

definition mdb_node_search :: "mdb_cmp_func \<Rightarrow> nat \<Rightarrow> page \<Rightarrow> byte list \<Rightarrow> (nat \<times> bool \<times> bool) option" where
  "mdb_node_search cf pad mp key =
     do { let nkeys = NUMKEYS mp;
          let low = (if IS_LEAF mp then 0 else 1);
          cf \<leftarrow> (if cf = Cmp_cint \<and> IS_BRANCH mp
                then do { node \<leftarrow> NODEPTR mp 1; n \<leftarrow> node_hdr mp node;
                          Some (if mn_ksize n = 8 then Cmp_long else Cmp_int) }
                else Some cf);
          (i, rc) \<leftarrow> node_search_loop (run_cmp cf) mp pad key low (int nkeys - 1) 0 0;
          let i = (if rc > 0 then i + 1 else i);
          Some (i, rc = 0 \<and> nkeys > 0, i < nkeys) }"

subsection \<open>Node sizes\<close>

definition mdb_leaf_size :: "nat \<Rightarrow> mdb_val \<Rightarrow> mdb_val \<Rightarrow> nat" where
  "mdb_leaf_size nodemax key data =
     (let sz = LEAFSIZE key data;
          sz = (if sz > nodemax then sz + 8 - mv_size data else sz)
      in EVEN (sz + 2))"

definition mdb_branch_size :: "mdb_val option \<Rightarrow> nat" where
  "mdb_branch_size key = INDXSIZE key + 2"

subsection \<open>Adding a node\<close>

text \<open>What \<open>mdb_node_add\<close> decides before it changes the page: no room, a node of the given size, or a node of
  the given size with its data on that many overflow pages. \<open>None\<close> is a failed \<open>mdb_cassert\<close>.\<close>

datatype node_plan = Node_Full | Node_Fits nat | Node_Overflow nat nat

definition node_fit :: "int \<Rightarrow> nat \<Rightarrow> node_plan" where
  "node_fit room node_size = (if int (EVEN node_size) > room then Node_Full else Node_Fits (EVEN node_size))"

definition node_add_plan ::
    "nat \<Rightarrow> nat \<Rightarrow> page \<Rightarrow> mdb_val option \<Rightarrow> mdb_val option \<Rightarrow> nat \<Rightarrow> node_plan option" where
  "node_add_plan psize nodemax mp key data flags =
     (if mp_upper mp < mp_lower mp then None
      else
        (let room = int (SIZELEFT mp) - 2;
             node_size = NODESIZE + (case key of None \<Rightarrow> 0 | Some k \<Rightarrow> mv_size k)
         in if IS_LEAF mp then
              (case (key, data) of
                 (Some k, Some d) \<Rightarrow>
                   Some (if F_ISSET flags F_BIGDATA then node_fit room (node_size + 8)
                         else if node_size + mv_size d > nodemax
                         then (if int (EVEN (node_size + 8)) > room then Node_Full
                               else Node_Overflow (EVEN (node_size + 8)) (OVPAGES (mv_size d) psize))
                         else node_fit room (node_size + mv_size d))
               | _ \<Rightarrow> None)
            else Some (node_fit room node_size)))"

text \<open>\<open>for (i = NUMKEYS(mp); i > indx; i--) mp_ptrs[i] = mp_ptrs[i - 1]\<close>.\<close>

fun shift_ptrs_up :: "page \<Rightarrow> nat \<Rightarrow> nat \<Rightarrow> page option" where
  "shift_ptrs_up p indx 0 = Some p"
| "shift_ptrs_up p indx (Suc i) =
     (if Suc i > indx
      then do { v \<leftarrow> rd16 p (PTRS i); p \<leftarrow> wr16 p (PTRS (Suc i)) v; shift_ptrs_up p indx i }
      else Some p)"

text \<open>The part of \<open>mdb_node_add\<close> from the label \<open>update\<close>: first the pointer array and the free-space
  bounds, which give the offset of the new node,\<close>

definition node_add_slot :: "page \<Rightarrow> nat \<Rightarrow> nat \<Rightarrow> (page \<times> nat) option" where
  "node_add_slot p indx node_size =
     do { p \<leftarrow> shift_ptrs_up p indx (NUMKEYS p);
          let ofs = mp_upper p - node_size;
          if mp_lower p + 2 \<le> ofs
          then do { p \<leftarrow> wr16 p (PTRS indx) ofs;
                    p \<leftarrow> wr16 p 14 ofs;
                    p \<leftarrow> wr16 p 12 (mp_lower p + 2);
                    node \<leftarrow> NODEPTR p indx;
                    Some (p, node) }
          else None }"

text \<open>then the header, the key and the data of the node. \<open>ofp\<close> are the bytes of the overflow pages that were allocated for the
  data: the node gets their number, and the data goes behind their header.\<close>

definition overflow_write :: "page option \<Rightarrow> mdb_val \<Rightarrow> nat \<Rightarrow> page option option" where
  "overflow_write ofp d flags =
     (case ofp of
        None \<Rightarrow> Some None
      | Some op \<Rightarrow>
          if F_ISSET flags MDB_RESERVE then Some (Some op)
          else do { bs \<leftarrow> val_bytes d (mv_size d); op \<leftarrow> wrb op PAGEHDRSZ bs; Some (Some op) })"

definition node_write ::
    "page \<Rightarrow> nat \<Rightarrow> mdb_val option \<Rightarrow> mdb_val option \<Rightarrow> nat \<Rightarrow> nat \<Rightarrow> page option \<Rightarrow> (page \<times> page option) option" where
  "node_write p node key data pgno flags ofp =
     do { p \<leftarrow> wr16 p (node + 6) (case key of None \<Rightarrow> 0 | Some k \<Rightarrow> mv_size k);
          p \<leftarrow> wr16 p (node + 4) flags;
          p \<leftarrow> (if IS_LEAF p then do { d \<leftarrow> data; SETDSZ p node (mv_size d) } else SETPGNO p node pgno);
          p \<leftarrow> (case key of None \<Rightarrow> Some p
                | Some k \<Rightarrow> do { bs \<leftarrow> val_bytes k (mv_size k); wrb p (node + NODESIZE) bs });
          if IS_LEAF p then
            do { ndata \<leftarrow> NODEDATA p node;
                 d \<leftarrow> data;
                 p \<leftarrow> (case ofp of
                        None \<Rightarrow>
                          if F_ISSET flags F_BIGDATA then do { bs \<leftarrow> val_bytes d 8; wrb p ndata bs }
                          else if F_ISSET flags MDB_RESERVE then Some p
                          else do { bs \<leftarrow> val_bytes d (mv_size d); wrb p ndata bs }
                      | Some op \<Rightarrow> do { bs \<leftarrow> rdb op 0 8; wrb p ndata bs });
                 ofp \<leftarrow> overflow_write ofp d flags;
                 Some (p, ofp) }
          else Some (p, ofp) }"

definition node_add_update ::
    "page \<Rightarrow> nat \<Rightarrow> mdb_val option \<Rightarrow> mdb_val option \<Rightarrow> nat \<Rightarrow> nat \<Rightarrow> nat \<Rightarrow> page option \<Rightarrow> (page \<times> page option) option" where
  "node_add_update p indx key data pgno flags node_size ofp =
     do { (p, node) \<leftarrow> node_add_slot p indx node_size; node_write p node key data pgno flags ofp }"

text \<open>The \<open>P_LEAF2\<close> part of \<open>mdb_node_add\<close>: packed keys of \<open>ksize\<close> bytes.\<close>

definition node_add_leaf2 :: "page \<Rightarrow> nat \<Rightarrow> nat \<Rightarrow> mdb_val \<Rightarrow> page option" where
  "node_add_leaf2 p indx ksize key =
     do { let ptr = LEAF2KEY indx ksize;
          p \<leftarrow> (if NUMKEYS p > indx then memmove p (ptr + ksize) ptr ((NUMKEYS p - indx) * ksize) else Some p);
          bs \<leftarrow> val_bytes key ksize;
          p \<leftarrow> wrb p ptr bs;
          let upper = mp_upper p;
          p \<leftarrow> wr16 p 12 (mp_lower p + 2);
          wr16 p 14 (upper + 2 - ksize) }"

subsection \<open>Deleting a node\<close>

text \<open>The length of a node, and \<open>sz\<close>, the bytes it occupies.\<close>

definition node_len :: "bool \<Rightarrow> mdb_node \<Rightarrow> nat" where
  "node_len leaf n =
     NODESIZE + mn_ksize n + (if leaf then (if F_ISSET (mn_flags n) F_BIGDATA then 8 else NODEDSZ n) else 0)"

definition node_bytes_used :: "bool \<Rightarrow> mdb_node \<Rightarrow> nat" where
  "node_bytes_used leaf n = EVEN (node_len leaf n)"

text \<open>The pointer loop of \<open>mdb_node_del\<close>, for the remaining \<open>n\<close> values of \<open>i\<close>.\<close>

fun del_ptrs :: "page \<Rightarrow> nat \<Rightarrow> nat \<Rightarrow> nat \<Rightarrow> nat \<Rightarrow> nat \<Rightarrow> nat \<Rightarrow> page option" where
  "del_ptrs p indx ptr sz i j 0 = Some p"
| "del_ptrs p indx ptr sz i j (Suc n) =
     (if i \<noteq> indx
      then do { v \<leftarrow> rd16 p (PTRS i);
                p \<leftarrow> wr16 p (PTRS j) v;
                w \<leftarrow> rd16 p (PTRS i);
                p \<leftarrow> (if w < ptr then do { u \<leftarrow> rd16 p (PTRS j); wr16 p (PTRS j) (u + sz) } else Some p);
                del_ptrs p indx ptr sz (i + 1) (j + 1) n }
      else del_ptrs p indx ptr sz (i + 1) j n)"

definition mdb_node_del :: "page \<Rightarrow> nat \<Rightarrow> nat \<Rightarrow> page option" where
  "mdb_node_del mp indx ksize =
     (let numkeys = NUMKEYS mp in
      if \<not> indx < numkeys then None
      else if IS_LEAF2 mp then
        do { let x = numkeys - 1 - indx;
             let base = LEAF2KEY indx ksize;
             mp \<leftarrow> (if x \<noteq> 0 then memmove mp base (base + ksize) (x * ksize) else Some mp);
             let upper = mp_upper mp;
             mp \<leftarrow> wr16 mp 12 (mp_lower mp - 2);
             wr16 mp 14 (upper + ksize - 2) }
      else
        do { node \<leftarrow> NODEPTR mp indx;
             n \<leftarrow> node_hdr mp node;
             let sz = node_bytes_used (IS_LEAF mp) n;
             ptr \<leftarrow> rd16 mp (PTRS indx);
             mp \<leftarrow> del_ptrs mp indx ptr sz 0 0 numkeys;
             let base = mp_upper mp;
             mp \<leftarrow> memmove mp (base + sz) base (ptr - mp_upper mp);
             mp \<leftarrow> wr16 mp 12 (mp_lower mp - 2);
             wr16 mp 14 (mp_upper mp + sz) })"

subsection \<open>Replacing the key of a branch node\<close>

text \<open>\<open>for (i = 0; i < numkeys; i++) if (mp_ptrs[i] <= ptr) mp_ptrs[i] -= delta\<close>.\<close>

fun move_ptrs :: "page \<Rightarrow> nat \<Rightarrow> int \<Rightarrow> nat \<Rightarrow> nat \<Rightarrow> page option" where
  "move_ptrs p ptr delta i 0 = Some p"
| "move_ptrs p ptr delta i (Suc n) =
     do { v \<leftarrow> rd16 p (PTRS i);
          p \<leftarrow> (if v \<le> ptr then wr16 p (PTRS i) (nat (int v - delta)) else Some p);
          move_ptrs p ptr delta (i + 1) n }"

text \<open>\<open>mdb_update_key\<close> on the page itself: \<open>Inl pgno\<close> when the new key does not fit, where the C function
  deletes the node and splits the page for the child \<open>pgno\<close>.\<close>

definition update_key_page :: "page \<Rightarrow> nat \<Rightarrow> mdb_val \<Rightarrow> (nat + page) option" where
  "update_key_page mp indx key =
     do { node \<leftarrow> NODEPTR mp indx;
          n \<leftarrow> node_hdr mp node;
          ptr \<leftarrow> rd16 mp (PTRS indx);
          let delta = int (EVEN (mv_size key)) - int (EVEN (mn_ksize n));
          if delta > 0 \<and> int (SIZELEFT mp) < delta then Some (Inl (NODEPGNO n))
          else
            do { mp \<leftarrow> (if delta \<noteq> 0
                       then do { mp \<leftarrow> move_ptrs mp ptr delta 0 (NUMKEYS mp);
                                 let base = mp_upper mp;
                                 mp \<leftarrow> memmove mp (nat (int base - delta)) base (ptr - mp_upper mp + NODESIZE);
                                 wr16 mp 14 (nat (int (mp_upper mp) - delta)) }
                       else Some mp);
                 node \<leftarrow> NODEPTR mp indx;
                 mp \<leftarrow> wr16 mp (node + 6) (mv_size key);
                 bs \<leftarrow> val_bytes key (mv_size key);
                 mp \<leftarrow> wrb mp (node + NODESIZE) bs;
                 Some (Inr mp) } }"

end
