(* ===== verification/LMDB_Page_Refine.thy ===== *)
theory LMDB_Page_Refine
  imports LMDB_Page
begin

text \<open>
  Byte-level pages refine lists of nodes. \<open>page_lay p L\<close> says that page \<open>p\<close> holds nodes at the offsets and
  with the byte strings that \<open>L\<close> lists, in that order, without overlap and without gaps, and \<open>page_rep\<close> leaves out the offsets. Adding,
  deleting and re-keying a node are shown to be insertion, removal and replacement in that list, with every
  access inside the page.
\<close>

subsection \<open>The pointer array\<close>

definition ptr_bytes :: "nat list \<Rightarrow> byte list" where
  "ptr_bytes vs = concat (map enc16 vs)"

lemma length_ptr_bytes [simp]: "length (ptr_bytes vs) = 2 * length vs"
  by (induction vs) (auto simp: ptr_bytes_def)

lemma ptr_bytes_append [simp]: "ptr_bytes (xs @ ys) = ptr_bytes xs @ ptr_bytes ys"
  by (simp add: ptr_bytes_def)

lemma ptr_bytes_single [simp]: "ptr_bytes [v] = enc16 v"
  by (simp add: ptr_bytes_def)

lemma bslice_ptr_bytes: "k < length vs \<Longrightarrow> bslice (ptr_bytes vs) (2 * k) 2 = enc16 (vs ! k)"
proof (induction vs arbitrary: k)
  case (Cons v vs)
  then show ?case by (cases k) (auto simp: ptr_bytes_def bslice_def)
qed simp

lemma get16_ptr_bytes:
  "k < length vs \<Longrightarrow> PTRS 0 + 2 * length vs \<le> length p \<Longrightarrow>
     get16 (patch p (PTRS 0) (ptr_bytes vs)) (PTRS k) = vs ! k mod 65536"
  by (simp add: get16_def bslice_patch_sub PTRS_def bslice_ptr_bytes codec_simps)

lemma shift_ptrs_up_eq:
  "indx \<le> n \<Longrightarrow> PTRS (Suc n) \<le> length p \<Longrightarrow>
     shift_ptrs_up p indx n = Some (patch p (PTRS (Suc indx)) (bslice p (PTRS indx) (2 * (n - indx))))"
proof (induction n arbitrary: p)
  case (Suc n)
  show ?case
  proof (cases "indx = Suc n")
    case False
    then have le: "indx \<le> n" using Suc.prems by simp
    let ?p = "patch p (PTRS (Suc n)) (bslice p (PTRS n) 2)"
    have b: "PTRS n + 2 \<le> length p" "PTRS (Suc n) + 2 \<le> length p" using Suc.prems by (auto simp: PTRS_def)
    have sl: "bslice ?p (PTRS indx) (2 * (n - indx)) = bslice p (PTRS indx) (2 * (n - indx))"
      using b le by (intro bslice_patch_disjoint) (auto simp: PTRS_def)
    have "shift_ptrs_up p indx (Suc n) = shift_ptrs_up ?p indx n"
      using le b by (simp add: mem_simps enc16_get16)
    also have "\<dots> = Some (patch ?p (PTRS (Suc indx)) (bslice p (PTRS indx) (2 * (n - indx))))"
      using Suc.IH [of ?p] le b sl by simp
    also have "patch ?p (PTRS (Suc indx)) (bslice p (PTRS indx) (2 * (n - indx))) =
        patch p (PTRS (Suc indx)) (bslice p (PTRS indx) (2 * (n - indx)) @ bslice p (PTRS n) 2)"
      using b le by (intro patch_prepend) (auto simp: PTRS_def)
    also have "bslice p (PTRS indx) (2 * (n - indx)) @ bslice p (PTRS n) 2 = bslice p (PTRS indx) (2 * (Suc n - indx))"
      using bslice_append_bslice [of p "PTRS indx" "2 * (n - indx)" 2] le
      by (simp add: PTRS_def Suc_diff_le) (simp add: diff_mult_distrib2 add.assoc)
    finally show ?thesis .
  qed (simp)
qed simp

lemma del_ptrs_eq:
  assumes n: "i + n \<le> N" and N: "PTRS N \<le> length p"
    and ji: "length vs \<le> i" and v: "\<forall>v \<in> set vs. v < 65536"
    and sz: "ptr + sz \<le> 65536"
    and cnt: "length vs + (if i \<le> indx then 1 else 0) \<le> i + 1"
  shows "del_ptrs (patch p (PTRS 0) (ptr_bytes vs)) indx ptr sz i (length vs) n =
    Some (patch p (PTRS 0) (ptr_bytes (vs @
      map (\<lambda>k. let v = get16 p (PTRS k) in if v < ptr then v + sz else v) (filter (\<lambda>k. k \<noteq> indx) [i..<i + n]))))"
  using n ji v cnt
proof (induction n arbitrary: i vs)
  case (Suc n)
  let ?q = "patch p (PTRS 0) (ptr_bytes vs)" and ?v = "get16 p (PTRS i)"
  let ?w = "if ?v < ptr then ?v + sz else ?v"
  have b: "PTRS i + 2 \<le> length p" "PTRS (length vs) + 2 \<le> length p" "length ?q = length p"
    using Suc.prems N by (auto simp: PTRS_def)
  have up: "[i..<i + Suc n] = i # [Suc i..<Suc i + n]" by (simp add: upt_conv_Cons del: upt_Suc)
  show ?case
  proof (cases "i = indx")
    case True
    then show ?thesis using Suc.IH [of "Suc i" vs] Suc.prems unfolding up by simp
  next
    case False
    have v: "get16 ?q (PTRS i) = ?v"
      using Suc.prems b by (intro get16_patch_other) (auto simp: PTRS_def)
    have vl: "?v < 65536" by (rule get16_less)
    let ?q1 = "patch p (PTRS 0) (ptr_bytes (vs @ [?v]))"
    have q1: "patch ?q (PTRS (length vs)) (enc16 ?v) = ?q1"
      using b by (simp add: patch_append PTRS_def)
    have r1: "get16 ?q1 (PTRS i) = ?v"
    proof (cases "i = length vs")
      case True
      then show ?thesis using get16_ptr_bytes [of i "vs @ [?v]" p] b vl by (simp add: PTRS_def)
    next
      case False
      then show ?thesis using Suc.prems b by (intro get16_patch_other) (auto simp: PTRS_def)
    qed
    have r2: "get16 ?q1 (PTRS (length vs)) = ?v"
      using get16_ptr_bytes [of "length vs" "vs @ [?v]" p] b vl by (simp add: PTRS_def)
    let ?q2 = "patch p (PTRS 0) (ptr_bytes (vs @ [?w]))"
    have q2: "patch ?q1 (PTRS (length vs)) (enc16 w) = patch p (PTRS 0) (ptr_bytes (vs @ [w]))" for w
      using b patch_inside [of "PTRS 0" "ptr_bytes vs" "enc16 ?v" "[]" p "enc16 w" "PTRS (length vs)"]
      by (simp add: PTRS_def)
    have len1: "length ?q1 = length p" using b by (simp add: PTRS_def)
    have "del_ptrs ?q indx ptr sz i (length vs) (Suc n) = del_ptrs ?q2 indx ptr sz (Suc i) (length (vs @ [?w])) n"
      using False b v q1 r1 r2 q2 len1 by (simp add: mem_simps split del: if_split) (simp add: mem_simps)
    also have "\<dots> = Some (patch p (PTRS 0) (ptr_bytes ((vs @ [?w]) @
      map (\<lambda>k. let v = get16 p (PTRS k) in if v < ptr then v + sz else v) (filter (\<lambda>k. k \<noteq> indx) [Suc i..<Suc i + n]))))"
      by (rule Suc.IH) (use Suc.prems vl sz in auto)
    finally show ?thesis using False unfolding up by (simp add: Let_def)
  qed
qed simp

subsection \<open>Node bytes\<close>

lemma node_hdr_eq_Some [mem_simps]:
  "node + 8 \<le> length p \<Longrightarrow> node_hdr p node =
     Some \<lparr>mn_lo = get16 p node, mn_hi = get16 p (node + 2), mn_flags = get16 p (node + 4), mn_ksize = get16 p (node + 6)\<rparr>"
  by (simp add: node_hdr_def NODESIZE_def)

text \<open>The header a byte string starts with.\<close>

definition hdr_of :: "byte list \<Rightarrow> mdb_node" where
  "hdr_of nb = \<lparr>mn_lo = get16 nb 0, mn_hi = get16 nb 2, mn_flags = get16 nb 4, mn_ksize = get16 nb 6\<rparr>"

definition node_wf :: "bool \<Rightarrow> byte list \<Rightarrow> bool" where
  "node_wf leaf nb \<longleftrightarrow> length nb = node_len leaf (hdr_of nb)"

lemma node_wf_length: "node_wf leaf nb \<Longrightarrow> 8 \<le> length nb"
  by (simp add: node_wf_def node_len_def NODESIZE_def)

lemma node_hdr_bslice:
  assumes "8 \<le> n" and "a + n \<le> length p"
  shows "node_hdr p a = Some (hdr_of (bslice p a n))"
  using assms by (simp add: mem_simps hdr_of_def get16_bslice)

definition nb_key :: "byte list \<Rightarrow> byte list" where
  "nb_key nb = bslice nb 8 (mn_ksize (hdr_of nb))"

definition nb_data :: "byte list \<Rightarrow> byte list" where
  "nb_data nb = drop (8 + mn_ksize (hdr_of nb)) nb"

text \<open>The bytes of a node with the given header fields, key and data.\<close>

definition mk_node :: "nat \<Rightarrow> nat \<Rightarrow> nat \<Rightarrow> byte list \<Rightarrow> byte list \<Rightarrow> byte list" where
  "mk_node lo hi fl k d = enc16 lo @ enc16 hi @ enc16 fl @ enc16 (length k) @ k @ d"

lemma length_mk_node [simp]: "length (mk_node lo hi fl k d) = 8 + length k + length d"
  by (simp add: mk_node_def)

lemma hdr_of_mk_node:
  "hdr_of (mk_node lo hi fl k d) =
     \<lparr>mn_lo = lo mod 65536, mn_hi = hi mod 65536, mn_flags = fl mod 65536, mn_ksize = length k mod 65536\<rparr>"
  using le16_enc16 [of lo] le16_enc16 [of hi] le16_enc16 [of fl] le16_enc16 [of "length k"]
  by (simp add: hdr_of_def mk_node_def get16_def bslice_def le16_def enc16_def)

lemma nb_key_mk_node: "length k < 65536 \<Longrightarrow> nb_key (mk_node lo hi fl k d) = k"
  by (simp add: nb_key_def hdr_of_mk_node) (simp add: mk_node_def enc16_def bslice_def)

lemma nb_data_mk_node: "length k < 65536 \<Longrightarrow> nb_data (mk_node lo hi fl k d) = d"
  by (simp add: nb_data_def hdr_of_mk_node) (simp add: mk_node_def)

lemma IS_LEAF_patch: "12 \<le> a \<Longrightarrow> a + length bs \<le> length p \<Longrightarrow> IS_LEAF (patch p a bs) = IS_LEAF p"
  by (simp add: IS_LEAF_def mp_flags_def get16_patch_other)

text \<open>The four header stores amount to one.\<close>

lemma write_hdr_leaf:
  assumes "node + 8 \<le> length p"
  shows "patch (patch (patch (patch p (node + 6) (enc16 ks)) (node + 4) (enc16 fl)) node (enc16 lo)) (node + 2) (enc16 hi) =
    patch p node (enc16 lo @ enc16 hi @ enc16 fl @ enc16 ks)"
proof -
  let ?X = "patch p (node + 4) (enc16 fl @ enc16 ks)"
  have 1: "patch (patch p (node + 6) (enc16 ks)) (node + 4) (enc16 fl) = ?X"
    using assms by (intro patch_prepend) auto
  have 2: "patch (patch ?X node (enc16 lo)) (node + 2) (enc16 hi) = patch ?X node (enc16 lo @ enc16 hi)"
    using assms by (intro patch_append) auto
  have 3: "patch (patch p (node + 4) (enc16 fl @ enc16 ks)) node (enc16 lo @ enc16 hi) =
      patch p node ((enc16 lo @ enc16 hi) @ enc16 fl @ enc16 ks)"
    using assms by (intro patch_prepend) auto
  show ?thesis unfolding 1 2 3 by simp
qed

lemma write_hdr_branch:
  assumes "node + 8 \<le> length p"
  shows "patch (patch p node (enc16 lo @ enc16 hi @ enc16 fl @ enc16 ks)) (node + 4) (enc16 fl') =
    patch p node (enc16 lo @ enc16 hi @ enc16 fl' @ enc16 ks)"
proof -
  have "patch (patch p node ((enc16 lo @ enc16 hi) @ enc16 fl @ enc16 ks)) (node + 4) (enc16 fl') =
      patch p node ((enc16 lo @ enc16 hi) @ enc16 fl' @ enc16 ks)"
    using assms by (intro patch_inside) auto
  then show ?thesis by (simp only: append_assoc)
qed

definition vbytes :: "mdb_val \<Rightarrow> byte list" where
  "vbytes v = take (mv_size v) (mv_data v)"

definition val_ok :: "mdb_val \<Rightarrow> bool" where
  "val_ok v \<longleftrightarrow> mv_size v \<le> length (mv_data v)"

text \<open>The data part of a new leaf node.\<close>

definition leaf_payload :: "page \<Rightarrow> nat \<Rightarrow> mdb_val \<Rightarrow> nat \<Rightarrow> page option \<Rightarrow> byte list" where
  "leaf_payload p ndata d flags ofp =
     (case ofp of
        Some op \<Rightarrow> bslice op 0 8
      | None \<Rightarrow>
          if F_ISSET flags F_BIGDATA then take 8 (mv_data d)
          else if F_ISSET flags MDB_RESERVE then bslice p ndata (mv_size d)
          else vbytes d)"

text \<open>The overflow pages with the data behind their header.\<close>

definition overflow_data :: "mdb_val \<Rightarrow> nat \<Rightarrow> page option \<Rightarrow> page option" where
  "overflow_data d flags ofp = map_option (\<lambda>op. if F_ISSET flags MDB_RESERVE then op else patch op PAGEHDRSZ (vbytes d)) ofp"

definition overflow_ok :: "mdb_val \<Rightarrow> nat \<Rightarrow> page \<Rightarrow> bool" where
  "overflow_ok d flags op \<longleftrightarrow> PAGEHDRSZ \<le> length op \<and> (\<not> F_ISSET flags MDB_RESERVE \<longrightarrow> val_ok d \<and> PAGEHDRSZ + mv_size d \<le> length op)"

lemma overflow_write_ok:
  "(case ofp of Some op \<Rightarrow> overflow_ok d flags op | None \<Rightarrow> True) \<Longrightarrow> overflow_write ofp d flags = Some (overflow_data d flags ofp)"
  by (auto simp: overflow_write_def overflow_data_def overflow_ok_def val_bytes_def val_ok_def vbytes_def mem_simps split: option.splits)

lemma node_write_leaf:
  assumes leaf: "IS_LEAF p" and k: "val_ok k" "mv_size k < 65536"
    and d: "case ofp of Some op \<Rightarrow> overflow_ok d flags op | None \<Rightarrow> if F_ISSET flags F_BIGDATA then 8 \<le> length (mv_data d) else val_ok d"
    and node: "16 \<le> node" "node + 8 + mv_size k + length (leaf_payload p (node + 8 + mv_size k) d flags ofp) \<le> length p"
    and res: "ofp = None \<Longrightarrow> \<not> F_ISSET flags F_BIGDATA \<Longrightarrow> F_ISSET flags MDB_RESERVE \<Longrightarrow> node + 8 + mv_size k + mv_size d \<le> length p"
  shows "node_write p node (Some k) (Some d) pgno flags ofp =
    Some (patch p node (mk_node (mv_size d) (mv_size d div 2 ^ 16) flags (vbytes k)
      (leaf_payload p (node + 8 + mv_size k) d flags ofp)), overflow_data d flags ofp)"
proof -
  let ?h = "enc16 (mv_size d) @ enc16 (mv_size d div 2 ^ 16) @ enc16 flags @ enc16 (mv_size k)"
  let ?pl = "leaf_payload p (node + 8 + mv_size k) d flags ofp"
  let ?p1 = "patch p node ?h" and ?p2 = "patch p node (?h @ vbytes k)"
  have lk: "length (vbytes k) = mv_size k" using k by (simp add: vbytes_def val_ok_def)
  have kb: "val_bytes k (mv_size k) = Some (vbytes k)" using k by (simp add: val_bytes_def vbytes_def val_ok_def)
  have len: "length ?p1 = length p" "length ?p2 = length p" using node(2) lk by auto
  have p2: "patch ?p1 (node + 8) (vbytes k) = ?p2" using node(2) lk by (intro patch_append) auto
  have leaf2: "IS_LEAF ?p2" using leaf node lk by (simp add: IS_LEAF_patch)
  have ks: "get16 ?p2 (node + 6) = mv_size k"
    using node(2) lk k(2) by (simp add: get16_def bslice_patch_sub) (simp add: bslice_def le16_def enc16_def unat_of_nat codec_simps)
  have nd: "NODEDATA ?p2 node = Some (node + 8 + mv_size k)"
    using node(2) len ks by (simp add: NODEDATA_def mem_simps NODESIZE_def)
  have ow: "overflow_write ofp d flags = Some (overflow_data d flags ofp)" by (rule overflow_write_ok) (use d in \<open>auto split: option.splits\<close>)
  have step: "node_write p node (Some k) (Some d) pgno flags ofp =
      do { p \<leftarrow> (case ofp of
             None \<Rightarrow>
               if F_ISSET flags F_BIGDATA then do { bs \<leftarrow> val_bytes d 8; wrb ?p2 (node + 8 + mv_size k) bs }
               else if F_ISSET flags MDB_RESERVE then Some ?p2
               else do { bs \<leftarrow> val_bytes d (mv_size d); wrb ?p2 (node + 8 + mv_size k) bs }
           | Some op \<Rightarrow> do { bs \<leftarrow> rdb op 0 8; wrb ?p2 (node + 8 + mv_size k) bs });
           Some (p, overflow_data d flags ofp) }"
    using ow node leaf k kb nd leaf2 p2 len lk write_hdr_leaf [of node p "mv_size k" flags "mv_size d" "mv_size d div 2 ^ 16"]
    by (cases ofp) (simp_all add: node_write_def mem_simps IS_LEAF_patch SETDSZ_def NODESIZE_def)
  have fin: "patch ?p2 (node + 8 + mv_size k) ?pl = patch p node (mk_node (mv_size d) (mv_size d div 2 ^ 16) flags (vbytes k) ?pl)"
    using node(2) lk by (subst patch_append) (auto simp: mk_node_def)
  show ?thesis
  proof (cases ofp)
    case (Some op)
    then have "8 \<le> length op" using d by (simp add: overflow_ok_def PAGEHDRSZ_def)
    then show ?thesis using Some step fin node(2) len lk by (simp add: leaf_payload_def mem_simps)
  next
    case None
    consider (big) "F_ISSET flags F_BIGDATA" | (res) "\<not> F_ISSET flags F_BIGDATA" "F_ISSET flags MDB_RESERVE"
      | (cpy) "\<not> F_ISSET flags F_BIGDATA" "\<not> F_ISSET flags MDB_RESERVE" by blast
    then show ?thesis
    proof cases
      case big
      then show ?thesis using None d step fin node(2) len by (simp add: leaf_payload_def val_bytes_def mem_simps)
    next
      case res
      have "bslice ?p2 (node + 8 + mv_size k) (mv_size d) = bslice p (node + 8 + mv_size k) (mv_size d)"
        using node(2) lk by (intro bslice_patch_disjoint) auto
      then have "?p2 = patch ?p2 (node + 8 + mv_size k) ?pl"
        using None res assms(7) len patch_bslice_same [of "node + 8 + mv_size k" "mv_size d" ?p2] by (simp add: leaf_payload_def)
      then show ?thesis using None res step fin by simp
    next
      case cpy
      then show ?thesis using None d step fin node(2) len
        by (simp add: leaf_payload_def val_bytes_def val_ok_def vbytes_def mem_simps)
    qed
  qed
qed

lemma node_write_branch:
  assumes br: "\<not> IS_LEAF p" and k: "case key of None \<Rightarrow> True | Some k \<Rightarrow> val_ok k"
    and node: "16 \<le> node" "node + 8 + length (case key of None \<Rightarrow> [] | Some k \<Rightarrow> vbytes k) \<le> length p"
  shows "node_write p node key data pgno flags ofp =
    Some (patch p node (mk_node pgno (pgno div 2 ^ 16) (pgno div 2 ^ 32) (case key of None \<Rightarrow> [] | Some k \<Rightarrow> vbytes k) []), ofp)"
proof -
  let ?ks = "case key of None \<Rightarrow> 0 | Some k \<Rightarrow> mv_size k"
  let ?kb = "case key of None \<Rightarrow> [] | Some k \<Rightarrow> vbytes k"
  let ?h = "enc16 pgno @ enc16 (pgno div 2 ^ 16) @ enc16 (pgno div 2 ^ 32) @ enc16 ?ks"
  let ?p1 = "patch p node ?h"
  have lk: "length ?kb = ?ks" using k by (cases key) (auto simp: vbytes_def val_ok_def)
  have len: "length ?p1 = length p" using node(2) by auto
  have hd: "patch (patch (patch (patch (patch p (node + 6) (enc16 ?ks)) (node + 4) (enc16 flags)) node (enc16 pgno))
      (node + 2) (enc16 (pgno div 2 ^ 16))) (node + 4) (enc16 (pgno div 2 ^ 32)) = ?p1"
    using node(2) by (subst write_hdr_leaf) (auto simp: write_hdr_branch)
  have br2: "\<not> IS_LEAF (patch p node bs)" if "node + length bs \<le> length p" for bs
    using br node that by (simp add: IS_LEAF_patch)
  have p2: "patch ?p1 (node + 8) ?kb = patch p node (?h @ ?kb)" using node(2) lk by (intro patch_append) auto
  have "node_write p node key data pgno flags ofp = Some (patch ?p1 (node + 8) ?kb, ofp)"
  proof (cases key)
    case None
    then show ?thesis using node br hd len br2 [of ?h]
      by (simp add: node_write_def mem_simps IS_LEAF_patch SETPGNO_def)
  next
    case (Some k')
    then have "val_bytes k' (mv_size k') = Some (vbytes k')"
      using assms(2) by (simp add: val_bytes_def vbytes_def val_ok_def)
    then show ?thesis using Some node br hd len lk br2 [of "?h @ ?kb"] p2
      by (simp add: node_write_def mem_simps IS_LEAF_patch SETPGNO_def NODESIZE_def)
  qed
  then show ?thesis using p2 lk by (simp add: mk_node_def)
qed

subsection \<open>Pages as lists of nodes\<close>

text \<open>A layout is the list of the offsets and bytes of the nodes in the order of \<open>mp_ptrs\<close>.\<close>

type_synonym layout = "(nat \<times> byte list) list"

fun node_disj :: "nat \<times> byte list \<Rightarrow> nat \<times> byte list \<Rightarrow> bool" where
  "node_disj (a, x) (b, y) \<longleftrightarrow> a + EVEN (length x) \<le> b \<or> b + EVEN (length y) \<le> a"

fun node_in :: "page \<Rightarrow> nat \<times> byte list \<Rightarrow> bool" where
  "node_in p (a, x) \<longleftrightarrow> mp_upper p \<le> a \<and> a + EVEN (length x) \<le> length p \<and> bslice p a (length x) = x \<and>
     node_wf (IS_LEAF p) x"

definition space :: "byte list list \<Rightarrow> nat" where
  "space nbs = sum_list (map (\<lambda>nb. EVEN (length nb)) nbs)"

definition page_lay :: "page \<Rightarrow> layout \<Rightarrow> bool" where
  "page_lay p L \<longleftrightarrow> length p < 65536 \<and> \<not> IS_LEAF2 p \<and>
     mp_lower p = PTRS (length L) \<and> mp_lower p \<le> mp_upper p \<and> mp_upper p \<le> length p \<and>
     map (\<lambda>i. get16 p (PTRS i)) [0..<length L] = map fst L \<and>
     (\<forall>x \<in> set L. node_in p x) \<and> sorted_wrt node_disj L \<and> space (map snd L) = length p - mp_upper p"

definition page_rep :: "page \<Rightarrow> byte list list \<Rightarrow> bool" where
  "page_rep p nbs \<longleftrightarrow> (\<exists>L. page_lay p L \<and> map snd L = nbs)"

lemma EVEN_ge: "n \<le> EVEN n"
  by (simp add: EVEN_def)

lemma page_lay_NUMKEYS: "page_lay p L \<Longrightarrow> NUMKEYS p = length L"
  by (simp add: page_lay_def NUMKEYS_def PTRS_def)

lemma page_lay_SIZELEFT: "page_lay p L \<Longrightarrow> SIZELEFT p = mp_upper p - mp_lower p"
  by (auto simp: page_lay_def SIZELEFT_def mod_if)

lemma space_append [simp]: "space (xs @ ys) = space xs + space ys"
  by (simp add: space_def)

lemma space_Cons [simp]: "space (x # xs) = EVEN (length x) + space xs"
  by (simp add: space_def)

text \<open>The free space of a page is the page less the header, the pointers and the nodes.\<close>

lemma page_rep_SIZELEFT:
  "page_rep p nbs \<Longrightarrow> SIZELEFT p + PAGEHDRSZ + 2 * length nbs + space nbs = length p"
  by (auto simp: page_rep_def page_lay_SIZELEFT) (auto simp: page_lay_def PTRS_def)

lemma page_lay_nth:
  assumes "page_lay p L" "i < length L"
  shows "get16 p (PTRS i) = fst (L ! i)" "node_in p (L ! i)" "PTRS i + 2 \<le> length p"
    "NODEPTR p i = Some (fst (L ! i))"
proof -
  have "map (\<lambda>i. get16 p (PTRS i)) [0..<length L] ! i = map fst L ! i"
    using assms by (simp add: page_lay_def)
  then show g: "get16 p (PTRS i) = fst (L ! i)" using assms(2) by simp
  show "node_in p (L ! i)" using assms by (simp add: page_lay_def)
  show "PTRS i + 2 \<le> length p" using assms by (auto simp: page_lay_def PTRS_def)
  then show "NODEPTR p i = Some (fst (L ! i))" using g by (simp add: NODEPTR_def mem_simps)
qed

subsection \<open>Adding a node\<close>

lemma PTRS_mono [simp]: "PTRS i \<le> PTRS j \<longleftrightarrow> i \<le> j"
  by (simp add: PTRS_def)

lemma shift_ptrs_map:
  assumes "indx \<le> n" and "PTRS (Suc n) \<le> length p"
  shows "map (\<lambda>i. get16 (patch (patch p (PTRS (Suc indx)) (bslice p (PTRS indx) (2 * (n - indx)))) (PTRS indx) (enc16 v)) (PTRS i)) [0..<Suc n] =
    take indx (map (\<lambda>i. get16 p (PTRS i)) [0..<n]) @ (v mod 65536) # drop indx (map (\<lambda>i. get16 p (PTRS i)) [0..<n])"
proof (rule nth_equalityI)
  let ?b = "bslice p (PTRS indx) (2 * (n - indx))" 
  let ?q = "patch p (PTRS (Suc indx)) ?b"
  have lb: "length ?b = 2 * (n - indx)" using assms by (simp add: PTRS_def)
  have lq: "length ?q = length p" using assms lb by (simp add: PTRS_def)
  fix k assume "k < length (map (\<lambda>i. get16 (patch ?q (PTRS indx) (enc16 v)) (PTRS i)) [0..<Suc n])"
  then have k: "k \<le> n" by simp
  consider "k < indx" | "k = indx" | "indx < k" by linarith
  then show "map (\<lambda>i. get16 (patch ?q (PTRS indx) (enc16 v)) (PTRS i)) [0..<Suc n] ! k =
    (take indx (map (\<lambda>i. get16 p (PTRS i)) [0..<n]) @ v mod 65536 # drop indx (map (\<lambda>i. get16 p (PTRS i)) [0..<n])) ! k"
  proof cases
    case 1
    have "get16 (patch ?q (PTRS indx) (enc16 v)) (PTRS k) = get16 ?q (PTRS k)"
      using 1 assms lq by (intro get16_patch_other) (auto simp: PTRS_def)
    also have "\<dots> = get16 p (PTRS k)" using 1 assms lb by (intro get16_patch_other) (auto simp: PTRS_def)
    finally show ?thesis using 1 k assms by (simp add: nth_append del: upt_Suc)
  next
    case 2
    then show ?thesis using assms lq by (simp add: nth_append get16_patch_same PTRS_def del: upt_Suc)
  next
    case 3
    have "get16 (patch ?q (PTRS indx) (enc16 v)) (PTRS k) = get16 ?q (PTRS k)"
      using 3 assms lq by (intro get16_patch_other) (auto simp: PTRS_def)
    also have "\<dots> = get16 p (PTRS (k - 1))"
      using 3 k assms lb by (simp add: get16_def bslice_patch_sub bslice_bslice PTRS_def algebra_simps numeral_2_eq_2)
    finally show ?thesis using 3 k assms by (simp add: nth_append nth_Cons' del: upt_Suc)
  qed
qed (use assms in simp)

lemma node_add_slot_eq:
  assumes lay: "page_lay p L" and i: "indx \<le> length L" and room: "node_size + 2 \<le> SIZELEFT p"
  shows "\<exists>p'. node_add_slot p indx node_size = Some (p', mp_upper p - node_size) \<and> length p' = length p \<and>
    bslice p' 0 12 = bslice p 0 12 \<and> mp_lower p' = mp_lower p + 2 \<and> mp_upper p' = mp_upper p - node_size \<and>
    map (\<lambda>i. get16 p' (PTRS i)) [0..<Suc (length L)] = take indx (map fst L) @ (mp_upper p - node_size) # drop indx (map fst L) \<and>
    (\<forall>a m. mp_lower p + 2 \<le> a \<longrightarrow> bslice p' a m = bslice p a m)"
proof -
  let ?n = "length L" and ?o = "mp_upper p - node_size"
  note lay' = lay [unfolded page_lay_def]
  have low: "mp_lower p = PTRS ?n" and up: "mp_upper p \<le> length p" "mp_lower p + 2 \<le> ?o" and sm: "length p < 65536"
    and ps: "map (\<lambda>i. get16 p (PTRS i)) [0..<?n] = map fst L"
    using lay' room page_lay_SIZELEFT [OF lay] by auto
  have b: "PTRS (Suc ?n) \<le> length p" "PTRS ?n + 2 \<le> length p" using low up by (auto simp: PTRS_def)
  let ?b = "bslice p (PTRS indx) (2 * (?n - indx))"
  let ?p1 = "patch p (PTRS (Suc indx)) ?b"
  have lb: "length ?b = 2 * (?n - indx)" using b i by (simp add: PTRS_def)
  have l1: "length ?p1 = length p" using b i lb by (simp add: PTRS_def)
  let ?p2 = "patch ?p1 (PTRS indx) (enc16 ?o)"
  have l2: "length ?p2 = length p" "PTRS indx + 2 \<le> length p" using b i l1 by (auto simp: PTRS_def)
  let ?p3 = "patch ?p2 14 (enc16 ?o)"
  have l3: "length ?p3 = length p" "16 \<le> length p" using l2 b by (auto simp: PTRS_def PAGEHDRSZ_def)
  let ?p4 = "patch ?p3 12 (enc16 (mp_lower p + 2))"
  have l4: "length ?p4 = length p" using l3 by simp
  have h1: "get16 ?p1 a = get16 p a" if "a + 2 \<le> 16" for a
    using that lb b i by (intro get16_patch_other) (auto simp: PTRS_def PAGEHDRSZ_def)
  have h2: "get16 ?p2 a = get16 p a" if "a + 2 \<le> 16" for a
    using that h1 [of a] get16_patch_other [of "PTRS indx" "enc16 ?o" ?p1 a] l1 l2 by (simp add: PTRS_def PAGEHDRSZ_def)
  have h3: "get16 ?p3 a = get16 p a" if "a + 2 \<le> 14" for a
    using that h2 [of a] get16_patch_other [of 14 "enc16 ?o" ?p2 a] l2(1) l3 by simp
  have ptrs: "get16 ?p4 (PTRS k) = get16 ?p2 (PTRS k)" for k
  proof -
    have "get16 ?p4 (PTRS k) = get16 ?p3 (PTRS k)"
      using l3 by (intro get16_patch_other) (auto simp: PTRS_def PAGEHDRSZ_def)
    also have "\<dots> = get16 ?p2 (PTRS k)" using l2 l3 by (intro get16_patch_other) (auto simp: PTRS_def PAGEHDRSZ_def)
    finally show ?thesis .
  qed
  have map4: "map (\<lambda>i. get16 ?p4 (PTRS i)) [0..<Suc ?n] = take indx (map fst L) @ ?o # drop indx (map fst L)"
    unfolding ptrs using shift_ptrs_map [OF i b(1), of ?o] ps sm up by (simp add: take_map drop_map)
  have "NODEPTR ?p4 indx = Some ?o"
    using ptrs [of indx] l4 l1 l2(2) sm up by (simp add: NODEPTR_def mem_simps get16_patch_same)
  moreover have "shift_ptrs_up p indx (NUMKEYS p) = Some ?p1"
    using shift_ptrs_up_eq [OF i b(1)] page_lay_NUMKEYS [OF lay] by simp
  ultimately have res: "node_add_slot p indx node_size = Some (?p4, ?o)"
    using up h1 [of 12] h1 [of 14] h3 [of 12] l1 l2 l3
    by (simp add: node_add_slot_def mem_simps mp_upper_def mp_lower_def Let_def)
  have "bslice ?p4 0 12 = bslice p 0 12"
    using l1 l2 l3 lb b i by (simp add: bslice_patch_disjoint PTRS_def PAGEHDRSZ_def)
  moreover have "mp_lower ?p4 = mp_lower p + 2" using l3 up sm by (simp add: mp_lower_def get16_patch_same)
  moreover have "mp_upper ?p4 = ?o"
    using l2 l3 up sm by (simp add: mp_upper_def get16_patch_other get16_patch_same)
  moreover have "bslice ?p4 a m = bslice p a m" if "mp_lower p + 2 \<le> a" for a m
  proof -
    have "bslice ?p1 a m = bslice p a m"
      using that lb b i low by (intro bslice_patch_disjoint) (auto simp: PTRS_def)
    then show ?thesis
      using that l1 l2 l3 i low by (simp add: bslice_patch_disjoint PTRS_def PAGEHDRSZ_def)
  qed
  ultimately show ?thesis using res l4 map4 by (intro exI [of _ ?p4]) blast
qed

lemma get16_of_hdr:
  assumes "bslice p' 0 12 = bslice p 0 12" and "a + 2 \<le> 12"
  shows "get16 p' a = get16 p a"
proof -
  have "bslice (bslice q 0 12) a 2 = bslice q a 2" for q :: page using assms(2) by (simp add: bslice_bslice)
  then show ?thesis using assms(1) by (metis get16_def)
qed

lemma flags_of_hdr:
  assumes "bslice p' 0 12 = bslice p 0 12"
  shows "IS_LEAF p' = IS_LEAF p" "IS_LEAF2 p' = IS_LEAF2 p" "IS_BRANCH p' = IS_BRANCH p" "mp_flags p' = mp_flags p"
  using get16_of_hdr [OF assms, of 10] by (simp_all add: IS_LEAF_def IS_LEAF2_def IS_BRANCH_def mp_flags_def)

lemma node_disj_sym: "node_disj x y \<Longrightarrow> node_disj y x"
  by (cases x; cases y) auto

lemma page_lay_insert:
  assumes lay: "page_lay p L" and i: "indx \<le> length L" and room: "EVEN (length nb) + 2 \<le> SIZELEFT p"
    and wf: "node_wf (IS_LEAF p) nb" and ofs: "ofs = mp_upper p - EVEN (length nb)"
    and p1: "length p1 = length p" "bslice p1 0 12 = bslice p 0 12" "mp_lower p1 = mp_lower p + 2" "mp_upper p1 = ofs"
      "map (\<lambda>i. get16 p1 (PTRS i)) [0..<Suc (length L)] = take indx (map fst L) @ ofs # drop indx (map fst L)"
      "\<forall>a m. mp_lower p + 2 \<le> a \<longrightarrow> bslice p1 a m = bslice p a m"
  shows "page_lay (patch p1 ofs nb) (take indx L @ (ofs, nb) # drop indx L) \<and>
    bslice (patch p1 ofs nb) 0 12 = bslice p 0 12 \<and> length (patch p1 ofs nb) = length p"
proof -
  let ?p = "patch p1 ofs nb" and ?L = "take indx L @ (ofs, nb) # drop indx L"
  note lay' = lay [unfolded page_lay_def]
  have nb: "8 \<le> length nb" "length nb \<le> EVEN (length nb)" using node_wf_length [OF wf] EVEN_ge by auto
  have b: "mp_lower p + 2 \<le> ofs" "ofs + EVEN (length nb) = mp_upper p" "mp_upper p \<le> length p" "mp_lower p = PTRS (length L)"
    using room lay' page_lay_SIZELEFT [OF lay] ofs by auto
  have in1: "ofs + length nb \<le> length p1" using b nb p1(1) by linarith
  have below: "get16 ?p a = get16 p1 a" if "a + 2 \<le> ofs" for a using in1 that by (intro get16_patch_other) auto
  have hdr: "bslice ?p 0 12 = bslice p 0 12"
    using in1 b p1(2) by (simp add: bslice_patch_disjoint PTRS_def PAGEHDRSZ_def)
  have lens: "length ?p = length p" "length ?L = Suc (length L)" using in1 p1(1) i by auto
  have lu: "mp_lower ?p = mp_lower p + 2" "mp_upper ?p = ofs"
    using below [of 12] below [of 14] p1(3,4) b by (auto simp: mp_lower_def mp_upper_def PTRS_def PAGEHDRSZ_def)
  have ptrs: "map (\<lambda>i. get16 ?p (PTRS i)) [0..<length ?L] = map fst ?L"
  proof -
    have "map (\<lambda>i. get16 ?p (PTRS i)) [0..<length ?L] = map (\<lambda>i. get16 p1 (PTRS i)) [0..<Suc (length L)]"
      unfolding lens by (rule map_cong [OF refl]) (use below b in \<open>auto simp: PTRS_def\<close>)
    then show ?thesis using p1(5) by (simp add: take_map drop_map)
  qed
  have old: "node_in ?p (a, x) \<and> node_disj (ofs, nb) (a, x)" if "(a, x) \<in> set L" for a x
  proof -
    have ax: "mp_upper p \<le> a" "a + EVEN (length x) \<le> length p" "bslice p a (length x) = x" "node_wf (IS_LEAF p) x"
      using lay' that by auto
    have "bslice ?p a (length x) = bslice p1 a (length x)"
      using in1 ax(1) b nb by (intro bslice_patch_disjoint) auto
    then have "bslice ?p a (length x) = x" using p1(6) ax b by simp
    then show ?thesis using ax lu lens b flags_of_hdr(1) [OF hdr] by simp
  qed
  have new: "node_in ?p (ofs, nb)"
    using lu lens b wf in1 flags_of_hdr(1) [OF hdr] by simp
  have sets: "set ?L = insert (ofs, nb) (set L)"
    using set_append [of "take indx L" "drop indx L"] by auto
  have dj: "node_disj (ofs, nb) x" "node_disj x (ofs, nb)" if "x \<in> set L" for x
    using old [of "fst x" "snd x"] that node_disj_sym by (metis prod.collapse)+
  have "sorted_wrt node_disj (take indx L @ drop indx L)" using lay' by simp
  then have disj: "sorted_wrt node_disj ?L"
    unfolding sorted_wrt_append using dj by (auto simp del: node_disj.simps dest!: in_set_takeD in_set_dropD)
  have sp: "space (map snd ?L) = length ?p - mp_upper ?p"
  proof -
    have "space (map snd (take indx L @ drop indx L)) = length p - mp_upper p" using lay' by simp
    then show ?thesis using lu lens b by (simp del: append_take_drop_id)
  qed
  have "\<forall>x \<in> set ?L. node_in ?p x" unfolding sets using old new by auto
  then show ?thesis
    using lay' lens lu ptrs disj sp b hdr flags_of_hdr [OF hdr] by (simp add: page_lay_def PTRS_def)
qed

lemma F_ISSET_BIGDATA: "F_ISSET w F_BIGDATA \<longleftrightarrow> odd w"
  by (simp add: F_ISSET_def F_BIGDATA_def and_one_eq odd_iff_mod_2_eq_one)

lemma F_ISSET_BIGDATA_mod: "F_ISSET (w mod 65536) F_BIGDATA = F_ISSET w F_BIGDATA"
  by (simp add: F_ISSET_BIGDATA odd_iff_mod_2_eq_one mod_mod_cancel)

lemma NODEDSZ_mk:
  assumes "mv < 2 ^ 32" shows "mv mod 65536 + 2 ^ 16 * (mv div 2 ^ 16 mod 65536) = (mv :: nat)"
proof -
  have "mv div 65536 < 65536" using assms by (simp add: div_less_iff_less_mult)
  then show ?thesis by simp
qed

lemma node_wf_leaf:
  assumes "length k < 65536" "dsz < 2 ^ 32" "length d = (if F_ISSET fl F_BIGDATA then 8 else dsz)"
  shows "node_wf True (mk_node dsz (dsz div 2 ^ 16) fl k d)"
  using assms NODEDSZ_mk [OF assms(2)]
  by (simp add: node_wf_def hdr_of_mk_node node_len_def NODESIZE_def F_ISSET_BIGDATA_mod NODEDSZ_def)

lemma node_wf_branch: "length k < 65536 \<Longrightarrow> node_wf False (mk_node lo hi fl k [])"
  by (simp add: node_wf_def hdr_of_mk_node node_len_def NODESIZE_def)

text \<open>The node that \<open>mdb_node_add\<close> builds on a leaf.\<close>

definition leaf_node :: "page \<Rightarrow> nat \<Rightarrow> mdb_val \<Rightarrow> mdb_val \<Rightarrow> nat \<Rightarrow> page option \<Rightarrow> byte list" where
  "leaf_node p node k d flags ofp =
     mk_node (mv_size d) (mv_size d div 2 ^ 16) flags (vbytes k) (leaf_payload p (node + 8 + mv_size k) d flags ofp)"

definition branch_node :: "mdb_val option \<Rightarrow> nat \<Rightarrow> byte list" where
  "branch_node key pgno =
     mk_node pgno (pgno div 2 ^ 16) (pgno div 2 ^ 32) (case key of None \<Rightarrow> [] | Some k \<Rightarrow> vbytes k) []"

lemma node_add_update_leaf:
  assumes lay: "page_lay p L" and leaf: "IS_LEAF p" and i: "indx \<le> length L"
    and k: "val_ok k" "mv_size k < 65536" and dsz: "mv_size d < 2 ^ 32"
    and d: "case ofp of Some op \<Rightarrow> F_ISSET flags F_BIGDATA \<and> overflow_ok d flags op
      | None \<Rightarrow> if F_ISSET flags F_BIGDATA then 8 \<le> length (mv_data d) else val_ok d"
    and sz: "node_size = EVEN (8 + mv_size k + (if F_ISSET flags F_BIGDATA then 8 else mv_size d))"
    and room: "node_size + 2 \<le> SIZELEFT p"
  defines "nb \<equiv> leaf_node p (mp_upper p - node_size) k d flags ofp"
  shows "\<exists>p'. node_add_update p indx (Some k) (Some d) pgno flags node_size ofp = Some (p', overflow_data d flags ofp) \<and>
    bslice p' 0 12 = bslice p 0 12 \<and> length p' = length p \<and>
    page_lay p' (take indx L @ (mp_upper p - node_size, nb) # drop indx L)"
proof -
  let ?o = "mp_upper p - node_size"
  obtain p1 where p1: "node_add_slot p indx node_size = Some (p1, ?o)" "length p1 = length p"
      "bslice p1 0 12 = bslice p 0 12" "mp_lower p1 = mp_lower p + 2" "mp_upper p1 = ?o"
      "map (\<lambda>i. get16 p1 (PTRS i)) [0..<Suc (length L)] = take indx (map fst L) @ ?o # drop indx (map fst L)"
      "\<forall>a m. mp_lower p + 2 \<le> a \<longrightarrow> bslice p1 a m = bslice p a m"
    using node_add_slot_eq [OF lay i room] by blast
  note lay' = lay [unfolded page_lay_def]
  have b: "mp_lower p + 2 \<le> ?o" "?o + node_size = mp_upper p" "mp_upper p \<le> length p" "mp_lower p = PTRS (length L)"
    using lay' room page_lay_SIZELEFT [OF lay] by auto
  let ?nd = "?o + 8 + mv_size k"
  let ?dl = "if F_ISSET flags F_BIGDATA then 8 else mv_size d"
  have fits: "?nd + ?dl \<le> mp_upper p" using b(2) sz EVEN_ge [of "8 + mv_size k + ?dl"] by linarith
  have eqp: "leaf_payload p1 ?nd d flags ofp = leaf_payload p ?nd d flags ofp"
    using p1(7) b by (auto simp: leaf_payload_def split: option.splits)
  have lpl: "length (leaf_payload p ?nd d flags ofp) = ?dl"
    using d fits b by (auto simp: leaf_payload_def vbytes_def val_ok_def overflow_ok_def PAGEHDRSZ_def split: option.splits if_splits)
  have lk: "length (vbytes k) = mv_size k" using k by (simp add: vbytes_def val_ok_def)
  have lnb: "length nb = 8 + mv_size k + ?dl" by (simp add: nb_def leaf_node_def lk lpl)
  have "node_write p1 ?o (Some k) (Some d) pgno flags ofp = Some (patch p1 ?o nb, overflow_data d flags ofp)"
    unfolding nb_def leaf_node_def eqp [symmetric]
  proof (rule node_write_leaf)
    show "IS_LEAF p1" using leaf flags_of_hdr(1) [OF p1(3)] by simp
    show "?nd + length (leaf_payload p1 ?nd d flags ofp) \<le> length p1" using eqp lpl fits b p1(2) by simp
    show "case ofp of Some op \<Rightarrow> overflow_ok d flags op | None \<Rightarrow> if F_ISSET flags F_BIGDATA then 8 \<le> length (mv_data d) else val_ok d"
      using d by (auto split: option.splits)
  qed (use k b fits p1(2) in \<open>auto simp: PTRS_def PAGEHDRSZ_def\<close>)
  moreover have "node_wf (IS_LEAF p) nb"
    unfolding nb_def leaf_node_def using leaf node_wf_leaf [OF _ dsz lpl, of "vbytes k"] k lk by simp
  ultimately show ?thesis
    using page_lay_insert [OF lay i _ _ _ p1(2-7), of nb] p1(1,2) room sz lnb lay' b
    by (auto simp: node_add_update_def)
qed

lemma node_add_update_branch:
  assumes lay: "page_lay p L" and br: "\<not> IS_LEAF p" and i: "indx \<le> length L"
    and k: "case key of None \<Rightarrow> True | Some k \<Rightarrow> val_ok k \<and> mv_size k < 65536"
    and sz: "node_size = EVEN (8 + (case key of None \<Rightarrow> 0 | Some k \<Rightarrow> mv_size k))"
    and room: "node_size + 2 \<le> SIZELEFT p"
  shows "\<exists>p'. node_add_update p indx key data pgno flags node_size ofp = Some (p', ofp) \<and>
    bslice p' 0 12 = bslice p 0 12 \<and> length p' = length p \<and>
    page_lay p' (take indx L @ (mp_upper p - node_size, branch_node key pgno) # drop indx L)"
proof -
  let ?o = "mp_upper p - node_size" and ?nb = "branch_node key pgno"
  obtain p1 where p1: "node_add_slot p indx node_size = Some (p1, ?o)" "length p1 = length p"
      "bslice p1 0 12 = bslice p 0 12" "mp_lower p1 = mp_lower p + 2" "mp_upper p1 = ?o"
      "map (\<lambda>i. get16 p1 (PTRS i)) [0..<Suc (length L)] = take indx (map fst L) @ ?o # drop indx (map fst L)"
      "\<forall>a m. mp_lower p + 2 \<le> a \<longrightarrow> bslice p1 a m = bslice p a m"
    using node_add_slot_eq [OF lay i room] by blast
  note lay' = lay [unfolded page_lay_def]
  have b: "mp_lower p + 2 \<le> ?o" "?o + node_size = mp_upper p" "mp_upper p \<le> length p" "mp_lower p = PTRS (length L)"
    using lay' room page_lay_SIZELEFT [OF lay] by auto
  have lnb: "node_size = EVEN (length ?nb)" "length ?nb \<le> node_size"
    using k sz EVEN_ge [of "length ?nb"] by (auto simp: branch_node_def vbytes_def val_ok_def split: option.splits)
  have "node_write p1 ?o key data pgno flags ofp = Some (patch p1 ?o ?nb, ofp)"
    unfolding branch_node_def
  proof (rule node_write_branch)
    show "\<not> IS_LEAF p1" using br flags_of_hdr(1) [OF p1(3)] by simp
    show "?o + 8 + length (case key of None \<Rightarrow> [] | Some k \<Rightarrow> vbytes k) \<le> length p1"
      using lnb b p1(2) by (simp add: branch_node_def)
  qed (use k b in \<open>auto simp: PTRS_def PAGEHDRSZ_def split: option.splits\<close>)
  moreover have "node_wf (IS_LEAF p) ?nb"
    unfolding branch_node_def using br k by (auto simp: vbytes_def intro!: node_wf_branch split: option.splits)
  ultimately show ?thesis
    using page_lay_insert [OF lay i _ _ _ p1(2-7), of ?nb] p1(1,2) room lnb lay' b
    by (auto simp: node_add_update_def)
qed

subsection \<open>Deleting a node\<close>

fun shift_node :: "nat \<Rightarrow> nat \<Rightarrow> nat \<times> byte list \<Rightarrow> nat \<times> byte list" where
  "shift_node ptr sz (a, x) = (if a < ptr then a + sz else a, x)"

definition del_layout :: "layout \<Rightarrow> nat \<Rightarrow> layout" where
  "del_layout L indx =
     map (shift_node (fst (L ! indx)) (EVEN (length (snd (L ! indx))))) (take indx L @ drop (Suc indx) L)"

lemma snd_del_layout: "map snd (del_layout L indx) = take indx (map snd L) @ drop (Suc indx) (map snd L)"
  by (simp add: del_layout_def take_map drop_map comp_def)
     (auto simp: shift_node.simps intro!: map_cong)

lemma filter_upt_neq: "i < n \<Longrightarrow> filter (\<lambda>k. k \<noteq> i) [0..<n] = [0..<i] @ [Suc i..<n]"
proof -
  assume i: "i < n"
  then have "[0..<n] = [0..<i] @ i # [Suc i..<n]"
    using upt_add_eq_append [of 0 i "n - i"] by (simp add: upt_conv_Cons)
  then show ?thesis by (simp add: filter_id_conv [THEN iffD2])
qed

lemma page_lay_node:
  assumes "page_lay p L" "i < length L"
  shows "node_hdr p (fst (L ! i)) = Some (hdr_of (snd (L ! i)))"
    "node_bytes_used (IS_LEAF p) (hdr_of (snd (L ! i))) = EVEN (length (snd (L ! i)))"
    "8 \<le> length (snd (L ! i))" "fst (L ! i) + EVEN (length (snd (L ! i))) \<le> length p"
    "mp_upper p \<le> fst (L ! i)" "bslice p (fst (L ! i)) (length (snd (L ! i))) = snd (L ! i)"
proof -
  have "node_in p (fst (L ! i), snd (L ! i))" using page_lay_nth(2) [OF assms] by (simp only: prod.collapse)
  then have in1: "mp_upper p \<le> fst (L ! i)" "fst (L ! i) + EVEN (length (snd (L ! i))) \<le> length p"
      "bslice p (fst (L ! i)) (length (snd (L ! i))) = snd (L ! i)" "node_wf (IS_LEAF p) (snd (L ! i))"
    by (simp_all only: node_in.simps)
  show "8 \<le> length (snd (L ! i))" using in1(4) by (rule node_wf_length)
  then show "node_hdr p (fst (L ! i)) = Some (hdr_of (snd (L ! i)))"
    using node_hdr_bslice [of "length (snd (L ! i))" "fst (L ! i)" p] in1 EVEN_ge [of "length (snd (L ! i))"] by simp
  show "node_bytes_used (IS_LEAF p) (hdr_of (snd (L ! i))) = EVEN (length (snd (L ! i)))"
    using in1(4) by (simp add: node_bytes_used_def node_wf_def)
qed (use page_lay_nth(2) [OF assms] in \<open>cases "L ! i", auto\<close>)+

lemma page_lay_disj:
  assumes "page_lay p L" "i < length L" "j < length L" "i \<noteq> j"
  shows "node_disj (L ! i) (L ! j)"
  using assms by (auto simp: page_lay_def sorted_wrt_iff_nth_less neq_iff intro: node_disj_sym)

lemma node_disj_cases:
  assumes "node_disj (a, x) (b, y)" "0 < length x" "0 < length y"
  shows "(a < b \<and> a + EVEN (length x) \<le> b) \<or> (\<not> a < b \<and> b + EVEN (length y) \<le> a)"
  using assms EVEN_ge [of "length x"] EVEN_ge [of "length y"] unfolding node_disj.simps by linarith

lemma node_disj_shift:
  assumes "node_disj (a, x) (b, y)" "node_disj (a, x) (ptr, d)" "node_disj (b, y) (ptr, d)"
    "0 < length x" "0 < length y" "0 < length d"
  shows "node_disj (shift_node ptr (EVEN (length d)) (a, x)) (shift_node ptr (EVEN (length d)) (b, y))"
  using node_disj_cases [OF assms(2,4,6)] node_disj_cases [OF assms(3,5,6)] assms(1) by auto

lemma length_del_layout: "i < length L \<Longrightarrow> length (del_layout L i) = length L - 1"
  by (simp add: del_layout_def)

lemma del_ptrs_layout:
  assumes lay: "page_lay p L" and i: "indx < length L"
  defines "ptr \<equiv> fst (L ! indx)" and "sz \<equiv> EVEN (length (snd (L ! indx)))"
  shows "del_ptrs p indx ptr sz 0 0 (length L) = Some (patch p (PTRS 0) (ptr_bytes (map fst (del_layout L indx))))"
proof -
  let ?n = "length L"
  have ps: "map (\<lambda>i. get16 p (PTRS i)) [0..<?n] = map fst L" and b: "PTRS ?n \<le> length p" and sm: "length p < 65536"
    using lay by (auto simp: page_lay_def)
  let ?f = "\<lambda>k. let v = get16 p (PTRS k) in if v < ptr then v + sz else v"
  have "del_ptrs (patch p (PTRS 0) (ptr_bytes [])) indx ptr sz 0 (length ([] :: nat list)) ?n =
      Some (patch p (PTRS 0) (ptr_bytes ([] @ map ?f (filter (\<lambda>k. k \<noteq> indx) [0..<0 + ?n]))))"
    using page_lay_node(4) [OF lay i] b sm by (intro del_ptrs_eq) (auto simp: ptr_def sz_def)
  moreover have "map ?f (filter (\<lambda>k. k \<noteq> indx) [0..<0 + ?n]) = map fst (del_layout L indx)"
  proof -
    let ?g = "\<lambda>v. if v < ptr then v + sz else v"
    have "map ?f (filter (\<lambda>k. k \<noteq> indx) [0..<0 + ?n]) =
        map ?g (take indx (map (\<lambda>i. get16 p (PTRS i)) [0..<?n]) @ drop (Suc indx) (map (\<lambda>i. get16 p (PTRS i)) [0..<?n]))"
      using i by (simp add: filter_upt_neq take_map drop_map Let_def)
    also have "\<dots> = map fst (del_layout L indx)"
      unfolding ps del_layout_def ptr_def sz_def by (auto simp: take_map drop_map)
    finally show ?thesis .
  qed
  ultimately show ?thesis by (simp del: add_0) (simp add: ptr_bytes_def)
qed

lemma in_set_take_drop_nth:
  assumes "x \<in> set (take i L @ drop (Suc i) L)"
  shows "\<exists>k < length L. k \<noteq> i \<and> L ! k = x"
proof -
  consider "x \<in> set (take i L)" | "x \<in> set (drop (Suc i) L)" using assms by auto
  then show ?thesis
  proof cases
    case 1
    then obtain k where "k < length L" "k < i" "take i L ! k = x" by (auto simp: in_set_conv_nth)
    then show ?thesis by (intro exI [of _ k]) auto
  next
    case 2
    then obtain k where "k < length (drop (Suc i) L)" "drop (Suc i) L ! k = x" unfolding in_set_conv_nth by blast
    then show ?thesis by (intro exI [of _ "Suc i + k"]) auto
  qed
qed

lemma space_del:
  assumes "i < length nbs"
  shows "space (take i nbs @ drop (Suc i) nbs) + EVEN (length (nbs ! i)) = space nbs"
proof -
  have "space nbs = space (take i nbs @ nbs ! i # drop (Suc i) nbs)" using assms by (simp add: id_take_nth_drop [symmetric])
  then show ?thesis by simp
qed

lemma sorted_wrt_del_layout:
  assumes lay: "page_lay p L" and i: "indx < length L"
  shows "sorted_wrt node_disj (del_layout L indx)"
proof -
  let ?R = "take indx L @ drop (Suc indx) L"
  have "sorted_wrt node_disj (take indx L @ L ! indx # drop (Suc indx) L)"
    using lay i by (simp add: page_lay_def id_take_nth_drop [symmetric])
  then have s: "sorted_wrt node_disj ?R" by (simp add: sorted_wrt_append)
  have "node_disj (shift_node (fst (L ! indx)) (EVEN (length (snd (L ! indx)))) x)
      (shift_node (fst (L ! indx)) (EVEN (length (snd (L ! indx)))) y)"
    if xy: "x \<in> set ?R" "y \<in> set ?R" "node_disj x y" for x y
  proof -
    obtain k m where k: "k < length L" "k \<noteq> indx" "L ! k = x" and m: "m < length L" "m \<noteq> indx" "L ! m = y"
      using in_set_take_drop_nth [OF xy(1)] in_set_take_drop_nth [OF xy(2)] by blast
    have len: "0 < length (snd x)" "0 < length (snd y)" "0 < length (snd (L ! indx))"
      using page_lay_node(3) [OF lay k(1)] page_lay_node(3) [OF lay m(1)] page_lay_node(3) [OF lay i] k m by auto
    show ?thesis
      using node_disj_shift [of "fst x" "snd x" "fst y" "snd y" "fst (L ! indx)" "snd (L ! indx)"] len xy(3)
        page_lay_disj [OF lay k(1) i k(2)] page_lay_disj [OF lay m(1) i m(2)] k(3) m(3) by (simp only: prod.collapse)
  qed
  then show ?thesis unfolding del_layout_def sorted_wrt_map by (rule sorted_wrt_mono_rel [OF _ s]) 
qed

lemma del_layout_bound:
  assumes lay: "page_lay p L" and i: "indx < length L" and ax: "(a, x) \<in> set (del_layout L indx)"
  shows "\<exists>b. ((mp_upper p \<le> b \<and> b + EVEN (length x) \<le> fst (L ! indx) \<and> a = b + EVEN (length (snd (L ! indx)))) \<or>
      (fst (L ! indx) + EVEN (length (snd (L ! indx))) \<le> b \<and> a = b)) \<and>
    bslice p b (length x) = x \<and> node_wf (IS_LEAF p) x \<and> b + EVEN (length x) \<le> length p"
proof -
  obtain bx where bx: "bx \<in> set (take indx L @ drop (Suc indx) L)"
      "(a, x) = shift_node (fst (L ! indx)) (EVEN (length (snd (L ! indx)))) bx"
    using ax unfolding del_layout_def set_map by (rule imageE) blast
  obtain k where k: "k < length L" "k \<noteq> indx" "L ! k = bx" using in_set_take_drop_nth [OF bx(1)] by blast
  obtain b y where bxy: "bx = (b, y)" by (cases bx)
  have x: "x = y" "a = (if b < fst (L ! indx) then b + EVEN (length (snd (L ! indx))) else b)"
    using bx(2) by (auto simp: bxy)
  note nd = page_lay_node [OF lay k(1)] page_lay_nth(2) [OF lay k(1)]
  have dj: "node_disj (b, y) (fst (L ! indx), snd (L ! indx))"
    using page_lay_disj [OF lay k(1) i k(2)] k(3) bxy by simp
  have "0 < length y" "0 < length (snd (L ! indx))" using nd(3) page_lay_node(3) [OF lay i] k(3) bxy by auto
  from node_disj_cases [OF dj this] show ?thesis
    using nd(4-7) k(3) x by (intro exI [of _ b]) (auto simp: bxy)
qed

lemma mdb_node_del_mem:
  assumes lay: "page_lay p L" and i: "indx < length L"
  defines "ptr \<equiv> fst (L ! indx)" and "sz \<equiv> EVEN (length (snd (L ! indx)))" and "u \<equiv> mp_upper p" and "n \<equiv> length L"
  shows "\<exists>p'. mdb_node_del p indx ks = Some p' \<and> bslice p' 0 12 = bslice p 0 12 \<and> length p' = length p \<and>
    mp_upper p' = u + sz \<and> mp_lower p' = PTRS (n - 1) \<and>
    map (\<lambda>k. get16 p' (PTRS k)) [0..<n - 1] = map (\<lambda>x. fst x mod 65536) (del_layout L indx) \<and>
    (\<forall>a k. u \<le> a \<and> a + k \<le> ptr \<longrightarrow> bslice p' (a + sz) k = bslice p a k) \<and>
    (\<forall>a k. ptr + sz \<le> a \<longrightarrow> bslice p' a k = bslice p a k)"
proof -
  let ?D = "del_layout L indx"
  note nd = page_lay_node [OF lay i, folded ptr_def sz_def u_def]
  have low: "mp_lower p = PTRS n" "PTRS n \<le> u" "u \<le> length p" "length p < 65536" "\<not> IS_LEAF2 p"
    using lay by (auto simp: page_lay_def u_def n_def)
  have D: "length ?D = n - 1" "0 < n" using length_del_layout [OF i] i by (auto simp: n_def)
  define p1 where "p1 = patch p (PTRS 0) (ptr_bytes (map fst ?D))"
  have b1: "PTRS 0 + 2 * (n - 1) \<le> length p" using low D(2) by (simp add: PTRS_def)
  have l1: "length p1 = length p" using b1 D by (simp add: p1_def)
  have s1: "bslice p1 a m = bslice p a m" if "a + m \<le> 16 \<or> PTRS (n - 1) \<le> a" for a m
    unfolding p1_def using that b1 D by (intro bslice_patch_disjoint) (auto simp: PTRS_def PAGEHDRSZ_def)
  have h1: "mp_upper p1 = u" "mp_lower p1 = PTRS n"
    using s1 [of 14 2] s1 [of 12 2] low(1) by (auto simp: mp_upper_def mp_lower_def get16_def u_def)
  have un: "PTRS (n - 1) \<le> u" using low(2) by (simp add: PTRS_def)
  let ?m = "bslice p1 u (ptr - u)"
  have m: "?m = bslice p u (ptr - u)" "length ?m = ptr - u" using s1 un nd(4,5) l1 by auto
  define p2 where "p2 = patch p1 (u + sz) ?m"
  have l2: "length p2 = length p" "u + sz + length ?m = ptr + sz" using l1 m(2) nd(4,5) by (auto simp: p2_def)
  define p3 where "p3 = patch p2 12 (enc16 (PTRS n - 2))"
  define p4 where "p4 = patch p3 14 (enc16 (u + sz))"
  have l16: "16 \<le> length p" "16 \<le> u" using low by (auto simp: PTRS_def PAGEHDRSZ_def)
  have l3: "length p3 = length p" "length p4 = length p" using l2(1) l16 by (auto simp: p3_def p4_def)
  have low2: "bslice p2 a k = bslice p1 a k" if "a + k \<le> u" for a k
    unfolding p2_def using that l2(2) l1 nd(4,5) by (intro bslice_patch_disjoint) auto
  have h3: "mp_upper p3 = u" "mp_lower p2 = PTRS n"
  proof -
    have "get16 p3 14 = get16 p2 14" unfolding p3_def using l2(1) l16 by (intro get16_patch_other) auto
    then show "mp_upper p3 = u" using low2 [of 14 2] h1(1) l16 by (simp add: mp_upper_def get16_def)
    show "mp_lower p2 = PTRS n" using low2 [of 12 2] h1(2) l16 by (simp add: mp_lower_def get16_def)
  qed
  have dp: "del_ptrs p indx ptr sz 0 0 n = Some p1"
    using del_ptrs_layout [OF lay i] by (simp add: p1_def ptr_def sz_def n_def)
  have mm: "memmove p1 (u + sz) u (ptr - u) = Some p2"
    using l1 nd(4,5) by (simp add: mem_simps p2_def)
  have res: "mdb_node_del p indx ks = Some p4"
    using i low(5) page_lay_NUMKEYS [OF lay] page_lay_nth(3,4) [OF lay i] page_lay_nth(1) [OF lay i] nd(1,2) dp mm h1 h3 l1 l2(1) l3 l16
    by (simp add: mdb_node_del_def mem_simps n_def [symmetric] ptr_def [symmetric] p3_def [symmetric] p4_def [symmetric] Let_def)
  have tail: "bslice p4 a k = bslice p2 a k" if "16 \<le> a \<or> a + k \<le> 12" for a k
    unfolding p4_def p3_def using that l2(1) l3 l16 by (auto simp: bslice_patch_disjoint p3_def)
  have hdr: "bslice p4 0 12 = bslice p 0 12" using tail [of 0 12] low2 [of 0 12] s1 [of 0 12] l16 by simp
  have lu: "mp_upper p4 = u + sz" "mp_lower p4 = PTRS (n - 1)"
  proof -
    show "mp_upper p4 = u + sz" using l3 l16 nd(4,5) low(4) by (simp add: mp_upper_def get16_patch_same p4_def)
    have "get16 p4 12 = get16 p3 12" unfolding p4_def using l3 l16 by (intro get16_patch_other) auto
    also have "\<dots> = PTRS n - 2" unfolding p3_def using l2(1) l16 low by (simp add: get16_patch_same)
    finally show "mp_lower p4 = PTRS (n - 1)" using D(2) by (simp add: mp_lower_def PTRS_def)
  qed
  have ptrs: "get16 p4 (PTRS k) = fst (?D ! k) mod 65536" if "k < n - 1" for k
  proof -
    have "bslice p4 (PTRS k) 2 = bslice p1 (PTRS k) 2"
      using tail [of "PTRS k" 2] low2 [of "PTRS k" 2] that un by (simp add: PTRS_def PAGEHDRSZ_def)
    then have "get16 p4 (PTRS k) = get16 p1 (PTRS k)" by (simp add: get16_def)
    then show ?thesis using that D b1 get16_ptr_bytes [of k "map fst ?D" p] by (simp add: p1_def)
  qed
  have mv: "bslice p4 (a + sz) k = bslice p a k" if "u \<le> a" "a + k \<le> ptr" for a k
  proof -
    have "bslice p4 (a + sz) k = bslice p2 (a + sz) k" using tail that l16 by simp
    also have "\<dots> = bslice ?m (a - u) k"
      unfolding p2_def using that l2(2) l1 nd(4) m(2) by (subst bslice_patch_sub) auto
    finally show ?thesis using that m(1) by (simp add: bslice_bslice)
  qed
  have st: "bslice p4 a k = bslice p a k" if "ptr + sz \<le> a" for a k
  proof -
    have "bslice p4 a k = bslice p2 a k" using tail that l16 nd(5) by simp
    also have "\<dots> = bslice p1 a k"
      unfolding p2_def using that l2(2) l1 nd(4) by (intro bslice_patch_disjoint) auto
    finally show ?thesis using s1 that un nd(5) by simp
  qed
  have "map (\<lambda>k. get16 p4 (PTRS k)) [0..<n - 1] = map (\<lambda>x. fst x mod 65536) ?D"
    using D ptrs by (intro nth_equalityI) auto
  then show ?thesis using res hdr l3(2) lu mv st by (intro exI [of _ p4]) blast
qed

lemma mdb_node_del_lay:
  assumes lay: "page_lay p L" and i: "indx < length L"
  shows "\<exists>p'. mdb_node_del p indx ks = Some p' \<and> bslice p' 0 12 = bslice p 0 12 \<and> length p' = length p \<and>
    page_lay p' (del_layout L indx)"
proof -
  let ?D = "del_layout L indx" and ?ptr = "fst (L ! indx)" and ?sz = "EVEN (length (snd (L ! indx)))"
  obtain p' where p': "mdb_node_del p indx ks = Some p'" "bslice p' 0 12 = bslice p 0 12" "length p' = length p"
      "mp_upper p' = mp_upper p + ?sz" "mp_lower p' = PTRS (length L - 1)"
      "map (\<lambda>k. get16 p' (PTRS k)) [0..<length L - 1] = map (\<lambda>x. fst x mod 65536) ?D"
      "\<forall>a k. mp_upper p \<le> a \<and> a + k \<le> ?ptr \<longrightarrow> bslice p' (a + ?sz) k = bslice p a k"
      "\<forall>a k. ?ptr + ?sz \<le> a \<longrightarrow> bslice p' a k = bslice p a k"
    using mdb_node_del_mem [OF lay i, of ks] by blast
  note nd = page_lay_node [OF lay i] and lay' = lay [unfolded page_lay_def]
  have inD: "node_in p' (a, x) \<and> a < 65536" if ax: "(a, x) \<in> set ?D" for a x
  proof -
    obtain b where b: "(mp_upper p \<le> b \<and> b + EVEN (length x) \<le> ?ptr \<and> a = b + ?sz) \<or> (?ptr + ?sz \<le> b \<and> a = b)"
        "bslice p b (length x) = x" "node_wf (IS_LEAF p) x" "b + EVEN (length x) \<le> length p"
      using del_layout_bound [OF lay i ax] by blast
    have "bslice p' a (length x) = x" using b(1,2) p'(7,8) EVEN_ge [of "length x"] by fastforce
    then show ?thesis using b nd(4,5) p'(3,4) flags_of_hdr(1) [OF p'(2)] lay' by auto
  qed
  have "map (\<lambda>x. fst x mod 65536) ?D = map fst ?D" using inD by (auto intro!: map_cong)
  then have ptrs: "map (\<lambda>k. get16 p' (PTRS k)) [0..<length ?D] = map fst ?D"
    using p'(6) length_del_layout [OF i] by simp
  have sp: "space (map snd ?D) = length p' - mp_upper p'"
    using space_del [of indx "map snd L"] i lay' p'(3,4) unfolding snd_del_layout by simp
  have "page_lay p' ?D"
    using lay' p'(3-5) ptrs inD sorted_wrt_del_layout [OF lay i] sp length_del_layout [OF i] flags_of_hdr(2) [OF p'(2)] nd(4,5)
    by (auto simp: page_lay_def PTRS_def)
  then show ?thesis using p'(1-3) by blast
qed

end
