(* ===== verification/LMDB_Search.thy ===== *)
theory LMDB_Search
  imports LMDB_Page_Refine "HOL-Library.List_Lexorder"
begin

text \<open>
  The comparison function of the default database is the lexicographic order on byte strings, and the
  binary search in a page finds the first entry that is not below the key.
\<close>

subsection \<open>Keys are ordered lexicographically\<close>

lemma memcmp_eq:
  "length a = length b \<Longrightarrow> memcmp a b = (if a < b then - 1 else if a = b then 0 else 1)"
proof (induction a b rule: memcmp.induct)
  case (1 a as b bs)
  then show ?case by (auto simp: Cons_less_Cons)
qed (auto simp: list_less_def)

lemma less_append_take:
  fixes a b :: "'a :: linorder list"
  assumes "length a \<le> length b"
  shows "a < b \<longleftrightarrow> a < take (length a) b \<or> (a = take (length a) b \<and> length a < length b)"
  using assms
proof (induction a arbitrary: b)
  case Nil
  then show ?case by (cases b) auto
next
  case (Cons x a)
  then obtain y b' where b: "b = y # b'" by (cases b) auto
  then have "a < b' \<longleftrightarrow> a < take (length a) b' \<or> (a = take (length a) b' \<and> length a < length b')"
    using Cons.IH [of b'] Cons.prems by simp
  then show ?case unfolding b by (auto simp only: Cons_less_Cons take_Suc_Cons length_Cons list.inject Suc_less_eq)
qed

lemma mdb_cmp_memn_eq:
  assumes "length a < 2 ^ 32" "length b < 2 ^ 32"
  shows "mdb_cmp_memn a b = Some (if a < b then - 1 else if a = b then 0 else 1)"
proof (cases "length a \<le> length b")
  case True
  define c where "c = take (length a) b"
  have m: "memcmp a c = (if a < c then - 1 else if a = c then 0 else 1)"
    unfolding c_def using True by (intro memcmp_eq) simp
  have "a < b \<longleftrightarrow> a < c \<or> (a = c \<and> length a < length b)" unfolding c_def by (rule less_append_take [OF True])
  moreover have "a = b \<longleftrightarrow> a = c \<and> length a = length b" by (auto simp: c_def)
  ultimately show ?thesis using assms True m by (auto simp: mdb_cmp_memn_def Let_def c_def [symmetric])
next
  case False
  define c where "c = take (length b) a"
  have le: "length b \<le> length a" using False by simp
  have m: "memcmp c b = (if c < b then - 1 else if c = b then 0 else 1)"
    unfolding c_def using le by (intro memcmp_eq) simp
  have "b < a \<longleftrightarrow> b < c \<or> b = c" using less_append_take [OF le] False by (simp add: c_def)
  moreover have "a \<noteq> b" using False by auto
  ultimately have "a < b \<longleftrightarrow> c < b" by (metis less_asym' linorder_neqE not_less_iff_gr_or_eq)
  then show ?thesis using assms False m \<open>a \<noteq> b\<close> by (auto simp: mdb_cmp_memn_def Let_def c_def [symmetric])
qed

subsection \<open>Binary search in a page\<close>

text \<open>\<open>v k\<close> is the comparison of the searched key with entry \<open>k\<close>; \<open>lo\<close> is \<open>0\<close> on a leaf and \<open>1\<close> on a branch
  page, whose entry \<open>0\<close> has no key.\<close>

definition search_ok :: "nat \<Rightarrow> nat \<Rightarrow> (nat \<Rightarrow> int) \<Rightarrow> nat \<Rightarrow> int \<Rightarrow> bool" where
  "search_ok lo n v i rc \<longleftrightarrow>
     (let x = (if 0 < rc then i + 1 else i) in
      lo \<le> x \<and> x \<le> n \<and> (\<forall>k. lo \<le> k \<and> k < x \<longrightarrow> 0 < v k) \<and> (\<forall>k. x \<le> k \<and> k < n \<longrightarrow> v k \<le> 0) \<and>
      (rc = 0 \<longleftrightarrow> x < n \<and> v x = 0))"

lemma node_search_loop_correct:
  assumes ent: "\<And>k. lo \<le> k \<Longrightarrow> k < n \<Longrightarrow> \<exists>e. entry_key p pad k = Some e \<and> cmp key e = Some (v k)"
    and mono: "\<And>i j. lo \<le> i \<Longrightarrow> i < j \<Longrightarrow> j < n \<Longrightarrow> 0 \<le> v j \<Longrightarrow> 0 < v i"
  shows "int lo \<le> low \<Longrightarrow> low \<le> high + 1 \<Longrightarrow> high < int n \<Longrightarrow>
    \<forall>k. lo \<le> k \<and> int k < low \<longrightarrow> 0 < v k \<Longrightarrow> \<forall>k. high < int k \<and> k < n \<longrightarrow> v k < 0 \<Longrightarrow>
    low \<le> high \<or> (0 < rc \<and> int i + 1 = low) \<or> (rc < 0 \<and> int i = low) \<Longrightarrow>
    \<exists>i' rc'. node_search_loop cmp p pad key low high i rc = Some (i', rc') \<and> search_ok lo n v i' rc'"
proof (induction "nat (high + 1 - low)" arbitrary: low high i rc rule: less_induct)
  case less
  note prems = less.prems
  show ?case
  proof (cases "low \<le> high")
    case False
    then have hi: "high = low - 1" using prems(2) by simp
    define x where "x = (if 0 < rc then i + 1 else i)"
    have x: "int x = low" "rc \<noteq> 0" using prems(6) False by (auto simp: x_def)
    have "\<forall>k. lo \<le> k \<and> k < x \<longrightarrow> 0 < v k" using prems(4) x by auto
    moreover have lt: "\<forall>k. x \<le> k \<and> k < n \<longrightarrow> v k < 0" using prems(5) x hi by auto
    moreover have "lo \<le> x" "x \<le> n" using prems(1-3) x hi by auto
    moreover have "node_search_loop cmp p pad key low high i rc = Some (i, rc)"
      using False by (subst node_search_loop.simps) simp
    moreover have "\<forall>k. x \<le> k \<and> k < n \<longrightarrow> v k \<le> 0" using lt by (auto intro: less_imp_le)
    moreover have "\<not> (x < n \<and> v x = 0)" using lt by auto
    ultimately show ?thesis using x(2)
      by (intro exI [of _ i] exI [of _ rc]) (auto simp: search_ok_def x_def [symmetric])
  next
    case True
    let ?i = "nat ((low + high) div 2)"
    have i: "lo \<le> ?i" "?i < n" "low \<le> int ?i" "int ?i \<le> high" using True prems(1,3) by auto
    obtain e where e: "entry_key p pad ?i = Some e" "cmp key e = Some (v ?i)" using ent i by blast
    have step: "node_search_loop cmp p pad key low high i rc =
        (if v ?i = 0 then Some (?i, v ?i)
         else if v ?i > 0 then node_search_loop cmp p pad key (int ?i + 1) high ?i (v ?i)
         else node_search_loop cmp p pad key low (int ?i - 1) ?i (v ?i))"
      using True e prems(1) by (subst node_search_loop.simps) (simp add: Let_def)
    have neg: "v k < 0" if "?i < k" "k < n" "v ?i \<le> 0" for k
      using mono [OF i(1) that(1,2)] that(3) by (metis not_less)
    consider (eq) "v ?i = 0" | (gt) "0 < v ?i" | (lt) "v ?i < 0" by linarith
    then show ?thesis
    proof cases
      case eq
      have "0 < v k" if "lo \<le> k" "k < ?i" for k using mono [OF that i(2)] eq by simp
      moreover have "v k \<le> 0" if "?i \<le> k" "k < n" for k
        using neg [of k] that eq by (cases "k = ?i") auto
      ultimately show ?thesis using step eq i
        by (intro exI [of _ ?i] exI [of _ 0]) (auto simp: search_ok_def Let_def)
    next
      case gt
      have pos: "0 < v k" if "lo \<le> k" "k \<le> ?i" for k
        using mono [of k ?i] that i(2) gt by (cases "k = ?i") auto
      then have "\<forall>k. lo \<le> k \<and> int k < int ?i + 1 \<longrightarrow> 0 < v k" by auto
      then have "\<exists>i' rc'. node_search_loop cmp p pad key (int ?i + 1) high ?i (v ?i) = Some (i', rc') \<and>
          search_ok lo n v i' rc'"
        by (intro less.hyps) (use prems gt i in auto)
      then show ?thesis using step gt by simp
    next
      case lt
      have "v k < 0" if "?i \<le> k" "k < n" for k
        using neg [of k] that lt by (cases "k = ?i") auto
      then have "\<forall>k. int ?i - 1 < int k \<and> k < n \<longrightarrow> v k < 0" by auto
      then have "\<exists>i' rc'. node_search_loop cmp p pad key low (int ?i - 1) ?i (v ?i) = Some (i', rc') \<and>
          search_ok lo n v i' rc'"
        by (intro less.hyps) (use prems lt i in auto)
      then show ?thesis using step lt by simp
    qed
  qed
qed

lemma entry_key_lay:
  assumes lay: "page_lay p L" and i: "i < length L"
  shows "entry_key p pad i = Some (nb_key (snd (L ! i)))"
proof -
  let ?a = "fst (L ! i)" and ?nb = "snd (L ! i)"
  note nd = page_lay_node [OF lay i]
  have wf: "node_wf (IS_LEAF p) ?nb" using page_lay_nth(2) [OF lay i] by (cases "L ! i") simp
  have k: "8 + mn_ksize (hdr_of ?nb) \<le> length ?nb" using wf by (simp add: node_wf_def node_len_def NODESIZE_def)
  then have b: "?a + 8 + mn_ksize (hdr_of ?nb) \<le> length p" using nd(4) EVEN_ge [of "length ?nb"] by linarith
  have "bslice p (?a + 8) (mn_ksize (hdr_of ?nb)) = nb_key ?nb"
    using bslice_bslice [OF k, of p ?a] nd(6) by (simp add: nb_key_def)
  moreover have "\<not> IS_LEAF2 p" using lay by (simp add: page_lay_def)
  ultimately show ?thesis
    using page_lay_nth(4) [OF lay i] nd(1) b by (simp add: entry_key_def NODEKEY_def NODESIZE_def mem_simps)
qed

lemma length_nb_key: "node_wf leaf nb \<Longrightarrow> length (nb_key nb) < 65536"
  using get16_less [of nb 6] by (auto simp: nb_key_def hdr_of_def length_bslice)

definition first_entry :: "page \<Rightarrow> nat" where
  "first_entry p = (if IS_LEAF p then 0 else 1)"

text \<open>The keys of a page ascend, from the first entry that has one.\<close>

definition keys_sorted :: "page \<Rightarrow> byte list list \<Rightarrow> bool" where
  "keys_sorted p nbs \<longleftrightarrow> sorted_wrt (<) (drop (first_entry p) (map nb_key nbs))"

definition cmp_sign :: "byte list \<Rightarrow> byte list \<Rightarrow> int" where
  "cmp_sign a b = (if a < b then - 1 else if a = b then 0 else 1)"

lemma cmp_sign_iff: "0 < cmp_sign a b \<longleftrightarrow> b < a" "cmp_sign a b \<le> 0 \<longleftrightarrow> a \<le> b" "cmp_sign a b = 0 \<longleftrightarrow> a = b" "0 \<le> cmp_sign a b \<longleftrightarrow> b \<le> a"
  by (auto simp: cmp_sign_def not_less_iff_gr_or_eq)

lemma keys_sorted_nth:
  assumes "keys_sorted p nbs" "first_entry p \<le> i" "i < j" "j < length nbs"
  shows "nb_key (nbs ! i) < nb_key (nbs ! j)"
proof -
  let ?lo = "first_entry p"
  have "drop ?lo (map nb_key nbs) ! (i - ?lo) < drop ?lo (map nb_key nbs) ! (j - ?lo)"
    using assms sorted_wrt_nth_less [of "(<)" "drop ?lo (map nb_key nbs)" "i - ?lo" "j - ?lo"]
    unfolding keys_sorted_def by auto
  then show ?thesis using assms by simp
qed

lemma mdb_node_search_memn:
  assumes rep: "page_rep p nbs" and sorted: "keys_sorted p nbs" and key: "length key < 2 ^ 32"
    and ne: "first_entry p < length nbs"
  shows "\<exists>x. mdb_node_search Cmp_memn pad p key = Some (x, x < length nbs \<and> nb_key (nbs ! x) = key, x < length nbs) \<and>
    first_entry p \<le> x \<and> x \<le> length nbs \<and>
    (\<forall>k. first_entry p \<le> k \<and> k < x \<longrightarrow> nb_key (nbs ! k) < key) \<and> (\<forall>k. x \<le> k \<and> k < length nbs \<longrightarrow> key \<le> nb_key (nbs ! k))"
proof -
  obtain L where L: "page_lay p L" "map snd L = nbs" using rep by (auto simp: page_rep_def)
  let ?lo = "first_entry p" and ?n = "length nbs" and ?v = "\<lambda>k. cmp_sign key (nb_key (nbs ! k))"
  have nth: "snd (L ! k) = nbs ! k" if "k < ?n" for k using that L(2) by auto
  have ent: "\<exists>e. entry_key p pad k = Some e \<and> run_cmp Cmp_memn key e = Some (?v k)" if "k < ?n" for k
  proof -
    have k: "k < length L" using that L(2) by auto
    have "node_wf (IS_LEAF p) (nbs ! k)" using page_lay_nth(2) [OF L(1) k] nth [OF that] by (cases "L ! k") auto
    then have "length (nb_key (nbs ! k)) < 2 ^ 32" using length_nb_key by fastforce
    then show ?thesis using entry_key_lay [OF L(1) k, of pad] nth [OF that] mdb_cmp_memn_eq [OF key] by (simp add: cmp_sign_def)
  qed
  have "\<exists>i rc. node_search_loop (run_cmp Cmp_memn) p pad key (int ?lo) (int ?n - 1) 0 0 = Some (i, rc) \<and> search_ok ?lo ?n ?v i rc"
  proof (rule node_search_loop_correct)
    fix i j assume "?lo \<le> i" "i < j" "j < ?n" "0 \<le> ?v j"
    then show "0 < ?v i" using keys_sorted_nth [OF sorted] by (auto simp: cmp_sign_iff intro: order.strict_trans2)
  qed (use ent ne in auto)
  then obtain i rc where loop: "node_search_loop (run_cmp Cmp_memn) p pad key (int ?lo) (int ?n - 1) 0 0 = Some (i, rc)"
      and ok: "search_ok ?lo ?n ?v i rc" by blast
  have n: "NUMKEYS p = ?n" using page_lay_NUMKEYS [OF L(1)] L(2) by auto
  define x where "x = (if 0 < rc then i + 1 else i)"
  have s: "mdb_node_search Cmp_memn pad p key = Some (x, rc = 0, x < ?n)"
    using loop ne n unfolding x_def by (auto simp: mdb_node_search_def Let_def first_entry_def split: if_splits)
  have ok': "?lo \<le> x \<and> x \<le> ?n \<and> (\<forall>k. ?lo \<le> k \<and> k < x \<longrightarrow> nb_key (nbs ! k) < key) \<and>
      (\<forall>k. x \<le> k \<and> k < ?n \<longrightarrow> key \<le> nb_key (nbs ! k)) \<and> (rc = 0 \<longleftrightarrow> x < ?n \<and> key = nb_key (nbs ! x))"
    using ok unfolding search_ok_def Let_def x_def [symmetric] cmp_sign_iff by blast
  then have "(rc = 0) = (x < ?n \<and> nb_key (nbs ! x) = key)" by blast
  then show ?thesis using ok' s by (intro exI [of _ x]) simp
qed

lemma mdb_node_search_empty:
  assumes "page_rep p []" and "IS_LEAF p"
  shows "mdb_node_search Cmp_memn pad p key = Some (0, False, False)"
  using assms page_lay_NUMKEYS [of p "[]"]
  by (auto simp: page_rep_def mdb_node_search_def Let_def node_search_loop.simps)

end
