(* ===== verification/LMDB_Txn.thy ===== *)
theory LMDB_Txn
  imports LMDB_Search Mid2l
begin

text \<open>
  Transactions and page lookup of the embedded LMDB. One record holds the fields of \<open>MDB_txn\<close> and of its
  \<open>MDB_env\<close> that the modelled operations use. The server opens the environment without \<open>MDB_WRITEMAP\<close>, begins no
  nested transactions and uses the unnamed main database only, so \<open>mt_parent\<close> is \<open>NULL\<close>, the database handles are
  \<open>FREE_DBI\<close> and \<open>MAIN_DBI\<close>, and neither has sorted duplicates. Flag words are sets of flags.
\<close>

subsection \<open>Return codes and flags\<close>

definition MDB_SUCCESS :: int where "MDB_SUCCESS = 0"
definition MDB_KEYEXIST :: int where "MDB_KEYEXIST = - 30799"
definition MDB_NOTFOUND :: int where "MDB_NOTFOUND = - 30798"
definition MDB_PAGE_NOTFOUND :: int where "MDB_PAGE_NOTFOUND = - 30797"
definition MDB_CORRUPTED :: int where "MDB_CORRUPTED = - 30796"
definition MDB_MAP_FULL :: int where "MDB_MAP_FULL = - 30792"
definition MDB_TXN_FULL :: int where "MDB_TXN_FULL = - 30788"
definition MDB_CURSOR_FULL :: int where "MDB_CURSOR_FULL = - 30787"
definition MDB_PAGE_FULL :: int where "MDB_PAGE_FULL = - 30786"
definition MDB_INCOMPATIBLE :: int where "MDB_INCOMPATIBLE = - 30784"
definition MDB_BAD_TXN :: int where "MDB_BAD_TXN = - 30782"
definition MDB_BAD_VALSIZE :: int where "MDB_BAD_VALSIZE = - 30781"
definition E_INVAL :: int where "E_INVAL = 22"
definition E_NOMEM :: int where "E_NOMEM = 12"

lemmas rc_defs = MDB_SUCCESS_def MDB_KEYEXIST_def MDB_NOTFOUND_def MDB_PAGE_NOTFOUND_def MDB_CORRUPTED_def
  MDB_MAP_FULL_def MDB_TXN_FULL_def MDB_CURSOR_FULL_def MDB_PAGE_FULL_def MDB_INCOMPATIBLE_def MDB_BAD_TXN_def
  MDB_BAD_VALSIZE_def E_INVAL_def E_NOMEM_def

datatype txn_flag = MDB_TXN_RDONLY | MDB_TXN_WRITEMAP | MDB_TXN_FINISHED | MDB_TXN_ERROR | MDB_TXN_DIRTY
  | MDB_TXN_SPILLS | MDB_TXN_HAS_CHILD

definition MDB_TXN_BLOCKED :: "txn_flag set" where
  "MDB_TXN_BLOCKED = {MDB_TXN_FINISHED, MDB_TXN_ERROR, MDB_TXN_HAS_CHILD}"

datatype db_flag = DB_DIRTY | DB_STALE | DB_NEW | DB_VALID | DB_USRVALID | DB_DUPDATA

definition FREE_DBI :: nat where "FREE_DBI = 0"
definition MAIN_DBI :: nat where "MAIN_DBI = 1"
definition CORE_DBS :: nat where "CORE_DBS = 2"

definition P_INVALID :: nat where
  "P_INVALID = 2 ^ 64 - 1"

subsection \<open>State\<close>

record mdb_db =
  md_pad :: nat
  md_flags :: nat
  md_depth :: nat
  md_branch_pages :: nat
  md_leaf_pages :: nat
  md_overflow_pages :: nat
  md_entries :: nat
  md_root :: nat

text \<open>\<open>mt_dbxs\<close> holds the comparison function \<open>md_cmp\<close> of each database; \<open>mt_loose_pgs\<close> are the page numbers
  of the linked list of loose pages, \<open>me_dpages\<close> the blocks on the list of freed pages (the links of both lists, which
  overwrite dead page contents, are the lists themselves); \<open>me_map\<close> are the bytes of the mapped file; \<open>me_readers\<close> are the pairs of
  \<open>mr_pid\<close> and \<open>mr_txnid\<close> of the reader table. \<open>me_mem n\<close> is the outcome of the \<open>n\<close>-th call of \<open>malloc\<close> or
  \<open>realloc\<close> from now on: failure, or the contents of the fresh memory.\<close>

record mdb_txn =
  mt_flags :: "txn_flag set"
  mt_txnid :: nat
  mt_next_pgno :: nat
  mt_free_pgs :: midl
  mt_loose_pgs :: "nat list"
  mt_spill_pgs :: "midl option"
  mt_dirty_list :: "page mdb_id2 list"
  mt_dirty_room :: nat
  mt_dbs :: "mdb_db list"
  mt_dbxs :: "mdb_cmp_func list"
  mt_dbflags :: "db_flag set list"
  me_psize :: nat
  me_maxpg :: nat
  me_nodemax :: nat
  me_map :: "byte list"
  me_pghead :: "midl option"
  me_pglast :: nat
  me_pgoldest :: nat
  me_readers :: "(nat \<times> nat) list"
  me_dpages :: "page list"
  me_mem :: "nat \<Rightarrow> (nat \<Rightarrow> mdb_id) option"

definition txn_error :: "mdb_txn \<Rightarrow> mdb_txn" where
  "txn_error txn = txn\<lparr>mt_flags := insert MDB_TXN_ERROR (mt_flags txn)\<rparr>"

subsection \<open>Page pointers\<close>

text \<open>An \<open>MDB_page *\<close> points into the map or to the copy of a dirty page. Following a pointer to a page that
  is no longer on the dirty list, or outside the map, is \<open>None\<close>.\<close>

datatype pgref = Map_page nat | Dirty_page nat

definition dirty_mem :: "page mdb_id2 list \<Rightarrow> nat \<Rightarrow> page option" where
  "dirty_mem dl n = map_option mptr (find (\<lambda>x. unat (mid x) = n) (id2l_elems dl))"

text \<open>The memory from a page pointer on: the rest of the map, or the block of the dirty page.\<close>

fun ref_mem :: "mdb_txn \<Rightarrow> pgref \<Rightarrow> page option" where
  "ref_mem txn (Map_page n) =
     (if me_psize txn * n + me_psize txn \<le> length (me_map txn) then Some (drop (me_psize txn * n) (me_map txn)) else None)"
| "ref_mem txn (Dirty_page n) =
     (case dirty_mem (mt_dirty_list txn) n of
        Some m \<Rightarrow> if me_psize txn \<le> length m then Some m else None
      | None \<Rightarrow> None)"

definition page_mem :: "mdb_txn \<Rightarrow> pgref \<Rightarrow> page option" where
  "page_mem txn r = map_option (take (me_psize txn)) (ref_mem txn r)"

subsection \<open>Finding a page\<close>

text \<open>\<open>x <= sl[0] && sl[x] == pn\<close> after the search for \<open>pn\<close> in a spill list.\<close>

definition spill_find :: "midl \<Rightarrow> mdb_id \<Rightarrow> nat option option" where
  "spill_find sl pn =
     do { x \<leftarrow> mdb_midl_search (ids_cells sl) pn;
          c \<leftarrow> rd (ids_cells sl) 0;
          if x \<le> unat c
          then do { y \<leftarrow> rd (ids_cells sl) x; Some (if y = pn then Some x else None) }
          else Some None }"

definition dirty_find :: "page mdb_id2 list \<Rightarrow> mdb_id \<Rightarrow> nat option option" where
  "dirty_find dl pgno =
     do { c \<leftarrow> rd dl 0;
          if mid c \<noteq> 0
          then do { x \<leftarrow> mdb_mid2l_search dl pgno;
                    if x \<le> unat (mid c)
                    then do { y \<leftarrow> rd dl x; Some (if mid y = pgno then Some x else None) }
                    else Some None }
          else Some None }"

text \<open>The results are the return code, the page pointer, the dirty-list level and the transaction.\<close>

definition mdb_page_get :: "mdb_txn \<Rightarrow> nat \<Rightarrow> (int \<times> pgref \<times> nat \<times> mdb_txn) option" where
  "mdb_page_get txn pgno =
     do { here \<leftarrow>
            (if {MDB_TXN_RDONLY, MDB_TXN_WRITEMAP} \<inter> mt_flags txn = {}
             then do { sp \<leftarrow> (case mt_spill_pgs txn of
                                None \<Rightarrow> Some None
                              | Some sl \<Rightarrow> spill_find sl (push_bit 1 (of_nat pgno)));
                       case sp of
                         Some x \<Rightarrow> Some (Some (Map_page pgno))
                       | None \<Rightarrow>
                           do { d \<leftarrow> dirty_find (mt_dirty_list txn) (of_nat pgno);
                                Some (case d of Some x \<Rightarrow> Some (Dirty_page pgno) | None \<Rightarrow> None) } }
             else Some None);
          Some (case here of
                  Some r \<Rightarrow> (MDB_SUCCESS, r, 1, txn)
                | None \<Rightarrow>
                    if pgno < mt_next_pgno txn then (MDB_SUCCESS, Map_page pgno, 0, txn)
                    else (MDB_PAGE_NOTFOUND, Map_page pgno, 0, txn_error txn)) }"

end
