(* ===== verification/LMDB_Cursor.thy ===== *)
theory LMDB_Cursor
  imports LMDB_Txn
begin

text \<open>
  Cursors of the embedded LMDB: the path from the root of a B+tree to a position, the descent through branch
  pages, the moves to siblings and to the next and previous item, and positioning at a key. The databases have
  no sorted duplicates, so \<open>mc_xcursor\<close> is \<open>NULL\<close>, \<open>P_LEAF2\<close> pages do not occur, and a node flagged \<open>F_DUPDATA\<close> is
  outside the model (\<open>None\<close>). Descending with \<open>MDB_PS_MODIFY\<close> makes the pages writable; the operation that does so is
  the argument \<open>touch\<close>.
\<close>

subsection \<open>Cursor state\<close>

definition CURSOR_STACK :: nat where
  "CURSOR_STACK = 32"

datatype cur_flag = C_INITIALIZED | C_EOF | C_SUB | C_DEL | C_UNTRACK

record mdb_cursor =
  mc_dbi :: nat
  mc_snum :: nat
  mc_top :: nat
  mc_flags :: "cur_flag set"
  mc_pg :: "pgref option list"
  mc_ki :: "nat list"

datatype ps_flag = MDB_PS_MODIFY | MDB_PS_ROOTONLY | MDB_PS_FIRST | MDB_PS_LAST

datatype mdb_cursor_op = MDB_FIRST | MDB_FIRST_DUP | MDB_GET_BOTH | MDB_GET_BOTH_RANGE | MDB_GET_CURRENT
  | MDB_GET_MULTIPLE | MDB_LAST | MDB_LAST_DUP | MDB_NEXT | MDB_NEXT_DUP | MDB_NEXT_MULTIPLE | MDB_NEXT_NODUP
  | MDB_PREV | MDB_PREV_DUP | MDB_PREV_NODUP | MDB_SET | MDB_SET_KEY | MDB_SET_RANGE | MDB_PREV_MULTIPLE

text \<open>Results of an operation that moves a cursor: return code, cursor, transaction. A lookup returns the
  key and the data it stored through its pointers as well, \<open>None\<close> where it stored nothing.\<close>

type_synonym cres = "(int \<times> mdb_cursor \<times> mdb_txn) option"
type_synonym kv = "byte list option \<times> byte list option"
type_synonym kvres = "(int \<times> kv \<times> mdb_cursor \<times> mdb_txn) option"

definition cur_ref :: "mdb_cursor \<Rightarrow> nat \<Rightarrow> pgref option" where
  "cur_ref mc i = (case rd (mc_pg mc) i of Some (Some r) \<Rightarrow> Some r | _ \<Rightarrow> None)"

definition cur_page :: "mdb_txn \<Rightarrow> mdb_cursor \<Rightarrow> page option" where
  "cur_page txn mc = do { r \<leftarrow> cur_ref mc (mc_top mc); page_mem txn r }"

definition cur_ki :: "mdb_cursor \<Rightarrow> nat option" where
  "cur_ki mc = rd (mc_ki mc) (mc_top mc)"

definition set_ki :: "mdb_cursor \<Rightarrow> nat \<Rightarrow> mdb_cursor option" where
  "set_ki mc v = do { ki \<leftarrow> wr (mc_ki mc) (mc_top mc) v; Some (mc\<lparr>mc_ki := ki\<rparr>) }"

definition add_flags :: "cur_flag set \<Rightarrow> mdb_cursor \<Rightarrow> mdb_cursor" where
  "add_flags f mc = mc\<lparr>mc_flags := mc_flags mc \<union> f\<rparr>"

definition del_flags :: "cur_flag set \<Rightarrow> mdb_cursor \<Rightarrow> mdb_cursor" where
  "del_flags f mc = mc\<lparr>mc_flags := mc_flags mc - f\<rparr>"

definition mdb_cursor_init :: "nat \<Rightarrow> mdb_cursor" where
  "mdb_cursor_init dbi =
     \<lparr>mc_dbi = dbi, mc_snum = 0, mc_top = 0, mc_flags = {},
      mc_pg = replicate CURSOR_STACK None, mc_ki = replicate CURSOR_STACK 0\<rparr>"

definition mdb_cursor_pop :: "mdb_cursor \<Rightarrow> mdb_cursor" where
  "mdb_cursor_pop mc =
     (if mc_snum mc \<noteq> 0 then
        (let mc = mc\<lparr>mc_snum := mc_snum mc - 1\<rparr> in
         if mc_snum mc \<noteq> 0 then mc\<lparr>mc_top := mc_top mc - 1\<rparr> else del_flags {C_INITIALIZED} mc)
      else mc)"

definition mdb_cursor_push :: "mdb_cursor \<Rightarrow> mdb_txn \<Rightarrow> pgref \<Rightarrow> cres" where
  "mdb_cursor_push mc txn mp =
     (if mc_snum mc \<ge> CURSOR_STACK then Some (MDB_CURSOR_FULL, mc, txn_error txn)
      else
        do { let mc = mc\<lparr>mc_top := mc_snum mc, mc_snum := mc_snum mc + 1\<rparr>;
             pg \<leftarrow> wr (mc_pg mc) (mc_top mc) (Some mp);
             mc \<leftarrow> set_ki (mc\<lparr>mc_pg := pg\<rparr>) 0;
             Some (MDB_SUCCESS, mc, txn) })"

definition cur_cmp :: "mdb_txn \<Rightarrow> mdb_cursor \<Rightarrow> mdb_cmp_func option" where
  "cur_cmp txn mc = rd (mt_dbxs txn) (mc_dbi mc)"

definition cur_db :: "mdb_txn \<Rightarrow> mdb_cursor \<Rightarrow> mdb_db option" where
  "cur_db txn mc = rd (mt_dbs txn) (mc_dbi mc)"

text \<open>\<open>mdb_node_search\<close> on the top page: the index, exactness and whether there is a node, and the cursor with
  the index stored.\<close>

definition cur_search :: "mdb_txn \<Rightarrow> mdb_cursor \<Rightarrow> page \<Rightarrow> byte list \<Rightarrow> (nat \<times> bool \<times> bool \<times> mdb_cursor) option" where
  "cur_search txn mc mp key =
     do { cf \<leftarrow> cur_cmp txn mc; db \<leftarrow> cur_db txn mc;
          (i, exact, found) \<leftarrow> mdb_node_search cf (md_pad db) mp key;
          mc \<leftarrow> set_ki mc i;
          Some (i, exact, found, mc) }"

subsection \<open>Descending the tree\<close>

text \<open>The choice of the child on a branch page: \<open>Inl\<close> the index to follow, \<open>Inr\<close> the cursor already moved down
  when the stack below is in the right place.\<close>

definition branch_choice ::
    "mdb_txn \<Rightarrow> mdb_cursor \<Rightarrow> byte list option \<Rightarrow> ps_flag set \<Rightarrow> page \<Rightarrow> (mdb_cursor \<times> nat + mdb_cursor) option" where
  "branch_choice txn mc key flags mp =
     (if {MDB_PS_FIRST, MDB_PS_LAST} \<inter> flags \<noteq> {} then
        (if MDB_PS_LAST \<in> flags then
           (let i = NUMKEYS mp - 1 in
            if C_INITIALIZED \<in> mc_flags mc
            then do { ki \<leftarrow> cur_ki mc;
                      Some (if ki = i then Inr (mc\<lparr>mc_top := mc_snum mc, mc_snum := mc_snum mc + 1\<rparr>) else Inl (mc, i)) }
            else Some (Inl (mc, i)))
         else Some (Inl (mc, 0)))
      else
        do { k \<leftarrow> key;
             (x, exact, found, mc) \<leftarrow> cur_search txn mc mp k;
             if \<not> found then Some (Inl (mc, NUMKEYS mp - 1))
             else if \<not> exact then (if x > 0 then Some (Inl (mc, x - 1)) else None)
             else Some (Inl (mc, x)) })"

text \<open>\<open>mdb_page_search_root\<close>, with \<open>mp\<close> the page at the top of the stack.\<close>

partial_function (option) mdb_page_search_root ::
    "(mdb_cursor \<Rightarrow> mdb_txn \<Rightarrow> cres) \<Rightarrow> mdb_txn \<Rightarrow> mdb_cursor \<Rightarrow> byte list option \<Rightarrow> ps_flag set \<Rightarrow> page \<Rightarrow> cres" where
  "mdb_page_search_root touch txn mc key flags mp =
     (if IS_BRANCH mp then
        if mc_dbi mc \<noteq> FREE_DBI \<and> \<not> NUMKEYS mp > 1 then None
        else
          do { c \<leftarrow> branch_choice txn mc key flags mp;
               (rc, mc, txn) \<leftarrow>
                 (case c of
                    Inr mc \<Rightarrow> Some (MDB_SUCCESS, mc, txn)
                  | Inl (mc, i) \<Rightarrow>
                      if \<not> i < NUMKEYS mp then None
                      else
                        do { node \<leftarrow> NODEPTR mp i;
                             n \<leftarrow> node_hdr mp node;
                             (rc, r, lvl, txn) \<leftarrow> mdb_page_get txn (NODEPGNO n);
                             if rc \<noteq> 0 then Some (rc, mc, txn)
                             else do { mc \<leftarrow> set_ki mc i; mdb_cursor_push mc txn r } });
               if rc \<noteq> 0 then Some (rc, mc, txn)
               else
                 do { (rc, mc, txn) \<leftarrow> (if MDB_PS_MODIFY \<in> flags then touch mc txn else Some (MDB_SUCCESS, mc, txn));
                      if rc \<noteq> 0 then Some (rc, mc, txn)
                      else do { mp \<leftarrow> cur_page txn mc; mdb_page_search_root touch txn mc key flags mp } } }
      else if \<not> IS_LEAF mp then Some (MDB_CORRUPTED, mc, txn_error txn)
      else Some (MDB_SUCCESS, del_flags {C_EOF} (add_flags {C_INITIALIZED} mc), txn))"

definition mdb_page_search_lowest :: "(mdb_cursor \<Rightarrow> mdb_txn \<Rightarrow> cres) \<Rightarrow> mdb_txn \<Rightarrow> mdb_cursor \<Rightarrow> cres" where
  "mdb_page_search_lowest touch txn mc =
     do { mp \<leftarrow> cur_page txn mc;
          node \<leftarrow> NODEPTR mp 0;
          n \<leftarrow> node_hdr mp node;
          (rc, r, lvl, txn) \<leftarrow> mdb_page_get txn (NODEPGNO n);
          if rc \<noteq> 0 then Some (rc, mc, txn)
          else
            do { mc \<leftarrow> set_ki mc 0;
                 (rc, mc, txn) \<leftarrow> mdb_cursor_push mc txn r;
                 if rc \<noteq> 0 then Some (rc, mc, txn)
                 else do { mp \<leftarrow> cur_page txn mc; mdb_page_search_root touch txn mc None {MDB_PS_FIRST} mp } } }"

text \<open>\<open>mdb_page_search\<close> for the two core databases, whose records are never stale (\<open>DB_STALE\<close>).\<close>

definition mdb_page_search ::
    "(mdb_cursor \<Rightarrow> mdb_txn \<Rightarrow> cres) \<Rightarrow> mdb_txn \<Rightarrow> mdb_cursor \<Rightarrow> byte list option \<Rightarrow> ps_flag set \<Rightarrow> cres" where
  "mdb_page_search touch txn mc key flags =
     (if MDB_TXN_BLOCKED \<inter> mt_flags txn \<noteq> {} then Some (MDB_BAD_TXN, mc, txn)
      else
        do { db \<leftarrow> cur_db txn mc;
             let root = md_root db;
             if root = P_INVALID then Some (MDB_NOTFOUND, mc, txn)
             else if \<not> root > 1 then None
             else
               do { first \<leftarrow> rd (mc_pg mc) 0;
                    same \<leftarrow> (case first of
                               None \<Rightarrow> Some False
                             | Some r \<Rightarrow> do { p \<leftarrow> page_mem txn r; Some (mp_pgno p = root) });
                    (rc, mc, txn) \<leftarrow>
                      (if same then Some (MDB_SUCCESS, mc, txn)
                       else do { (rc, r, lvl, txn) \<leftarrow> mdb_page_get txn root;
                                 if rc \<noteq> 0 then Some (rc, mc, txn)
                                 else do { pg \<leftarrow> wr (mc_pg mc) 0 (Some r); Some (MDB_SUCCESS, mc\<lparr>mc_pg := pg\<rparr>, txn) } });
                    if rc \<noteq> 0 then Some (rc, mc, txn)
                    else
                      do { let mc = mc\<lparr>mc_snum := 1, mc_top := 0\<rparr>;
                           (rc, mc, txn) \<leftarrow> (if MDB_PS_MODIFY \<in> flags then touch mc txn else Some (MDB_SUCCESS, mc, txn));
                           if rc \<noteq> 0 then Some (rc, mc, txn)
                           else if MDB_PS_ROOTONLY \<in> flags then Some (MDB_SUCCESS, mc, txn)
                           else do { mp \<leftarrow> cur_page txn mc; mdb_page_search_root touch txn mc key flags mp } } } })"

subsection \<open>Reading a node\<close>

definition mdb_node_read :: "mdb_txn \<Rightarrow> page \<Rightarrow> nat \<Rightarrow> (int \<times> byte list \<times> mdb_txn) option" where
  "mdb_node_read txn mp leaf =
     do { n \<leftarrow> node_hdr mp leaf;
          ndata \<leftarrow> NODEDATA mp leaf;
          if \<not> F_ISSET (mn_flags n) F_BIGDATA
          then do { d \<leftarrow> rdb mp ndata (NODEDSZ n); Some (MDB_SUCCESS, d, txn) }
          else
            do { bs \<leftarrow> rdb mp ndata 8;
                 (rc, r, lvl, txn) \<leftarrow> mdb_page_get txn (le_nat bs);
                 if rc \<noteq> 0 then Some (rc, [], txn)
                 else do { omp \<leftarrow> ref_mem txn r;
                           d \<leftarrow> rdb omp PAGEHDRSZ (NODEDSZ n);
                           Some (MDB_SUCCESS, d, txn) } } }"

text \<open>\<open>if (data) mdb_node_read(mc, leaf, data)\<close> and \<open>MDB_GET_KEY(leaf, key)\<close> for a node without duplicates.\<close>

definition fetch_node :: "mdb_txn \<Rightarrow> mdb_cursor \<Rightarrow> page \<Rightarrow> nat \<Rightarrow> bool \<Rightarrow> bool \<Rightarrow> kvres" where
  "fetch_node txn mc mp leaf want_key want_data =
     do { n \<leftarrow> node_hdr mp leaf;
          if F_ISSET (mn_flags n) F_DUPDATA then None
          else
            do { (rc, d, txn) \<leftarrow> (if want_data then mdb_node_read txn mp leaf else Some (MDB_SUCCESS, [], txn));
                 if rc \<noteq> 0 then Some (rc, (None, None), mc, txn)
                 else
                   do { k \<leftarrow> NODEKEY mp leaf;
                        Some (MDB_SUCCESS, (if want_key then Some k else None, if want_data then Some d else None), mc, txn) } } }"

subsection \<open>Moving a cursor\<close>

lemma mc_snum_pop: "mc_snum (mdb_cursor_pop mc) = mc_snum mc - 1"
  by (simp add: mdb_cursor_pop_def del_flags_def Let_def)

text \<open>The end of \<open>mdb_cursor_sibling\<close>: push the child of the branch page at the top that the index points to.\<close>

definition sibling_descend :: "mdb_txn \<Rightarrow> mdb_cursor \<Rightarrow> bool \<Rightarrow> cres" where
  "sibling_descend txn mc move_right =
     do { mp \<leftarrow> cur_page txn mc;
          if \<not> IS_BRANCH mp then None
          else
            do { ki \<leftarrow> cur_ki mc;
                 node \<leftarrow> NODEPTR mp ki;
                 n \<leftarrow> node_hdr mp node;
                 (rc, r, lvl, txn) \<leftarrow> mdb_page_get txn (NODEPGNO n);
                 if rc \<noteq> 0 then Some (rc, del_flags {C_INITIALIZED, C_EOF} mc, txn)
                 else
                   do { (rc, mc, txn) \<leftarrow> mdb_cursor_push mc txn r;
                        mp \<leftarrow> page_mem txn r;
                        mc \<leftarrow> (if move_right then Some mc else set_ki mc ((NUMKEYS mp + 65535) mod 65536));
                        Some (MDB_SUCCESS, mc, txn) } } }"

function mdb_cursor_sibling :: "mdb_txn \<Rightarrow> mdb_cursor \<Rightarrow> bool \<Rightarrow> cres" where
  "mdb_cursor_sibling txn mc move_right =
     (if mc_snum mc < 2 then Some (MDB_NOTFOUND, mc, txn)
      else
        (let mc = mdb_cursor_pop mc in
         case cur_page txn mc of
           None \<Rightarrow> None
         | Some mp \<Rightarrow>
             (case cur_ki mc of
                None \<Rightarrow> None
              | Some ki \<Rightarrow>
                  (case (if (if move_right then ki + 1 \<ge> NUMKEYS mp else ki = 0)
                         then mdb_cursor_sibling txn mc move_right
                         else do { mc \<leftarrow> set_ki mc (if move_right then ki + 1 else ki - 1); Some (MDB_SUCCESS, mc, txn) }) of
                     None \<Rightarrow> None
                   | Some (rc, mc, txn) \<Rightarrow>
                       if rc \<noteq> 0 then Some (rc, mc\<lparr>mc_top := mc_top mc + 1, mc_snum := mc_snum mc + 1\<rparr>, txn)
                       else sibling_descend txn mc move_right))))"
  by pat_completeness auto
termination
  by (relation "measure (\<lambda>(txn, mc, r). mc_snum mc)") (auto simp: mc_snum_pop)

declare mdb_cursor_sibling.simps [simp del]

text \<open>A lookup does not descend with \<open>MDB_PS_MODIFY\<close>, so its \<open>touch\<close> is never called.\<close>

definition no_touch :: "mdb_cursor \<Rightarrow> mdb_txn \<Rightarrow> cres" where
  "no_touch mc txn = None"

definition mdb_cursor_first :: "mdb_txn \<Rightarrow> mdb_cursor \<Rightarrow> bool \<Rightarrow> bool \<Rightarrow> kvres" where
  "mdb_cursor_first txn mc want_key want_data =
     do { (rc, mc, txn) \<leftarrow>
            (if C_INITIALIZED \<notin> mc_flags mc \<or> mc_top mc \<noteq> 0
             then mdb_page_search no_touch txn mc None {MDB_PS_FIRST} else Some (MDB_SUCCESS, mc, txn));
          if rc \<noteq> 0 then Some (rc, (None, None), mc, txn)
          else
            do { mp \<leftarrow> cur_page txn mc;
                 if \<not> IS_LEAF mp then None
                 else
                   do { leaf \<leftarrow> NODEPTR mp 0;
                        mc \<leftarrow> set_ki (del_flags {C_EOF} (add_flags {C_INITIALIZED} mc)) 0;
                        fetch_node txn mc mp leaf want_key want_data } } }"

definition mdb_cursor_last :: "mdb_txn \<Rightarrow> mdb_cursor \<Rightarrow> bool \<Rightarrow> bool \<Rightarrow> kvres" where
  "mdb_cursor_last txn mc want_key want_data =
     do { (rc, mc, txn) \<leftarrow>
            (if C_INITIALIZED \<notin> mc_flags mc \<or> mc_top mc \<noteq> 0
             then mdb_page_search no_touch txn mc None {MDB_PS_LAST} else Some (MDB_SUCCESS, mc, txn));
          if rc \<noteq> 0 then Some (rc, (None, None), mc, txn)
          else
            do { mp \<leftarrow> cur_page txn mc;
                 if \<not> IS_LEAF mp then None
                 else
                   do { mc \<leftarrow> set_ki mc ((NUMKEYS mp + 65535) mod 65536);
                        let mc = add_flags {C_INITIALIZED, C_EOF} mc;
                        ki \<leftarrow> cur_ki mc;
                        leaf \<leftarrow> NODEPTR mp ki;
                        fetch_node txn mc mp leaf want_key want_data } } }"

text \<open>\<open>op\<close> matters only for \<open>MDB_NEXT_DUP\<close> after a deletion, as there are no duplicates.\<close>

definition mdb_cursor_next :: "mdb_txn \<Rightarrow> mdb_cursor \<Rightarrow> bool \<Rightarrow> bool \<Rightarrow> mdb_cursor_op \<Rightarrow> kvres" where
  "mdb_cursor_next txn mc want_key want_data op =
     (if C_DEL \<in> mc_flags mc \<and> op = MDB_NEXT_DUP then Some (MDB_NOTFOUND, (None, None), mc, txn)
      else if C_INITIALIZED \<notin> mc_flags mc then mdb_cursor_first txn mc want_key want_data
      else
        do { mp \<leftarrow> cur_page txn mc;
             ki \<leftarrow> cur_ki mc;
             if C_EOF \<in> mc_flags mc \<and> NUMKEYS mp \<noteq> 0 \<and> ki \<ge> NUMKEYS mp - 1 then Some (MDB_NOTFOUND, (None, None), mc, txn)
             else
               do { let mc = del_flags {C_EOF} mc;
                    (rc, mc, txn) \<leftarrow>
                      (if C_DEL \<in> mc_flags mc then Some (MDB_SUCCESS, del_flags {C_DEL} mc, txn)
                       else if ki + 1 \<ge> NUMKEYS mp then mdb_cursor_sibling txn mc True
                       else do { mc \<leftarrow> set_ki mc (ki + 1); Some (MDB_SUCCESS, mc, txn) });
                    if rc \<noteq> 0 then Some (rc, (None, None), add_flags {C_EOF} mc, txn)
                    else
                      do { mp \<leftarrow> cur_page txn mc;
                           if \<not> IS_LEAF mp then None
                           else
                             do { ki \<leftarrow> cur_ki mc;
                                  leaf \<leftarrow> NODEPTR mp ki;
                                  fetch_node txn mc mp leaf want_key want_data } } } })"

definition mdb_cursor_prev :: "mdb_txn \<Rightarrow> mdb_cursor \<Rightarrow> bool \<Rightarrow> bool \<Rightarrow> kvres" where
  "mdb_cursor_prev txn mc want_key want_data =
     do { (rc, mc, txn) \<leftarrow>
            (if C_INITIALIZED \<notin> mc_flags mc
             then do { (rc, kv, mc, txn) \<leftarrow> mdb_cursor_last txn mc want_key want_data;
                       if rc \<noteq> 0 then Some (rc, mc, txn)
                       else do { ki \<leftarrow> cur_ki mc; mc \<leftarrow> set_ki mc (ki + 1); Some (MDB_SUCCESS, mc, txn) } }
             else Some (MDB_SUCCESS, mc, txn));
          if rc \<noteq> 0 then Some (rc, (None, None), mc, txn)
          else
            do { let mc = del_flags {C_EOF, C_DEL} mc;
                 ki \<leftarrow> cur_ki mc;
                 (rc, mc, txn) \<leftarrow>
                   (if ki = 0
                    then do { (rc, mc, txn) \<leftarrow> mdb_cursor_sibling txn mc False;
                              if rc \<noteq> 0 then Some (rc, mc, txn)
                              else do { mp \<leftarrow> cur_page txn mc;
                                        mc \<leftarrow> set_ki mc ((NUMKEYS mp + 65535) mod 65536);
                                        Some (MDB_SUCCESS, mc, txn) } }
                    else do { mc \<leftarrow> set_ki mc (ki - 1); Some (MDB_SUCCESS, mc, txn) });
                 if rc \<noteq> 0 then Some (rc, (None, None), mc, txn)
                 else
                   do { mp \<leftarrow> cur_page txn mc;
                        if \<not> IS_LEAF mp then None
                        else
                          do { ki \<leftarrow> cur_ki mc;
                               leaf \<leftarrow> NODEPTR mp ki;
                               fetch_node txn mc mp leaf want_key want_data } } } }"

subsection \<open>Positioning at a key\<close>

text \<open>\<open>mdb_cursor_set\<close> from the label \<open>set1\<close>: the cursor is on the node \<open>leaf\<close> of \<open>mp\<close>.\<close>

definition cursor_set1 :: "mdb_txn \<Rightarrow> mdb_cursor \<Rightarrow> page \<Rightarrow> nat \<Rightarrow> bool \<Rightarrow> mdb_cursor_op \<Rightarrow> kvres" where
  "cursor_set1 txn mc mp leaf want_data op =
     fetch_node txn (del_flags {C_EOF} (add_flags {C_INITIALIZED} mc)) mp leaf
       (op = MDB_SET_RANGE \<or> op = MDB_SET_KEY) want_data"

text \<open>\<open>mdb_cursor_set\<close> from the label \<open>set2\<close>: search the key on the leaf \<open>mp\<close>. \<open>exactp\<close> says that an exact match
  is asked for.\<close>

definition cursor_set2 :: "mdb_txn \<Rightarrow> mdb_cursor \<Rightarrow> page \<Rightarrow> byte list \<Rightarrow> bool \<Rightarrow> mdb_cursor_op \<Rightarrow> bool \<Rightarrow> kvres" where
  "cursor_set2 txn mc mp key want_data op exactp =
     do { (i, exact, found, mc) \<leftarrow> cur_search txn mc mp key;
          if exactp \<and> \<not> exact then Some (MDB_NOTFOUND, (None, None), mc, txn)
          else if \<not> found then
            do { (rc, mc, txn) \<leftarrow> mdb_cursor_sibling txn mc True;
                 if rc \<noteq> 0 then Some (rc, (None, None), add_flags {C_EOF} mc, txn)
                 else
                   do { mp \<leftarrow> cur_page txn mc;
                        if \<not> IS_LEAF mp then None
                        else do { leaf \<leftarrow> NODEPTR mp 0; cursor_set1 txn mc mp leaf want_data op } } }
          else do { leaf \<leftarrow> NODEPTR mp i; cursor_set1 txn mc mp leaf want_data op } }"

definition cursor_set_search :: "mdb_txn \<Rightarrow> mdb_cursor \<Rightarrow> byte list \<Rightarrow> bool \<Rightarrow> mdb_cursor_op \<Rightarrow> bool \<Rightarrow> kvres" where
  "cursor_set_search txn mc key want_data op exactp =
     do { (rc, mc, txn) \<leftarrow> mdb_page_search no_touch txn mc (Some key) {};
          if rc \<noteq> 0 then Some (rc, (None, None), mc, txn)
          else
            do { mp \<leftarrow> cur_page txn mc;
                 if \<not> IS_LEAF mp then None else cursor_set2 txn mc mp key want_data op exactp } }"

text \<open>The comparison of the key with entry \<open>i\<close> of the current page.\<close>

definition cur_cmp_entry :: "mdb_txn \<Rightarrow> mdb_cursor \<Rightarrow> page \<Rightarrow> byte list \<Rightarrow> nat \<Rightarrow> int option" where
  "cur_cmp_entry txn mc mp key i =
     do { cf \<leftarrow> cur_cmp txn mc; db \<leftarrow> cur_db txn mc; e \<leftarrow> entry_key mp (md_pad db) i; run_cmp cf key e }"

text \<open>Whether some page above the top has an entry right of the path.\<close>

fun parents_have_right :: "mdb_txn \<Rightarrow> mdb_cursor \<Rightarrow> nat \<Rightarrow> bool option" where
  "parents_have_right txn mc 0 = Some False"
| "parents_have_right txn mc (Suc n) =
     do { b \<leftarrow> parents_have_right txn mc n;
          if b then Some True
          else do { r \<leftarrow> cur_ref mc n; p \<leftarrow> page_mem txn r; ki \<leftarrow> rd (mc_ki mc) n;
                    Some (NUMKEYS p = 0 \<or> ki < NUMKEYS p - 1) } }"

text \<open>The outcome of the attempt to stay on the current page.\<close>

datatype set_try = Set_done int nat | Set_leaf nat | Set_page | Set_descend

definition cursor_set_try :: "mdb_txn \<Rightarrow> mdb_cursor \<Rightarrow> page \<Rightarrow> byte list \<Rightarrow> mdb_cursor_op \<Rightarrow> bool \<Rightarrow> set_try option" where
  "cursor_set_try txn mc mp key op exactp =
     (if NUMKEYS mp = 0 then Some (Set_done MDB_NOTFOUND 0)
      else
        do { rc \<leftarrow> cur_cmp_entry txn mc mp key 0;
             if rc = 0 then Some (Set_leaf 0)
             else
               do { out \<leftarrow>
                      (if rc > 0 then
                         do { rc2 \<leftarrow> (if NUMKEYS mp > 1 then cur_cmp_entry txn mc mp key (NUMKEYS mp - 1) else Some 1);
                              ki \<leftarrow> cur_ki mc;
                              if rc2 = 0 then Some (Some (Set_leaf (NUMKEYS mp - 1)))
                              else if rc2 < 0 then
                                (if ki < NUMKEYS mp
                                 then do { rc3 \<leftarrow> cur_cmp_entry txn mc mp key ki;
                                           Some (Some (if rc3 = 0 then Set_leaf ki else Set_page)) }
                                 else Some (Some Set_page))
                              else
                                do { b \<leftarrow> parents_have_right txn mc (mc_top mc);
                                     Some (if b then None else Some (Set_done MDB_NOTFOUND (NUMKEYS mp))) } }
                       else Some None);
                    Some (case out of
                            Some r \<Rightarrow> r
                          | None \<Rightarrow>
                              if mc_top mc = 0
                              then (if op = MDB_SET_RANGE \<and> \<not> exactp then Set_leaf 0 else Set_done MDB_NOTFOUND 0)
                              else Set_descend) } })"

definition mdb_cursor_set :: "mdb_txn \<Rightarrow> mdb_cursor \<Rightarrow> byte list \<Rightarrow> bool \<Rightarrow> mdb_cursor_op \<Rightarrow> bool \<Rightarrow> kvres" where
  "mdb_cursor_set txn mc key want_data op exactp =
     (if key = [] then Some (MDB_BAD_VALSIZE, (None, None), mc, txn)
      else if C_INITIALIZED \<in> mc_flags mc then
        do { mp \<leftarrow> cur_page txn mc;
             t \<leftarrow> cursor_set_try txn mc mp key op exactp;
             case t of
               Set_done rc ki \<Rightarrow> do { mc \<leftarrow> set_ki mc ki; Some (rc, (None, None), mc, txn) }
             | Set_leaf ki \<Rightarrow> do { mc \<leftarrow> set_ki mc ki; leaf \<leftarrow> NODEPTR mp ki; cursor_set1 txn mc mp leaf want_data op }
             | Set_page \<Rightarrow> cursor_set2 txn (del_flags {C_EOF} mc) mp key want_data op exactp
             | Set_descend \<Rightarrow> cursor_set_search txn mc key want_data op exactp }
      else
        do { pg \<leftarrow> wr (mc_pg mc) 0 None;
             cursor_set_search txn (mc\<lparr>mc_pg := pg\<rparr>) key want_data op exactp })"

definition mdb_get :: "mdb_txn \<Rightarrow> nat \<Rightarrow> byte list \<Rightarrow> (int \<times> byte list option \<times> mdb_txn) option" where
  "mdb_get txn dbi key =
     (if \<not> (dbi < length (mt_dbflags txn) \<and> DB_USRVALID \<in> mt_dbflags txn ! dbi) then Some (E_INVAL, None, txn)
      else if MDB_TXN_BLOCKED \<inter> mt_flags txn \<noteq> {} then Some (MDB_BAD_TXN, None, txn)
      else
        do { (rc, (k, d), mc, txn) \<leftarrow> mdb_cursor_set txn (mdb_cursor_init dbi) key True MDB_SET True;
             Some (rc, d, txn) })"

text \<open>\<open>MDB_GET_CURRENT\<close>.\<close>

definition cursor_get_current :: "mdb_txn \<Rightarrow> mdb_cursor \<Rightarrow> bool \<Rightarrow> bool \<Rightarrow> kvres" where
  "cursor_get_current txn mc want_key want_data =
     (if C_INITIALIZED \<notin> mc_flags mc then Some (E_INVAL, (None, None), mc, txn)
      else
        do { mp \<leftarrow> cur_page txn mc;
             ki \<leftarrow> cur_ki mc;
             if NUMKEYS mp = 0 \<or> ki \<ge> NUMKEYS mp
             then do { mc \<leftarrow> set_ki mc (NUMKEYS mp); Some (MDB_NOTFOUND, (None, None), mc, txn) }
             else do { leaf \<leftarrow> NODEPTR mp ki; fetch_node txn mc mp leaf want_key want_data } })"

text \<open>\<open>mdb_cursor_get\<close> without duplicates: \<open>key\<close> is the key argument of the \<open>MDB_SET\<close> operations.\<close>

definition cursor_get_op :: "mdb_txn \<Rightarrow> mdb_cursor \<Rightarrow> byte list option \<Rightarrow> bool \<Rightarrow> bool \<Rightarrow> mdb_cursor_op \<Rightarrow> kvres" where
  "cursor_get_op txn mc key want_key want_data op =
     (let fail = (\<lambda>rc. Some (rc, (None, None), mc, txn)) in
      case op of
        MDB_GET_CURRENT \<Rightarrow> cursor_get_current txn mc want_key want_data
      | MDB_GET_BOTH \<Rightarrow> fail (if \<not> want_data then E_INVAL else MDB_INCOMPATIBLE)
      | MDB_GET_BOTH_RANGE \<Rightarrow> fail (if \<not> want_data then E_INVAL else MDB_INCOMPATIBLE)
      | MDB_SET \<Rightarrow> (case key of None \<Rightarrow> fail E_INVAL | Some k \<Rightarrow> mdb_cursor_set txn mc k want_data op True)
      | MDB_SET_KEY \<Rightarrow> (case key of None \<Rightarrow> fail E_INVAL | Some k \<Rightarrow> mdb_cursor_set txn mc k want_data op True)
      | MDB_SET_RANGE \<Rightarrow> (case key of None \<Rightarrow> fail E_INVAL | Some k \<Rightarrow> mdb_cursor_set txn mc k want_data op False)
      | MDB_GET_MULTIPLE \<Rightarrow>
          fail (if \<not> want_data \<or> C_INITIALIZED \<notin> mc_flags mc then E_INVAL else MDB_INCOMPATIBLE)
      | MDB_NEXT_MULTIPLE \<Rightarrow> fail (if \<not> want_data then E_INVAL else MDB_INCOMPATIBLE)
      | MDB_PREV_MULTIPLE \<Rightarrow> fail (if \<not> want_data then E_INVAL else MDB_INCOMPATIBLE)
      | MDB_NEXT \<Rightarrow> mdb_cursor_next txn mc want_key want_data op
      | MDB_NEXT_DUP \<Rightarrow> mdb_cursor_next txn mc want_key want_data op
      | MDB_NEXT_NODUP \<Rightarrow> mdb_cursor_next txn mc want_key want_data op
      | MDB_PREV \<Rightarrow> mdb_cursor_prev txn mc want_key want_data
      | MDB_PREV_DUP \<Rightarrow> mdb_cursor_prev txn mc want_key want_data
      | MDB_PREV_NODUP \<Rightarrow> mdb_cursor_prev txn mc want_key want_data
      | MDB_FIRST \<Rightarrow> mdb_cursor_first txn mc want_key want_data
      | MDB_LAST \<Rightarrow> mdb_cursor_last txn mc want_key want_data
      | MDB_FIRST_DUP \<Rightarrow>
          fail (if \<not> want_data \<or> C_INITIALIZED \<notin> mc_flags mc then E_INVAL else MDB_INCOMPATIBLE)
      | MDB_LAST_DUP \<Rightarrow>
          fail (if \<not> want_data \<or> C_INITIALIZED \<notin> mc_flags mc then E_INVAL else MDB_INCOMPATIBLE))"

definition mdb_cursor_get :: "mdb_txn \<Rightarrow> mdb_cursor \<Rightarrow> byte list option \<Rightarrow> bool \<Rightarrow> bool \<Rightarrow> mdb_cursor_op \<Rightarrow> kvres" where
  "mdb_cursor_get txn mc key want_key want_data op =
     (if MDB_TXN_BLOCKED \<inter> mt_flags txn \<noteq> {} then Some (MDB_BAD_TXN, (None, None), mc, txn)
      else
        do { (rc, kv, mc, txn) \<leftarrow> cursor_get_op txn mc key want_key want_data op;
             Some (rc, kv, del_flags {C_DEL} mc, txn) })"

end
