(* ===== verification/LMDB_Lookup.thy ===== *)
theory LMDB_Lookup
  imports LMDB_Cursor
begin

text \<open>
  Lookups read the tree correctly: on a well-formed B+tree \<open>mdb_get\<close> returns exactly the value stored under the
  key. \<open>tree_at txn lo hi h pgno cs\<close> says that the pages reachable from \<open>pgno\<close> form a tree of height \<open>h\<close> with keys
  from \<open>lo\<close> (inclusive) to \<open>hi\<close> (exclusive), whose leaves hold the nodes \<open>cs\<close> from left to right;
  only a leaf that is the root may be empty.
\<close>

subsection \<open>Well-formed trees\<close>

definition page_at :: "mdb_txn \<Rightarrow> nat \<Rightarrow> page \<Rightarrow> bool" where
  "page_at txn pgno p \<longleftrightarrow> (\<exists>r lvl. mdb_page_get txn pgno = Some (0, r, lvl, txn) \<and> page_mem txn r = Some p)"

definition in_range :: "byte list option \<Rightarrow> byte list option \<Rightarrow> byte list \<Rightarrow> bool" where
  "in_range lo hi k \<longleftrightarrow> (case lo of None \<Rightarrow> True | Some a \<Rightarrow> a \<le> k) \<and> (case hi of None \<Rightarrow> True | Some b \<Rightarrow> k < b)"

text \<open>The bounds of the \<open>i\<close>-th child of a branch page with separator keys \<open>ks\<close>.\<close>

definition child_lo :: "byte list option \<Rightarrow> byte list list \<Rightarrow> nat \<Rightarrow> byte list option" where
  "child_lo lo ks i = (if i = 0 then lo else Some (ks ! i))"

definition child_hi :: "byte list option \<Rightarrow> byte list list \<Rightarrow> nat \<Rightarrow> byte list option" where
  "child_hi hi ks i = (if Suc i < length ks then Some (ks ! Suc i) else hi)"

inductive tree_at ::
    "mdb_txn \<Rightarrow> byte list option \<Rightarrow> byte list option \<Rightarrow> nat \<Rightarrow> nat \<Rightarrow> byte list list \<Rightarrow> bool" for txn where
  leaf: "\<lbrakk>page_at txn pgno p; page_rep p nbs; IS_LEAF p; \<not> IS_BRANCH p; keys_sorted p nbs;
    \<forall>nb \<in> set nbs. in_range lo hi (nb_key nb)\<rbrakk> \<Longrightarrow> tree_at txn lo hi 0 pgno nbs"
| branch: "\<lbrakk>page_at txn pgno p; page_rep p nbs; IS_BRANCH p; \<not> IS_LEAF p; keys_sorted p nbs; 2 \<le> length nbs;
    \<forall>i. 1 \<le> i \<and> i < length nbs \<longrightarrow> in_range lo hi (nb_key (nbs ! i)); length cs = length nbs;
    [] \<notin> set cs;
    \<And>i. i < length nbs \<Longrightarrow>
      tree_at txn (child_lo lo (map nb_key nbs) i) (child_hi hi (map nb_key nbs) i) h (NODEPGNO (hdr_of (nbs ! i))) (cs ! i)\<rbrakk>
   \<Longrightarrow> tree_at txn lo hi (Suc h) pgno (concat cs)"

inductive_cases tree_at_0E: "tree_at txn lo hi 0 pgno cs"
inductive_cases tree_at_SucE: "tree_at txn lo hi (Suc h) pgno cs"

lemma in_range_trans:
  "in_range (Some a) hi k \<Longrightarrow> in_range lo hi' a \<Longrightarrow> in_range lo hi k"
  by (auto simp: in_range_def split: option.splits intro: order.trans)

lemma in_range_lower: "in_range lo hi k \<Longrightarrow> k \<le> k' \<Longrightarrow> in_range None hi k' \<Longrightarrow> in_range lo hi k'"
  by (auto simp: in_range_def split: option.splits intro: order.trans)

lemma tree_at_range:
  "tree_at txn lo hi h pgno cs \<Longrightarrow> nb \<in> set cs \<Longrightarrow> in_range lo hi (nb_key nb)"
proof (induction rule: tree_at.induct)
  case (branch pgno p nbs lo hi cs h)
  then obtain c where "c \<in> set cs" "nb \<in> set c" by auto
  then obtain i where i: "i < length nbs" "nb \<in> set (cs ! i)" using branch.hyps(8) by (metis in_set_conv_nth)
  let ?ks = "map nb_key nbs"
  have r: "in_range (child_lo lo ?ks i) (child_hi hi ?ks i) (nb_key nb)" using branch.IH i by blast
  have sep: "in_range lo hi (?ks ! j)" if "1 \<le> j" "j < length nbs" for j using branch.hyps(7) that by auto
  have lo: "in_range lo None (nb_key nb)"
    using r sep [of i] i(1) by (auto simp: in_range_def child_lo_def split: if_splits option.splits intro: order.trans)
  have "in_range None hi (nb_key nb)"
    using r sep [of "Suc i"] i(1)
    by (auto simp: in_range_def child_hi_def split: if_splits option.splits intro: order.strict_trans)
  then show ?case using lo by (auto simp: in_range_def)
qed blast

subsection \<open>Cursor stacks\<close>

definition cur_wf :: "mdb_cursor \<Rightarrow> bool" where
  "cur_wf mc \<longleftrightarrow> length (mc_pg mc) = CURSOR_STACK \<and> length (mc_ki mc) = CURSOR_STACK \<and>
     mc_snum mc = Suc (mc_top mc) \<and> mc_snum mc \<le> CURSOR_STACK"

lemma set_ki_eq: "cur_wf mc \<Longrightarrow> set_ki mc v = Some (mc\<lparr>mc_ki := (mc_ki mc)[mc_top mc := v]\<rparr>)"
  by (simp add: set_ki_def cur_wf_def mem_simps)

definition pushed :: "mdb_cursor \<Rightarrow> nat \<Rightarrow> pgref \<Rightarrow> mdb_cursor" where
  "pushed mc i r = mc\<lparr>mc_ki := (mc_ki mc)[mc_top mc := i, mc_snum mc := 0], mc_pg := (mc_pg mc)[mc_snum mc := Some r],
     mc_top := mc_snum mc, mc_snum := Suc (mc_snum mc)\<rparr>"

lemma push_eq:
  assumes "cur_wf mc" "mc_snum mc < CURSOR_STACK"
  shows "do { mc \<leftarrow> set_ki mc i; mdb_cursor_push mc txn r } = Some (0, pushed mc i r, txn)"
  using assms by (simp add: set_ki_eq mdb_cursor_push_def set_ki_def mem_simps cur_wf_def pushed_def Let_def rc_defs)

lemma pushed_wf: "cur_wf mc \<Longrightarrow> mc_snum mc < CURSOR_STACK \<Longrightarrow> cur_wf (pushed mc i r)"
  by (simp add: cur_wf_def pushed_def)

lemma cur_page_pushed:
  "cur_wf mc \<Longrightarrow> mc_snum mc < CURSOR_STACK \<Longrightarrow> cur_page txn (pushed mc i r) = page_mem txn r"
  by (simp add: cur_page_def cur_ref_def pushed_def cur_wf_def mem_simps)

lemma pushed_ki: "pushed (mc\<lparr>mc_ki := (mc_ki mc)[mc_top mc := v]\<rparr>) i r = pushed mc i r"
  by (simp add: pushed_def)

subsection \<open>Descending to the leaf of a key\<close>

definition memn_db :: "mdb_txn \<Rightarrow> nat \<Rightarrow> bool" where
  "memn_db txn dbi \<longleftrightarrow> dbi < length (mt_dbs txn) \<and> dbi < length (mt_dbxs txn) \<and> mt_dbxs txn ! dbi = Cmp_memn"

lemma cur_search_memn:
  assumes "memn_db txn (mc_dbi mc)" "cur_wf mc" "page_rep p nbs" "keys_sorted p nbs" "length key < 2 ^ 32"
    "first_entry p < length nbs"
  shows "\<exists>x. cur_search txn mc p key = Some (x, x < length nbs \<and> nb_key (nbs ! x) = key, x < length nbs,
      mc\<lparr>mc_ki := (mc_ki mc)[mc_top mc := x]\<rparr>) \<and> first_entry p \<le> x \<and> x \<le> length nbs \<and>
    (\<forall>k. first_entry p \<le> k \<and> k < x \<longrightarrow> nb_key (nbs ! k) < key) \<and> (\<forall>k. x \<le> k \<and> k < length nbs \<longrightarrow> key \<le> nb_key (nbs ! k))"
proof -
  obtain x where "mdb_node_search Cmp_memn (md_pad (mt_dbs txn ! mc_dbi mc)) p key =
        Some (x, x < length nbs \<and> nb_key (nbs ! x) = key, x < length nbs)"
      "first_entry p \<le> x" "x \<le> length nbs" "\<forall>k. first_entry p \<le> k \<and> k < x \<longrightarrow> nb_key (nbs ! k) < key"
      "\<forall>k. x \<le> k \<and> k < length nbs \<longrightarrow> key \<le> nb_key (nbs ! k)"
    using mdb_node_search_memn [OF assms(3-6)] by blast
  moreover from this have "cur_search txn mc p key = Some (x, x < length nbs \<and> nb_key (nbs ! x) = key, x < length nbs,
      mc\<lparr>mc_ki := (mc_ki mc)[mc_top mc := x]\<rparr>)"
    using assms(1,2) by (simp add: cur_search_def cur_cmp_def cur_db_def memn_db_def mem_simps set_ki_eq)
  ultimately show ?thesis by blast
qed

lemma branch_choice_key:
  assumes db: "memn_db txn (mc_dbi mc)" "cur_wf mc" and p: "page_rep p nbs" "keys_sorted p nbs" "\<not> IS_LEAF p" "2 \<le> length nbs"
    and key: "length key < 2 ^ 32" "in_range lo hi key"
  shows "\<exists>x i. branch_choice txn mc (Some key) {} p = Some (Inl (mc\<lparr>mc_ki := (mc_ki mc)[mc_top mc := x]\<rparr>, i)) \<and>
    i < length nbs \<and> in_range (child_lo lo (map nb_key nbs) i) (child_hi hi (map nb_key nbs) i) key"
proof -
  let ?n = "length nbs"
  have fe: "first_entry p = 1" using p(3) by (simp add: first_entry_def)
  have n: "NUMKEYS p = ?n" using p(1) page_lay_NUMKEYS by (auto simp: page_rep_def)
  obtain x where x: "cur_search txn mc p key = Some (x, x < ?n \<and> nb_key (nbs ! x) = key, x < ?n,
        mc\<lparr>mc_ki := (mc_ki mc)[mc_top mc := x]\<rparr>)" "1 \<le> x" "x \<le> ?n"
      "\<forall>k. 1 \<le> k \<and> k < x \<longrightarrow> nb_key (nbs ! k) < key" "\<forall>k. x \<le> k \<and> k < ?n \<longrightarrow> key \<le> nb_key (nbs ! k)"
    using cur_search_memn [OF db p(1,2) key(1)] fe p(4) by auto
  define i where "i = (if x < ?n \<and> nb_key (nbs ! x) = key then x else x - 1)"
  have ch: "branch_choice txn mc (Some key) {} p = Some (Inl (mc\<lparr>mc_ki := (mc_ki mc)[mc_top mc := x]\<rparr>, i))"
    using x(1-3) n by (auto simp: branch_choice_def i_def)
  have il: "i < ?n" using x(2,3) by (auto simp: i_def)
  have "nb_key (nbs ! i) \<le> key" if "i \<noteq> 0"
    using that x(2,3) x(4) [rule_format, of "x - 1"] by (auto simp: i_def intro: less_imp_le split: if_splits)
  moreover have "key < nb_key (nbs ! Suc i)" if "Suc i < ?n"
  proof (cases "x < ?n \<and> nb_key (nbs ! x) = key")
    case True
    then show ?thesis using that keys_sorted_nth [OF p(2), of x "Suc x"] fe x(2) by (simp add: i_def)
  next
    case False
    then have "Suc i = x" using x(2) by (auto simp: i_def)
    then show ?thesis using False that x(5) by (auto simp: le_less)
  qed
  ultimately have "in_range (child_lo lo (map nb_key nbs) i) (child_hi hi (map nb_key nbs) i) key"
    using key(2) il by (auto simp: in_range_def child_lo_def child_hi_def split: option.splits)
  then show ?thesis using ch il by blast
qed

text \<open>The leaf that a descent for \<open>key\<close> must reach: its nodes are a segment of all the nodes, and what is
  outside is below or above the key.\<close>

definition leaf_for :: "byte list \<Rightarrow> byte list list \<Rightarrow> page \<Rightarrow> byte list list \<Rightarrow> bool" where
  "leaf_for key cs lp nbs \<longleftrightarrow> page_rep lp nbs \<and> IS_LEAF lp \<and> keys_sorted lp nbs \<and>
     (\<exists>pre post. cs = pre @ nbs @ post \<and> (\<forall>nb \<in> set pre. nb_key nb < key) \<and> (\<forall>nb \<in> set post. key < nb_key nb))"

lemma concat_split:
  "i < length cs \<Longrightarrow> concat cs = concat (take i cs) @ cs ! i @ concat (drop (Suc i) cs)"
  by (metis concat.simps(2) concat_append id_take_nth_drop)

text \<open>With \<open>key\<close> in the range of child \<open>i\<close>, the children before it hold smaller keys and those after it larger ones.\<close>

lemma children_around:
  assumes h: "\<And>i. i < length nbs \<Longrightarrow>
      tree_at txn (child_lo lo (map nb_key nbs) i) (child_hi hi (map nb_key nbs) i) h (NODEPGNO (hdr_of (nbs ! i))) (cs ! i)"
    and len: "length cs = length nbs" and sorted: "keys_sorted p nbs" "first_entry p = 1" and i: "i < length nbs"
    and r: "in_range (child_lo lo (map nb_key nbs) i) (child_hi hi (map nb_key nbs) i) key"
  shows "\<forall>nb \<in> set (concat (take i cs)). nb_key nb < key" and "\<forall>nb \<in> set (concat (drop (Suc i) cs)). key < nb_key nb"
proof -
  let ?ks = "map nb_key nbs"
  have lt: "nb_key nb < key" if nb: "nb \<in> set (concat (take i cs))" for nb
  proof -
    obtain c where c: "c \<in> set (take i cs)" "nb \<in> set c" using nb by auto
    then obtain j where "j < length (take i cs)" "take i cs ! j = c" by (metis in_set_conv_nth)
    then have j: "j < i" "nb \<in> set (cs ! j)" using c(2) by auto
    have "in_range (child_lo lo ?ks j) (child_hi hi ?ks j) (nb_key nb)" using tree_at_range [OF h j(2)] j(1) i by simp
    then have a: "nb_key nb < nb_key (nbs ! Suc j)" using j(1) i by (auto simp: in_range_def child_hi_def)
    have b: "nb_key (nbs ! i) \<le> key" using r i j(1) by (auto simp: in_range_def child_lo_def)
    have "nb_key (nbs ! Suc j) \<le> nb_key (nbs ! i)"
      using keys_sorted_nth [OF sorted(1), of "Suc j" i] sorted(2) j(1) i by (cases "Suc j = i") (auto simp: less_imp_le)
    then show ?thesis using a b by (meson order.strict_trans2)
  qed
  have gt: "key < nb_key nb" if nb: "nb \<in> set (concat (drop (Suc i) cs))" for nb
  proof -
    obtain c where c: "c \<in> set (drop (Suc i) cs)" "nb \<in> set c" using nb by auto
    then obtain k where k: "k < length (drop (Suc i) cs)" "drop (Suc i) cs ! k = c" by (metis in_set_conv_nth)
    let ?j = "Suc i + k"
    have j: "?j < length nbs" "nb \<in> set (cs ! ?j)" using k c(2) len by auto
    have "in_range (child_lo lo ?ks ?j) (child_hi hi ?ks ?j) (nb_key nb)" using tree_at_range [OF h j(2)] j(1) by simp
    then have a: "nb_key (nbs ! ?j) \<le> nb_key nb" using j(1) by (simp add: in_range_def child_lo_def)
    have b: "key < nb_key (nbs ! Suc i)" using r j(1) by (simp add: in_range_def child_hi_def)
    have "nb_key (nbs ! Suc i) \<le> nb_key (nbs ! ?j)"
      using keys_sorted_nth [OF sorted(1), of "Suc i" ?j] sorted(2) j(1) by (cases k) (auto simp: less_imp_le)
    then show ?thesis using a b by (meson order.strict_trans1 order.strict_trans2)
  qed
  show "\<forall>nb \<in> set (concat (take i cs)). nb_key nb < key" "\<forall>nb \<in> set (concat (drop (Suc i) cs)). key < nb_key nb"
    using lt gt by auto
qed

text \<open>The nodes of a tree are in key order.\<close>

lemma sorted_concat:
  assumes "\<And>i. i < length cs \<Longrightarrow> sorted_wrt R (cs ! i)"
    and "\<And>i x y. i < length cs \<Longrightarrow> x \<in> set (cs ! i) \<Longrightarrow> y \<in> set (concat (drop (Suc i) cs)) \<Longrightarrow> R x y"
  shows "sorted_wrt R (concat cs)"
  using assms
proof (induction cs)
  case (Cons c cs)
  have "sorted_wrt R (concat cs)"
  proof (rule Cons.IH)
    show "sorted_wrt R (cs ! i)" if "i < length cs" for i using Cons.prems(1) [of "Suc i"] that by simp
    show "R x y" if "i < length cs" "x \<in> set (cs ! i)" "y \<in> set (concat (drop (Suc i) cs))" for i x y
      using Cons.prems(2) [of "Suc i" x y] that by simp
  qed
  then show ?case using Cons.prems(1) [of 0] Cons.prems(2) [of 0] by (simp add: sorted_wrt_append)
qed simp

lemma tree_at_sorted: "tree_at txn lo hi h pgno cs \<Longrightarrow> sorted_wrt (\<lambda>a b. nb_key a < nb_key b) cs"
proof (induction rule: tree_at.induct)
  case (leaf pgno p nbs lo hi)
  then show ?case by (simp add: keys_sorted_def first_entry_def sorted_wrt_map)
next
  case (branch pgno p nbs lo hi cs h)
  have fe: "first_entry p = 1" using branch.hyps(4) by (simp add: first_entry_def)
  show ?case
  proof (rule sorted_concat)
    show "sorted_wrt (\<lambda>a b. nb_key a < nb_key b) (cs ! i)" if "i < length cs" for i using branch.IH that branch.hyps(8) by simp
    show "nb_key x < nb_key y" if "i < length cs" "x \<in> set (cs ! i)" "y \<in> set (concat (drop (Suc i) cs))" for i x y
    proof -
      have i: "i < length nbs" using that(1) branch.hyps(8) by simp
      show ?thesis
        using children_around(2) [OF branch.hyps(10,8,5) fe i tree_at_range [OF branch.hyps(10) [OF i] that(2)]] that(3) by blast
    qed
  qed
qed

lemma leaf_for_child:
  assumes h: "\<And>i. i < length nbs \<Longrightarrow>
      tree_at txn (child_lo lo (map nb_key nbs) i) (child_hi hi (map nb_key nbs) i) h (NODEPGNO (hdr_of (nbs ! i))) (cs ! i)"
    and len: "length cs = length nbs" and sorted: "keys_sorted p nbs" "first_entry p = 1" and i: "i < length nbs"
    and r: "in_range (child_lo lo (map nb_key nbs) i) (child_hi hi (map nb_key nbs) i) key"
    and lf: "leaf_for key (cs ! i) lp lnbs"
  shows "leaf_for key (concat cs) lp lnbs"
proof -
  obtain pre post where pp: "cs ! i = pre @ lnbs @ post" "\<forall>nb \<in> set pre. nb_key nb < key" "\<forall>nb \<in> set post. key < nb_key nb"
    using lf by (auto simp: leaf_for_def)
  note ar = children_around [OF h len sorted i r]
  have "concat cs = (concat (take i cs) @ pre) @ lnbs @ (post @ concat (drop (Suc i) cs))"
    using concat_split [of i cs] i len pp(1) by simp
  moreover have "\<forall>nb \<in> set (concat (take i cs) @ pre). nb_key nb < key" "\<forall>nb \<in> set (post @ concat (drop (Suc i) cs)). key < nb_key nb"
    using ar pp(2,3) by auto
  ultimately show ?thesis using lf unfolding leaf_for_def by blast
qed

lemma page_rep_NODEPGNO:
  assumes "page_rep p nbs" "i < length nbs"
  shows "\<exists>node. NODEPTR p i = Some node \<and> node_hdr p node = Some (hdr_of (nbs ! i))"
proof -
  obtain L where L: "page_lay p L" "map snd L = nbs" using assms(1) by (auto simp: page_rep_def)
  then have i: "i < length L" "snd (L ! i) = nbs ! i" using assms(2) by auto
  show ?thesis using page_lay_nth(4) [OF L(1) i(1)] page_lay_node(1) [OF L(1) i(1)] i(2) by simp
qed

lemma page_search_root_key:
  "tree_at txn lo hi h pgno cs \<Longrightarrow> in_range lo hi key \<Longrightarrow> length key < 2 ^ 32 \<Longrightarrow> page_at txn pgno p \<Longrightarrow>
   memn_db txn (mc_dbi mc) \<Longrightarrow> cur_wf mc \<Longrightarrow> cur_page txn mc = Some p \<Longrightarrow> mc_snum mc + h \<le> CURSOR_STACK \<Longrightarrow>
   \<exists>mc' lp nbs. mdb_page_search_root touch txn mc (Some key) {} p = Some (0, mc', txn) \<and> cur_page txn mc' = Some lp \<and>
     leaf_for key cs lp nbs \<and> cur_wf mc' \<and> mc_dbi mc' = mc_dbi mc"
proof (induction arbitrary: mc p rule: tree_at.induct)
  case (leaf pgno q nbs lo hi)
  have "q = p" using leaf.hyps(1) leaf.prems(3) by (auto simp: page_at_def)
  moreover from this have "leaf_for key nbs p nbs"
    using leaf.hyps by (auto simp: leaf_for_def intro!: exI [of _ "[]"])
  ultimately show ?case using leaf.hyps leaf.prems
    by (subst mdb_page_search_root.simps)
       (auto simp: rc_defs del_flags_def add_flags_def cur_page_def cur_ref_def cur_wf_def)
next
  case (branch pgno q nbs lo hi cs h)
  have qp: "q = p" using branch.hyps(1) branch.prems(3) by (auto simp: page_at_def)
  note prems = branch.prems and hyps = branch.hyps [unfolded qp]
  obtain x i where ch: "branch_choice txn mc (Some key) {} p = Some (Inl (mc\<lparr>mc_ki := (mc_ki mc)[mc_top mc := x]\<rparr>, i))"
      "i < length nbs" "in_range (child_lo lo (map nb_key nbs) i) (child_hi hi (map nb_key nbs) i) key"
    using branch_choice_key [OF prems(4,5) hyps(2,5,4,6) prems(2,1)] by blast
  let ?mc = "mc\<lparr>mc_ki := (mc_ki mc)[mc_top mc := x]\<rparr>" and ?pg = "NODEPGNO (hdr_of (nbs ! i))"
  obtain node where node: "NODEPTR p i = Some node" "node_hdr p node = Some (hdr_of (nbs ! i))"
    using page_rep_NODEPGNO [OF hyps(2) ch(2)] by blast
  have tr: "tree_at txn (child_lo lo (map nb_key nbs) i) (child_hi hi (map nb_key nbs) i) h ?pg (cs ! i)"
    using hyps(10) ch(2) by blast
  then obtain cp where cp: "page_at txn ?pg cp" by (cases) auto
  then obtain r lvl where r: "mdb_page_get txn ?pg = Some (0, r, lvl, txn)" "page_mem txn r = Some cp"
    by (auto simp: page_at_def)
  have n: "NUMKEYS p = length nbs" using hyps(2) page_lay_NUMKEYS by (auto simp: page_rep_def)
  have room: "mc_snum mc < CURSOR_STACK" using prems(7) by simp
  have wf1: "cur_wf ?mc" using prems(5) by (simp add: cur_wf_def)
  have push: "do { mc \<leftarrow> set_ki ?mc i; mdb_cursor_push mc txn r } = Some (0, pushed mc i r, txn)"
    using push_eq [OF wf1] room by (simp add: pushed_ki)
  have cpg: "cur_page txn (pushed mc i r) = Some cp" using cur_page_pushed [OF prems(5) room] r(2) by simp
  have step: "mdb_page_search_root touch txn mc (Some key) {} p =
      mdb_page_search_root touch txn (pushed mc i r) (Some key) {} cp"
    using hyps(3,6) ch(1,2) n node r push cpg
    by (subst mdb_page_search_root.simps) (simp add: rc_defs split_def)
  have "\<exists>mc' lp lnbs. mdb_page_search_root touch txn (pushed mc i r) (Some key) {} cp = Some (0, mc', txn) \<and>
      cur_page txn mc' = Some lp \<and> leaf_for key (cs ! i) lp lnbs \<and> cur_wf mc' \<and> mc_dbi mc' = mc_dbi (pushed mc i r)"
    by (rule branch.IH [OF ch(2) ch(3) prems(2) cp])
       (use prems room pushed_wf cpg in \<open>auto simp: pushed_def cur_page_def\<close>)
  then show ?case using step leaf_for_child [OF hyps(10,8,5) _ ch(2,3)] hyps(4)
    by (fastforce simp: first_entry_def pushed_def)
qed

subsection \<open>Values\<close>

text \<open>The value of a leaf node: its data part, or what the overflow pages it names hold.\<close>

definition node_value :: "mdb_txn \<Rightarrow> byte list \<Rightarrow> byte list option" where
  "node_value txn nb =
     (if \<not> F_ISSET (mn_flags (hdr_of nb)) F_BIGDATA then Some (nb_data nb)
      else do { (rc, r, lvl, txn') \<leftarrow> mdb_page_get txn (le_nat (nb_data nb));
                if rc \<noteq> 0 then None else do { omp \<leftarrow> ref_mem txn r; rdb omp PAGEHDRSZ (NODEDSZ (hdr_of nb)) } })"

definition value_ok :: "mdb_txn \<Rightarrow> byte list \<Rightarrow> bool" where
  "value_ok txn nb \<longleftrightarrow> \<not> F_ISSET (mn_flags (hdr_of nb)) F_DUPDATA \<and> node_value txn nb \<noteq> None"

lemma mdb_page_get_txn: "mdb_page_get txn pgno = Some (0, r, lvl, txn') \<Longrightarrow> txn' = txn"
  by (auto simp: mdb_page_get_def rc_defs split: bind_splits if_splits option.splits)

lemma leaf_node_data:
  assumes lay: "page_lay p L" and i: "i < length L" and leaf: "IS_LEAF p"
  defines "a \<equiv> fst (L ! i)" and "nb \<equiv> snd (L ! i)"
  shows "NODEDATA p a = Some (a + 8 + mn_ksize (hdr_of nb))"
    and "rdb p (a + 8 + mn_ksize (hdr_of nb)) (if F_ISSET (mn_flags (hdr_of nb)) F_BIGDATA then 8 else NODEDSZ (hdr_of nb)) = Some (nb_data nb)"
    and "NODEKEY p a = Some (nb_key nb)"
proof -
  note nd = page_lay_node [OF lay i, folded a_def nb_def]
  have wf: "node_wf True nb" using page_lay_nth(2) [OF lay i] leaf by (cases "L ! i") (simp add: nb_def)
  let ?k = "mn_ksize (hdr_of nb)" and ?d = "if F_ISSET (mn_flags (hdr_of nb)) F_BIGDATA then 8 else NODEDSZ (hdr_of nb)"
  have len: "length nb = 8 + ?k + ?d" using wf by (simp add: node_wf_def node_len_def NODESIZE_def)
  then have b: "a + 8 + ?k + ?d \<le> length p" using nd(4) EVEN_ge [of "length nb"] by linarith
  show "NODEDATA p a = Some (a + 8 + ?k)" using nd(1) by (simp add: NODEDATA_def NODESIZE_def)
  have "bslice p (a + (8 + ?k)) ?d = bslice nb (8 + ?k) ?d"
    using bslice_bslice [of "8 + ?k" ?d "length nb" p a] len nd(6) by simp
  also have "\<dots> = nb_data nb" using len by (simp add: bslice_def nb_data_def)
  finally show "rdb p (a + 8 + ?k) ?d = Some (nb_data nb)" using b by (simp add: mem_simps add.assoc split del: if_split)
  show "NODEKEY p a = Some (nb_key nb)"
    using entry_key_lay [OF lay i, of 0] page_lay_nth(4) [OF lay i] lay by (simp add: entry_key_def page_lay_def a_def nb_def)
qed

lemma fetch_node_leaf:
  assumes rep: "page_rep p nbs" and i: "i < length nbs" and leaf: "IS_LEAF p" and v: "value_ok txn (nbs ! i)"
  shows "\<exists>leaf. NODEPTR p i = Some leaf \<and> fetch_node txn mc p leaf wk wd =
    Some (0, (if wk then Some (nb_key (nbs ! i)) else None, if wd then node_value txn (nbs ! i) else None), mc, txn)"
proof -
  obtain L where L: "page_lay p L" "map snd L = nbs" using rep by (auto simp: page_rep_def)
  have iL: "i < length L" "snd (L ! i) = nbs ! i" using i L(2) by auto
  note d = leaf_node_data [OF L(1) iL(1) leaf, unfolded iL(2)]
  have hdr: "node_hdr p (fst (L ! i)) = Some (hdr_of (nbs ! i))" using page_lay_node(1) [OF L(1) iL(1)] iL(2) by simp
  let ?nb = "nbs ! i"
  have "mdb_node_read txn p (fst (L ! i)) = Some (0, the (node_value txn ?nb), txn)"
  proof (cases "F_ISSET (mn_flags (hdr_of ?nb)) F_BIGDATA")
    case False
    then show ?thesis using d hdr by (simp add: mdb_node_read_def node_value_def rc_defs)
  next
    case True
    then obtain rc r lvl t where g: "mdb_page_get txn (le_nat (nb_data ?nb)) = Some (rc, r, lvl, t)"
      using v by (auto simp: value_ok_def node_value_def split: bind_splits)
    then have rc: "rc = 0" using v True by (auto simp: value_ok_def node_value_def split: if_splits)
    then have t: "t = txn" using mdb_page_get_txn g by blast
    show ?thesis using True g rc t v d hdr
      by (auto simp: mdb_node_read_def node_value_def value_ok_def rc_defs split: bind_splits)
  qed
  then have "fetch_node txn mc p (fst (L ! i)) wk wd =
      Some (0, (if wk then Some (nb_key ?nb) else None, if wd then node_value txn ?nb else None), mc, txn)"
    using v hdr d(3) by (auto simp: fetch_node_def value_ok_def rc_defs)
  then show ?thesis using page_lay_nth(4) [OF L(1) iL(1)] by blast
qed

subsection \<open>Databases as ordered lists of nodes\<close>

definition db_rep :: "mdb_txn \<Rightarrow> nat \<Rightarrow> byte list list \<Rightarrow> bool" where
  "db_rep txn dbi cs \<longleftrightarrow> memn_db txn dbi \<and> (\<forall>nb \<in> set cs. value_ok txn nb) \<and>
     (let root = md_root (mt_dbs txn ! dbi) in
      if root = P_INVALID then cs = [] else 1 < root \<and> (\<exists>h < CURSOR_STACK. tree_at txn None None h root cs))"

definition txn_usable :: "mdb_txn \<Rightarrow> nat \<Rightarrow> bool" where
  "txn_usable txn dbi \<longleftrightarrow> MDB_TXN_BLOCKED \<inter> mt_flags txn = {} \<and>
     dbi < length (mt_dbflags txn) \<and> DB_USRVALID \<in> mt_dbflags txn ! dbi"

definition lookup_node :: "byte list list \<Rightarrow> byte list \<Rightarrow> byte list option" where
  "lookup_node cs key = find (\<lambda>nb. nb_key nb = key) cs"

lemma find_append: "find P (xs @ ys) = (case find P xs of None \<Rightarrow> find P ys | Some x \<Rightarrow> Some x)"
  by (induction xs) auto

lemma lookup_leaf_for:
  assumes "leaf_for key cs lp nbs"
  shows "lookup_node cs key = lookup_node nbs key"
proof -
  obtain pre post where "cs = pre @ nbs @ post" and lt: "\<forall>nb \<in> set pre. nb_key nb < key" and gt: "\<forall>nb \<in> set post. key < nb_key nb"
    using assms by (auto simp: leaf_for_def)
  moreover have "find (\<lambda>nb. nb_key nb = key) pre = None" "find (\<lambda>nb. nb_key nb = key) post = None"
    using lt gt by (auto simp: find_None_iff)
  ultimately show ?thesis by (auto simp: lookup_node_def find_append split: option.splits)
qed

lemma page_search_key:
  assumes db: "db_rep txn dbi cs" "txn_usable txn dbi" and key: "length key < 2 ^ 32"
    and mc: "mc_dbi mc = dbi" "length (mc_pg mc) = CURSOR_STACK" "length (mc_ki mc) = CURSOR_STACK" "mc_pg mc ! 0 = None"
    and root: "md_root (mt_dbs txn ! dbi) \<noteq> P_INVALID"
  shows "\<exists>mc' lp nbs. mdb_page_search touch txn mc (Some key) {} = Some (0, mc', txn) \<and> cur_page txn mc' = Some lp \<and>
    leaf_for key cs lp nbs \<and> cur_wf mc' \<and> mc_dbi mc' = dbi"
proof -
  let ?root = "md_root (mt_dbs txn ! dbi)"
  obtain h where h: "h < CURSOR_STACK" "tree_at txn None None h ?root cs" "1 < ?root" "memn_db txn dbi"
    using db(1) root by (auto simp: db_rep_def Let_def)
  obtain p where p: "page_at txn ?root p" using h(2) by cases auto
  then obtain r lvl where r: "mdb_page_get txn ?root = Some (0, r, lvl, txn)" "page_mem txn r = Some p"
    by (auto simp: page_at_def)
  let ?mc = "mc\<lparr>mc_pg := (mc_pg mc)[0 := Some r], mc_snum := 1, mc_top := 0\<rparr>"
  have wf: "cur_wf ?mc" using mc by (simp add: cur_wf_def CURSOR_STACK_def)
  have pg: "cur_page txn ?mc = Some p" using mc r(2) by (simp add: cur_page_def cur_ref_def mem_simps CURSOR_STACK_def)
  have "mdb_page_search touch txn mc (Some key) {} = mdb_page_search_root touch txn ?mc (Some key) {} p"
    using db(2) h(3,4) root mc r(1) pg
    by (simp add: mdb_page_search_def txn_usable_def cur_db_def memn_db_def mem_simps Let_def rc_defs CURSOR_STACK_def)
  moreover have "\<exists>mc' lp nbs. mdb_page_search_root touch txn ?mc (Some key) {} p = Some (0, mc', txn) \<and>
      cur_page txn mc' = Some lp \<and> leaf_for key cs lp nbs \<and> cur_wf mc' \<and> mc_dbi mc' = mc_dbi ?mc"
    using h mc by (intro page_search_root_key [OF h(2) _ key p _ wf pg]) (auto simp: in_range_def)
  ultimately show ?thesis using mc(1) by auto
qed

lemma lookup_node_search:
  assumes sorted: "keys_sorted p nbs" "first_entry p = 0" and x: "x \<le> length nbs"
    and lt: "\<forall>k. k < x \<longrightarrow> nb_key (nbs ! k) < key" and ge: "\<forall>k. x \<le> k \<and> k < length nbs \<longrightarrow> key \<le> nb_key (nbs ! k)"
  shows "lookup_node nbs key = (if x < length nbs \<and> nb_key (nbs ! x) = key then Some (nbs ! x) else None)"
proof -
  have "lookup_node nbs key = (if \<exists>k < length nbs. nb_key (nbs ! k) = key then Some (nbs ! x) else None) \<and>
      ((\<exists>k < length nbs. nb_key (nbs ! k) = key) \<longleftrightarrow> x < length nbs \<and> nb_key (nbs ! x) = key)"
  proof (cases "\<exists>k < length nbs. nb_key (nbs ! k) = key")
    case True
    then obtain k where k: "k < length nbs" "nb_key (nbs ! k) = key" by blast
    have "k = x"
    proof (rule ccontr)
      assume "k \<noteq> x"
      then consider "k < x" | "x < k" by linarith
      then show False
      proof cases
        case 1
        then show False using lt k(2) by auto
      next
        case 2
        then show False using ge [rule_format, of x] keys_sorted_nth [OF sorted(1), of x k] sorted(2) k by auto
      qed
    qed
    then have "find (\<lambda>nb. nb_key nb = key) nbs = Some (nbs ! x)"
      unfolding find_Some_iff using k lt by (intro exI [of _ x]) auto
    then show ?thesis using True \<open>k = x\<close> k by (auto simp: lookup_node_def)
  next
    case False
    then show ?thesis by (auto simp: lookup_node_def find_None_iff in_set_conv_nth)
  qed
  then show ?thesis by auto
qed

lemma mdb_get_eq:
  assumes db: "db_rep txn dbi cs" "txn_usable txn dbi" and key: "key \<noteq> []" "length key < 2 ^ 32"
  shows "mdb_get txn dbi key =
    Some (case lookup_node cs key of Some nb \<Rightarrow> (0, node_value txn nb, txn) | None \<Rightarrow> (MDB_NOTFOUND, None, txn))"
proof -
  let ?root = "md_root (mt_dbs txn ! dbi)" and ?mc = "mdb_cursor_init dbi"
  have mi: "mc_dbi ?mc = dbi" "length (mc_pg ?mc) = CURSOR_STACK" "length (mc_ki ?mc) = CURSOR_STACK" "mc_pg ?mc ! 0 = None"
      "C_INITIALIZED \<notin> mc_flags ?mc" "(mc_pg ?mc)[0 := None] = mc_pg ?mc"
    by (auto simp: mdb_cursor_init_def CURSOR_STACK_def numeral_eq_Suc)
  have get: "mdb_get txn dbi key =
      do { (rc, (k, d), mc, txn) \<leftarrow> cursor_set_search txn ?mc key True MDB_SET True; Some (rc, d, txn) }"
    using db(2) key(1) mi by (simp add: mdb_get_def txn_usable_def mdb_cursor_set_def mem_simps CURSOR_STACK_def)
  show ?thesis
  proof (cases "?root = P_INVALID")
    case True
    then show ?thesis using get db mi
      by (simp add: cursor_set_search_def mdb_page_search_def txn_usable_def cur_db_def db_rep_def memn_db_def mem_simps
          Let_def rc_defs lookup_node_def)
  next
    case False
    obtain mc' lp nbs where s: "mdb_page_search no_touch txn ?mc (Some key) {} = Some (0, mc', txn)" "cur_page txn mc' = Some lp"
        "leaf_for key cs lp nbs" "cur_wf mc'" "mc_dbi mc' = dbi"
      using page_search_key [OF db key(2) mi(1-4) False, of no_touch] by blast
    have lp: "page_rep lp nbs" "IS_LEAF lp" "keys_sorted lp nbs" "first_entry lp = 0" using s(3) by (auto simp: leaf_for_def first_entry_def)
    have sub: "set nbs \<subseteq> set cs" using s(3) by (auto simp: leaf_for_def)
    have memn: "memn_db txn (mc_dbi mc')" using db(1) s(5) by (simp add: db_rep_def)
    have srch: "cursor_set_search txn ?mc key True MDB_SET True = cursor_set2 txn mc' lp key True MDB_SET True"
      using s lp by (simp add: cursor_set_search_def)
    show ?thesis
    proof (cases "nbs = []")
      case True
      then have "cursor_set2 txn mc' lp key True MDB_SET True =
          Some (MDB_NOTFOUND, (None, None), mc'\<lparr>mc_ki := (mc_ki mc')[mc_top mc' := 0]\<rparr>, txn)"
        using lp memn s(4) mdb_node_search_empty [of lp "md_pad (mt_dbs txn ! dbi)" key] s(5)
        by (simp add: cursor_set2_def cur_search_def cur_cmp_def cur_db_def memn_db_def mem_simps set_ki_eq)
      then show ?thesis using get srch True lookup_leaf_for [OF s(3)] by (simp add: lookup_node_def)
    next
      case False
      obtain x where x: "cur_search txn mc' lp key = Some (x, x < length nbs \<and> nb_key (nbs ! x) = key, x < length nbs,
            mc'\<lparr>mc_ki := (mc_ki mc')[mc_top mc' := x]\<rparr>)" "x \<le> length nbs"
          "\<forall>k. k < x \<longrightarrow> nb_key (nbs ! k) < key" "\<forall>k. x \<le> k \<and> k < length nbs \<longrightarrow> key \<le> nb_key (nbs ! k)"
        using cur_search_memn [OF memn s(4) lp(1,3) key(2)] lp(4) False by auto
      have lk: "lookup_node cs key = (if x < length nbs \<and> nb_key (nbs ! x) = key then Some (nbs ! x) else None)"
        using lookup_leaf_for [OF s(3)] lookup_node_search [OF lp(3,4) x(2-4)] by simp
      show ?thesis
      proof (cases "x < length nbs \<and> nb_key (nbs ! x) = key")
        case True
        then have "nbs ! x \<in> set cs" using sub by auto
        then have v: "value_ok txn (nbs ! x)" using db(1) by (simp add: db_rep_def)
        have "do { leaf \<leftarrow> NODEPTR lp x; fetch_node txn mc lp leaf False True } = Some (0, (None, node_value txn (nbs ! x)), mc, txn)" for mc
          using fetch_node_leaf [OF lp(1) _ lp(2) v, of mc False True] True by auto
        then show ?thesis using True x(1) lk get srch by (simp add: cursor_set2_def cursor_set1_def)
      next
        case False
        then have "cursor_set2 txn mc' lp key True MDB_SET True =
            Some (MDB_NOTFOUND, (None, None), mc'\<lparr>mc_ki := (mc_ki mc')[mc_top mc' := x]\<rparr>, txn)"
          using x(1) by (auto simp: cursor_set2_def)
        then show ?thesis using False lk get srch by auto
      qed
    qed
  qed
qed

end
