(* ===== verification/LMDB_Iterate.thy ===== *)
theory LMDB_Iterate
  imports LMDB_Lookup
begin

text \<open>
  Moving a cursor: the stack of a cursor is a path in the tree, \<open>mdb_cursor_sibling\<close> steps to the neighbouring
  subtree of the same level, and \<open>mdb_cursor_next\<close> visits the nodes of the database in order, once each.
\<close>

subsection \<open>Paths\<close>

text \<open>\<open>path_to txn root h cs mc j k pgno c pre post\<close>: the stack of \<open>mc\<close> up to level \<open>j\<close> is a path from \<open>root\<close> to the
  subtree of height \<open>k\<close> at \<open>pgno\<close> with nodes \<open>c\<close>; \<open>pre\<close> and \<open>post\<close> are the nodes left and right of it.\<close>

inductive path_to ::
    "mdb_txn \<Rightarrow> nat \<Rightarrow> nat \<Rightarrow> byte list list \<Rightarrow> mdb_cursor \<Rightarrow> nat \<Rightarrow> nat \<Rightarrow> nat \<Rightarrow> byte list list \<Rightarrow> byte list list \<Rightarrow>
     byte list list \<Rightarrow> bool" for txn root h cs mc where
  root: "\<lbrakk>tree_at txn None None h root cs; cur_ref mc 0 = Some r; page_mem txn r = Some p; page_at txn root p\<rbrakk>
    \<Longrightarrow> path_to txn root h cs mc 0 h root cs [] []"
| step: "\<lbrakk>path_to txn root h cs mc j (Suc k) pgno (concat cc) pre post;
    cur_ref mc j = Some r; page_mem txn r = Some p; page_at txn pgno p;
    page_rep p nbs; IS_BRANCH p; \<not> IS_LEAF p; length cc = length nbs; [] \<notin> set cc; 2 \<le> length nbs;
    \<forall>i < length nbs. \<exists>lo hi. tree_at txn lo hi k (NODEPGNO (hdr_of (nbs ! i))) (cc ! i);
    mc_ki mc ! j = i; i < length nbs;
    cur_ref mc (Suc j) = Some r'; page_mem txn r' = Some p'; page_at txn (NODEPGNO (hdr_of (nbs ! i))) p'\<rbrakk>
    \<Longrightarrow> path_to txn root h cs mc (Suc j) k (NODEPGNO (hdr_of (nbs ! i))) (cc ! i)
          (pre @ concat (take i cc)) (concat (drop (Suc i) cc) @ post)"

inductive_cases path_to_0E: "path_to txn root h cs mc 0 k pgno c pre post"
inductive_cases path_to_SucE: "path_to txn root h cs mc (Suc j) k pgno c pre post"

lemma path_to_cong:
  "path_to txn root h cs mc j k pgno c pre post \<Longrightarrow> (\<And>i. i \<le> j \<Longrightarrow> cur_ref mc' i = cur_ref mc i) \<Longrightarrow>
     (\<And>i. i < j \<Longrightarrow> mc_ki mc' ! i = mc_ki mc ! i) \<Longrightarrow> path_to txn root h cs mc' j k pgno c pre post"
proof (induction rule: path_to.induct)
  case (root r p)
  then show ?case by (intro path_to.root) auto
next
  case (step j k pgno cc pre post r p nbs i r' p')
  show ?case
    by (rule path_to.step [OF step.IH]) (use step.hyps step.prems in auto)
qed

lemma path_to_nodes:
  "path_to txn root h cs mc j k pgno c pre post \<Longrightarrow> cs = pre @ c @ post"
proof (induction rule: path_to.induct)
  case (step j k pgno cc pre post r p nbs i r' p')
  then show ?case using concat_split [of i cc] by simp
qed simp

lemma path_to_tree:
  "path_to txn root h cs mc j k pgno c pre post \<Longrightarrow>
     (\<exists>lo hi. tree_at txn lo hi k pgno c) \<and> j + k = h \<and> (\<exists>r p. cur_ref mc j = Some r \<and> page_mem txn r = Some p \<and> page_at txn pgno p)"
  by (induction rule: path_to.induct) auto

text \<open>Whatever the bounds, a branch node of a tree has these parts.\<close>

lemma path_to_branch:
  assumes "path_to txn root h cs mc j (Suc k) pgno c pre post"
  shows "\<exists>r p nbs cc. cur_ref mc j = Some r \<and> page_mem txn r = Some p \<and> page_at txn pgno p \<and> page_rep p nbs \<and>
    IS_BRANCH p \<and> \<not> IS_LEAF p \<and> c = concat cc \<and> length cc = length nbs \<and> [] \<notin> set cc \<and> 2 \<le> length nbs \<and>
    (\<forall>i < length nbs. \<exists>lo hi. tree_at txn lo hi k (NODEPGNO (hdr_of (nbs ! i))) (cc ! i))"
proof -
  obtain lo hi r p where t: "tree_at txn lo hi (Suc k) pgno c" and r: "cur_ref mc j = Some r" "page_mem txn r = Some p" "page_at txn pgno p"
    using path_to_tree [OF assms] by blast
  from t show ?thesis
  proof (rule tree_at_SucE)
    fix q nbs cc
    assume q: "page_at txn pgno q" "page_rep q nbs" "IS_BRANCH q" "\<not> IS_LEAF q" "2 \<le> length nbs" "length cc = length nbs"
      "[] \<notin> set cc" "c = concat cc"
      "\<And>i. i < length nbs \<Longrightarrow> tree_at txn (child_lo lo (map nb_key nbs) i) (child_hi hi (map nb_key nbs) i) k (NODEPGNO (hdr_of (nbs ! i))) (cc ! i)"
    have "q = p" using q(1) r(3) by (auto simp: page_at_def)
    then show ?thesis using q r by blast
  qed
qed

lemma page_at_get: "tree_at txn lo hi k pgno c \<Longrightarrow> \<exists>r lvl p. mdb_page_get txn pgno = Some (0, r, lvl, txn) \<and> page_mem txn r = Some p \<and> page_at txn pgno p"
  by (cases rule: tree_at.cases) (auto simp: page_at_def)

subsection \<open>Stepping to a sibling\<close>

text \<open>The last part of \<open>mdb_cursor_sibling\<close>: with the cursor on a branch page, push the child it points to.\<close>

lemma sibling_push:
  assumes path: "path_to txn root h cs mc j (Suc k) pgno c pre post" and wf: "cur_wf mc" "mc_top mc = j" "Suc j < CURSOR_STACK"
    and n: "page_rep p nbs" "cur_page txn mc = Some p" "IS_BRANCH p" and i: "mc_ki mc ! j = i" "i < length nbs"
    and t: "tree_at txn lo hi k (NODEPGNO (hdr_of (nbs ! i))) ci"
  shows "\<exists>r lvl cp. sibling_descend txn mc True = Some (0, pushed mc i r, txn) \<and>
     mdb_page_get txn (NODEPGNO (hdr_of (nbs ! i))) = Some (0, r, lvl, txn) \<and> page_mem txn r = Some cp \<and>
     page_at txn (NODEPGNO (hdr_of (nbs ! i))) cp"
proof -
  obtain r lvl cp where r: "mdb_page_get txn (NODEPGNO (hdr_of (nbs ! i))) = Some (0, r, lvl, txn)" "page_mem txn r = Some cp"
      "page_at txn (NODEPGNO (hdr_of (nbs ! i))) cp"
    using page_at_get [OF t] by blast
  obtain node where node: "NODEPTR p i = Some node" "node_hdr p node = Some (hdr_of (nbs ! i))"
    using page_rep_NODEPGNO [OF n(1) i(2)] by blast
  have ki: "cur_ki mc = Some i" using wf i(1) by (simp add: cur_ki_def cur_wf_def mem_simps)
  have "mc\<lparr>mc_ki := (mc_ki mc)[mc_top mc := i]\<rparr> = mc"
    using wf(2) i(1) list_update_id [of "mc_ki mc" j] by (cases mc) auto
  then have "mdb_cursor_push mc txn r = Some (0, pushed mc i r, txn)"
    using push_eq [OF wf(1), of i txn r] set_ki_eq [OF wf(1), of i] wf by (simp add: cur_wf_def)
  then show ?thesis using n r node ki by (intro exI [of _ r] exI [of _ lvl] exI [of _ cp]) (simp add: sibling_descend_def rc_defs)
qed


lemma cur_ref_pushed:
  "cur_wf mc \<Longrightarrow> i \<le> mc_top mc \<Longrightarrow> cur_ref (pushed mc v r) i = cur_ref mc i"
  by (simp add: cur_ref_def pushed_def rd_def cur_wf_def)

lemma path_to_pushed:
  assumes path: "path_to txn root h cs mc j (Suc k) pgno (concat cc) pre post" and wf: "cur_wf mc" "mc_top mc = j" "Suc j < CURSOR_STACK"
    and p: "cur_ref mc j = Some r0" "page_mem txn r0 = Some p" "page_at txn pgno p" "page_rep p nbs" "IS_BRANCH p" "\<not> IS_LEAF p"
      "length cc = length nbs" "[] \<notin> set cc" "2 \<le> length nbs" "\<forall>i < length nbs. \<exists>lo hi. tree_at txn lo hi k (NODEPGNO (hdr_of (nbs ! i))) (cc ! i)"
    and i: "i < length nbs" and r: "page_mem txn r = Some cp" "page_at txn (NODEPGNO (hdr_of (nbs ! i))) cp"
  shows "path_to txn root h cs (pushed mc i r) (Suc j) k (NODEPGNO (hdr_of (nbs ! i))) (cc ! i)
    (pre @ concat (take i cc)) (concat (drop (Suc i) cc) @ post) \<and> cur_wf (pushed mc i r) \<and> mc_top (pushed mc i r) = Suc j \<and>
    mc_ki (pushed mc i r) ! Suc j = 0 \<and> mc_flags (pushed mc i r) = mc_flags mc \<and> mc_dbi (pushed mc i r) = mc_dbi mc"
proof -
  have snum: "mc_snum mc = Suc j" using wf by (simp add: cur_wf_def)
  have ref: "cur_ref (pushed mc i r) (Suc j) = Some r" "mc_ki (pushed mc i r) ! j = i" "mc_ki (pushed mc i r) ! Suc j = 0"
    using wf snum by (auto simp: cur_ref_def pushed_def rd_def cur_wf_def)
  have p0: "path_to txn root h cs (pushed mc i r) j (Suc k) pgno (concat cc) pre post"
    by (rule path_to_cong [OF path]) (use wf cur_ref_pushed in \<open>auto simp: pushed_def cur_wf_def\<close>)
  have "cur_ref (pushed mc i r) j = Some r0" using cur_ref_pushed [OF wf(1)] wf(2) p(1) by simp
  then have "path_to txn root h cs (pushed mc i r) (Suc j) k (NODEPGNO (hdr_of (nbs ! i))) (cc ! i)
      (pre @ concat (take i cc)) (concat (drop (Suc i) cc) @ post)"
    using path_to.step [OF p0 _ p(2-10) ref(2) i ref(1) r] by simp
  then show ?thesis using ref pushed_wf [OF wf(1)] snum wf by (simp add: pushed_def)
qed

lemma sibling_right:
  "path_to txn root h cs mc j k pgno c pre post \<Longrightarrow> cur_wf mc \<Longrightarrow> mc_top mc = j \<Longrightarrow>
   (post = [] \<and> mdb_cursor_sibling txn mc True = Some (MDB_NOTFOUND, mc, txn)) \<or>
   (\<exists>mc' pgno' c' post'. mdb_cursor_sibling txn mc True = Some (0, mc', txn) \<and>
      path_to txn root h cs mc' j k pgno' c' (pre @ c) post' \<and> post = c' @ post' \<and> c' \<noteq> [] \<and> cur_wf mc' \<and> mc_top mc' = j \<and>
      mc_ki mc' ! j = 0 \<and> mc_flags mc' = mc_flags mc \<and> mc_dbi mc' = mc_dbi mc)"
proof (induction j arbitrary: mc k pgno c pre post)
  case 0
  then have "mc_snum mc < 2" "post = []" by (auto simp: cur_wf_def elim: path_to_0E)
  then show ?case by (simp add: mdb_cursor_sibling.simps)
next
  case (Suc j)
  note wf = Suc.prems(2,3)
  obtain cc pg0 pre0 post0 r0 p nbs i where
      path0: "path_to txn root h cs mc j (Suc k) pg0 (concat cc) pre0 post0" and
      par: "cur_ref mc j = Some r0" "page_mem txn r0 = Some p" "page_at txn pg0 p" "page_rep p nbs" "IS_BRANCH p" "\<not> IS_LEAF p"
        "length cc = length nbs" "[] \<notin> set cc" "2 \<le> length nbs"
        "\<forall>i < length nbs. \<exists>lo hi. tree_at txn lo hi k (NODEPGNO (hdr_of (nbs ! i))) (cc ! i)" and
      i: "mc_ki mc ! j = i" "i < length nbs" and
      eq: "c = cc ! i" "pre = pre0 @ concat (take i cc)" "post = concat (drop (Suc i) cc) @ post0"
    using Suc.prems(1) by (rule path_to_SucE) blast
  let ?m = "mc\<lparr>mc_snum := Suc j, mc_top := j\<rparr>"
  have pop: "mdb_cursor_pop mc = ?m" using wf by (simp add: mdb_cursor_pop_def cur_wf_def Let_def)
  have unpop: "?m\<lparr>mc_top := Suc (mc_top ?m), mc_snum := Suc (mc_snum ?m)\<rparr> = mc" using wf by (cases mc) (simp add: cur_wf_def)
  have wfm: "cur_wf ?m" "mc_top ?m = j" "Suc j < CURSOR_STACK" using wf by (auto simp: cur_wf_def)
  have refm: "cur_ref ?m n = cur_ref mc n" for n by (simp add: cur_ref_def)
  have pathm: "path_to txn root h cs ?m j (Suc k) pg0 (concat cc) pre0 post0"
    by (rule path_to_cong [OF path0]) (auto simp: cur_ref_def)
  have pgm: "cur_page txn ?m = Some p" "cur_ki ?m = Some i"
    using par(1,2) i wfm by (auto simp: cur_page_def cur_ref_def cur_ki_def cur_wf_def mem_simps)
  have n: "NUMKEYS p = length nbs" using par(4) page_lay_NUMKEYS by (auto simp: page_rep_def)
  have snum: "\<not> mc_snum mc < 2" using wf by (simp add: cur_wf_def)
  show ?case
  proof (cases "i + 1 \<ge> length nbs")
    case False
    let ?m1 = "?m\<lparr>mc_ki := (mc_ki mc)[j := Suc i]\<rparr>"
    have wf1: "cur_wf ?m1" "mc_top ?m1 = j" using wfm by (auto simp: cur_wf_def)
    have path1: "path_to txn root h cs ?m1 j (Suc k) pg0 (concat cc) pre0 post0"
      by (rule path_to_cong [OF path0]) (auto simp: cur_ref_def)
    have i1: "mc_ki ?m1 ! j = Suc i" "Suc i < length nbs" using wf False by (auto simp: cur_wf_def)
    obtain lo hi where t: "tree_at txn lo hi k (NODEPGNO (hdr_of (nbs ! Suc i))) (cc ! Suc i)" using par(10) i1(2) by blast
    have pg1: "cur_page txn ?m1 = Some p" "cur_ref ?m1 j = Some r0" using pgm par(1) by (auto simp: cur_page_def cur_ref_def)
    obtain r lvl cp where sp: "sibling_descend txn ?m1 True = Some (0, pushed ?m1 (Suc i) r, txn)"
        "page_mem txn r = Some cp" "page_at txn (NODEPGNO (hdr_of (nbs ! Suc i))) cp"
      using sibling_push [OF path1 wf1 wfm(3) par(4) pg1(1) par(5) i1 t] by blast
    have sib: "mdb_cursor_sibling txn mc True = Some (0, pushed ?m1 (Suc i) r, txn)"
      using snum pgm n False sp(1) set_ki_eq [OF wfm(1)]
      by (subst mdb_cursor_sibling.simps) (simp add: pop Let_def rc_defs)
    note np = path_to_pushed [OF path1 wf1 wfm(3) pg1(2) par(2-10) i1(2) sp(2,3)]
    have "pre0 @ concat (take (Suc i) cc) = pre @ c" using i(2) par(7) eq by (simp add: take_Suc_conv_app_nth)
    moreover have "post = cc ! Suc i @ concat (drop (Suc (Suc i)) cc) @ post0"
      using i1(2) par(7) eq by (simp add: Cons_nth_drop_Suc [symmetric])
    moreover have "cc ! Suc i \<noteq> []" using par(7,8) i1(2) by (metis nth_mem)
    ultimately show ?thesis using sib np by (intro disjI2) (auto simp: pushed_def)
  next
    case True
    then have last: "Suc i = length cc" using i(2) par(7) by simp
    have cceq: "pre @ c = pre0 @ concat cc" "post = post0" using eq last concat_split [of i cc] by auto
    from Suc.IH [OF pathm wfm(1,2)] show ?thesis
    proof (elim disjE conjE exE)
      assume a: "post0 = []" "mdb_cursor_sibling txn ?m True = Some (MDB_NOTFOUND, ?m, txn)"
      have "mdb_cursor_sibling txn mc True = Some (MDB_NOTFOUND, mc, txn)"
        using snum pgm n True a(2) unpop
        by (subst mdb_cursor_sibling.simps) (simp add: pop Let_def rc_defs)
      then show ?thesis using a cceq by blast
    next
      fix m1 pg1 c1 post1
      assume b: "mdb_cursor_sibling txn ?m True = Some (0, m1, txn)" "path_to txn root h cs m1 j (Suc k) pg1 c1 (pre0 @ concat cc) post1"
        "post0 = c1 @ post1" "c1 \<noteq> []" "cur_wf m1" "mc_top m1 = j" "mc_ki m1 ! j = 0" "mc_flags m1 = mc_flags ?m" "mc_dbi m1 = mc_dbi ?m"
      obtain r1 p1 nbs1 cc1 where br: "cur_ref m1 j = Some r1" "page_mem txn r1 = Some p1" "page_at txn pg1 p1" "page_rep p1 nbs1"
          "IS_BRANCH p1" "\<not> IS_LEAF p1" "length cc1 = length nbs1" "[] \<notin> set cc1" "2 \<le> length nbs1"
          "\<forall>i < length nbs1. \<exists>lo hi. tree_at txn lo hi k (NODEPGNO (hdr_of (nbs1 ! i))) (cc1 ! i)" and c1: "c1 = concat cc1"
        using path_to_branch [OF b(2)] by blast
      have z: "0 < length nbs1" using br(9) by linarith
      obtain lo hi where t: "tree_at txn lo hi k (NODEPGNO (hdr_of (nbs1 ! 0))) (cc1 ! 0)" using br(10) z by blast
      have pgm1: "cur_page txn m1 = Some p1" using br(1,2) b(6) by (simp add: cur_page_def)
      obtain r lvl cp where sp: "sibling_descend txn m1 True = Some (0, pushed m1 0 r, txn)"
          "page_mem txn r = Some cp" "page_at txn (NODEPGNO (hdr_of (nbs1 ! 0))) cp"
        using sibling_push [OF b(2,5,6) wfm(3) br(4) pgm1 br(5) b(7) z t] by blast
      have sib: "mdb_cursor_sibling txn mc True = Some (0, pushed m1 0 r, txn)"
        using snum pgm n True b(1) sp(1)
        by (subst mdb_cursor_sibling.simps) (simp add: pop Let_def rc_defs)
      note np = path_to_pushed [OF b(2) [unfolded c1] b(5,6) wfm(3) br z sp(2,3)]
      have "cc1 ! 0 \<noteq> []" using br(7,8) z by (metis nth_mem)
      moreover have "post = cc1 ! 0 @ concat (drop (Suc 0) cc1) @ post1"
        using cceq(2) b(3) c1 z br(7) concat_split [of 0 cc1] by simp
      ultimately show ?thesis using sib np b(8,9) cceq(1)
        by (intro disjI2 exI [of _ "pushed m1 0 r"] exI [of _ "NODEPGNO (hdr_of (nbs1 ! 0))"] exI [of _ "cc1 ! 0"]
            exI [of _ "concat (drop (Suc 0) cc1) @ post1"]) simp
    qed
  qed
qed

subsection \<open>Descending keeps the path\<close>

text \<open>What all descents share: how \<open>mdb_page_search_root\<close> goes on below a branch page once the child is chosen.\<close>

lemma page_search_root_step:
  assumes br: "page_rep p nbs" "IS_BRANCH p" "2 \<le> length nbs" and fl: "MDB_PS_MODIFY \<notin> flags"
    and ch: "branch_choice txn mc key flags p = Some (Inl (mc\<lparr>mc_ki := (mc_ki mc)[mc_top mc := x]\<rparr>, i))" "i < length nbs"
    and wf: "cur_wf mc" "mc_snum mc < CURSOR_STACK"
    and g: "mdb_page_get txn (NODEPGNO (hdr_of (nbs ! i))) = Some (0, r, lvl, txn)" "page_mem txn r = Some cp"
  shows "mdb_page_search_root touch txn mc key flags p = mdb_page_search_root touch txn (pushed mc i r) key flags cp"
proof -
  let ?mc = "mc\<lparr>mc_ki := (mc_ki mc)[mc_top mc := x]\<rparr>"
  obtain node where node: "NODEPTR p i = Some node" "node_hdr p node = Some (hdr_of (nbs ! i))"
    using page_rep_NODEPGNO [OF br(1) ch(2)] by blast
  have n: "NUMKEYS p = length nbs" using br(1) page_lay_NUMKEYS by (auto simp: page_rep_def)
  have "do { mc \<leftarrow> set_ki ?mc i; mdb_cursor_push mc txn r } = Some (0, pushed mc i r, txn)"
    using push_eq [of ?mc i txn r] wf by (simp add: pushed_ki cur_wf_def)
  moreover have "cur_page txn (pushed mc i r) = Some cp" using cur_page_pushed [OF wf] g(2) by simp
  ultimately show ?thesis using br ch n node g fl
    by (subst mdb_page_search_root.simps) (simp add: rc_defs split_def)
qed

lemma branch_choice_first:
  assumes "cur_wf mc"
  shows "branch_choice txn mc None {MDB_PS_FIRST} p =
    Some (Inl (mc\<lparr>mc_ki := (mc_ki mc)[mc_top mc := mc_ki mc ! mc_top mc]\<rparr>, 0))"
  by (cases mc) (simp add: branch_choice_def)

definition leaf_cursor :: "mdb_txn \<Rightarrow> mdb_cursor \<Rightarrow> mdb_cursor" where
  "leaf_cursor txn mc = del_flags {C_EOF} (add_flags {C_INITIALIZED} mc)"

lemma leaf_cursor_simps [simp]:
  "mc_pg (leaf_cursor txn mc) = mc_pg mc" "mc_ki (leaf_cursor txn mc) = mc_ki mc" "mc_top (leaf_cursor txn mc) = mc_top mc"
  "mc_snum (leaf_cursor txn mc) = mc_snum mc" "mc_dbi (leaf_cursor txn mc) = mc_dbi mc"
  "mc_flags (leaf_cursor txn mc) = insert C_INITIALIZED (mc_flags mc) - {C_EOF}"
  by (auto simp: leaf_cursor_def del_flags_def add_flags_def)

lemma cur_ref_leaf_cursor [simp]: "cur_ref (leaf_cursor txn mc) i = cur_ref mc i"
  by (simp add: cur_ref_def)

lemma page_search_root_leaf:
  assumes "IS_LEAF p" "\<not> IS_BRANCH p"
  shows "mdb_page_search_root touch txn mc key flags p = Some (0, leaf_cursor txn mc, txn)"
  using assms by (subst mdb_page_search_root.simps) (simp add: rc_defs leaf_cursor_def)

lemma tree_at_leaf_page:
  assumes "tree_at txn lo hi 0 pgno c" "page_at txn pgno p"
  shows "page_rep p c" "IS_LEAF p" "\<not> IS_BRANCH p" "keys_sorted p c"
  using assms by (auto elim!: tree_at_0E simp: page_at_def)

text \<open>The first leaf.\<close>

lemma page_search_root_first:
  "path_to txn root h cs mc j k pgno c pre post \<Longrightarrow> cur_wf mc \<Longrightarrow> mc_top mc = j \<Longrightarrow> cur_page txn mc = Some p \<Longrightarrow>
   j + k < CURSOR_STACK \<Longrightarrow>
   \<exists>mc' pg' c' post'. mdb_page_search_root touch txn mc None {MDB_PS_FIRST} p = Some (0, mc', txn) \<and>
     path_to txn root h cs mc' (j + k) 0 pg' c' pre post' \<and> c @ post = c' @ post' \<and> (c \<noteq> [] \<longrightarrow> c' \<noteq> []) \<and> cur_wf mc' \<and>
     mc_top mc' = j + k \<and> mc_flags mc' = insert C_INITIALIZED (mc_flags mc) - {C_EOF} \<and> mc_dbi mc' = mc_dbi mc"
proof (induction k arbitrary: mc j pgno c pre post p)
  case 0
  obtain lo hi r where t: "tree_at txn lo hi 0 pgno c" "cur_ref mc j = Some r" "page_mem txn r = Some p" "page_at txn pgno p"
    using path_to_tree [OF 0(1)] 0(3,4) by (auto simp: cur_page_def)
  note lf = tree_at_leaf_page [OF t(1,4)]
  have "path_to txn root h cs (leaf_cursor txn mc) j 0 pgno c pre post"
    by (rule path_to_cong [OF 0(1)]) auto
  then show ?case using page_search_root_leaf [OF lf(2,3), of touch txn mc None "{MDB_PS_FIRST}"] 0(2,3)
    by (intro exI [of _ "leaf_cursor txn mc"] exI [of _ pgno] exI [of _ c] exI [of _ post]) (simp add: cur_wf_def)
next
  case (Suc k)
  obtain r p1 nbs cc where br: "cur_ref mc j = Some r" "page_mem txn r = Some p1" "page_at txn pgno p1" "page_rep p1 nbs"
      "IS_BRANCH p1" "\<not> IS_LEAF p1" "length cc = length nbs" "[] \<notin> set cc" "2 \<le> length nbs"
      "\<forall>i < length nbs. \<exists>lo hi. tree_at txn lo hi k (NODEPGNO (hdr_of (nbs ! i))) (cc ! i)" and c: "c = concat cc"
    using path_to_branch [OF Suc.prems(1)] by blast
  have p1: "p1 = p" using br(1,2) Suc.prems(3,4) by (simp add: cur_page_def)
  have z: "0 < length nbs" "Suc j < CURSOR_STACK" "mc_snum mc < CURSOR_STACK"
    using br(9) Suc.prems(2,3,5) by (auto simp: cur_wf_def) 
  obtain lo hi where t: "tree_at txn lo hi k (NODEPGNO (hdr_of (nbs ! 0))) (cc ! 0)" using br(10) z by blast
  obtain r1 lvl cp where g: "mdb_page_get txn (NODEPGNO (hdr_of (nbs ! 0))) = Some (0, r1, lvl, txn)" "page_mem txn r1 = Some cp"
      "page_at txn (NODEPGNO (hdr_of (nbs ! 0))) cp"
    using page_at_get [OF t] by blast
  have step: "mdb_page_search_root touch txn mc None {MDB_PS_FIRST} p =
      mdb_page_search_root touch txn (pushed mc 0 r1) None {MDB_PS_FIRST} cp"
    using page_search_root_step [OF br(4,5,9) _ branch_choice_first [OF Suc.prems(2)] z(1) Suc.prems(2) z(3) g(1,2)] p1 by simp
  note np = path_to_pushed [OF Suc.prems(1) [unfolded c] Suc.prems(2,3) z(2) br z(1) g(2,3)]
  have "\<exists>mc' pg' c' post'. mdb_page_search_root touch txn (pushed mc 0 r1) None {MDB_PS_FIRST} cp = Some (0, mc', txn) \<and>
     path_to txn root h cs mc' (Suc j + k) 0 pg' c' (pre @ concat (take 0 cc)) post' \<and>
     cc ! 0 @ concat (drop (Suc 0) cc) @ post = c' @ post' \<and> (cc ! 0 \<noteq> [] \<longrightarrow> c' \<noteq> []) \<and> cur_wf mc' \<and>
     mc_top mc' = Suc j + k \<and> mc_flags mc' = insert C_INITIALIZED (mc_flags (pushed mc 0 r1)) - {C_EOF} \<and> mc_dbi mc' = mc_dbi (pushed mc 0 r1)"
    by (rule Suc.IH) (use np Suc.prems z cur_page_pushed g in \<open>auto\<close>)
  moreover have "c @ post = cc ! 0 @ concat (drop (Suc 0) cc) @ post" using c z(1) br(7) concat_split [of 0 cc] by simp
  moreover have "cc ! 0 \<noteq> []" using br(7,8) z(1) by (metis nth_mem)
  ultimately show ?case using step by (auto simp: pushed_def)
qed

text \<open>The leaf of a key.\<close>

lemma page_search_root_path:
  "tree_at txn lo hi k pgno c \<Longrightarrow> path_to txn root h cs mc j k pgno c pre post \<Longrightarrow> in_range lo hi key \<Longrightarrow> length key < 2 ^ 32 \<Longrightarrow>
   memn_db txn (mc_dbi mc) \<Longrightarrow> cur_wf mc \<Longrightarrow> mc_top mc = j \<Longrightarrow> cur_page txn mc = Some p \<Longrightarrow> j + k < CURSOR_STACK \<Longrightarrow>
   \<exists>mc' pg' c' a b. mdb_page_search_root touch txn mc (Some key) {} p = Some (0, mc', txn) \<and>
     path_to txn root h cs mc' (j + k) 0 pg' c' (pre @ a) (b @ post) \<and> c = a @ c' @ b \<and>
     (\<forall>nb \<in> set a. nb_key nb < key) \<and> (\<forall>nb \<in> set b. key < nb_key nb) \<and> cur_wf mc' \<and>
     mc_top mc' = j + k \<and> mc_flags mc' = insert C_INITIALIZED (mc_flags mc) - {C_EOF} \<and> mc_dbi mc' = mc_dbi mc"
proof (induction arbitrary: mc j pre post p rule: tree_at.induct)
  case (leaf pgno q nbs lo hi)
  obtain r where "cur_ref mc j = Some r" "page_mem txn r = Some p" "page_at txn pgno p"
    using path_to_tree [OF leaf.prems(1)] leaf.prems(6,7) by (auto simp: cur_page_def)
  then have qp: "q = p" using leaf.hyps(1) by (auto simp: page_at_def)
  have "path_to txn root h cs (leaf_cursor txn mc) j 0 pgno nbs (pre @ []) ([] @ post)"
    using path_to_cong [OF leaf.prems(1), of "leaf_cursor txn mc"] by simp
  then show ?case using page_search_root_leaf [of p touch txn mc "Some key" "{}"] leaf.hyps(3,4) leaf.prems qp
    by (intro exI [of _ "leaf_cursor txn mc"] exI [of _ pgno] exI [of _ nbs] exI [of _ "[]"]) (simp add: cur_wf_def)
next
  case (branch pgno q nbs lo hi cc k)
  note prems = branch.prems
  obtain r where rr: "cur_ref mc j = Some r" "page_mem txn r = Some p" "page_at txn pgno p"
    using path_to_tree [OF prems(1)] prems(6,7) by (auto simp: cur_page_def)
  then have qp: "q = p" using branch.hyps(1) by (auto simp: page_at_def)
  note hyps = branch.hyps [unfolded qp]
  obtain x i where ch: "branch_choice txn mc (Some key) {} p = Some (Inl (mc\<lparr>mc_ki := (mc_ki mc)[mc_top mc := x]\<rparr>, i))"
      "i < length nbs" "in_range (child_lo lo (map nb_key nbs) i) (child_hi hi (map nb_key nbs) i) key"
    using branch_choice_key [OF prems(4,5) hyps(2,5,4,6) prems(3,2)] by blast
  let ?pg = "NODEPGNO (hdr_of (nbs ! i))"
  have tr: "\<forall>i < length nbs. \<exists>lo hi. tree_at txn lo hi k (NODEPGNO (hdr_of (nbs ! i))) (cc ! i)" using hyps(10) by blast
  obtain r1 lvl cp where g: "mdb_page_get txn ?pg = Some (0, r1, lvl, txn)" "page_mem txn r1 = Some cp" "page_at txn ?pg cp"
    using page_at_get [OF hyps(10) [OF ch(2)]] by blast
  have z: "Suc j < CURSOR_STACK" "mc_snum mc < CURSOR_STACK" using prems(5,6,8) by (auto simp: cur_wf_def)
  have step: "mdb_page_search_root touch txn mc (Some key) {} p = mdb_page_search_root touch txn (pushed mc i r1) (Some key) {} cp"
    using page_search_root_step [OF hyps(2,3,6) _ ch(1,2) prems(5) z(2) g(1,2)] by simp
  note np = path_to_pushed [OF prems(1,5,6) z(1) rr hyps(2-4,8,9,6) tr ch(2) g(2,3)]
  have "\<exists>mc' pg' c' a b. mdb_page_search_root touch txn (pushed mc i r1) (Some key) {} cp = Some (0, mc', txn) \<and>
     path_to txn root h cs mc' (Suc j + k) 0 pg' c' ((pre @ concat (take i cc)) @ a) (b @ concat (drop (Suc i) cc) @ post) \<and>
     cc ! i = a @ c' @ b \<and> (\<forall>nb \<in> set a. nb_key nb < key) \<and> (\<forall>nb \<in> set b. key < nb_key nb) \<and> cur_wf mc' \<and>
     mc_top mc' = Suc j + k \<and> mc_flags mc' = insert C_INITIALIZED (mc_flags (pushed mc i r1)) - {C_EOF} \<and>
     mc_dbi mc' = mc_dbi (pushed mc i r1)"
    by (rule branch.IH [OF ch(2) _ ch(3) prems(3)]) (use np prems z cur_page_pushed [OF prems(5) z(2)] g in \<open>auto\<close>)
  then obtain mc' pg' c' a b where res: "mdb_page_search_root touch txn (pushed mc i r1) (Some key) {} cp = Some (0, mc', txn)"
      "path_to txn root h cs mc' (Suc j + k) 0 pg' c' ((pre @ concat (take i cc)) @ a) (b @ concat (drop (Suc i) cc) @ post)"
      "cc ! i = a @ c' @ b" "\<forall>nb \<in> set a. nb_key nb < key" "\<forall>nb \<in> set b. key < nb_key nb" "cur_wf mc'"
      "mc_top mc' = Suc j + k" "mc_flags mc' = insert C_INITIALIZED (mc_flags (pushed mc i r1)) - {C_EOF}"
      "mc_dbi mc' = mc_dbi (pushed mc i r1)"
    by (elim exE conjE) (rule that)
  have fe: "first_entry p = 1" using hyps(4) by (simp add: first_entry_def)
  note ar = children_around [OF hyps(10,8,5) fe ch(2,3)]
  have cat: "concat cc = (concat (take i cc) @ a) @ c' @ (b @ concat (drop (Suc i) cc))"
    using concat_split [of i cc] ch(2) hyps(8) res(3) by simp
  show ?case
    by (rule exI [of _ mc'], rule exI [of _ pg'], rule exI [of _ c'], rule exI [of _ "concat (take i cc) @ a"],
        rule exI [of _ "b @ concat (drop (Suc i) cc)"]) (use step res cat ar in \<open>auto simp: pushed_def\<close>)
qed

subsection \<open>A cursor on a node\<close>

text \<open>\<open>cursor_on txn cs mc i\<close>: the stack of \<open>mc\<close> is a path from the root of its database to the \<open>i\<close>-th of the nodes
  \<open>cs\<close>; \<open>C_EOF\<close> may be set on the last leaf only.\<close>

definition cursor_path :: "mdb_txn \<Rightarrow> byte list list \<Rightarrow> mdb_cursor \<Rightarrow> byte list list \<Rightarrow> byte list list \<Rightarrow> byte list list \<Rightarrow> bool" where
  "cursor_path txn cs mc c pre post \<longleftrightarrow> cur_wf mc \<and>
     (\<exists>h pg. path_to txn (md_root (mt_dbs txn ! mc_dbi mc)) h cs mc (mc_top mc) 0 pg c pre post)"

definition cursor_on :: "mdb_txn \<Rightarrow> byte list list \<Rightarrow> mdb_cursor \<Rightarrow> nat \<Rightarrow> bool" where
  "cursor_on txn cs mc i \<longleftrightarrow> (\<exists>c pre post. cursor_path txn cs mc c pre post \<and> mc_ki mc ! mc_top mc < length c \<and>
     i = length pre + mc_ki mc ! mc_top mc \<and> C_INITIALIZED \<in> mc_flags mc \<and> C_DEL \<notin> mc_flags mc \<and>
     (C_EOF \<in> mc_flags mc \<longrightarrow> post = []))"

lemma cursor_path_leaf:
  assumes "cursor_path txn cs mc c pre post"
  shows "\<exists>p. cur_page txn mc = Some p \<and> page_rep p c \<and> IS_LEAF p \<and> \<not> IS_BRANCH p \<and> keys_sorted p c \<and> NUMKEYS p = length c"
proof -
  obtain h pg where "path_to txn (md_root (mt_dbs txn ! mc_dbi mc)) h cs mc (mc_top mc) 0 pg c pre post"
    using assms by (auto simp: cursor_path_def)
  then obtain lo hi r p where t: "tree_at txn lo hi 0 pg c" "cur_ref mc (mc_top mc) = Some r" "page_mem txn r = Some p" "page_at txn pg p"
    using path_to_tree by blast
  moreover have "NUMKEYS p = length c" using tree_at_leaf_page(1) [OF t(1,4)] page_lay_NUMKEYS by (auto simp: page_rep_def)
  ultimately show ?thesis using tree_at_leaf_page [OF t(1,4)] by (simp add: cur_page_def)
qed

lemma cursor_path_nodes: "cursor_path txn cs mc c pre post \<Longrightarrow> cs = pre @ c @ post"
  using path_to_nodes by (auto simp: cursor_path_def)

lemma cursor_path_cong:
  assumes "cursor_path txn cs mc c pre post" "mc_pg mc' = mc_pg mc" "mc_top mc' = mc_top mc" "mc_snum mc' = mc_snum mc" "mc_dbi mc' = mc_dbi mc"
    "length (mc_ki mc') = length (mc_ki mc)" "\<And>i. i < mc_top mc \<Longrightarrow> mc_ki mc' ! i = mc_ki mc ! i"
  shows "cursor_path txn cs mc' c pre post"
proof -
  obtain h pg where p: "path_to txn (md_root (mt_dbs txn ! mc_dbi mc)) h cs mc (mc_top mc) 0 pg c pre post"
    using assms(1) by (auto simp: cursor_path_def)
  have "path_to txn (md_root (mt_dbs txn ! mc_dbi mc)) h cs mc' (mc_top mc) 0 pg c pre post"
    by (rule path_to_cong [OF p]) (use assms in \<open>auto simp: cur_ref_def\<close>)
  then show ?thesis using assms by (auto simp: cursor_path_def cur_wf_def)
qed

lemma cursor_on_bound: "cursor_on txn cs mc i \<Longrightarrow> i < length cs"
  by (auto simp: cursor_on_def dest: cursor_path_nodes)

text \<open>Reading the node under the cursor.\<close>

lemma cursor_path_fetch:
  assumes "cursor_path txn cs mc c pre post" "\<forall>nb \<in> set cs. value_ok txn nb" "k < length c" "cur_page txn mc = Some p"
  shows "\<exists>leaf. NODEPTR p k = Some leaf \<and> fetch_node txn mc' p leaf wk wd =
     Some (0, (if wk then Some (nb_key (cs ! (length pre + k))) else None,
               if wd then node_value txn (cs ! (length pre + k)) else None), mc', txn)"
proof -
  have "cs ! (length pre + k) = c ! k" "c ! k \<in> set cs" using cursor_path_nodes [OF assms(1)] assms(3) by (auto simp: nth_append)
  then show ?thesis using fetch_node_leaf [of p c k txn mc' wk wd] cursor_path_leaf [OF assms(1)] assms(2-4) by auto
qed

lemma sibling_right_cursor:
  assumes "cursor_path txn cs mc c pre post"
  shows "(post = [] \<and> mdb_cursor_sibling txn mc True = Some (MDB_NOTFOUND, mc, txn)) \<or>
    (\<exists>mc' c' post'. mdb_cursor_sibling txn mc True = Some (0, mc', txn) \<and> cursor_path txn cs mc' c' (pre @ c) post' \<and>
       c' \<noteq> [] \<and> mc_ki mc' ! mc_top mc' = 0 \<and> mc_flags mc' = mc_flags mc \<and> mc_dbi mc' = mc_dbi mc)"
proof -
  obtain h pg where p: "path_to txn (md_root (mt_dbs txn ! mc_dbi mc)) h cs mc (mc_top mc) 0 pg c pre post" "cur_wf mc"
    using assms by (auto simp: cursor_path_def)
  from sibling_right [OF p refl] show ?thesis
  proof (elim disjE conjE exE)
    fix mc' pgno' c' post'
    assume "mdb_cursor_sibling txn mc True = Some (0, mc', txn)"
      "path_to txn (md_root (mt_dbs txn ! mc_dbi mc)) h cs mc' (mc_top mc) 0 pgno' c' (pre @ c) post'"
      "c' \<noteq> []" "cur_wf mc'" "mc_top mc' = mc_top mc" "mc_ki mc' ! mc_top mc = 0" "mc_flags mc' = mc_flags mc" "mc_dbi mc' = mc_dbi mc"
    then show ?thesis by (intro disjI2 exI [of _ mc'] exI [of _ c'] exI [of _ post']) (auto simp: cursor_path_def)
  qed blast
qed

subsection \<open>Moving from node to node\<close>

definition kv_at :: "mdb_txn \<Rightarrow> byte list list \<Rightarrow> bool \<Rightarrow> bool \<Rightarrow> nat \<Rightarrow> kv" where
  "kv_at txn cs wk wd i = (if wk then Some (nb_key (cs ! i)) else None, if wd then node_value txn (cs ! i) else None)"

lemma cursor_onI:
  "cursor_path txn cs mc c pre post \<Longrightarrow> mc_ki mc ! mc_top mc = k \<Longrightarrow> k < length c \<Longrightarrow> i = length pre + k \<Longrightarrow>
   C_INITIALIZED \<in> mc_flags mc \<Longrightarrow> C_DEL \<notin> mc_flags mc \<Longrightarrow> (C_EOF \<in> mc_flags mc \<Longrightarrow> post = []) \<Longrightarrow> cursor_on txn cs mc i"
  unfolding cursor_on_def by blast

lemma cursor_next_on:
  assumes on: "cursor_on txn cs mc i" and v: "\<forall>nb \<in> set cs. value_ok txn nb"
  shows "\<exists>mc'. mdb_cursor_next txn mc wk wd op =
      Some (if Suc i < length cs then (0, kv_at txn cs wk wd (Suc i), mc', txn) else (MDB_NOTFOUND, (None, None), mc', txn)) \<and>
    cursor_on txn cs mc' (if Suc i < length cs then Suc i else i) \<and> mc_dbi mc' = mc_dbi mc"
proof -
  let ?ki = "mc_ki mc ! mc_top mc"
  obtain c pre post where path: "cursor_path txn cs mc c pre post" and ki: "?ki < length c" "i = length pre + ?ki" and
      fl: "C_INITIALIZED \<in> mc_flags mc" "C_DEL \<notin> mc_flags mc" "C_EOF \<in> mc_flags mc \<longrightarrow> post = []"
    using on by (auto simp: cursor_on_def)
  note cs = cursor_path_nodes [OF path]
  have wf: "cur_wf mc" using path by (simp add: cursor_path_def)
  obtain p where p: "cur_page txn mc = Some p" "page_rep p c" "IS_LEAF p" "NUMKEYS p = length c"
    using cursor_path_leaf [OF path] by blast
  have ck: "cur_ki mc = Some ?ki" using wf by (simp add: cur_ki_def cur_wf_def mem_simps)
  let ?d = "del_flags {C_EOF} mc"
  have d: "cur_wf ?d" "C_DEL \<notin> mc_flags ?d" "mc_top ?d = mc_top mc" "mc_ki ?d = mc_ki mc" "mc_dbi ?d = mc_dbi mc"
      "cursor_path txn cs ?d c pre post"
    using wf fl cursor_path_cong [OF path, of ?d] by (auto simp: del_flags_def cur_wf_def)
  show ?thesis
  proof (cases "Suc ?ki < length c")
    case True
    let ?m = "?d\<lparr>mc_ki := (mc_ki ?d)[mc_top ?d := Suc ?ki]\<rparr>"
    have pathm: "cursor_path txn cs ?m c pre post" by (rule cursor_path_cong [OF path]) (auto simp: del_flags_def)
    have pm: "cur_page txn ?m = Some p" "cur_ki ?m = Some (Suc ?ki)"
      using p(1) wf by (auto simp: cur_page_def cur_ref_def del_flags_def cur_ki_def cur_wf_def mem_simps)
    obtain leaf where f: "NODEPTR p (Suc ?ki) = Some leaf" "fetch_node txn ?m p leaf wk wd = Some (0, kv_at txn cs wk wd (Suc i), ?m, txn)"
      using cursor_path_fetch [OF pathm v True pm(1), of ?m wk wd] ki(2) by (auto simp: kv_at_def)
    have ne: "\<not> length c - Suc 0 \<le> ?ki" using True by linarith
    have "mdb_cursor_next txn mc wk wd op = Some (0, kv_at txn cs wk wd (Suc i), ?m, txn)"
      using fl True ne p ck d(2) set_ki_eq [OF d(1)] pm f by (simp add: mdb_cursor_next_def Let_def rc_defs)
    moreover have "cursor_on txn cs ?m (Suc i)"
      by (rule cursor_onI [OF pathm _ True]) (use wf ki fl in \<open>auto simp: del_flags_def cur_wf_def\<close>)
    moreover have "Suc i < length cs" using True ki cs by simp
    ultimately show ?thesis using d(5) by (intro exI [of _ ?m]) simp
  next
    case False
    then have last: "Suc ?ki = length c" using ki(1) by simp
    show ?thesis
    proof (cases "post = []")
      case True
      then have e: "\<not> Suc i < length cs" using cs last ki(2) by simp
      show ?thesis
      proof (cases "C_EOF \<in> mc_flags mc")
        case True
        then have "mdb_cursor_next txn mc wk wd op = Some (MDB_NOTFOUND, (None, None), mc, txn)"
          using fl p ck last by (auto simp: mdb_cursor_next_def)
        then show ?thesis using e on by (intro exI [of _ mc]) simp
      next
        case False
        let ?m = "add_flags {C_EOF} ?d"
        have "mdb_cursor_sibling txn ?d True = Some (MDB_NOTFOUND, ?d, txn)"
          using sibling_right_cursor [OF d(6)] True cursor_path_nodes cs by fastforce
        then have "mdb_cursor_next txn mc wk wd op = Some (MDB_NOTFOUND, (None, None), ?m, txn)"
          using fl p ck last False d(2) by (simp add: mdb_cursor_next_def Let_def rc_defs)
        moreover have "cursor_on txn cs ?m i"
          by (rule cursor_onI [OF cursor_path_cong [OF path] _ ki])
             (use fl True in \<open>auto simp: del_flags_def add_flags_def\<close>)
        ultimately show ?thesis using e by (intro exI [of _ ?m]) (simp add: add_flags_def del_flags_def)
      qed
    next
      case False
      then have eof: "C_EOF \<notin> mc_flags mc" using fl(3) by blast
      obtain m c' post' where m: "mdb_cursor_sibling txn ?d True = Some (0, m, txn)" "cursor_path txn cs m c' (pre @ c) post'"
          "c' \<noteq> []" "mc_ki m ! mc_top m = 0" "mc_flags m = mc_flags ?d" "mc_dbi m = mc_dbi ?d"
        using sibling_right_cursor [OF d(6)] False by blast
      have z: "0 < length c'" "length (pre @ c) + 0 = Suc i" using m(3) last ki(2) by auto
      obtain q where q: "cur_page txn m = Some q" "IS_LEAF q" using cursor_path_leaf [OF m(2)] by blast
      have ckm: "cur_ki m = Some 0" using m(2,4) by (simp add: cur_ki_def cursor_path_def cur_wf_def mem_simps)
      obtain leaf where f: "NODEPTR q 0 = Some leaf" "fetch_node txn m q leaf wk wd = Some (0, kv_at txn cs wk wd (Suc i), m, txn)"
        using cursor_path_fetch [OF m(2) v z(1) q(1), of m wk wd] z(2) unfolding kv_at_def by auto
      have "mdb_cursor_next txn mc wk wd op = Some (0, kv_at txn cs wk wd (Suc i), m, txn)"
        using fl eof last p ck d(2) m(1) q ckm f by (simp add: mdb_cursor_next_def Let_def rc_defs)
      moreover have "cursor_on txn cs m (Suc i)"
        by (rule cursor_onI [OF m(2,4) z(1)]) (use z(2) m(5) fl in \<open>auto simp: del_flags_def\<close>)
      moreover have "length cs = length (pre @ c) + length c' + length post'" using cursor_path_nodes [OF m(2)] by simp
      then have "Suc i < length cs" using z by linarith
      ultimately show ?thesis using m(6) d(5) by (intro exI [of _ m]) simp
    qed
  qed
qed


subsection \<open>Positioning\<close>

text \<open>A cursor as \<open>mdb_cursor_init\<close> leaves it.\<close>

definition fresh_cursor :: "nat \<Rightarrow> mdb_cursor \<Rightarrow> bool" where
  "fresh_cursor dbi mc \<longleftrightarrow> mc_dbi mc = dbi \<and> length (mc_pg mc) = CURSOR_STACK \<and> length (mc_ki mc) = CURSOR_STACK \<and>
     mc_pg mc ! 0 = None \<and> mc_flags mc = {}"

lemma fresh_cursor_init: "fresh_cursor dbi (mdb_cursor_init dbi)"
  by (simp add: fresh_cursor_def mdb_cursor_init_def CURSOR_STACK_def)

lemma page_search_root_path_start:
  assumes db: "db_rep txn dbi cs" "txn_usable txn dbi" and mc: "fresh_cursor dbi mc" and root: "md_root (mt_dbs txn ! dbi) \<noteq> P_INVALID"
  shows "\<exists>m p h. mdb_page_search touch txn mc key flags =
       (if MDB_PS_MODIFY \<in> flags \<or> MDB_PS_ROOTONLY \<in> flags then mdb_page_search touch txn mc key flags
        else mdb_page_search_root touch txn m key flags p) \<and> tree_at txn None None h (md_root (mt_dbs txn ! dbi)) cs \<and>
     path_to txn (md_root (mt_dbs txn ! dbi)) h cs m 0 h (md_root (mt_dbs txn ! dbi)) cs [] [] \<and> cur_wf m \<and> mc_top m = 0 \<and>
     cur_page txn m = Some p \<and> h < CURSOR_STACK \<and> mc_flags m = {} \<and> mc_dbi m = dbi"
proof -
  let ?root = "md_root (mt_dbs txn ! dbi)"
  obtain h where h: "h < CURSOR_STACK" "tree_at txn None None h ?root cs" "1 < ?root" "memn_db txn dbi"
    using db(1) root by (auto simp: db_rep_def Let_def)
  obtain r lvl p where r: "mdb_page_get txn ?root = Some (0, r, lvl, txn)" "page_mem txn r = Some p" "page_at txn ?root p"
    using page_at_get [OF h(2)] by blast
  let ?mc = "mc\<lparr>mc_pg := (mc_pg mc)[0 := Some r], mc_snum := 1, mc_top := 0\<rparr>"
  note mcd = mc [unfolded fresh_cursor_def]
  have wf: "cur_wf ?mc" using mcd by (simp add: cur_wf_def CURSOR_STACK_def)
  have ref: "cur_ref ?mc 0 = Some r" using mcd by (simp add: cur_ref_def mem_simps CURSOR_STACK_def)
  have pg: "cur_page txn ?mc = Some p" using ref r(2) by (simp add: cur_page_def)
  have "mdb_page_search touch txn mc key flags = mdb_page_search_root touch txn ?mc key flags p"
      if "MDB_PS_MODIFY \<notin> flags" "MDB_PS_ROOTONLY \<notin> flags"
    using db(2) h(3,4) root mcd r(1) pg that
    by (simp add: mdb_page_search_def txn_usable_def cur_db_def memn_db_def mem_simps Let_def rc_defs CURSOR_STACK_def)
  moreover have "path_to txn ?root h cs ?mc 0 h ?root cs [] []" by (rule path_to.root [OF h(2) ref r(2,3)])
  ultimately show ?thesis using h wf pg mcd by (intro exI [of _ ?mc] exI [of _ p] exI [of _ h]) simp
qed

lemma page_search_empty:
  assumes db: "db_rep txn dbi cs" "txn_usable txn dbi" and mc: "fresh_cursor dbi mc" and root: "md_root (mt_dbs txn ! dbi) = P_INVALID"
  shows "mdb_page_search touch txn mc key flags = Some (MDB_NOTFOUND, mc, txn)" "cs = []"
  using assms by (simp_all add: mdb_page_search_def txn_usable_def cur_db_def db_rep_def memn_db_def mem_simps fresh_cursor_def)

text \<open>The database is empty when its root page is missing or an empty leaf; \<open>mdb_cursor_first\<close> assumes that an empty
  tree has no root page.\<close>

lemma cursor_first_on:
  assumes db: "db_rep txn dbi cs" "txn_usable txn dbi" and mc: "fresh_cursor dbi mc"
    and root: "md_root (mt_dbs txn ! dbi) = P_INVALID \<longleftrightarrow> cs = []"
  shows "\<exists>mc'. mdb_cursor_first txn mc wk wd =
      Some (if cs = [] then (MDB_NOTFOUND, (None, None), mc', txn) else (0, kv_at txn cs wk wd 0, mc', txn)) \<and>
    (cs \<noteq> [] \<longrightarrow> cursor_on txn cs mc' 0) \<and> mc_dbi mc' = dbi"
proof (cases "cs = []")
  case True
  then show ?thesis using page_search_empty [OF db mc] root mc
    by (intro exI [of _ mc]) (simp add: mdb_cursor_first_def fresh_cursor_def rc_defs)
next
  case False
  have v: "\<forall>nb \<in> set cs. value_ok txn nb" using db(1) by (simp add: db_rep_def)
  obtain m p h where m: "mdb_page_search no_touch txn mc None {MDB_PS_FIRST} = mdb_page_search_root no_touch txn m None {MDB_PS_FIRST} p"
      "path_to txn (md_root (mt_dbs txn ! dbi)) h cs m 0 h (md_root (mt_dbs txn ! dbi)) cs [] []" "cur_wf m" "mc_top m = 0"
      "cur_page txn m = Some p" "h < CURSOR_STACK" "mc_flags m = {}" "mc_dbi m = dbi"
    using page_search_root_path_start [OF db mc, of no_touch None "{MDB_PS_FIRST}"] root False by auto
  have "0 + h < CURSOR_STACK" using m(6) by simp
  from page_search_root_first [OF m(2-5) this, of no_touch] obtain m' pg' c' post' where
      s: "mdb_page_search_root no_touch txn m None {MDB_PS_FIRST} p = Some (0, m', txn)"
      "path_to txn (md_root (mt_dbs txn ! dbi)) h cs m' h 0 pg' c' [] post'" "c' \<noteq> []" "cur_wf m'" "mc_top m' = h"
      "mc_flags m' = insert C_INITIALIZED (mc_flags m) - {C_EOF}" "mc_dbi m' = mc_dbi m"
    using False by auto
  have path: "cursor_path txn cs m' c' [] post'" using s m(8) by (auto simp: cursor_path_def)
  let ?m = "m'\<lparr>mc_ki := (mc_ki m')[mc_top m' := 0], mc_flags := {C_INITIALIZED}\<rparr>"
  have pathm: "cursor_path txn cs ?m c' [] post'" by (rule cursor_path_cong [OF path]) auto
  obtain q where q: "cur_page txn m' = Some q" "IS_LEAF q" using cursor_path_leaf [OF path] by blast
  have z: "0 < length c'" using s(3) by simp
  obtain leaf where f: "NODEPTR q 0 = Some leaf" "fetch_node txn ?m q leaf wk wd = Some (0, kv_at txn cs wk wd 0, ?m, txn)"
    using cursor_path_fetch [OF path v z q(1), of ?m wk wd] unfolding kv_at_def by auto
  have "set_ki (del_flags {C_EOF} (add_flags {C_INITIALIZED} m')) 0 = Some ?m"
    using s(4,6) m(7) set_ki_eq [of "del_flags {C_EOF} (add_flags {C_INITIALIZED} m')" 0]
    by (simp add: del_flags_def add_flags_def cur_wf_def)
  then have "mdb_cursor_first txn mc wk wd = Some (0, kv_at txn cs wk wd 0, ?m, txn)"
    using m(1) s(1) q f mc by (simp add: mdb_cursor_first_def fresh_cursor_def)
  moreover have "cursor_on txn cs ?m 0"
    by (rule cursor_onI [OF pathm _ z]) (use s(4) in \<open>auto simp: cur_wf_def\<close>)
  ultimately show ?thesis using False s(7) m(8) by (intro exI [of _ ?m]) simp
qed

text \<open>The position of the first key that is not below \<open>key\<close>.\<close>

definition lower_bound :: "byte list list \<Rightarrow> byte list \<Rightarrow> nat" where
  "lower_bound cs key = length (takeWhile (\<lambda>nb. nb_key nb < key) cs)"

lemma lower_bound_eq:
  assumes "n \<le> length cs" "\<forall>nb \<in> set (take n cs). nb_key nb < key" "n < length cs \<longrightarrow> key \<le> nb_key (cs ! n)"
  shows "lower_bound cs key = n"
proof -
  have "takeWhile (\<lambda>nb. nb_key nb < key) (take n cs @ drop n cs) = take n cs @ takeWhile (\<lambda>nb. nb_key nb < key) (drop n cs)"
    using assms(2) by (intro takeWhile_append2) simp
  moreover have "takeWhile (\<lambda>nb. nb_key nb < key) (drop n cs) = []"
    using assms(1,3) by (cases "n < length cs") (auto simp: Cons_nth_drop_Suc [symmetric])
  ultimately show ?thesis using assms(1) by (simp add: lower_bound_def)
qed

lemma cur_search_leaf:
  assumes db: "memn_db txn (mc_dbi mc)" "cur_wf mc" and p: "page_rep p nbs" "keys_sorted p nbs" "IS_LEAF p" and key: "length key < 2 ^ 32"
  shows "\<exists>x e. cur_search txn mc p key = Some (x, e, x < length nbs, mc\<lparr>mc_ki := (mc_ki mc)[mc_top mc := x]\<rparr>) \<and> x \<le> length nbs \<and>
    (\<forall>nb \<in> set (take x nbs). nb_key nb < key) \<and> (x < length nbs \<longrightarrow> key \<le> nb_key (nbs ! x))"
proof (cases "nbs = []")
  case True
  then have "cur_search txn mc p key = Some (0, False, False, mc\<lparr>mc_ki := (mc_ki mc)[mc_top mc := 0]\<rparr>)"
    using p db mdb_node_search_empty [of p "md_pad (mt_dbs txn ! mc_dbi mc)" key]
    by (simp add: cur_search_def cur_cmp_def cur_db_def memn_db_def mem_simps set_ki_eq)
  then show ?thesis using True by (intro exI [of _ 0] exI [of _ False]) simp
next
  case False
  have fe: "first_entry p = 0" using p(3) by (simp add: first_entry_def)
  obtain x where x: "cur_search txn mc p key = Some (x, x < length nbs \<and> nb_key (nbs ! x) = key, x < length nbs,
        mc\<lparr>mc_ki := (mc_ki mc)[mc_top mc := x]\<rparr>)" "x \<le> length nbs"
      "\<forall>k. k < x \<longrightarrow> nb_key (nbs ! k) < key" "\<forall>k. x \<le> k \<and> k < length nbs \<longrightarrow> key \<le> nb_key (nbs ! k)"
    using cur_search_memn [OF db p(1,2) key] fe False by auto
  have "\<forall>nb \<in> set (take x nbs). nb_key nb < key" using x(2,3) by (auto simp: in_set_conv_nth)
  then show ?thesis using x by blast
qed

lemma cursor_set_range_on:
  assumes db: "db_rep txn dbi cs" "txn_usable txn dbi" and mc: "fresh_cursor dbi mc" and key: "key \<noteq> []" "length key < 2 ^ 32"
  defines "i \<equiv> lower_bound cs key"
  shows "\<exists>mc'. mdb_cursor_set txn mc key wd MDB_SET_RANGE False =
      Some (if i < length cs then (0, kv_at txn cs True wd i, mc', txn) else (MDB_NOTFOUND, (None, None), mc', txn)) \<and>
    (i < length cs \<longrightarrow> cursor_on txn cs mc' i) \<and> mc_dbi mc' = dbi"
proof -
  let ?root = "md_root (mt_dbs txn ! dbi)"
  have v: "\<forall>nb \<in> set cs. value_ok txn nb" and memn: "memn_db txn dbi" using db(1) by (simp_all add: db_rep_def)
  have "(mc_pg mc)[0 := None] = mc_pg mc" using mc list_update_id [of "mc_pg mc" 0] by (simp add: fresh_cursor_def)
  then have set: "mdb_cursor_set txn mc key wd MDB_SET_RANGE False = cursor_set_search txn mc key wd MDB_SET_RANGE False"
    using mc key(1) by (simp add: mdb_cursor_set_def fresh_cursor_def mem_simps CURSOR_STACK_def)
  show ?thesis
  proof (cases "?root = P_INVALID")
    case True
    note e = page_search_empty [OF db mc True]
    have "mdb_cursor_set txn mc key wd MDB_SET_RANGE False = Some (MDB_NOTFOUND, (None, None), mc, txn)"
      using set e(1) by (simp add: cursor_set_search_def rc_defs)
    then show ?thesis using e(2) mc by (intro exI [of _ mc]) (simp add: fresh_cursor_def)
  next
    case False
    obtain m p h where m: "mdb_page_search no_touch txn mc (Some key) {} = mdb_page_search_root no_touch txn m (Some key) {} p"
        "tree_at txn None None h ?root cs" "path_to txn ?root h cs m 0 h ?root cs [] []" "cur_wf m" "mc_top m = 0"
        "cur_page txn m = Some p" "0 + h < CURSOR_STACK" "mc_flags m = {}" "mc_dbi m = dbi"
      using page_search_root_path_start [OF db mc False, of no_touch "Some key" "{}"] by auto
    have ir: "in_range None None key" and memnm: "memn_db txn (mc_dbi m)" using memn m(9) by (simp_all add: in_range_def)
    obtain m' pg' c a b where s: "mdb_page_search_root no_touch txn m (Some key) {} p = Some (0, m', txn)"
        "path_to txn ?root h cs m' (0 + h) 0 pg' c ([] @ a) (b @ [])" "cs = a @ c @ b" "\<forall>nb \<in> set a. nb_key nb < key"
        "\<forall>nb \<in> set b. key < nb_key nb" "cur_wf m'" "mc_top m' = 0 + h" "mc_flags m' = insert C_INITIALIZED (mc_flags m) - {C_EOF}"
        "mc_dbi m' = mc_dbi m"
      using page_search_root_path [OF m(2,3) ir key(2) memnm m(4-7), of no_touch] by (elim exE conjE) (rule that)
    have path: "cursor_path txn cs m' c a b" using s m(9) by (auto simp: cursor_path_def)
    obtain q where q: "cur_page txn m' = Some q" "page_rep q c" "IS_LEAF q" "keys_sorted q c"
      using cursor_path_leaf [OF path] by blast
    have memn': "memn_db txn (mc_dbi m')" using memn m(9) s(9) by simp
    obtain x e where x: "cur_search txn m' q key = Some (x, e, x < length c, m'\<lparr>mc_ki := (mc_ki m')[mc_top m' := x]\<rparr>)" "x \<le> length c"
        "\<forall>nb \<in> set (take x c). nb_key nb < key" "x < length c \<longrightarrow> key \<le> nb_key (c ! x)"
      using cur_search_leaf [OF memn' s(6) q(2,4,3) key(2)] by blast
    let ?m = "m'\<lparr>mc_ki := (mc_ki m')[mc_top m' := x]\<rparr>"
    have pathm: "cursor_path txn cs ?m c a b" by (rule cursor_path_cong [OF path]) auto
    have fl: "mc_flags ?m = {C_INITIALIZED}" using s(8) m(8) by auto
    have i: "i = length a + x"
      unfolding i_def by (rule lower_bound_eq) (use s(3-5) x(2-4) in \<open>auto simp: nth_append less_imp_le\<close>)
    have set': "mdb_cursor_set txn mc key wd MDB_SET_RANGE False = cursor_set2 txn m' q key wd MDB_SET_RANGE False"
      using set m(1) s(1) q by (simp add: cursor_set_search_def)
    show ?thesis
    proof (cases "x < length c")
      case True
      let ?n = "del_flags {C_EOF} (add_flags {C_INITIALIZED} ?m)"
      have pathn: "cursor_path txn cs ?n c a b" by (rule cursor_path_cong [OF path]) (auto simp: del_flags_def add_flags_def)
      obtain leaf where f: "NODEPTR q x = Some leaf" "fetch_node txn ?n q leaf True wd = Some (0, kv_at txn cs True wd i, ?n, txn)"
        using cursor_path_fetch [OF path v True q(1), of ?n True wd] i unfolding kv_at_def by auto
      have "mdb_cursor_set txn mc key wd MDB_SET_RANGE False = Some (0, kv_at txn cs True wd i, ?n, txn)"
        using set' x(1) True f by (simp add: cursor_set2_def cursor_set1_def)
      moreover have "cursor_on txn cs ?n i"
        by (rule cursor_onI [OF pathn _ True i]) (use s(6) fl in \<open>auto simp: cur_wf_def del_flags_def add_flags_def\<close>)
      moreover have "i < length cs" using i s(3) True by simp
      ultimately show ?thesis using s(9) m(9) by (intro exI [of _ ?n]) (simp add: del_flags_def add_flags_def)
    next
      case False
      then have xl: "x = length c" using x(2) by simp
      from sibling_right_cursor [OF pathm] show ?thesis
      proof (elim disjE conjE exE)
        assume "b = []" "mdb_cursor_sibling txn ?m True = Some (MDB_NOTFOUND, ?m, txn)"
        moreover from this have "\<not> i < length cs" using i xl s(3) by simp
        ultimately show ?thesis using set' x(1) False s(9) m(9)
          by (intro exI [of _ "add_flags {C_EOF} ?m"]) (simp add: cursor_set2_def rc_defs add_flags_def)
      next
        fix m2 c2 post2
        assume m2: "mdb_cursor_sibling txn ?m True = Some (0, m2, txn)" "cursor_path txn cs m2 c2 (a @ c) post2" "c2 \<noteq> []"
          "mc_ki m2 ! mc_top m2 = 0" "mc_flags m2 = mc_flags ?m" "mc_dbi m2 = mc_dbi ?m"
        let ?n = "del_flags {C_EOF} (add_flags {C_INITIALIZED} m2)"
        have z: "0 < length c2" "i = length (a @ c) + 0" using m2(3) i xl by auto
        have pathn: "cursor_path txn cs ?n c2 (a @ c) post2" by (rule cursor_path_cong [OF m2(2)]) (auto simp: del_flags_def add_flags_def)
        obtain q2 where q2: "cur_page txn m2 = Some q2" "IS_LEAF q2" using cursor_path_leaf [OF m2(2)] by blast
        obtain leaf where f: "NODEPTR q2 0 = Some leaf" "fetch_node txn ?n q2 leaf True wd = Some (0, kv_at txn cs True wd i, ?n, txn)"
          using cursor_path_fetch [OF m2(2) v z(1) q2(1), of ?n True wd] z(2) unfolding kv_at_def by auto
        have "mdb_cursor_set txn mc key wd MDB_SET_RANGE False = Some (0, kv_at txn cs True wd i, ?n, txn)"
          using set' x(1) False m2(1) q2 f by (simp add: cursor_set2_def cursor_set1_def)
        moreover have "cursor_on txn cs ?n i"
          by (rule cursor_onI [OF pathn _ z]) (use m2(4,5) fl in \<open>auto simp: del_flags_def add_flags_def\<close>)
        moreover have "i < length cs" by (rule cursor_on_bound) fact
        ultimately show ?thesis using m2(6) s(9) m(9) by (intro exI [of _ ?n]) (simp add: del_flags_def add_flags_def)
      qed
    qed
  qed
qed

end
