(* ===== verification/LMDB_Read.thy ===== *)
theory LMDB_Read
  imports LMDB_Iterate
begin

text \<open>
  The read operations of the embedded LMDB as the rest of the server sees them: \<open>mdb_get\<close> and \<open>mdb_cursor_get\<close> on a
  database that represents an ordered list of nodes. A three-page tree shows that the hypotheses can hold.
\<close>

subsection \<open>A three-page tree\<close>

text \<open>Pages of 48 bytes: a branch page 2 over the leaves 3 and 4, with the keys 1, 3 and 5, 7.\<close>

definition tree_branch :: page where
  "tree_branch = [2, 0, 0, 0, 0, 0, 0, 0, 0, 0, 1, 0, 20, 0, 30, 0, 40, 0, 30, 0, 0, 0, 0, 0, 0, 0, 0, 0, 0, 0,
     4, 0, 0, 0, 0, 0, 1, 0, 5, 0, 3, 0, 0, 0, 0, 0, 0, 0]"

definition tree_left :: page where
  "tree_left = [3, 0, 0, 0, 0, 0, 0, 0, 0, 0, 2, 0, 20, 0, 28, 0, 38, 0, 28, 0, 0, 0, 0, 0, 0, 0, 0, 0,
     1, 0, 0, 0, 0, 0, 1, 0, 3, 30, 1, 0, 0, 0, 0, 0, 1, 0, 1, 10]"

definition tree_right :: page where
  "tree_right = [4, 0, 0, 0, 0, 0, 0, 0, 0, 0, 2, 0, 20, 0, 28, 0, 38, 0, 28, 0, 0, 0, 0, 0, 0, 0, 0, 0,
     1, 0, 0, 0, 0, 0, 1, 0, 7, 70, 1, 0, 0, 0, 0, 0, 1, 0, 5, 50]"

definition leaf_nb :: "byte \<Rightarrow> byte \<Rightarrow> byte list" where
  "leaf_nb k d = [1, 0, 0, 0, 0, 0, 1, 0, k, d]"

definition tree_db :: mdb_db where
  "tree_db = \<lparr>md_pad = 0, md_flags = 0, md_depth = 2, md_branch_pages = 1, md_leaf_pages = 2, md_overflow_pages = 0,
     md_entries = 4, md_root = 2\<rparr>"

definition tree_txn :: mdb_txn where
  "tree_txn = \<lparr>mt_flags = {MDB_TXN_RDONLY}, mt_txnid = 1, mt_next_pgno = 5, mt_free_pgs = \<lparr>ids_alloc = 0, ids_cells = [0]\<rparr>,
     mt_loose_pgs = [], mt_spill_pgs = None, mt_dirty_list = [], mt_dirty_room = 0, mt_dbs = [tree_db, tree_db],
     mt_dbxs = [Cmp_long, Cmp_memn], mt_dbflags = [{DB_VALID}, {DB_VALID, DB_USRVALID}], me_psize = 48, me_maxpg = 5, me_nodemax = 14,
     me_map = replicate 96 0 @ tree_branch @ tree_left @ tree_right, me_pghead = None, me_pglast = 0, me_pgoldest = 0, me_readers = [],
     me_dpages = [], me_mem = (\<lambda>_. None)\<rparr>"

definition tree_nodes :: "byte list list" where
  "tree_nodes = [leaf_nb 1 10, leaf_nb 3 30, leaf_nb 5 50, leaf_nb 7 70]"

lemmas page_eval = page_lay_def IS_LEAF_def IS_LEAF2_def IS_BRANCH_def F_ISSET_def P_LEAF_def P_LEAF2_def P_BRANCH_def
  mp_flags_def mp_lower_def mp_upper_def get16_def le16_def bslice_def PTRS_def PAGEHDRSZ_def node_wf_def node_len_def NODESIZE_def
  NODEDSZ_def hdr_of_def F_BIGDATA_def EVEN_def space_def upt_rec

lemma tree_lay:
  "page_lay tree_branch [(40, [3, 0, 0, 0, 0, 0, 0, 0]), (30, [4, 0, 0, 0, 0, 0, 1, 0, 5])]"
  "page_lay tree_left [(38, leaf_nb 1 10), (28, leaf_nb 3 30)]"
  "page_lay tree_right [(38, leaf_nb 5 50), (28, leaf_nb 7 70)]"
  by (simp_all add: page_eval tree_branch_def tree_left_def tree_right_def leaf_nb_def)

lemma tree_rep:
  "page_rep tree_branch [[3, 0, 0, 0, 0, 0, 0, 0], [4, 0, 0, 0, 0, 0, 1, 0, 5]]"
  "page_rep tree_left [leaf_nb 1 10, leaf_nb 3 30]" "page_rep tree_right [leaf_nb 5 50, leaf_nb 7 70]"
  unfolding page_rep_def
  by (rule exI, rule conjI, rule tree_lay, simp)+

lemma tree_flags:
  "IS_BRANCH tree_branch" "\<not> IS_LEAF tree_branch" "IS_LEAF tree_left" "\<not> IS_BRANCH tree_left" "IS_LEAF tree_right" "\<not> IS_BRANCH tree_right"
  by (simp_all add: page_eval tree_branch_def tree_left_def tree_right_def)

lemma tree_nb [simp]:
  "nb_key (leaf_nb k d) = [k]" "nb_key [3, 0, 0, 0, 0, 0, 0, 0] = []" "nb_key [4, 0, 0, 0, 0, 0, 1, 0, 5] = [5]"
  "NODEPGNO (hdr_of [3, 0, 0, 0, 0, 0, 0, 0]) = 3" "NODEPGNO (hdr_of [4, 0, 0, 0, 0, 0, 1, 0, 5]) = 4"
  "node_value txn (leaf_nb k d) = Some [d]" "value_ok txn (leaf_nb k d)"
  by (simp_all add: nb_key_def hdr_of_def leaf_nb_def get16_def le16_def bslice_def NODEPGNO_def node_value_def value_ok_def nb_data_def
      F_ISSET_def F_BIGDATA_def F_DUPDATA_def)

lemma tree_keys:
  "keys_sorted tree_branch [[3, 0, 0, 0, 0, 0, 0, 0], [4, 0, 0, 0, 0, 0, 1, 0, 5]]"
  "keys_sorted tree_left [leaf_nb 1 10, leaf_nb 3 30]" "keys_sorted tree_right [leaf_nb 5 50, leaf_nb 7 70]"
  using tree_flags by (simp_all add: keys_sorted_def first_entry_def)

lemma tree_page_get: "pgno < 5 \<Longrightarrow> mdb_page_get tree_txn pgno = Some (0, Map_page pgno, 0, tree_txn)"
  by (simp add: mdb_page_get_def tree_txn_def rc_defs)

lemma tree_page_mem:
  "page_mem tree_txn (Map_page 2) = Some tree_branch" "page_mem tree_txn (Map_page 3) = Some tree_left"
  "page_mem tree_txn (Map_page 4) = Some tree_right"
  by (simp_all add: page_mem_def tree_txn_def) (simp_all add: tree_branch_def tree_left_def tree_right_def)

lemma tree_page_at: "page_at tree_txn 2 tree_branch" "page_at tree_txn 3 tree_left" "page_at tree_txn 4 tree_right"
  using tree_page_get tree_page_mem by (auto simp: page_at_def)

lemma tree_sample: "tree_at tree_txn None None 1 2 tree_nodes"
proof -
  let ?nbs = "[[3, 0, 0, 0, 0, 0, 0, 0], [4, 0, 0, 0, 0, 0, 1, 0, 5]] :: byte list list"
  let ?cs = "[[leaf_nb 1 10, leaf_nb 3 30], [leaf_nb 5 50, leaf_nb 7 70]]"
  have l: "tree_at tree_txn None (Some [5]) 0 3 [leaf_nb 1 10, leaf_nb 3 30]"
    by (rule tree_at.leaf [OF tree_page_at(2) tree_rep(2) tree_flags(3,4) tree_keys(2)]) (simp add: in_range_def)
  have r: "tree_at tree_txn (Some [5]) None 0 4 [leaf_nb 5 50, leaf_nb 7 70]"
    by (rule tree_at.leaf [OF tree_page_at(3) tree_rep(3) tree_flags(5,6) tree_keys(3)]) (simp add: in_range_def)
  have "tree_at tree_txn None None (Suc 0) 2 (concat ?cs)"
  proof (rule tree_at.branch [OF tree_page_at(1) tree_rep(1) tree_flags(1,2) tree_keys(1)])
    fix i assume "i < length ?nbs"
    then consider "i = 0" | "i = 1" by fastforce
    then show "tree_at tree_txn (child_lo None (map nb_key ?nbs) i) (child_hi None (map nb_key ?nbs) i) 0 (NODEPGNO (hdr_of (?nbs ! i))) (?cs ! i)"
      by cases (use l r in \<open>simp_all add: child_lo_def child_hi_def\<close>)
  qed (auto simp: in_range_def)
  then show ?thesis by (simp add: tree_nodes_def)
qed

lemma tree_db_rep: "db_rep tree_txn MAIN_DBI tree_nodes"
  using tree_sample exI [of "\<lambda>h. h < CURSOR_STACK \<and> tree_at tree_txn None None h 2 tree_nodes" 1]
  by (simp add: db_rep_def memn_db_def MAIN_DBI_def CURSOR_STACK_def) (simp add: tree_txn_def tree_db_def P_INVALID_def tree_nodes_def)

lemma tree_usable: "txn_usable tree_txn MAIN_DBI"
  by (simp add: txn_usable_def tree_txn_def MDB_TXN_BLOCKED_def MAIN_DBI_def)

subsection \<open>The read operations\<close>

lemma cursor_on_del: "cursor_on txn cs mc i \<Longrightarrow> cursor_on txn cs (del_flags {C_DEL} mc) i"
proof -
  assume on: "cursor_on txn cs mc i"
  then have "del_flags {C_DEL} mc = mc" by (cases mc) (auto simp: cursor_on_def del_flags_def)
  then show ?thesis using on by simp
qed

text \<open>The positioning and stepping of cursors, through \<open>mdb_cursor_get\<close>.\<close>

lemma cursor_get_range:
  assumes "db_rep txn dbi cs" and "txn_usable txn dbi" and "fresh_cursor dbi mc" and "key \<noteq> []" and "length key < 2 ^ 32"
  shows "\<exists>mc'. mdb_cursor_get txn mc (Some key) True True MDB_SET_RANGE =
      Some (if lower_bound cs key < length cs
            then (MDB_SUCCESS, kv_at txn cs True True (lower_bound cs key), mc', txn) else (MDB_NOTFOUND, (None, None), mc', txn)) \<and>
    (lower_bound cs key < length cs \<longrightarrow> cursor_on txn cs mc' (lower_bound cs key))"
proof -
  let ?i = "lower_bound cs key"
  obtain m where m: "mdb_cursor_set txn mc key True MDB_SET_RANGE False =
      Some (if ?i < length cs then (0, kv_at txn cs True True ?i, m, txn) else (MDB_NOTFOUND, (None, None), m, txn))"
      "?i < length cs \<longrightarrow> cursor_on txn cs m ?i"
    using cursor_set_range_on [OF assms] by blast
  have "cursor_on txn cs (del_flags {C_DEL} m) ?i" if "?i < length cs" using cursor_on_del [of txn cs m] m(2) that by simp
  then show ?thesis using m assms(2)
    by (intro exI [of _ "del_flags {C_DEL} m"]) (auto simp: mdb_cursor_get_def cursor_get_op_def txn_usable_def MDB_SUCCESS_def Let_def)
qed

lemma cursor_get_next:
  assumes "db_rep txn dbi cs" and "txn_usable txn dbi" and "cursor_on txn cs mc i"
  shows "\<exists>mc'. mdb_cursor_get txn mc None True True MDB_NEXT =
      Some (if Suc i < length cs then (MDB_SUCCESS, kv_at txn cs True True (Suc i), mc', txn) else (MDB_NOTFOUND, (None, None), mc', txn)) \<and>
    cursor_on txn cs mc' (if Suc i < length cs then Suc i else i)"
proof -
  let ?j = "if Suc i < length cs then Suc i else i"
  have v: "\<forall>nb \<in> set cs. value_ok txn nb" using assms(1) by (simp add: db_rep_def)
  obtain m where m: "mdb_cursor_next txn mc True True MDB_NEXT =
      Some (if Suc i < length cs then (0, kv_at txn cs True True (Suc i), m, txn) else (MDB_NOTFOUND, (None, None), m, txn))"
      "cursor_on txn cs m ?j"
    using cursor_next_on [OF assms(3) v] by blast
  have "cursor_on txn cs (del_flags {C_DEL} m) ?j" using cursor_on_del m(2) by blast
  then show ?thesis using m assms(2)
    by (intro exI [of _ "del_flags {C_DEL} m"]) (auto simp: mdb_cursor_get_def cursor_get_op_def txn_usable_def MDB_SUCCESS_def)
qed


text \<open>C15. \<open>mdb_get\<close> on a database that holds the nodes \<open>cs\<close>, over trees of any height and pages of any size: it
  returns success and exactly the value stored under the key, from the node or from its overflow pages, or
  \<open>MDB_NOTFOUND\<close> when no node has that key. It leaves the transaction as it is, and it returns (the descent
  terminates, no read leaves its page).\<close>

theorem mdb_get_correct:
  assumes "db_rep txn dbi cs" and "txn_usable txn dbi" and "key \<noteq> []" and "length key < 2 ^ 32"
  shows "mdb_get txn dbi key =
    Some (case lookup_node cs key of Some nb \<Rightarrow> (MDB_SUCCESS, node_value txn nb, txn) | None \<Rightarrow> (MDB_NOTFOUND, None, txn))"
  unfolding MDB_SUCCESS_def by (rule mdb_get_eq [OF assms])

theorem mdb_get_correct_witness:
  "mdb_get tree_txn MAIN_DBI [5] = Some (MDB_SUCCESS, Some [50], tree_txn) \<and> mdb_get tree_txn MAIN_DBI [4] = Some (MDB_NOTFOUND, None, tree_txn)"
  using mdb_get_correct [OF tree_db_rep tree_usable, of "[5]"] mdb_get_correct [OF tree_db_rep tree_usable, of "[4]"]
  by (simp add: lookup_node_def tree_nodes_def)

text \<open>C33. A cursor that has not been positioned, moved with \<open>MDB_SET_RANGE\<close>: it comes to the first node whose key is
  not below the given one and returns its key and value; \<open>MDB_NOTFOUND\<close> exactly when every key is smaller.\<close>

theorem cursor_set_range_correct:
  assumes "db_rep txn dbi cs" and "txn_usable txn dbi" and "fresh_cursor dbi mc" and "key \<noteq> []" and "length key < 2 ^ 32"
  shows "\<exists>mc'. mdb_cursor_get txn mc (Some key) True True MDB_SET_RANGE =
      Some (if lower_bound cs key < length cs
            then (MDB_SUCCESS, kv_at txn cs True True (lower_bound cs key), mc', txn) else (MDB_NOTFOUND, (None, None), mc', txn)) \<and>
    (lower_bound cs key < length cs \<longrightarrow> cursor_on txn cs mc' (lower_bound cs key))"
  by (rule cursor_get_range [OF assms])

theorem cursor_set_range_correct_witness:
  "\<exists>mc. mdb_cursor_get tree_txn (mdb_cursor_init MAIN_DBI) (Some [4]) True True MDB_SET_RANGE =
     Some (MDB_SUCCESS, (Some [5], Some [50]), mc, tree_txn) \<and> cursor_on tree_txn tree_nodes mc 2"
proof -
  have "lower_bound tree_nodes [4] = 2" by (simp add: lower_bound_def tree_nodes_def)
  then show ?thesis using cursor_set_range_correct [OF tree_db_rep tree_usable fresh_cursor_init, of "[4]"]
    by (simp add: kv_at_def tree_nodes_def)
qed

text \<open>C32. A cursor on node \<open>i\<close>, moved with \<open>MDB_NEXT\<close>: it comes to node \<open>i + 1\<close> and returns its key and value, also
  when that node is on another leaf; on the last node it returns \<open>MDB_NOTFOUND\<close> and stays. So a scan visits
  every node once, in key order.\<close>

theorem cursor_next_correct:
  assumes "db_rep txn dbi cs" and "txn_usable txn dbi" and "cursor_on txn cs mc i"
  shows "\<exists>mc'. mdb_cursor_get txn mc None True True MDB_NEXT =
      Some (if Suc i < length cs then (MDB_SUCCESS, kv_at txn cs True True (Suc i), mc', txn) else (MDB_NOTFOUND, (None, None), mc', txn)) \<and>
    cursor_on txn cs mc' (if Suc i < length cs then Suc i else i)"
  by (rule cursor_get_next [OF assms])

theorem cursor_next_correct_witness:
  "\<exists>mc mc'. cursor_on tree_txn tree_nodes mc 1 \<and>
     mdb_cursor_get tree_txn mc None True True MDB_NEXT = Some (MDB_SUCCESS, (Some [5], Some [50]), mc', tree_txn)"
proof -
  have "lower_bound tree_nodes [3] = 1" by (simp add: lower_bound_def tree_nodes_def)
  then obtain mc where mc: "cursor_on tree_txn tree_nodes mc 1"
    using cursor_set_range_on [OF tree_db_rep tree_usable fresh_cursor_init, of "[3]" True] by (auto simp: tree_nodes_def)
  then show ?thesis using cursor_next_correct [OF tree_db_rep tree_usable mc]
    by (auto simp: tree_nodes_def kv_at_def numeral_2_eq_2)
qed

subsection \<open>The page operations\<close>

lemma OVPAGES_room: "0 < psize \<Longrightarrow> PAGEHDRSZ + sz \<le> OVPAGES sz psize * psize"
proof -
  assume p: "0 < psize"
  have "PAGEHDRSZ - 1 + sz < ((PAGEHDRSZ - 1 + sz) div psize + 1) * psize" using p by (simp add: dividend_less_div_times add.commute)
  then show ?thesis by (simp add: OVPAGES_def PAGEHDRSZ_def)
qed

lemma node_add_rep:
  assumes rep: "page_rep p nbs" and leaf: "IS_LEAF p" and i: "indx \<le> length nbs"
    and k: "val_ok k" "mv_size k < 65536" and dsz: "mv_size d < 2 ^ 32"
    and d: "case ofp of Some op \<Rightarrow> F_ISSET flags F_BIGDATA \<and> overflow_ok d flags op
      | None \<Rightarrow> if F_ISSET flags F_BIGDATA then 8 \<le> length (mv_data d) else val_ok d"
    and sz: "n = EVEN (8 + mv_size k + (if F_ISSET flags F_BIGDATA then 8 else mv_size d))" and room: "n + 2 \<le> SIZELEFT p"
  shows "\<exists>p'. node_add_update p indx (Some k) (Some d) pgno flags n ofp = Some (p', overflow_data d flags ofp) \<and>
    bslice p' 0 12 = bslice p 0 12 \<and> length p' = length p \<and>
    page_rep p' (take indx nbs @ leaf_node p (mp_upper p - n) k d flags ofp # drop indx nbs)"
proof -
  obtain L where L: "page_lay p L" "map snd L = nbs" using rep by (auto simp: page_rep_def)
  have iL: "indx \<le> length L" using i L(2) by auto
  have "page_rep p' (take indx nbs @ nb # drop indx nbs)" if "page_lay p' (take indx L @ (o', nb) # drop indx L)" for p' o' nb
    unfolding page_rep_def using that L(2) by (intro exI conjI) (auto simp: take_map drop_map)
  then show ?thesis using node_add_update_leaf [OF L(1) leaf iL k dsz d sz room, of pgno] by blast
qed

lemma overflow_data_written:
  assumes "0 < psize" "length ofp = OVPAGES (mv_size d) psize * psize" "val_ok d"
  shows "overflow_ok d F_BIGDATA ofp" "overflow_data d F_BIGDATA (Some ofp) = Some (patch ofp PAGEHDRSZ (vbytes d))"
    "bslice (patch ofp PAGEHDRSZ (vbytes d)) PAGEHDRSZ (mv_size d) = vbytes d"
    "bslice (patch ofp PAGEHDRSZ (vbytes d)) 0 PAGEHDRSZ = bslice ofp 0 PAGEHDRSZ" "length (patch ofp PAGEHDRSZ (vbytes d)) = length ofp"
proof -
  have ld: "length (vbytes d) = mv_size d" "\<not> F_ISSET F_BIGDATA MDB_RESERVE"
    using assms(3) by (simp_all add: vbytes_def val_ok_def F_ISSET_def F_BIGDATA_def MDB_RESERVE_def)
  show ok: "overflow_ok d F_BIGDATA ofp" using OVPAGES_room [OF assms(1), of "mv_size d"] assms(2,3) by (simp add: overflow_ok_def)
  show "overflow_data d F_BIGDATA (Some ofp) = Some (patch ofp PAGEHDRSZ (vbytes d))"
    "bslice (patch ofp PAGEHDRSZ (vbytes d)) PAGEHDRSZ (mv_size d) = vbytes d"
    "bslice (patch ofp PAGEHDRSZ (vbytes d)) 0 PAGEHDRSZ = bslice ofp 0 PAGEHDRSZ" "length (patch ofp PAGEHDRSZ (vbytes d)) = length ofp"
    using ok ld by (simp_all add: overflow_ok_def overflow_data_def bslice_patch_disjoint)
qed

text \<open>C34. Adding a leaf node, as \<open>mdb_node_add\<close> plans it (without \<open>MDB_RESERVE\<close>): it refuses exactly when the page has
  no room for the node and its pointer; otherwise the page holds the old nodes in their order and the new one at the
  index, with the data in the node or, when the node would exceed \<open>me_nodemax\<close>, with the number of the overflow pages
  it was given. As many of them as it asks for hold the data behind their header, which is unchanged. No byte outside the
  pages is touched and the page keeps its number and flags.\<close>

theorem node_add_leaf_correct:
  assumes rep: "page_rep p nbs" and leaf: "IS_LEAF p" and i: "indx \<le> length nbs"
    and k: "val_ok k" "mv_size k < 65536" and d: "val_ok d" "mv_size d < 2 ^ 32"
    and ofp: "0 < psize" "length ofp = OVPAGES (mv_size d) psize * psize"
  shows "case node_add_plan psize nodemax p (Some k) (Some d) 0 of
      None \<Rightarrow> False
    | Some Node_Full \<Rightarrow>
        SIZELEFT p < EVEN (8 + mv_size k + (if 8 + mv_size k + mv_size d > nodemax then 8 else mv_size d)) + 2
    | Some (Node_Fits n) \<Rightarrow> 8 + mv_size k + mv_size d \<le> nodemax \<and>
        (\<exists>p'. node_add_update p indx (Some k) (Some d) pgno 0 n None = Some (p', None) \<and> bslice p' 0 12 = bslice p 0 12 \<and>
           length p' = length p \<and>
           page_rep p' (take indx nbs @ mk_node (mv_size d) (mv_size d div 2 ^ 16) 0 (vbytes k) (vbytes d) # drop indx nbs))
    | Some (Node_Overflow n ovpages) \<Rightarrow> 8 + mv_size k + mv_size d > nodemax \<and> ovpages = OVPAGES (mv_size d) psize \<and>
        (\<exists>p' ofp'. node_add_update p indx (Some k) (Some d) pgno F_BIGDATA n (Some ofp) = Some (p', Some ofp') \<and> bslice p' 0 12 = bslice p 0 12 \<and>
           length p' = length p \<and>
           page_rep p' (take indx nbs @ mk_node (mv_size d) (mv_size d div 2 ^ 16) F_BIGDATA (vbytes k) (bslice ofp 0 8) # drop indx nbs) \<and>
           bslice ofp' PAGEHDRSZ (mv_size d) = vbytes d \<and> bslice ofp' 0 PAGEHDRSZ = bslice ofp 0 PAGEHDRSZ \<and> length ofp' = length ofp)"
proof -
  have low: "mp_lower p \<le> mp_upper p" using rep by (auto simp: page_rep_def page_lay_def)
  have fl: "\<not> F_ISSET 0 F_BIGDATA" "F_ISSET F_BIGDATA F_BIGDATA" "\<not> F_ISSET 0 MDB_RESERVE" "\<not> F_ISSET F_BIGDATA MDB_RESERVE"
    by (simp_all add: F_ISSET_def F_BIGDATA_def MDB_RESERVE_def)
  note o = overflow_data_written [OF ofp d(1)]
  let ?big = "nodemax < 8 + mv_size k + mv_size d"
  let ?n = "EVEN (8 + mv_size k + (if ?big then 8 else mv_size d))"
  consider (full) "SIZELEFT p < ?n + 2" | (over) "?n + 2 \<le> SIZELEFT p" ?big | (fits) "?n + 2 \<le> SIZELEFT p" "\<not> ?big" by linarith
  then show ?thesis
  proof cases
    case full
    then show ?thesis using leaf low fl by (auto simp: node_add_plan_def node_fit_def Let_def NODESIZE_def)
  next
    case over
    have "\<exists>p'. node_add_update p indx (Some k) (Some d) pgno F_BIGDATA ?n (Some ofp) = Some (p', overflow_data d F_BIGDATA (Some ofp)) \<and>
        bslice p' 0 12 = bslice p 0 12 \<and> length p' = length p \<and>
        page_rep p' (take indx nbs @ leaf_node p (mp_upper p - ?n) k d F_BIGDATA (Some ofp) # drop indx nbs)"
      by (rule node_add_rep [OF rep leaf i k d(2)]) (use fl over o(1) in auto)
    then show ?thesis using over leaf low fl o(2-5)
      by (auto simp: node_add_plan_def Let_def NODESIZE_def leaf_node_def leaf_payload_def)
  next
    case fits
    have "\<exists>p'. node_add_update p indx (Some k) (Some d) pgno 0 ?n None = Some (p', overflow_data d 0 None) \<and> bslice p' 0 12 = bslice p 0 12 \<and>
        length p' = length p \<and> page_rep p' (take indx nbs @ leaf_node p (mp_upper p - ?n) k d 0 None # drop indx nbs)"
      by (rule node_add_rep [OF rep leaf i k d(2)]) (use fl d fits in auto)
    then show ?thesis using fits leaf low fl
      by (auto simp: node_add_plan_def node_fit_def Let_def NODESIZE_def leaf_node_def leaf_payload_def overflow_data_def)
  qed
qed

text \<open>C35. \<open>mdb_node_del\<close> removes exactly the node at the index: the others keep their bytes and their order, the space
  and the pointer of the node become free, and the page keeps its number and flags.\<close>

theorem mdb_node_del_correct:
  assumes rep: "page_rep p nbs" and i: "indx < length nbs"
  shows "\<exists>p'. mdb_node_del p indx ksize = Some p' \<and> page_rep p' (take indx nbs @ drop (Suc indx) nbs) \<and>
    SIZELEFT p' = SIZELEFT p + EVEN (length (nbs ! indx)) + 2 \<and> bslice p' 0 12 = bslice p 0 12 \<and> length p' = length p"
proof -
  obtain L where L: "page_lay p L" "map snd L = nbs" using rep by (auto simp: page_rep_def)
  then have iL: "indx < length L" using i by auto
  obtain p' where p': "mdb_node_del p indx ksize = Some p'" "bslice p' 0 12 = bslice p 0 12" "length p' = length p"
      "page_lay p' (del_layout L indx)"
    using mdb_node_del_lay [OF L(1) iL] by blast
  have rep': "page_rep p' (take indx nbs @ drop (Suc indx) nbs)"
    unfolding page_rep_def using p'(4) snd_del_layout [of L indx] L(2) by (intro exI [of _ "del_layout L indx"]) simp
  show ?thesis using p' rep' page_rep_SIZELEFT [OF rep] page_rep_SIZELEFT [OF rep'] space_del [OF i] i L(1) by auto
qed

text \<open>\<open>mdb_node_search\<close> with the default comparison, on any page whose keys ascend (from its second entry on
  a branch page): the index is the first whose key is not below the given one, the match flag says whether that
  key is equal, and there is no node exactly when all keys are below.\<close>

theorem mdb_node_search_correct:
  assumes "page_rep p nbs" and "keys_sorted p nbs" and "length key < 2 ^ 32" and "first_entry p < length nbs"
  shows "\<exists>x. mdb_node_search Cmp_memn pad p key = Some (x, x < length nbs \<and> nb_key (nbs ! x) = key, x < length nbs) \<and>
    first_entry p \<le> x \<and> x \<le> length nbs \<and>
    (\<forall>k. first_entry p \<le> k \<and> k < x \<longrightarrow> nb_key (nbs ! k) < key) \<and> (\<forall>k. x \<le> k \<and> k < length nbs \<longrightarrow> key \<le> nb_key (nbs ! k))"
  by (rule mdb_node_search_memn [OF assms])

theorem mdb_node_search_correct_witness:
  "mdb_node_search Cmp_memn 0 tree_left [3] = Some (1, True, True)"
proof -
  let ?nbs = "[leaf_nb 1 10, leaf_nb 3 30]"
  obtain x where x: "mdb_node_search Cmp_memn 0 tree_left [3] = Some (x, x < length ?nbs \<and> nb_key (?nbs ! x) = [3], x < length ?nbs)"
      "x \<le> length ?nbs" "\<forall>k. first_entry tree_left \<le> k \<and> k < x \<longrightarrow> nb_key (?nbs ! k) < [3]"
      "\<forall>k. x \<le> k \<and> k < length ?nbs \<longrightarrow> [3] \<le> nb_key (?nbs ! k)"
    using mdb_node_search_correct [OF tree_rep(2) tree_keys(2), of "[3]" 0] tree_flags(3) by (auto simp: first_entry_def)
  have "x \<noteq> 0" using x(4) [rule_format, of 0] by auto
  moreover have "x \<noteq> 2" using x(3) [rule_format, of 1] tree_flags(3) by (auto simp: first_entry_def)
  ultimately have "x = 1" using x(2) by simp
  then show ?thesis using x(1) by simp
qed

theorem mdb_node_del_correct_witness:
  "\<exists>p'. mdb_node_del tree_left 0 0 = Some p' \<and> page_rep p' [leaf_nb 3 30]"
  using mdb_node_del_correct [OF tree_rep(2), of 0 0] by auto

definition val_of :: "byte list \<Rightarrow> mdb_val" where
  "val_of bs = \<lparr>mv_size = length bs, mv_data = bs\<rparr>"

text \<open>An empty leaf page.\<close>

definition empty_leaf :: page where
  "empty_leaf = [9, 0, 0, 0, 0, 0, 0, 0, 0, 0, 2, 0, 16, 0, 48, 0] @ replicate 32 0"

lemma empty_leaf_rep: "page_rep empty_leaf []" "IS_LEAF empty_leaf"
  by (simp_all add: page_rep_def) (simp_all add: page_eval empty_leaf_def)

theorem node_add_leaf_correct_witness:
  "(\<exists>p'. node_add_update empty_leaf 0 (Some (val_of [1])) (Some (val_of [10])) 0 0 10 None = Some (p', None) \<and> page_rep p' [leaf_nb 1 10]) \<and>
   (\<exists>p' ofp'. node_add_update empty_leaf 0 (Some (val_of [1])) (Some (val_of (replicate 10 7))) 0 F_BIGDATA 18 (Some (4 # replicate 47 0)) = Some (p', Some ofp') \<and>
      page_rep p' [mk_node 10 0 F_BIGDATA [1] (4 # replicate 7 0)] \<and> bslice ofp' 16 10 = replicate 10 7) \<and>
   node_add_plan 48 14 tree_left (Some (val_of [2])) (Some (val_of [20])) 0 = Some Node_Full \<and> SIZELEFT tree_left < 12"
proof -
  have plan: "node_add_plan 48 14 empty_leaf (Some (val_of [1])) (Some (val_of [10])) 0 = Some (Node_Fits 10)"
    "node_add_plan 48 14 empty_leaf (Some (val_of [1])) (Some (val_of (replicate 10 7))) 0 = Some (Node_Overflow 18 1)"
    "node_add_plan 48 14 tree_left (Some (val_of [2])) (Some (val_of [20])) 0 = Some Node_Full"
    by (simp_all add: node_add_plan_def page_eval empty_leaf_def tree_left_def val_of_def SIZELEFT_def Let_def OVPAGES_def node_fit_def)
  have ok: "val_ok (val_of bs)" "mv_size (val_of bs) = length bs" "vbytes (val_of bs) = bs" for bs
    by (simp_all add: val_ok_def val_of_def vbytes_def)
  have b8: "bslice (4 # replicate 47 0) 0 8 = (4 # replicate 7 0 :: byte list)" by (simp add: bslice_def numeral_eq_Suc)
  have nb: "mk_node (Suc 0) 0 0 [1] [10] = leaf_nb 1 10" by (simp add: mk_node_def enc16_def leaf_nb_def)
  show ?thesis
    using node_add_leaf_correct [OF empty_leaf_rep, where indx = 0 and k = "val_of [1]" and d = "val_of [10]" and psize = 48 and nodemax = 14 and pgno = 0 and ofp = "replicate 48 0"]
      node_add_leaf_correct [OF empty_leaf_rep, where indx = 0 and k = "val_of [1]" and d = "val_of (replicate 10 7)" and psize = 48
        and nodemax = 14 and pgno = 0 and ofp = "4 # replicate 47 0"]
      node_add_leaf_correct [OF tree_rep(2) tree_flags(3), where indx = 0 and k = "val_of [2]" and d = "val_of [20]" and psize = 48 and nodemax = 14
        and ofp = "replicate 48 0"]
      plan ok nb b8
    by (auto simp: EVEN_def OVPAGES_def PAGEHDRSZ_def)
qed

end
