(* ===== verification/LMDB_Alloc.thy ===== *)
theory LMDB_Alloc
  imports LMDB_Cursor Midl
begin

text \<open>
  Page allocation and copy-on-write of the embedded LMDB: page memory, the dirty list, the loose pages, the search of
  free pages in \<open>me_pghead\<close> and in the records of the free database, and \<open>mdb_page_touch\<close>, which makes a page writable.
  A write transaction of the server has no cursor open besides the one of the current operation, so the loops that adjust
  the cursors of \<open>mt_cursors\<close> have nothing to do. \<open>MDB_NOMEMINIT\<close> and \<open>MDB_PARANOID\<close> are not set.
\<close>

subsection \<open>Memory\<close>

definition next_mem :: "mdb_txn \<Rightarrow> (nat \<Rightarrow> mdb_id) option \<times> mdb_txn" where
  "next_mem txn = (me_mem txn 0, txn\<lparr>me_mem := (\<lambda>n. me_mem txn (Suc n))\<rparr>)"

text \<open>An operation on an ID list that may allocate, with the next outcome of the allocator; a failure is \<open>ENOMEM\<close>.\<close>

definition midl_op ::
    "(bool \<Rightarrow> (nat \<Rightarrow> mdb_id) \<Rightarrow> (midl_err + midl) option) \<Rightarrow> mdb_txn \<Rightarrow> ((int + midl) \<times> mdb_txn) option" where
  "midl_op f txn =
     (let (out, txn) = next_mem txn in
      do { r \<leftarrow> f (out \<noteq> None) (case out of None \<Rightarrow> (\<lambda>_. 0) | Some g \<Rightarrow> g);
           Some (case r of Inl e \<Rightarrow> Inl E_NOMEM | Inr m \<Rightarrow> Inr m, txn) })"

definition block_of :: "(nat \<Rightarrow> mdb_id) \<Rightarrow> nat \<Rightarrow> page" where
  "block_of f n = map (\<lambda>i. ucast (f i)) [0..<n]"

definition mdb_page_malloc :: "mdb_txn \<Rightarrow> nat \<Rightarrow> page option \<times> mdb_txn" where
  "mdb_page_malloc txn num =
     (if num = 1 \<and> me_dpages txn \<noteq> [] then (Some (hd (me_dpages txn)), txn\<lparr>me_dpages := tl (me_dpages txn)\<rparr>)
      else
        (let psize = me_psize txn; sz = psize * num;
             off = (if num = 1 then PAGEHDRSZ else sz - psize);
             len = (if num = 1 then psize - PAGEHDRSZ else psize);
             (out, txn) = next_mem txn
         in case out of
              None \<Rightarrow> (None, txn_error txn)
            | Some f \<Rightarrow> (Some (patch (patch (block_of f sz) off (replicate len 0)) 8 (enc16 0)), txn)))"

definition mdb_page_free :: "mdb_txn \<Rightarrow> page \<Rightarrow> mdb_txn" where
  "mdb_page_free txn mp = txn\<lparr>me_dpages := mp # me_dpages txn\<rparr>"

definition mdb_dpage_free :: "mdb_txn \<Rightarrow> page \<Rightarrow> mdb_txn" where
  "mdb_dpage_free txn dp = (if \<not> IS_OVERFLOW dp \<or> mp_pages dp = 1 then mdb_page_free txn dp else txn)"

fun dlist_free_loop :: "mdb_txn \<Rightarrow> nat \<Rightarrow> nat \<Rightarrow> mdb_txn option" where
  "dlist_free_loop txn i 0 = Some txn"
| "dlist_free_loop txn i (Suc n) =
     do { x \<leftarrow> rd (mt_dirty_list txn) i; dlist_free_loop (mdb_dpage_free txn (mptr x)) (i + 1) n }"

definition mdb_dlist_free :: "mdb_txn \<Rightarrow> mdb_txn option" where
  "mdb_dlist_free txn =
     do { c \<leftarrow> rd (mt_dirty_list txn) 0;
          txn \<leftarrow> dlist_free_loop txn 1 (unat (mid c));
          dl \<leftarrow> wr (mt_dirty_list txn) 0 (c\<lparr>mid := 0\<rparr>);
          Some (txn\<lparr>mt_dirty_list := dl\<rparr>) }"

subsection \<open>Writing pages\<close>

text \<open>Only the copies of dirty pages can be written; the map is read-only.\<close>

definition put_dirty :: "page mdb_id2 list \<Rightarrow> nat \<Rightarrow> page \<Rightarrow> page mdb_id2 list" where
  "put_dirty dl n p = map (\<lambda>x. if unat (mid x) = n then x\<lparr>mptr := patch (mptr x) 0 p\<rparr> else x) dl"

fun put_page :: "mdb_txn \<Rightarrow> pgref \<Rightarrow> page \<Rightarrow> mdb_txn option" where
  "put_page txn (Map_page n) p = None"
| "put_page txn (Dirty_page n) p =
     (case dirty_mem (mt_dirty_list txn) n of
        None \<Rightarrow> None
      | Some m \<Rightarrow>
          if length p \<le> length m then Some (txn\<lparr>mt_dirty_list := put_dirty (mt_dirty_list txn) n p\<rparr>) else None)"

definition set_mp_flags :: "page \<Rightarrow> nat \<Rightarrow> page" where
  "set_mp_flags p f = patch p 10 (enc16 f)"

definition set_mp_pgno :: "page \<Rightarrow> nat \<Rightarrow> page" where
  "set_mp_pgno p pgno = patch p 0 (enc_le 8 pgno)"

definition upd_db :: "mdb_txn \<Rightarrow> mdb_cursor \<Rightarrow> (mdb_db \<Rightarrow> mdb_db) \<Rightarrow> mdb_txn" where
  "upd_db txn mc f = txn\<lparr>mt_dbs := (mt_dbs txn)[mc_dbi mc := f (mt_dbs txn ! mc_dbi mc)]\<rparr>"

subsection \<open>The dirty list and the loose pages\<close>

definition mdb_page_dirty :: "mdb_txn \<Rightarrow> page \<Rightarrow> mdb_txn option" where
  "mdb_page_dirty txn mp =
     do { (dl, rc) \<leftarrow>
            (if MDB_TXN_WRITEMAP \<in> mt_flags txn then mdb_mid2l_append else mdb_mid2l_insert)
              (mt_dirty_list txn) \<lparr>mid = of_nat (mp_pgno mp), mptr = mp\<rparr>;
          if rc \<noteq> 0 then None
          else Some (txn\<lparr>mt_dirty_list := dl, mt_dirty_room := mt_dirty_room txn - 1\<rparr>) }"

definition mdb_page_loose :: "mdb_cursor \<Rightarrow> mdb_txn \<Rightarrow> pgref \<Rightarrow> (int \<times> mdb_txn) option" where
  "mdb_page_loose mc txn mp =
     do { p \<leftarrow> page_mem txn mp;
          if F_ISSET (mp_flags p) P_DIRTY \<and> mc_dbi mc \<noteq> FREE_DBI
          then do { txn \<leftarrow> put_page txn mp (set_mp_flags p (or (mp_flags p) P_LOOSE));
                    Some (MDB_SUCCESS, txn\<lparr>mt_loose_pgs := mp_pgno p # mt_loose_pgs txn\<rparr>) }
          else do { (r, txn) \<leftarrow> midl_op (\<lambda>ok f. mdb_midl_append ok f (mt_free_pgs txn) (of_nat (mp_pgno p))) txn;
                    Some (case r of Inl rc \<Rightarrow> (rc, txn) | Inr m \<Rightarrow> (MDB_SUCCESS, txn\<lparr>mt_free_pgs := m\<rparr>)) } }"

subsection \<open>Allocating pages\<close>

text \<open>\<open>for (i = mti_numreaders; --i >= 0; )\<close> over the reader table.\<close>

fun find_oldest_loop :: "(nat \<times> nat) list \<Rightarrow> nat \<Rightarrow> nat \<Rightarrow> nat" where
  "find_oldest_loop r 0 oldest = oldest"
| "find_oldest_loop r (Suc i) oldest =
     find_oldest_loop r i (if fst (r ! i) \<noteq> 0 \<and> oldest > snd (r ! i) then snd (r ! i) else oldest)"

definition mdb_find_oldest :: "mdb_txn \<Rightarrow> nat" where
  "mdb_find_oldest txn = find_oldest_loop (me_readers txn) (length (me_readers txn)) (mt_txnid txn - 1)"

text \<open>The search of a run of \<open>n2 + 1\<close> free pages from the tail of \<open>me_pghead\<close>; \<open>0\<close> when there is none.\<close>

function seek_range :: "mdb_id list \<Rightarrow> nat \<Rightarrow> nat \<Rightarrow> nat option" where
  "seek_range mop n2 i =
     (if i \<le> n2 then Some 0
      else
        case rd mop i of
          None \<Rightarrow> None
        | Some pgno \<Rightarrow>
            (case rd mop (i - n2) of
               None \<Rightarrow> None
             | Some q \<Rightarrow> if q = pgno + of_nat n2 then Some i else seek_range mop n2 (i - 1)))"
  by pat_completeness auto
termination
  by (relation "measure (\<lambda>(mop, n2, i). i)") auto

declare seek_range.simps [simp del]

definition pghead_cells :: "mdb_txn \<Rightarrow> mdb_id list" where
  "pghead_cells txn = (case me_pghead txn of None \<Rightarrow> [0] | Some m \<Rightarrow> ids_cells m)"

text \<open>The check that a record is not too recent; \<open>mdb_find_oldest\<close> is called once.\<close>

definition oldest_check :: "mdb_txn \<Rightarrow> nat \<Rightarrow> bool \<Rightarrow> nat \<Rightarrow> nat \<times> bool \<times> mdb_txn" where
  "oldest_check txn oldest found_old lastid =
     (if oldest \<le> lastid \<and> \<not> found_old
      then (mdb_find_oldest txn, True, txn\<lparr>me_pgoldest := mdb_find_oldest txn\<rparr>)
      else (oldest, found_old, txn))"

text \<open>The ID list in the data of a record.\<close>

definition ids_of :: "byte list \<Rightarrow> mdb_id list" where
  "ids_of bs = map (\<lambda>i. of_nat (le_nat (bslice bs (8 * i) 8))) [0..<length bs div 8]"

text \<open>Merging the record \<open>idl\<close> into \<open>me_pghead\<close>, which is created or grown first.\<close>

definition merge_record :: "mdb_txn \<Rightarrow> nat \<Rightarrow> mdb_id list \<Rightarrow> (int \<times> mdb_txn) option" where
  "merge_record txn lastid idl =
     do { n \<leftarrow> rd idl 0;
          (r, txn) \<leftarrow>
            midl_op (\<lambda>ok f. case me_pghead txn of
                       None \<Rightarrow> Some (case mdb_midl_alloc ok f (u32n (unat n)) of None \<Rightarrow> Inl ENOMEM | Some m \<Rightarrow> Inr m)
                     | Some m \<Rightarrow> mdb_midl_need ok f m (ucast n)) txn;
          case r of
            Inl rc \<Rightarrow> Some (rc, txn)
          | Inr m \<Rightarrow>
              do { cells \<leftarrow> mdb_midl_xmerge (ids_cells m) idl;
                   Some (MDB_SUCCESS, txn\<lparr>me_pghead := Some (m\<lparr>ids_cells := cells\<rparr>), me_pglast := lastid\<rparr>) } }"

text \<open>The loop of \<open>mdb_page_alloc\<close>: \<open>Inl\<close> an error, \<open>Inr i\<close> the position of the run in \<open>me_pghead\<close>, \<open>0\<close> for new pages.\<close>

partial_function (option) page_alloc_loop ::
    "nat \<Rightarrow> mdb_txn \<Rightarrow> mdb_cursor \<Rightarrow> mdb_cursor_op \<Rightarrow> nat \<Rightarrow> nat \<Rightarrow> bool \<Rightarrow> int \<Rightarrow> ((int + nat) \<times> mdb_txn) option" where
  "page_alloc_loop num txn m2 op lastid oldest found_old retry =
     do { c \<leftarrow> rd (pghead_cells txn) 0;
          let mop_len = u32n (unat c);
          i \<leftarrow> (if mop_len > num - 1 then seek_range (pghead_cells txn) (num - 1) mop_len else Some 0);
          let retry = (if mop_len > num - 1 then retry - 1 else retry);
          if i \<noteq> 0 then Some (Inr i, txn)
          else if mop_len > num - 1 \<and> retry < 0 then Some (Inr 0, txn)
          else
            do { let first = (op = MDB_FIRST);
                 let lastid = (if first then me_pglast txn else lastid);
                 let oldest = (if first then me_pgoldest txn else oldest);
                 let m2 = (if first then mdb_cursor_init FREE_DBI else m2);
                 let op = (if first \<and> lastid \<noteq> 0 then MDB_SET_RANGE else op);
                 let lastid = lastid + 1;
                 let (oldest, found_old, txn) = oldest_check txn oldest found_old lastid;
                 if oldest \<le> lastid then Some (Inr 0, txn)
                 else
                   do { (rc, (key, dat), m2, txn) \<leftarrow>
                          mdb_cursor_get txn m2 (if op = MDB_SET_RANGE then Some (enc_le 8 lastid) else None) True False op;
                        if rc \<noteq> 0 then Some (if rc = MDB_NOTFOUND then Inr 0 else Inl rc, txn)
                        else
                          do { key \<leftarrow> key;
                               bs \<leftarrow> rdb key 0 8;
                               let lastid = le_nat bs;
                               let (oldest, found_old, txn) = oldest_check txn oldest found_old lastid;
                               if oldest \<le> lastid then Some (Inr 0, txn)
                               else
                                 do { np \<leftarrow> cur_page txn m2;
                                      ki \<leftarrow> cur_ki m2;
                                      leaf \<leftarrow> NODEPTR np ki;
                                      (rc, data, txn) \<leftarrow> mdb_node_read txn np leaf;
                                      if rc \<noteq> 0 then Some (Inl rc, txn)
                                      else
                                        do { (rc, txn) \<leftarrow> merge_record txn lastid (ids_of data);
                                             if rc \<noteq> 0 then Some (Inl rc, txn)
                                             else page_alloc_loop num txn m2 MDB_NEXT lastid oldest found_old retry } } } } } }"

text \<open>\<open>for (j = i - num; j < mop_len; ) mop[++j] = mop[++i]\<close>, for the remaining \<open>n\<close> steps.\<close>

fun move_stragglers :: "mdb_id list \<Rightarrow> nat \<Rightarrow> nat \<Rightarrow> nat \<Rightarrow> mdb_id list option" where
  "move_stragglers mop i j 0 = Some mop"
| "move_stragglers mop i j (Suc n) =
     do { v \<leftarrow> rd mop (i + 1); mop \<leftarrow> wr mop (j + 1) v; move_stragglers mop (i + 1) (j + 1) n }"

text \<open>Taking the \<open>num\<close> pages that end at position \<open>i\<close> off \<open>me_pghead\<close>.\<close>

definition take_pages :: "mdb_txn \<Rightarrow> nat \<Rightarrow> nat \<Rightarrow> mdb_txn option" where
  "take_pages txn i num =
     do { m \<leftarrow> me_pghead txn;
          c \<leftarrow> rd (ids_cells m) 0;
          let mop_len = u32n (unat c) - num;
          cells \<leftarrow> wr (ids_cells m) 0 (of_nat mop_len);
          cells \<leftarrow> move_stragglers cells i (i - num) (mop_len - (i - num));
          Some (txn\<lparr>me_pghead := Some (m\<lparr>ids_cells := cells\<rparr>)\<rparr>) }"

definition alloc_fail :: "int \<Rightarrow> mdb_txn \<Rightarrow> (int \<times> pgref \<times> mdb_txn) option" where
  "alloc_fail rc txn = Some (rc, Map_page 0, txn_error txn)"

definition mdb_page_alloc :: "mdb_txn \<Rightarrow> nat \<Rightarrow> (int \<times> pgref \<times> mdb_txn) option" where
  "mdb_page_alloc txn num =
     (if num = 1 \<and> mt_loose_pgs txn \<noteq> []
      then Some (MDB_SUCCESS, Dirty_page (hd (mt_loose_pgs txn)), txn\<lparr>mt_loose_pgs := tl (mt_loose_pgs txn)\<rparr>)
      else if mt_dirty_room txn = 0 then alloc_fail MDB_TXN_FULL txn
      else
        do { (r, txn) \<leftarrow> page_alloc_loop num txn (mdb_cursor_init FREE_DBI) MDB_FIRST 0 0 False (60 * int num);
             case r of
               Inl rc \<Rightarrow> alloc_fail rc txn
             | Inr i \<Rightarrow>
                 if i = 0 \<and> mt_next_pgno txn + num \<ge> me_maxpg txn then alloc_fail MDB_MAP_FULL txn
                 else
                   do { pgno \<leftarrow> (if i = 0 then Some (mt_next_pgno txn)
                                else do { x \<leftarrow> rd (pghead_cells txn) i; Some (unat x) });
                        let (np, txn) = mdb_page_malloc txn num;
                        case np of
                          None \<Rightarrow> alloc_fail E_NOMEM txn
                        | Some np \<Rightarrow>
                            do { txn \<leftarrow> (if i \<noteq> 0 then take_pages txn i num else Some (txn\<lparr>mt_next_pgno := pgno + num\<rparr>));
                                 txn \<leftarrow> mdb_page_dirty txn (set_mp_pgno np pgno);
                                 Some (MDB_SUCCESS, Dirty_page pgno, txn) } } })"

subsection \<open>Making a page writable\<close>

definition align_down :: "nat \<Rightarrow> nat" where
  "align_down n = n - n mod 8"

definition mdb_page_copy :: "page \<Rightarrow> page \<Rightarrow> nat \<Rightarrow> page option" where
  "mdb_page_copy dst src psize =
     (let upper = mp_upper src; lower = mp_lower src; unused = align_down (SIZELEFT src) in
      if unused \<noteq> 0 \<and> \<not> IS_LEAF2 src then
        do { let upper = align_down upper;
             a \<leftarrow> rdb src 0 (align_down (lower + 7));
             dst \<leftarrow> wrb dst 0 a;
             b \<leftarrow> rdb src upper (psize - upper);
             wrb dst upper b }
      else do { a \<leftarrow> rdb src 0 (psize - unused); wrb dst 0 a })"

text \<open>The result of \<open>mdb_page_unspill\<close> has the writable page, if the page was on the spill list.\<close>

definition spill_remove :: "midl \<Rightarrow> nat \<Rightarrow> midl option" where
  "spill_remove sl x =
     do { c \<leftarrow> rd (ids_cells sl) 0;
          cells \<leftarrow> (if x = unat c then wr (ids_cells sl) 0 (c - 1)
                   else do { y \<leftarrow> rd (ids_cells sl) x; wr (ids_cells sl) x (or y 1) });
          Some (sl\<lparr>ids_cells := cells\<rparr>) }"

definition mdb_page_unspill :: "mdb_txn \<Rightarrow> pgref \<Rightarrow> (int \<times> pgref option \<times> mdb_txn) option" where
  "mdb_page_unspill txn mp =
     do { p \<leftarrow> page_mem txn mp;
          let pgno = mp_pgno p;
          case mt_spill_pgs txn of
            None \<Rightarrow> Some (MDB_SUCCESS, None, txn)
          | Some sl \<Rightarrow>
              do { sp \<leftarrow> spill_find sl (push_bit 1 (of_nat pgno));
                   case sp of
                     None \<Rightarrow> Some (MDB_SUCCESS, None, txn)
                   | Some x \<Rightarrow>
                       if mt_dirty_room txn = 0 then Some (MDB_TXN_FULL, None, txn)
                       else
                         do { let num = (if IS_OVERFLOW p then mp_pages p else 1);
                              let (np, txn) = mdb_page_malloc txn num;
                              case np of
                                None \<Rightarrow> Some (E_NOMEM, None, txn)
                              | Some np \<Rightarrow>
                                  do { np \<leftarrow> (if num > 1
                                             then do { m \<leftarrow> ref_mem txn mp; a \<leftarrow> rdb m 0 (num * me_psize txn); wrb np 0 a }
                                             else mdb_page_copy np p (me_psize txn));
                                       sl \<leftarrow> spill_remove sl x;
                                       txn \<leftarrow> mdb_page_dirty (txn\<lparr>mt_spill_pgs := Some sl\<rparr>) (set_mp_flags np (or (mp_flags np) P_DIRTY));
                                       Some (MDB_SUCCESS, Some (Dirty_page pgno), txn) } } } }"

text \<open>The last steps of \<open>mdb_page_touch\<close>: the cursor takes the writable page.\<close>

definition touch_done :: "mdb_cursor \<Rightarrow> mdb_txn \<Rightarrow> pgref \<Rightarrow> cres" where
  "touch_done mc txn np = do { pg \<leftarrow> wr (mc_pg mc) (mc_top mc) (Some np); Some (MDB_SUCCESS, mc\<lparr>mc_pg := pg\<rparr>, txn) }"

text \<open>The part that gives the page a new number: allocation, the old number to \<open>mt_free_pgs\<close>, the new one into the
  parent or the root, and the copy.\<close>

definition touch_relocate :: "mdb_cursor \<Rightarrow> mdb_txn \<Rightarrow> page \<Rightarrow> cres" where
  "touch_relocate mc txn p =
     do { (r, txn) \<leftarrow> midl_op (\<lambda>ok f. mdb_midl_need ok f (mt_free_pgs txn) 1) txn;
          case r of
            Inl rc \<Rightarrow> Some (rc, mc, txn_error txn)
          | Inr m \<Rightarrow>
              do { let txn = txn\<lparr>mt_free_pgs := m\<rparr>;
                   (rc, np, txn) \<leftarrow> mdb_page_alloc txn 1;
                   if rc \<noteq> 0 then Some (rc, mc, txn_error txn)
                   else
                     do { npg \<leftarrow> page_mem txn np;
                          let pgno = mp_pgno npg;
                          if mp_pgno p = pgno then None
                          else
                            do { cells \<leftarrow> mdb_midl_xappend (ids_cells (mt_free_pgs txn)) (of_nat (mp_pgno p));
                                 let txn = txn\<lparr>mt_free_pgs := (mt_free_pgs txn)\<lparr>ids_cells := cells\<rparr>\<rparr>;
                                 txn \<leftarrow>
                                   (if mc_top mc \<noteq> 0
                                    then do { pr \<leftarrow> cur_ref mc (mc_top mc - 1);
                                              parent \<leftarrow> page_mem txn pr;
                                              ki \<leftarrow> rd (mc_ki mc) (mc_top mc - 1);
                                              node \<leftarrow> NODEPTR parent ki;
                                              parent \<leftarrow> SETPGNO parent node pgno;
                                              put_page txn pr parent }
                                    else Some (upd_db txn mc (\<lambda>db. db\<lparr>md_root := pgno\<rparr>)));
                                 q \<leftarrow> mdb_page_copy npg p (me_psize txn);
                                 let q = set_mp_pgno q pgno;
                                 txn \<leftarrow> put_page txn np (set_mp_flags q (or (mp_flags q) P_DIRTY));
                                 touch_done mc txn np } } } }"

definition mdb_page_touch :: "mdb_cursor \<Rightarrow> mdb_txn \<Rightarrow> cres" where
  "mdb_page_touch mc txn =
     do { r \<leftarrow> cur_ref mc (mc_top mc);
          p \<leftarrow> page_mem txn r;
          if F_ISSET (mp_flags p) P_DIRTY
          then (case r of
                  Map_page n \<Rightarrow> if n > 0 then Some (MDB_CORRUPTED, mc, txn) else Some (MDB_SUCCESS, mc, txn)
                | Dirty_page n \<Rightarrow> Some (MDB_SUCCESS, mc, txn))
          else
            do { (rc, np, txn) \<leftarrow>
                   (if MDB_TXN_SPILLS \<in> mt_flags txn then mdb_page_unspill txn r else Some (MDB_SUCCESS, None, txn));
                 if rc \<noteq> 0 then Some (rc, mc, txn_error txn)
                 else
                   case np of
                     Some np \<Rightarrow> touch_done mc txn np
                   | None \<Rightarrow> touch_relocate mc txn p } }"

subsection \<open>Freeing overflow pages\<close>

text \<open>\<open>for (ix = dl[x]; ix.mptr != mp; ix = iy)\<close>: removes the entry of page \<open>n\<close> by shifting the entries above it down.
  \<open>None\<close> when the entry is missing, where an assertion of the C code fails.\<close>

fun dirty_remove_loop ::
    "page mdb_id2 list \<Rightarrow> nat \<Rightarrow> nat \<Rightarrow> page mdb_id2 \<Rightarrow> page mdb_id2 list option" where
  "dirty_remove_loop dl n 0 ix = None"
| "dirty_remove_loop dl n (Suc x) ix =
     (if unat (mid ix) = n then Some dl
      else if x > 0 then do { iy \<leftarrow> rd dl x; dl \<leftarrow> wr dl x ix; dirty_remove_loop dl n x iy }
      else None)"

text \<open>\<open>for (i = mop[0]; i && mop[i] < pg; i--) mop[j--] = mop[i]\<close>: the array and the final \<open>i\<close>, \<open>j\<close>.\<close>

fun release_shift :: "mdb_id list \<Rightarrow> mdb_id \<Rightarrow> nat \<Rightarrow> nat \<Rightarrow> (mdb_id list \<times> nat \<times> nat) option" where
  "release_shift mop pg 0 j = Some (mop, 0, j)"
| "release_shift mop pg (Suc i) j =
     do { v \<leftarrow> rd mop (Suc i);
          if v < pg then do { mop \<leftarrow> wr mop j v; release_shift mop pg i (j - 1) } else Some (mop, Suc i, j) }"

text \<open>\<open>while (j > i) mop[j--] = pg++\<close>, for the remaining \<open>n\<close> steps.\<close>

fun release_fill :: "mdb_id list \<Rightarrow> nat \<Rightarrow> mdb_id \<Rightarrow> nat \<Rightarrow> mdb_id list option" where
  "release_fill mop i pg 0 = Some mop"
| "release_fill mop i pg (Suc n) = do { mop \<leftarrow> wr mop (i + Suc n) pg; release_fill mop i (pg + 1) n }"

definition release_pages :: "mdb_id list \<Rightarrow> mdb_id \<Rightarrow> nat \<Rightarrow> mdb_id list option" where
  "release_pages mop pg ovpages =
     do { c \<leftarrow> rd mop 0;
          (mop, i, j) \<leftarrow> release_shift mop pg (unat c) (unat c + ovpages);
          mop \<leftarrow> release_fill mop i pg (j - i);
          wr mop 0 (c + of_nat ovpages) }"

text \<open>The removal of the page from the spill list or from the dirty list.\<close>

definition ovpage_unlist :: "mdb_txn \<Rightarrow> page \<Rightarrow> nat \<Rightarrow> mdb_txn option" where
  "ovpage_unlist txn p x =
     (if \<not> F_ISSET (mp_flags p) P_DIRTY then
        do { sl \<leftarrow> mt_spill_pgs txn; sl \<leftarrow> spill_remove sl x; Some (txn\<lparr>mt_spill_pgs := Some sl\<rparr>) }
      else
        do { c \<leftarrow> rd (mt_dirty_list txn) 0;
             ix \<leftarrow> rd (mt_dirty_list txn) (unat (mid c));
             dl \<leftarrow> dirty_remove_loop (mt_dirty_list txn) (mp_pgno p) (unat (mid c)) ix;
             dl \<leftarrow> wr dl 0 (c\<lparr>mid := mid c - 1\<rparr>);
             Some (mdb_dpage_free (txn\<lparr>mt_dirty_list := dl, mt_dirty_room := mt_dirty_room txn + 1\<rparr>) p) })"

definition free_range :: "mdb_txn \<Rightarrow> nat \<Rightarrow> nat \<Rightarrow> (int \<times> mdb_txn) option" where
  "free_range txn pg ovpages =
     do { (r, txn) \<leftarrow> midl_op (\<lambda>ok f. mdb_midl_append_range ok f (mt_free_pgs txn) (of_nat pg) (of_nat ovpages)) txn;
          Some (case r of Inl rc \<Rightarrow> (rc, txn) | Inr m \<Rightarrow> (MDB_SUCCESS, txn\<lparr>mt_free_pgs := m\<rparr>)) }"

definition mdb_ovpage_free :: "mdb_cursor \<Rightarrow> mdb_txn \<Rightarrow> pgref \<Rightarrow> (int \<times> mdb_txn) option" where
  "mdb_ovpage_free mc txn mp =
     do { p \<leftarrow> page_mem txn mp;
          let pg = mp_pgno p;
          let ovpages = mp_pages p;
          sp \<leftarrow> (if F_ISSET (mp_flags p) P_DIRTY then Some None
                else case mt_spill_pgs txn of None \<Rightarrow> Some None | Some sl \<Rightarrow> spill_find sl (push_bit 1 (of_nat pg)));
          (rc, txn) \<leftarrow>
            (case me_pghead txn of
               Some head \<Rightarrow>
                 if F_ISSET (mp_flags p) P_DIRTY \<or> sp \<noteq> None then
                   do { (r, txn) \<leftarrow> midl_op (\<lambda>ok f. mdb_midl_need ok f head (of_nat ovpages)) txn;
                        case r of
                          Inl rc \<Rightarrow> Some (rc, txn)
                        | Inr m \<Rightarrow>
                            do { txn \<leftarrow> ovpage_unlist txn p (case sp of None \<Rightarrow> 0 | Some x \<Rightarrow> x);
                                 cells \<leftarrow> release_pages (ids_cells m) (of_nat pg) ovpages;
                                 Some (MDB_SUCCESS, txn\<lparr>me_pghead := Some (m\<lparr>ids_cells := cells\<rparr>)\<rparr>) } }
                 else free_range txn pg ovpages
             | None \<Rightarrow> free_range txn pg ovpages);
          if rc \<noteq> 0 then Some (rc, txn)
          else Some (MDB_SUCCESS, upd_db txn mc (\<lambda>db. db\<lparr>md_overflow_pages := md_overflow_pages db - ovpages\<rparr>)) }"

end
