(* ===== verification/LMDB_Alloc_Correct.thy ===== *)
theory LMDB_Alloc_Correct
  imports LMDB_Alloc LMDB_Read
begin

text \<open>
  The page allocator hands out pages that are free: the oldest reader is found, runs of pages are taken off and put
  back into \<open>me_pghead\<close> correctly, records that a reader may still need are not used, and copying a page for writing
  keeps its nodes.
\<close>


subsection \<open>Pages that agree outside their free space\<close>

lemma page_lay_agree:
  assumes lay: "page_lay p L" and len: "length d = length p" and fl: "IS_LEAF d = IS_LEAF p" "IS_LEAF2 d = IS_LEAF2 p"
    and lo: "\<And>a. 12 \<le> a \<Longrightarrow> a + 2 \<le> mp_lower p \<Longrightarrow> get16 d a = get16 p a"
    and up: "\<And>a n. mp_upper p \<le> a \<Longrightarrow> bslice d a n = bslice p a n"
  shows "page_lay d L"
proof -
  note lay' = lay [unfolded page_lay_def]
  have hdr: "mp_lower d = mp_lower p" "mp_upper d = mp_upper p"
    using lo [of 12] lo [of 14] lay' by (auto simp: mp_lower_def mp_upper_def PTRS_def PAGEHDRSZ_def)
  have "map (\<lambda>i. get16 d (PTRS i)) [0..<length L] = map (\<lambda>i. get16 p (PTRS i)) [0..<length L]"
    using lay' by (intro map_cong refl lo) (auto simp: PTRS_def PAGEHDRSZ_def)
  moreover have "node_in d x" if "x \<in> set L" for x
    using lay' that hdr len fl up by (cases x) fastforce
  ultimately show ?thesis using lay' hdr len fl by (simp add: page_lay_def)
qed

lemma bslice_prefix_get16:
  assumes "bslice d 0 n = bslice p 0 n" "a + 2 \<le> n"
  shows "get16 d a = get16 p a"
proof -
  have "bslice (bslice q 0 n) a 2 = bslice q a 2" for q :: page using assms(2) by (simp add: bslice_bslice)
  then show ?thesis using assms(1) by (metis get16_def)
qed

lemma align_down: "align_down n \<le> n" "n < align_down n + 8" "8 dvd align_down n"
  by (auto simp: align_down_def)

text \<open>\<open>mdb_page_copy\<close> copies the header, the pointers and the nodes; only unused space may differ.\<close>

lemma bslice_suffix:
  fixes d p :: page
  assumes "bslice d u m = bslice p u m" "length d = length p" "u + m = length p" "u \<le> a"
  shows "bslice d a n = bslice p a n"
proof -
  have e: "drop u d = drop u p" using assms by (simp add: bslice_def)
  have "bslice q a n = take n (drop (a - u) (drop u q))" for q :: page using assms(4) by (simp add: bslice_def)
  then show ?thesis using e by (simp del: drop_drop)
qed

lemma page_copy_eq:
  assumes lay: "page_lay src L" and len: "length src = psize" "length dst = psize"
  shows "\<exists>d. mdb_page_copy dst src psize = Some d \<and> length d = psize \<and> bslice d 0 (mp_lower src) = bslice src 0 (mp_lower src) \<and>
    (\<forall>a n. mp_upper src \<le> a \<longrightarrow> bslice d a n = bslice src a n)"
proof -
  let ?lo = "mp_lower src" and ?up = "mp_upper src" and ?un = "align_down (SIZELEFT src)"
  have b: "?lo \<le> ?up" "?up \<le> psize" "\<not> IS_LEAF2 src" "SIZELEFT src = ?up - ?lo"
    using lay len page_lay_SIZELEFT [OF lay] by (auto simp: page_lay_def)
  show ?thesis
  proof (cases "?un = 0")
    case True
    then have "mdb_page_copy dst src psize = Some (patch dst 0 (bslice src 0 psize))"
      using len by (simp add: mdb_page_copy_def mem_simps Let_def)
    then show ?thesis using len by (simp add: patch_def bslice_def)
  next
    case False
    let ?n1 = "align_down (?lo + 7)" and ?u1 = "align_down ?up"
    have n1: "?lo \<le> ?n1" "?n1 \<le> ?u1" "?u1 \<le> ?up"
    proof -
      show "?lo \<le> ?n1" using align_down(2) [of "?lo + 7"] by linarith
      have "8 \<le> ?un" using False align_down(3) [of "SIZELEFT src"] by (metis dvd_imp_le neq0_conv)
      then have "?lo + 8 \<le> ?up" using align_down(1) [of "SIZELEFT src"] b by linarith
      then have "?n1 < ?u1 + 8" using align_down(1) [of "?lo + 7"] align_down(2) [of ?up] by linarith
      moreover obtain i j where "?n1 = 8 * i" "?u1 = 8 * j" using align_down(3) by (meson dvdE)
      ultimately show "?n1 \<le> ?u1" by simp
      show "?u1 \<le> ?up" by (rule align_down(1))
    qed
    let ?d1 = "patch dst 0 (bslice src 0 ?n1)" and ?b = "bslice src ?u1 (psize - ?u1)"
    have l: "?n1 \<le> length src" "?u1 + (psize - ?u1) \<le> length src" using n1 b len by auto
    have l1: "length ?d1 = psize" "length ?b = psize - ?u1" using l len by auto
    let ?d = "patch ?d1 ?u1 ?b"
    have "mdb_page_copy dst src psize = Some ?d"
      using False b l l1 len by (simp add: mdb_page_copy_def mem_simps Let_def)
    moreover have "length ?d = psize" using l1 len l by simp
    moreover have "bslice ?d 0 ?lo = bslice src 0 ?lo"
    proof -
      have "?u1 + length ?b \<le> length ?d1" using l1 n1 b by simp
      then have "bslice ?d 0 ?lo = bslice ?d1 0 ?lo" using n1 by (intro bslice_patch_disjoint) auto
      also have "\<dots> = bslice (bslice src 0 ?n1) 0 ?lo" using l len n1 by (subst bslice_patch_sub) auto
      finally show ?thesis using n1 by (simp add: bslice_bslice)
    qed
    moreover have "bslice ?d ?u1 (psize - ?u1) = bslice src ?u1 (psize - ?u1)" using l1 n1 b by simp
    then have "bslice ?d a n = bslice src a n" if "?up \<le> a" for a n
      by (rule bslice_suffix) (use that calculation n1 b len in auto)
    ultimately show ?thesis by blast
  qed
qed

lemma page_copy_rep:
  assumes rep: "page_rep src nbs" and len: "length src = psize" "length dst = psize"
  shows "\<exists>d. mdb_page_copy dst src psize = Some d \<and> length d = psize \<and> page_rep d nbs \<and> bslice d 0 12 = bslice src 0 12"
proof -
  obtain L where L: "page_lay src L" "map snd L = nbs" using rep by (auto simp: page_rep_def)
  obtain d where d: "mdb_page_copy dst src psize = Some d" "length d = psize" "bslice d 0 (mp_lower src) = bslice src 0 (mp_lower src)"
      "\<forall>a n. mp_upper src \<le> a \<longrightarrow> bslice d a n = bslice src a n"
    using page_copy_eq [OF L(1) len] by blast
  have lo: "0 + 12 \<le> mp_lower src" using L(1) by (simp add: page_lay_def PTRS_def PAGEHDRSZ_def)
  have hdr: "bslice d 0 12 = bslice src 0 12"
    using arg_cong [OF d(3), of "\<lambda>x. bslice x 0 12"] unfolding bslice_bslice [OF lo] by simp
  have "page_lay d L"
    by (rule page_lay_agree [OF L(1)]) (use d len flags_of_hdr [OF hdr] bslice_prefix_get16 [OF d(3)] in auto)
  then show ?thesis using d(1,2) hdr L(2) by (auto simp: page_rep_def)
qed

subsection \<open>The oldest reader\<close>

definition reader_txns :: "(nat \<times> nat) list \<Rightarrow> nat set" where
  "reader_txns rs = snd ` {r \<in> set rs. fst r \<noteq> 0}"

lemma find_oldest_loop_Min:
  "n \<le> length r \<Longrightarrow> find_oldest_loop r n oldest = Min (insert oldest (reader_txns (take n r)))"
proof (induction n arbitrary: oldest)
  case 0
  then show ?case by (simp add: reader_txns_def)
next
  case (Suc n)
  let ?S = "reader_txns (take n r)"
  have fin: "finite ?S" by (simp add: reader_txns_def)
  have S: "reader_txns (take (Suc n) r) = (if fst (r ! n) \<noteq> 0 then insert (snd (r ! n)) ?S else ?S)"
    using Suc.prems by (auto simp: reader_txns_def take_Suc_conv_app_nth)
  show ?case using Suc fin S by (cases "?S = {}") (auto simp: min_def)
qed

lemma mdb_find_oldest_Min: "mdb_find_oldest txn = Min (insert (mt_txnid txn - 1) (reader_txns (me_readers txn)))"
  using find_oldest_loop_Min [of "length (me_readers txn)" "me_readers txn"] by (simp add: mdb_find_oldest_def)

lemma finite_reader_txns: "finite (reader_txns rs)"
  by (simp add: reader_txns_def)

subsection \<open>Runs of free pages\<close>

lemma seek_range_cases:
  "i < length mop \<Longrightarrow> \<exists>k. seek_range mop n2 i = Some k \<and>
     (k = 0 \<longrightarrow> (\<forall>j. n2 < j \<and> j \<le> i \<longrightarrow> mop ! (j - n2) \<noteq> mop ! j + of_nat n2)) \<and>
     (k \<noteq> 0 \<longrightarrow> n2 < k \<and> k \<le> i \<and> mop ! (k - n2) = mop ! k + of_nat n2)"
proof (induction i)
  case 0
  then show ?case by (simp add: seek_range.simps)
next
  case (Suc i)
  consider "Suc i \<le> n2" | "n2 < Suc i" "mop ! (Suc i - n2) = mop ! Suc i + of_nat n2" |
    "n2 < Suc i" "mop ! (Suc i - n2) \<noteq> mop ! Suc i + of_nat n2" by linarith
  then show ?case
  proof cases
    case 1
    then show ?thesis by (subst seek_range.simps) auto
  next
    case 2
    then show ?thesis using Suc.prems by (subst seek_range.simps) (auto simp: mem_simps)
  next
    case 3
    obtain k where k: "seek_range mop n2 i = Some k"
        "k = 0 \<longrightarrow> (\<forall>j. n2 < j \<and> j \<le> i \<longrightarrow> mop ! (j - n2) \<noteq> mop ! j + of_nat n2)"
        "k \<noteq> 0 \<longrightarrow> n2 < k \<and> k \<le> i \<and> mop ! (k - n2) = mop ! k + of_nat n2"
      using Suc by auto
    have "seek_range mop n2 (Suc i) = Some k"
      using 3 Suc.prems k(1) by (subst seek_range.simps) (auto simp: mem_simps)
    moreover have "\<forall>j. n2 < j \<and> j \<le> Suc i \<longrightarrow> mop ! (j - n2) \<noteq> mop ! j + of_nat n2" if "k = 0"
      using k(2) that 3(2) by (metis le_Suc_eq)
    ultimately show ?thesis using k(3) by auto
  qed
qed

text \<open>In a strictly descending list the end points of a run determine all of it.\<close>

lemma strict_desc_gap:
  assumes "sorted_wrt (>) (xs :: 'a::len word list)" "i + m < length xs"
  shows "unat (xs ! (i + m)) + m \<le> unat (xs ! i)"
  using assms(2)
proof (induction m)
  case (Suc m)
  have "xs ! (i + Suc m) < xs ! (i + m)" using sorted_wrt_nth_less [OF assms(1), of "i + m" "i + Suc m"] Suc.prems by simp
  then have "unat (xs ! (i + Suc m)) < unat (xs ! (i + m))" by (simp add: word_less_nat_alt)
  then show ?case using Suc by simp
qed simp

lemma run_elems:
  assumes s: "sorted_wrt (>) (xs :: 'a::len word list)" and i: "i + n2 < length xs" and e: "xs ! i = xs ! (i + n2) + of_nat n2"
    and m: "m \<le> n2"
  shows "unat (xs ! (i + n2)) + n2 < 2 ^ LENGTH('a)" "xs ! (i + (n2 - m)) = xs ! (i + n2) + of_nat m"
proof -
  have g: "unat (xs ! (i + n2)) + n2 \<le> unat (xs ! i)" by (rule strict_desc_gap [OF s i])
  have lt: "unat (xs ! i) < 2 ^ LENGTH('a)" by simp
  then show nw: "unat (xs ! (i + n2)) + n2 < 2 ^ LENGTH('a)" using g by linarith
  have e': "unat (xs ! i) = unat (xs ! (i + n2)) + n2"
    using nw unfolding e by (simp add: unat_word_ariths unat_of_nat mod_add_right_eq)
  have a: "unat (xs ! (i + (n2 - m))) + (n2 - m) \<le> unat (xs ! i)" using strict_desc_gap [OF s, of i "n2 - m"] i by simp
  have "unat (xs ! (i + (n2 - m) + m)) + m \<le> unat (xs ! (i + (n2 - m)))"
    by (rule strict_desc_gap [OF s]) (use i m in simp)
  then have b: "unat (xs ! (i + n2)) + m \<le> unat (xs ! (i + (n2 - m)))" using m by simp
  have "unat (xs ! (i + (n2 - m))) = unat (xs ! (i + n2)) + m" using a b e' m by linarith
  moreover have "unat (xs ! (i + n2) + of_nat m) = unat (xs ! (i + n2)) + m"
    using nw m by (simp add: unat_word_ariths unat_of_nat mod_add_right_eq)
  ultimately show "xs ! (i + (n2 - m)) = xs ! (i + n2) + of_nat m" by (simp add: word_unat_eq_iff)
qed

lemma move_stragglers_eq:
  "j \<le> i \<Longrightarrow> i + n < length mop \<Longrightarrow>
   move_stragglers mop i j n = Some (take (Suc j) mop @ take n (drop (Suc i) mop) @ drop (Suc j + n) mop)"
proof (induction n arbitrary: mop i j)
  case (Suc n)
  let ?m = "mop[Suc j := mop ! Suc i]"
  have "move_stragglers mop i j (Suc n) = move_stragglers ?m (i + 1) (j + 1) n" using Suc.prems by (simp add: mem_simps)
  also have "\<dots> = Some (take (Suc (j + 1)) ?m @ take n (drop (Suc (i + 1)) ?m) @ drop (Suc (j + 1) + n) ?m)"
    using Suc.prems by (intro Suc.IH) auto
  also have "take (Suc (j + 1)) ?m = take (Suc j) mop @ [mop ! Suc i]" using Suc.prems by (simp add: take_Suc_conv_app_nth)
  also have "drop (Suc (i + 1)) ?m = drop (Suc (Suc i)) mop" using Suc.prems by simp
  also have "drop (Suc (j + 1) + n) ?m = drop (Suc j + Suc n) mop" by simp
  finally show ?case using Suc.prems by (simp add: Cons_nth_drop_Suc [symmetric])
qed simp

lemma take_pages_eq:
  assumes head: "me_pghead txn = Some m" and ok: "idl_ok (ids_cells m)" and cnt: "idl_count (ids_cells m) < 2 ^ 32"
    and k: "num \<le> k" "k \<le> idl_count (ids_cells m)" "0 < num"
  shows "\<exists>m'. take_pages txn k num = Some (txn\<lparr>me_pghead := Some m'\<rparr>) \<and> idl_ok (ids_cells m') \<and> ids_alloc m' = ids_alloc m \<and>
    length (ids_cells m') = length (ids_cells m) \<and>
    idl_elems (ids_cells m') = take (k - num) (idl_elems (ids_cells m)) @ drop k (idl_elems (ids_cells m))"
proof -
  let ?c = "ids_cells m" and ?n = "idl_count (ids_cells m)"
  obtain d ds where c: "?c = d # ds" using ok by (cases ?c) (auto simp: idl_ok_def)
  have n: "unat d = ?n" "?n < length ?c" using ok by (auto simp: c idl_count_def idl_ok_def)
  let ?l = "?n - num"
  let ?ds = "take (k - num) ds @ take (?n - k) (drop k ds) @ drop ?l ds"
  have "move_stragglers (of_nat ?l # ds) k (k - num) (?l - (k - num)) = Some (of_nat ?l # ?ds)"
  proof (subst move_stragglers_eq)
    show "Some (take (Suc (k - num)) (of_nat ?l # ds) @ take (?l - (k - num)) (drop (Suc k) (of_nat ?l # ds)) @
        drop (Suc (k - num) + (?l - (k - num))) (of_nat ?l # ds)) = Some (of_nat ?l # ?ds)"
      using k by simp
  qed (use k n c in auto)
  then have t: "take_pages txn k num = Some (txn\<lparr>me_pghead := Some (m\<lparr>ids_cells := of_nat ?l # ?ds\<rparr>)\<rparr>)"
    using head cnt n by (simp add: take_pages_def mem_simps c Let_def)
  have "unat (of_nat ?l :: mdb_id) = ?l" using cnt by (simp add: unat_of_nat)
  then have ct: "idl_count (of_nat ?l # ?ds) = ?l" by (simp add: idl_count_def)
  have nd: "?n \<le> length ds" using n(2) c by simp
  have len: "length ?ds = length ds" using k nd by simp
  have "idl_ok (of_nat ?l # ?ds)" unfolding idl_ok_def ct using len nd by simp
  moreover have es: "idl_elems ?c = take ?n ds" by (simp add: idl_elems_def c)
  have "idl_elems (of_nat ?l # ?ds) = take (k - num) (idl_elems ?c) @ drop k (idl_elems ?c)"
  proof -
    define A where "A = take (k - num) ds @ take (?n - k) (drop k ds)"
    have "length A = ?l" using k nd by (simp add: A_def)
    then have "take ?l (A @ drop ?l ds) = A" by simp
    then have "take ?l ?ds = take (k - num) ds @ take (?n - k) (drop k ds)" by (simp add: A_def)
    moreover have "min (k - num) ?n = k - num" using k by linarith
    then have "take (k - num) (take ?n ds) = take (k - num) ds" by simp
    ultimately show ?thesis unfolding es unfolding idl_elems_def ct by (simp add: drop_take)
  qed
  ultimately show ?thesis using t len c by (intro exI [of _ "m\<lparr>ids_cells := of_nat ?l # ?ds\<rparr>"]) simp
qed

lemma desc_takeWhile: "desc xs \<Longrightarrow> takeWhile (\<lambda>x. pg \<le> x) xs = filter (\<lambda>x. pg \<le> x) xs"
  by (induction xs) (auto simp: empty_filter_conv not_le dest!: le_less_trans)

lemma desc_dropWhile: "desc xs \<Longrightarrow> dropWhile (\<lambda>x. pg \<le> x) xs = filter (\<lambda>x. x < pg) xs"
  by (induction xs) (auto simp: not_le intro!: filter_True [symmetric] dest!: le_less_trans)

subsection \<open>Giving pages back\<close>

lemma release_fill_eq: "release_fill mop i pg n = append_range_loop mop i n pg"
  by (induction n arbitrary: mop pg) auto

lemma release_shift_eq:
  "i < length mop \<Longrightarrow> i + n < length mop \<Longrightarrow> (\<forall>k. 1 \<le> k \<and> k \<le> i \<longrightarrow> (mop ! k < pg \<longleftrightarrow> a < k)) \<Longrightarrow> a \<le> i \<Longrightarrow> 0 < n \<Longrightarrow>
   \<exists>mop'. release_shift mop pg i (i + n) = Some (mop', a, a + n) \<and> length mop' = length mop \<and>
     take (Suc a) mop' = take (Suc a) mop \<and> drop (Suc (a + n)) mop' = take (i - a) (drop (Suc a) mop) @ drop (Suc (i + n)) mop"
proof (induction i arbitrary: mop)
  case 0
  then show ?case by auto
next
  case (Suc i)
  show ?case
  proof (cases "a = Suc i")
    case True
    then show ?thesis using Suc.prems by (auto simp: mem_simps)
  next
    case False
    then have ai: "a \<le> i" using Suc.prems(4) by simp
    have lt: "mop ! Suc i < pg" using Suc.prems(3) [rule_format, of "Suc i"] ai by simp
    let ?m = "mop[Suc i + n := mop ! Suc i]"
    have "\<exists>mop'. release_shift ?m pg i (i + n) = Some (mop', a, a + n) \<and> length mop' = length ?m \<and>
        take (Suc a) mop' = take (Suc a) ?m \<and> drop (Suc (a + n)) mop' = take (i - a) (drop (Suc a) ?m) @ drop (Suc (i + n)) ?m"
      by (rule Suc.IH) (use Suc.prems ai in auto)
    then obtain mop' where m': "release_shift ?m pg i (i + n) = Some (mop', a, a + n)" "length mop' = length mop"
        "take (Suc a) mop' = take (Suc a) ?m" "drop (Suc (a + n)) mop' = take (i - a) (drop (Suc a) ?m) @ drop (Suc (i + n)) ?m"
      by auto
    have r: "release_shift mop pg (Suc i) (Suc i + n) = release_shift ?m pg i (i + n)"
      using Suc.prems(1,2) lt by (simp add: mem_simps)
    have t: "take (Suc a) ?m = take (Suc a) mop" using ai by simp
    have "take (i - a) (drop (Suc a) ?m) = take (i - a) (drop (Suc a) mop)"
      using ai Suc.prems(5) by (simp add: drop_update_swap)
    moreover have "drop (Suc (i + n)) ?m = mop ! Suc i # drop (Suc (Suc i + n)) mop"
      using Suc.prems(2) by (simp add: Cons_nth_drop_Suc [symmetric])
    moreover have "take (Suc i - a) (drop (Suc a) mop) = take (i - a) (drop (Suc a) mop) @ [mop ! Suc i]"
      using ai Suc.prems(1) by (simp add: Suc_diff_le take_Suc_conv_app_nth)
    ultimately show ?thesis using r m' t by (intro exI [of _ mop']) simp
  qed
qed

text \<open>Inserting a run of \<open>n\<close> page numbers from \<open>pg\<close> on into a descending list.\<close>

lemma release_pages_eq:
  assumes ok: "idl_ok mop" and d: "desc (idl_elems mop)" and room: "idl_count mop + n < length mop" "length mop < 2 ^ 64" and n: "0 < n"
  shows "\<exists>mop'. release_pages mop pg n = Some mop' \<and> idl_ok mop' \<and> length mop' = length mop \<and>
    idl_elems mop' = filter (\<lambda>x. pg \<le> x) (idl_elems mop) @ map (\<lambda>k. pg + of_nat k) (rev [0..<n]) @ filter (\<lambda>x. x < pg) (idl_elems mop)"
proof -
  let ?es = "idl_elems mop" and ?c = "idl_count mop"
  obtain h ds where mop: "mop = h # ds" using ok by (cases mop) (auto simp: idl_ok_def)
  have c: "unat h = ?c" "?es = take ?c ds" "?c < length mop" using ok by (auto simp: mop idl_count_def idl_ok_def idl_elems_def)
  let ?a = "length (takeWhile (\<lambda>x. pg \<le> x) ?es)"
  note sp = desc_takeWhile [OF d, of pg] desc_dropWhile [OF d, of pg]
  have es: "take ?a ?es = filter (\<lambda>x. pg \<le> x) ?es" "drop ?a ?es = filter (\<lambda>x. x < pg) ?es"
    using sp takeWhile_eq_take [of "\<lambda>x. pg \<le> x" ?es] dropWhile_eq_drop [of "\<lambda>x. pg \<le> x" ?es] by simp_all
  have al: "?a \<le> ?c" using length_takeWhile_le [of "\<lambda>x. pg \<le> x" ?es] length_idl_elems [OF ok] by simp
  have "mop ! k < pg \<longleftrightarrow> ?a < k" if k: "1 \<le> k" "k \<le> ?c" for k
  proof -
    have nth: "mop ! k = ?es ! (k - 1)" using idl_elems_nth1 [OF ok k] .
    have l: "length ?es = ?c" by (rule length_idl_elems [OF ok])
    show ?thesis
    proof (cases "k - 1 < ?a")
      case True
      then have "?es ! (k - 1) \<in> set (take ?a ?es)" using l k nth_mem [of "k - 1" "take ?a ?es"] by simp
      then show ?thesis using True es(1) nth k by auto
    next
      case False
      then have "?es ! (k - 1) \<in> set (drop ?a ?es)" using l k nth_mem [of "k - 1 - ?a" "drop ?a ?es"] by simp
      then show ?thesis using False es(2) nth k by auto
    qed
  qed
  then obtain m1 where m1: "release_shift mop pg ?c (?c + n) = Some (m1, ?a, ?a + n)" "length m1 = length mop"
      "take (Suc ?a) m1 = take (Suc ?a) mop" "drop (Suc (?a + n)) m1 = take (?c - ?a) (drop (Suc ?a) mop) @ drop (Suc (?c + n)) mop"
    using release_shift_eq [of ?c mop n pg ?a] c(3) room al n by blast
  let ?run = "map (\<lambda>k. pg + of_nat (n - 1 - k)) [0..<n]"
  let ?ds = "take ?a ds @ ?run @ take (?c - ?a) (drop ?a ds) @ drop (?c + n) ds"
  have fill: "release_fill m1 ?a pg n = Some (h # ?ds)"
    unfolding release_fill_eq using m1 room al by (subst append_range_loop_eq) (auto simp: mop)
  let ?m' = "(h + of_nat n) # ?ds"
  have res: "release_pages mop pg n = Some ?m'"
    using m1(1) fill c(1) by (simp add: release_pages_def mem_simps mop)
  have "unat (h + of_nat n) = ?c + n" using c(1) room by (simp add: unat_word_ariths unat_of_nat mod_add_right_eq)
  then have ct: "idl_count ?m' = ?c + n" by (simp add: idl_count_def)
  have cl: "?c \<le> length ds" "?c + n \<le> length ds" using room mop by auto
  have len: "length ?m' = length mop" using cl al mop by simp
  have rv: "?run = map (\<lambda>k. pg + of_nat k) (rev [0..<n])" by (rule nth_equalityI) (auto simp: rev_nth)
  have "idl_ok ?m'" unfolding idl_ok_def ct using len room by simp
  moreover have "idl_elems ?m' = take ?a ?es @ ?run @ drop ?a ?es"
  proof -
    define A where "A = take ?a ds @ ?run @ take (?c - ?a) (drop ?a ds)"
    have "length A = ?c + n" using cl al by (simp add: A_def)
    then have "take (?c + n) (A @ drop (?c + n) ds) = A" by simp
    moreover have "idl_elems ?m' = take (idl_count ?m') ?ds" by (simp only: idl_elems_def list.sel)
    moreover have "?ds = A @ drop (?c + n) ds" by (simp only: A_def append_assoc)
    ultimately have "idl_elems ?m' = A" using ct by metis
    moreover have "take ?a (take ?c ds) = take ?a ds" "drop ?a (take ?c ds) = take (?c - ?a) (drop ?a ds)"
      using al by (simp_all add: min_def drop_take)
    ultimately show ?thesis unfolding A_def using c(2) by metis
  qed
  ultimately show ?thesis using res len es rv by (intro exI [of _ ?m']) simp
qed

subsection \<open>Allocation\<close>

text \<open>The free pages known to the transaction and the pages on its dirty list.\<close>

definition free_pages :: "mdb_txn \<Rightarrow> nat set" where
  "free_pages txn = unat ` set (idl_elems (pghead_cells txn))"

definition dirty_pages :: "mdb_txn \<Rightarrow> nat set" where
  "dirty_pages txn = (\<lambda>x. unat (mid x)) ` set (id2l_elems (mt_dirty_list txn))"

text \<open>The state the allocator works on: \<open>me_pghead\<close> strictly descends, the dirty list is sorted and has \<open>mt_dirty_room\<close>
  places left, free pages are not dirty, all pages are below \<open>mt_next_pgno\<close>, and freed blocks have the page size.\<close>

definition alloc_ok :: "mdb_txn \<Rightarrow> bool" where
  "alloc_ok txn \<longleftrightarrow> idl_ok (pghead_cells txn) \<and> idl_count (pghead_cells txn) < 2 ^ 32 \<and>
     sorted_wrt (>) (idl_elems (pghead_cells txn)) \<and>
     id2l_ok (mt_dirty_list txn) \<and> id2l_sorted (mt_dirty_list txn) \<and> length (mt_dirty_list txn) = MDB_IDL_UM_MAX + 1 \<and>
     id2l_count (mt_dirty_list txn) + mt_dirty_room txn = MDB_IDL_UM_MAX \<and>
     free_pages txn \<inter> dirty_pages txn = {} \<and> (\<forall>n \<in> free_pages txn \<union> dirty_pages txn. n < mt_next_pgno txn) \<and>
     mt_next_pgno txn < 2 ^ 63 \<and> me_maxpg txn < 2 ^ 63 \<and> 16 \<le> me_psize txn \<and> (\<forall>b \<in> set (me_dpages txn). length b = me_psize txn) \<and>
     MDB_TXN_WRITEMAP \<notin> mt_flags txn"

lemma inj_nth_strict: "sorted_wrt (>) (xs :: 'a::linorder list) \<Longrightarrow> inj_on (nth xs) {..<length xs}"
  by (rule inj_onI) (metis lessThan_iff linorder_neq_iff sorted_wrt_nth_less)

lemma unat_add_of_nat: "unat (w :: mdb_id) + m < 2 ^ 64 \<Longrightarrow> unat (w + of_nat m) = unat w + m"
  by (simp add: unat_word_ariths unat_of_nat mod_add_right_eq)

text \<open>A run of free pages is at consecutive positions of the list.\<close>

lemma run_positions:
  fixes xs :: "mdb_id list"
  assumes s: "sorted_wrt (>) xs" and run: "{n..<n + num} \<subseteq> unat ` set xs" and num: "0 < num"
  shows "\<exists>i. i + (num - 1) < length xs \<and> xs ! i = xs ! (i + (num - 1)) + of_nat (num - 1) \<and> unat (xs ! (i + (num - 1))) = n"
proof -
  have pos: "\<exists>p < length xs. unat (xs ! p) = v" if "v \<in> {n..<n + num}" for v
    using run that by (metis (no_types, lifting) imageE in_set_conv_nth subsetD)
  obtain j where j: "j < length xs" "unat (xs ! j) = n" using pos [of n] num by auto
  have "n + num - 1 \<in> {n..<n + num}" using num by auto
  then obtain i where i: "i < length xs" "unat (xs ! i) = n + num - 1" using pos by blast
  have le: "p \<le> q \<longleftrightarrow> unat (xs ! q) \<le> unat (xs ! p)" if "p < length xs" "q < length xs" for p q
    using sorted_wrt_nth_less [OF s, of p q] sorted_wrt_nth_less [OF s, of q p] that
    by (cases p q rule: linorder_cases) (auto simp: word_less_nat_alt)
  have ij: "i \<le> j" using le [OF i(1) j(1)] i j num by simp
  have "{n..<n + num} \<subseteq> (\<lambda>p. unat (xs ! p)) ` {i..j}"
  proof
    fix v assume v: "v \<in> {n..<n + num}"
    then obtain p where p: "p < length xs" "unat (xs ! p) = v" using pos by blast
    then have "i \<le> p" "p \<le> j" using le [OF i(1) p(1)] le [OF p(1) j(1)] i j v by auto
    then show "v \<in> (\<lambda>p. unat (xs ! p)) ` {i..j}" using p by force
  qed
  then have "num \<le> card {i..j}" using surj_card_le [of "{i..j}" "{n..<n + num}"] by simp
  then have "num - 1 \<le> j - i" using ij by simp
  moreover have "j - i \<le> num - 1" using strict_desc_gap [OF s, of i "j - i"] ij i j by simp
  ultimately have jj: "j = i + (num - 1)" using ij by simp
  have "unat (xs ! i) < 2 ^ 64" using unsigned_less [of "xs ! i", where ?'a = nat] by simp
  then have "unat (xs ! i) = unat (xs ! j + of_nat (num - 1))"
    using i j num by (subst unat_add_of_nat) linarith+
  then show ?thesis using i j jj by (intro exI [of _ i]) (auto simp: word_unat_eq_iff)
qed

lemma run_iff:
  fixes cells :: "mdb_id list"
  assumes ok: "idl_ok cells" and s: "sorted_wrt (>) (idl_elems cells)" and num: "0 < num"
  shows "(\<exists>k. num - 1 < k \<and> k \<le> idl_count cells \<and> cells ! (k - (num - 1)) = cells ! k + of_nat (num - 1)) \<longleftrightarrow>
    (\<exists>n. {n..<n + num} \<subseteq> unat ` set (idl_elems cells))" (is "?L \<longleftrightarrow> ?R")
    and "num - 1 < k \<Longrightarrow> k \<le> idl_count cells \<Longrightarrow> cells ! (k - (num - 1)) = cells ! k + of_nat (num - 1) \<Longrightarrow>
      {unat (cells ! k)..<unat (cells ! k) + num} = unat ` set (take num (drop (k - num) (idl_elems cells))) \<and>
      num \<le> k \<and> unat (cells ! k) + num \<le> 2 ^ 64"
proof -
  let ?xs = "idl_elems cells"
  have len: "length ?xs = idl_count cells" by (rule length_idl_elems [OF ok])
  have nth: "cells ! k = ?xs ! (k - 1)" if "1 \<le> k" "k \<le> idl_count cells" for k by (rule idl_elems_nth1 [OF ok that])
  show run: "{unat (cells ! k)..<unat (cells ! k) + num} = unat ` set (take num (drop (k - num) ?xs)) \<and> num \<le> k \<and> unat (cells ! k) + num \<le> 2 ^ 64"
    if k: "num - 1 < k" "k \<le> idl_count cells" "cells ! (k - (num - 1)) = cells ! k + of_nat (num - 1)" for k
  proof -
    let ?i = "k - num"
    have nk: "num \<le> k" using k(1) num by linarith
    have idx: "?i + (num - 1) = k - 1" "k - (num - 1) - 1 = ?i" using nk num by auto
    have il: "?i + (num - 1) < length ?xs" using idx k(2) len nk num by linarith
    have e: "?xs ! ?i = ?xs ! (?i + (num - 1)) + of_nat (num - 1)"
      using nth [of k] nth [of "k - (num - 1)"] k nk num idx by simp
    have last: "?xs ! (?i + (num - 1)) = cells ! k" using nth [of k] k nk num idx by simp
    have b: "unat (cells ! k) + (num - 1) < 2 ^ 64" using run_elems(1) [OF s il e, of 0] last by simp
    have el: "unat (?xs ! (?i + p)) = unat (cells ! k) + (num - 1 - p)" if p: "p < num" for p
    proof -
      have "?xs ! (?i + (num - 1 - (num - 1 - p))) = cells ! k + of_nat (num - 1 - p)"
        using run_elems(2) [OF s il e, of "num - 1 - p"] last by simp
      moreover have "num - 1 - (num - 1 - p) = p" using p by simp
      ultimately show ?thesis using b by (simp add: unat_word_ariths unat_of_nat mod_add_right_eq)
    qed
    have "unat ` set (take num (drop ?i ?xs)) = (\<lambda>p. unat (?xs ! (?i + p))) ` {..<num}"
    proof -
      have "set (take num (drop ?i ?xs)) = (\<lambda>p. ?xs ! (?i + p)) ` {..<num}"
        using il num by (force simp: set_conv_nth)
      then show ?thesis by (simp add: image_image)
    qed
    also have "\<dots> = (\<lambda>p. unat (cells ! k) + (num - 1 - p)) ` {..<num}" using el by (intro image_cong) auto
    also have "\<dots> = {unat (cells ! k)..<unat (cells ! k) + num}"
    proof -
      have "v \<in> (\<lambda>p. unat (cells ! k) + (num - 1 - p)) ` {..<num}" if "unat (cells ! k) \<le> v" "v < unat (cells ! k) + num" for v
        by (rule image_eqI [of _ _ "unat (cells ! k) + num - 1 - v"]) (use that in auto)
      then show ?thesis using num by auto
    qed
    finally show ?thesis using nk b by auto
  qed
  show "?L \<longleftrightarrow> ?R"
  proof
    assume ?L
    then obtain k where "num - 1 < k" "k \<le> idl_count cells" "cells ! (k - (num - 1)) = cells ! k + of_nat (num - 1)" by blast
    from run [OF this] show ?R by (auto dest!: in_set_takeD in_set_dropD intro!: exI [of _ "unat (cells ! k)"])
  next
    assume ?R
    then obtain n where "{n..<n + num} \<subseteq> unat ` set ?xs" by blast
    from run_positions [OF s this num] obtain i where i: "i + (num - 1) < length ?xs" "?xs ! i = ?xs ! (i + (num - 1)) + of_nat (num - 1)"
      by blast
    then show ?L using nth [of "i + num"] nth [of "Suc i"] len num by (intro exI [of _ "i + num"]) auto
  qed
qed

lemma page_dirty_ok:
  assumes ok: "alloc_ok txn" and room: "0 < mt_dirty_room txn" and new: "n \<notin> dirty_pages txn" "n < 2 ^ 64" and mp: "mp_pgno p = n"
  shows "\<exists>dl. mdb_page_dirty txn p = Some (txn\<lparr>mt_dirty_list := dl, mt_dirty_room := mt_dirty_room txn - 1\<rparr>) \<and>
    id2l_ok dl \<and> id2l_sorted dl \<and> length dl = length (mt_dirty_list txn) \<and> id2l_count dl = Suc (id2l_count (mt_dirty_list txn)) \<and>
    set (id2l_elems dl) = insert \<lparr>mid = of_nat n, mptr = p\<rparr> (set (id2l_elems (mt_dirty_list txn)))"
proof -
  let ?dl = "mt_dirty_list txn" and ?x = "\<lparr>mid = of_nat n, mptr = p\<rparr> :: page mdb_id2"
  have a: "id2l_ok ?dl" "id2l_sorted ?dl" "id2l_count ?dl < MDB_IDL_UM_MAX" "length ?dl = MDB_IDL_UM_MAX + 1" "MDB_TXN_WRITEMAP \<notin> mt_flags txn"
    using ok room by (auto simp: alloc_ok_def)
  then have b: "id2l_count ?dl < 2 ^ 17" "id2l_count ?dl + 1 < length ?dl" by (auto simp: MDB_IDL_UM_MAX_def)
  have "unat (of_nat n :: mdb_id) = n" using new(2) by (simp add: unat_of_nat)
  then have "mid ?x \<notin> mid ` set (id2l_elems ?dl)" using new(1) by (force simp: dirty_pages_def)
  then obtain dl where dl: "mdb_mid2l_insert ?dl ?x = Some (dl, 0)" "id2l_ok dl" "length dl = length ?dl"
      "id2l_elems dl = filter (\<lambda>y. mid y < mid ?x) (id2l_elems ?dl) @ ?x # filter (\<lambda>y. mid ?x < mid y) (id2l_elems ?dl)"
    using mdb_mid2l_insert_cases [OF a(1,2) b, of ?x] a(3) by (auto split: if_splits)
  have srt: "id2l_sorted dl" and st: "set (id2l_elems dl) = insert ?x (set (id2l_elems ?dl))"
    using id2l_insert_sorted [OF a(2), of ?x] id2l_insert_set [of ?x ?dl] dl(4) \<open>mid ?x \<notin> _\<close> by (auto simp: id2l_sorted_def)
  have "id2l_count dl = length (id2l_elems dl)" using length_id2l_elems [OF dl(2)] by simp
  moreover have "filter (\<lambda>y. mid ?x < mid y) (id2l_elems ?dl) = filter (\<lambda>y. \<not> mid y < mid ?x) (id2l_elems ?dl)"
  proof (rule filter_cong [OF refl])
    fix y assume "y \<in> set (id2l_elems ?dl)"
    then have "mid y \<noteq> mid ?x" using \<open>mid ?x \<notin> _\<close> by (metis image_eqI)
    then show "mid ?x < mid y \<longleftrightarrow> \<not> mid y < mid ?x" by (rule neq_iff [THEN iffD1, THEN disjE]) auto
  qed
  ultimately have cnt: "id2l_count dl = Suc (id2l_count ?dl)"
    using dl(4) sum_length_filter_compl [of "\<lambda>y. mid y < mid ?x" "id2l_elems ?dl"] length_id2l_elems [OF a(1)] by simp
  show ?thesis using dl a(5) srt st cnt mp by (intro exI [of _ dl]) (simp add: mdb_page_dirty_def)
qed

text \<open>The loop when no record of the free database is old enough to be used.\<close>

lemma page_alloc_loop_local:
  assumes ok: "alloc_ok txn" and num: "0 < num" and old: "me_pgoldest txn \<le> mdb_find_oldest txn" "mdb_find_oldest txn \<le> Suc (me_pglast txn)"
  shows "\<exists>k. page_alloc_loop num txn mc MDB_FIRST 0 0 False (60 * int num) =
      Some (Inr k, if k = 0 then txn\<lparr>me_pgoldest := mdb_find_oldest txn\<rparr> else txn) \<and>
    (k = 0 \<longrightarrow> (\<nexists>n. {n..<n + num} \<subseteq> free_pages txn)) \<and>
    (k \<noteq> 0 \<longrightarrow> num - 1 < k \<and> k \<le> idl_count (pghead_cells txn) \<and>
       pghead_cells txn ! (k - (num - 1)) = pghead_cells txn ! k + of_nat (num - 1))"
proof -
  let ?c = "pghead_cells txn"
  have a: "idl_ok ?c" "idl_count ?c < 2 ^ 32" "sorted_wrt (>) (idl_elems ?c)" using ok by (auto simp: alloc_ok_def)
  have hd: "rd ?c 0 = Some (?c ! 0)" "u32n (unat (?c ! 0)) = idl_count ?c" "idl_count ?c < length ?c"
    using a by (auto simp: idl_ok_def idl_count_nth mem_simps)
  obtain k where k: "(if idl_count ?c > num - 1 then seek_range ?c (num - 1) (idl_count ?c) else Some 0) = Some k"
      "k = 0 \<longrightarrow> (\<forall>j. num - 1 < j \<and> j \<le> idl_count ?c \<longrightarrow> ?c ! (j - (num - 1)) \<noteq> ?c ! j + of_nat (num - 1))"
      "k \<noteq> 0 \<longrightarrow> num - 1 < k \<and> k \<le> idl_count ?c \<and> ?c ! (k - (num - 1)) = ?c ! k + of_nat (num - 1)"
    using seek_range_cases [OF hd(3), of "num - 1"] by (cases "idl_count ?c > num - 1") auto
  have "(\<nexists>n. {n..<n + num} \<subseteq> free_pages txn)" if "k = 0"
    using run_iff(1) [OF a(1,3) num] k(2) that by (auto simp: free_pages_def)
  moreover have "page_alloc_loop num txn mc MDB_FIRST 0 0 False (60 * int num) =
      Some (Inr k, if k = 0 then txn\<lparr>me_pgoldest := mdb_find_oldest txn\<rparr> else txn)"
    using hd k(1) num old
    by (subst page_alloc_loop.simps) (auto simp: Let_def oldest_check_def split: if_splits)
  ultimately show ?thesis using k(3) by (intro exI [of _ k]) simp
qed

definition mem_avail :: "mdb_txn \<Rightarrow> nat \<Rightarrow> bool" where
  "mem_avail txn num \<longleftrightarrow> num = 1 \<and> me_dpages txn \<noteq> [] \<or> me_mem txn 0 \<noteq> None"

lemma length_block_of [simp]: "length (block_of f n) = n"
  by (simp add: block_of_def)

lemma page_malloc_ok:
  assumes ok: "alloc_ok txn" and mem: "mem_avail txn num" and num: "0 < num"
  shows "\<exists>np d m. mdb_page_malloc txn num = (Some np, txn\<lparr>me_dpages := d, me_mem := m\<rparr>) \<and> length np = me_psize txn * num \<and>
    (\<forall>b \<in> set d. length b = me_psize txn)"
proof (cases "num = 1 \<and> me_dpages txn \<noteq> []")
  case True
  then show ?thesis using ok
    by (intro exI [of _ "hd (me_dpages txn)"] exI [of _ "tl (me_dpages txn)"] exI [of _ "me_mem txn"])
       (auto simp: mdb_page_malloc_def alloc_ok_def dest: list.set_sel)
next
  case False
  then obtain f where f: "me_mem txn 0 = Some f" using mem by (auto simp: mem_avail_def)
  have ps: "16 \<le> me_psize txn" "\<forall>b \<in> set (me_dpages txn). length b = me_psize txn" using ok by (auto simp: alloc_ok_def)
  obtain q where num': "num = Suc q" using num by (cases num) auto
  have "length (patch (patch (block_of f (me_psize txn * num)) (if num = 1 then PAGEHDRSZ else me_psize txn * num - me_psize txn)
      (replicate (if num = 1 then me_psize txn - PAGEHDRSZ else me_psize txn) 0)) 8 (enc16 0)) = me_psize txn * num"
    using ps(1) by (auto simp: num' PAGEHDRSZ_def)
  then show ?thesis using False f ps(2)
    by (intro exI [of _ "patch (patch (block_of f (me_psize txn * num)) (if num = 1 then PAGEHDRSZ else me_psize txn * num - me_psize txn)
          (replicate (if num = 1 then me_psize txn - PAGEHDRSZ else me_psize txn) 0)) 8 (enc16 0)"]
        exI [of _ "me_dpages txn"] exI [of _ "\<lambda>n. me_mem txn (Suc n)"])
       (auto simp: mdb_page_malloc_def next_mem_def Let_def)
qed

lemma find_in: "find P xs = Some y \<Longrightarrow> y \<in> set xs \<and> P y"
  by (auto simp: find_Some_iff)

lemma strict_distinct: "sorted_wrt (>) (xs :: 'a::linorder list) \<Longrightarrow> distinct xs"
  by (induction xs) auto

lemma sorted_wrt_middle:
  assumes "sorted_wrt R xs" "j \<le> k"
  shows "sorted_wrt R (take j xs @ drop k xs)"
proof -
  have "xs = take j xs @ take (k - j) (drop j xs) @ drop k xs" using assms(2) take_add [of j "k - j" xs] append_take_drop_id [of k xs] by (metis append_assoc le_add_diff_inverse)
  then have "sorted_wrt R (take j xs @ take (k - j) (drop j xs) @ drop k xs)" using assms(1) by simp
  then show ?thesis unfolding sorted_wrt_append by auto
qed

lemma mp_pgno_set: "8 \<le> length p \<Longrightarrow> n < 2 ^ 64 \<Longrightarrow> mp_pgno (set_mp_pgno p n) = n"
  by (simp add: mp_pgno_def set_mp_pgno_def le_nat_enc_le)

lemma pghead_cells_cong: "me_pghead t = me_pghead u \<Longrightarrow> pghead_cells t = pghead_cells u"
  by (simp add: pghead_cells_def)

lemma set_remove_middle:
  fixes xs :: "mdb_id list"
  assumes "distinct xs" "num \<le> k"
  shows "unat ` set (take (k - num) xs @ drop k xs) = unat ` set xs - unat ` set (take num (drop (k - num) xs))"
proof -
  have x: "xs = take (k - num) xs @ take num (drop (k - num) xs) @ drop k xs"
    using assms(2) take_add [of "k - num" num xs] append_take_drop_id [of k xs] by (metis append_assoc le_add_diff_inverse2)
  let ?a = "take (k - num) xs" and ?b = "take num (drop (k - num) xs)" and ?c = "drop k xs"
  have "distinct (?a @ ?b @ ?c)" using assms(1) x by simp
  then have "set (?a @ ?c) = set (?a @ ?b @ ?c) - set ?b" by auto
  then have "set (?a @ ?c) = set xs - set ?b" using x by simp
  then show ?thesis using inj_on_image_set_diff [of unat UNIV "set xs" "set ?b"] by (simp add: inj_on_def word_unat_eq_iff)
qed

text \<open>What an allocation of \<open>num\<close> pages from page \<open>n\<close> on does to the sets of pages.\<close>

lemma alloc_ok_after:
  assumes ok: "alloc_ok txn" and room: "0 < mt_dirty_room txn" and new: "n \<notin> dirty_pages txn" "n < 2 ^ 63" and mp: "mp_pgno p = n"
    and t: "mt_dirty_list t = mt_dirty_list txn" "mt_dirty_room t = mt_dirty_room txn" "mt_flags t = mt_flags txn" "me_psize t = me_psize txn"
      "me_maxpg t = me_maxpg txn" "\<forall>b \<in> set (me_dpages t). length b = me_psize txn"
    and head: "idl_ok (pghead_cells t)" "idl_count (pghead_cells t) < 2 ^ 32" "sorted_wrt (>) (idl_elems (pghead_cells t))"
      "free_pages t \<subseteq> free_pages txn - {n}" and nx: "mt_next_pgno txn \<le> mt_next_pgno t" "n < mt_next_pgno t" "mt_next_pgno t < 2 ^ 63"
  shows "\<exists>t'. mdb_page_dirty t p = Some t' \<and> alloc_ok t' \<and> dirty_pages t' = insert n (dirty_pages txn) \<and> free_pages t' = free_pages t \<and>
    mt_next_pgno t' = mt_next_pgno t \<and> dirty_mem (mt_dirty_list t') n = Some p"
proof -
  have dt: "dirty_pages t = dirty_pages txn" using t by (simp add: dirty_pages_def)
  have lt: "\<forall>m \<in> free_pages t \<union> dirty_pages t. m < mt_next_pgno t"
  proof
    fix m assume "m \<in> free_pages t \<union> dirty_pages t"
    then have "m \<in> free_pages txn \<union> dirty_pages txn" using head(4) dt by auto
    then have "m < mt_next_pgno txn" using ok unfolding alloc_ok_def by blast
    then show "m < mt_next_pgno t" using nx(1) by linarith
  qed
  have dj: "free_pages t \<inter> dirty_pages t = {}" using ok head(4) dt unfolding alloc_ok_def by blast
  have okt: "alloc_ok t" using ok t head(1-3) nx(3) lt dj unfolding alloc_ok_def by simp
  obtain dl where dl: "mdb_page_dirty t p = Some (t\<lparr>mt_dirty_list := dl, mt_dirty_room := mt_dirty_room t - 1\<rparr>)"
      "id2l_ok dl" "id2l_sorted dl" "length dl = length (mt_dirty_list t)" "id2l_count dl = Suc (id2l_count (mt_dirty_list t))"
      "set (id2l_elems dl) = insert \<lparr>mid = of_nat n, mptr = p\<rparr> (set (id2l_elems (mt_dirty_list t)))"
    using page_dirty_ok [OF okt _ _ _ mp] room t(2) new dt by auto
  let ?t = "t\<lparr>mt_dirty_list := dl, mt_dirty_room := mt_dirty_room t - 1\<rparr>"
  have un: "unat (of_nat n :: mdb_id) = n" using new(2) by (simp add: unat_of_nat)
  have dp: "dirty_pages ?t = insert n (dirty_pages txn)" using dl(6) un dt by (simp add: dirty_pages_def)
  have hc: "pghead_cells ?t = pghead_cells t" "free_pages ?t = free_pages t" by (simp_all add: pghead_cells_def free_pages_def)
  have "alloc_ok ?t"
    using okt dl dp hc head(4) nx(2) room t(2) dt unfolding alloc_ok_def by (auto simp: Suc_diff_Suc)
  moreover have "dirty_mem dl n = Some p"
  proof -
    let ?x = "\<lparr>mid = of_nat n, mptr = p\<rparr> :: page mdb_id2"
    have "y = ?x" if "y \<in> set (id2l_elems dl)" "unat (mid y) = n" for y
      using that dl(6) new(1) dt by (auto simp: dirty_pages_def)
    moreover have "?x \<in> set (id2l_elems dl)" using dl(6) by simp
    moreover have "find (\<lambda>x. unat (mid x) = n) (id2l_elems dl) \<noteq> None" using calculation(2) un by (auto simp: find_None_iff)
    then obtain y where y: "find (\<lambda>x. unat (mid x) = n) (id2l_elems dl) = Some y" by blast
    ultimately have "y = ?x" using find_in [OF y] by blast
    then show ?thesis using y by (simp add: dirty_mem_def)
  qed
  ultimately show ?thesis using dl(1) dp hc by (intro exI [of _ ?t]) simp
qed


text \<open>Allocating \<open>num\<close> pages when no record of the free database may be used yet, in a state with memory and room on
  the dirty list: if \<open>me_pghead\<close> holds \<open>num\<close> consecutive pages, such pages are taken off it; otherwise the pages at
  \<open>mt_next_pgno\<close> are used, or \<open>MDB_MAP_FULL\<close> is returned and the transaction marked as failed when the map has no more.
  In either case the pages were free and not in use by the transaction, the first one becomes dirty memory of the
  right size with its own number, and the state stays well formed.\<close>

theorem mdb_page_alloc_correct:
  assumes ok: "alloc_ok txn" and num: "0 < num" and loose: "num \<noteq> 1 \<or> mt_loose_pgs txn = []" and room: "0 < mt_dirty_room txn"
    and mem: "mem_avail txn num" and old: "me_pgoldest txn \<le> mdb_find_oldest txn" "mdb_find_oldest txn \<le> Suc (me_pglast txn)"
  shows "\<exists>rc r txn'. mdb_page_alloc txn num = Some (rc, r, txn') \<and>
    (if \<exists>n. {n..<n + num} \<subseteq> free_pages txn
     then rc = MDB_SUCCESS \<and> (\<exists>n p. r = Dirty_page n \<and> {n..<n + num} \<subseteq> free_pages txn \<and> free_pages txn' = free_pages txn - {n..<n + num} \<and>
       mt_next_pgno txn' = mt_next_pgno txn \<and> dirty_pages txn' = insert n (dirty_pages txn) \<and>
       dirty_mem (mt_dirty_list txn') n = Some p \<and> mp_pgno p = n \<and> length p = me_psize txn * num)
     else if me_maxpg txn \<le> mt_next_pgno txn + num then rc = MDB_MAP_FULL \<and> MDB_TXN_ERROR \<in> mt_flags txn'
     else rc = MDB_SUCCESS \<and> (\<exists>p. r = Dirty_page (mt_next_pgno txn) \<and> free_pages txn' = free_pages txn \<and>
       mt_next_pgno txn' = mt_next_pgno txn + num \<and> dirty_pages txn' = insert (mt_next_pgno txn) (dirty_pages txn) \<and>
       dirty_mem (mt_dirty_list txn') (mt_next_pgno txn) = Some p \<and> mp_pgno p = mt_next_pgno txn \<and> length p = me_psize txn * num)) \<and>
    (rc = MDB_SUCCESS \<longrightarrow> alloc_ok txn')"
proof -
  let ?c = "pghead_cells txn" and ?nx = "mt_next_pgno txn" and ?o = "mdb_find_oldest txn"
  have a: "idl_ok ?c" "idl_count ?c < 2 ^ 32" "sorted_wrt (>) (idl_elems ?c)" "16 \<le> me_psize txn" "?nx < 2 ^ 63" "me_maxpg txn < 2 ^ 63"
      "free_pages txn \<inter> dirty_pages txn = {}" "\<forall>n \<in> free_pages txn \<union> dirty_pages txn. n < ?nx"
    using ok unfolding alloc_ok_def by auto
  obtain k where k: "page_alloc_loop num txn (mdb_cursor_init FREE_DBI) MDB_FIRST 0 0 False (60 * int num) =
        Some (Inr k, if k = 0 then txn\<lparr>me_pgoldest := ?o\<rparr> else txn)" "k = 0 \<longrightarrow> (\<nexists>n. {n..<n + num} \<subseteq> free_pages txn)"
      "k \<noteq> 0 \<longrightarrow> num - 1 < k \<and> k \<le> idl_count ?c \<and> ?c ! (k - (num - 1)) = ?c ! k + of_nat (num - 1)"
    using page_alloc_loop_local [OF ok num old] by blast
  let ?t0 = "if k = 0 then txn\<lparr>me_pgoldest := ?o\<rparr> else txn"
  have ok0: "alloc_ok ?t0" "mem_avail ?t0 num" using ok mem by (auto simp: alloc_ok_def mem_avail_def free_pages_def dirty_pages_def pghead_cells_def)
  obtain np d m where np: "mdb_page_malloc ?t0 num = (Some np, ?t0\<lparr>me_dpages := d, me_mem := m\<rparr>)" "length np = me_psize txn * num"
      "\<forall>b \<in> set d. length b = me_psize txn"
    using page_malloc_ok [OF ok0 num] by auto
  have l8: "8 \<le> length np" using np(2) a(4) num by (metis le_trans mult.right_neutral mult_le_mono2 Suc_leI One_nat_def numeral_le_iff semiring_norm(68) semiring_norm(69) semiring_norm(71) semiring_norm(72))
  have start: "mdb_page_alloc txn num = (if k = 0 \<and> me_maxpg txn \<le> ?nx + num then alloc_fail MDB_MAP_FULL ?t0
     else do { pgno \<leftarrow> (if k = 0 then Some ?nx else do { x \<leftarrow> rd ?c k; Some (unat x) });
               txn \<leftarrow> (if k \<noteq> 0 then take_pages (?t0\<lparr>me_dpages := d, me_mem := m\<rparr>) k num
                       else Some (?t0\<lparr>me_dpages := d, me_mem := m, mt_next_pgno := pgno + num\<rparr>));
               txn \<leftarrow> mdb_page_dirty txn (set_mp_pgno np pgno);
               Some (MDB_SUCCESS, Dirty_page pgno, txn) })"
    using loose room k(1) np(1) by (auto simp: mdb_page_alloc_def pghead_cells_def)
  show ?thesis
  proof (cases "k = 0")
    case True
    then have norun: "\<nexists>n. {n..<n + num} \<subseteq> free_pages txn" using k(2) by blast
    show ?thesis
    proof (cases "me_maxpg txn \<le> ?nx + num")
      case full: True
      then show ?thesis using start True norun by (simp add: alloc_fail_def txn_error_def rc_defs)
    next
      case False
      let ?t = "txn\<lparr>me_pgoldest := ?o, me_dpages := d, me_mem := m, mt_next_pgno := ?nx + num\<rparr>" and ?p = "set_mp_pgno np ?nx"
      have p: "mp_pgno ?p = ?nx" "length ?p = me_psize txn * num" using mp_pgno_set [OF l8, of ?nx] a(5) l8 np(2) by (auto simp: set_mp_pgno_def)
      have hc: "pghead_cells ?t = ?c" "free_pages ?t = free_pages txn" by (simp_all add: pghead_cells_def free_pages_def)
      have "\<exists>t'. mdb_page_dirty ?t ?p = Some t' \<and> alloc_ok t' \<and> dirty_pages t' = insert ?nx (dirty_pages txn) \<and> free_pages t' = free_pages ?t \<and>
          mt_next_pgno t' = mt_next_pgno ?t \<and> dirty_mem (mt_dirty_list t') ?nx = Some ?p"
        by (rule alloc_ok_after [OF ok room _ _ p(1)]) (use a np(3) hc False num in auto)
      then show ?thesis using start True False norun p hc by (auto simp: rc_defs)
    qed
  next
    case kn: False
    let ?n = "unat (?c ! k)"
    have kk: "num - 1 < k" "k \<le> idl_count ?c" "?c ! (k - (num - 1)) = ?c ! k + of_nat (num - 1)" using k(3) kn by auto
    note run = run_iff(2) [OF a(1,3) num kk]
    have sub: "{?n..<?n + num} \<subseteq> free_pages txn" using run by (auto simp: free_pages_def dest!: in_set_takeD in_set_dropD)
    then have nf: "?n \<in> free_pages txn" using num by auto
    have nb: "?n < ?nx" "?n \<notin> dirty_pages txn" using nf a(7,8) by auto
    obtain h where h: "me_pghead txn = Some h" using kk a by (cases "me_pghead txn") (auto simp: pghead_cells_def idl_count_def)
    have ch: "?c = ids_cells h" using h by (simp add: pghead_cells_def)
    let ?u = "txn\<lparr>me_dpages := d, me_mem := m\<rparr>"
    obtain h' where h': "take_pages ?u k num = Some (?u\<lparr>me_pghead := Some h'\<rparr>)" "idl_ok (ids_cells h')"
        "idl_elems (ids_cells h') = take (k - num) (idl_elems ?c) @ drop k (idl_elems ?c)" "length (ids_cells h') = length ?c"
      using take_pages_eq [of ?u h num k] h ch a(1,2) run kk num by auto
    let ?t = "?u\<lparr>me_pghead := Some h'\<rparr>" and ?p = "set_mp_pgno np ?n"
    have p: "mp_pgno ?p = ?n" "length ?p = me_psize txn * num" using mp_pgno_set [OF l8, of ?n] l8 np(2) nb a(5) by (auto simp: set_mp_pgno_def)
    have hc: "pghead_cells ?t = ids_cells h'" by (simp add: pghead_cells_def)
    have dst: "distinct (idl_elems ?c)" using a(3) by (rule strict_distinct)
    have fr: "free_pages ?t = free_pages txn - {?n..<?n + num}"
      using set_remove_middle [OF dst, of num k] run h'(3) hc by (simp add: free_pages_def)
    have st: "sorted_wrt (>) (idl_elems (ids_cells h'))" unfolding h'(3) by (rule sorted_wrt_middle [OF a(3)]) simp
    have "idl_count (ids_cells h') = length (idl_elems (ids_cells h'))" using length_idl_elems [OF h'(2)] by simp
    also have "\<dots> \<le> length (idl_elems ?c)" unfolding h'(3) by simp
    finally have ct: "idl_count (ids_cells h') < 2 ^ 32" using length_idl_elems [OF a(1)] a(2) by linarith
    have "\<exists>t'. mdb_page_dirty ?t ?p = Some t' \<and> alloc_ok t' \<and> dirty_pages t' = insert ?n (dirty_pages txn) \<and> free_pages t' = free_pages ?t \<and>
        mt_next_pgno t' = mt_next_pgno ?t \<and> dirty_mem (mt_dirty_list t') ?n = Some ?p"
      by (rule alloc_ok_after [OF ok room nb(2) _ p(1)]) (use a np(3) hc h' st ct fr num nb in auto)
    then obtain t' where t': "mdb_page_dirty ?t ?p = Some t'" "alloc_ok t'" "dirty_pages t' = insert ?n (dirty_pages txn)"
        "free_pages t' = free_pages ?t" "mt_next_pgno t' = ?nx" "dirty_mem (mt_dirty_list t') ?n = Some ?p"
      by auto
    have "rd ?c k = Some (?c ! k)" using kk a(1) by (auto simp: mem_simps idl_ok_def)
    then have res: "mdb_page_alloc txn num = Some (0, Dirty_page ?n, t')" using start kn h'(1) t'(1) by (simp add: rc_defs)
    have ex: "\<exists>n. {n..<n + num} \<subseteq> free_pages txn" using sub by blast
    show ?thesis unfolding res if_P [OF ex] using t' sub fr p
      by (intro exI [of _ 0] exI [of _ "Dirty_page ?n"] exI [of _ t'] conjI exI [of _ ?n] exI [of _ ?p]) (simp_all add: rc_defs)
  qed
qed

definition alloc_txn :: mdb_txn where
  "alloc_txn = tree_txn\<lparr>mt_flags := {}, mt_txnid := 5, mt_next_pgno := 20, me_maxpg := 100, me_readers := [(7, 3), (0, 1)], me_pglast := 2,
     me_pghead := Some \<lparr>ids_alloc = 4, ids_cells = [3, 9, 8, 5, 0]\<rparr>, mt_dirty_room := MDB_IDL_UM_MAX, me_mem := (\<lambda>_. Some (\<lambda>_. 0)),
     mt_dirty_list := replicate (MDB_IDL_UM_MAX + 1) \<lparr>mid = 0, mptr = []\<rparr>\<rparr>"

lemma alloc_txn_free: "free_pages alloc_txn = {9, 8, 5}" "dirty_pages alloc_txn = {}"
  by (simp_all add: free_pages_def pghead_cells_def alloc_txn_def idl_elems_def idl_count_def dirty_pages_def id2l_elems_def id2l_count_def)

lemma alloc_txn_ok: "alloc_ok alloc_txn"
  unfolding alloc_ok_def alloc_txn_free
  by (simp add: alloc_txn_def pghead_cells_def idl_ok_def idl_count_def idl_elems_def id2l_ok_def id2l_sorted_def id2l_elems_def id2l_count_def
      tree_txn_def)

theorem mdb_page_alloc_correct_witness:
  "\<exists>n t. mdb_page_alloc alloc_txn 2 = Some (MDB_SUCCESS, Dirty_page n, t) \<and> {n..<n + 2} \<subseteq> {9, 8, 5} \<and> n \<in> dirty_pages t \<and> alloc_ok t"
proof -
  have fo: "mdb_find_oldest alloc_txn = 3" by (simp add: mdb_find_oldest_def alloc_txn_def)
  have "{8..<8 + 2} \<subseteq> free_pages alloc_txn" unfolding alloc_txn_free by auto
  then have ex: "\<exists>n. {n..<n + 2} \<subseteq> free_pages alloc_txn" by blast
  have "mem_avail alloc_txn 2" "me_pgoldest alloc_txn \<le> 3" "3 \<le> Suc (me_pglast alloc_txn)" "0 < mt_dirty_room alloc_txn"
    by (simp_all add: mem_avail_def alloc_txn_def tree_txn_def MDB_IDL_UM_MAX_def)
  then show ?thesis using mdb_page_alloc_correct [OF alloc_txn_ok, of 2] fo unfolding if_P [OF ex] by (auto simp: alloc_txn_free)
qed

text \<open>\<open>mdb_find_oldest\<close> is the smallest transaction that a reader may still be using, and at most the last committed one.\<close>

theorem mdb_find_oldest_correct:
  "mdb_find_oldest txn = Min (insert (mt_txnid txn - 1) (reader_txns (me_readers txn)))"
  by (rule mdb_find_oldest_Min)

text \<open>Giving the pages of an overflow run back to \<open>me_pghead\<close>: with room for them, the list stays in descending order
  and holds exactly the old pages and the pages of the run.\<close>

theorem release_pages_correct:
  assumes "idl_ok mop" and "sorted_wrt (>) (idl_elems mop)" and "idl_count mop + n < length mop" and "length mop < 2 ^ 64" and "0 < n"
    and "unat pg + n < 2 ^ 64" and "{unat pg..<unat pg + n} \<inter> unat ` set (idl_elems mop) = {}"
  shows "\<exists>mop'. release_pages mop pg n = Some mop' \<and> idl_ok mop' \<and> length mop' = length mop \<and> sorted_wrt (>) (idl_elems mop') \<and>
    unat ` set (idl_elems mop') = unat ` set (idl_elems mop) \<union> {unat pg..<unat pg + n}"
proof -
  let ?es = "idl_elems mop" and ?run = "map (\<lambda>k. pg + of_nat k) (rev [0..<n])"
  have d: "desc ?es" using assms(2) by (rule sorted_wrt_mono_rel [rotated]) auto
  obtain mop' where m: "release_pages mop pg n = Some mop'" "idl_ok mop'" "length mop' = length mop"
      "idl_elems mop' = filter (\<lambda>x. pg \<le> x) ?es @ ?run @ filter (\<lambda>x. x < pg) ?es"
    using release_pages_eq [OF assms(1) d assms(3-5), of pg] by blast
  have un: "unat (pg + of_nat k) = unat pg + k" if "k < n" for k using that assms(6) by (intro unat_add_of_nat) simp
  have hi: "pg + of_nat k < x" if x: "x \<in> set ?es" "pg \<le> x" and k: "k < n" for x k
  proof -
    have "unat x \<notin> {unat pg..<unat pg + n}" using assms(7) x(1) by auto
    then show ?thesis using x(2) un [OF k] k by (auto simp: word_less_nat_alt word_le_nat_alt)
  qed
  have lo: "x < pg + of_nat k" if "x < pg" "k < n" for x k using that un [of k] by (simp add: word_less_nat_alt)
  have "sorted_wrt (>) ?run"
    unfolding sorted_wrt_map sorted_wrt_rev using un by (intro sorted_wrt_mono_rel [OF _ sorted_wrt_upt]) (auto simp: word_less_nat_alt)
  then have "sorted_wrt (>) (idl_elems mop')"
    unfolding m(4) sorted_wrt_append using assms(2) hi lo by (auto simp: sorted_wrt_filter)
  moreover have "unat ` set ?run = {unat pg..<unat pg + n}"
  proof -
    have "unat ` set ?run = (\<lambda>k. unat pg + k) ` {0..<n}" using un by (auto simp: image_image intro!: image_cong)
    then show ?thesis by (simp add: image_add_atLeastLessThan' add.commute)
  qed
  moreover have "set (filter (\<lambda>x. pg \<le> x) ?es) \<union> set (filter (\<lambda>x. x < pg) ?es) = set ?es" by (auto simp: not_le)
  then have "unat ` set ?es = unat ` set (filter (\<lambda>x. pg \<le> x) ?es) \<union> unat ` set (filter (\<lambda>x. x < pg) ?es)" by (metis image_Un)
  ultimately show ?thesis using m by (auto simp: image_Un)
qed

theorem release_pages_correct_witness:
  "\<exists>m. release_pages [2, 9, 3, 0, 0] 5 2 = Some m \<and> unat ` set (idl_elems m) = {9, 3, 5, 6}"
  using release_pages_correct [of "[2, 9, 3, 0, 0]" 2 5] by (auto simp: idl_ok_def idl_count_def idl_elems_def)

text \<open>\<open>mdb_page_copy\<close>, which leaves out most of the free space, gives a page with the same number, flags and nodes.\<close>

theorem mdb_page_copy_correct:
  assumes "page_rep src nbs" and "length src = psize" and "length dst = psize"
  shows "\<exists>d. mdb_page_copy dst src psize = Some d \<and> length d = psize \<and> page_rep d nbs \<and> bslice d 0 12 = bslice src 0 12"
  by (rule page_copy_rep [OF assms])

theorem mdb_page_copy_correct_witness:
  "\<exists>d. mdb_page_copy (replicate 48 7) tree_left 48 = Some d \<and> page_rep d [leaf_nb 1 10, leaf_nb 3 30]"
  using mdb_page_copy_correct [OF tree_rep(2), of 48 "replicate 48 7"] by (auto simp: tree_left_def)

end
