(* ===== verification/Varint.thy ===== *)
theory Varint
  imports Page_Memory
begin

text \<open>
  Variable-length integers of \<^verbatim>\<open>src/common/data.cpp\<close>: \<open>sqlite3PutVarint\<close>, \<open>sqlite3GetVarint\<close> and \<open>sqlite3VarintLen\<close>. The
  decoder works on 32-bit halves with masks, as the code has it; its result on every encoding is the encoded value.
\<close>

unbundle bit_operations_syntax

subsection \<open>Encoding\<close>

text \<open>The loop of \<open>sqlite3VarintLen\<close>; \<open>None\<close> is the failed assertion.\<close>

function varint_len_loop :: "64 word \<Rightarrow> nat \<Rightarrow> nat option" where
  "varint_len_loop v i =
     (let v = drop_bit 7 v in
      if v \<noteq> 0 then (if i < 10 then varint_len_loop v (i + 1) else None) else Some i)"
  by pat_completeness auto
termination
  by (relation "measure (\<lambda>(v, i). 10 - i)") auto

declare varint_len_loop.simps [simp del]

definition sqlite3VarintLen :: "64 word \<Rightarrow> nat option" where
  "sqlite3VarintLen v = do { i \<leftarrow> varint_len_loop v 1; Some (if i = 10 then 9 else i) }"

definition vbyte :: "64 word \<Rightarrow> byte" where
  "vbyte v = ucast ((v AND 0x7f) OR 0x80)"

text \<open>\<open>for (i = 7; i >= 0; i--) p[i] = ...\<close> for the \<open>n\<close> bytes left to write.\<close>

fun put9_loop :: "64 word \<Rightarrow> nat \<Rightarrow> byte list" where
  "put9_loop v 0 = []"
| "put9_loop v (Suc n) = put9_loop (drop_bit 7 v) n @ [vbyte v]"

text \<open>The \<open>do ... while (v != 0)\<close> loop that fills \<open>buf\<close>; at most ten steps fit.\<close>

fun put_buf :: "64 word \<Rightarrow> nat \<Rightarrow> byte list option" where
  "put_buf v 0 = None"
| "put_buf v (Suc n) =
     (if drop_bit 7 v \<noteq> 0 then do { r \<leftarrow> put_buf (drop_bit 7 v) n; Some (vbyte v # r) } else Some [vbyte v])"

text \<open>The bytes stored at \<open>p\<close>; their number is the return value.\<close>

definition putVarint64 :: "64 word \<Rightarrow> byte list option" where
  "putVarint64 v =
     (if v AND 0xff00000000000000 \<noteq> 0 then Some (put9_loop (drop_bit 8 v) 8 @ [ucast v])
      else
        do { buf \<leftarrow> put_buf v 10;
             let buf = buf[0 := buf ! 0 AND 0x7f];
             if length buf \<le> 9 then Some (rev buf) else None })"

definition sqlite3PutVarint :: "64 word \<Rightarrow> byte list option" where
  "sqlite3PutVarint v =
     (if v \<le> 0x7f then Some [ucast (v AND 0x7f)]
      else if v \<le> 0x3fff then Some [ucast ((drop_bit 7 v AND 0x7f) OR 0x80), ucast (v AND 0x7f)]
      else putVarint64 v)"

subsection \<open>Decoding\<close>

definition SLOT_2_0 :: "32 word" where
  "SLOT_2_0 = 0x001fc07f"

definition SLOT_4_2_0 :: "32 word" where
  "SLOT_4_2_0 = 0xf01fc07f"

text \<open>The results are the number of bytes read, \<open>0\<close> when the value is not complete, and the value stored in \<open>*v\<close>;
  \<open>None\<close> is a read outside the buffer. \<open>get_varint_k\<close> reads byte \<open>k\<close> (from 0) and goes on.\<close>

type_synonym varint_res = "(nat \<times> 64 word) option"

definition rd_byte :: "byte list \<Rightarrow> nat \<Rightarrow> (32 word \<Rightarrow> varint_res) \<Rightarrow> nat \<Rightarrow> varint_res" where
  "rd_byte p k f max_length =
     (if max_length \<le> k then Some (0, 0) else case rd p k of None \<Rightarrow> None | Some x \<Rightarrow> f (ucast x))"

definition hi_lo :: "32 word \<Rightarrow> 32 word \<Rightarrow> 64 word" where
  "hi_lo s a = push_bit 32 (ucast s) OR ucast a"

definition get_varint_8 :: "byte list \<Rightarrow> nat \<Rightarrow> 32 word \<Rightarrow> 32 word \<Rightarrow> 32 word \<Rightarrow> varint_res" where
  "get_varint_8 p m a b s =
     rd_byte p 8 (\<lambda>x.
       let a = push_bit 15 a OR x;
           b = b AND SLOT_2_0;
           b = push_bit 8 b;
           a = a OR b;
           s = push_bit 4 s
       in case rd p 4 of
            None \<Rightarrow> None
          | Some y \<Rightarrow>
              (let b = ucast y AND 0x7f;
                   b = drop_bit 3 b;
                   s = s OR b
               in Some (9, hi_lo s a))) m"

definition get_varint_7 :: "byte list \<Rightarrow> nat \<Rightarrow> 32 word \<Rightarrow> 32 word \<Rightarrow> 32 word \<Rightarrow> varint_res" where
  "get_varint_7 p m a b s =
     rd_byte p 7 (\<lambda>x.
       let b = push_bit 14 b OR x in
       if b AND 0x80 = 0
       then (let b = b AND SLOT_4_2_0; a = push_bit 7 a; a = a OR b; s = drop_bit 4 s in Some (8, hi_lo s a))
       else get_varint_8 p m a b s) m"

definition get_varint_6 :: "byte list \<Rightarrow> nat \<Rightarrow> 32 word \<Rightarrow> 32 word \<Rightarrow> 32 word \<Rightarrow> varint_res" where
  "get_varint_6 p m a b s =
     rd_byte p 6 (\<lambda>x.
       let a = push_bit 14 a OR x in
       if a AND 0x80 = 0
       then (let a = a AND SLOT_4_2_0; b = b AND SLOT_2_0; b = push_bit 7 b; a = a OR b; s = drop_bit 11 s in Some (7, hi_lo s a))
       else get_varint_7 p m (a AND SLOT_2_0) b s) m"

definition get_varint_5 :: "byte list \<Rightarrow> nat \<Rightarrow> 32 word \<Rightarrow> 32 word \<Rightarrow> 32 word \<Rightarrow> varint_res" where
  "get_varint_5 p m a b s =
     rd_byte p 5 (\<lambda>x.
       let b = push_bit 14 b OR x in
       if b AND 0x80 = 0
       then (let a = a AND SLOT_2_0; a = push_bit 7 a; a = a OR b; s = drop_bit 18 s in Some (6, hi_lo s a))
       else get_varint_6 p m a b s) m"

definition get_varint_4 :: "byte list \<Rightarrow> nat \<Rightarrow> 32 word \<Rightarrow> 32 word \<Rightarrow> 32 word \<Rightarrow> varint_res" where
  "get_varint_4 p m a b s =
     rd_byte p 4 (\<lambda>x.
       let a = push_bit 14 a OR x in
       if a AND 0x80 = 0
       then (let b = push_bit 7 b; a = a OR b; s = drop_bit 18 s in Some (5, hi_lo s a))
       else (let s = push_bit 7 s; s = s OR b in get_varint_5 p m a b s)) m"

definition get_varint_3 :: "byte list \<Rightarrow> nat \<Rightarrow> 32 word \<Rightarrow> 32 word \<Rightarrow> varint_res" where
  "get_varint_3 p m a b =
     rd_byte p 3 (\<lambda>x.
       let b = push_bit 14 b OR x in
       if b AND 0x80 = 0
       then (let b = b AND SLOT_2_0; a = push_bit 7 a; a = a OR b in Some (4, ucast a))
       else (let b = b AND SLOT_2_0; s = a in get_varint_4 p m a b s)) m"

definition get_varint_2 :: "byte list \<Rightarrow> nat \<Rightarrow> 32 word \<Rightarrow> 32 word \<Rightarrow> varint_res" where
  "get_varint_2 p m a b =
     rd_byte p 2 (\<lambda>x.
       let a = push_bit 14 a OR x in
       if a AND 0x80 = 0
       then (let a = a AND SLOT_2_0; b = b AND 0x7f; b = push_bit 7 b; a = a OR b in Some (3, ucast a))
       else get_varint_3 p m (a AND SLOT_2_0) b) m"

definition sqlite3GetVarint :: "byte list \<Rightarrow> nat \<Rightarrow> varint_res" where
  "sqlite3GetVarint p m =
     rd_byte p 0 (\<lambda>a.
       if a AND 0x80 = 0 then Some (1, ucast a)
       else
         rd_byte p 1 (\<lambda>b.
           if b AND 0x80 = 0 then (let a = a AND 0x7f; a = push_bit 7 a; a = a OR b in Some (2, ucast a))
           else get_varint_2 p m a b) m) m"

lemmas get_varint_defs = sqlite3GetVarint_def get_varint_2_def get_varint_3_def get_varint_4_def get_varint_5_def
  get_varint_6_def get_varint_7_def get_varint_8_def rd_byte_def

subsection \<open>Bits\<close>

definition bits64 :: "nat list" where
  "bits64 = [0, 1, 2, 3, 4, 5, 6, 7, 8, 9, 10, 11, 12, 13, 14, 15, 16, 17, 18, 19, 20, 21, 22, 23, 24, 25, 26, 27, 28, 29, 30, 31,
     32, 33, 34, 35, 36, 37, 38, 39, 40, 41, 42, 43, 44, 45, 46, 47, 48, 49, 50, 51, 52, 53, 54, 55, 56, 57, 58, 59, 60, 61, 62, 63]"

lemma bits64: "n < 64 \<Longrightarrow> n \<in> set bits64"
  by (simp add: bits64_def) presburger

text \<open>Two 64-bit words are equal when each of their bits is: the comparison is done bit by bit.\<close>

lemma word64_eqI: "list_all (\<lambda>n. bit a n = bit (b :: 64 word) n) bits64 \<Longrightarrow> a = b"
  by (rule bit_word_eqI) (use bits64 in \<open>simp add: list_all_iff\<close>)

lemma high_bit_0:
  assumes "drop_bit k v = 0" "k \<le> n"
  shows "\<not> bit (v :: 64 word) n"
proof
  assume "bit v n"
  then have "bit (drop_bit k v) (n - k)" using assms(2) by (simp add: bit_drop_bit_eq)
  then show False using assms(1) by simp
qed

lemma drop_bit_0_mono: "drop_bit k (v :: 64 word) = 0 \<Longrightarrow> k \<le> j \<Longrightarrow> drop_bit j v = 0"
  by (metis drop_bit_drop_bit drop_bit_of_0 le_add_diff_inverse2)

lemma test_80: "(a AND 128 = 0) = (\<not> bit (a :: 32 word) 7)"
  using and_exp_eq_0_iff_not_bit [of a 7] by simp

subsection \<open>What is written\<close>

lemma unat_drop_bit: "unat (drop_bit n (v :: 64 word)) = unat v div 2 ^ n"
  unfolding unat_drop_bit_eq by (rule drop_bit_eq_div)

lemma le_drop_bit: "v \<le> 0x7f \<longleftrightarrow> drop_bit 7 (v :: 64 word) = 0" "v \<le> 0x3fff \<longleftrightarrow> drop_bit 14 (v :: 64 word) = 0"
  by (auto simp: word_le_nat_alt word_unat_eq_iff unat_drop_bit)

lemma bit_64: "64 \<le> n \<Longrightarrow> \<not> bit (v :: 64 word) n"
  using bit_imp_le_length [of v n] by auto

lemma top_byte: "v AND 0xff00000000000000 = 0 \<longleftrightarrow> drop_bit 56 (v :: 64 word) = 0"
proof
  assume "drop_bit 56 v = 0"
  then show "v AND 0xff00000000000000 = 0" by (intro word64_eqI) (simp add: bits64_def bit_simps high_bit_0)
next
  assume a: "v AND 0xff00000000000000 = 0"
  have "bit (v AND 0xff00000000000000) n = bit (0 :: 64 word) n" for n using a by simp
  from this [of 56] this [of 57] this [of 58] this [of 59] this [of 60] this [of 61] this [of 62] this [of 63]
  show "drop_bit 56 v = 0" by (intro word64_eqI) (simp add: bits64_def bit_simps bit_64)
qed

text \<open>The encoding of a value of \<open>7 * n\<close> bits, \<open>n < 9\<close>, and of a longer one.\<close>

definition varint_bytes :: "64 word \<Rightarrow> nat \<Rightarrow> byte list" where
  "varint_bytes v n = map (\<lambda>i. vbyte (drop_bit (7 * (n - i)) v)) [0..<n] @ [ucast (v AND 0x7f)]"

lemma vbyte_low: "vbyte v AND 0x7f = ucast (v AND 0x7f)"
  by (rule word8_eqI) (simp add: vbyte_def bit_simps)

lemma put_buf_eq:
  "drop_bit (7 * Suc n) v = 0 \<Longrightarrow> n = 0 \<or> drop_bit (7 * n) v \<noteq> 0 \<Longrightarrow> n < f \<Longrightarrow>
   put_buf v f = Some (map (\<lambda>i. vbyte (drop_bit (7 * i) v)) [0..<Suc n])"
proof (induction n arbitrary: v f)
  case 0
  then show ?case by (cases f) auto
next
  case (Suc n)
  then obtain g where f: "f = Suc g" by (cases f) auto
  have nz: "drop_bit 7 v \<noteq> 0" using Suc.prems(2) drop_bit_0_mono [of 7 v "7 * Suc n"] by auto
  have "put_buf (drop_bit 7 v) g = Some (map (\<lambda>i. vbyte (drop_bit (7 * i) (drop_bit 7 v))) [0..<Suc n])"
    by (rule Suc.IH) (use Suc.prems f in \<open>auto simp: algebra_simps\<close>)
  moreover have "map (\<lambda>i. vbyte (drop_bit (7 * i) v)) [0..<Suc (Suc n)] =
      vbyte v # map (\<lambda>i. vbyte (drop_bit (7 * i) (drop_bit 7 v))) [0..<Suc n]"
    by (subst upt_conv_Cons) (auto simp: map_Suc_upt [symmetric] algebra_simps simp del: upt_Suc)
  ultimately show ?case using f nz by simp
qed

lemma putVarint64_eq:
  assumes "drop_bit 56 v = 0" "drop_bit (7 * Suc n) v = 0" "n = 0 \<or> drop_bit (7 * n) v \<noteq> 0" "n < 8"
  shows "putVarint64 v = Some (varint_bytes v n)"
proof -
  have pb: "put_buf v 10 = Some (map (\<lambda>i. vbyte (drop_bit (7 * i) v)) [0..<Suc n])" by (rule put_buf_eq) (use assms in auto)
  have "rev ((map (\<lambda>i. vbyte (drop_bit (7 * i) v)) [0..<Suc n])[0 := vbyte v AND 0x7f]) = varint_bytes v n"
    by (rule nth_equalityI) (auto simp: varint_bytes_def rev_nth nth_append nth_list_update vbyte_low simp del: upt_Suc)
  then show ?thesis using pb assms(1,4) top_byte [of v] by (simp add: putVarint64_def Let_def del: upt_Suc)
qed

lemma sqlite3PutVarint_short:
  assumes "drop_bit (7 * Suc n) v = 0" "n = 0 \<or> drop_bit (7 * n) v \<noteq> 0" "n < 8"
  shows "sqlite3PutVarint v = Some (varint_bytes v n)"
proof -
  consider "n = 0" | "n = 1" | "2 \<le> n" by linarith
  then show ?thesis
  proof cases
    case 1
    then show ?thesis using assms by (simp add: sqlite3PutVarint_def varint_bytes_def le_drop_bit)
  next
    case 2
    then show ?thesis using assms by (simp add: sqlite3PutVarint_def varint_bytes_def le_drop_bit vbyte_def)
  next
    case 3
    have "drop_bit 7 v \<noteq> 0" "drop_bit 14 v \<noteq> 0" using assms(2) 3 drop_bit_0_mono [of 7 v "7 * n"] drop_bit_0_mono [of 14 v "7 * n"] by auto
    moreover have "drop_bit 56 v = 0" using drop_bit_0_mono [OF assms(1)] assms(3) by simp
    ultimately show ?thesis using putVarint64_eq [OF _ assms] by (simp add: sqlite3PutVarint_def le_drop_bit)
  qed
qed

lemma sqlite3PutVarint_long:
  assumes "drop_bit 56 v \<noteq> 0"
  shows "sqlite3PutVarint v = Some (map (\<lambda>k. vbyte (drop_bit k v)) [57, 50, 43, 36, 29, 22, 15, 8] @ [ucast v])"
proof -
  have "drop_bit 7 v \<noteq> 0" "drop_bit 14 v \<noteq> 0" using assms drop_bit_0_mono [of 7 v 56] drop_bit_0_mono [of 14 v 56] by auto
  then show ?thesis using assms top_byte [of v] by (simp add: sqlite3PutVarint_def putVarint64_def le_drop_bit numeral_eq_Suc)
qed

text \<open>Every value falls into one of the cases.\<close>

lemma varint_cases:
  obtains n where "n < 8" "drop_bit (7 * Suc n) v = 0" "n = 0 \<or> drop_bit (7 * n) v \<noteq> 0" | "drop_bit 56 (v :: 64 word) \<noteq> 0"
proof (cases "drop_bit 56 v = 0")
  case True
  let ?n = "LEAST n. drop_bit (7 * Suc n) v = 0"
  have z: "drop_bit (7 * Suc 7) v = 0" using True by simp
  have a: "drop_bit (7 * Suc ?n) v = 0" by (rule LeastI [of "\<lambda>n. drop_bit (7 * Suc n) v = 0", OF z])
  have b: "?n \<le> 7" by (rule Least_le [of "\<lambda>n. drop_bit (7 * Suc n) v = 0", OF z])
  have c: "?n = 0 \<or> drop_bit (7 * ?n) v \<noteq> 0" using not_less_Least [of "?n - 1" "\<lambda>n. drop_bit (7 * Suc n) v = 0"] by (cases ?n) auto
  show ?thesis using that(1) [OF _ a c] b by simp
qed (use that(2) in blast)

subsection \<open>Reading back\<close>

lemma bit_vbyte:
  "bit (vbyte v) 0 = bit v 0" "bit (vbyte v) (Suc 0) = bit v 1" "bit (vbyte v) 1 = bit v 1" "bit (vbyte v) 2 = bit v 2" "bit (vbyte v) 3 = bit v 3" "bit (vbyte v) 4 = bit v 4"
  "bit (vbyte v) 5 = bit v 5" "bit (vbyte v) 6 = bit v 6" "bit (vbyte v) 7" "8 \<le> n \<Longrightarrow> \<not> bit (vbyte v) n"
  by (simp_all add: vbyte_def bit_simps)

lemma bit_low:
  "bit (ucast ((v :: 64 word) AND 0x7f) :: byte) n \<longleftrightarrow> n < 7 \<and> bit v n" 
proof -
  have "(0x7f :: 64 word) = mask 7" by (simp add: mask_eq_exp_minus_1)
  then have "v AND 0x7f = take_bit 7 v" by (simp add: take_bit_eq_mask)
  then show ?thesis by (auto simp: bit_simps)
qed

lemmas varint_eval = varint_bytes_def get_varint_defs rd_def Let_def test_80 hi_lo_def bit_simps bit_vbyte bit_low

lemma dec_3:
  assumes "drop_bit 21 v = 0"
  shows "ucast ((push_bit 14 (ucast (vbyte (drop_bit 14 v))) OR ucast (ucast (v AND 0x7f) :: byte) :: 32 word) AND SLOT_2_0 OR
     push_bit 7 (ucast (vbyte (drop_bit 7 v)) AND 0x7f)) = v"
  by (rule word64_eqI) (simp add: bits64_def bit_simps bit_vbyte bit_low SLOT_2_0_def high_bit_0 [OF assms])

lemma get_short:
  assumes "drop_bit (7 * Suc n) v = 0" "n < 3" "n < m"
  shows "sqlite3GetVarint (varint_bytes v n @ rest) m = Some (Suc n, v)"
proof -
  consider "n = 0" | "n = 1" | "n = 2" using assms(2) by linarith
  then show ?thesis
  proof cases
    case 1
    have "ucast (ucast (ucast (v AND 0x7f) :: byte) :: 32 word) = v"
      by (rule word64_eqI) (use assms 1 in \<open>simp add: bits64_def bit_simps bit_low high_bit_0\<close>)
    then show ?thesis using 1 assms by (simp add: varint_eval)
  next
    case 2
    have "ucast (push_bit 7 (ucast (vbyte (drop_bit 7 v)) AND 0x7f) OR ucast (ucast (v AND 0x7f) :: byte) :: 32 word) = v"
      by (rule word64_eqI) (use assms 2 in \<open>simp add: bits64_def bit_simps bit_vbyte bit_low high_bit_0\<close>)
    then show ?thesis using 2 assms by (simp add: varint_eval)
  next
    case 3
    then show ?thesis using 3 assms dec_3 by (simp add: varint_eval numeral_2_eq_2)
  qed
qed

lemmas get_eval = get_varint_defs rd_def Let_def test_80 hi_lo_def bit_simps bit_vbyte bit_low

lemmas varint_bits = bits64_def bit_simps bit_vbyte bit_low SLOT_2_0_def SLOT_4_2_0_def

lemma get_3:
  assumes "drop_bit 28 v = 0" "3 < m"
  shows "sqlite3GetVarint (varint_bytes v 3 @ rest) m = Some (4, v)"
proof -
  have "varint_bytes v 3 = [vbyte (drop_bit 21 v), vbyte (drop_bit 14 v), vbyte (drop_bit 7 v), ucast (v AND 0x7f)]" by (simp add: varint_bytes_def upt_rec)
  then show ?thesis
    using assms by (simp add: get_eval) (rule word64_eqI, simp add: varint_bits high_bit_0 [OF assms(1)])
qed

lemma get_4:
  assumes "drop_bit 35 v = 0" "4 < m"
  shows "sqlite3GetVarint (varint_bytes v 4 @ rest) m = Some (5, v)"
proof -
  have "varint_bytes v 4 = [vbyte (drop_bit 28 v), vbyte (drop_bit 21 v), vbyte (drop_bit 14 v), vbyte (drop_bit 7 v), ucast (v AND 0x7f)]" by (simp add: varint_bytes_def upt_rec)
  then show ?thesis
    using assms by (simp add: get_eval) (rule word64_eqI, simp add: varint_bits high_bit_0 [OF assms(1)])
qed

lemma get_5:
  assumes "drop_bit 42 v = 0" "5 < m"
  shows "sqlite3GetVarint (varint_bytes v 5 @ rest) m = Some (6, v)"
proof -
  have "varint_bytes v 5 = [vbyte (drop_bit 35 v), vbyte (drop_bit 28 v), vbyte (drop_bit 21 v), vbyte (drop_bit 14 v), vbyte (drop_bit 7 v), ucast (v AND 0x7f)]" by (simp add: varint_bytes_def upt_rec)
  then show ?thesis
    using assms by (simp add: get_eval) (rule word64_eqI, simp add: varint_bits high_bit_0 [OF assms(1)])
qed

lemma get_6:
  assumes "drop_bit 49 v = 0" "6 < m"
  shows "sqlite3GetVarint (varint_bytes v 6 @ rest) m = Some (7, v)"
proof -
  have "varint_bytes v 6 = [vbyte (drop_bit 42 v), vbyte (drop_bit 35 v), vbyte (drop_bit 28 v), vbyte (drop_bit 21 v), vbyte (drop_bit 14 v), vbyte (drop_bit 7 v), ucast (v AND 0x7f)]" by (simp add: varint_bytes_def upt_rec)
  then show ?thesis
    using assms by (simp add: get_eval) (rule word64_eqI, simp add: varint_bits high_bit_0 [OF assms(1)])
qed

lemma get_7:
  assumes "drop_bit 56 v = 0" "7 < m"
  shows "sqlite3GetVarint (varint_bytes v 7 @ rest) m = Some (8, v)"
proof -
  have "varint_bytes v 7 = [vbyte (drop_bit 49 v), vbyte (drop_bit 42 v), vbyte (drop_bit 35 v), vbyte (drop_bit 28 v), vbyte (drop_bit 21 v), vbyte (drop_bit 14 v), vbyte (drop_bit 7 v), ucast (v AND 0x7f)]" by (simp add: varint_bytes_def upt_rec)
  then show ?thesis
    using assms by (simp add: get_eval) (rule word64_eqI, simp add: varint_bits high_bit_0 [OF assms(1)])
qed

text \<open>Nine bytes: the last one holds eight bits.\<close>

definition varint_bytes9 :: "64 word \<Rightarrow> byte list" where
  "varint_bytes9 v = map (\<lambda>k. vbyte (drop_bit k v)) [57, 50, 43, 36, 29, 22, 15, 8] @ [ucast v]"

lemma get_8:
  assumes "8 < m"
  shows "sqlite3GetVarint (varint_bytes9 v @ rest) m = Some (9, v)"
  using assms by (simp add: varint_bytes9_def get_eval) (rule word64_eqI, simp add: varint_bits bit_64)

lemma get_varint_bytes:
  assumes "drop_bit (7 * Suc n) v = 0" "n < 8" "n < m"
  shows "sqlite3GetVarint (varint_bytes v n @ rest) m = Some (Suc n, v)"
proof -
  consider "n < 3" | "n = 3" | "n = 4" | "n = 5" | "n = 6" | "n = 7" using assms(2) by linarith
  then show ?thesis
    by cases (use assms get_short [OF assms(1)] get_3 [of v m rest] get_4 [of v m rest] get_5 [of v m rest] get_6 [of v m rest] get_7 [of v m rest] in auto)
qed

lemma length_varint_bytes [simp]: "length (varint_bytes v n) = Suc n" "length (varint_bytes9 v) = 9"
  by (simp_all add: varint_bytes_def varint_bytes9_def)

lemma varint_roundtrip:
  "\<exists>bs. sqlite3PutVarint v = Some bs \<and> 1 \<le> length bs \<and> length bs \<le> 9 \<and>
     (\<forall>m rest. length bs \<le> m \<longrightarrow> sqlite3GetVarint (bs @ rest) m = Some (length bs, v))"
proof (cases v rule: varint_cases)
  case (1 n)
  then show ?thesis using sqlite3PutVarint_short [OF 1(2,3,1)] get_varint_bytes [OF 1(2,1)]
    by (intro exI [of _ "varint_bytes v n"]) auto
next
  case 2
  then show ?thesis using sqlite3PutVarint_long [OF 2] get_8 [of _ v] unfolding varint_bytes9_def [symmetric]
    by (intro exI [of _ "varint_bytes9 v"]) auto
qed

end
