(* ===== verification/Data_Stream.thy ===== *)
theory Data_Stream
  imports Varint
begin

text \<open>
  Message serialisation of \<^verbatim>\<open>src/common/data.cpp\<close> and the byte-order helpers of \<^verbatim>\<open>src/stringtools.h\<close>. \<open>be\<close> tells
  whether the host is big endian: \<open>host_bytes\<close> is the memory image of an integer there. An \<open>int\<close> is its two's complement
  word, a \<open>float\<close> or \<open>double\<close> its bit pattern. \<open>size_t\<close> has 64 bits.
\<close>

unbundle bit_operations_syntax

subsection \<open>Byte order\<close>

definition host_bytes :: "bool \<Rightarrow> nat \<Rightarrow> nat \<Rightarrow> byte list" where
  "host_bytes be n v = (if be then rev (enc_le n v) else enc_le n v)"

definition host_nat :: "bool \<Rightarrow> byte list \<Rightarrow> nat" where
  "host_nat be bs = le_nat (if be then rev bs else bs)"

definition is_big_endian :: "bool \<Rightarrow> bool" where
  "is_big_endian be \<longleftrightarrow> host_bytes be 4 0x01020304 ! 0 = 1"

definition endian_swap32 :: "u32 \<Rightarrow> u32" where
  "endian_swap32 x = drop_bit 24 x OR (push_bit 8 x AND 0x00FF0000) OR (drop_bit 8 x AND 0x0000FF00) OR push_bit 24 x"

definition endian_swap16 :: "u16 \<Rightarrow> u16" where
  "endian_swap16 x = drop_bit 8 x OR push_bit 8 x"

definition endian_swap64 :: "u64 \<Rightarrow> u64" where
  "endian_swap64 x =
     drop_bit 56 x OR
     (push_bit 40 x AND 0x00FF000000000000) OR
     (push_bit 24 x AND 0x0000FF0000000000) OR
     (push_bit 8 x AND 0x000000FF00000000) OR
     (drop_bit 8 x AND 0x00000000FF000000) OR
     (drop_bit 24 x AND 0x0000000000FF0000) OR
     (drop_bit 40 x AND 0x000000000000FF00) OR
     push_bit 56 x"

definition little_endian32 :: "bool \<Rightarrow> u32 \<Rightarrow> u32" where
  "little_endian32 be x = (if is_big_endian be then endian_swap32 x else x)"

definition little_endian16 :: "bool \<Rightarrow> u16 \<Rightarrow> u16" where
  "little_endian16 be x = (if is_big_endian be then endian_swap16 x else x)"

definition little_endian64 :: "bool \<Rightarrow> u64 \<Rightarrow> u64" where
  "little_endian64 be x = (if is_big_endian be then endian_swap64 x else x)"

definition big_endian32 :: "bool \<Rightarrow> u32 \<Rightarrow> u32" where
  "big_endian32 be x = (if \<not> is_big_endian be then endian_swap32 x else x)"

definition big_endian16 :: "bool \<Rightarrow> u16 \<Rightarrow> u16" where
  "big_endian16 be x = (if \<not> is_big_endian be then endian_swap16 x else x)"

definition big_endian64 :: "bool \<Rightarrow> u64 \<Rightarrow> u64" where
  "big_endian64 be x = (if \<not> is_big_endian be then endian_swap64 x else x)"

lemma enc_le_numeral: "enc_le (numeral k) v = of_nat v # enc_le (pred_numeral k) (v div 256)"
  unfolding numeral_eq_Suc by simp

lemma is_big_endian [simp]: "is_big_endian be = be"
  by (simp add: is_big_endian_def host_bytes_def enc_le_numeral)

lemma of_nat_unat_div [simp]: "(of_nat (unat (x :: 'a :: len word) div 256 ^ k) :: byte) = ucast (drop_bit (8 * k) x)"
proof -
  have "unat x div 256 ^ k = unat (drop_bit (8 * k) x)"
    unfolding unat_drop_bit_eq by (simp add: drop_bit_eq_div power_mult)
  then show ?thesis by simp
qed

lemma enc_le_unat: "enc_le n (unat (x :: 'a :: len word) div 256 ^ k) = map (\<lambda>i. ucast (drop_bit (8 * (k + i)) x)) [0..<n]"
proof (induction n arbitrary: k)
  case (Suc n)
  have "unat x div 256 ^ k div 256 = unat x div 256 ^ Suc k" by (simp add: div_mult2_eq [symmetric] mult.commute)
  then show ?case using Suc [of "Suc k"]
    by (subst upt_conv_Cons) (auto simp: map_Suc_upt [symmetric] algebra_simps simp del: upt_Suc)
qed simp

lemma enc_le_word: "enc_le n (unat (x :: 'a :: len word)) = map (\<lambda>i. ucast (drop_bit (8 * i) x)) [0..<n]"
  using enc_le_unat [of n x 0] by simp

lemma rev_swap:
  "rev (enc_le 4 (unat (endian_swap32 a))) = enc_le 4 (unat a)"
  "rev (enc_le 2 (unat (endian_swap16 b))) = enc_le 2 (unat b)"
  "rev (enc_le 8 (unat (endian_swap64 c))) = enc_le 8 (unat c)"
  by (simp_all add: enc_le_word upt_rec)
    (safe; rule word8_eqI; simp add: endian_swap32_def endian_swap16_def endian_swap64_def bit_simps)+

subsection \<open>Writing: \<open>CWData\<close>\<close>

record cwdata =
  wdata :: "byte list"

definition wappend :: "byte list \<Rightarrow> cwdata \<Rightarrow> cwdata" where
  "wappend bs w = w\<lparr>wdata := wdata w @ bs\<rparr>"

definition addInt :: "bool \<Rightarrow> u32 \<Rightarrow> cwdata \<Rightarrow> cwdata" where
  "addInt be ta w = (let ta = little_endian32 be ta in wappend (host_bytes be 4 (unat ta)) w)"

definition addUInt :: "bool \<Rightarrow> u32 \<Rightarrow> cwdata \<Rightarrow> cwdata" where
  "addUInt be ta w = (let ta = little_endian32 be ta in wappend (host_bytes be 4 (unat ta)) w)"

definition addInt64 :: "bool \<Rightarrow> u64 \<Rightarrow> cwdata \<Rightarrow> cwdata" where
  "addInt64 be ta w = (let ta = little_endian64 be ta in wappend (host_bytes be 8 (unat ta)) w)"

definition addUInt64 :: "bool \<Rightarrow> u64 \<Rightarrow> cwdata \<Rightarrow> cwdata" where
  "addUInt64 be ta w = (let ta = little_endian64 be ta in wappend (host_bytes be 8 (unat ta)) w)"

definition addFloat :: "bool \<Rightarrow> u32 \<Rightarrow> cwdata \<Rightarrow> cwdata" where
  "addFloat be ta w = (let ta = little_endian32 be ta in wappend (host_bytes be 4 (unat ta)) w)"

definition addDouble :: "bool \<Rightarrow> u64 \<Rightarrow> cwdata \<Rightarrow> cwdata" where
  "addDouble be ta w = (let ta = little_endian64 be ta in wappend (host_bytes be 8 (unat ta)) w)"

definition addUShort :: "bool \<Rightarrow> u16 \<Rightarrow> cwdata \<Rightarrow> cwdata" where
  "addUShort be ta w = (let ta = little_endian16 be ta in wappend (host_bytes be 2 (unat ta)) w)"

definition addString :: "bool \<Rightarrow> byte list \<Rightarrow> cwdata \<Rightarrow> cwdata" where
  "addString be ta w =
     (let w = addUInt be (of_nat (length ta)) w in
      if ta \<noteq> [] then wappend ta w else w)"

text \<open>\<open>None\<close> is a failed assertion.\<close>

definition addVarInt :: "u64 \<Rightarrow> cwdata \<Rightarrow> cwdata option" where
  "addVarInt ta w =
     do { needed_bytes \<leftarrow> sqlite3VarintLen ta;
          bs \<leftarrow> sqlite3PutVarint ta;
          if length bs = needed_bytes then Some (wappend bs w) else None }"

definition addString2 :: "byte list \<Rightarrow> cwdata \<Rightarrow> cwdata option" where
  "addString2 ta w =
     do { w \<leftarrow> addVarInt (of_nat (length ta)) w;
          Some (if ta \<noteq> [] then wappend ta w else w) }"

definition addChar :: "byte \<Rightarrow> cwdata \<Rightarrow> cwdata" where
  "addChar ta w = wappend [ta] w"

definition addUChar :: "byte \<Rightarrow> cwdata \<Rightarrow> cwdata" where
  "addUChar ta w = wappend [ta] w"

definition addVoidPtr :: "bool \<Rightarrow> u64 \<Rightarrow> cwdata \<Rightarrow> cwdata" where
  "addVoidPtr be ta w = wappend (host_bytes be 8 (unat ta)) w"

definition addBuffer :: "byte list \<Rightarrow> nat \<Rightarrow> cwdata \<Rightarrow> cwdata option" where
  "addBuffer buffer bsize w = do { bs \<leftarrow> rdb buffer 0 bsize; Some (wappend bs w) }"

definition wclear :: "cwdata \<Rightarrow> cwdata" where
  "wclear w = w\<lparr>wdata := []\<rparr>"

definition wresize :: "nat \<Rightarrow> cwdata \<Rightarrow> cwdata" where
  "wresize n w = w\<lparr>wdata := take n (wdata w) @ replicate (n - length (wdata w)) 0\<rparr>"

definition getDataSize :: "cwdata \<Rightarrow> nat" where
  "getDataSize w = length (wdata w)"

subsection \<open>Reading: \<open>CRData\<close>\<close>

text \<open>\<open>rdata\<close> is the buffer behind the pointer \<open>data\<close> (\<open>None\<close> the null pointer) and \<open>rcopy\<close> tells whether it was allocated by
  the reader. A getter returns \<open>None\<close> when it would read outside the buffer, otherwise the value (\<open>None\<close> when the method
  returns false) and the new reader.\<close>

record crdata =
  rdata :: "byte list option"
  streampos :: nat
  datalen :: nat
  rcopy :: bool

type_synonym 'a rres = "('a option \<times> crdata) option"

definition size_add :: "nat \<Rightarrow> nat \<Rightarrow> nat" where
  "size_add a b = (a + b) mod 2 ^ 64"

definition max_datalen :: nat where
  "max_datalen = 100 * 1024 * 1024"

definition max_strlen :: nat where
  "max_strlen = 10 * 1024 * 1024"

definition CRData_empty :: "bool \<Rightarrow> crdata" where
  "CRData_empty garbage = \<lparr>rdata = None, streampos = 0, datalen = 0, rcopy = garbage\<rparr>"

text \<open>\<open>None\<close>: the buffer is shorter than its length, or \<open>delete[]\<close> is applied to a buffer the reader did not allocate.\<close>

definition rset :: "byte list \<Rightarrow> nat \<Rightarrow> bool \<Rightarrow> crdata \<Rightarrow> crdata option" where
  "rset c datalength pCopy r =
     (let owned = rcopy r; r = r\<lparr>datalen := min max_datalen datalength, rcopy := pCopy\<rparr> in
      if \<not> pCopy then Some (r\<lparr>rdata := Some c, streampos := 0\<rparr>)
      else if rdata r \<noteq> None \<and> \<not> owned then None
      else
        do { bs \<leftarrow> rdb c 0 (datalen r);
             Some (r\<lparr>rdata := Some bs, streampos := 0\<rparr>) })"

definition CRData_of_str :: "byte list \<Rightarrow> crdata option" where
  "CRData_of_str str = rset str (length str) False (CRData_empty False)"

definition getLeft :: "crdata \<Rightarrow> nat" where
  "getLeft r = u32n (datalen r - streampos r)"

definition rbytes :: "crdata \<Rightarrow> nat \<Rightarrow> byte list option" where
  "rbytes r n = (case rdata r of None \<Rightarrow> None | Some d \<Rightarrow> rdb d (streampos r) n)"

definition radvance :: "nat \<Rightarrow> crdata \<Rightarrow> crdata" where
  "radvance n r = r\<lparr>streampos := size_add (streampos r) n\<rparr>"

text \<open>The common shape of the fixed-width getters: test, copy, advance.\<close>

definition rfixed :: "nat \<Rightarrow> (byte list \<Rightarrow> 'a) \<Rightarrow> crdata \<Rightarrow> 'a rres" where
  "rfixed n f r =
     (if size_add (streampos r) n > datalen r then Some (None, r)
      else do { bs \<leftarrow> rbytes r n; Some (Some (f bs), radvance n r) })"

definition getInt :: "bool \<Rightarrow> crdata \<Rightarrow> u32 rres" where
  "getInt be = rfixed 4 (\<lambda>bs. little_endian32 be (of_nat (host_nat be bs)))"

definition getInt64 :: "bool \<Rightarrow> crdata \<Rightarrow> u64 rres" where
  "getInt64 be = rfixed 8 (\<lambda>bs. little_endian64 be (of_nat (host_nat be bs)))"

definition getUInt :: "bool \<Rightarrow> crdata \<Rightarrow> u32 rres" where
  "getUInt be = rfixed 4 (\<lambda>bs. little_endian32 be (of_nat (host_nat be bs)))"

definition getFloat :: "bool \<Rightarrow> crdata \<Rightarrow> u32 rres" where
  "getFloat be = rfixed 4 (\<lambda>bs. little_endian32 be (of_nat (host_nat be bs)))"

definition getDouble :: "bool \<Rightarrow> crdata \<Rightarrow> u64 rres" where
  "getDouble be = rfixed 8 (\<lambda>bs. little_endian64 be (of_nat (host_nat be bs)))"

definition getUShort :: "bool \<Rightarrow> crdata \<Rightarrow> u16 rres" where
  "getUShort be = rfixed 2 (\<lambda>bs. little_endian16 be (of_nat (host_nat be bs)))"

definition getChar :: "crdata \<Rightarrow> byte rres" where
  "getChar = rfixed 1 hd"

definition getUChar :: "crdata \<Rightarrow> byte rres" where
  "getUChar = rfixed 1 hd"

definition getVoidPtr :: "bool \<Rightarrow> crdata \<Rightarrow> u64 rres" where
  "getVoidPtr be = rfixed 8 (\<lambda>bs. of_nat (host_nat be bs))"

text \<open>The part of \<open>getStr\<close> and \<open>getStr2\<close> after the length is known.\<close>

definition rstring :: "nat \<Rightarrow> crdata \<Rightarrow> byte list rres" where
  "rstring n r =
     (if size_add (streampos r) n > datalen r then Some (None, r)
      else do { s \<leftarrow> (if n > 0 then rbytes r n else Some []); Some (Some s, radvance n r) })"

definition getStr :: "bool \<Rightarrow> crdata \<Rightarrow> byte list rres" where
  "getStr be r =
     do { (v, r) \<leftarrow> getUInt be r;
          case v of
            None \<Rightarrow> Some (None, r)
          | Some n \<Rightarrow> if unat n > max_strlen then Some (None, r) else rstring (unat n) r }"

definition getVarInt :: "crdata \<Rightarrow> u64 rres" where
  "getVarInt r =
     (case rdata r of
        None \<Rightarrow> if getLeft r = 0 then Some (None, r) else None
      | Some d \<Rightarrow>
          do { (b, v) \<leftarrow> sqlite3GetVarint (drop (streampos r) d) (getLeft r);
               Some (if b \<noteq> 0 then Some v else None, radvance b r) })"

definition getStr2 :: "crdata \<Rightarrow> byte list rres" where
  "getStr2 r =
     do { (v, r) \<leftarrow> getVarInt r;
          case v of
            None \<Rightarrow> Some (None, r)
          | Some n \<Rightarrow> if sint n > int max_strlen \<or> sint n < 0 then Some (None, r) else rstring (unat n) r }"

definition getSize :: "crdata \<Rightarrow> nat" where
  "getSize r = u32n (datalen r)"

definition getStreampos :: "crdata \<Rightarrow> nat" where
  "getStreampos r = u32n (streampos r)"

definition setStreampos :: "u32 \<Rightarrow> crdata \<Rightarrow> crdata" where
  "setStreampos spos r = (if unat spos \<le> datalen r then r\<lparr>streampos := unat spos\<rparr> else r)"

definition incrementPtr :: "u32 \<Rightarrow> crdata \<Rightarrow> bool \<times> crdata" where
  "incrementPtr amount r = (if unat amount > getLeft r then (False, r) else (True, radvance (unat amount) r))"

subsection \<open>Safety of the decoder and length of an encoding\<close>

lemma sqlite3GetVarint_safe:
  assumes "m \<le> length p"
  shows "\<exists>b v. sqlite3GetVarint p m = Some (b, v) \<and> b \<le> m \<and> b \<le> 9"
proof -
  have "sqlite3GetVarint p m \<noteq> None \<and> (\<forall>x. sqlite3GetVarint p m = Some x \<longrightarrow> fst x \<le> m \<and> fst x \<le> 9)"
    using assms by (auto simp: get_varint_defs rd_def Let_def split: if_splits)
  then show ?thesis by (cases "sqlite3GetVarint p m") auto
qed

lemma varint_len_loop_eq:
  "drop_bit (7 * Suc n) v = 0 \<Longrightarrow> n = 0 \<or> drop_bit (7 * n) v \<noteq> 0 \<Longrightarrow> i + n \<le> 10 \<Longrightarrow> varint_len_loop v i = Some (i + n)"
proof (induction n arbitrary: v i)
  case 0
  then show ?case by (subst varint_len_loop.simps) simp
next
  case (Suc n)
  have nz: "drop_bit 7 v \<noteq> 0" using Suc.prems(2) drop_bit_0_mono [of 7 v "7 * Suc n"] by auto
  have "varint_len_loop (drop_bit 7 v) (i + 1) = Some (i + 1 + n)"
    by (rule Suc.IH) (use Suc.prems in \<open>auto simp: algebra_simps\<close>)
  then show ?case using nz Suc.prems(3) by (subst varint_len_loop.simps) simp
qed

lemma sqlite3VarintLen_short:
  assumes "drop_bit (7 * Suc n) v = 0" "n = 0 \<or> drop_bit (7 * n) v \<noteq> 0" "n < 8"
  shows "sqlite3VarintLen v = Some (Suc n)"
  using varint_len_loop_eq [OF assms(1,2), of 1] assms(3) by (simp add: sqlite3VarintLen_def)

lemma sqlite3VarintLen_long:
  assumes "drop_bit 56 v \<noteq> 0"
  shows "sqlite3VarintLen v = Some 9"
proof (cases "drop_bit 63 v = 0")
  case True
  then show ?thesis using varint_len_loop_eq [of 8 v 1] assms by (simp add: sqlite3VarintLen_def)
next
  case False
  have "drop_bit 70 v = 0" by (rule bit_word_eqI) (simp add: bit_simps bit_64)
  then show ?thesis using varint_len_loop_eq [of 9 v 1] False by (simp add: sqlite3VarintLen_def)
qed

lemma sqlite3VarintLen_Put: "\<exists>bs. sqlite3PutVarint v = Some bs \<and> sqlite3VarintLen v = Some (length bs)"
proof (cases v rule: varint_cases)
  case (1 n)
  then show ?thesis using sqlite3PutVarint_short [OF 1(2,3,1)] sqlite3VarintLen_short [OF 1(2,3,1)] by simp
next
  case 2
  then show ?thesis using sqlite3PutVarint_long sqlite3VarintLen_long by simp
qed

definition varint_enc :: "u64 \<Rightarrow> byte list" where
  "varint_enc v = the (sqlite3PutVarint v)"

lemma varint_enc:
  "sqlite3PutVarint v = Some (varint_enc v)" "sqlite3VarintLen v = Some (length (varint_enc v))"
  "1 \<le> length (varint_enc v)" "length (varint_enc v) \<le> 9"
  "length (varint_enc v) \<le> m \<Longrightarrow> sqlite3GetVarint (varint_enc v @ rest) m = Some (length (varint_enc v), v)"
  using varint_roundtrip [of v] sqlite3VarintLen_Put [of v] by (auto simp: varint_enc_def)

subsection \<open>The reader's invariant\<close>

definition rwf :: "crdata \<Rightarrow> bool" where
  "rwf r \<longleftrightarrow> streampos r \<le> datalen r \<and> datalen r \<le> max_datalen \<and>
     (case rdata r of None \<Rightarrow> datalen r = 0 | Some d \<Rightarrow> datalen r \<le> length d)"

text \<open>The bytes not yet read.\<close>

definition ravail :: "crdata \<Rightarrow> byte list" where
  "ravail r = (case rdata r of None \<Rightarrow> [] | Some d \<Rightarrow> bslice d (streampos r) (datalen r - streampos r))"

lemma length_ravail: "rwf r \<Longrightarrow> length (ravail r) = datalen r - streampos r"
  by (auto simp: rwf_def ravail_def length_bslice split: option.splits)

lemma rwf_bounds: "rwf r \<Longrightarrow> streampos r + length (ravail r) = datalen r" "rwf r \<Longrightarrow> datalen r \<le> max_datalen"
  by (simp add: length_ravail) (simp_all add: rwf_def)

lemma size_add_small: "a + b \<le> max_datalen + 2 ^ 32 \<Longrightarrow> size_add a b = a + b"
  by (simp add: size_add_def max_datalen_def)

lemma radvance_props:
  assumes "rwf r" "n \<le> length (ravail r)"
  shows "rwf (radvance n r)" "ravail (radvance n r) = drop n (ravail r)" "streampos (radvance n r) = streampos r + n"
    "datalen (radvance n r) = datalen r" "rdata (radvance n r) = rdata r"
proof -
  have s: "size_add (streampos r) n = streampos r + n" using assms rwf_bounds [OF assms(1)] by (intro size_add_small) simp
  show "streampos (radvance n r) = streampos r + n" "datalen (radvance n r) = datalen r" "rdata (radvance n r) = rdata r"
    using s by (simp_all add: radvance_def)
  show "rwf (radvance n r)" using s assms rwf_bounds [OF assms(1)] by (auto simp: rwf_def radvance_def split: option.splits)
  show "ravail (radvance n r) = drop n (ravail r)"
    using s assms rwf_bounds [OF assms(1)] by (auto simp: ravail_def radvance_def bslice_def drop_take add.commute split: option.splits)
qed

lemma radvance_0: "rwf r \<Longrightarrow> radvance 0 r = r"
  using rwf_bounds [of r] by (simp add: radvance_def size_add_small)

lemma radvance_add:
  assumes "rwf r" "m + n \<le> length (ravail r)"
  shows "radvance n (radvance m r) = radvance (m + n) r"
proof -
  have "size_add (streampos r) m = streampos r + m" "size_add (streampos r + m) n = streampos r + m + n"
    "size_add (streampos r) (m + n) = streampos r + m + n"
    using assms rwf_bounds [OF assms(1)] by (auto intro!: trans [OF size_add_small])
  then show ?thesis by (simp add: radvance_def)
qed

lemma rbytes_eq: "rwf r \<Longrightarrow> 0 < n \<Longrightarrow> n \<le> length (ravail r) \<Longrightarrow> rbytes r n = Some (take n (ravail r))"
  using length_ravail [of r] by (auto simp: rwf_def rbytes_def ravail_def rdb_def bslice_def split: option.splits)

lemma fits_iff: "rwf r \<Longrightarrow> n < 2 ^ 32 \<Longrightarrow> size_add (streampos r) n > datalen r \<longleftrightarrow> length (ravail r) < n"
  using rwf_bounds [of r] by (subst size_add_small) auto

lemma rfixed_eq:
  "rwf r \<Longrightarrow> 0 < n \<Longrightarrow> n < 2 ^ 32 \<Longrightarrow>
     rfixed n f r = Some (if n \<le> length (ravail r) then (Some (f (take n (ravail r))), radvance n r) else (None, r))"
  by (auto simp: rfixed_def fits_iff rbytes_eq)

lemma rstring_eq:
  "rwf r \<Longrightarrow> n < 2 ^ 32 \<Longrightarrow>
     rstring n r = Some (if n \<le> length (ravail r) then (Some (take n (ravail r)), radvance n r) else (None, r))"
  by (auto simp: rstring_def fits_iff rbytes_eq)

lemma getLeft_eq: "rwf r \<Longrightarrow> getLeft r = length (ravail r)"
  using length_ravail [of r] rwf_bounds [of r] by (simp add: getLeft_def max_datalen_def)

lemma getVarInt_eq:
  assumes "rwf r"
  shows "\<exists>rest. getVarInt r = do { (b, v) \<leftarrow> sqlite3GetVarint (ravail r @ rest) (length (ravail r));
                                   Some (if b \<noteq> 0 then Some v else None, radvance b r) }"
proof (cases "rdata r")
  case None
  then have "ravail r = []" "getVarInt r = Some (None, r)" using assms getLeft_eq [OF assms] by (simp_all add: ravail_def getVarInt_def)
  then show ?thesis using radvance_0 [OF assms] by (simp add: sqlite3GetVarint_def rd_byte_def)
next
  case (Some d)
  have "drop (streampos r) d = ravail r @ drop (length (ravail r)) (drop (streampos r) d)"
    unfolding length_ravail [OF assms] using Some by (simp only: ravail_def bslice_def option.case append_take_drop_id)
  then show ?thesis using Some getLeft_eq [OF assms] by (intro exI [of _ "drop (length (ravail r)) (drop (streampos r) d)"]) (simp add: getVarInt_def)
qed

lemma getVarInt_safe:
  assumes "rwf r"
  shows "\<exists>v n. getVarInt r = Some (v, radvance n r) \<and> n \<le> length (ravail r) \<and> (v = None \<longrightarrow> n = 0)"
proof -
  from getVarInt_eq [OF assms] obtain rest where
    e: "getVarInt r = do { (b, v) \<leftarrow> sqlite3GetVarint (ravail r @ rest) (length (ravail r));
                           Some (if b \<noteq> 0 then Some v else None, radvance b r) }" ..
  from sqlite3GetVarint_safe [of "length (ravail r)" "ravail r @ rest"] obtain b v where
    "sqlite3GetVarint (ravail r @ rest) (length (ravail r)) = Some (b, v)" "b \<le> length (ravail r)" by auto
  then show ?thesis using e by auto
qed

lemma getVarInt_enc:
  assumes "rwf r" "ravail r = varint_enc v @ rest"
  shows "getVarInt r = Some (Some v, radvance (length (varint_enc v)) r)"
proof -
  from getVarInt_eq [OF assms(1)] obtain rest' where
    e: "getVarInt r = do { (b, v) \<leftarrow> sqlite3GetVarint (ravail r @ rest') (length (ravail r));
                           Some (if b \<noteq> 0 then Some v else None, radvance b r) }" ..
  have "sqlite3GetVarint (ravail r @ rest') (length (ravail r)) = Some (length (varint_enc v), v)"
    using varint_enc(5) [of v "length (ravail r)" "rest @ rest'"] assms(2) by simp
  moreover have "varint_enc v \<noteq> []" using varint_enc(3) [of v] by auto
  ultimately show ?thesis using e by simp
qed

subsection \<open>The contract of a reading operation\<close>

text \<open>A getter never reads outside the buffer, keeps the invariant and only moves forward within the bytes left.\<close>

locale getter =
  fixes get :: "crdata \<Rightarrow> 'a rres"
  assumes get_safe: "rwf r \<Longrightarrow> \<exists>v n. get r = Some (v, radvance n r) \<and> n \<le> length (ravail r)"
begin

lemma get_rwf:
  assumes "rwf r" "get r = Some (v, r')"
  shows "rwf r'" "rdata r' = rdata r" "datalen r' = datalen r" "streampos r \<le> streampos r'" "streampos r' \<le> datalen r'"
proof -
  obtain n where n: "r' = radvance n r" "n \<le> length (ravail r)" using get_safe [OF assms(1)] assms(2) by auto
  show "rwf r'" "rdata r' = rdata r" "datalen r' = datalen r" "streampos r \<le> streampos r'" "streampos r' \<le> datalen r'"
    using radvance_props [OF assms(1) n(2)] rwf_bounds [OF assms(1)] n by auto
qed

end

lemma getter_rfixed: "0 < n \<Longrightarrow> n < 2 ^ 32 \<Longrightarrow> getter (rfixed n f)"
  by unfold_locales (auto simp: rfixed_eq intro: exI [of _ n] exI [of _ 0] simp: radvance_0)

lemma getter_rstring: "n < 2 ^ 32 \<Longrightarrow> getter (rstring n)"
  by unfold_locales (auto simp: rstring_eq intro: exI [of _ n] exI [of _ 0] simp: radvance_0)

text \<open>Sequencing of getters, as \<open>getStr\<close> does it: the second runs only after the first succeeded.\<close>

lemma getter_then:
  assumes g: "getter g" and h: "\<And>x. getter (h x)"
  shows "getter (\<lambda>r. do { (v, r) \<leftarrow> g r; case v of None \<Rightarrow> Some (None, r) | Some x \<Rightarrow> h x r })"
proof
  fix r assume r: "rwf r"
  obtain v n where v: "g r = Some (v, radvance n r)" "n \<le> length (ravail r)" using getter.get_safe [OF g r] by auto
  have r': "rwf (radvance n r)" "length (ravail (radvance n r)) = length (ravail r) - n"
    using radvance_props [OF r v(2)] by auto
  show "\<exists>w m. do { (v, r) \<leftarrow> g r; case v of None \<Rightarrow> Some (None, r) | Some x \<Rightarrow> h x r } = Some (w, radvance m r) \<and> m \<le> length (ravail r)"
  proof (cases v)
    case None
    then show ?thesis using v by auto
  next
    case (Some x)
    obtain w k where "h x (radvance n r) = Some (w, radvance k (radvance n r))" "k \<le> length (ravail (radvance n r))"
      using getter.get_safe [OF h r'(1)] by blast
    then show ?thesis using Some v r' radvance_add [OF r, of n k] by auto
  qed
qed

lemma getter_fail: "getter (\<lambda>r. Some (None, r))"
  by unfold_locales (auto intro: exI [of _ 0] simp: radvance_0)

lemma getter_if: "(\<not> c \<Longrightarrow> getter g) \<Longrightarrow> getter (\<lambda>r. if c then Some (None, r) else g r)"
  using getter_fail by (cases c) auto

interpretation get_int: getter "getInt be"
  unfolding getInt_def by (rule getter_rfixed) simp_all

interpretation get_int64: getter "getInt64 be"
  unfolding getInt64_def by (rule getter_rfixed) simp_all

interpretation get_uint: getter "getUInt be"
  unfolding getUInt_def by (rule getter_rfixed) simp_all

interpretation get_float: getter "getFloat be"
  unfolding getFloat_def by (rule getter_rfixed) simp_all

interpretation get_double: getter "getDouble be"
  unfolding getDouble_def by (rule getter_rfixed) simp_all

interpretation get_ushort: getter "getUShort be"
  unfolding getUShort_def by (rule getter_rfixed) simp_all

interpretation get_char: getter getChar
  unfolding getChar_def by (rule getter_rfixed) simp_all

interpretation get_uchar: getter getUChar
  unfolding getUChar_def by (rule getter_rfixed) simp_all

interpretation get_voidptr: getter "getVoidPtr be"
  unfolding getVoidPtr_def by (rule getter_rfixed) simp_all

interpretation get_varint: getter getVarInt
  by unfold_locales (use getVarInt_safe in blast)

interpretation get_str: getter "getStr be"
  unfolding getStr_def
  by (rule getter_then [OF get_uint.getter_axioms], rule getter_if, rule getter_rstring) (simp add: max_strlen_def)

lemma unat_of_sint: "0 \<le> sint n \<Longrightarrow> unat (n :: u64) = nat (sint n)"
proof -
  assume "0 \<le> sint n"
  then have "sint n < 2 ^ 64" using sint_lt [of n] by simp
  have "uint n = sint n mod 2 ^ 64" using uint_word_of_int [of "sint n", where ?'a = 64] by simp
  then show ?thesis using \<open>0 \<le> sint n\<close> \<open>sint n < 2 ^ 64\<close> by (simp add: unat_eq_nat_uint)
qed

lemma sint_of_unat: "unat (n :: u64) < 2 ^ 63 \<Longrightarrow> sint n = int (unat n)"
proof -
  assume w: "unat n < 2 ^ 63"
  have "int (unat n) < int (2 ^ 63)" using w by (simp only: of_nat_less_iff)
  then have "uint n < 2 ^ 63" by (simp only: uint_nat) simp
  moreover have "0 \<le> uint n" by simp
  ultimately have "signed_take_bit 63 (uint n) = uint n"
    by (intro signed_take_bit_int_eq_self) linarith+
  then have "sint n = uint n" by (simp add: sint_uint)
  then show ?thesis by (simp only: uint_nat)
qed

interpretation get_str2: getter getStr2
  unfolding getStr2_def
  by (rule getter_then [OF get_varint.getter_axioms], rule getter_if, rule getter_rstring)
    (auto simp: max_strlen_def unat_of_sint)

subsection \<open>The contract of a field\<close>

text \<open>\<open>add\<close> appends the bytes of a value and \<open>get\<close>, told the kind of the value, finds it again whatever follows.\<close>

primrec add_list :: "('a \<Rightarrow> cwdata \<Rightarrow> cwdata option) \<Rightarrow> 'a list \<Rightarrow> cwdata \<Rightarrow> cwdata option" where
  "add_list add [] w = Some w"
| "add_list add (v # vs) w = do { w \<leftarrow> add v w; add_list add vs w }"

primrec get_list :: "('k \<Rightarrow> crdata \<Rightarrow> 'a rres) \<Rightarrow> 'k list \<Rightarrow> crdata \<Rightarrow> 'a list rres" where
  "get_list get [] r = Some (Some [], r)"
| "get_list get (k # ks) r =
     do { (v, r) \<leftarrow> get k r;
          case v of
            None \<Rightarrow> Some (None, r)
          | Some x \<Rightarrow> do { (vs, r) \<leftarrow> get_list get ks r; Some (map_option ((#) x) vs, r) } }"

locale field_codec =
  fixes add :: "'a \<Rightarrow> cwdata \<Rightarrow> cwdata option"
    and get :: "'k \<Rightarrow> crdata \<Rightarrow> 'a rres"
    and kind :: "'a \<Rightarrow> 'k"
    and ok :: "'a \<Rightarrow> bool"
    and enc :: "'a \<Rightarrow> byte list"
  assumes add_enc: "ok v \<Longrightarrow> add v w = Some (wappend (enc v) w)"
    and get_enc: "rwf r \<Longrightarrow> ok v \<Longrightarrow> ravail r = enc v @ rest \<Longrightarrow> get (kind v) r = Some (Some v, radvance (length (enc v)) r)"
    and get_short: "rwf r \<Longrightarrow> ok v \<Longrightarrow> ravail r = take n (enc v) \<Longrightarrow> n < length (enc v) \<Longrightarrow> \<exists>r'. get (kind v) r = Some (None, r')"
begin

lemma add_list_enc: "list_all ok vs \<Longrightarrow> add_list add vs w = Some (wappend (concat (map enc vs)) w)"
  by (induction vs arbitrary: w) (auto simp: add_enc wappend_def)

lemma get_list_enc:
  "rwf r \<Longrightarrow> list_all ok vs \<Longrightarrow> ravail r = concat (map enc vs) @ rest \<Longrightarrow>
   get_list get (map kind vs) r = Some (Some vs, radvance (length (concat (map enc vs))) r)"
proof (induction vs arbitrary: r)
  case Nil
  then show ?case by (simp add: radvance_0)
next
  case (Cons v vs)
  have g: "get (kind v) r = Some (Some v, radvance (length (enc v)) r)"
    by (rule get_enc [where rest = "concat (map enc vs) @ rest"]) (use Cons.prems in auto)
  have le: "length (enc v) \<le> length (ravail r)" using Cons.prems(3) by simp
  have "get_list get (map kind vs) (radvance (length (enc v)) r) =
      Some (Some vs, radvance (length (concat (map enc vs))) (radvance (length (enc v)) r))"
    by (rule Cons.IH) (use Cons.prems radvance_props [OF Cons.prems(1) le] in auto)
  then show ?case using g Cons.prems radvance_add [OF Cons.prems(1), of "length (enc v)"] by auto
qed

lemma get_list_short:
  "rwf r \<Longrightarrow> list_all ok vs \<Longrightarrow> ravail r = take n (concat (map enc vs)) \<Longrightarrow> n < length (concat (map enc vs)) \<Longrightarrow>
   \<exists>r'. get_list get (map kind vs) r = Some (None, r')"
proof (induction vs arbitrary: r n)
  case Nil
  then show ?case by simp
next
  case (Cons v vs)
  show ?case
  proof (cases "n < length (enc v)")
    case True
    then obtain r' where "get (kind v) r = Some (None, r')" using get_short [OF Cons.prems(1), of v n] Cons.prems by auto
    then show ?thesis by simp
  next
    case False
    let ?r = "radvance (length (enc v)) r" and ?n = "n - length (enc v)"
    have g: "get (kind v) r = Some (Some v, ?r)"
      by (rule get_enc [where rest = "take ?n (concat (map enc vs))"]) (use Cons.prems False in auto)
    have le: "length (enc v) \<le> length (ravail r)" using Cons.prems False by simp
    have "\<exists>r'. get_list get (map kind vs) ?r = Some (None, r')"
      by (rule Cons.IH [of ?r ?n]) (use Cons.prems False radvance_props [OF Cons.prems(1) le] in auto)
    then show ?thesis using g by auto
  qed
qed

end

subsection \<open>Fixed-width fields on every host\<close>

lemma enc_swap:
  "enc_le 4 (unat (endian_swap32 a)) = rev (enc_le 4 (unat a))"
  "enc_le 2 (unat (endian_swap16 b)) = rev (enc_le 2 (unat b))"
  "enc_le 8 (unat (endian_swap64 c)) = rev (enc_le 8 (unat c))"
  by (metis rev_swap rev_rev_ident)+

lemma le_nat_word:
  "of_nat (le_nat (enc_le 4 (unat (a :: u32)))) = a" "of_nat (le_nat (enc_le 2 (unat (b :: u16)))) = b"
  "of_nat (le_nat (enc_le 8 (unat (c :: u64)))) = c"
  using unat_u32_less [of a] unsigned_less [of b, where ?'a = nat] unat_u64_less [of c] by (simp_all add: codec_simps)

lemma swap_swap [simp]:
  "endian_swap32 (endian_swap32 a) = a" "endian_swap16 (endian_swap16 b) = b" "endian_swap64 (endian_swap64 c) = c"
  by (metis enc_swap le_nat_word rev_rev_ident)+

lemmas little_endian_defs = little_endian32_def little_endian16_def little_endian64_def

text \<open>What is stored does not depend on the host, and every host reads it back.\<close>

lemma host_bytes_little_endian [simp]:
  "host_bytes be 4 (unat (little_endian32 be a)) = enc_le 4 (unat a)"
  "host_bytes be 2 (unat (little_endian16 be b)) = enc_le 2 (unat b)"
  "host_bytes be 8 (unat (little_endian64 be c)) = enc_le 8 (unat c)"
  by (simp_all add: host_bytes_def little_endian_defs enc_swap)

lemma host_nat_little_endian [simp]:
  "little_endian32 be (of_nat (host_nat be (enc_le 4 (unat a)))) = a"
  "little_endian16 be (of_nat (host_nat be (enc_le 2 (unat b)))) = b"
  "little_endian64 be (of_nat (host_nat be (enc_le 8 (unat c)))) = c"
  by (simp_all add: host_nat_def little_endian_defs le_nat_word flip: enc_swap)

subsection \<open>Messages\<close>

datatype field =
  FInt u32 | FUInt u32 | FInt64 u64 | FUInt64 u64 | FFloat u32 | FDouble u64 | FUShort u16 | FString "byte list" | FString2 "byte list"
  | FChar byte | FUChar byte | FVarInt u64

datatype fkind =
  KInt | KUInt | KInt64 | KUInt64 | KFloat | KDouble | KUShort | KString | KString2 | KChar | KUChar | KVarInt

fun field_kind :: "field \<Rightarrow> fkind" where
  "field_kind (FInt _) = KInt"
| "field_kind (FUInt _) = KUInt"
| "field_kind (FInt64 _) = KInt64"
| "field_kind (FUInt64 _) = KUInt64"
| "field_kind (FFloat _) = KFloat"
| "field_kind (FDouble _) = KDouble"
| "field_kind (FUShort _) = KUShort"
| "field_kind (FString _) = KString"
| "field_kind (FString2 _) = KString2"
| "field_kind (FChar _) = KChar"
| "field_kind (FUChar _) = KUChar"
| "field_kind (FVarInt _) = KVarInt"

fun add_field :: "bool \<Rightarrow> field \<Rightarrow> cwdata \<Rightarrow> cwdata option" where
  "add_field be (FInt v) w = Some (addInt be v w)"
| "add_field be (FUInt v) w = Some (addUInt be v w)"
| "add_field be (FInt64 v) w = Some (addInt64 be v w)"
| "add_field be (FUInt64 v) w = Some (addUInt64 be v w)"
| "add_field be (FFloat v) w = Some (addFloat be v w)"
| "add_field be (FDouble v) w = Some (addDouble be v w)"
| "add_field be (FUShort v) w = Some (addUShort be v w)"
| "add_field be (FString s) w = Some (addString be s w)"
| "add_field be (FString2 s) w = addString2 s w"
| "add_field be (FChar v) w = Some (addChar v w)"
| "add_field be (FUChar v) w = Some (addUChar v w)"
| "add_field be (FVarInt v) w = addVarInt v w"

definition rmap :: "('a \<Rightarrow> 'b) \<Rightarrow> 'a rres \<Rightarrow> 'b rres" where
  "rmap f x = map_option (\<lambda>(v, r). (map_option f v, r)) x"

text \<open>A \<open>uint64\<close> field is read with \<open>getInt64\<close>, as the callers do.\<close>

fun get_field :: "bool \<Rightarrow> fkind \<Rightarrow> crdata \<Rightarrow> field rres" where
  "get_field be KInt r = rmap FInt (getInt be r)"
| "get_field be KUInt r = rmap FUInt (getUInt be r)"
| "get_field be KInt64 r = rmap FInt64 (getInt64 be r)"
| "get_field be KUInt64 r = rmap FUInt64 (getInt64 be r)"
| "get_field be KFloat r = rmap FFloat (getFloat be r)"
| "get_field be KDouble r = rmap FDouble (getDouble be r)"
| "get_field be KUShort r = rmap FUShort (getUShort be r)"
| "get_field be KString r = rmap FString (getStr be r)"
| "get_field be KString2 r = rmap FString2 (getStr2 r)"
| "get_field be KChar r = rmap FChar (getChar r)"
| "get_field be KUChar r = rmap FUChar (getUChar r)"
| "get_field be KVarInt r = rmap FVarInt (getVarInt r)"

fun field_ok :: "field \<Rightarrow> bool" where
  "field_ok (FString s) = (length s \<le> max_strlen)"
| "field_ok (FString2 s) = (length s \<le> max_strlen)"
| "field_ok _ = True"

fun field_bytes :: "field \<Rightarrow> byte list" where
  "field_bytes (FInt v) = enc_le 4 (unat v)"
| "field_bytes (FUInt v) = enc_le 4 (unat v)"
| "field_bytes (FInt64 v) = enc_le 8 (unat v)"
| "field_bytes (FUInt64 v) = enc_le 8 (unat v)"
| "field_bytes (FFloat v) = enc_le 4 (unat v)"
| "field_bytes (FDouble v) = enc_le 8 (unat v)"
| "field_bytes (FUShort v) = enc_le 2 (unat v)"
| "field_bytes (FString s) = enc_le 4 (length s) @ s"
| "field_bytes (FString2 s) = varint_enc (of_nat (length s)) @ s"
| "field_bytes (FChar v) = [v]"
| "field_bytes (FUChar v) = [v]"
| "field_bytes (FVarInt v) = varint_enc v"

lemmas add_defs = addInt_def addUInt_def addInt64_def addUInt64_def addFloat_def addDouble_def addUShort_def addString_def
  addString2_def addChar_def addUChar_def addVarInt_def

lemma wappend_wappend: "wappend b (wappend a w) = wappend (a @ b) w"
  by (simp add: wappend_def)

lemma unat_length: "length s \<le> max_strlen \<Longrightarrow> unat (of_nat (length s) :: u32) = length s"
  "length s \<le> max_strlen \<Longrightarrow> unat (of_nat (length s) :: u64) = length s"
  by (simp_all add: unat_of_nat max_strlen_def)

lemma add_field_bytes: "field_ok f \<Longrightarrow> add_field be f w = Some (wappend (field_bytes f) w)"
  by (cases f) (auto simp: add_defs Let_def varint_enc(1,2) wappend_wappend unat_length)

text \<open>Reading back a fixed-width field, and a string once its length has been read.\<close>

lemma rfixed_enc:
  "rwf r \<Longrightarrow> 0 < n \<Longrightarrow> n < 2 ^ 32 \<Longrightarrow> ravail r = bs @ rest \<Longrightarrow> length bs = n \<Longrightarrow> rfixed n f r = Some (Some (f bs), radvance n r)"
  by (simp add: rfixed_eq)

lemma rstring_enc:
  assumes "rwf r" "ravail r = bs @ s @ rest" "length s < 2 ^ 32"
  shows "rstring (length s) (radvance (length bs) r) = Some (Some s, radvance (length bs + length s) r)"
proof -
  have le: "length bs \<le> length (ravail r)" using assms by simp
  show ?thesis using radvance_props [OF assms(1) le] radvance_add [OF assms(1)] assms by (simp add: rstring_eq)
qed

lemma getStr_enc:
  assumes "rwf r" "length s \<le> max_strlen" "ravail r = (enc_le 4 (length s) @ s) @ rest"
  shows "getStr be r = Some (Some s, radvance (4 + length s) r)"
proof -
  have "enc_le 4 (length s) = enc_le 4 (unat (of_nat (length s) :: u32))" using assms by (simp add: unat_length)
  then have "getUInt be r = Some (Some (of_nat (length s)), radvance 4 r)"
    unfolding getUInt_def by (subst rfixed_enc [where bs = "enc_le 4 (length s)" and rest = "s @ rest"]) (use assms in auto)
  moreover have "rstring (length s) (radvance 4 r) = Some (Some s, radvance (4 + length s) r)"
    using rstring_enc [of r "enc_le 4 (length s)" s rest] assms by (simp add: max_strlen_def)
  ultimately show ?thesis using assms(2) by (simp add: getStr_def unat_length)
qed

lemma getStr2_enc:
  assumes "rwf r" "length s \<le> max_strlen" "ravail r = (varint_enc (of_nat (length s)) @ s) @ rest"
  shows "getStr2 r = Some (Some s, radvance (length (varint_enc (of_nat (length s))) + length s) r)"
proof -
  let ?n = "of_nat (length s) :: u64"
  have "getVarInt r = Some (Some ?n, radvance (length (varint_enc ?n)) r)"
    using getVarInt_enc [OF assms(1), of ?n "s @ rest"] assms(3) by simp
  moreover have "rstring (length s) (radvance (length (varint_enc ?n)) r) = Some (Some s, radvance (length (varint_enc ?n) + length s) r)"
    using rstring_enc [of r "varint_enc ?n" s rest] assms by (simp add: max_strlen_def)
  moreover have "sint ?n = int (length s)" using assms(2) unat_length(2) [OF assms(2)] by (subst sint_of_unat) (auto simp: max_strlen_def)
  ultimately show ?thesis using assms(2) by (simp add: getStr2_def unat_length)
qed

lemma get_field_bytes:
  assumes "rwf r" "field_ok f" "ravail r = field_bytes f @ rest"
  shows "get_field be (field_kind f) r = Some (Some f, radvance (length (field_bytes f)) r)"
proof -
  note fixed = getInt_def getUInt_def getInt64_def getFloat_def getDouble_def getUShort_def getChar_def getUChar_def
  show ?thesis
    by (cases f) (use assms in \<open>simp_all add: fixed rmap_def rfixed_eq getStr_enc getStr2_enc getVarInt_enc\<close>)
qed

subsection \<open>Truncated messages\<close>

text \<open>When every byte at hand says that another one follows, the decoder reports that the value is not complete.\<close>

lemma sqlite3GetVarint_cont:
  assumes "\<And>i. i < m \<Longrightarrow> bit (p ! i) 7" "m \<le> length p" "m \<le> 8"
  shows "sqlite3GetVarint p m = Some (0, 0)"
  using assms by (auto simp: get_varint_defs rd_def Let_def test_80 bit_simps)

lemma vbyte_cont: "bit (vbyte v) 7"
  by (rule bit_vbyte)

lemma varint_enc_cont: "i + 1 < length (varint_enc v) \<Longrightarrow> bit (varint_enc v ! i) 7"
proof (cases v rule: varint_cases)
  case (1 n)
  assume "i + 1 < length (varint_enc v)"
  then show ?thesis using sqlite3PutVarint_short [OF 1(2,3,1)]
    by (simp add: varint_enc_def) (simp add: varint_bytes_def nth_append bit_vbyte)
next
  case 2
  assume "i + 1 < length (varint_enc v)"
  moreover have e: "varint_enc v = map (\<lambda>k. vbyte (drop_bit k v)) [57, 50, 43, 36, 29, 22, 15, 8] @ [ucast v]"
    using sqlite3PutVarint_long [OF 2] by (simp add: varint_enc_def)
  ultimately show ?thesis by (simp only: e nth_append length_map) (simp add: vbyte_cont flip: map_map list.map)
qed


lemma getVarInt_short:
  assumes "rwf r" "ravail r = take n (varint_enc v)" "n < length (varint_enc v)"
  shows "getVarInt r = Some (None, r)"
proof -
  from getVarInt_eq [OF assms(1)] obtain rest where
    e: "getVarInt r = do { (b, v) \<leftarrow> sqlite3GetVarint (ravail r @ rest) (length (ravail r));
                           Some (if b \<noteq> 0 then Some v else None, radvance b r) }" ..
  have "sqlite3GetVarint (ravail r @ rest) (length (ravail r)) = Some (0, 0)"
    by (rule sqlite3GetVarint_cont) (use assms varint_enc_cont [of _ v] varint_enc(4) [of v] in \<open>auto simp: nth_append\<close>)
  then show ?thesis using e radvance_0 [OF assms(1)] by simp
qed

lemma rstring_short:
  assumes "rwf r" "m \<le> length (ravail r)" "length (ravail r) < m + n" "n < 2 ^ 32"
  shows "rstring n (radvance m r) = Some (None, radvance m r)"
proof -
  have "length (ravail (radvance m r)) < n" using radvance_props(2) [OF assms(1,2)] assms(2,3) by auto
  then show ?thesis using radvance_props(1) [OF assms(1,2)] assms(4) by (simp add: rstring_eq)
qed

lemma getStr_short:
  assumes "rwf r" "length s \<le> max_strlen" "ravail r = take n (enc_le 4 (length s) @ s)" "n < 4 + length s"
  shows "\<exists>r'. getStr be r = Some (None, r')"
proof (cases "n < 4")
  case True
  then have "getUInt be r = Some (None, r)" unfolding getUInt_def using assms by (simp add: rfixed_eq)
  then show ?thesis by (simp add: getStr_def)
next
  case False
  have "enc_le 4 (length s) = enc_le 4 (unat (of_nat (length s) :: u32))" using assms by (simp add: unat_length)
  then have "getUInt be r = Some (Some (of_nat (length s)), radvance 4 r)"
    unfolding getUInt_def by (subst rfixed_enc [where bs = "enc_le 4 (length s)" and rest = "take (n - 4) s"]) (use assms False in auto)
  moreover have "rstring (length s) (radvance 4 r) = Some (None, radvance 4 r)"
    by (rule rstring_short) (use assms False in \<open>auto simp: max_strlen_def\<close>)
  ultimately show ?thesis using assms(2) by (simp add: getStr_def unat_length)
qed

lemma getStr2_short:
  assumes "rwf r" "length s \<le> max_strlen" "ravail r = take n (varint_enc (of_nat (length s)) @ s)"
    "n < length (varint_enc (of_nat (length s))) + length s"
  shows "\<exists>r'. getStr2 r = Some (None, r')"
proof -
  let ?n = "of_nat (length s) :: u64" and ?m = "length (varint_enc (of_nat (length s)))"
  show ?thesis
  proof (cases "n < ?m")
    case True
    then have "getVarInt r = Some (None, r)" using assms getVarInt_short [of r n ?n] by simp
    then show ?thesis by (simp add: getStr2_def)
  next
    case False
    have "getVarInt r = Some (Some ?n, radvance ?m r)"
      by (rule getVarInt_enc [where rest = "take (n - ?m) s"]) (use assms False in auto)
    moreover have "rstring (length s) (radvance ?m r) = Some (None, radvance ?m r)"
      by (rule rstring_short) (use assms False in \<open>auto simp: max_strlen_def\<close>)
    moreover have "sint ?n = int (length s)" using assms(2) unat_length(2) [OF assms(2)] by (subst sint_of_unat) (auto simp: max_strlen_def)
    ultimately show ?thesis using assms(2) by (simp add: getStr2_def unat_length)
  qed
qed

lemma get_field_short:
  assumes "rwf r" "field_ok f" "ravail r = take n (field_bytes f)" "n < length (field_bytes f)"
  shows "\<exists>r'. get_field be (field_kind f) r = Some (None, r')"
proof -
  note fixed = getInt_def getUInt_def getInt64_def getFloat_def getDouble_def getUShort_def getChar_def getUChar_def
  have str: "\<exists>r'. get_field be KString r = Some (None, r')" if "f = FString s" for s
    using getStr_short [OF assms(1), of s n be] that assms by (auto simp: rmap_def)
  have str2: "\<exists>r'. get_field be KString2 r = Some (None, r')" if "f = FString2 s" for s
    using getStr2_short [OF assms(1), of s n] that assms by (auto simp: rmap_def)
  show ?thesis
    by (cases f) (use assms str str2 in \<open>simp_all add: fixed rmap_def rfixed_eq getVarInt_short\<close>)
qed

interpretation msg: field_codec "add_field be1" "get_field be2" field_kind field_ok field_bytes
  by unfold_locales (simp_all add: add_field_bytes get_field_bytes get_field_short)

subsection \<open>Every sequence of operations on a reader\<close>

datatype rop = RGet fkind | RVoidPtr | RSetStreampos u32 | RIncrementPtr u32

fun rstep :: "bool \<Rightarrow> rop \<Rightarrow> crdata \<Rightarrow> crdata option" where
  "rstep be (RGet k) r = map_option snd (get_field be k r)"
| "rstep be RVoidPtr r = map_option snd (getVoidPtr be r)"
| "rstep be (RSetStreampos p) r = Some (setStreampos p r)"
| "rstep be (RIncrementPtr n) r = Some (snd (incrementPtr n r))"

primrec rsteps :: "bool \<Rightarrow> rop list \<Rightarrow> crdata \<Rightarrow> crdata option" where
  "rsteps be [] r = Some r"
| "rsteps be (p # ps) r = do { r \<leftarrow> rstep be p r; rsteps be ps r }"

lemma getter_rmap: "getter g \<Longrightarrow> getter (\<lambda>r. rmap f (g r))"
  unfolding getter_def rmap_def by fastforce

lemma getter_get_field: "getter (\<lambda>r. get_field be k r)"
proof -
  note g = get_int.getter_axioms get_int64.getter_axioms get_uint.getter_axioms get_float.getter_axioms get_double.getter_axioms
    get_ushort.getter_axioms get_char.getter_axioms get_uchar.getter_axioms get_str.getter_axioms get_str2.getter_axioms
    get_varint.getter_axioms
  show ?thesis by (cases k) (simp_all only: get_field.simps getter_rmap g)
qed

lemma getter_get_list: "(\<And>k. getter (get k)) \<Longrightarrow> getter (get_list get ks)"
proof (induction ks)
  case Nil
  show ?case by unfold_locales (auto intro: exI [of _ 0] simp: radvance_0)
next
  case (Cons k ks)
  have "get_list get (k # ks) =
      (\<lambda>r. do { (v, r) \<leftarrow> get k r; case v of None \<Rightarrow> Some (None, r) | Some x \<Rightarrow> rmap ((#) x) (get_list get ks r) })"
    by (rule ext) (auto simp: rmap_def map_conv_bind_option split: prod.splits option.splits Option.bind_splits)
  then show ?case using getter_then [OF Cons.prems getter_rmap [OF Cons.IH]] Cons.prems by simp
qed

lemma getter_step:
  assumes "getter g" "rwf r"
  shows "\<exists>r'. map_option snd (g r) = Some r' \<and> rwf r' \<and> rdata r' = rdata r \<and> datalen r' = datalen r"
proof -
  obtain v r' where v: "g r = Some (v, r')" using getter.get_safe [OF assms] by auto
  then show ?thesis using getter.get_rwf [OF assms v] by auto
qed

lemma rstep_rwf:
  assumes "rwf r"
  shows "\<exists>r'. rstep be p r = Some r' \<and> rwf r' \<and> rdata r' = rdata r \<and> datalen r' = datalen r"
proof (cases p)
  case (RSetStreampos x)
  then show ?thesis using assms by (auto simp: setStreampos_def rwf_def split: option.splits)
next
  case (RIncrementPtr x)
  then show ?thesis using assms radvance_props [OF assms, of "unat x"] getLeft_eq [OF assms] by (auto simp: incrementPtr_def)
qed (use getter_step [OF getter_get_field assms] getter_step [OF get_voidptr.getter_axioms assms] in auto)

lemma rsteps_rwf: "rwf r \<Longrightarrow> \<exists>r'. rsteps be ps r = Some r' \<and> rwf r' \<and> rdata r' = rdata r \<and> datalen r' = datalen r"
proof (induction ps arbitrary: r)
  case (Cons p ps)
  obtain r1 where "rstep be p r = Some r1" "rwf r1" "rdata r1 = rdata r" "datalen r1 = datalen r" using rstep_rwf [OF Cons.prems] by blast
  then show ?case using Cons.IH [of r1] by auto
qed simp

lemma rset_rwf:
  assumes "n \<le> length c" "rset c n pCopy r = Some r'"
  shows "rwf r'"
  using assms by (auto simp: rset_def Let_def rwf_def rdb_def split: if_splits)

lemma CRData_of_str_props:
  assumes "CRData_of_str s = Some r"
  shows "rwf r" "ravail r = take max_datalen s" "streampos r = 0"
  using assms by (auto simp: CRData_of_str_def rset_def Let_def rwf_def ravail_def bslice_def CRData_empty_def min_def)

lemma CRData_of_str_Some: "\<exists>r. CRData_of_str s = Some r"
  by (simp add: CRData_of_str_def rset_def Let_def)

subsection \<open>Properties\<close>

text \<open>C17. A message written field by field on a host of either byte order is the same sequence of bytes; a reader over it, on a host
  of either byte order and whatever follows the message, gets every field back and is left at the first byte after the message.
  The strings are within the reader's limit of 10 MiB and the buffer within its limit of 100 MiB.\<close>
theorem message_roundtrip:
  assumes "list_all field_ok fs" "length (concat (map field_bytes fs)) + length rest \<le> max_datalen"
  shows "add_list (add_field be1) fs \<lparr>wdata = []\<rparr> = Some \<lparr>wdata = concat (map field_bytes fs)\<rparr> \<and>
    (\<exists>r r'. CRData_of_str (concat (map field_bytes fs) @ rest) = Some r \<and>
       get_list (get_field be2) (map field_kind fs) r = Some (Some fs, r') \<and> ravail r' = rest \<and>
       streampos r' = length (concat (map field_bytes fs)))"
proof -
  let ?m = "concat (map field_bytes fs)"
  obtain r where r: "CRData_of_str (?m @ rest) = Some r" using CRData_of_str_Some by blast
  note p = CRData_of_str_props [OF r] 
  have w: "rwf r" "ravail r = ?m @ rest" "streampos r = 0" using p assms(2) by auto
  have le: "length ?m \<le> length (ravail r)" using w by simp
  show ?thesis
    using msg.add_list_enc [OF assms(1)] r msg.get_list_enc [OF w(1) assms(1) w(2)] radvance_props [OF w(1) le] w
    by (auto simp: wappend_def simp del: length_concat)
qed

theorem message_roundtrip_witness:
  "(let fs = [FInt 0xfffffffe, FString [104, 105], FVarInt 300, FUShort 513] in
    list_all field_ok fs \<and> length (concat (map field_bytes fs)) + length [7 :: byte] \<le> max_datalen \<and>
    (\<exists>r r'. CRData_of_str (concat (map field_bytes fs) @ [7]) = Some r \<and>
       get_list (get_field True) (map field_kind fs) r = Some (Some fs, r') \<and> ravail r' = [7]))"
proof -
  let ?fs = "[FInt 0xfffffffe, FString [104, 105], FVarInt 300, FUShort 513]"
  have ok: "list_all field_ok ?fs" "length (concat (map field_bytes ?fs)) + length [7 :: byte] \<le> max_datalen"
    using varint_enc(4) [of 300] by (simp_all add: max_strlen_def max_datalen_def)
  show ?thesis using message_roundtrip [OF ok, of False True] ok unfolding Let_def by blast
qed

text \<open>C25. A message that was cut short is refused: reading the fields of a message from a proper prefix of it ends with a getter that
  returns false, without a read past the end of the buffer.\<close>
theorem message_truncated:
  assumes "list_all field_ok fs" "n < length (concat (map field_bytes fs))"
  shows "\<exists>r r'. CRData_of_str (take n (concat (map field_bytes fs))) = Some r \<and>
    get_list (get_field be) (map field_kind fs) r = Some (None, r') \<and> streampos r' \<le> datalen r'"
proof -
  let ?m = "concat (map field_bytes fs)"
  obtain r where r: "CRData_of_str (take n ?m) = Some r" using CRData_of_str_Some by blast
  note p = CRData_of_str_props [OF r]
  have "min max_datalen n < length ?m" using assms(2) by linarith
  then obtain r' where g: "get_list (get_field be) (map field_kind fs) r = Some (None, r')"
    using msg.get_list_short [OF p(1) assms(1), of "min max_datalen n" be] p(2) by auto
  have "streampos r' \<le> datalen r'" by (rule getter.get_rwf(5) [OF getter_get_list [OF getter_get_field] p(1) g])
  then show ?thesis using r g by blast
qed

theorem message_truncated_witness:
  "list_all field_ok [FString [104, 105], FUShort 513] \<and>
   (\<exists>r r'. CRData_of_str [2, 0, 0, 0, 104] = Some r \<and> get_list (get_field False) [KString, KUShort] r = Some (None, r'))"
proof -
  have ok: "list_all field_ok [FString [104, 105], FUShort 513]" "5 < length (concat (map field_bytes [FString [104, 105], FUShort 513]))"
    by (simp_all add: max_strlen_def)
  have e: "take 5 (concat (map field_bytes [FString [104, 105], FUShort 513])) = [2, 0, 0, 0, 104]" by (simp add: enc_le_numeral)
  show ?thesis using message_truncated [OF ok, of False] ok(1) unfolding e by (simp only: list.map field_kind.simps) blast
qed

text \<open>C24. No sequence of getters, \<open>setStreampos\<close> and \<open>incrementPtr\<close> calls reads outside the buffer a reader was given, whatever the
  buffer holds, and the stream position stays within the data.\<close>
theorem reader_safe:
  assumes "n \<le> length c" "rset c n pCopy r0 = Some r"
  shows "\<exists>r'. rsteps be ps r = Some r' \<and> rdata r' = rdata r \<and> datalen r' = min max_datalen n \<and> streampos r' \<le> datalen r'"
proof -
  have "datalen r = min max_datalen n" using assms(2) by (auto simp: rset_def Let_def split: if_splits bind_splits)
  then show ?thesis using rsteps_rwf [OF rset_rwf [OF assms], of be ps] unfolding rwf_def by auto
qed

theorem reader_safe_witness:
  "\<exists>r'. rsteps False [RGet KString, RIncrementPtr 9, RGet KVarInt, RSetStreampos 2, RGet KString2]
      \<lparr>rdata = Some [255, 255, 255], streampos = 0, datalen = 3, rcopy = False\<rparr> = Some r' \<and> streampos r' \<le> 3"
  using reader_safe [of 3 "[255, 255, 255]" False "CRData_empty False" "\<lparr>rdata = Some [255, 255, 255], streampos = 0, datalen = 3, rcopy = False\<rparr>"
      False "[RGet KString, RIncrementPtr 9, RGet KVarInt, RSetStreampos 2, RGet KString2]"]
  by (auto simp: rset_def Let_def CRData_empty_def max_datalen_def)

text \<open>C26. A 64-bit integer takes one to nine bytes, as many as \<open>sqlite3VarintLen\<close> announces, so the assertion in
  \<open>addVarInt\<close> holds; the decoder returns that length and the value, given at least these bytes, and 0 on every shorter prefix.\<close>
theorem varint_codec_correct:
  "\<exists>bs. sqlite3PutVarint v = Some bs \<and> sqlite3VarintLen v = Some (length bs) \<and> addVarInt v w = Some (wappend bs w) \<and>
     length bs \<in> {1..9} \<and> sqlite3GetVarint (bs @ rest) (length bs + k) = Some (length bs, v) \<and>
     list_all (\<lambda>m. sqlite3GetVarint bs m = Some (0, 0)) [0..<length bs]"
  using varint_enc [of v] varint_enc_cont [of _ v]
  by (intro exI [of _ "varint_enc v"]) (auto simp: addVarInt_def list_all_iff intro!: sqlite3GetVarint_cont)

end
