(* ===== verification/String_Escape.thy ===== *)
theory String_Escape
  imports Prelude "HOL-Library.Sublist"
begin

text \<open>
  The escaping functions of \<^verbatim>\<open>src/urbackupcommon/escape.cpp\<close> and \<^verbatim>\<open>src/stringtools.cpp\<close>. A \<open>std::string\<close> is a \<open>string\<close>, a list of
  8-bit characters. Loops that change the string they run over keep the string and the index as the code does; loops
  that only look ahead recurse on the rest of the string.
\<close>

subsection \<open>The contract of an escaping\<close>

locale escaping =
  fixes esc unesc :: "string \<Rightarrow> string"
  assumes unesc_esc: "unesc (esc s) = s"
begin

lemma esc_inj: "esc s = esc t \<longleftrightarrow> s = t"
  using unesc_esc by metis

lemma unesc_surj: "\<exists>t. unesc t = s"
  using unesc_esc by blast

end

subsection \<open>In-place loops\<close>

definition str_insert :: "nat \<Rightarrow> 'a list \<Rightarrow> 'a list \<Rightarrow> 'a list" where
  "str_insert i ins s = take i s @ ins @ drop i s"

definition str_erase :: "nat \<Rightarrow> nat \<Rightarrow> 'a list \<Rightarrow> 'a list" where
  "str_erase i n s = take i s @ drop (i + n) s"

subsection \<open>Messages to and from the client (\<open>escape.cpp\<close>)\<close>

function unescapeMessage_loop :: "string \<Rightarrow> nat \<Rightarrow> string" where
  "unescapeMessage_loop msg i =
     (if i < length msg then
        if msg ! i = CHR ''$'' \<and> i + 1 < length msg then
          if msg ! (i + 1) = CHR ''$'' then unescapeMessage_loop (str_erase (i + 1) 1 msg) (i + 1)
          else if msg ! (i + 1) = CHR ''r'' then unescapeMessage_loop (str_erase (i + 1) 1 (msg[i := CHR ''#''])) (i + 1)
          else unescapeMessage_loop msg (i + 1)
        else unescapeMessage_loop msg (i + 1)
      else msg)"
  by pat_completeness auto
termination
  by (relation "measure (\<lambda>(msg, i). length msg - i)") (auto simp: str_erase_def)

definition unescapeMessage :: "string \<Rightarrow> string" where
  "unescapeMessage msg = unescapeMessage_loop msg 0"

function escapeClientMessage_loop :: "string \<Rightarrow> nat \<Rightarrow> string" where
  "escapeClientMessage_loop msg i =
     (if i < length msg then
        if msg ! i = CHR ''#'' then escapeClientMessage_loop (str_insert (i + 1) ''r'' (msg[i := CHR ''$''])) (i + 1)
        else if msg ! i = CHR ''$'' then escapeClientMessage_loop (str_insert (i + 1) ''$'' msg) (i + 2)
        else escapeClientMessage_loop msg (i + 1)
      else msg)"
  by pat_completeness auto
termination
proof (relation "measure (\<lambda>(msg, i). sum_list (map (\<lambda>c. if c = CHR ''#'' then 2 else 1) (drop i msg)))", goal_cases)
  case (2 msg i)
  then have "drop i msg = CHR ''#'' # drop (Suc i) msg" by (simp add: Cons_nth_drop_Suc [symmetric])
  then show ?case using 2 by (simp add: str_insert_def)
next
  case (3 msg i)
  then have "drop i msg = CHR ''$'' # drop (Suc i) msg" by (simp add: Cons_nth_drop_Suc [symmetric])
  then show ?case using 3 by (simp add: str_insert_def)
next
  case (4 msg i)
  then have "drop i msg = msg ! i # drop (Suc i) msg" by (simp add: Cons_nth_drop_Suc [symmetric])
  then show ?case using 4 by simp
qed simp

declare unescapeMessage_loop.simps [simp del] escapeClientMessage_loop.simps [simp del]

definition escapeClientMessage :: "string \<Rightarrow> string" where
  "escapeClientMessage msg = escapeClientMessage_loop msg 0"

lemma nth_mid [simp]: "(a @ c # b) ! length a = c" "(a @ c # d # b) ! Suc (length a) = d"
  by (simp_all add: nth_append)

lemma str_ops_mid [simp]:
  "str_erase (Suc (length a)) (Suc 0) (a @ c # d # b) = a @ c # b"
  "str_insert (Suc (length a)) ins (a @ c # b) = a @ c # ins @ b"
  "(a @ c # b)[length a := e] = a @ e # b"
  by (simp_all add: str_erase_def str_insert_def)

text \<open>What the escaping computes.\<close>

definition esc_char :: "char \<Rightarrow> string" where
  "esc_char c = (if c = CHR ''#'' then ''$r'' else if c = CHR ''$'' then ''$$'' else [c])"

lemma escapeClientMessage_loop_eq:
  "escapeClientMessage_loop (a @ b) (length a) = a @ concat (map esc_char b)"
proof (induction b arbitrary: a)
  case Nil
  then show ?case by (subst escapeClientMessage_loop.simps) simp
next
  case (Cons c t)
  have r: "escapeClientMessage_loop (a @ CHR ''$'' # CHR ''r'' # t) (Suc (length a)) = a @ CHR ''$'' # CHR ''r'' # concat (map esc_char t)"
    using Cons [of "a @ ''$r''"] by (subst escapeClientMessage_loop.simps) simp
  show ?case
    using Cons [of "a @ [c]"] Cons [of "a @ [c, CHR ''$'']"] r
    by (subst escapeClientMessage_loop.simps) (auto simp: esc_char_def [of c])
qed

lemma unescapeMessage_loop_esc:
  "unescapeMessage_loop (a @ concat (map esc_char b)) (length a) = a @ b"
proof (induction b arbitrary: a)
  case Nil
  then show ?case by (subst unescapeMessage_loop.simps) simp
next
  case (Cons c b)
  have step: "unescapeMessage_loop (a @ c # concat (map esc_char b)) (Suc (length a)) = a @ c # b" using Cons [of "a @ [c]"] by simp
  obtain t where t: "t = concat (map esc_char b)" by blast
  show ?case using step unfolding concat.simps list.map t [symmetric] by (subst unescapeMessage_loop.simps) (auto simp: esc_char_def)
qed

interpretation client_msg: escaping escapeClientMessage unescapeMessage
  using unescapeMessage_loop_esc [of "[]"] escapeClientMessage_loop_eq [of "[]"]
  by unfold_locales (simp add: escapeClientMessage_def unescapeMessage_def)

subsection \<open>SQL strings\<close>

definition EscapeSQLString :: "string \<Rightarrow> string" where
  "EscapeSQLString pStr = concat (map (\<lambda>c. if c = CHR 0x27 then [CHR 0x27, CHR 0x27] else [c]) pStr)"

fun UnescapeSQLString :: "string \<Rightarrow> string" where
  "UnescapeSQLString (c # d # s) =
     (if c = CHR 0x27 \<and> d = CHR 0x27 then CHR 0x27 # UnescapeSQLString s else c # UnescapeSQLString (d # s))"
| "UnescapeSQLString s = s"

lemma UnescapeSQLString_Cons: "c \<noteq> CHR 0x27 \<Longrightarrow> UnescapeSQLString (c # s) = c # UnescapeSQLString s"
  by (cases s) auto

interpretation sql: escaping EscapeSQLString UnescapeSQLString
proof
  show "UnescapeSQLString (EscapeSQLString s) = s" for s
    by (induction s) (auto simp: EscapeSQLString_def UnescapeSQLString_Cons)
qed

text \<open>An escaped string never ends an SQL literal: after the two-character quotes are read off, no quote is left.\<close>

fun no_lone_quote :: "string \<Rightarrow> bool" where
  "no_lone_quote [] = True"
| "no_lone_quote (c # s) = (if c = CHR 0x27 then (case s of [] \<Rightarrow> False | d # s \<Rightarrow> d = CHR 0x27 \<and> no_lone_quote s) else no_lone_quote s)"

lemma no_lone_quote_escape: "no_lone_quote (EscapeSQLString s)"
  by (induction s) (auto simp: EscapeSQLString_def)

subsection \<open>Hexadecimal\<close>

definition hexnum_array :: string where
  "hexnum_array = ''0123456789abcdef''"

definition tolower :: "char \<Rightarrow> char" where
  "tolower c = (if 65 \<le> (of_char c :: nat) \<and> (of_char c :: nat) \<le> 90 then char_of ((of_char c :: nat) + 32) else c)"

text \<open>A string with a byte above 127 goes through \<open>strlower_utf8\<close>, which depends on the platform's \<open>towlower\<close>: a parameter.\<close>

definition strlower :: "(string \<Rightarrow> string) \<Rightarrow> string \<Rightarrow> string" where
  "strlower lower_utf8 str = (if list_ex (\<lambda>c. 128 \<le> (of_char c :: nat)) str then lower_utf8 str else map tolower str)"

definition hexToULong :: "(string \<Rightarrow> string) \<Rightarrow> string \<Rightarrow> u64" where
  "hexToULong lower_utf8 data =
     fold (\<lambda>c v. fold (\<lambda>j v. if c = hexnum_array ! j then v * 16 + of_nat j else v) [0..<16] v) (strlower lower_utf8 data) 0"

definition IsHex :: "string \<Rightarrow> bool" where
  "IsHex str = list_all (\<lambda>c. list_ex (\<lambda>t. hexnum_array ! t = c) [0..<16]) str"

definition byteToHex :: "char \<Rightarrow> string" where
  "byteToHex ch = [hexnum_array ! ((of_char ch :: nat) div 16), hexnum_array ! ((of_char ch :: nat) mod 16)]"

definition bytesToHex :: "string \<Rightarrow> string" where
  "bytesToHex b = concat (map byteToHex b)"

text \<open>\<open>ret[i/2] = ...\<close> for \<open>i = 0, 2, ...\<close>; \<open>None\<close> is a write past the end of \<open>ret\<close>.\<close>

function hexToBytes_loop :: "(string \<Rightarrow> string) \<Rightarrow> string \<Rightarrow> nat \<Rightarrow> string \<Rightarrow> string option" where
  "hexToBytes_loop lower_utf8 data i ret =
     (if i < length data then
        do { ret \<leftarrow> wr ret (i div 2) (char_of (unat (hexToULong lower_utf8 (take 2 (drop i data)))));
             hexToBytes_loop lower_utf8 data (i + 2) ret }
      else Some ret)"
  by pat_completeness auto
termination
  by (relation "measure (\<lambda>(l, data, i, ret). length data - i)") auto

declare hexToBytes_loop.simps [simp del]

definition hexToBytes :: "(string \<Rightarrow> string) \<Rightarrow> string \<Rightarrow> string option" where
  "hexToBytes lower_utf8 data = hexToBytes_loop lower_utf8 data 0 (replicate (length data div 2) (CHR 0x00))"

lemma distinct_hexnum: "distinct hexnum_array" "length hexnum_array = 16"
  by (simp_all add: hexnum_array_def)

lemma fold_pick: "n < m \<Longrightarrow> fold (\<lambda>j v. if n = j then f v j else v) [0..<m] v = f v n"
proof -
  have skip: "m \<le> n \<Longrightarrow> fold (\<lambda>j v. if n = j then f v j else v) [0..<m] v = v" for m by (induction m) auto
  show "n < m \<Longrightarrow> ?thesis" by (induction m) (auto simp: less_Suc_eq skip)
qed

lemma hex_chars: "list_all (\<lambda>c. tolower c = c \<and> (of_char c :: nat) < 128) hexnum_array"
  by (simp add: hexnum_array_def tolower_def)

lemma hex_digit:
  assumes "n < 16"
  shows "tolower (hexnum_array ! n) = hexnum_array ! n" "\<not> 128 \<le> (of_char (hexnum_array ! n) :: nat)"
    "fold (\<lambda>j v. if hexnum_array ! n = hexnum_array ! j then v * 16 + of_nat j else v) [0..<16] v = v * 16 + (of_nat n :: u64)"
proof -
  show "tolower (hexnum_array ! n) = hexnum_array ! n" "\<not> 128 \<le> (of_char (hexnum_array ! n) :: nat)"
    using hex_chars assms distinct_hexnum(2) by (auto simp: list_all_length)
  have "fold (\<lambda>j v. if hexnum_array ! n = hexnum_array ! j then v * 16 + of_nat j else v) [0..<16] v =
      fold (\<lambda>j v. if n = j then v * 16 + (of_nat j :: u64) else v) [0..<16] v"
    using nth_eq_iff_index_eq [OF distinct_hexnum(1)] assms distinct_hexnum(2) by (intro fold_cong) auto
  then show "fold (\<lambda>j v. if hexnum_array ! n = hexnum_array ! j then v * 16 + of_nat j else v) [0..<16] v = v * 16 + (of_nat n :: u64)"
    using fold_pick [OF assms, of "\<lambda>v j. v * 16 + of_nat j" v] by simp
qed

lemma hexToULong_2:
  assumes "m < 16" "n < 16"
  shows "hexToULong l [hexnum_array ! m, hexnum_array ! n] = of_nat (16 * m + n)"
proof -
  have "strlower l [hexnum_array ! m, hexnum_array ! n] = [hexnum_array ! m, hexnum_array ! n]"
    using hex_digit(1,2) assms by (simp add: strlower_def)
  then show ?thesis using hex_digit(3) assms by (simp add: hexToULong_def)
qed

lemma of_char_less: "(of_char c :: nat) < 256"
  by simp

lemma hexToULong_byteToHex: "char_of (unat (hexToULong l (byteToHex c))) = c"
proof -
  let ?n = "of_char c :: nat"
  have n: "?n div 16 < 16" "?n mod 16 < 16" using of_char_less [of c] by linarith+
  have "hexToULong l (byteToHex c) = of_nat (16 * (?n div 16) + ?n mod 16)"
    unfolding byteToHex_def by (rule hexToULong_2 [OF n])
  then have "unat (hexToULong l (byteToHex c)) = ?n mod 2 ^ 64" by (simp add: unat_of_nat)
  then have "unat (hexToULong l (byteToHex c)) = ?n" using less_trans [OF of_char_less [of c], of "2 ^ 64"] by (simp only: mod_less) simp
  then show ?thesis by simp
qed

lemma hexToBytes_loop_eq:
  "hexToBytes_loop l (bytesToHex (a @ b)) (2 * length a) (a @ replicate (length b) (CHR 0x00)) = Some (a @ b)"
proof (induction b arbitrary: a)
  case Nil
  have "length (bytesToHex a) = 2 * length a" by (induction a) (auto simp: bytesToHex_def byteToHex_def)
  then show ?case by (subst hexToBytes_loop.simps) simp
next
  case (Cons c b)
  have len: "length (bytesToHex x) = 2 * length x" for x by (induction x) (auto simp: bytesToHex_def byteToHex_def)
  have "bytesToHex (a @ c # b) = bytesToHex a @ byteToHex c @ bytesToHex b" by (simp add: bytesToHex_def)
  then have "take 2 (drop (2 * length a) (bytesToHex (a @ c # b))) = byteToHex c" using len [of a] by (simp add: byteToHex_def)
  then show ?case using Cons [of "a @ [c]"] len [of "a @ c # b"]
    by (subst hexToBytes_loop.simps) (simp add: wr_def hexToULong_byteToHex)
qed

lemma hexToBytes_bytesToHex: "hexToBytes l (bytesToHex s) = Some s"
proof -
  have "length (bytesToHex s) = 2 * length s" by (induction s) (auto simp: bytesToHex_def byteToHex_def)
  then show ?thesis using hexToBytes_loop_eq [of l "[]" s] by (simp add: hexToBytes_def)
qed

interpretation hex: escaping bytesToHex "the \<circ> hexToBytes l"
  by unfold_locales (simp add: hexToBytes_bytesToHex)

text \<open>On a string of odd length the last step writes one past the end of the result.\<close>

lemma hexToBytes_loop_odd:
  "odd (length data) \<Longrightarrow> even i \<Longrightarrow> i \<le> length data \<Longrightarrow> length ret = length data div 2 \<Longrightarrow> hexToBytes_loop l data i ret = None"
proof (induction l data i ret rule: hexToBytes_loop.induct)
  case (1 l data i ret)
  have i: "i < length data" using 1(2-4) by (metis le_neq_implies_less)
  show ?case
  proof (cases "i + 1 = length data")
    case True
    then have "i div 2 = length ret" using 1(3,5) by presburger
    then show ?thesis using i by (subst hexToBytes_loop.simps) (simp add: wr_def)
  next
    case False
    then have "i div 2 < length ret" "i + 2 \<le> length data" using i 1(2,3,5) by presburger+
    then show ?thesis using 1(1) [OF i] 1(2-5) i by (subst hexToBytes_loop.simps) (simp add: wr_def)
  qed
qed

subsection \<open>URL parameters\<close>

definition EscapeParamString :: "string \<Rightarrow> string" where
  "EscapeParamString pStr =
     concat (map (\<lambda>c.
       if c = CHR ''%'' then ''%25''
       else if c = CHR ''&'' then ''%26''
       else if c = CHR ''$'' then ''%24''
       else if c = CHR ''/'' then ''%2F''
       else if c = CHR '' '' then ''%20''
       else if c = CHR ''#'' then ''%23''
       else if c = CHR ''+'' then ''%2B''
       else if c = CHR 0x0A then ''%0A''
       else if c = CHR 0x0D then ''%0D''
       else [c]) pStr)"

definition EscapePathParamString :: "string \<Rightarrow> string" where
  "EscapePathParamString pStr =
     concat (map (\<lambda>c.
       if c = CHR ''%'' then ''%25''
       else if c = CHR ''/'' then ''%2F''
       else if c = CHR ''|'' then ''%7C''
       else if c = CHR '';'' then ''%3B''
       else [c]) pStr)"

fun UnescapeParamString :: "(string \<Rightarrow> string) \<Rightarrow> string \<Rightarrow> string" where
  "UnescapeParamString l (c # a # b # s) =
     (if c = CHR ''%'' then
        (let ch = char_of (unat (hexToULong l [a, b])) in (if ch \<noteq> CHR 0x00 then [ch] else []) @ UnescapeParamString l s)
      else c # UnescapeParamString l (a # b # s))"
| "UnescapeParamString l (c # s) = c # UnescapeParamString l s"
| "UnescapeParamString l [] = []"

text \<open>\<open>convert\<close> on a number below 256, and \<open>htmldecode\<close> with its three parameters.\<close>

fun digits :: "nat \<Rightarrow> string" where
  "digits n = (if n < 10 then [char_of (48 + n)] else digits (n div 10) @ [char_of (48 + n mod 10)])"

declare digits.simps [simp del]

fun htmldecode :: "(string \<Rightarrow> string) \<Rightarrow> bool \<Rightarrow> char \<Rightarrow> string \<Rightarrow> string" where
  "htmldecode l html xc [] = []"
| "htmldecode l html xc (c # s) =
     (if c = xc \<and> 2 \<le> length s then
        (let ch = char_of (unat (hexToULong l (take 2 s))) in
         (if html \<and> ch \<noteq> CHR 0x00
          then (if ch \<noteq> CHR ''-'' \<and> ch \<noteq> CHR '','' \<and> ch \<noteq> CHR ''#'' then ''&#'' @ digits (of_char ch) @ '';'' else [ch])
          else if ch \<noteq> CHR 0x00 then [ch] else []) @ htmldecode l html xc (drop 2 s))
      else if c = CHR ''+'' \<and> \<not> html then CHR '' '' # htmldecode l html xc s
      else c # htmldecode l html xc s)"

lemma tolower_upper: "tolower CHR ''A'' = CHR ''a''" "tolower CHR ''B'' = CHR ''b''" "tolower CHR ''C'' = CHR ''c''" "tolower CHR ''D'' = CHR ''d''"
  "tolower CHR ''F'' = CHR ''f''"
  by (simp_all add: tolower_def char_of_eq_iff)

lemma hex_value: "list_all (\<lambda>(s, c). char_of (unat (hexToULong l s)) = c)
  [(''25'', CHR ''%''), (''26'', CHR ''&''), (''24'', CHR ''$''), (''2F'', CHR ''/''), (''20'', CHR '' ''), (''23'', CHR ''#''), (''2B'', CHR ''+''),
   (''0A'', CHR 0x0a), (''0D'', CHR 0x0d), (''7C'', CHR ''|''), (''3B'', CHR '';'')]"
proof -
  have "hexToULong l s = hexToULong l [hexnum_array ! m, hexnum_array ! n]" if "map tolower s = [hexnum_array ! m, hexnum_array ! n]" 
    "list_all (\<lambda>c. (of_char c :: nat) < 128) s" "m < 16" "n < 16" for s m n
    using that hex_digit by (auto simp: hexToULong_def strlower_def list_all_iff list_ex_iff)
  then have h: "hexToULong l s = of_nat (16 * m + n)" if "map tolower s = [hexnum_array ! m, hexnum_array ! n]" 
    "list_all (\<lambda>c. (of_char c :: nat) < 128) s" "m < 16" "n < 16" for s m n
    using that hexToULong_2 [of m n l] by simp
  show ?thesis
    using h [of "''25''" 2 5] h [of "''26''" 2 6] h [of "''24''" 2 4] h [of "''2F''" 2 15] h [of "''20''" 2 0] h [of "''23''" 2 3]
      h [of "''2B''" 2 11] h [of "''0A''" 0 10] h [of "''0D''" 0 13] h [of "''7C''" 7 12] h [of "''3B''" 3 11]
    by (simp add: tolower_upper hexnum_array_def) (simp add: tolower_def char_of_eq_iff)
qed

lemma UnescapeParamString_Cons: "c \<noteq> CHR ''%'' \<Longrightarrow> UnescapeParamString l (c # s) = c # UnescapeParamString l s"
  by (cases s; cases "tl s") auto

text \<open>One escaped character at the front.\<close>

lemma htmldecode_param: "htmldecode l False (CHR ''%'') (EscapeParamString [c] @ s) = c # htmldecode l False (CHR ''%'') s"
  using hex_value [of l] by (simp add: EscapeParamString_def Let_def)

lemma UnescapeParam_path: "UnescapeParamString l (EscapePathParamString [c] @ s) = c # UnescapeParamString l s"
  using hex_value [of l] by (simp add: EscapePathParamString_def UnescapeParamString_Cons Let_def)

lemma UnescapeParam_param: "UnescapeParamString l (EscapeParamString [c] @ s) = c # UnescapeParamString l s"
  using hex_value [of l] by (simp add: EscapeParamString_def UnescapeParamString_Cons Let_def)

lemma Escape_Cons: "EscapeParamString (c # s) = EscapeParamString [c] @ EscapeParamString s"
  "EscapePathParamString (c # s) = EscapePathParamString [c] @ EscapePathParamString s"
  by (simp_all add: EscapeParamString_def EscapePathParamString_def)

lemma Escape_Nil [simp]: "EscapeParamString [] = []" "EscapePathParamString [] = []"
  by (simp_all add: EscapeParamString_def EscapePathParamString_def)

interpretation http_param: escaping EscapeParamString "htmldecode l False (CHR ''%'')"
proof
  show "htmldecode l False (CHR ''%'') (EscapeParamString s) = s" for s
    by (induction s) (simp, subst Escape_Cons, simp only: htmldecode_param)
qed

interpretation param: escaping EscapeParamString "UnescapeParamString l"
proof
  show "UnescapeParamString l (EscapeParamString s) = s" for s
    by (induction s) (simp, subst Escape_Cons, simp only: UnescapeParam_param)
qed

interpretation path_param: escaping EscapePathParamString "UnescapeParamString l"
proof
  show "UnescapeParamString l (EscapePathParamString s) = s" for s
    by (induction s) (simp, subst Escape_Cons, simp only: UnescapeParam_path)
qed

text \<open>The characters that end a value or start another parameter never occur in an escaped one.\<close>

lemma EscapeParamString_safe: "set (EscapeParamString s) \<inter> {CHR ''&'', CHR ''$'', CHR ''#'', CHR 0x0A, CHR 0x0D, CHR '' '', CHR ''+'', CHR ''/''} = {}"
proof (induction s)
  case (Cons c s)
  have "set (EscapeParamString [c]) \<inter> {CHR ''&'', CHR ''$'', CHR ''#'', CHR 0x0A, CHR 0x0D, CHR '' '', CHR ''+'', CHR ''/''} = {}"
    by (simp add: EscapeParamString_def)
  then show ?case using Cons by (subst Escape_Cons(1)) (simp only: set_append Int_Un_distrib2 Un_empty)
qed simp

subsection \<open>Parameter lists\<close>

text \<open>The loop of \<open>ParseParamStrHttp\<close>: \<open>pos\<close> tells whether the value is being read; \<open>pMap\<close> is the map, into which \<open>insert\<close> puts a key
  only once.\<close>

definition map_insert :: "'k \<Rightarrow> 'v \<Rightarrow> ('k \<rightharpoonup> 'v) \<Rightarrow> ('k \<rightharpoonup> 'v)" where
  "map_insert k v m = (if m k = None then m(k \<mapsto> v) else m)"

definition param_value :: "(string \<Rightarrow> string) \<Rightarrow> bool \<Rightarrow> string \<Rightarrow> string" where
  "param_value l escape_params value = (let wv = htmldecode l False (CHR ''%'') value in if escape_params then EscapeSQLString wv else wv)"

fun ParseParam_loop :: "(string \<Rightarrow> string) \<Rightarrow> bool \<Rightarrow> string \<Rightarrow> bool \<Rightarrow> string \<Rightarrow> string \<Rightarrow> (string \<rightharpoonup> string) \<Rightarrow> (string \<rightharpoonup> string)" where
  "ParseParam_loop l escape_params [] pos key value pMap =
     (if value \<noteq> [] \<or> key \<noteq> [] then map_insert key (param_value l escape_params value) pMap else pMap)"
| "ParseParam_loop l escape_params (ch # s) pos key value pMap =
     (if ch = CHR ''='' \<and> \<not> pos then ParseParam_loop l escape_params s True key value pMap
      else if (ch = CHR ''&'' \<or> ch = CHR ''$'') \<and> pos
      then ParseParam_loop l escape_params s False [] [] (map_insert key (param_value l escape_params value) pMap)
      else if \<not> pos then ParseParam_loop l escape_params s pos (key @ [ch]) value pMap
      else ParseParam_loop l escape_params s pos key (value @ [ch]) pMap)"

definition ParseParamStrHttp :: "(string \<Rightarrow> string) \<Rightarrow> string \<Rightarrow> (string \<rightharpoonup> string) \<Rightarrow> bool \<Rightarrow> (string \<rightharpoonup> string)" where
  "ParseParamStrHttp l pStr pMap escape_params = ParseParam_loop l escape_params pStr False [] [] pMap"

text \<open>The inverse: a list of parameters as the callers write it.\<close>

fun param_str :: "(string \<times> string) list \<Rightarrow> string" where
  "param_str [] = []"
| "param_str [(k, v)] = k @ ''='' @ EscapeParamString v"
| "param_str ((k, v) # kv # kvs) = k @ ''='' @ EscapeParamString v @ ''&'' @ param_str (kv # kvs)"

lemma ParseParam_key:
  "CHR ''='' \<notin> set k \<Longrightarrow> ParseParam_loop l e (k @ s) False key val m = ParseParam_loop l e s False (key @ k) val m"
  by (induction k arbitrary: key) auto

lemma ParseParam_value:
  "set v \<inter> {CHR ''&'', CHR ''$''} = {} \<Longrightarrow> ParseParam_loop l e (v @ s) True key val m = ParseParam_loop l e s True key (val @ v) m"
  by (induction v arbitrary: val) auto

lemma param_value_esc: "param_value l False (EscapeParamString v) = v"
  by (simp add: param_value_def http_param.unesc_esc)

lemma ParseParam_field:
  assumes "CHR ''='' \<notin> set k"
  shows "ParseParam_loop l False (k @ CHR ''='' # EscapeParamString v @ s) False [] [] m =
    ParseParam_loop l False s True k (EscapeParamString v) m"
  using ParseParam_key [OF assms] ParseParam_value [of "EscapeParamString v"] EscapeParamString_safe [of v] by auto

lemma map_insert_add: "map_insert k v m = [k \<mapsto> v] ++ m"
  by (rule ext) (auto simp: map_insert_def map_add_def split: option.splits)

lemma ParseParam_param_str:
  "list_all (\<lambda>(k, v). k \<noteq> [] \<and> CHR ''='' \<notin> set k) kvs \<Longrightarrow>
   ParseParam_loop l False (param_str kvs) False [] [] m = map_of kvs ++ m"
proof (induction kvs arbitrary: m rule: param_str.induct)
  case (2 k v)
  then show ?case using ParseParam_field [of k l v "[]" m] by (simp add: param_value_esc map_insert_add flip: fun_upd_def)
next
  case (3 k v kv kvs)
  have "map_of (kv # kvs) ++ ([k \<mapsto> v] ++ m) = map_of ((k, v) # kv # kvs) ++ m"
    by (rule ext) (auto simp: map_add_def split: option.splits)
  then show ?case using 3 by (simp add: ParseParam_field param_value_esc map_insert_add del: map_of.simps)
qed simp

subsection \<open>HTML\<close>

definition EscapeHTML :: "string \<Rightarrow> string" where
  "EscapeHTML html =
     concat (map (\<lambda>c.
       if c = CHR ''<'' then ''&lt;''
       else if c = CHR ''>'' then ''&gt;''
       else if c = CHR ''&'' then ''&amp;''
       else if c = CHR 0x22 then ''&quot;''
       else if c = CHR 0x27 then ''&#x27;''
       else if c = CHR ''/'' then ''&#x2F;''
       else [c]) html)"

definition next_str :: "string \<Rightarrow> nat \<Rightarrow> string \<Rightarrow> bool" where
  "next_str pData doff pStr = list_all (\<lambda>i. i + doff < length pData \<and> pData ! (doff + i) = pStr ! i) [0..<length pStr]"

text \<open>\<open>greplace\<close> changes \<open>data\<close> in place; \<open>i += tin.size()-1\<close> and the following \<open>++i\<close> are in \<open>size_t\<close>. It need not end (for an empty
  \<open>tor\<close> it does not), so it is a partial function.\<close>

partial_function (option) greplace_loop :: "string \<Rightarrow> string \<Rightarrow> string \<Rightarrow> nat \<Rightarrow> string option" where
  "greplace_loop tor tin data i =
     (if i < length data then
        if next_str data i tor
        then greplace_loop tor tin (str_insert i tin (str_erase i (length tor) data)) (((i + (length tin + 2 ^ 64 - 1)) mod 2 ^ 64 + 1) mod 2 ^ 64)
        else greplace_loop tor tin data ((i + 1) mod 2 ^ 64)
      else Some data)"

definition greplace :: "string \<Rightarrow> string \<Rightarrow> string \<Rightarrow> string option" where
  "greplace tor tin data = greplace_loop tor tin data 0"

definition UnescapeHTML :: "string \<Rightarrow> string option" where
  "UnescapeHTML html =
     do { ret \<leftarrow> greplace ''&amp;'' ''&'' html;
          ret \<leftarrow> greplace ''&lt;'' ''<'' ret;
          ret \<leftarrow> greplace ''&gt;'' ''>'' ret;
          ret \<leftarrow> greplace ''&quot;'' [CHR 0x22] ret;
          ret \<leftarrow> greplace ''&#x27;'' [CHR 0x27] ret;
          ret \<leftarrow> greplace ''&#x2F;'' ''/'' ret;
          Some ret }"

text \<open>The reference: replace from left to right.\<close>

function replace_all :: "string \<Rightarrow> string \<Rightarrow> string \<Rightarrow> string" where
  "replace_all tor tin [] = []"
| "replace_all tor tin (c # s) =
     (if tor \<noteq> [] \<and> prefix tor (c # s) then tin @ replace_all tor tin (drop (length tor) (c # s)) else c # replace_all tor tin s)"
  by pat_completeness auto
termination
  by (relation "measure (\<lambda>(tor, tin, s). length s)") (auto simp: Suc_le_eq)

declare replace_all.simps [simp del]

lemma next_str_prefix: "next_str (a @ b) (length a) t \<longleftrightarrow> prefix t b"
proof -
  have "list_all (\<lambda>i. i < length b \<and> b ! i = t ! i) [0..<length t] \<longleftrightarrow> prefix t b"
    unfolding list_all_iff prefix_def
  proof safe
    assume *: "\<forall>i\<in>set [0..<length t]. i < length b \<and> b ! i = t ! i"
    then have "length t \<le> length b" by (metis add_0 atLeastLessThan_iff atLeastLessThan_upt linorder_not_le zero_le order_refl)
    moreover have "take (length t) b = t" using * calculation by (intro nth_equalityI) auto
    ultimately show "\<exists>zs. b = t @ zs" by (metis append_take_drop_id)
  qed (auto simp: nth_append)
  then show ?thesis by (simp add: next_str_def)
qed

lemma greplace_loop_eq:
  "tor \<noteq> [] \<Longrightarrow> length a + length s * (length tin + 1) < 2 ^ 64 \<Longrightarrow>
   greplace_loop tor tin (a @ s) (length a) = Some (a @ replace_all tor tin s)"
proof (induction s arbitrary: a rule: length_induct)
  case (1 s)
  show ?case
  proof (cases s)
    case Nil
    then show ?thesis by (subst greplace_loop.simps) (simp add: replace_all.simps)
  next
    case (Cons c t)
    show ?thesis
    proof (cases "prefix tor s")
      case True
      then have len: "0 < length tor" "length tor \<le> length s" using 1(2) prefix_length_le [of tor s] by auto
      let ?u = "drop (length tor) s"
      have shorter: "length ?u < length s" unfolding length_drop using len by linarith
      have "length ?u * (length tin + 1) \<le> length t * (length tin + 1)" using len(1) unfolding Cons by (intro mult_le_mono1) (cases tor, auto)
      then have lu: "length (a @ tin) + length ?u * (length tin + 1) < 2 ^ 64" using 1(3) Cons by simp
      have i: "((length a + (length tin + 2 ^ 64 - 1)) mod 2 ^ 64 + 1) mod 2 ^ 64 = length a + length tin"
      proof -
        have "((length a + (length tin + 2 ^ 64 - 1)) mod 2 ^ 64 + 1) mod 2 ^ 64 = (length a + (length tin + 2 ^ 64 - 1) + 1) mod 2 ^ 64"
          by (rule mod_add_left_eq)
        also have "length a + (length tin + 2 ^ 64 - 1) + 1 = length a + length tin + 2 ^ 64" by simp
        also have "\<dots> mod 2 ^ 64 = length a + length tin" using lu by simp
        finally show ?thesis .
      qed
      have "str_insert (length a) tin (str_erase (length a) (length tor) (a @ s)) = (a @ tin) @ ?u"
        by (simp add: str_insert_def str_erase_def)
      moreover have "greplace_loop tor tin ((a @ tin) @ ?u) (length (a @ tin)) = Some ((a @ tin) @ replace_all tor tin ?u)"
        by (rule 1(1) [rule_format, OF shorter 1(2) lu])
      ultimately show ?thesis using True Cons i 1(2) next_str_prefix [of a s tor]
        by (subst greplace_loop.simps) (simp add: replace_all.simps)
    next
      case False
      have "greplace_loop tor tin ((a @ [c]) @ t) (length (a @ [c])) = Some ((a @ [c]) @ replace_all tor tin t)"
        using 1(1) [rule_format, of t "a @ [c]"] 1(2,3) Cons by simp
      then show ?thesis using False Cons 1(3) next_str_prefix [of a s tor]
        by (subst greplace_loop.simps) (simp add: replace_all.simps)
    qed
  qed
qed

lemma greplace_eq: "tor \<noteq> [] \<Longrightarrow> length s * (length tin + 1) < 2 ^ 64 \<Longrightarrow> greplace tor tin s = Some (replace_all tor tin s)"
  using greplace_loop_eq [of tor "[]" s tin] by (simp add: greplace_def)

subsection \<open>Base 64\<close>

definition base64_chars :: string where
  "base64_chars = ''ABCDEFGHIJKLMNOPQRSTUVWXYZabcdefghijklmnopqrstuvwxyz0123456789+/''"

definition isalnum :: "char \<Rightarrow> bool" where
  "isalnum c = (let n = of_char c :: nat in 48 \<le> n \<and> n \<le> 57 \<or> 65 \<le> n \<and> n \<le> 90 \<or> 97 \<le> n \<and> n \<le> 122)"

definition is_base64 :: "char \<Rightarrow> bool" where
  "is_base64 c = (isalnum c \<or> c = CHR ''+'' \<or> c = CHR ''/'')"

unbundle bit_operations_syntax

definition enc3 :: "byte list \<Rightarrow> byte list" where
  "enc3 a =
     [drop_bit 2 (a ! 0 AND 0xfc),
      push_bit 4 (a ! 0 AND 0x03) + drop_bit 4 (a ! 1 AND 0xf0),
      push_bit 2 (a ! 1 AND 0x0f) + drop_bit 6 (a ! 2 AND 0xc0),
      a ! 2 AND 0x3f]"

definition dec4 :: "byte list \<Rightarrow> byte list" where
  "dec4 a =
     [push_bit 2 (a ! 0) + drop_bit 4 (a ! 1 AND 0x30),
      push_bit 4 (a ! 1 AND 0xf) + drop_bit 2 (a ! 2 AND 0x3c),
      push_bit 6 (a ! 2 AND 0x3) + a ! 3]"

definition base64_char :: "byte \<Rightarrow> char" where
  "base64_char x = base64_chars ! unat x"

text \<open>\<open>char_array_3\<close> holds the bytes collected so far; the rest of the input follows.\<close>

fun base64_enc_loop :: "byte list \<Rightarrow> byte list \<Rightarrow> string" where
  "base64_enc_loop [] a =
     (let i = length a in
      if i \<noteq> 0
      then map base64_char (take (i + 1) (enc3 (a @ replicate (3 - i) 0))) @ replicate (3 - i) (CHR ''='')
      else [])"
| "base64_enc_loop (b # bs) a =
     (let a = a @ [b] in
      if length a = 3 then map base64_char (enc3 a) @ base64_enc_loop bs [] else base64_enc_loop bs a)"

definition base64_encode :: "byte list \<Rightarrow> string" where
  "base64_encode bs = base64_enc_loop bs []"

text \<open>\<open>find\<close> truncated to an \<open>unsigned char\<close>: \<open>npos\<close> is 255.\<close>

definition base64_find :: "char \<Rightarrow> byte" where
  "base64_find c = (let i = length (takeWhile (\<lambda>x. x \<noteq> c) base64_chars) in if i < length base64_chars then of_nat i else 255)"

text \<open>\<open>in_len\<close> is a counter of its own; past the end of the string the terminating zero byte is read.\<close>

function base64_dec_loop :: "string \<Rightarrow> u32 \<Rightarrow> string \<Rightarrow> byte list" where
  "base64_dec_loop s in_len a =
     (if in_len \<noteq> 0 \<and> s \<noteq> [] \<and> hd s \<noteq> CHR ''='' \<and> is_base64 (hd s) then
        (let a = a @ [hd s] in
         if length a = 4 then dec4 (map base64_find a) @ base64_dec_loop (tl s) (in_len - 1) []
         else base64_dec_loop (tl s) (in_len - 1) a)
      else
        (let i = length a in
         if i \<noteq> 0 then take (i - 1) (dec4 (map base64_find (a @ replicate (4 - i) (CHR 0x00)))) else []))"
  by pat_completeness auto
termination
  by (relation "measure (\<lambda>(s, n, a). length s)") auto

declare base64_dec_loop.simps [simp del]

definition base64_decode :: "string \<Rightarrow> byte list" where
  "base64_decode s = base64_dec_loop s (of_nat (length s)) []"

definition base64_encode_dash :: "byte list \<Rightarrow> string" where
  "base64_encode_dash bs = map (\<lambda>c. if c = CHR ''='' then CHR ''-'' else c) (base64_encode bs)"

definition base64_decode_dash :: "string \<Rightarrow> byte list" where
  "base64_decode_dash s = base64_decode (map (\<lambda>c. if c = CHR ''-'' then CHR ''='' else if c = CHR '' '' then CHR ''+'' else c) s)"

lemma base64_chars_props: "distinct base64_chars" "length base64_chars = 64" "list_all is_base64 base64_chars" "CHR ''='' \<notin> set base64_chars"
  "CHR ''-'' \<notin> set base64_chars" "CHR '' '' \<notin> set base64_chars"
  by (simp_all add: base64_chars_def is_base64_def isalnum_def)

lemma takeWhile_distinct: "distinct xs \<Longrightarrow> i < length xs \<Longrightarrow> takeWhile (\<lambda>x. x \<noteq> xs ! i) xs = take i xs"
  by (rule takeWhile_eq_take_P_nth) (auto simp: nth_eq_iff_index_eq)

lemma base64_find_char:
  assumes "unat x < 64"
  shows "base64_find (base64_char x) = x" "is_base64 (base64_char x)" "base64_char x \<noteq> CHR ''=''" "base64_char x \<noteq> CHR ''-''"
    "base64_char x \<noteq> CHR '' ''"
proof -
  have "takeWhile (\<lambda>y. y \<noteq> base64_chars ! unat x) base64_chars = take (unat x) base64_chars"
    using takeWhile_distinct [OF base64_chars_props(1)] assms base64_chars_props(2) by simp
  then show "base64_find (base64_char x) = x" using assms base64_chars_props(2) by (simp add: base64_find_def base64_char_def)
  have mem: "base64_char x \<in> set base64_chars" using assms base64_chars_props(2) by (simp add: base64_char_def)
  then show "is_base64 (base64_char x)" "base64_char x \<noteq> CHR ''=''" "base64_char x \<noteq> CHR ''-''" "base64_char x \<noteq> CHR '' ''"
    using base64_chars_props by (auto simp: list_all_iff)
qed

lemma enc3_or:
  "enc3 [x, y, z] =
     [drop_bit 2 (x AND 0xfc), push_bit 4 (x AND 0x03) OR drop_bit 4 (y AND 0xf0), push_bit 2 (y AND 0x0f) OR drop_bit 6 (z AND 0xc0), z AND 0x3f]"
proof -
  have "push_bit 4 (x AND 3) AND drop_bit 4 (y AND 0xf0) = 0" "push_bit 2 (y AND 0x0f) AND drop_bit 6 (z AND 0xc0) = 0"
    by (rule word8_eqI, simp add: bit_simps)+
  then show ?thesis by (simp add: enc3_def disjunctive_add_eq_or)
qed

lemma dec4_enc3: "dec4 (enc3 [x, y, z]) = [x, y, z]"
proof -
  have *: "dec4 [a, b, c, d] = [x, y, z]"
    if "a = drop_bit 2 (x AND 0xfc)" "b = push_bit 4 (x AND 0x03) OR drop_bit 4 (y AND 0xf0)"
      "c = push_bit 2 (y AND 0x0f) OR drop_bit 6 (z AND 0xc0)" "d = z AND 0x3f" for a b c d
  proof -
    have "push_bit 2 a AND drop_bit 4 (b AND 0x30) = 0" "push_bit 4 (b AND 0xf) AND drop_bit 2 (c AND 0x3c) = 0" "push_bit 6 (c AND 0x3) AND d = 0"
      unfolding that by (rule word8_eqI, simp add: bit_simps)+
    moreover have "push_bit 2 a OR drop_bit 4 (b AND 0x30) = x" "push_bit 4 (b AND 0xf) OR drop_bit 2 (c AND 0x3c) = y" "push_bit 6 (c AND 0x3) OR d = z"
      unfolding that by (rule word8_eqI, simp add: bit_simps, (simp add: numeral_2_eq_2 numeral_3_eq_3)?)+
    ultimately show ?thesis unfolding dec4_def by (simp add: disjunctive_add_eq_or)
  qed
  show ?thesis unfolding enc3_or by (rule *) (rule refl)+
qed

lemma unat_mask_6: "v = v AND 0x3f \<Longrightarrow> unat (v :: byte) < 64"
proof -
  assume "v = v AND 0x3f"
  moreover have "v AND 0x3f \<le> 0x3f" by (rule word_and_le1)
  ultimately have "v \<le> 0x3f" by simp
  then show ?thesis by (simp add: word_le_nat_alt)
qed

lemma enc3_less: "list_all (\<lambda>v. unat v < 64) (enc3 [x, y, z])"
  unfolding enc3_or list.pred_inject
  by (intro conjI; (rule unat_mask_6, rule word8_eqI, simp add: bit_simps | simp))

lemma enc3_chars:
  obtains a b c d where "enc3 [x, y, z] = [a, b, c, d]" "unat a < 64" "unat b < 64" "unat c < 64" "unat d < 64"
    "dec4 [a, b, c, d] = [x, y, z]"
proof -
  obtain a b c d where e: "enc3 [x, y, z] = [a, b, c, d]" by (simp add: enc3_or)
  show ?thesis using that [OF e] enc3_less [of x y z] dec4_enc3 [of x y z] unfolding e by simp
qed

lemma base64_dec_step:
  assumes "unat x < 64" "n \<noteq> 0" "length a < 3"
  shows "base64_dec_loop (base64_char x # s) n a = base64_dec_loop s (n - 1) (a @ [base64_char x])"
  using assms base64_find_char [OF assms(1)] by (subst base64_dec_loop.simps) simp


lemma base64_dec_step4:
  assumes "unat x < 64" "n \<noteq> 0" "length a = 3"
  shows "base64_dec_loop (base64_char x # s) n a = dec4 (map base64_find a @ [x]) @ base64_dec_loop s (n - 1) []"
  using assms base64_find_char [OF assms(1)] by (subst base64_dec_loop.simps) simp

text \<open>A group of three bytes, and the padded groups at the end.\<close>

lemma base64_dec_group:
  assumes "unat n = k" "4 \<le> k" "enc3 [x, y, z] = [a, b, c, d]" "unat a < 64" "unat b < 64" "unat c < 64" "unat d < 64" "dec4 [a, b, c, d] = [x, y, z]"
  shows "base64_dec_loop (map base64_char [a, b, c, d] @ s) n [] = x # y # z # base64_dec_loop s (n - 4) []"
proof -
  have n: "n \<noteq> 0" "n - 1 \<noteq> 0" "n - 2 \<noteq> 0" "n - 3 \<noteq> 0" using assms(1,2) by auto
  show ?thesis
    using assms n by (simp add: base64_dec_step base64_dec_step4 base64_find_char diff_diff_eq)
qed


lemma base64_dec_pad: "base64_dec_loop (CHR ''='' # s) n a = base64_dec_loop [] 0 a"
  by (subst (1 2) base64_dec_loop.simps) simp

lemma base64_dec_1:
  assumes "2 < unat n" "enc3 [x, 0, 0] = [a, b, c, d]" "unat a < 64" "unat b < 64" "dec4 [a, b, c, d] = [x, 0, 0]"
  shows "base64_dec_loop (map base64_char [a, b] @ CHR ''='' # s) n [] = [x]"
proof -
  have n: "n \<noteq> 0" "n - 1 \<noteq> 0" using assms(1) by auto
  have "base64_dec_loop [] 0 [base64_char a, base64_char b] = [x]"
    using assms by (subst base64_dec_loop.simps) (simp add: base64_find_char dec4_def numeral_2_eq_2)
  then show ?thesis using assms n by (simp add: base64_dec_step base64_dec_pad)
qed

lemma base64_dec_2:
  assumes "3 < unat n" "enc3 [x, y, 0] = [a, b, c, d]" "unat a < 64" "unat b < 64" "unat c < 64" "dec4 [a, b, c, d] = [x, y, 0]"
  shows "base64_dec_loop (map base64_char [a, b, c] @ CHR ''='' # s) n [] = [x, y]"
proof -
  have n: "n \<noteq> 0" "n - 1 \<noteq> 0" "n - 2 \<noteq> 0" using assms(1) by auto
  have "base64_dec_loop [] 0 [base64_char a, base64_char b, base64_char c] = [x, y]"
    using assms by (subst base64_dec_loop.simps) (simp add: base64_find_char dec4_def numeral_2_eq_2)
  then show ?thesis using assms n by (simp add: base64_dec_step base64_dec_pad diff_diff_eq)
qed

fun triples :: "byte list \<Rightarrow> bool" where
  "triples (x # y # z # bs) = triples bs"
| "triples _ = True"

lemma base64_enc_group: "base64_enc_loop (x # y # z # bs) [] = map base64_char (enc3 [x, y, z]) @ base64_enc_loop bs []"
  by simp

lemma length_enc3 [simp]: "length (enc3 a) = 4"
  by (simp add: enc3_def)

lemma base64_dec_enc:
  "unat n = length (base64_enc_loop bs []) \<Longrightarrow> base64_dec_loop (base64_enc_loop bs []) n [] = bs"
proof (induction bs arbitrary: n rule: triples.induct [case_names group none one two])
  case (group x y z bs)
  obtain a b c d where e: "enc3 [x, y, z] = [a, b, c, d]" "unat a < 64" "unat b < 64" "unat c < 64" "unat d < 64" "dec4 [a, b, c, d] = [x, y, z]"
    by (rule enc3_chars)
  have k: "4 \<le> unat n" "unat (n - 4) = length (base64_enc_loop bs [])"
  proof -
    show 4: "4 \<le> unat n" using group.prems by (simp add: base64_enc_group e)
    then have "unat (n - 4) = unat n - 4" by (simp add: unat_sub word_le_nat_alt)
    then show "unat (n - 4) = length (base64_enc_loop bs [])" using group.prems by (simp add: base64_enc_group e)
  qed
  have "base64_dec_loop (base64_enc_loop bs []) (n - 4) [] = bs" using group.IH k(2) by blast
  then show ?case using base64_dec_group [OF refl k(1) e, of "base64_enc_loop bs []"] unfolding base64_enc_group e(1) by simp
next
  case none
  show ?case by (subst base64_dec_loop.simps) simp
next
  case (one x)
  obtain a b c d where e: "enc3 [x, 0, 0] = [a, b, c, d]" "unat a < 64" "unat b < 64" "unat c < 64" "unat d < 64" "dec4 [a, b, c, d] = [x, 0, 0]"
    by (rule enc3_chars)
  have l: "base64_enc_loop [x] [] = map base64_char [a, b] @ CHR ''='' # ''=''" by (simp add: e numeral_2_eq_2)
  show ?case using base64_dec_1 [OF _ e(1,2,3,6)] one.prems unfolding l by simp
next
  case (two x y)
  obtain a b c d where e: "enc3 [x, y, 0] = [a, b, c, d]" "unat a < 64" "unat b < 64" "unat c < 64" "unat d < 64" "dec4 [a, b, c, d] = [x, y, 0]"
    by (rule enc3_chars)
  have l: "base64_enc_loop [x, y] [] = map base64_char [a, b, c] @ CHR ''='' # []" by (simp add: e numeral_2_eq_2)
  show ?case using base64_dec_2 [OF _ e(1,2,3,4,6)] two.prems unfolding l by simp
qed

lemma base64_decode_encode: "length (base64_encode bs) < 2 ^ 32 \<Longrightarrow> base64_decode (base64_encode bs) = bs"
  unfolding base64_decode_def base64_encode_def by (rule base64_dec_enc) (simp add: unat_of_nat)

lemma base64_enc_loop_chars: "length a < 3 \<Longrightarrow> set (base64_enc_loop bs a) \<subseteq> insert (CHR ''='') (set base64_chars)"
proof (induction bs a rule: base64_enc_loop.induct)
  case (1 a)
  have "base64_char v \<in> set base64_chars" if "unat v < 64" for v using that base64_chars_props(2) by (simp add: base64_char_def)
  moreover have "list_all (\<lambda>v. unat v < 64) (enc3 (a @ replicate (3 - length a) 0))"
  proof -
    obtain x y z where "a @ replicate (3 - length a) 0 = [x, y, z]"
      using 1 by (cases a; cases "tl a") (auto simp: numeral_3_eq_3 numeral_2_eq_2)
    then show ?thesis using enc3_less [of x y z] by simp
  qed
  ultimately show ?case by (auto simp: list_all_iff Let_def dest: in_set_takeD split: if_splits)
next
  case (2 b bs a)
  show ?case
  proof (cases "length (a @ [b]) = 3")
    case True
    then obtain x y z where a: "a @ [b] = [x, y, z]" by (cases a; cases "tl a") auto
    have "base64_char v \<in> set base64_chars" if "v \<in> set (enc3 [x, y, z])" for v
      using that enc3_less [of x y z] base64_chars_props(2) by (auto simp: list_all_iff base64_char_def)
    then show ?thesis using 2(1) True unfolding base64_enc_loop.simps a by auto
  next
    case False
    then show ?thesis using 2 by auto
  qed
qed

lemma base64_dash: "base64_decode_dash (base64_encode_dash bs) = base64_decode (base64_encode bs)"
proof -
  have "set (base64_encode bs) \<subseteq> insert (CHR ''='') (set base64_chars)" unfolding base64_encode_def by (rule base64_enc_loop_chars) simp
  then have "c \<noteq> CHR ''-'' \<and> c \<noteq> CHR '' ''" if "c \<in> set (base64_encode bs)" for c using that base64_chars_props(5,6) by auto
  then have "map (\<lambda>c. if c = CHR ''-'' then CHR ''='' else if c = CHR '' '' then CHR ''+'' else c)
      (map (\<lambda>c. if c = CHR ''='' then CHR ''-'' else c) (base64_encode bs)) = base64_encode bs"
    unfolding map_map by (intro map_idI) auto
  then show ?thesis by (simp only: base64_decode_dash_def base64_encode_dash_def)
qed

lemma escapeClientMessage_eq: "escapeClientMessage s = concat (map esc_char s)"
  using escapeClientMessage_loop_eq [of "[]" s] by (simp add: escapeClientMessage_def)

subsection \<open>Properties\<close>

text \<open>A client message survives escaping: \<open>unescapeMessage\<close> undoes \<open>escapeClientMessage\<close>, and the escaped message is free of the
  separator character.\<close>
theorem client_message_roundtrip: "unescapeMessage (escapeClientMessage msg) = msg \<and> CHR ''#'' \<notin> set (escapeClientMessage msg)"
  using client_msg.unesc_esc [of msg] by (auto simp: escapeClientMessage_eq esc_char_def split: if_splits)

text \<open>C29. A parameter string built from keys without an equals sign and escaped values is parsed back to exactly these
  parameters, whatever the values hold; when a key occurs twice the first value is kept.\<close>
theorem ParseParamStrHttp_roundtrip:
  assumes "list_all (\<lambda>(k, v). k \<noteq> [] \<and> CHR ''='' \<notin> set k) kvs"
  shows "ParseParamStrHttp l (param_str kvs) Map.empty False = map_of kvs"
  using ParseParam_param_str [OF assms, of l Map.empty] by (simp add: ParseParamStrHttp_def)

theorem ParseParamStrHttp_roundtrip_witness:
  "ParseParamStrHttp id ''a=1%262&b=%25&a=3'' Map.empty False ''a'' = Some ''1&2''"
proof -
  have s: "param_str [(''a'', ''1&2''), (''b'', ''%''), (''a'', ''3'')] = ''a=1%262&b=%25&a=3''" by (simp add: EscapeParamString_def)
  show ?thesis using ParseParamStrHttp_roundtrip [of "[(''a'', ''1&2''), (''b'', ''%''), (''a'', ''3'')]" id] unfolding s by simp
qed

text \<open>C30. \<open>greplace\<close> with a non-empty search string returns, and its result is the left-to-right replacement of all
  occurrences that do not overlap: the inserted text is not searched again. (The size bound keeps \<open>size_t\<close> from wrapping.)\<close>
theorem greplace_correct:
  assumes "tor \<noteq> []" "length data * (length tin + 1) < 2 ^ 64"
  shows "greplace tor tin data = Some (replace_all tor tin data)"
  by (rule greplace_eq [OF assms])

theorem greplace_correct_witness: "greplace ''aa'' ''a'' ''aaab'' = Some ''aab''"
  using greplace_correct [of "''aa''" "''aaab''" "''a''"] by (simp add: replace_all.simps)

text \<open>Base 64 with dashes for padding, as used in identifiers: decoding gives the bytes back.\<close>
theorem base64_dash_roundtrip:
  assumes "length (base64_encode bs) < 2 ^ 32"
  shows "base64_decode_dash (base64_encode_dash bs) = bs"
  unfolding base64_dash by (rule base64_decode_encode [OF assms])

theorem base64_dash_roundtrip_witness: "base64_encode [77, 97] = ''TWE='' \<and> base64_decode_dash (base64_encode_dash [77, 97]) = [77, 97]"
proof -
  have e: "base64_encode [77, 97] = ''TWE=''" by code_simp
  then show ?thesis using base64_dash_roundtrip [of "[77, 97]"] by simp
qed

text \<open>Hexadecimal: \<open>hexToBytes\<close> undoes \<open>bytesToHex\<close>; given a string of odd length it writes past the end of its result.\<close>
theorem hexToBytes_correct: "hexToBytes l (bytesToHex s) = Some s \<and> hexToBytes l (bytesToHex s @ [c]) = None"
proof -
  have len: "length (bytesToHex s) = 2 * length s" by (induction s) (auto simp: bytesToHex_def byteToHex_def)
  have "hexToBytes l (bytesToHex s @ [c]) = None"
    unfolding hexToBytes_def by (rule hexToBytes_loop_odd) (simp_all add: len)
  then show ?thesis using hexToBytes_bytesToHex by simp
qed

text \<open>\<open>UnescapeHTML\<close> does not undo \<open>EscapeHTML\<close>: it resolves the ampersand first and then reads the result again.\<close>
lemma UnescapeHTML_not_inverse: "EscapeHTML ''&lt;'' = ''&amp;lt;'' \<and> UnescapeHTML (EscapeHTML ''&lt;'') = Some ''<''"
proof -
  have e: "EscapeHTML ''&lt;'' = ''&amp;lt;''" by (simp add: EscapeHTML_def)
  have "UnescapeHTML ''&amp;lt;'' = Some ''<''" by (simp add: UnescapeHTML_def greplace_eq replace_all.simps)
  then show ?thesis using e by simp
qed

end
