(* ===== verification/File_List.thy ===== *)
theory File_List
  imports String_Escape
begin

text \<open>
  The file list of a backup (\<^verbatim>\<open>src/urbackupcommon/filelist_utils.cpp\<close>): the writer of an item and the character-driven parser
  \<open>FileListParser\<close>. \<open>int64\<close> values are integers in their range.
\<close>

subsection \<open>Decimal numbers\<close>

definition convert_int64 :: "int \<Rightarrow> string" where
  "convert_int64 i = (if i < 0 then CHR ''-'' # digits (nat (- i)) else digits (nat i))"

definition int64_min :: int where
  "int64_min = - (2 ^ 63)"

definition int64_max :: int where
  "int64_max = 2 ^ 63 - 1"

definition isspace :: "char \<Rightarrow> bool" where
  "isspace c = (c = CHR '' '' \<or> 9 \<le> (of_char c :: nat) \<and> (of_char c :: nat) \<le> 13)"

definition isdigit :: "char \<Rightarrow> bool" where
  "isdigit c = (48 \<le> (of_char c :: nat) \<and> (of_char c :: nat) \<le> 57)"

definition digits_value :: "string \<Rightarrow> int" where
  "digits_value s = fold (\<lambda>c v. v * 10 + int ((of_char c :: nat) - 48)) s 0"

text \<open>\<open>strtoll(s, NULL, 10)\<close>: white space, an optional sign, digits, saturating; the string ends at a zero byte.\<close>

definition strtoll :: "string \<Rightarrow> int" where
  "strtoll str =
     (let s = dropWhile isspace (takeWhile (\<lambda>c. c \<noteq> CHR 0x00) str);
          neg = (s \<noteq> [] \<and> hd s = CHR ''-'');
          s = (if s \<noteq> [] \<and> (hd s = CHR ''-'' \<or> hd s = CHR ''+'') then tl s else s);
          v = digits_value (takeWhile isdigit s);
          v = (if neg then - v else v)
      in max int64_min (min int64_max v))"

definition os_atoi64 :: "string \<Rightarrow> int" where
  "os_atoi64 str = strtoll str"

lemma digit_char: "n < 10 \<Longrightarrow> isdigit (char_of (48 + n))" "n < 10 \<Longrightarrow> (of_char (char_of (48 + n) :: char) :: nat) = 48 + n"
  by (simp_all add: isdigit_def)

lemma digits_isdigit: "list_all isdigit (digits n)"
  by (induction n rule: digits.induct) (subst digits.simps, simp add: digit_char)

lemma digits_value_append: "digits_value (s @ [c]) = digits_value s * 10 + int ((of_char c :: nat) - 48)"
  by (simp add: digits_value_def)

lemma digits_value_digits: "digits_value (digits n) = int n"
proof (induction n rule: digits.induct)
  case (1 n)
  show ?case
  proof (cases "n < 10")
    case True
    then show ?thesis by (subst digits.simps) (simp add: digits_value_def digit_char(2))
  next
    case False
    then have d: "digits n = digits (n div 10) @ [char_of (48 + n mod 10)]" by (subst digits.simps) simp
    have "digits_value (digits n) = int (n div 10) * 10 + int (n mod 10)"
      unfolding d digits_value_append using 1 False by (simp add: digit_char(2))
    also have "\<dots> = int (n div 10 * 10 + n mod 10)" by (simp only: of_nat_add of_nat_mult of_nat_numeral)
    also have "\<dots> = int n" by (simp only: div_mult_mod_eq)
    finally show ?thesis .
  qed
qed

lemma digits_Cons: "digits n \<noteq> []"
  by (subst digits.simps) simp

lemma isdigit_not: "isdigit c \<Longrightarrow> \<not> isspace c \<and> c \<noteq> CHR ''-'' \<and> c \<noteq> CHR ''+'' \<and> c \<noteq> CHR 0x00"
  by (auto simp: isdigit_def isspace_def)

lemma strtoll_digits: "strtoll (digits n) = max int64_min (min int64_max (int n))"
  "strtoll (CHR ''-'' # digits n) = max int64_min (min int64_max (- int n))"
proof -
  have all: "\<And>c. c \<in> set (digits n) \<Longrightarrow> isdigit c" using digits_isdigit [of n] by (simp add: list_all_iff)
  then have tw: "takeWhile (\<lambda>c. c \<noteq> CHR 0x00) (digits n) = digits n" "takeWhile isdigit (digits n) = digits n"
    using isdigit_not by (auto simp: takeWhile_eq_all_conv)
  obtain c s where d: "digits n = c # s" using digits_Cons [of n] by (cases "digits n") auto
  then have "isdigit c" using all by simp
  then have c: "\<not> isspace c" "c \<noteq> CHR ''-''" "c \<noteq> CHR ''+''" using isdigit_not by blast+
  then have dw: "dropWhile isspace (digits n) = digits n" using d by simp
  show "strtoll (digits n) = max int64_min (min int64_max (int n))"
    unfolding strtoll_def tw(1) dw Let_def using c d tw(2) digits_value_digits [of n] by simp
  show "strtoll (CHR ''-'' # digits n) = max int64_min (min int64_max (- int n))"
    unfolding strtoll_def Let_def using digits_value_digits [of n] by (simp add: isspace_def tw del: takeWhile_eq_all_conv)
qed

lemma os_atoi64_convert: "int64_min \<le> i \<Longrightarrow> i \<le> int64_max \<Longrightarrow> os_atoi64 (convert_int64 i) = i"
  using strtoll_digits [of "nat i"] strtoll_digits [of "nat (- i)"] by (auto simp: os_atoi64_def convert_int64_def)

lemma convert_int64_chars: "c \<in> set (convert_int64 i) \<Longrightarrow> isdigit c \<or> c = CHR ''-''"
  using digits_isdigit [of "nat i"] digits_isdigit [of "nat (- i)"] by (auto simp: convert_int64_def list_all_iff split: if_splits)

subsection \<open>Items\<close>

record SFile =
  name :: string
  fsize :: int
  last_modified :: int
  usn :: int
  created :: int
  accessed :: int
  isdir :: bool
  issym :: bool
  isspecialf :: bool
  isencrypted :: bool
  nlinks :: nat

definition SFile_init :: SFile where
  "SFile_init = \<lparr>name = '''', fsize = 0, last_modified = 0, usn = 0, created = 0, accessed = 0, isdir = False, issym = False,
     isspecialf = False, isencrypted = False, nlinks = 0\<rparr>"

definition escapeListName :: "string \<Rightarrow> string" where
  "escapeListName listname =
     concat (map (\<lambda>c. if c = CHR 0x22 then [CHR 0x5C, CHR 0x22] else if c = CHR 0x5C then [CHR 0x5C, CHR 0x5C] else [c]) listname)"

text \<open>The text of an item up to the modification time, that time, and the first form of \<open>writeFileItem\<close> with its two optional results:
  the number of bytes written and the offset of the change indicator.\<close>

definition item_head :: "SFile \<Rightarrow> string" where
  "item_head cf =
     (if isdir cf then ''d'' @ [CHR 0x22] @ escapeListName (name cf) @ [CHR 0x22] @ '' 0 ''
      else ''f'' @ [CHR 0x22] @ escapeListName (name cf) @ [CHR 0x22] @ '' '' @ convert_int64 (fsize cf) @ '' '')"

definition writeFileItem :: "SFile \<Rightarrow> nat \<Rightarrow> nat option \<Rightarrow> string \<times> nat \<times> nat option" where
  "writeFileItem cf written change_identicator_off =
     (if isdir cf \<and> name cf = ''..''
      then (let towrite = ''u'' @ [CHR 0x0A] in (towrite, written + length towrite, change_identicator_off))
      else
        (let towrite = item_head cf;
             off = map_option (\<lambda>_. length towrite) change_identicator_off;
             towrite = towrite @ convert_int64 (last_modified cf) @ [CHR 0x0A]
         in (towrite, written + length towrite, off)))"

definition writeFileItem_extra :: "SFile \<Rightarrow> string \<Rightarrow> string" where
  "writeFileItem_extra cf extra =
     (let extra = (if extra \<noteq> [] \<and> hd extra = CHR ''&'' then CHR ''#'' # tl extra else extra) in
      if isdir cf \<and> name cf = ''..'' then ''u'' @ [CHR 0x0A]
      else item_head cf @ convert_int64 (last_modified cf) @ extra @ [CHR 0x0A])"

text \<open>\<open>writeFileRepeat\<close>: \<open>accepted\<close> says how many bytes each \<open>Write\<close> of the file takes at most; \<open>None\<close> when the loop is still
  retrying after all of them. \<open>written\<close> has 32 bits.\<close>

fun writeFileRepeat_loop :: "nat list \<Rightarrow> string \<Rightarrow> nat \<Rightarrow> string \<Rightarrow> string option" where
  "writeFileRepeat_loop [] buf written f = None"
| "writeFileRepeat_loop (a # accepted) buf written f =
     (let n = u32n (length buf - written);
          rc = min a n;
          f = f @ take rc (drop written buf);
          written = u32n (written + rc)
      in if written < length buf then writeFileRepeat_loop accepted buf written f else Some f)"

definition writeFileRepeat :: "nat list \<Rightarrow> string \<Rightarrow> string \<Rightarrow> string option" where
  "writeFileRepeat accepted buf f = writeFileRepeat_loop accepted buf 0 f"

subsection \<open>The parser\<close>

datatype ParseState =
  ParseState_Type | ParseState_TypeFinish | ParseState_Quote | ParseState_Name | ParseState_NameEscape | ParseState_NameFinish
  | ParseState_Filesize | ParseState_ModifiedTime | ParseState_ExtraParams

record FileListParser =
  pstate :: ParseState
  t_name :: string
  ppos :: nat

definition FileListParser_init :: FileListParser where
  "FileListParser_init = \<lparr>pstate = ParseState_Type, t_name = '''', ppos = 0\<rparr>"

definition parser_reset :: "FileListParser \<Rightarrow> FileListParser" where
  "parser_reset p = p\<lparr>t_name := '''', pstate := ParseState_Type, ppos := 0\<rparr>"

text \<open>What one call did: the entry is not complete (\<open>false\<close>), it is (\<open>true\<close>), or an unexpected character was logged with its
  position (also \<open>false\<close>).\<close>

datatype parse_res = More | Entry | Unexpected char nat

type_synonym extra_map = "(string \<rightharpoonup> string) option"
type_synonym next_res = "(parse_res \<times> SFile \<times> extra_map \<times> FileListParser) option"

text \<open>\<open>if (extra != NULL) extra->clear()\<close>; the parameter \<open>l\<close> is the one of \<open>hexToULong\<close>.\<close>

definition extra_clear :: "extra_map \<Rightarrow> extra_map" where
  "extra_clear extra = map_option (\<lambda>_. Map.empty) extra"

definition entry_done :: "SFile \<Rightarrow> extra_map \<Rightarrow> FileListParser \<Rightarrow> next_res" where
  "entry_done data extra p = Some (Entry, data, extra_clear extra, parser_reset p)"

text \<open>The part of \<open>ParseState_Name\<close> that \<open>ParseState_NameFinish\<close> falls through to.\<close>

definition name_char :: "char \<Rightarrow> SFile \<Rightarrow> extra_map \<Rightarrow> FileListParser \<Rightarrow> next_res" where
  "name_char ch data extra p =
     (if pstate p = ParseState_Name \<and> ch = CHR 0x22
      then Some (More, data, extra, p\<lparr>pstate := ParseState_NameFinish, t_name := t_name p @ [ch]\<rparr>)
      else if pstate p = ParseState_Name \<and> ch = CHR 0x5C
      then Some (More, data, extra, p\<lparr>pstate := ParseState_NameEscape\<rparr>)
      else if pstate p = ParseState_NameFinish
      then Some (More, data, extra, p\<lparr>pstate := ParseState_Name, t_name := t_name p @ [ch]\<rparr>)
      else Some (More, data, extra, p\<lparr>t_name := t_name p @ [ch]\<rparr>))"

text \<open>\<open>ParseState_NameFinish\<close> with another character than a quote. \<open>None\<close>: \<open>erase\<close> throws on an empty name.\<close>

definition name_finish :: "char \<Rightarrow> SFile \<Rightarrow> extra_map \<Rightarrow> FileListParser \<Rightarrow> next_res" where
  "name_finish ch data extra p =
     (if t_name p = [] then None
      else
        (let data = data\<lparr>name := butlast (t_name p)\<rparr>;
             p = p\<lparr>t_name := ''''\<rparr>
         in if isdir data \<and> name data = ''..'' then
              (let data = data\<lparr>last_modified := 0, fsize := 0\<rparr> in
               if ch = CHR 0x0A then entry_done data extra p
               else Some (More, data, extra, p\<lparr>pstate := ParseState_ExtraParams\<rparr>))
            else if isdir data \<and> ch = CHR 0x0A then entry_done (data\<lparr>last_modified := 0, fsize := 0\<rparr>) extra p
            else Some (More, data, extra, p\<lparr>pstate := ParseState_Filesize\<rparr>)))"

definition nextEntry :: "(string \<Rightarrow> string) \<Rightarrow> char \<Rightarrow> SFile \<Rightarrow> extra_map \<Rightarrow> FileListParser \<Rightarrow> next_res" where
  "nextEntry l ch data extra p0 =
     (let p = p0\<lparr>ppos := ppos p0 + 1\<rparr> in
      case pstate p of
        ParseState_Type \<Rightarrow>
          if ch = CHR ''f'' then Some (More, data\<lparr>isdir := False\<rparr>, extra, p\<lparr>pstate := ParseState_Quote\<rparr>)
          else if ch = CHR ''d'' then Some (More, data\<lparr>isdir := True\<rparr>, extra, p\<lparr>pstate := ParseState_Quote\<rparr>)
          else if ch = CHR ''u'' then Some (More, data\<lparr>isdir := True\<rparr>, extra, p\<lparr>pstate := ParseState_TypeFinish\<rparr>)
          else Some (Unexpected ch (ppos p - 1), data, extra, p)
      | ParseState_TypeFinish \<Rightarrow>
          if ch = CHR 0x0A then entry_done (data\<lparr>name := ''..'', last_modified := 0, fsize := 0\<rparr>) extra p
          else Some (Unexpected ch (ppos p - 1), data, extra, p)
      | ParseState_Quote \<Rightarrow> Some (More, data, extra, p\<lparr>pstate := ParseState_Name\<rparr>)
      | ParseState_NameFinish \<Rightarrow> if ch \<noteq> CHR 0x22 then name_finish ch data extra p else name_char ch data extra p
      | ParseState_Name \<Rightarrow> name_char ch data extra p
      | ParseState_NameEscape \<Rightarrow>
          Some (More, data, extra,
            p\<lparr>t_name := t_name p @ (if ch \<noteq> CHR 0x22 \<and> ch \<noteq> CHR 0x5C then [CHR 0x5C] else []) @ [ch], pstate := ParseState_Name\<rparr>)
      | ParseState_Filesize \<Rightarrow>
          if ch \<noteq> CHR '' '' then Some (More, data, extra, p\<lparr>t_name := t_name p @ [ch]\<rparr>)
          else Some (More, data\<lparr>fsize := os_atoi64 (t_name p)\<rparr>, extra, p\<lparr>t_name := '''', pstate := ParseState_ModifiedTime\<rparr>)
      | ParseState_ModifiedTime \<Rightarrow>
          if ch \<noteq> CHR 0x0A \<and> ch \<noteq> CHR ''#'' then Some (More, data, extra, p\<lparr>t_name := t_name p @ [ch]\<rparr>)
          else
            (let data = data\<lparr>last_modified := os_atoi64 (t_name p)\<rparr> in
             if ch = CHR 0x0A then entry_done data extra p
             else Some (More, data, extra, p\<lparr>t_name := '''', pstate := ParseState_ExtraParams\<rparr>))
      | ParseState_ExtraParams \<Rightarrow>
          if ch \<noteq> CHR 0x0A then Some (More, data, extra, p\<lparr>t_name := t_name p @ [ch]\<rparr>)
          else Some (Entry, data, map_option (\<lambda>_. ParseParamStrHttp l (t_name p) Map.empty False) extra, parser_reset p))"

text \<open>The loop of the callers: one character after another, collecting the entries and the errors.\<close>

record feed_res =
  entries :: "(SFile \<times> extra_map) list"
  errors :: "(char \<times> nat) list"
  fdata :: SFile
  fextra :: extra_map
  fparser :: FileListParser

fun feed :: "(string \<Rightarrow> string) \<Rightarrow> string \<Rightarrow> SFile \<Rightarrow> extra_map \<Rightarrow> FileListParser \<Rightarrow> feed_res option" where
  "feed l [] data extra p = Some \<lparr>entries = [], errors = [], fdata = data, fextra = extra, fparser = p\<rparr>"
| "feed l (ch # s) data extra p =
     do { (res, data, extra, p) \<leftarrow> nextEntry l ch data extra p;
          r \<leftarrow> feed l s data extra p;
          Some (case res of
                  More \<Rightarrow> r
                | Entry \<Rightarrow> r\<lparr>entries := (data, extra) # entries r\<rparr>
                | Unexpected c n \<Rightarrow> r\<lparr>errors := (c, n) # errors r\<rparr>) }"

subsection \<open>The invariant\<close>

text \<open>In \<open>ParseState_NameFinish\<close> the name read so far ends with the closing quote; before the name it is empty.\<close>

definition parser_inv :: "FileListParser \<Rightarrow> bool" where
  "parser_inv p \<longleftrightarrow>
     (pstate p = ParseState_NameFinish \<longrightarrow> t_name p \<noteq> [] \<and> last (t_name p) = CHR 0x22) \<and>
     (pstate p \<in> {ParseState_Type, ParseState_TypeFinish, ParseState_Quote} \<longrightarrow> t_name p = [])"

lemma parser_inv_init: "parser_inv FileListParser_init"
  by (simp add: parser_inv_def FileListParser_init_def)

lemma nextEntry_inv:
  assumes "parser_inv p"
  shows "\<exists>res data' extra' p'. nextEntry l ch data extra p = Some (res, data', extra', p') \<and> parser_inv p'"
  using assms
  by (cases "pstate p")
    (auto simp: nextEntry_def Let_def parser_inv_def name_char_def name_finish_def entry_done_def parser_reset_def)

subsection \<open>Reading back what was written\<close>

lemma feed_more: "nextEntry l ch d e p = Some (More, d', e', p') \<Longrightarrow> feed l (ch # s) d e p = feed l s d' e' p'"
  by simp

definition add_entry :: "SFile \<Rightarrow> extra_map \<Rightarrow> feed_res \<Rightarrow> feed_res" where
  "add_entry d e r = r\<lparr>entries := (d, e) # entries r\<rparr>"

lemma feed_entry:
  "nextEntry l ch d e p = Some (Entry, d', e', p') \<Longrightarrow> feed l (ch # s) d e p = map_option (add_entry d' e') (feed l s d' e' p')"
  by (simp add: add_entry_def map_conv_bind_option comp_def)

text \<open>The phases of an item.\<close>

lemma feed_escaped:
  "pstate p = ParseState_Name \<Longrightarrow>
   feed l (escapeListName [c] @ s) d e p = feed l s d e (p\<lparr>t_name := t_name p @ [c], ppos := ppos p + length (escapeListName [c])\<rparr>)"
  by (cases p) (auto simp: escapeListName_def nextEntry_def name_char_def Let_def)

lemma feed_name:
  "pstate p = ParseState_Name \<Longrightarrow>
   \<exists>n. feed l (escapeListName nm @ s) d e p = feed l s d e (p\<lparr>t_name := t_name p @ nm, ppos := n\<rparr>)"
proof (induction nm arbitrary: p)
  case Nil
  show ?case by (rule exI [of _ "ppos p"]) (simp add: escapeListName_def)
next
  case (Cons c nm)
  let ?p = "p\<lparr>t_name := t_name p @ [c], ppos := ppos p + length (escapeListName [c])\<rparr>"
  obtain n where n: "feed l (escapeListName nm @ s) d e ?p = feed l s d e (?p\<lparr>t_name := t_name ?p @ nm, ppos := n\<rparr>)"
    using Cons.IH [of ?p] Cons.prems by auto
  have "escapeListName (c # nm) @ s = escapeListName [c] @ escapeListName nm @ s" by (simp add: escapeListName_def)
  then have "feed l (escapeListName (c # nm) @ s) d e p = feed l (escapeListName nm @ s) d e ?p"
    using feed_escaped [OF Cons.prems] by simp
  then show ?case using n by auto
qed

text \<open>In a state that collects characters, the characters of \<open>w\<close> are collected.\<close>

lemma feed_collect:
  assumes step: "\<And>c q. c \<in> set w \<Longrightarrow> pstate q = st \<Longrightarrow>
      nextEntry l c d e q = Some (More, d, e, q\<lparr>t_name := t_name q @ [c], ppos := ppos q + 1\<rparr>)"
  shows "pstate p = st \<Longrightarrow> feed l (w @ s) d e p = feed l s d e (p\<lparr>t_name := t_name p @ w, ppos := ppos p + length w\<rparr>)"
  using step
proof (induction w arbitrary: p)
  case (Cons c w)
  let ?p = "p\<lparr>t_name := t_name p @ [c], ppos := ppos p + 1\<rparr>"
  have "feed l ((c # w) @ s) d e p = feed l (w @ s) d e ?p"
    unfolding append_Cons by (rule feed_more) (use Cons.prems in auto)
  also have "\<dots> = feed l s d e (?p\<lparr>t_name := t_name ?p @ w, ppos := ppos ?p + length w\<rparr>)"
    by (rule Cons.IH) (use Cons.prems in auto)
  finally show ?case by simp
qed simp

lemma parser_reset_eq: "parser_reset p = FileListParser_init"
  by (simp add: parser_reset_def FileListParser_init_def)

text \<open>From the closing quote of the name on.\<close>

lemma convert_safe: "c \<in> set (convert_int64 i) \<Longrightarrow> c \<noteq> CHR '' '' \<and> c \<noteq> CHR 0x0A \<and> c \<noteq> CHR ''#''"
  using convert_int64_chars [of c i] by (auto simp: isdigit_def)

lemma feed_size:
  assumes "pstate p = ParseState_Filesize" "t_name p = []" "int64_min \<le> i" "i \<le> int64_max"
  shows "\<exists>n. feed l (convert_int64 i @ '' '' @ s) d e p =
    feed l s (d\<lparr>fsize := i\<rparr>) e \<lparr>pstate = ParseState_ModifiedTime, t_name = [], ppos = n\<rparr>"
proof -
  let ?p = "p\<lparr>t_name := t_name p @ convert_int64 i, ppos := ppos p + length (convert_int64 i)\<rparr>"
  have "feed l (convert_int64 i @ '' '' @ s) d e p = feed l ('' '' @ s) d e ?p"
    by (rule feed_collect [where st = ParseState_Filesize]) (use convert_safe assms in \<open>auto simp: nextEntry_def Let_def\<close>)
  also have "\<dots> = feed l s (d\<lparr>fsize := i\<rparr>) e \<lparr>pstate = ParseState_ModifiedTime, t_name = [], ppos = ppos ?p + 1\<rparr>"
    unfolding append_Cons append_Nil
    by (rule feed_more) (use assms os_atoi64_convert [of i] in \<open>simp add: nextEntry_def Let_def\<close>)
  finally show ?thesis by blast
qed

definition extra_str :: "(string \<times> string) list \<Rightarrow> string" where
  "extra_str kvs = (if kvs = [] then '''' else CHR ''&'' # param_str kvs)"

definition extra_ok :: "(string \<times> string) list \<Rightarrow> bool" where
  "extra_ok kvs = list_all (\<lambda>(k, v). k \<noteq> [] \<and> CHR ''='' \<notin> set k \<and> CHR 0x0A \<notin> set k) kvs"

lemma param_str_no_newline: "extra_ok kvs \<Longrightarrow> CHR 0x0A \<notin> set (param_str kvs)"
proof (induction kvs rule: param_str.induct)
  case (2 k v)
  then show ?case using EscapeParamString_safe [of v] by (auto simp: extra_ok_def)
next
  case (3 k v kv kvs)
  then show ?case using EscapeParamString_safe [of v] by (auto simp: extra_ok_def)
qed simp

lemma feed_time:
  assumes "pstate p = ParseState_ModifiedTime" "t_name p = []" "int64_min \<le> i" "i \<le> int64_max" "extra_ok kvs"
  shows "feed l (convert_int64 i @ (if kvs = [] then [] else CHR ''#'' # param_str kvs) @ CHR 0x0A # s) d e p =
    (let d' = d\<lparr>last_modified := i\<rparr>; e' = map_option (\<lambda>_. map_of kvs) e in
     map_option (add_entry d' e') (feed l s d' e' FileListParser_init))"
proof -
  let ?p = "p\<lparr>t_name := t_name p @ convert_int64 i, ppos := ppos p + length (convert_int64 i)\<rparr>"
  let ?x = "(if kvs = [] then [] else CHR ''#'' # param_str kvs) @ CHR 0x0A # s" and ?d = "d\<lparr>last_modified := i\<rparr>"
  have a: "feed l (convert_int64 i @ ?x) d e p = feed l ?x d e ?p"
    by (rule feed_collect [where st = ParseState_ModifiedTime]) (use convert_safe assms in \<open>auto simp: nextEntry_def Let_def\<close>)
  show ?thesis
  proof (cases "kvs = []")
    case True
    have "nextEntry l CHR 0x0A d e ?p = Some (Entry, ?d, extra_clear e, FileListParser_init)"
      using assms os_atoi64_convert [of i] by (simp add: nextEntry_def Let_def entry_done_def parser_reset_eq)
    then have "feed l ?x d e ?p = map_option (add_entry ?d (extra_clear e)) (feed l s ?d (extra_clear e) FileListParser_init)"
      using True feed_entry [of l "CHR 0x0A" d e ?p] by simp
    then show ?thesis unfolding a Let_def using True by (simp add: extra_clear_def)
  next
    case False
    let ?q = "?p\<lparr>t_name := '''', pstate := ParseState_ExtraParams, ppos := ppos ?p + 1\<rparr>"
    let ?q' = "?q\<lparr>t_name := t_name ?q @ param_str kvs, ppos := ppos ?q + length (param_str kvs)\<rparr>"
    let ?e = "map_option (\<lambda>_. map_of kvs) e"
    have "feed l ?x d e ?p = feed l (param_str kvs @ CHR 0x0A # s) ?d e ?q"
      using False assms os_atoi64_convert [of i] by (cases p) (simp add: nextEntry_def Let_def)
    also have "\<dots> = feed l (CHR 0x0A # s) ?d e ?q'"
      by (rule feed_collect [where st = ParseState_ExtraParams]) (use param_str_no_newline [OF assms(5)] in \<open>auto simp: nextEntry_def Let_def\<close>)
    also have "\<dots> = map_option (add_entry ?d ?e) (feed l s ?d ?e FileListParser_init)"
    proof (rule feed_entry)
      have "list_all (\<lambda>(k, v). k \<noteq> [] \<and> CHR ''='' \<notin> set k) kvs" using assms(5) by (auto simp: extra_ok_def list_all_iff)
      then have "ParseParamStrHttp l (param_str kvs) Map.empty False = map_of kvs"
        using ParseParam_param_str [of kvs l Map.empty] by (simp add: ParseParamStrHttp_def)
      then show "nextEntry l CHR 0x0A ?d e ?q' = Some (Entry, ?d, ?e, FileListParser_init)"
        by (simp add: nextEntry_def Let_def parser_reset_eq)
    qed
    finally show ?thesis unfolding a Let_def .
  qed
qed

text \<open>What an item is read back as. An item \<open>..\<close> loses its time; a directory has size 0.\<close>

definition read_back :: "SFile \<Rightarrow> SFile \<Rightarrow> SFile" where
  "read_back cf d =
     d\<lparr>name := name cf, fsize := (if isdir cf then 0 else fsize cf),
       last_modified := (if isdir cf \<and> name cf = ''..'' then 0 else last_modified cf), isdir := isdir cf\<rparr>"

definition read_extra :: "SFile \<Rightarrow> (string \<times> string) list \<Rightarrow> extra_map \<Rightarrow> extra_map" where
  "read_extra cf kvs e = map_option (\<lambda>_. if isdir cf \<and> name cf = ''..'' then Map.empty else map_of kvs) e"

definition item_ok :: "SFile \<times> (string \<times> string) list \<Rightarrow> bool" where
  "item_ok = (\<lambda>(cf, kvs). int64_min \<le> fsize cf \<and> fsize cf \<le> int64_max \<and> int64_min \<le> last_modified cf \<and>
     last_modified cf \<le> int64_max \<and> extra_ok kvs)"

lemma feed_quoted:
  assumes "pstate p = ParseState_Quote" "t_name p = []" "isdir d \<longrightarrow> nm \<noteq> ''..''"
  shows "\<exists>n. feed l ([CHR 0x22] @ escapeListName nm @ [CHR 0x22] @ '' '' @ s) d e p =
    feed l s (d\<lparr>name := nm\<rparr>) e \<lparr>pstate = ParseState_Filesize, t_name = [], ppos = n\<rparr>"
proof -
  let ?p = "p\<lparr>pstate := ParseState_Name, ppos := ppos p + 1\<rparr>"
  have "\<exists>n. feed l (escapeListName nm @ [CHR 0x22] @ '' '' @ s) d e ?p = feed l ([CHR 0x22] @ '' '' @ s) d e (?p\<lparr>t_name := t_name ?p @ nm, ppos := n\<rparr>)"
    by (rule feed_name) simp
  then obtain n where n: "feed l (escapeListName nm @ [CHR 0x22] @ '' '' @ s) d e ?p =
      feed l ([CHR 0x22] @ '' '' @ s) d e (?p\<lparr>t_name := t_name ?p @ nm, ppos := n\<rparr>)" ..
  have "feed l ([CHR 0x22] @ '' '' @ s) d e (?p\<lparr>t_name := t_name ?p @ nm, ppos := n\<rparr>) =
      feed l s (d\<lparr>name := nm\<rparr>) e \<lparr>pstate = ParseState_Filesize, t_name = [], ppos = n + 2\<rparr>"
    using assms by (cases p) (auto simp: nextEntry_def name_char_def name_finish_def Let_def)
  moreover have "feed l ([CHR 0x22] @ escapeListName nm @ [CHR 0x22] @ '' '' @ s) d e p = feed l (escapeListName nm @ [CHR 0x22] @ '' '' @ s) d e ?p"
    using assms(1) by (cases p) (simp add: nextEntry_def Let_def)
  ultimately show ?thesis using n by (intro exI [of _ "n + 2"]) (simp only:)
qed

lemma feed_item:
  assumes "item_ok (cf, kvs)"
  shows "feed l (writeFileItem_extra cf (extra_str kvs) @ s) d e FileListParser_init =
    map_option (add_entry (read_back cf d) (read_extra cf kvs e)) (feed l s (read_back cf d) (read_extra cf kvs e) FileListParser_init)"
proof (cases "isdir cf \<and> name cf = ''..''")
  case True
  let ?p = "\<lparr>pstate = ParseState_TypeFinish, t_name = [], ppos = 1\<rparr>" and ?d = "d\<lparr>isdir := True\<rparr>"
  have "feed l (writeFileItem_extra cf (extra_str kvs) @ s) d e FileListParser_init = feed l (CHR 0x0A # s) ?d e ?p"
    using True by (simp add: writeFileItem_extra_def FileListParser_init_def nextEntry_def Let_def)
  also have "\<dots> = map_option (add_entry (read_back cf d) (read_extra cf kvs e)) (feed l s (read_back cf d) (read_extra cf kvs e) FileListParser_init)"
    by (rule feed_entry)
      (use True in \<open>cases d, simp add: nextEntry_def Let_def entry_done_def parser_reset_eq read_back_def read_extra_def extra_clear_def\<close>)
  finally show ?thesis .
next
  case False
  let ?x = "(if kvs = [] then [] else CHR ''#'' # param_str kvs) @ CHR 0x0A # s"
  let ?t = "convert_int64 (last_modified cf) @ ?x"
  let ?sz = "if isdir cf then 0 else fsize cf"
  have z: "convert_int64 0 = ''0''" by (simp add: convert_int64_def digits.simps char_of_eq_iff)
  let ?q = "[CHR 0x22] @ escapeListName (name cf) @ [CHR 0x22] @ '' '' @ convert_int64 ?sz @ '' '' @ ?t"
  let ?p1 = "\<lparr>pstate = ParseState_Quote, t_name = [], ppos = 1\<rparr>" and ?d1 = "d\<lparr>isdir := isdir cf\<rparr>" and ?d2 = "d\<lparr>isdir := isdir cf, name := name cf\<rparr>"
  have 0: "writeFileItem_extra cf (extra_str kvs) @ s = (if isdir cf then CHR ''d'' else CHR ''f'') # ?q"
    using False z by (auto simp: writeFileItem_extra_def item_head_def extra_str_def Let_def)
  have 1: "feed l (writeFileItem_extra cf (extra_str kvs) @ s) d e FileListParser_init = feed l ?q ?d1 e ?p1"
    unfolding 0 by (rule feed_more) (simp add: nextEntry_def Let_def FileListParser_init_def)
  have "\<exists>n. feed l ?q ?d1 e ?p1 = feed l (convert_int64 ?sz @ '' '' @ ?t) (?d1\<lparr>name := name cf\<rparr>) e \<lparr>pstate = ParseState_Filesize, t_name = [], ppos = n\<rparr>"
    by (rule feed_quoted) (use False in auto)
  then obtain n where 2: "feed l ?q ?d1 e ?p1 = feed l (convert_int64 ?sz @ '' '' @ ?t) ?d2 e \<lparr>pstate = ParseState_Filesize, t_name = [], ppos = n\<rparr>"
    by auto
  have "\<exists>m. feed l (convert_int64 ?sz @ '' '' @ ?t) ?d2 e \<lparr>pstate = ParseState_Filesize, t_name = [], ppos = n\<rparr> =
      feed l ?t (?d2\<lparr>fsize := ?sz\<rparr>) e \<lparr>pstate = ParseState_ModifiedTime, t_name = [], ppos = m\<rparr>"
    by (rule feed_size) (use assms in \<open>auto simp: item_ok_def int64_min_def int64_max_def\<close>)
  then obtain m where 3: "feed l (convert_int64 ?sz @ '' '' @ ?t) ?d2 e \<lparr>pstate = ParseState_Filesize, t_name = [], ppos = n\<rparr> =
      feed l ?t (d\<lparr>isdir := isdir cf, name := name cf, fsize := ?sz\<rparr>) e \<lparr>pstate = ParseState_ModifiedTime, t_name = [], ppos = m\<rparr>"
    by auto
  have 4: "feed l ?t (d\<lparr>isdir := isdir cf, name := name cf, fsize := ?sz\<rparr>) e \<lparr>pstate = ParseState_ModifiedTime, t_name = [], ppos = m\<rparr> =
      map_option (add_entry (read_back cf d) (read_extra cf kvs e)) (feed l s (read_back cf d) (read_extra cf kvs e) FileListParser_init)"
  proof -
    have "(d\<lparr>isdir := isdir cf, name := name cf, fsize := ?sz\<rparr>)\<lparr>last_modified := last_modified cf\<rparr> = read_back cf d"
      using False by (cases d) (auto simp: read_back_def)
    moreover have "map_option (\<lambda>_. map_of kvs) e = read_extra cf kvs e" using False by (auto simp: read_extra_def)
    ultimately show ?thesis
      using feed_time [of "\<lparr>pstate = ParseState_ModifiedTime, t_name = [], ppos = m\<rparr>" "last_modified cf" kvs l s] assms
      by (simp add: item_ok_def Let_def)
  qed
  show ?thesis unfolding 1 2 3 4 ..
qed

definition item_str :: "SFile \<times> (string \<times> string) list \<Rightarrow> string" where
  "item_str = (\<lambda>(cf, kvs). writeFileItem_extra cf (extra_str kvs))"

text \<open>The fields of an entry that the list carries.\<close>

definition entry_view :: "SFile \<times> extra_map \<Rightarrow> bool \<times> string \<times> int \<times> int \<times> extra_map" where
  "entry_view = (\<lambda>(d, e). (isdir d, name d, fsize d, last_modified d, e))"

definition item_view :: "SFile \<times> (string \<times> string) list \<Rightarrow> bool \<times> string \<times> int \<times> int \<times> extra_map" where
  "item_view = (\<lambda>(cf, kvs).
     if isdir cf \<and> name cf = ''..'' then (True, ''..'', 0, 0, Some Map.empty)
     else (isdir cf, name cf, if isdir cf then 0 else fsize cf, last_modified cf, Some (map_of kvs)))"

lemma view_read_back: "entry_view (read_back cf d, read_extra cf kvs (Some m)) = item_view (cf, kvs)"
  by (auto simp: entry_view_def item_view_def read_back_def read_extra_def)

lemma feed_items:
  "list_all item_ok items \<Longrightarrow>
   \<exists>r. feed l (concat (map item_str items)) d (Some m) FileListParser_init = Some r \<and>
     map entry_view (entries r) = map item_view items \<and> errors r = [] \<and> fparser r = FileListParser_init"
proof (induction items arbitrary: d m)
  case (Cons it items)
  obtain cf kvs where it: "it = (cf, kvs)" by (cases it)
  have ok: "item_ok (cf, kvs)" "list_all item_ok items" using Cons.prems it by auto
  obtain m' where m': "read_extra cf kvs (Some m) = Some m'" by (simp add: read_extra_def)
  obtain r where r: "feed l (concat (map item_str items)) (read_back cf d) (Some m') FileListParser_init = Some r"
    "map entry_view (entries r) = map item_view items" "errors r = []" "fparser r = FileListParser_init"
    using Cons.IH [OF ok(2)] by blast
  have "feed l (concat (map item_str (it # items))) d (Some m) FileListParser_init = Some (add_entry (read_back cf d) (Some m') r)"
    using feed_item [OF ok(1), of l "concat (map item_str items)" d "Some m"] r(1) m' it by (simp add: item_str_def)
  then show ?case using r view_read_back [of cf d kvs m] m' it by (intro exI [of _ "add_entry (read_back cf d) (Some m') r"]) (simp add: add_entry_def)
qed simp

lemma feed_inv: "parser_inv p \<Longrightarrow> \<exists>r. feed l s d e p = Some r \<and> parser_inv (fparser r)"
proof (induction s arbitrary: d e p)
  case (Cons c s)
  obtain res d' e' p' where n: "nextEntry l c d e p = Some (res, d', e', p')" "parser_inv p'" using nextEntry_inv [OF Cons.prems] by blast
  obtain r where "feed l s d' e' p' = Some r" "parser_inv (fparser r)" using Cons.IH [OF n(2)] by blast
  then show ?case using n by (cases res) auto
qed simp

lemma writeFileRepeat_loop_eq:
  "written < length buf \<Longrightarrow> length buf < 2 ^ 32 \<Longrightarrow> length buf \<le> written + sum_list accepted \<Longrightarrow>
   writeFileRepeat_loop accepted buf written f = Some (f @ drop written buf)"
proof (induction accepted arbitrary: written f)
  case (Cons a accepted)
  have u: "u32n (length buf - written) = length buf - written" "u32n (written + min a (length buf - written)) = written + min a (length buf - written)"
    using Cons.prems by (auto intro!: u32n_id)
  show ?case
  proof (cases "written + a < length buf")
    case True
    then have m: "min a (length buf - written) = a" by simp
    have "writeFileRepeat_loop accepted buf (written + a) (f @ take a (drop written buf)) = Some ((f @ take a (drop written buf)) @ drop (written + a) buf)"
      by (rule Cons.IH) (use Cons.prems True in auto)
    moreover have "take a (drop written buf) @ drop (written + a) buf = drop written buf"
      using append_take_drop_id [of a "drop written buf"] by (simp add: add.commute)
    ultimately show ?thesis using True u m by (simp add: Let_def)
  next
    case False
    then have m: "min a (length buf - written) = length buf - written" by simp
    have "take (length buf - written) (drop written buf) = drop written buf" by simp
    then show ?thesis using u Cons.prems(1) unfolding writeFileRepeat_loop.simps Let_def u m by simp
  qed
qed simp

subsection \<open>Properties\<close>

text \<open>C16. A file list that was written item by item, with extra parameters, is parsed back to the same items in the same order:
  type, name (any characters), size, modification time and parameters; nothing is reported as unexpected and the parser ends in
  its initial state. A directory has size 0, and \<open>..\<close> carries neither time nor parameters.\<close>
theorem file_list_roundtrip:
  assumes "list_all item_ok items"
  shows "\<exists>r. feed l (concat (map item_str items)) d (Some m) FileListParser_init = Some r \<and>
    map entry_view (entries r) = map item_view items \<and> errors r = [] \<and> fparser r = FileListParser_init"
  by (rule feed_items [OF assms])

theorem file_list_roundtrip_witness:
  "\<exists>r. feed id (''f'' @ [CHR 0x22] @ ''a'' @ [CHR 0x5C, CHR 0x22] @ ''b'' @ [CHR 0x22] @ '' 12 -3#k=v%26'' @ [CHR 0x0A]) SFile_init (Some Map.empty) FileListParser_init = Some r \<and>
     map entry_view (entries r) = [(False, ''a'' @ [CHR 0x22] @ ''b'', 12, - 3, Some [''k'' \<mapsto> ''v&''])]"
proof -
  let ?cf = "SFile_init\<lparr>name := ''a'' @ [CHR 0x22] @ ''b'', fsize := 12, last_modified := - 3\<rparr>" and ?kvs = "[(''k'', ''v&'')]"
  have ok: "list_all item_ok [(?cf, ?kvs)]" by (simp add: item_ok_def extra_ok_def int64_min_def int64_max_def)
  have d: "convert_int64 12 = ''12''" "convert_int64 (- 3) = ''-3''" by code_simp+
  have s: "concat (map item_str [(?cf, ?kvs)]) = ''f'' @ [CHR 0x22] @ ''a'' @ [CHR 0x5C, CHR 0x22] @ ''b'' @ [CHR 0x22] @ '' 12 -3#k=v%26'' @ [CHR 0x0A]"
    by (simp add: item_str_def writeFileItem_extra_def item_head_def d escapeListName_def extra_str_def EscapeParamString_def SFile_init_def)
  have v: "map item_view [(?cf, ?kvs)] = [(False, ''a'' @ [CHR 0x22] @ ''b'', 12, - 3, Some [''k'' \<mapsto> ''v&''])]"
    by (simp add: item_view_def SFile_init_def)
  show ?thesis using file_list_roundtrip [OF ok, of id SFile_init Map.empty] unfolding s v by (elim exE conjE) (intro exI conjI)
qed

text \<open>C27. Whatever characters it is given, the parser never throws (\<open>erase\<close> is only called on a name that ends with the closing quote)
  and its invariant holds after every prefix of the input.\<close>
theorem nextEntry_never_throws:
  "\<exists>r. feed l s d e FileListParser_init = Some r \<and>
     (pstate (fparser r) = ParseState_NameFinish \<longrightarrow> t_name (fparser r) \<noteq> [] \<and> last (t_name (fparser r)) = CHR 0x22)"
  using feed_inv [OF parser_inv_init, of l s d e] unfolding parser_inv_def by blast

theorem nextEntry_never_throws_witness:
  "\<exists>r. feed id (''fx'' @ [CHR 0x22]) SFile_init None FileListParser_init = Some r \<and>
     pstate (fparser r) = ParseState_NameFinish \<and> last (t_name (fparser r)) = CHR 0x22"
proof -
  have "pstate (fparser r) = ParseState_NameFinish" if "feed id (''fx'' @ [CHR 0x22]) SFile_init None FileListParser_init = Some r" for r
    using that by (auto simp: nextEntry_def Let_def FileListParser_init_def name_char_def)
  then show ?thesis using nextEntry_never_throws [of id "''fx'' @ [CHR 0x22]" SFile_init None] by blast
qed

text \<open>C31. \<open>writeFileRepeat\<close> writes a buffer (of 1 byte to 4 GiB) exactly once and in order, however the file splits it into partial
  writes and however often a write fails, as soon as the accepted bytes suffice.\<close>
theorem writeFileRepeat_correct:
  assumes "buf \<noteq> []" "length buf < 2 ^ 32" "length buf \<le> sum_list accepted"
  shows "writeFileRepeat accepted buf f = Some (f @ buf)"
  using writeFileRepeat_loop_eq [of 0 buf accepted f] assms by (simp add: writeFileRepeat_def)

theorem writeFileRepeat_correct_witness: "writeFileRepeat [0, 2, 0, 5] ''abc'' ''x'' = Some ''xabc''"
  using writeFileRepeat_correct [of "''abc''" "[0, 2, 0, 5]" "''x''"] by simp

text \<open>The item written without extra parameters is the same text; the byte count grows by its length, and the reported offset is
  where the modification time (the change indicator) starts.\<close>
lemma writeFileItem_offset:
  "case writeFileItem cf written (Some off) of (s, n, off') \<Rightarrow>
     s = writeFileItem_extra cf [] \<and> n = written + length s \<and>
     (if isdir cf \<and> name cf = ''..'' then off' = Some off
      else \<exists>k. off' = Some k \<and> drop k s = convert_int64 (last_modified cf) @ [CHR 0x0A])"
  by (simp add: writeFileItem_def writeFileItem_extra_def Let_def)

end
