(* ===== verification/Std_Map.thy ===== *)
theory Std_Map
  imports Prelude
begin

text \<open>
  \<open>std::map\<close> with a comparison function, as the list of its entries in order. Two keys are the same when neither is less than the
  other. The contract \<open>key_order\<close> is what the comparison has to satisfy on the keys in use; the lemmas are proved once for every
  comparison that does.
\<close>

type_synonym ('k, 'v) smap = "('k \<times> 'v) list"

definition map_lower :: "('k \<Rightarrow> 'k \<Rightarrow> bool) \<Rightarrow> 'k \<Rightarrow> ('k, 'v) smap \<Rightarrow> ('k, 'v) smap" where
  "map_lower lt k m = dropWhile (\<lambda>(k', v). lt k' k) m"

definition map_find :: "('k \<Rightarrow> 'k \<Rightarrow> bool) \<Rightarrow> 'k \<Rightarrow> ('k, 'v) smap \<Rightarrow> 'v option" where
  "map_find lt k m = (case map_lower lt k m of [] \<Rightarrow> None | (k', v) # _ \<Rightarrow> if lt k k' then None else Some v)"

text \<open>\<open>m[k] = v\<close>.\<close>

fun map_put :: "('k \<Rightarrow> 'k \<Rightarrow> bool) \<Rightarrow> 'k \<Rightarrow> 'v \<Rightarrow> ('k, 'v) smap \<Rightarrow> ('k, 'v) smap" where
  "map_put lt k v [] = [(k, v)]"
| "map_put lt k v ((k', v') # m) =
     (if lt k' k then (k', v') # map_put lt k v m else if lt k k' then (k, v) # (k', v') # m else (k', v) # m)"

definition smap_ok :: "('k \<Rightarrow> 'k \<Rightarrow> bool) \<Rightarrow> ('k \<Rightarrow> bool) \<Rightarrow> ('k, 'v) smap \<Rightarrow> bool" where
  "smap_ok lt ok m \<longleftrightarrow> sorted_wrt (\<lambda>a b. lt (fst a) (fst b)) m \<and> (\<forall>e \<in> set m. ok (fst e))"

locale key_order =
  fixes lt :: "'k \<Rightarrow> 'k \<Rightarrow> bool"
    and ok :: "'k \<Rightarrow> bool"
  assumes lt_irrefl: "\<not> lt a a"
    and lt_trans: "ok a \<Longrightarrow> ok b \<Longrightarrow> ok c \<Longrightarrow> lt a b \<Longrightarrow> lt b c \<Longrightarrow> lt a c"
    and lt_total: "ok a \<Longrightarrow> ok b \<Longrightarrow> \<not> lt a b \<Longrightarrow> \<not> lt b a \<Longrightarrow> a = b"
begin

lemma map_ok_Nil [simp]: "smap_ok lt ok []"
  by (simp add: smap_ok_def)

lemma map_ok_Cons: "smap_ok lt ok ((k, v) # m) \<longleftrightarrow> ok k \<and> smap_ok lt ok m \<and> (\<forall>e \<in> set m. lt k (fst e))"
  by (auto simp: smap_ok_def)

lemma lt_asym: "ok a \<Longrightarrow> ok b \<Longrightarrow> lt a b \<Longrightarrow> \<not> lt b a"
  using lt_irrefl lt_trans by blast

lemma map_of_None: "(\<forall>e \<in> set m. lt k (fst e)) \<Longrightarrow> map_of m k = None"
  using lt_irrefl by (auto simp: map_of_eq_None_iff)

lemma map_find_eq: "smap_ok lt ok m \<Longrightarrow> ok k \<Longrightarrow> map_find lt k m = map_of m k"
proof (induction m)
  case (Cons e m)
  obtain k' v where e: "e = (k', v)" by (cases e)
  have hyp: "ok k'" "smap_ok lt ok m" "\<forall>e \<in> set m. lt k' (fst e)" using Cons.prems e by (auto simp: map_ok_Cons)
  consider "lt k' k" | "lt k k'" | "k = k'" using lt_total hyp(1) Cons.prems(2) by blast
  then show ?case
  proof cases
    case 1
    then show ?thesis using Cons.IH hyp Cons.prems(2) e lt_irrefl by (auto simp: map_find_def map_lower_def)
  next
    case 2
    moreover have "map_of m k = None"
    proof (rule map_of_None, rule ballI)
      fix x assume "x \<in> set m"
      then show "lt k (fst x)" using hyp 2 lt_trans [of k k' "fst x"] Cons.prems(2) by (auto simp: smap_ok_def)
    qed
    ultimately show ?thesis using e lt_asym [OF Cons.prems(2) hyp(1)] lt_irrefl by (auto simp: map_find_def map_lower_def)
  next
    case 3
    then show ?thesis using e lt_irrefl by (auto simp: map_find_def map_lower_def)
  qed
qed (simp add: map_find_def map_lower_def)

lemma set_map_put: "e \<in> set (map_put lt k v m) \<Longrightarrow> e \<in> set m \<or> fst e = k \<or> fst e \<in> fst ` set m"
  by (induction m) (auto split: if_splits)

lemma map_put_ok: "smap_ok lt ok m \<Longrightarrow> ok k \<Longrightarrow> smap_ok lt ok (map_put lt k v m)"
proof (induction m)
  case (Cons e m)
  obtain k' v' where e: "e = (k', v')" by (cases e)
  have hyp: "ok k'" "smap_ok lt ok m" "\<forall>e \<in> set m. lt k' (fst e)" using Cons.prems e by (auto simp: map_ok_Cons)
  show ?case
  proof (cases "lt k' k")
    case True
    have "lt k' (fst x)" if "x \<in> set (map_put lt k v m)" for x using set_map_put [OF that] hyp(3) True by auto
    then show ?thesis using True e Cons hyp by (simp add: map_ok_Cons)
  next
    case False
    have "lt k (fst x)" if "lt k k'" "x \<in> set m" for x using that hyp lt_trans [of k k' "fst x"] Cons.prems(2) by (auto simp: smap_ok_def)
    then show ?thesis using False e Cons.prems hyp by (auto simp: map_ok_Cons)
  qed
qed (simp add: map_ok_Cons)

lemma map_of_put: "smap_ok lt ok m \<Longrightarrow> ok k \<Longrightarrow> map_of (map_put lt k v m) = (map_of m)(k \<mapsto> v)"
proof (induction m)
  case (Cons e m)
  obtain k' v' where e: "e = (k', v')" by (cases e)
  have hyp: "ok k'" "smap_ok lt ok m" using Cons.prems e by (auto simp: map_ok_Cons)
  consider "lt k' k" | "lt k k'" | "k = k'" using lt_total hyp(1) Cons.prems(2) by blast
  then show ?case
    by cases (rule ext, use Cons hyp e lt_irrefl lt_asym in \<open>auto simp: fun_upd_def\<close>)+
qed simp

lemma map_lower_split:
  assumes "smap_ok lt ok m" "ok k"
  shows "\<exists>pre. m = pre @ map_lower lt k m \<and> (\<forall>e \<in> set pre. lt (fst e) k) \<and> (\<forall>e \<in> set (map_lower lt k m). \<not> lt (fst e) k)"
proof (intro exI [of _ "takeWhile (\<lambda>(k', v). lt k' k) m"] conjI ballI)
  show "m = takeWhile (\<lambda>(k', v). lt k' k) m @ map_lower lt k m" by (simp add: map_lower_def)
  show "lt (fst e) k" if "e \<in> set (takeWhile (\<lambda>(k', v). lt k' k) m)" for e using set_takeWhileD [OF that] by auto
  show "\<not> lt (fst e) k" if "e \<in> set (map_lower lt k m)" for e
    using assms that
  proof (induction m)
    case (Cons a m)
    have "lt (fst e) k \<Longrightarrow> e \<in> set m \<Longrightarrow> lt (fst a) k"
      using Cons.prems(1,2) lt_trans [of "fst a" "fst e" k] by (cases a) (auto simp: map_ok_Cons smap_ok_def)
    then show ?case using Cons lt_irrefl by (cases a) (auto simp: map_lower_def map_ok_Cons split: if_splits)
  qed (simp add: map_lower_def)
qed

lemma map_ok_distinct: "smap_ok lt ok m \<Longrightarrow> distinct (map fst m)"
  by (induction m) (use lt_irrefl in \<open>auto simp: map_ok_Cons image_iff\<close>, metis fst_conv lt_irrefl)

end

end
