(* ===== verification/Index_Key.thy ===== *)
theory Index_Key
  imports Data_Stream Std_Map LMDB_Search
begin

text \<open>
  The key of the file-entry index, \<open>FileIndex::SIndexKey\<close> of \<^verbatim>\<open>src/urbackupserver/FileIndex.h\<close>: the packed bytes of a hash prefix, a
  file size and a client id, the integers stored big endian so that the order of \<open>memcmp\<close> is the order of the values.
\<close>

definition bytes_in_index :: nat where
  "bytes_in_index = 16"

record SIndexKey =
  khash :: "byte list"
  kfilesize :: u64
  kclientid :: u32

text \<open>The constructors; \<open>None\<close> is a failed assertion or a hash shorter than 16 bytes.\<close>

definition SIndexKey_new :: "bool \<Rightarrow> byte list \<Rightarrow> u64 \<Rightarrow> u32 \<Rightarrow> SIndexKey option" where
  "SIndexKey_new be thash pfilesize pclientid =
     (if sint pfilesize \<ge> 0 \<and> sint pclientid \<ge> 0
      then do { h \<leftarrow> rdb thash 0 bytes_in_index;
                Some \<lparr>khash = h, kfilesize = big_endian64 be pfilesize, kclientid = big_endian32 be pclientid\<rparr> }
      else None)"

definition SIndexKey_file :: "bool \<Rightarrow> byte list \<Rightarrow> u64 \<Rightarrow> SIndexKey option" where
  "SIndexKey_file be thash pfilesize =
     (if sint pfilesize \<ge> 0
      then do { h \<leftarrow> rdb thash 0 bytes_in_index;
                Some \<lparr>khash = h, kfilesize = big_endian64 be pfilesize, kclientid = 0\<rparr> }
      else None)"

definition SIndexKey_zero :: SIndexKey where
  "SIndexKey_zero = \<lparr>khash = replicate bytes_in_index 0, kfilesize = 0, kclientid = 0\<rparr>"

text \<open>The 28 bytes of a packed key in memory, and the key at a pointer.\<close>

definition key_bytes :: "bool \<Rightarrow> SIndexKey \<Rightarrow> byte list" where
  "key_bytes be k = khash k @ host_bytes be 8 (unat (kfilesize k)) @ host_bytes be 4 (unat (kclientid k))"

definition key_at :: "bool \<Rightarrow> byte list \<Rightarrow> SIndexKey option" where
  "key_at be bs =
     (if length bs < 28 then None
      else Some \<lparr>khash = take 16 bs, kfilesize = of_nat (host_nat be (bslice bs 16 8)), kclientid = of_nat (host_nat be (bslice bs 24 4))\<rparr>)"

definition key_eq :: "SIndexKey \<Rightarrow> SIndexKey \<Rightarrow> bool" where
  "key_eq a b \<longleftrightarrow> memcmp (khash a) (khash b) = 0 \<and> kfilesize a = kfilesize b \<and> kclientid a = kclientid b"

definition key_less :: "bool \<Rightarrow> SIndexKey \<Rightarrow> SIndexKey \<Rightarrow> bool" where
  "key_less be a b \<longleftrightarrow> memcmp (key_bytes be a) (key_bytes be b) < 0"

definition isEqualWithoutClientid :: "SIndexKey \<Rightarrow> SIndexKey \<Rightarrow> bool" where
  "isEqualWithoutClientid a b \<longleftrightarrow> memcmp (khash a) (khash b) = 0 \<and> kfilesize a = kfilesize b"

definition getFilesize :: "bool \<Rightarrow> SIndexKey \<Rightarrow> u64" where
  "getFilesize be k = big_endian64 be (kfilesize k)"

definition getClientid :: "bool \<Rightarrow> SIndexKey \<Rightarrow> u32" where
  "getClientid be k = big_endian32 be (kclientid k)"

definition key_wf :: "SIndexKey \<Rightarrow> bool" where
  "key_wf k \<longleftrightarrow> length (khash k) = bytes_in_index"

lemma length_host_bytes [simp]: "length (host_bytes be n v) = n"
  by (simp add: host_bytes_def)

lemma length_key_bytes: "key_wf k \<Longrightarrow> length (key_bytes be k) = 28"
  by (simp add: key_wf_def key_bytes_def bytes_in_index_def)

lemma host_nat_host_bytes:
  "of_nat (host_nat be (host_bytes be 4 (unat a))) = (a :: u32)" "of_nat (host_nat be (host_bytes be 8 (unat c))) = (c :: u64)"
  by (simp_all add: host_nat_def host_bytes_def le_nat_word)

lemma key_at_bytes: "key_wf k \<Longrightarrow> key_at be (key_bytes be k @ rest) = Some k"
  using host_nat_host_bytes(1) [of be "kclientid k"] host_nat_host_bytes(2) [of be "kfilesize k"]
  by (cases k) (simp add: key_at_def key_bytes_def key_wf_def bytes_in_index_def bslice_def)

lemma key_bytes_inj: "key_wf a \<Longrightarrow> key_wf b \<Longrightarrow> key_bytes be a = key_bytes be b \<Longrightarrow> a = b"
  using key_at_bytes [of a be "[]"] key_at_bytes [of b be "[]"] by simp

subsection \<open>Order\<close>

lemma key_less_bytes:
  assumes "key_wf a" "key_wf b"
  shows "key_less be a b \<longleftrightarrow> key_bytes be a < key_bytes be b"
proof -
  have "memcmp (key_bytes be a) (key_bytes be b) =
      (if key_bytes be a < key_bytes be b then - 1 else if key_bytes be a = key_bytes be b then 0 else 1)"
    using length_key_bytes assms by (intro memcmp_eq) simp
  then show ?thesis by (simp add: key_less_def)
qed

lemma memcmp_refl: "memcmp a a = 0"
  by (induction a) auto

lemma memcmp_trans: "memcmp a b < 0 \<Longrightarrow> memcmp b c < 0 \<Longrightarrow> length a = length b \<Longrightarrow> length b = length c \<Longrightarrow> memcmp a c < 0"
  using memcmp_eq [of a b] memcmp_eq [of b c] memcmp_eq [of a c] by (auto split: if_splits)

lemma memcmp_0: "length a = length b \<Longrightarrow> memcmp a b = 0 \<longleftrightarrow> a = b"
  by (simp add: memcmp_eq)

text \<open>Big-endian digits compare like the numbers.\<close>

lemma append1_less: "length xs = length ys \<Longrightarrow> xs @ [x] < ys @ [y] \<longleftrightarrow> xs < ys \<or> xs = ys \<and> x < (y :: byte)"
  by (induction xs ys rule: list_induct2) auto

lemma less_div_mod: "a < b \<longleftrightarrow> a div d < b div d \<or> a div d = b div d \<and> a mod d < b mod (d :: nat)"
proof (cases "a div d" "b div d" rule: linorder_cases)
  case less
  then show ?thesis using div_le_mono [of b a d] by (meson leD leI)
next
  case equal
  then show ?thesis using div_mult_mod_eq [of a d] div_mult_mod_eq [of b d] by (metis less_irrefl nat_add_left_cancel_less)
next
  case greater
  then have "\<not> a < b" using div_le_mono [of a b d] by linarith
  then show ?thesis using greater by simp
qed

lemma be_less: "a < 256 ^ n \<Longrightarrow> b < 256 ^ n \<Longrightarrow> rev (enc_le n a) < rev (enc_le n b) \<longleftrightarrow> a < b"
proof (induction n arbitrary: a b)
  case (Suc n)
  have lt: "a div 256 < 256 ^ n" "b div 256 < 256 ^ n" using Suc.prems by (simp_all add: less_mult_imp_div_less mult.commute)
  have eq: "rev (enc_le n (a div 256)) = rev (enc_le n (b div 256)) \<longleftrightarrow> a div 256 = b div 256"
    by (metis le_nat_enc_le lt mod_less rev_is_rev_conv)
  have "(of_nat a :: byte) < of_nat b \<longleftrightarrow> a mod 256 < b mod 256" by (simp add: word_less_nat_alt unat_of_nat)
  moreover have "a < b \<longleftrightarrow> a div 256 < b div 256 \<or> a div 256 = b div 256 \<and> a mod 256 < b mod 256"
    by (rule less_div_mod)
  ultimately show ?case using Suc.IH [OF lt] eq by (simp add: append1_less)
qed simp

lemma host_bytes_big_endian:
  "host_bytes be 4 (unat (big_endian32 be a)) = rev (enc_le 4 (unat a))"
  "host_bytes be 8 (unat (big_endian64 be c)) = rev (enc_le 8 (unat c))"
  by (simp_all add: host_bytes_def big_endian32_def big_endian64_def enc_swap)

lemma append_less: "length xs = length ys \<Longrightarrow> xs @ us < ys @ vs \<longleftrightarrow> xs < ys \<or> xs = ys \<and> us < (vs :: byte list)"
  by (induction xs ys rule: list_induct2) auto

lemma big_endian_twice [simp]: "big_endian32 be (big_endian32 be a) = a" "big_endian64 be (big_endian64 be c) = c"
  by (simp_all add: big_endian32_def big_endian64_def)

text \<open>A key is determined by its hash and the values of its numbers.\<close>

lemma key_bytes_values:
  "key_bytes be k = khash k @ rev (enc_le 8 (unat (getFilesize be k))) @ rev (enc_le 4 (unat (getClientid be k)))"
  using host_bytes_big_endian(1) [of be "getClientid be k"] host_bytes_big_endian(2) [of be "getFilesize be k"]
  by (simp add: key_bytes_def getFilesize_def getClientid_def)

lemma key_less_values:
  assumes "key_wf a" "key_wf b"
  shows "key_less be a b \<longleftrightarrow> khash a < khash b \<or> khash a = khash b \<and>
    (getFilesize be a < getFilesize be b \<or> getFilesize be a = getFilesize be b \<and> getClientid be a < getClientid be b)"
proof -
  have l: "length (khash a) = length (khash b)" using assms by (simp add: key_wf_def)
  have f: "rev (enc_le 8 (unat x)) < rev (enc_le 8 (unat y)) \<longleftrightarrow> x < y" for x y :: u64
    using be_less [of "unat x" 8 "unat y"] unat_u64_less [of x] unat_u64_less [of y] by (simp add: word_less_nat_alt)
  have c: "rev (enc_le 4 (unat x)) < rev (enc_le 4 (unat y)) \<longleftrightarrow> x < y" for x y :: u32
    using be_less [of "unat x" 4 "unat y"] unat_u32_less [of x] unat_u32_less [of y] by (simp add: word_less_nat_alt)
  have e: "rev (enc_le 8 (unat x)) = rev (enc_le 8 (unat y)) \<longleftrightarrow> x = y" for x y :: u64
    using f [of x y] f [of y x] by (metis less_irrefl not_less_iff_gr_or_eq)
  show ?thesis unfolding key_less_bytes [OF assms] key_bytes_values
    by (simp only: append_less [OF l] append_less length_rev length_enc_le f c e)
qed

interpretation index_key: key_order "key_less be" key_wf
proof
  show "\<not> key_less be a a" for a by (simp add: key_less_def memcmp_refl)
  show "key_less be a c" if "key_wf a" "key_wf b" "key_wf c" "key_less be a b" "key_less be b c" for a b c
    using that unfolding key_less_bytes [OF that(1,2)] key_less_bytes [OF that(2,3)] key_less_bytes [OF that(1,3)] by order
  show "a = b" if "key_wf a" "key_wf b" "\<not> key_less be a b" "\<not> key_less be b a" for a b
  proof (rule key_bytes_inj [OF that(1,2)])
    show "key_bytes be a = key_bytes be b" using that(3,4) unfolding key_less_bytes [OF that(1,2)] key_less_bytes [OF that(2,1)] by order
  qed
qed

end
