(* ===== verification/File_Index.thy ===== *)
theory File_Index
  imports Index_Key
begin

text \<open>
  The write-back cache of the file-entry index (\<^verbatim>\<open>src/urbackupserver/FileIndex.cpp\<close>): two buffers, of which one takes the delayed
  writes and the other is being written by the index thread. The value 0 in a buffer marks a deletion. The index behind the
  cache is its content, a map from keys to non-zero entry ids, reached through the virtual methods of \<open>FileIndex\<close>.
\<close>

type_synonym cache = "(SIndexKey, int) smap"
type_synonym index = "SIndexKey \<rightharpoonup> int"

definition max_buffer_size :: nat where
  "max_buffer_size = 100000"

text \<open>What the index thread is doing: waiting, between taking a buffer and committing it, or between the commit and the clearing of
  the buffer.\<close>

datatype wphase = Idle | Writing | Committed

record file_index =
  cache_buffer_1 :: cache
  cache_buffer_2 :: cache
  active_is_1 :: bool
  do_shutdown :: bool
  do_flush :: bool
  do_accept :: bool
  phase :: wphase
  store :: index

definition active_cache_buffer :: "file_index \<Rightarrow> cache" where
  "active_cache_buffer s = (if active_is_1 s then cache_buffer_1 s else cache_buffer_2 s)"

definition other_cache_buffer :: "file_index \<Rightarrow> cache" where
  "other_cache_buffer s = (if active_is_1 s then cache_buffer_2 s else cache_buffer_1 s)"

definition set_active :: "cache \<Rightarrow> file_index \<Rightarrow> file_index" where
  "set_active c s = (if active_is_1 s then s\<lparr>cache_buffer_1 := c\<rparr> else s\<lparr>cache_buffer_2 := c\<rparr>)"

definition set_other :: "cache \<Rightarrow> file_index \<Rightarrow> file_index" where
  "set_other c s = (if active_is_1 s then s\<lparr>cache_buffer_2 := c\<rparr> else s\<lparr>cache_buffer_1 := c\<rparr>)"

definition file_index_init :: file_index where
  "file_index_init = \<lparr>cache_buffer_1 = [], cache_buffer_2 = [], active_is_1 = True, do_shutdown = False, do_flush = False, do_accept = True,
     phase = Idle, store = Map.empty\<rparr>"

subsection \<open>Writing\<close>

text \<open>\<open>None\<close>: the caller has to wait.\<close>

definition put_delayed :: "bool \<Rightarrow> SIndexKey \<Rightarrow> int \<Rightarrow> file_index \<Rightarrow> file_index option" where
  "put_delayed be key v s =
     (if length (active_cache_buffer s) \<ge> max_buffer_size \<or> \<not> do_accept s then None
      else Some (set_active (map_put (key_less be) key v (active_cache_buffer s)) s))"

definition del_delayed :: "bool \<Rightarrow> SIndexKey \<Rightarrow> file_index \<Rightarrow> file_index option" where
  "del_delayed be key s = put_delayed be key 0 s"

definition shutdown :: "file_index \<Rightarrow> file_index" where
  "shutdown s = s\<lparr>do_shutdown := True\<rparr>"

definition request_flush :: "file_index \<Rightarrow> file_index" where
  "request_flush s = s\<lparr>do_flush := True\<rparr>"

definition stop_accept :: "file_index \<Rightarrow> file_index" where
  "stop_accept s = s\<lparr>do_accept := False\<rparr>"

subsection \<open>The index thread\<close>

definition writer_finished :: "file_index \<Rightarrow> bool" where
  "writer_finished s \<longleftrightarrow> do_shutdown s \<and> cache_buffer_1 s = [] \<and> cache_buffer_2 s = []"

text \<open>One turn of the waiting loop: it goes on while there is nothing to write.\<close>

definition writer_wait :: "file_index \<Rightarrow> file_index option" where
  "writer_wait s = (if active_cache_buffer s = [] \<and> \<not> do_shutdown s then Some (s\<lparr>do_flush := False\<rparr>) else None)"

text \<open>Taking the active buffer: the roles of the buffers are exchanged.\<close>

definition writer_take :: "file_index \<Rightarrow> file_index" where
  "writer_take s = s\<lparr>active_is_1 := \<not> active_is_1 s, phase := Writing\<rparr>"

text \<open>The transaction: put or delete every entry of the taken buffer, in order.\<close>

definition apply_entry :: "SIndexKey \<times> int \<Rightarrow> index \<Rightarrow> index" where
  "apply_entry = (\<lambda>(k, v) m. if v \<noteq> 0 then m(k \<mapsto> v) else m(k := None))"

definition writer_commit :: "file_index \<Rightarrow> file_index" where
  "writer_commit s = s\<lparr>store := fold apply_entry (other_cache_buffer s) (store s), phase := Committed\<rparr>"

definition writer_clear :: "file_index \<Rightarrow> file_index" where
  "writer_clear s = (set_other [] s)\<lparr>do_flush := False, phase := Idle\<rparr>"

subsection \<open>Reading\<close>

definition get_from_cache :: "bool \<Rightarrow> SIndexKey \<Rightarrow> cache \<Rightarrow> int option" where
  "get_from_cache be key c =
     (case map_lower (key_less be) key c of
        [] \<Rightarrow> None
      | (k, v) # _ \<Rightarrow> if isEqualWithoutClientid k key then Some v else None)"

text \<open>The iterator \<open>start_it\<close> is the position \<open>n\<close> of the lower bound.\<close>

definition get_from_cache_prefer_client :: "bool \<Rightarrow> SIndexKey \<Rightarrow> cache \<Rightarrow> int option" where
  "get_from_cache_prefer_client be key c =
     (let n = length c - length (map_lower (key_less be) key c) in
      if n \<noteq> length c \<and> isEqualWithoutClientid (fst (c ! n)) key then Some (snd (c ! n))
      else if n \<noteq> length c \<and> n \<noteq> 0 then
        (if isEqualWithoutClientid (fst (c ! (n - 1))) key then Some (snd (c ! (n - 1))) else None)
      else None)"

fun all_clients_loop :: "bool \<Rightarrow> SIndexKey \<Rightarrow> cache \<Rightarrow> (u32 \<rightharpoonup> int) \<Rightarrow> (u32 \<rightharpoonup> int)" where
  "all_clients_loop be key [] ret = ret"
| "all_clients_loop be key ((k, v) # c) ret =
     (if isEqualWithoutClientid k key then all_clients_loop be key c (ret(getClientid be k \<mapsto> v)) else ret)"

definition get_from_cache_all_clients :: "bool \<Rightarrow> SIndexKey \<Rightarrow> cache \<Rightarrow> (u32 \<rightharpoonup> int) \<Rightarrow> (u32 \<rightharpoonup> int)" where
  "get_from_cache_all_clients be key c ret = all_clients_loop be key (map_lower (key_less be) key c) ret"

definition get_from_cache_exact :: "bool \<Rightarrow> SIndexKey \<Rightarrow> cache \<Rightarrow> int option" where
  "get_from_cache_exact be key c = map_find (key_less be) key c"

text \<open>The virtual methods of the index are arguments.\<close>

definition get_with_cache :: "bool \<Rightarrow> (SIndexKey \<Rightarrow> int) \<Rightarrow> SIndexKey \<Rightarrow> file_index \<Rightarrow> int" where
  "get_with_cache be get_any_client key s =
     (case get_from_cache be key (active_cache_buffer s) of
        Some v \<Rightarrow> v
      | None \<Rightarrow>
          (case get_from_cache be key (other_cache_buffer s) of Some v \<Rightarrow> v | None \<Rightarrow> get_any_client key))"

definition get_with_cache_prefer_client :: "bool \<Rightarrow> (SIndexKey \<Rightarrow> int) \<Rightarrow> SIndexKey \<Rightarrow> file_index \<Rightarrow> int" where
  "get_with_cache_prefer_client be get_prefer_client key s =
     (case get_from_cache_prefer_client be key (active_cache_buffer s) of
        Some v \<Rightarrow> v
      | None \<Rightarrow>
          (case get_from_cache_prefer_client be key (other_cache_buffer s) of Some v \<Rightarrow> v | None \<Rightarrow> get_prefer_client key))"

definition get_all_clients_with_cache :: "bool \<Rightarrow> (SIndexKey \<Rightarrow> (u32 \<rightharpoonup> int)) \<Rightarrow> SIndexKey \<Rightarrow> bool \<Rightarrow> file_index \<Rightarrow> (u32 \<rightharpoonup> int)" where
  "get_all_clients_with_cache be get_all_clients key with_del s =
     (let ret_cache = get_from_cache_all_clients be key (other_cache_buffer s) Map.empty;
          ret_cache = get_from_cache_all_clients be key (active_cache_buffer s) ret_cache;
          ret = get_all_clients key ++ ret_cache
      in if \<not> with_del then (\<lambda>c. if ret c = Some 0 then None else ret c) else ret)"

definition get_with_cache_exact :: "bool \<Rightarrow> (SIndexKey \<Rightarrow> int) \<Rightarrow> SIndexKey \<Rightarrow> file_index \<Rightarrow> int" where
  "get_with_cache_exact be get key s =
     (case get_from_cache_exact be key (active_cache_buffer s) of
        Some v \<Rightarrow> v
      | None \<Rightarrow>
          (case get_from_cache_exact be key (other_cache_buffer s) of Some v \<Rightarrow> v | None \<Rightarrow> get key))"

subsection \<open>The threads\<close>

text \<open>One step of the system: a delayed write or a request by any thread, or the next action of the index thread. What each step does
  happens under the lock (or, for the commit, at one moment).\<close>

inductive fi_step :: "bool \<Rightarrow> file_index \<Rightarrow> file_index \<Rightarrow> bool" for be where
  put: "key_wf k \<Longrightarrow> put_delayed be k v s = Some s' \<Longrightarrow> fi_step be s s'"
| flush: "fi_step be s (request_flush s)"
| stop: "fi_step be s (stop_accept s)"
| shut: "fi_step be s (shutdown s)"
| wait: "phase s = Idle \<Longrightarrow> writer_wait s = Some s' \<Longrightarrow> fi_step be s s'"
| take: "phase s = Idle \<Longrightarrow> \<not> writer_finished s \<Longrightarrow> writer_wait s = None \<Longrightarrow> fi_step be s (writer_take s)"
| commit: "phase s = Writing \<Longrightarrow> fi_step be s (writer_commit s)"
| clear: "phase s = Committed \<Longrightarrow> fi_step be s (writer_clear s)"

inductive fi_reach :: "bool \<Rightarrow> file_index \<Rightarrow> bool" for be where
  init: "0 \<notin> ran m \<Longrightarrow> fi_reach be (file_index_init\<lparr>store := m\<rparr>)"
| step: "fi_reach be s \<Longrightarrow> fi_step be s s' \<Longrightarrow> fi_reach be s'"

subsection \<open>What the index and its cache hold together\<close>

definition live :: "int \<Rightarrow> int option" where
  "live v = (if v = 0 then None else Some v)"

definition fi_view :: "file_index \<Rightarrow> index" where
  "fi_view s k =
     (case map_of (active_cache_buffer s) k of
        Some v \<Rightarrow> live v
      | None \<Rightarrow> (case map_of (other_cache_buffer s) k of Some v \<Rightarrow> live v | None \<Rightarrow> store s k))"

definition fi_inv :: "bool \<Rightarrow> file_index \<Rightarrow> bool" where
  "fi_inv be s \<longleftrightarrow>
     smap_ok (key_less be) key_wf (active_cache_buffer s) \<and> smap_ok (key_less be) key_wf (other_cache_buffer s) \<and> 0 \<notin> ran (store s) \<and>
     (phase s = Idle \<longrightarrow> other_cache_buffer s = []) \<and>
     (phase s = Committed \<longrightarrow> (\<forall>k v. map_of (other_cache_buffer s) k = Some v \<longrightarrow> store s k = live v))"

lemma buffers [simp]:
  "active_cache_buffer (set_active c s) = c" "other_cache_buffer (set_active c s) = other_cache_buffer s"
  "active_cache_buffer (set_other c s) = active_cache_buffer s" "other_cache_buffer (set_other c s) = c"
  "store (set_active c s) = store s" "store (set_other c s) = store s" "phase (set_active c s) = phase s" "phase (set_other c s) = phase s"
  "active_cache_buffer (writer_take s) = other_cache_buffer s" "other_cache_buffer (writer_take s) = active_cache_buffer s"
  by (simp_all add: active_cache_buffer_def other_cache_buffer_def set_active_def set_other_def writer_take_def)

lemma buffers_upd [simp]:
  "active_cache_buffer (s\<lparr>do_flush := a\<rparr>) = active_cache_buffer s" "other_cache_buffer (s\<lparr>do_flush := a\<rparr>) = other_cache_buffer s"
  "active_cache_buffer (s\<lparr>phase := p\<rparr>) = active_cache_buffer s" "other_cache_buffer (s\<lparr>phase := p\<rparr>) = other_cache_buffer s"
  "active_cache_buffer (s\<lparr>store := m\<rparr>) = active_cache_buffer s" "other_cache_buffer (s\<lparr>store := m\<rparr>) = other_cache_buffer s"
  "active_cache_buffer (s\<lparr>do_accept := a\<rparr>) = active_cache_buffer s" "other_cache_buffer (s\<lparr>do_accept := a\<rparr>) = other_cache_buffer s"
  "active_cache_buffer (s\<lparr>do_shutdown := a\<rparr>) = active_cache_buffer s" "other_cache_buffer (s\<lparr>do_shutdown := a\<rparr>) = other_cache_buffer s"
  by (simp_all add: active_cache_buffer_def other_cache_buffer_def)

lemma fold_apply_entry:
  "distinct (map fst c) \<Longrightarrow> fold apply_entry c m k = (case map_of c k of Some v \<Rightarrow> live v | None \<Rightarrow> m k)"
proof (induction c arbitrary: m)
  case (Cons e c)
  obtain k' v where e: "e = (k', v)" by (cases e)
  have n: "map_of c k' = None" using Cons.prems e by (auto simp: map_of_eq_None_iff)
  have "fold apply_entry (e # c) m k = (case map_of c k of Some v \<Rightarrow> live v | None \<Rightarrow> apply_entry e m k)"
    using Cons by simp
  then show ?case using e n by (auto simp: apply_entry_def live_def split: option.splits)
qed simp

lemma live_not_0: "live v \<noteq> Some 0"
  by (simp add: live_def)

lemma ran_fold_apply: "distinct (map fst c) \<Longrightarrow> 0 \<notin> ran m \<Longrightarrow> 0 \<notin> ran (fold apply_entry c m)"
  using live_not_0 by (auto simp: ran_def fold_apply_entry split: option.splits)

text \<open>Every step keeps the invariant, and changes the view by its own write only.\<close>

lemma put_delayed_eq:
  assumes "fi_inv be s" "key_wf k" "put_delayed be k v s = Some s'"
  shows "s' = set_active (map_put (key_less be) k v (active_cache_buffer s)) s"
    "smap_ok (key_less be) key_wf (active_cache_buffer s')" "map_of (active_cache_buffer s') = (map_of (active_cache_buffer s))(k \<mapsto> v)"
  using assms index_key.map_put_ok index_key.map_of_put by (auto simp: put_delayed_def fi_inv_def split: if_splits)

lemma fi_put:
  assumes "fi_inv be s" "key_wf k" "put_delayed be k v s = Some s'"
  shows "fi_inv be s' \<and> fi_view s' = (fi_view s)(k := live v)"
proof -
  note p = put_delayed_eq [OF assms]
  have "fi_inv be s'" using assms(1) p(1,2) by (simp add: fi_inv_def)
  moreover have "fi_view s' = (fi_view s)(k := live v)" using p(1,3) by (auto simp: fi_view_def fun_eq_iff split: option.splits)
  ultimately show ?thesis ..
qed

lemma fi_writer:
  assumes "fi_inv be s"
  shows "phase s = Idle \<Longrightarrow> fi_inv be (writer_take s) \<and> fi_view (writer_take s) = fi_view s"
    "phase s = Writing \<Longrightarrow> fi_inv be (writer_commit s) \<and> fi_view (writer_commit s) = fi_view s"
    "phase s = Committed \<Longrightarrow> fi_inv be (writer_clear s) \<and> fi_view (writer_clear s) = fi_view s"
proof -
  have d: "distinct (map fst (other_cache_buffer s))" using assms index_key.map_ok_distinct by (auto simp: fi_inv_def)
  show "fi_inv be (writer_take s) \<and> fi_view (writer_take s) = fi_view s" if "phase s = Idle"
    using assms that by (auto simp: fi_inv_def fi_view_def fun_eq_iff writer_take_def[of s] split: option.splits)
      (simp_all add: writer_take_def active_cache_buffer_def other_cache_buffer_def split: if_splits)
  show "fi_inv be (writer_commit s) \<and> fi_view (writer_commit s) = fi_view s" if "phase s = Writing"
    using assms that d ran_fold_apply [OF d, of "store s"]
    by (auto simp: fi_inv_def fi_view_def fun_eq_iff writer_commit_def fold_apply_entry split: option.splits)
  show "fi_inv be (writer_clear s) \<and> fi_view (writer_clear s) = fi_view s" if "phase s = Committed"
    using assms that by (auto simp: fi_inv_def fi_view_def fun_eq_iff writer_clear_def split: option.splits)
qed

lemma fi_flags:
  "fi_inv be (request_flush s) = fi_inv be s" "fi_view (request_flush s) = fi_view s"
  "fi_inv be (stop_accept s) = fi_inv be s" "fi_view (stop_accept s) = fi_view s"
  "fi_inv be (shutdown s) = fi_inv be s" "fi_view (shutdown s) = fi_view s"
  "writer_wait s = Some s' \<Longrightarrow> fi_inv be s' = fi_inv be s" "writer_wait s = Some s' \<Longrightarrow> fi_view s' = fi_view s"
  by (auto simp: fi_inv_def fi_view_def fun_eq_iff request_flush_def stop_accept_def shutdown_def writer_wait_def split: if_splits option.splits)

lemma fi_step_view:
  assumes "fi_inv be s" "fi_step be s s'"
  shows "fi_inv be s' \<and> (fi_view s' = fi_view s \<or> (\<exists>k v. put_delayed be k v s = Some s' \<and> fi_view s' = (fi_view s)(k := live v)))"
  using assms(2)
proof (cases rule: fi_step.cases)
  case (put k v)
  then show ?thesis using fi_put [OF assms(1)] by blast
qed (use assms(1) fi_flags fi_writer [OF assms(1)] in auto)

lemma fi_reach_inv: "fi_reach be s \<Longrightarrow> fi_inv be s"
proof (induction rule: fi_reach.induct)
  case (init m)
  then show ?case by (simp add: fi_inv_def file_index_init_def active_cache_buffer_def other_cache_buffer_def)
qed (use fi_step_view in blast)

subsection \<open>Reading through the cache\<close>

definition id_of :: "int option \<Rightarrow> int" where
  "id_of x = (case x of None \<Rightarrow> 0 | Some v \<Rightarrow> v)"

lemma id_of_live [simp]: "id_of (live v) = v"
  by (simp add: id_of_def live_def)

lemma get_with_cache_exact_view:
  assumes "fi_inv be s" "key_wf k"
  shows "get_with_cache_exact be (\<lambda>k. id_of (store s k)) k s = id_of (fi_view s k)"
proof -
  have "map_find (key_less be) k (active_cache_buffer s) = map_of (active_cache_buffer s) k"
    "map_find (key_less be) k (other_cache_buffer s) = map_of (other_cache_buffer s) k"
    using assms by (auto simp: fi_inv_def intro!: index_key.map_find_eq)
  then show ?thesis by (auto simp: get_with_cache_exact_def get_from_cache_exact_def fi_view_def split: option.splits)
qed

text \<open>A read looks at the buffers at one moment and at the index at a later one. \<open>seen\<close> says that the value was the right answer at
  some moment in between.\<close>

definition seen :: "bool \<Rightarrow> file_index \<Rightarrow> file_index \<Rightarrow> SIndexKey \<Rightarrow> int option \<Rightarrow> bool" where
  "seen be s s' k x \<longleftrightarrow> (\<exists>t. (fi_step be)\<^sup>*\<^sup>* s t \<and> (fi_step be)\<^sup>*\<^sup>* t s' \<and> fi_view t k = x)"

lemma seen_step: "seen be s s1 k x \<Longrightarrow> fi_step be s1 s2 \<Longrightarrow> seen be s s2 k x"
  unfolding seen_def by (elim exE conjE) (intro exI conjI, assumption, rule rtranclp.rtrancl_into_rtrancl, assumption+)

lemma seen_now: "(fi_step be)\<^sup>*\<^sup>* s s' \<Longrightarrow> seen be s s' k (fi_view s' k)"
  unfolding seen_def by blast

lemma fi_steps_inv: "(fi_step be)\<^sup>*\<^sup>* s s' \<Longrightarrow> fi_inv be s \<Longrightarrow> fi_inv be s'"
  by (induction rule: rtranclp_induct) (use fi_step_view in blast)+

lemma fi_steps_seen:
  assumes "(fi_step be)\<^sup>*\<^sup>* s s'" "fi_inv be s" "map_of (active_cache_buffer s) k = None" "map_of (other_cache_buffer s) k = None"
  shows "seen be s s' k (store s' k) \<and> (\<forall>v. map_of (active_cache_buffer s') k = Some v \<longrightarrow> seen be s s' k (live v)) \<and>
    (\<forall>v. map_of (other_cache_buffer s') k = Some v \<longrightarrow> seen be s s' k (live v))"
  using assms(1)
proof (induction rule: rtranclp_induct)
  case base
  have "fi_view s k = store s k" using assms(3,4) by (simp add: fi_view_def)
  then show ?case using assms(3,4) seen_now [of be s s k] by simp
next
  case (step s1 s2)
  have inv: "fi_inv be s1" by (rule fi_steps_inv [OF step.hyps(1) assms(2)])
  note old = step.IH [THEN conjunct1, THEN seen_step, OF step.hyps(2)]
  have act: "seen be s s2 k (live v)" if "map_of (active_cache_buffer s1) k = Some v" for v
    using step.IH that seen_step [OF _ step.hyps(2)] by blast
  have oth: "seen be s s2 k (live v)" if "map_of (other_cache_buffer s1) k = Some v" for v
    using step.IH that seen_step [OF _ step.hyps(2)] by blast
  have now: "seen be s s2 k (fi_view s2 k)" using step.hyps by (intro seen_now) auto
  show ?case using step.hyps(2)
  proof (cases rule: fi_step.cases)
    case (put k' v)
    note p = put_delayed_eq [OF inv put]
    have "seen be s s2 k (live v)" if "k' = k" using now fi_put [OF inv put] that by simp
    moreover have "store s2 = store s1" "other_cache_buffer s2 = other_cache_buffer s1" using p(1) by simp_all
    ultimately show ?thesis using p(3) old act oth by auto
  next
    case commit
    have d: "distinct (map fst (other_cache_buffer s1))" using inv index_key.map_ok_distinct by (auto simp: fi_inv_def)
    show ?thesis using commit old act oth by (auto simp: writer_commit_def fold_apply_entry [OF d] split: option.splits)
  next
    case take
    have "store (writer_take s1) = store s1" by (simp add: writer_take_def)
    then show ?thesis using take old act oth by simp
  next
    case clear
    then show ?thesis using old act by (auto simp: writer_clear_def)
  qed (use old act oth in \<open>auto simp: request_flush_def stop_accept_def shutdown_def writer_wait_def split: if_splits\<close>)
qed

subsection \<open>All clients of a file\<close>

definition client_key :: "bool \<Rightarrow> SIndexKey \<Rightarrow> u32 \<Rightarrow> SIndexKey" where
  "client_key be key c = key\<lparr>kclientid := big_endian32 be c\<rparr>"

lemma client_key_simps [simp]:
  "key_wf (client_key be key c) = key_wf key" "getClientid be (client_key be key c) = c" "getFilesize be (client_key be key c) = getFilesize be key"
  "khash (client_key be key c) = khash key" "isEqualWithoutClientid (client_key be key c) key"
  by (simp_all add: client_key_def key_wf_def getClientid_def getFilesize_def isEqualWithoutClientid_def memcmp_refl)

text \<open>The keys of the same file are those that differ in the client only.\<close>

lemma same_file_iff:
  assumes "key_wf k" "key_wf key"
  shows "isEqualWithoutClientid k key \<longleftrightarrow> k = client_key be key (getClientid be k)"
  using assms memcmp_0 [of "khash k" "khash key"]
  by (cases k; cases key) (auto simp: isEqualWithoutClientid_def client_key_def getClientid_def key_wf_def)

lemma takeWhile_filter: "sorted_wrt R xs \<Longrightarrow> (\<And>x y. R x y \<Longrightarrow> x \<in> set xs \<Longrightarrow> y \<in> set xs \<Longrightarrow> P y \<Longrightarrow> P x) \<Longrightarrow> takeWhile P xs = filter P xs"
proof (induction xs)
  case (Cons x xs)
  show ?case
  proof (cases "P x")
    case True
    then show ?thesis using Cons by simp
  next
    case False
    then have "\<not> P y" if "y \<in> set xs" for y using Cons.prems(1) Cons.prems(2) [of x y] that by auto
    then show ?thesis using False by (simp add: filter_empty_conv)
  qed
qed simp

lemma between_same_file:
  assumes "key_wf key" "key_wf x" "key_wf y" "\<not> key_less be x key" "key_less be x y" "isEqualWithoutClientid y key"
  shows "isEqualWithoutClientid x key"
proof -
  have y: "khash y = khash key" "getFilesize be y = getFilesize be key"
    using same_file_iff [OF assms(3,1), of be] assms(6) by (metis client_key_simps(3,4))+
  have "khash x = khash key" "getFilesize be x = getFilesize be key"
    using assms(4,5) y unfolding key_less_values [OF assms(2,1)] key_less_values [OF assms(2,3)] by (auto dest: less_asym)
  then show ?thesis by (simp add: isEqualWithoutClientid_def memcmp_refl getFilesize_def) (metis big_endian_twice(2))
qed

text \<open>From the lower bound on, the entries of the file come first, and they are all there from that client on.\<close>

lemma lower_same_file:
  assumes "smap_ok (key_less be) key_wf c" "key_wf key"
  shows "takeWhile (\<lambda>e. isEqualWithoutClientid (fst e) key) (map_lower (key_less be) key c) =
    filter (\<lambda>e. isEqualWithoutClientid (fst e) key \<and> \<not> key_less be (fst e) key) c"
proof -
  obtain pre where m: "c = pre @ map_lower (key_less be) key c" "\<forall>e \<in> set pre. key_less be (fst e) key"
      "\<forall>e \<in> set (map_lower (key_less be) key c). \<not> key_less be (fst e) key"
    using index_key.map_lower_split [OF assms] by blast
  let ?l = "map_lower (key_less be) key c"
  have ok: "\<forall>e \<in> set c. key_wf (fst e)" "sorted_wrt (\<lambda>a b. key_less be (fst a) (fst b)) c" using assms(1) by (auto simp: smap_ok_def)
  have l: "sorted_wrt (\<lambda>a b. key_less be (fst a) (fst b)) ?l" using ok(2) m(1) by (metis sorted_wrt_append)
  have sub: "set ?l \<subseteq> set c" using m(1) by (metis Un_iff set_append subsetI)
  have "takeWhile (\<lambda>e. isEqualWithoutClientid (fst e) key) ?l = filter (\<lambda>e. isEqualWithoutClientid (fst e) key) ?l"
    by (rule takeWhile_filter [OF l]) (use between_same_file [OF assms(2)] ok(1) sub m(3) in blast)
  also have "\<dots> = filter (\<lambda>e. isEqualWithoutClientid (fst e) key \<and> \<not> key_less be (fst e) key) ?l"
    by (rule filter_cong) (use m(3) in auto)
  also have "\<dots> = filter (\<lambda>e. isEqualWithoutClientid (fst e) key \<and> \<not> key_less be (fst e) key) c"
    by (subst (2) m(1)) (use m(2) in \<open>simp add: filter_empty_conv\<close>)
  finally show ?thesis .
qed

lemma map_of_filter_fst: "map_of (filter (\<lambda>e. P (fst e)) c) k = (if P k then map_of c k else None)"
  by (induction c) auto

lemma all_clients_loop_fold:
  "all_clients_loop be key l ret = fold (\<lambda>(k, v) m. m(getClientid be k \<mapsto> v)) (takeWhile (\<lambda>e. isEqualWithoutClientid (fst e) key) l) ret"
  by (induction l arbitrary: ret) auto

lemma fold_clients:
  "distinct (map fst l) \<Longrightarrow> (\<forall>e \<in> set l. fst e = client_key be key (getClientid be (fst e))) \<Longrightarrow>
   fold (\<lambda>(k, v) m. m(getClientid be k \<mapsto> v)) l ret c = (case map_of l (client_key be key c) of Some v \<Rightarrow> Some v | None \<Rightarrow> ret c)"
proof (induction l arbitrary: ret)
  case (Cons e l)
  obtain k v where e: "e = (k, v)" by (cases e)
  have k: "k = client_key be key (getClientid be k)" using Cons.prems(2) e by auto
  have n: "map_of l k = None" using Cons.prems(1) e by (auto simp: map_of_eq_None_iff)
  have iff: "client_key be key c = k \<longleftrightarrow> c = getClientid be k" using k by (metis client_key_simps(2))
  have step: "fold (\<lambda>(k, v) m. m(getClientid be k \<mapsto> v)) (e # l) ret c =
      (case map_of l (client_key be key c) of Some v \<Rightarrow> Some v | None \<Rightarrow> (ret(getClientid be k \<mapsto> v)) c)"
    unfolding e fold.simps comp_apply split_conv by (rule Cons.IH) (use Cons.prems e in auto)
  show ?case unfolding step using e iff n by (auto split: option.splits)
qed simp

lemma client_key_less: "key_wf key \<Longrightarrow> key_less be (client_key be key c) key \<longleftrightarrow> c < getClientid be key"
  by (subst key_less_values) auto

lemma get_from_cache_all_clients_eq:
  assumes "smap_ok (key_less be) key_wf c" "key_wf key"
  shows "get_from_cache_all_clients be key c ret cl =
    (case (if getClientid be key \<le> cl then map_of c (client_key be key cl) else None) of Some v \<Rightarrow> Some v | None \<Rightarrow> ret cl)"
proof -
  let ?P = "\<lambda>k. isEqualWithoutClientid k key \<and> \<not> key_less be k key"
  let ?l = "filter (\<lambda>e. ?P (fst e)) c"
  have d: "distinct (map fst ?l)" using index_key.map_ok_distinct [OF assms(1)] distinct_map_filter by blast
  have w: "\<forall>e \<in> set ?l. fst e = client_key be key (getClientid be (fst e))"
    using same_file_iff [OF _ assms(2)] assms(1) by (auto simp: smap_ok_def)
  show ?thesis unfolding get_from_cache_all_clients_def all_clients_loop_fold lower_same_file [OF assms] fold_clients [OF d w]
    using client_key_less [OF assms(2), of be cl] map_of_filter_fst [of ?P c "client_key be key cl"] by (auto simp: not_less)
qed

subsection \<open>The index thread empties the buffers\<close>

inductive writer_step :: "file_index \<Rightarrow> file_index \<Rightarrow> bool" where
  wtake: "phase s = Idle \<Longrightarrow> \<not> writer_finished s \<Longrightarrow> writer_wait s = None \<Longrightarrow> writer_step s (writer_take s)"
| wcommit: "phase s = Writing \<Longrightarrow> writer_step s (writer_commit s)"
| wclear: "phase s = Committed \<Longrightarrow> writer_step s (writer_clear s)"

definition drained :: "file_index \<Rightarrow> index \<Rightarrow> bool" where
  "drained s m \<longleftrightarrow> phase s = Idle \<and> active_cache_buffer s = [] \<and> other_cache_buffer s = [] \<and> store s = m"

lemma drain_idle:
  assumes "fi_inv be s" "phase s = Idle"
  shows "\<exists>s'. writer_step\<^sup>*\<^sup>* s s' \<and> drained s' (fi_view s)"
proof (cases "active_cache_buffer s = []")
  case True
  have "other_cache_buffer s = []" using assms by (simp add: fi_inv_def)
  then have "drained s (fi_view s)" using True assms by (auto simp: drained_def fi_view_def fun_eq_iff)
  then show ?thesis by blast
next
  case False
  have o: "other_cache_buffer s = []" using assms by (simp add: fi_inv_def)
  have nf: "\<not> writer_finished s" "writer_wait s = None" using False by (auto simp: writer_finished_def writer_wait_def active_cache_buffer_def split: if_splits)
  let ?t = "writer_take s" and ?c = "writer_commit (writer_take s)" and ?d = "writer_clear (writer_commit (writer_take s))"
  have p: "phase ?t = Writing" "phase ?c = Committed" by (simp_all add: writer_take_def writer_commit_def)
  have "writer_step s ?t" "writer_step ?t ?c" "writer_step ?c ?d" using writer_step.intros assms(2) nf p by blast+
  then have steps: "writer_step\<^sup>*\<^sup>* s ?d" by (meson converse_rtranclp_into_rtranclp r_into_rtranclp)
  have v: "fi_inv be ?d" "fi_view ?d = fi_view s"
    using fi_writer(1) [OF assms] fi_writer(2) [of be ?t] fi_writer(3) [of be ?c] p by auto
  have b: "active_cache_buffer ?d = []" "other_cache_buffer ?d = []" "phase ?d = Idle"
    using o by (simp_all add: writer_clear_def) (simp_all add: writer_commit_def)
  then have "store ?d = fi_view ?d" by (auto simp: fi_view_def fun_eq_iff)
  then have "drained ?d (fi_view s)" using b v by (simp add: drained_def)
  then show ?thesis using steps by blast
qed

lemma drain:
  assumes "fi_inv be s"
  shows "\<exists>s'. writer_step\<^sup>*\<^sup>* s s' \<and> drained s' (fi_view s)"
proof -
  have com: "\<exists>s'. writer_step\<^sup>*\<^sup>* s s' \<and> drained s' (fi_view s)" if cm: "fi_inv be s" "phase s = Committed" for s
  proof -
    have "phase (writer_clear s) = Idle" by (simp add: writer_clear_def)
    then obtain s' where "writer_step\<^sup>*\<^sup>* (writer_clear s) s'" "drained s' (fi_view s)"
      using drain_idle [of be "writer_clear s"] fi_writer(3) [OF cm] by auto
    then show ?thesis using wclear [OF cm(2)] by (meson converse_rtranclp_into_rtranclp)
  qed
  show ?thesis
  proof (cases "phase s")
    case Idle
    then show ?thesis by (rule drain_idle [OF assms])
  next
    case Writing
    have "phase (writer_commit s) = Committed" by (simp add: writer_commit_def)
    then obtain s' where "writer_step\<^sup>*\<^sup>* (writer_commit s) s'" "drained s' (fi_view s)"
      using com [of "writer_commit s"] fi_writer(2) [OF assms Writing] by auto
    then show ?thesis using wcommit [OF Writing] by (meson converse_rtranclp_into_rtranclp)
  next
    case Committed
    then show ?thesis by (rule com [OF assms])
  qed
qed

subsection \<open>Properties\<close>

text \<open>A key for the samples.\<close>

definition sample_key :: "u32 \<Rightarrow> SIndexKey" where
  "sample_key c = \<lparr>khash = replicate 16 7, kfilesize = 0, kclientid = c\<rparr>"

lemma sample_key_wf: "key_wf (sample_key c)"
  by (simp add: key_wf_def sample_key_def bytes_in_index_def)

definition sample_fi :: file_index where
  "sample_fi = set_active [(sample_key 0, 5)] file_index_init"

lemma sample_put: "put_delayed be (sample_key 0) 5 file_index_init = Some sample_fi"
  by (simp add: put_delayed_def sample_fi_def file_index_init_def active_cache_buffer_def set_active_def max_buffer_size_def)

lemma sample_reach: "fi_reach be file_index_init" "fi_reach be sample_fi"
proof -
  have "file_index_init\<lparr>store := Map.empty\<rparr> = file_index_init" by (simp add: file_index_init_def)
  then show i: "fi_reach be file_index_init" using fi_reach.init [of Map.empty be] by simp
  show "fi_reach be sample_fi" by (rule fi_reach.step [OF i fi_step.put [OF sample_key_wf sample_put]])
qed

text \<open>C14. The two buffers and the index together behave as one map, in every interleaving of writers and the index thread: a delayed
  write sets that map at its key, to the new id or (id 0) to no entry, also when the key was there before, in a buffer or in the index;
  and every step that is not a delayed write, the taking, the commit and the clearing of a buffer included, leaves it as it is.\<close>
theorem file_index_refines_map:
  assumes "fi_reach be s"
  shows "(\<forall>k v s'. key_wf k \<and> put_delayed be k v s = Some s' \<longrightarrow> fi_view s' = (fi_view s)(k := live v)) \<and>
    (\<forall>s'. fi_step be s s' \<and> (\<nexists>k v. put_delayed be k v s = Some s') \<longrightarrow> fi_view s' = fi_view s)"
proof -
  note inv = fi_reach_inv [OF assms]
  show ?thesis using fi_put [OF inv] fi_step_view [OF inv] by blast
qed

lemma sample_overwrite:
  "put_delayed be (sample_key 0) v sample_fi = Some (set_active [(sample_key 0, v)] sample_fi)"
  by (simp add: put_delayed_def sample_fi_def file_index_init_def active_cache_buffer_def set_active_def max_buffer_size_def index_key.lt_irrefl)

theorem file_index_refines_map_witness:
  "fi_view sample_fi (sample_key 0) = Some 5 \<and>
   (\<exists>s'. put_delayed False (sample_key 0) 9 sample_fi = Some s' \<and> fi_view s' (sample_key 0) = Some 9) \<and>
   (\<exists>s'. put_delayed False (sample_key 0) 0 sample_fi = Some s' \<and> fi_view s' (sample_key 0) = None) \<and>
   fi_step False sample_fi (request_flush sample_fi) \<and> fi_view (request_flush sample_fi) = fi_view sample_fi"
proof -
  note w = file_index_refines_map [OF sample_reach(2) [of False]]
  have five: "fi_view sample_fi (sample_key 0) = Some 5"
    by (simp add: fi_view_def sample_fi_def live_def)
  have nine: "fi_view s' (sample_key 0) = Some 9" if "put_delayed False (sample_key 0) 9 sample_fi = Some s'" for s'
  proof -
    have "fi_view s' = (fi_view sample_fi)(sample_key 0 := live 9)" using w sample_key_wf that by blast
    then show ?thesis by (simp add: live_def)
  qed
  have zero: "fi_view s' (sample_key 0) = None" if "put_delayed False (sample_key 0) 0 sample_fi = Some s'" for s'
  proof -
    have "fi_view s' = (fi_view sample_fi)(sample_key 0 := live 0)" using w sample_key_wf that by blast
    then show ?thesis by (simp add: live_def)
  qed
  have fl: "put_delayed False k v sample_fi \<noteq> Some (request_flush sample_fi)" for k v
    by (auto simp: put_delayed_def request_flush_def set_active_def sample_fi_def file_index_init_def split: if_splits)
  have st: "fi_step False sample_fi (request_flush sample_fi)" by (rule fi_step.flush)
  then have "fi_view (request_flush sample_fi) = fi_view sample_fi" using w fl by blast
  then show ?thesis using five nine zero sample_overwrite [of False] st by (intro conjI) auto
qed

text \<open>C23. The invariant of the cache: in every reachable state both buffers are sorted and free of duplicate keys, the index holds no
  id 0, the buffer that is not active is empty while the index thread waits, and once a buffer has been committed the index agrees
  with every entry of it.\<close>
theorem file_index_invariant:
  assumes "fi_reach be s"
  shows "sorted_wrt (\<lambda>a b. key_less be (fst a) (fst b)) (active_cache_buffer s) \<and>
    sorted_wrt (\<lambda>a b. key_less be (fst a) (fst b)) (other_cache_buffer s) \<and>
    distinct (map fst (active_cache_buffer s)) \<and> distinct (map fst (other_cache_buffer s)) \<and> 0 \<notin> ran (store s) \<and>
    (phase s = Idle \<longrightarrow> other_cache_buffer s = []) \<and>
    (phase s = Committed \<longrightarrow> (\<forall>k v. map_of (other_cache_buffer s) k = Some v \<longrightarrow> store s k = live v))"
  using fi_reach_inv [OF assms] index_key.map_ok_distinct [of be] unfolding fi_inv_def smap_ok_def by blast

theorem file_index_invariant_witness: "fi_reach True sample_fi \<and> other_cache_buffer sample_fi = [] \<and> 0 \<notin> ran (store sample_fi)"
  using file_index_invariant [OF sample_reach(2) [of True]] sample_reach(2) [of True]
  by (simp add: sample_fi_def set_active_def file_index_init_def)

text \<open>C21. \<open>get_with_cache_exact\<close> is linearizable: it looks into the buffers in the state \<open>s\<close> and, when both miss, into the index in a later
  state \<open>s'\<close>; what it returns was the right answer at some moment from \<open>s\<close> to \<open>s'\<close>, whatever the other threads do in between.\<close>
theorem get_with_cache_exact_linearizable:
  assumes "fi_reach be s" "(fi_step be)\<^sup>*\<^sup>* s s'" "key_wf k"
  shows "\<exists>t. (fi_step be)\<^sup>*\<^sup>* s t \<and> (fi_step be)\<^sup>*\<^sup>* t s' \<and> get_with_cache_exact be (\<lambda>k. id_of (store s' k)) k s = id_of (fi_view t k)"
proof -
  have inv: "fi_inv be s" by (rule fi_reach_inv [OF assms(1)])
  have f: "map_find (key_less be) k (active_cache_buffer s) = map_of (active_cache_buffer s) k"
    "map_find (key_less be) k (other_cache_buffer s) = map_of (other_cache_buffer s) k"
    using inv assms(3) by (auto simp: fi_inv_def intro!: index_key.map_find_eq)
  show ?thesis
  proof (cases "map_of (active_cache_buffer s) k = None \<and> map_of (other_cache_buffer s) k = None")
    case True
    then have "seen be s s' k (store s' k)" using fi_steps_seen [OF assms(2) inv] by blast
    then show ?thesis using True f by (auto simp: seen_def get_with_cache_exact_def get_from_cache_exact_def)
  next
    case False
    then have "get_with_cache_exact be (\<lambda>k. id_of (store s' k)) k s = id_of (fi_view s k)"
      using f by (auto simp: get_with_cache_exact_def get_from_cache_exact_def fi_view_def split: option.splits)
    then show ?thesis using assms(2) by blast
  qed
qed

theorem get_with_cache_exact_linearizable_witness:
  "get_with_cache_exact False (\<lambda>k. id_of (store sample_fi k)) (sample_key 0) sample_fi = 5 \<and>
   (\<exists>t. (fi_step False)\<^sup>*\<^sup>* sample_fi t \<and> (fi_step False)\<^sup>*\<^sup>* t sample_fi \<and>
      get_with_cache_exact False (\<lambda>k. id_of (store sample_fi k)) (sample_key 0) sample_fi = id_of (fi_view t (sample_key 0)))"
proof -
  have "get_with_cache_exact False (\<lambda>k. id_of (store sample_fi k)) (sample_key 0) sample_fi = id_of (fi_view sample_fi (sample_key 0))"
    by (rule get_with_cache_exact_view [OF fi_reach_inv [OF sample_reach(2)] sample_key_wf])
  moreover have "fi_view sample_fi (sample_key 0) = Some 5" by (simp add: fi_view_def sample_fi_def live_def)
  ultimately show ?thesis
    using get_with_cache_exact_linearizable [OF sample_reach(2) rtranclp.rtrancl_refl sample_key_wf, of False 0] by (simp add: id_of_def)
qed

lemma all_clients_view:
  assumes "fi_inv be s" "key_wf key"
    "get_all_clients key = (\<lambda>c. if getClientid be key \<le> c then store s (client_key be key c) else None)"
  shows "get_all_clients_with_cache be get_all_clients key False s =
    (\<lambda>c. if getClientid be key \<le> c then fi_view s (client_key be key c) else None)"
proof -
  have inv: "smap_ok (key_less be) key_wf (active_cache_buffer s)" "smap_ok (key_less be) key_wf (other_cache_buffer s)" "0 \<notin> ran (store s)"
    using assms(1) by (auto simp: fi_inv_def)
  have nz: "store s k \<noteq> Some 0" for k using inv(3) by (auto simp: ran_def)
  note c = get_from_cache_all_clients_eq [OF inv(1) assms(2)] get_from_cache_all_clients_eq [OF inv(2) assms(2)]
  show ?thesis
    by (rule ext) (use nz in \<open>auto simp: get_all_clients_with_cache_def Let_def assms(3) c map_add_def fi_view_def live_def split: option.splits\<close>)
qed

text \<open>\<open>get_all_clients_with_cache\<close> without deletion markers: for every client from the one of the key on, the entry of the file
  in the combined map, and nothing else, provided the index behind the cache lists its own entries in the same way.\<close>
theorem get_all_clients_with_cache_correct:
  assumes "fi_reach be s" "key_wf key"
    "get_all_clients key = (\<lambda>c. if getClientid be key \<le> c then store s (client_key be key c) else None)"
  shows "get_all_clients_with_cache be get_all_clients key False s =
    (\<lambda>c. if getClientid be key \<le> c then fi_view s (client_key be key c) else None)"
  by (rule all_clients_view [OF fi_reach_inv [OF assms(1)] assms(2), of get_all_clients, OF assms(3)])

theorem get_all_clients_with_cache_correct_witness:
  "get_all_clients_with_cache False (\<lambda>k c. if getClientid False k \<le> c then store sample_fi (client_key False k c) else None) (sample_key 0) False sample_fi 0 = Some 5"
proof -
  have c: "getClientid False (sample_key 0) = 0" "client_key False (sample_key 0) 0 = sample_key 0"
    by (simp_all add: getClientid_def client_key_def sample_key_def big_endian32_def endian_swap32_def)
  have "fi_view sample_fi (sample_key 0) = Some 5" by (simp add: fi_view_def sample_fi_def live_def)
  then show ?thesis
    using get_all_clients_with_cache_correct [of False sample_fi "sample_key 0"
        "\<lambda>k c. if getClientid False k \<le> c then store sample_fi (client_key False k c) else None", OF sample_reach(2) sample_key_wf refl] c
    by simp
qed

text \<open>C22. The index thread drains the cache: from every reachable state its own steps lead to a state in which both buffers are empty
  and the index holds exactly the combined map, so no delayed write is lost.\<close>
theorem index_thread_drains:
  assumes "fi_reach be s"
  shows "\<exists>s'. writer_step\<^sup>*\<^sup>* s s' \<and> active_cache_buffer s' = [] \<and> other_cache_buffer s' = [] \<and> phase s' = Idle \<and> store s' = fi_view s"
  using drain [OF fi_reach_inv [OF assms]] unfolding drained_def by blast

theorem index_thread_drains_witness:
  "\<exists>s'. writer_step\<^sup>*\<^sup>* sample_fi s' \<and> active_cache_buffer s' = [] \<and> store s' (sample_key 0) = Some 5"
proof -
  have "fi_view sample_fi (sample_key 0) = Some 5" by (simp add: fi_view_def sample_fi_def live_def)
  then show ?thesis using index_thread_drains [OF sample_reach(2) [of False]] by auto
qed

text \<open>\<open>flush\<close> can return too early: an entry that was written before \<open>flush\<close> was called is still only in the active buffer when the
  index thread, finishing an older buffer, resets \<open>do_flush\<close>.\<close>
lemma flush_returns_early:
  "\<exists>s s'. fi_reach be s \<and> map_of (active_cache_buffer s) (sample_key 1) = Some 9 \<and> (fi_step be)\<^sup>*\<^sup>* (request_flush s) s' \<and> \<not> do_flush s' \<and>
     store s' (sample_key 1) = None \<and> map_of (active_cache_buffer s') (sample_key 1) = Some 9"
proof -
  let ?a = "writer_commit (writer_take sample_fi)"
  have ph: "phase sample_fi = Idle" "active_cache_buffer sample_fi = [(sample_key 0, 5)]" "other_cache_buffer sample_fi = []" "do_accept sample_fi"
    "store sample_fi = Map.empty"
    by (simp_all add: sample_fi_def set_active_def file_index_init_def active_cache_buffer_def other_cache_buffer_def)
  have "fi_step be sample_fi (writer_take sample_fi)"
    by (rule fi_step.take) (use ph in \<open>auto simp: writer_finished_def writer_wait_def active_cache_buffer_def split: if_splits\<close>)
  then have t: "fi_reach be (writer_take sample_fi)" using fi_reach.step [OF sample_reach(2)] by blast
  have pt: "phase (writer_take sample_fi) = Writing" by (simp add: writer_take_def)
  have a: "fi_reach be ?a" using fi_reach.step [OF t fi_step.commit [OF pt]] .
  have ba: "active_cache_buffer ?a = []" "do_accept ?a" "phase ?a = Committed" 
    using ph by (auto simp: writer_commit_def writer_take_def active_cache_buffer_def other_cache_buffer_def split: if_splits)
  let ?s = "set_active [(sample_key 1, 9)] ?a"
  have p: "put_delayed be (sample_key 1) 9 ?a = Some ?s" using ba by (simp add: put_delayed_def max_buffer_size_def)
  have s: "fi_reach be ?s" by (rule fi_reach.step [OF a fi_step.put [OF sample_key_wf p]])
  let ?s' = "writer_clear (request_flush ?s)"
  have "phase (request_flush ?s) = Committed" using ba by (simp add: request_flush_def)
  then have st: "(fi_step be)\<^sup>*\<^sup>* (request_flush ?s) ?s'" by (intro r_into_rtranclp fi_step.clear)
  have ne: "sample_key 1 \<noteq> sample_key 0" by (simp add: sample_key_def)
  have "store ?s' = store ?a" by (simp add: writer_clear_def request_flush_def)
  moreover have "store ?a (sample_key 1) = None" using ph ne by (auto simp: writer_commit_def writer_take_def apply_entry_def other_cache_buffer_def active_cache_buffer_def split: if_splits)
  moreover have "map_of (active_cache_buffer ?s') (sample_key 1) = Some 9" by (simp add: writer_clear_def request_flush_def)
  moreover have "\<not> do_flush ?s'" by (simp add: writer_clear_def)
  ultimately show ?thesis using s st by (intro exI [of _ ?s] exI [of _ ?s'] conjI) simp_all
qed

end
