(* ===== verification/LMDB_File_Index.thy ===== *)
theory LMDB_File_Index
  imports File_Index LMDB_Read
begin

text \<open>
  The index behind the cache, \<^verbatim>\<open>src/urbackupserver/LMDBFileIndex.cpp\<close>: its read operations on the transaction that \<open>begin_txn\<close> opened,
  composed of the cursor operations of the database, the key layout and the variable-length integers. A result is the value
  and whether \<open>_has_error\<close> was set; \<open>None\<close> is a read outside a buffer or of an uninitialised id.
\<close>

subsection \<open>Operations\<close>

text \<open>\<open>CRData data(mv_data, mv_size); data.getVarInt(&ret)\<close>, with the value of \<open>ret\<close> before, if it has one.\<close>

definition read_id :: "int option \<Rightarrow> byte list \<Rightarrow> int option" where
  "read_id ret d =
     do { r \<leftarrow> rset d (length d) False (CRData_empty False);
          (v, r) \<leftarrow> getVarInt r;
          case v of None \<Rightarrow> ret | Some w \<Rightarrow> Some (sint w) }"

definition lmdb_get :: "bool \<Rightarrow> mdb_txn \<Rightarrow> SIndexKey \<Rightarrow> (int \<times> bool) option" where
  "lmdb_get be txn key =
     do { (rc, d, txn) \<leftarrow> mdb_get txn MAIN_DBI (key_bytes be key);
          if rc = MDB_NOTFOUND then Some (0, False)
          else if rc \<noteq> 0 then Some (0, True)
          else do { d \<leftarrow> d; v \<leftarrow> read_id (Some 0) d; Some (v, False) } }"

definition lmdb_get_any_client :: "bool \<Rightarrow> mdb_txn \<Rightarrow> SIndexKey \<Rightarrow> (int \<times> bool) option" where
  "lmdb_get_any_client be txn key =
     do { let orig_key = key;
          (rc, (k, d), mc, txn) \<leftarrow> mdb_cursor_get txn (mdb_cursor_init MAIN_DBI) (Some (key_bytes be key)) True True MDB_SET_RANGE;
          if rc = MDB_NOTFOUND \<or> \<not> isEqualWithoutClientid orig_key orig_key then Some (0, False)
          else if rc \<noteq> 0 then Some (0, True)
          else do { d \<leftarrow> d; v \<leftarrow> read_id (Some 0) d; Some (v, False) } }"

partial_function (option) lmdb_clients_loop ::
    "bool \<Rightarrow> SIndexKey \<Rightarrow> int \<Rightarrow> kv \<Rightarrow> mdb_cursor \<Rightarrow> mdb_txn \<Rightarrow> (u32 \<rightharpoonup> int) \<Rightarrow> (int \<times> (u32 \<rightharpoonup> int)) option" where
  "lmdb_clients_loop be orig_key rc kv mc txn ret =
     (if rc = 0 then
        do { kb \<leftarrow> fst kv;
             curr_key \<leftarrow> key_at be kb;
             if isEqualWithoutClientid orig_key curr_key
             then do { d \<leftarrow> snd kv;
                       entryid \<leftarrow> read_id None d;
                       (rc, kv, mc, txn) \<leftarrow> mdb_cursor_get txn mc None True True MDB_NEXT;
                       lmdb_clients_loop be orig_key rc kv mc txn (ret(getClientid be curr_key \<mapsto> entryid)) }
             else Some (rc, ret) }
      else Some (rc, ret))"

definition lmdb_get_all_clients :: "bool \<Rightarrow> mdb_txn \<Rightarrow> SIndexKey \<Rightarrow> ((u32 \<rightharpoonup> int) \<times> bool) option" where
  "lmdb_get_all_clients be txn key =
     do { (rc, kv, mc, txn) \<leftarrow> mdb_cursor_get txn (mdb_cursor_init MAIN_DBI) (Some (key_bytes be key)) True True MDB_SET_RANGE;
          (rc, ret) \<leftarrow> lmdb_clients_loop be key rc kv mc txn Map.empty;
          Some (ret, rc \<noteq> 0 \<and> rc \<noteq> MDB_NOTFOUND) }"

text \<open>The loop of \<open>get_prefer_client\<close>, which looks at most at \<open>retry_prev\<close> entries. (Its tests of \<open>rc\<close> inside the loop are never true.)\<close>

fun lmdb_prefer_loop :: "bool \<Rightarrow> SIndexKey \<Rightarrow> nat \<Rightarrow> int \<Rightarrow> kv \<Rightarrow> mdb_cursor \<Rightarrow> mdb_txn \<Rightarrow> int option" where
  "lmdb_prefer_loop be orig_key 0 rc kv mc txn = Some 0"
| "lmdb_prefer_loop be orig_key (Suc retry_prev) rc kv mc txn =
     (if rc = 0 then
        do { kb \<leftarrow> fst kv;
             curr_key \<leftarrow> key_at be kb;
             if isEqualWithoutClientid curr_key orig_key
             then do { d \<leftarrow> snd kv; read_id (Some 0) d }
             else do { (rc, kv, mc, txn) \<leftarrow> mdb_cursor_get txn mc None True True MDB_PREV;
                       lmdb_prefer_loop be orig_key retry_prev rc kv mc txn } }
      else Some 0)"

definition lmdb_get_prefer_client :: "bool \<Rightarrow> mdb_txn \<Rightarrow> SIndexKey \<Rightarrow> int option" where
  "lmdb_get_prefer_client be txn key =
     do { (rc, kv, mc, txn) \<leftarrow> mdb_cursor_get txn (mdb_cursor_init MAIN_DBI) (Some (key_bytes be key)) True True MDB_SET_RANGE;
          lmdb_prefer_loop be key 2 rc kv mc txn }"

subsection \<open>What a database holds\<close>

definition entry_rep :: "bool \<Rightarrow> mdb_txn \<Rightarrow> byte list \<Rightarrow> SIndexKey \<times> int \<Rightarrow> bool" where
  "entry_rep be txn nb = (\<lambda>(k, v). key_wf k \<and> nb_key nb = key_bytes be k \<and>
     (\<exists>w. node_value txn nb = Some (varint_enc w) \<and> sint w = v))"

text \<open>The main database holds the entries \<open>es\<close>, in key order.\<close>

definition index_rep :: "bool \<Rightarrow> mdb_txn \<Rightarrow> (SIndexKey \<times> int) list \<Rightarrow> bool" where
  "index_rep be txn es \<longleftrightarrow> txn_usable txn MAIN_DBI \<and> (\<exists>cs. db_rep txn MAIN_DBI cs \<and> list_all2 (entry_rep be txn) cs es)"

lemma db_rep_sorted: "db_rep txn dbi cs \<Longrightarrow> sorted_wrt (\<lambda>a b. nb_key a < nb_key b) cs"
  using tree_at_sorted by (auto simp: db_rep_def Let_def split: if_splits)

lemma entries_ok:
  assumes "db_rep txn dbi cs" "list_all2 (entry_rep be txn) cs es"
  shows "smap_ok (key_less be) key_wf es"
proof -
  have len: "length es = length cs" using assms(2) list_all2_lengthD by fastforce
  have e: "key_wf (fst (es ! i)) \<and> nb_key (cs ! i) = key_bytes be (fst (es ! i))" if "i < length es" for i
    using list_all2_nthD [OF assms(2), of i] that len by (auto simp: entry_rep_def split: prod.splits)
  have "sorted_wrt (\<lambda>a b. key_less be (fst a) (fst b)) es"
    unfolding sorted_wrt_iff_nth_less
  proof (intro allI impI)
    fix i j assume ij: "i < j" "j < length es"
    have "nb_key (cs ! i) < nb_key (cs ! j)" using db_rep_sorted [OF assms(1)] ij len by (simp add: sorted_wrt_iff_nth_less)
    then show "key_less be (fst (es ! i)) (fst (es ! j))" using e [of i] e [of j] ij key_less_bytes by simp
  qed
  then show ?thesis using e unfolding smap_ok_def by (metis in_set_conv_nth)
qed

lemma read_id_enc: "read_id ret (varint_enc w) = Some (sint w)"
proof -
  let ?r = "\<lparr>rdata = Some (varint_enc w), streampos = 0, datalen = length (varint_enc w), rcopy = False\<rparr>"
  have l: "length (varint_enc w) \<le> 9" by (rule varint_enc)
  then have r: "rset (varint_enc w) (length (varint_enc w)) False (CRData_empty False) = Some ?r"
    by (simp add: rset_def CRData_empty_def max_datalen_def Let_def)
  have "rwf ?r" "ravail ?r = varint_enc w @ []" using l by (simp_all add: rwf_def ravail_def max_datalen_def bslice_def)
  then show ?thesis using r getVarInt_enc [of ?r w "[]"] by (simp add: read_id_def)
qed

text \<open>The lower bound among the nodes and among the entries.\<close>

lemma lower_bound_entries:
  assumes "list_all2 (entry_rep be txn) cs es" "key_wf key"
  shows "map_lower (key_less be) key es = drop (lower_bound cs (key_bytes be key)) es"
  using assms(1)
proof (induction rule: list_all2_induct)
  case (Cons nb cs e es)
  obtain k v where e: "e = (k, v)" by (cases e)
  have "key_less be k key \<longleftrightarrow> nb_key nb < key_bytes be key" using Cons.hyps(1) e key_less_bytes [OF _ assms(2)] by (auto simp: entry_rep_def)
  then show ?case using Cons.IH e by (auto simp: map_lower_def lower_bound_def)
qed (simp add: map_lower_def)

lemma lookup_entries:
  assumes "list_all2 (entry_rep be txn) cs es" "key_wf key"
  shows "(case lookup_node cs (key_bytes be key) of None \<Rightarrow> map_of es key = None
     | Some nb \<Rightarrow> \<exists>w. node_value txn nb = Some (varint_enc w) \<and> map_of es key = Some (sint w))"
  using assms(1)
proof (induction rule: list_all2_induct)
  case (Cons nb cs e es)
  obtain k v where e: "e = (k, v)" by (cases e)
  have "nb_key nb = key_bytes be key \<longleftrightarrow> k = key" using Cons.hyps(1) e key_bytes_inj [OF _ assms(2)] by (auto simp: entry_rep_def)
  then show ?case using Cons e by (auto simp: lookup_node_def entry_rep_def split: option.splits)
qed (simp add: lookup_node_def)

lemma key_bytes_ok: "key_wf key \<Longrightarrow> key_bytes be key \<noteq> []" "key_wf key \<Longrightarrow> length (key_bytes be key) < 2 ^ 32"
  using length_key_bytes [of key be] by auto

lemma lmdb_get_eq:
  assumes "index_rep be txn es" "key_wf key"
  shows "lmdb_get be txn key = Some (id_of (map_of es key), False)"
proof -
  obtain cs where cs: "db_rep txn MAIN_DBI cs" "list_all2 (entry_rep be txn) cs es" "txn_usable txn MAIN_DBI"
    using assms(1) by (auto simp: index_rep_def)
  note g = mdb_get_eq [OF cs(1,3) key_bytes_ok [OF assms(2), of be]]
  show ?thesis using g lookup_entries [OF cs(2) assms(2)]
    by (auto simp: lmdb_get_def id_of_def read_id_enc rc_defs split: option.splits)
qed

text \<open>The loop over the entries of one file, from a cursor on entry \<open>i\<close>.\<close>

lemma kv_at_entry:
  assumes "list_all2 (entry_rep be txn) cs es" "i < length cs"
  obtains k v w where "es ! i = (k, v)" "key_wf k" "kv_at txn cs True True i = (Some (key_bytes be k), Some (varint_enc w))" "sint w = v"
proof -
  obtain k v where e: "es ! i = (k, v)" by (cases "es ! i")
  have "entry_rep be txn (cs ! i) (k, v)" using list_all2_nthD [OF assms] e by simp
  then obtain w where "key_wf k" "nb_key (cs ! i) = key_bytes be k" "node_value txn (cs ! i) = Some (varint_enc w)" "sint w = v"
    by (auto simp: entry_rep_def)
  then show ?thesis using that [OF e] by (simp add: kv_at_def)
qed

lemma key_at_bytes': "key_wf k \<Longrightarrow> key_at be (key_bytes be k) = Some k"
  using key_at_bytes [of k be "[]"] by simp

lemma isEqual_commute: "key_wf a \<Longrightarrow> key_wf b \<Longrightarrow> isEqualWithoutClientid a b = isEqualWithoutClientid b a"
proof -
  assume wf: "key_wf a" "key_wf b"
  have "memcmp (khash a) (khash b) = 0 \<longleftrightarrow> memcmp (khash b) (khash a) = 0"
    using memcmp_0 [of "khash a" "khash b"] memcmp_0 [of "khash b" "khash a"] wf unfolding key_wf_def by metis
  moreover have "kfilesize a = kfilesize b \<longleftrightarrow> kfilesize b = kfilesize a" by (rule eq_commute)
  ultimately show ?thesis unfolding isEqualWithoutClientid_def by simp
qed

lemma lmdb_clients_loop_eq:
  assumes db: "db_rep txn MAIN_DBI cs" "txn_usable txn MAIN_DBI" "list_all2 (entry_rep be txn) cs es" and key: "key_wf key"
  shows "cursor_on txn cs mc i \<Longrightarrow>
    \<exists>rc. lmdb_clients_loop be key 0 (kv_at txn cs True True i) mc txn ret = Some (rc, all_clients_loop be key (drop i es) ret) \<and> (rc = 0 \<or> rc = MDB_NOTFOUND)"
proof (induction "length cs - i" arbitrary: i mc ret)
  case 0
  then show ?case using cursor_on_bound by fastforce
next
  case (Suc n)
  have i: "i < length cs" using cursor_on_bound [OF Suc.prems] .
  obtain k v w where e: "es ! i = (k, v)" "key_wf k" "kv_at txn cs True True i = (Some (key_bytes be k), Some (varint_enc w))" "sint w = v"
    by (rule kv_at_entry [OF db(3) i])
  have d: "drop i es = (k, v) # drop (Suc i) es" using i e(1) list_all2_lengthD [OF db(3)] by (simp add: Cons_nth_drop_Suc [symmetric])
  have eq: "isEqualWithoutClientid key k = isEqualWithoutClientid k key" using isEqual_commute [OF key e(2)] .
  show ?case
  proof (cases "isEqualWithoutClientid k key")
    case False
    then show ?thesis using e eq d by (subst lmdb_clients_loop.simps) (simp add: key_at_bytes')
  next
    case True
    let ?ret = "ret(getClientid be k \<mapsto> v)"
    obtain mc' where n: "mdb_cursor_get txn mc None True True MDB_NEXT =
        Some (if Suc i < length cs then (MDB_SUCCESS, kv_at txn cs True True (Suc i), mc', txn) else (MDB_NOTFOUND, (None, None), mc', txn))"
        "cursor_on txn cs mc' (if Suc i < length cs then Suc i else i)"
      using cursor_get_next [OF db(1,2) Suc.prems] by blast
    show ?thesis
    proof (cases "Suc i < length cs")
      case last: False
      then have "drop (Suc i) es = []" using list_all2_lengthD [OF db(3)] by simp
      moreover have "lmdb_clients_loop be key MDB_NOTFOUND (None, None) mc' txn ?ret = Some (MDB_NOTFOUND, ?ret)"
        by (subst lmdb_clients_loop.simps) (simp add: rc_defs)
      ultimately show ?thesis using True e eq d n last by (subst lmdb_clients_loop.simps) (simp add: key_at_bytes' read_id_enc)
    next
      case more: True
      have len: "n = length cs - Suc i" using Suc.hyps(2) by simp
      have "cursor_on txn cs mc' (Suc i)" using n(2) more by simp
      then obtain rc where "lmdb_clients_loop be key 0 (kv_at txn cs True True (Suc i)) mc' txn ?ret =
          Some (rc, all_clients_loop be key (drop (Suc i) es) ?ret)" "rc = 0 \<or> rc = MDB_NOTFOUND"
        using Suc.hyps(1) [OF len, of mc' ?ret] by blast
      then show ?thesis using True e eq d n more by (subst lmdb_clients_loop.simps) (simp add: key_at_bytes' read_id_enc MDB_SUCCESS_def)
    qed
  qed
qed

lemma lmdb_set_range:
  assumes "index_rep be txn es" "key_wf key"
  shows "\<exists>cs mc. db_rep txn MAIN_DBI cs \<and> list_all2 (entry_rep be txn) cs es \<and>
    (let i = lower_bound cs (key_bytes be key) in
     map_lower (key_less be) key es = drop i es \<and>
     mdb_cursor_get txn (mdb_cursor_init MAIN_DBI) (Some (key_bytes be key)) True True MDB_SET_RANGE =
       Some (if i < length cs then (0, kv_at txn cs True True i, mc, txn) else (MDB_NOTFOUND, (None, None), mc, txn)) \<and>
     (i < length cs \<longrightarrow> cursor_on txn cs mc i))"
proof -
  obtain cs where cs: "db_rep txn MAIN_DBI cs" "list_all2 (entry_rep be txn) cs es" "txn_usable txn MAIN_DBI"
    using assms(1) by (auto simp: index_rep_def)
  show ?thesis
    using cursor_get_range [OF cs(1,3) fresh_cursor_init key_bytes_ok [OF assms(2), of be]] cs lower_bound_entries [OF cs(2) assms(2)]
    unfolding Let_def MDB_SUCCESS_def by blast
qed

lemma lmdb_get_all_clients_eq:
  assumes "index_rep be txn es" "key_wf key"
  shows "lmdb_get_all_clients be txn key = Some (\<lambda>c. if getClientid be key \<le> c then map_of es (client_key be key c) else None, False)"
proof -
  obtain cs mc where db: "db_rep txn MAIN_DBI cs" "list_all2 (entry_rep be txn) cs es" and
    low: "map_lower (key_less be) key es = drop (lower_bound cs (key_bytes be key)) es" and
    get: "mdb_cursor_get txn (mdb_cursor_init MAIN_DBI) (Some (key_bytes be key)) True True MDB_SET_RANGE =
       Some (if lower_bound cs (key_bytes be key) < length cs then (0, kv_at txn cs True True (lower_bound cs (key_bytes be key)), mc, txn)
             else (MDB_NOTFOUND, (None, None), mc, txn))" and
    on: "lower_bound cs (key_bytes be key) < length cs \<longrightarrow> cursor_on txn cs mc (lower_bound cs (key_bytes be key))"
    using lmdb_set_range [OF assms] unfolding Let_def by blast
  have use: "txn_usable txn MAIN_DBI" using assms(1) by (simp add: index_rep_def)
  let ?i = "lower_bound cs (key_bytes be key)"
  have "lmdb_get_all_clients be txn key = Some (get_from_cache_all_clients be key es Map.empty, False)"
  proof (cases "?i < length cs")
    case True
    obtain rc where "lmdb_clients_loop be key 0 (kv_at txn cs True True ?i) mc txn Map.empty = Some (rc, all_clients_loop be key (drop ?i es) Map.empty)"
        "rc = 0 \<or> rc = MDB_NOTFOUND"
      using lmdb_clients_loop_eq [OF db(1) use db(2) assms(2)] on True by blast
    then show ?thesis using get True low by (auto simp: lmdb_get_all_clients_def get_from_cache_all_clients_def)
  next
    case False
    have "lmdb_clients_loop be key MDB_NOTFOUND (None, None) mc txn Map.empty = Some (MDB_NOTFOUND, Map.empty)"
      by (subst lmdb_clients_loop.simps) (simp add: rc_defs)
    then show ?thesis using get False low list_all2_lengthD [OF db(2)] by (simp add: lmdb_get_all_clients_def get_from_cache_all_clients_def)
  qed
  moreover have "get_from_cache_all_clients be key es Map.empty = (\<lambda>c. if getClientid be key \<le> c then map_of es (client_key be key c) else None)"
    by (rule ext) (auto simp: get_from_cache_all_clients_eq [OF entries_ok [OF db] assms(2)] split: option.splits)
  ultimately show ?thesis by simp
qed

lemma lmdb_get_any_client_eq:
  assumes "index_rep be txn es" "key_wf key"
  shows "lmdb_get_any_client be txn key = Some (case map_lower (key_less be) key es of [] \<Rightarrow> 0 | e # _ \<Rightarrow> snd e, False)"
proof -
  obtain cs mc where db: "db_rep txn MAIN_DBI cs" "list_all2 (entry_rep be txn) cs es" and
    low: "map_lower (key_less be) key es = drop (lower_bound cs (key_bytes be key)) es" and
    get: "mdb_cursor_get txn (mdb_cursor_init MAIN_DBI) (Some (key_bytes be key)) True True MDB_SET_RANGE =
       Some (if lower_bound cs (key_bytes be key) < length cs then (0, kv_at txn cs True True (lower_bound cs (key_bytes be key)), mc, txn)
             else (MDB_NOTFOUND, (None, None), mc, txn))"
    using lmdb_set_range [OF assms] unfolding Let_def by blast
  let ?i = "lower_bound cs (key_bytes be key)"
  have refl: "isEqualWithoutClientid key key" by (simp add: isEqualWithoutClientid_def memcmp_refl)
  show ?thesis
  proof (cases "?i < length cs")
    case True
    obtain k v w where e: "es ! ?i = (k, v)" "kv_at txn cs True True ?i = (Some (key_bytes be k), Some (varint_enc w))" "sint w = v"
      by (rule kv_at_entry [OF db(2) True])
    then have "drop ?i es = (k, v) # drop (Suc ?i) es" using True list_all2_lengthD [OF db(2)] by (simp add: Cons_nth_drop_Suc [symmetric])
    then show ?thesis using get True low e refl by (simp add: lmdb_get_any_client_def read_id_enc rc_defs)
  next
    case False
    then show ?thesis using get low list_all2_lengthD [OF db(2)] by (simp add: lmdb_get_any_client_def)
  qed
qed

subsection \<open>A sample index\<close>

text \<open>One leaf page of 96 bytes with the entries of two clients for one file, on a little-endian host.\<close>

definition index_nb :: "byte \<Rightarrow> byte \<Rightarrow> byte list" where
  "index_nb c v = [1, 0, 0, 0, 0, 0, 28, 0, 7, 7, 7, 7, 7, 7, 7, 7, 7, 7, 7, 7, 7, 7, 7, 7, 0, 0, 0, 0, 0, 0, 0, 0, 0, 0, 0, c, v]"

definition index_leaf :: page where
  "index_leaf = [2, 0, 0, 0, 0, 0, 0, 0, 0, 0, 2, 0, 20, 0, 20, 0, 58, 0, 20, 0] @ index_nb 1 6 @ [0] @ index_nb 0 5 @ [0]"

definition index_txn :: mdb_txn where
  "index_txn = tree_txn\<lparr>mt_next_pgno := 3, me_psize := 96, me_maxpg := 3, me_map := replicate 192 0 @ index_leaf,
     mt_dbs := [tree_db\<lparr>md_depth := 1, md_branch_pages := 0, md_leaf_pages := 1, md_entries := 2\<rparr>,
                tree_db\<lparr>md_depth := 1, md_branch_pages := 0, md_leaf_pages := 1, md_entries := 2\<rparr>]\<rparr>"

definition index_entries :: "(SIndexKey \<times> int) list" where
  "index_entries = [(sample_key 0, 5), (sample_key 16777216, 6)]"

lemma index_nb_simps [simp]:
  "nb_key (index_nb c v) = [7, 7, 7, 7, 7, 7, 7, 7, 7, 7, 7, 7, 7, 7, 7, 7, 0, 0, 0, 0, 0, 0, 0, 0, 0, 0, 0, c]"
  "node_value txn (index_nb c v) = Some [v]" "value_ok txn (index_nb c v)"
  by (simp_all add: nb_key_def hdr_of_def index_nb_def get16_def le16_def bslice_def node_value_def value_ok_def nb_data_def
      F_ISSET_def F_BIGDATA_def F_DUPDATA_def)

lemma index_lay: "page_lay index_leaf [(58, index_nb 0 5), (20, index_nb 1 6)]"
  by (simp add: page_eval index_leaf_def index_nb_def)

lemma varint_enc_sample: "varint_enc 5 = [5]" "varint_enc 6 = [6]"
  unfolding varint_enc_def by code_simp+

lemma index_sample: "index_rep False index_txn index_entries"
proof -
  let ?nbs = "[index_nb 0 5, index_nb 1 6]"
  have rep: "page_rep index_leaf ?nbs" unfolding page_rep_def by (rule exI, rule conjI, rule index_lay, simp)
  have fl: "IS_LEAF index_leaf" "\<not> IS_BRANCH index_leaf" by (simp_all add: page_eval index_leaf_def)
  have keys: "keys_sorted index_leaf ?nbs" using fl by (simp add: keys_sorted_def first_entry_def)
  have "length index_leaf = 96" by (simp add: index_leaf_def index_nb_def)
  then have "page_mem index_txn (Map_page 2) = Some index_leaf" by (simp add: page_mem_def index_txn_def)
  then have at: "page_at index_txn 2 index_leaf" by (simp add: page_at_def mdb_page_get_def index_txn_def tree_txn_def rc_defs)
  have "tree_at index_txn None None 0 2 ?nbs" by (rule tree_at.leaf [OF at rep fl keys]) (simp add: in_range_def)
  then have db: "db_rep index_txn MAIN_DBI ?nbs"
    using exI [of "\<lambda>h. h < CURSOR_STACK \<and> tree_at index_txn None None h 2 ?nbs" 0]
    by (simp add: db_rep_def memn_db_def MAIN_DBI_def CURSOR_STACK_def) (simp add: index_txn_def tree_txn_def tree_db_def P_INVALID_def)
  have "key_bytes False (sample_key 0) = nb_key (index_nb 0 5)" "key_bytes False (sample_key 16777216) = nb_key (index_nb 1 6)"
    by (simp_all add: sample_key_def key_bytes_def host_bytes_def enc_le_numeral) (simp_all add: numeral_eq_Suc)
  then have "entry_rep False index_txn (index_nb 0 5) (sample_key 0, 5)" "entry_rep False index_txn (index_nb 1 6) (sample_key 16777216, 6)"
    using varint_enc_sample exI [of "\<lambda>w. [5] = varint_enc w \<and> sint w = 5" 5] exI [of "\<lambda>w. [6] = varint_enc w \<and> sint w = 6" 6]
    by (simp_all add: entry_rep_def sample_key_wf)
  then show ?thesis using db unfolding index_rep_def
    by (auto simp: index_entries_def txn_usable_def index_txn_def tree_txn_def MDB_TXN_BLOCKED_def MAIN_DBI_def)
qed

lemma sample_client: "getClientid False (sample_key 0) = 0" "client_key False (sample_key 0) 1 = sample_key 16777216"
  "client_key False (sample_key 0) 0 = sample_key 0"
  by (simp_all add: getClientid_def client_key_def sample_key_def big_endian32_def endian_swap32_def)

lemma map_of_index_entries: "map_of index_entries (sample_key 16777216) = Some 6" "map_of index_entries (sample_key 0) = Some 5"
  by (simp_all add: index_entries_def sample_key_def)

subsection \<open>Properties\<close>

text \<open>C18. \<open>LMDBFileIndex::get\<close>, down to the bytes of the database file: on a database that holds the entries \<open>es\<close>, for any tree and page
  layout and either byte order of the host, it returns the id stored for exactly that hash, size and client, or 0, without an error.\<close>
theorem lmdb_get_correct:
  assumes "index_rep be txn es" "key_wf key"
  shows "lmdb_get be txn key = Some (case map_of es key of Some v \<Rightarrow> v | None \<Rightarrow> 0, False)"
  using lmdb_get_eq [OF assms] by (simp add: id_of_def)

theorem lmdb_get_correct_witness:
  "lmdb_get False index_txn (sample_key 0) = Some (5, False) \<and> lmdb_get False index_txn SIndexKey_zero = Some (0, False)"
proof -
  have "key_wf SIndexKey_zero" "map_of index_entries SIndexKey_zero = None"
    by (simp_all add: key_wf_def SIndexKey_zero_def index_entries_def sample_key_def bytes_in_index_def)
  then show ?thesis
    using lmdb_get_correct [OF index_sample sample_key_wf, of 0] lmdb_get_correct [OF index_sample, of SIndexKey_zero] map_of_index_entries
    by simp
qed

text \<open>\<open>LMDBFileIndex::get_all_clients\<close>: the cursor scan from the key collects, for every client from that of the key on, the id of the
  file with the key's hash and size, and nothing else; it ends, without an error.\<close>
theorem lmdb_get_all_clients_correct:
  assumes "index_rep be txn es" "key_wf key"
  shows "lmdb_get_all_clients be txn key = Some (\<lambda>c. if getClientid be key \<le> c then map_of es (client_key be key c) else None, False)"
  by (rule lmdb_get_all_clients_eq [OF assms])

theorem lmdb_get_all_clients_correct_witness:
  "map_option (\<lambda>(m, e). (m 0, m 1, e)) (lmdb_get_all_clients False index_txn (sample_key 0)) = Some (Some 5, Some 6, False)"
  using lmdb_get_all_clients_correct [OF index_sample sample_key_wf, of 0] sample_client map_of_index_entries by simp

text \<open>\<open>LMDBFileIndex::get_any_client\<close> compares the key with itself, so it returns the id of the next entry in the index also when that
  entry is of a different file.\<close>
lemma lmdb_get_any_client_other_file:
  "lmdb_get_any_client False index_txn SIndexKey_zero = Some (5, False) \<and>
   (\<forall>e \<in> set index_entries. \<not> isEqualWithoutClientid (fst e) SIndexKey_zero)"
proof -
  have z: "key_wf SIndexKey_zero" by (simp add: key_wf_def SIndexKey_zero_def)
  have h: "khash (sample_key c) \<noteq> khash SIndexKey_zero" for c
    by (simp add: sample_key_def SIndexKey_zero_def bytes_in_index_def)
  have n: "\<not> isEqualWithoutClientid (sample_key c) SIndexKey_zero" for c
    using h [of c] memcmp_0 [of "khash (sample_key c)" "khash SIndexKey_zero"] z sample_key_wf [of c]
    unfolding isEqualWithoutClientid_def key_wf_def by simp
  have "\<not> key_less False (sample_key 0) SIndexKey_zero" by code_simp
  then have "map_lower (key_less False) SIndexKey_zero index_entries = index_entries"
    by (simp add: map_lower_def index_entries_def)
  then show ?thesis using lmdb_get_any_client_eq [OF index_sample z] n by (simp add: index_entries_def)
qed

end
