(* ===== verification/Files_Table.thy ===== *)
theory Files_Table
  imports File_List Index_Key
begin

text \<open>
  The SQL table of file entries and its data access object (\<^verbatim>\<open>src/urbackupserver/dao/ServerFilesDao.cpp\<close>). The table is the list of its
  rows in the order of the primary key, as the database stores it; a statement is its effect on the list. Integers of the database
  are unbounded here (the ids stay below \<open>2 ^ 63\<close>).
\<close>

record file_entry =
  backupid :: int
  fullpath :: string
  hashpath :: string
  shahash :: "byte list"
  filesize :: int
  rsize :: int
  clientid :: int
  incremental :: int
  next_entry :: int
  prev_entry :: int
  pointed_to :: int

record incoming_stat =
  st_filesize :: int
  st_clientid :: int
  st_backupid :: int
  st_existing_clients :: string
  st_direction :: int
  st_incremental :: int

record files_db =
  files :: "(int \<times> file_entry) list"
  files_incoming_stat :: "incoming_stat list"

definition c_direction_incoming :: int where
  "c_direction_incoming = 0"

definition c_direction_outgoing :: int where
  "c_direction_outgoing = 1"

definition c_direction_outgoing_nobackupstat :: int where
  "c_direction_outgoing_nobackupstat = 2"

subsection \<open>Statements\<close>

text \<open>\<open>UPDATE files SET ... WHERE id=?\<close> and the statements built on it.\<close>

definition update_row :: "int \<Rightarrow> (file_entry \<Rightarrow> file_entry) \<Rightarrow> files_db \<Rightarrow> files_db" where
  "update_row i f db = db\<lparr>files := map (\<lambda>(i', r). (i', if i' = i then f r else r)) (files db)\<rparr>"

definition setNextEntry :: "int \<Rightarrow> int \<Rightarrow> files_db \<Rightarrow> files_db" where
  "setNextEntry next i db = update_row i (\<lambda>r. r\<lparr>next_entry := next\<rparr>) db"

definition setPrevEntry :: "int \<Rightarrow> int \<Rightarrow> files_db \<Rightarrow> files_db" where
  "setPrevEntry prev i db = update_row i (\<lambda>r. r\<lparr>prev_entry := prev\<rparr>) db"

definition setPointedTo :: "int \<Rightarrow> int \<Rightarrow> files_db \<Rightarrow> files_db" where
  "setPointedTo p i db = update_row i (\<lambda>r. r\<lparr>pointed_to := p\<rparr>) db"

definition getFileEntry :: "int \<Rightarrow> files_db \<Rightarrow> file_entry option" where
  "getFileEntry i db = map_of (files db) i"

definition getPointedTo :: "int \<Rightarrow> files_db \<Rightarrow> int option" where
  "getPointedTo i db = map_option pointed_to (getFileEntry i db)"

definition delFileEntry :: "int \<Rightarrow> files_db \<Rightarrow> files_db" where
  "delFileEntry i db = db\<lparr>files := filter (\<lambda>(i', r). i' \<noteq> i) (files db)\<rparr>"

definition deleteFiles :: "int \<Rightarrow> files_db \<Rightarrow> files_db" where
  "deleteFiles b db = db\<lparr>files := filter (\<lambda>(i, r). backupid r \<noteq> b) (files db)\<rparr>"

text \<open>The id that the database gives to a new row of a table with an \<open>INTEGER PRIMARY KEY\<close>: one more than the largest.\<close>

definition new_rowid :: "files_db \<Rightarrow> int" where
  "new_rowid db = (if files db = [] then 1 else fst (last (files db)) + 1)"

definition addFileEntry :: "file_entry \<Rightarrow> files_db \<Rightarrow> files_db" where
  "addFileEntry r db = db\<lparr>files := files db @ [(new_rowid db, r)]\<rparr>"

definition addFileEntryExternal :: "file_entry \<Rightarrow> files_db \<Rightarrow> int \<times> files_db" where
  "addFileEntryExternal r db =
     (let i = new_rowid db;
          db = addFileEntry r db;
          db = (if prev_entry r \<noteq> 0 then setNextEntry i (prev_entry r) db else db);
          db = (if next_entry r \<noteq> 0 then setPrevEntry i (next_entry r) db else db)
      in (i, db))"

definition addIncomingFile :: "incoming_stat \<Rightarrow> files_db \<Rightarrow> files_db" where
  "addIncomingFile s db = db\<lparr>files_incoming_stat := files_incoming_stat db @ [s]\<rparr>"

text \<open>\<open>SELECT MIN(id), MAX(id)\<close>: without a row both are \<open>NULL\<close>, which reads as 0.\<close>

definition backup_ids :: "int \<Rightarrow> files_db \<Rightarrow> int list" where
  "backup_ids b db = map fst (filter (\<lambda>(i, r). backupid r = b) (files db))"

definition getBackupIdMinMax :: "int \<Rightarrow> files_db \<Rightarrow> int \<times> int" where
  "getBackupIdMinMax b db = (case backup_ids b db of [] \<Rightarrow> (0, 0) | i # is \<Rightarrow> (fold min is i, fold max is i))"

subsection \<open>The table as a map\<close>

definition table_ok :: "files_db \<Rightarrow> bool" where
  "table_ok db \<longleftrightarrow> sorted_wrt (<) (map fst (files db)) \<and> (\<forall>i \<in> fst ` set (files db). 0 < i)"

abbreviation rows :: "files_db \<Rightarrow> int \<rightharpoonup> file_entry" where
  "rows db \<equiv> map_of (files db)"

lemma rows_update [simp]: "rows (update_row i f db) = (rows db)(i := map_option f (rows db i))"
proof -
  have "map_of (map (\<lambda>(i', r). (i', if i' = i then f r else r)) t) j = ((map_of t)(i := map_option f (map_of t i))) j" for j t
    by (induction t) auto
  then show ?thesis by (simp add: update_row_def fun_eq_iff)
qed

lemma map_of_filter_key: "map_of (filter (\<lambda>(k, v). P k) t) j = (if P j then map_of t j else None)"
  by (induction t) auto

lemma rows_del [simp]: "rows (delFileEntry i db) = (rows db)(i := None)"
  by (auto simp: delFileEntry_def map_of_filter_key)

lemma rows_stat [simp]: "rows (addIncomingFile s db) = rows db" "files (addIncomingFile s db) = files db"
  by (simp_all add: addIncomingFile_def)

lemma map_fst_update [simp]: "map fst (files (update_row i f db)) = map fst (files db)"
  by (auto simp: update_row_def)

lemma table_ok_update [simp]: "table_ok (update_row i f db) = table_ok db"
proof -
  have "fst ` set (files (update_row i f db)) = fst ` set (files db)" by (metis list.set_map map_fst_update)
  then show ?thesis by (simp add: table_ok_def)
qed

lemma table_ok_del: "table_ok db \<Longrightarrow> table_ok (delFileEntry i db)"
  by (auto simp: table_ok_def delFileEntry_def sorted_wrt_map sorted_wrt_filter)

lemma table_ok_stat [simp]: "table_ok (addIncomingFile s db) = table_ok db"
  by (simp add: table_ok_def)

lemma sorted_le_last: "sorted_wrt (<) xs \<Longrightarrow> x \<in> set xs \<Longrightarrow> x \<le> last (xs :: int list)"
  by (induction xs) (auto simp: less_imp_le)

lemma new_rowid:
  assumes "table_ok db"
  shows "0 < new_rowid db" "i \<in> fst ` set (files db) \<Longrightarrow> i < new_rowid db" "rows db (new_rowid db) = None"
proof -
  have le: "i \<le> fst (last (files db))" if "i \<in> fst ` set (files db)" for i
  proof -
    have ne: "files db \<noteq> []" using that by force
    have "i \<in> set (map fst (files db))" using that by simp
    then have "i \<le> last (map fst (files db))" using assms unfolding table_ok_def by (intro sorted_le_last) simp_all
    then show ?thesis unfolding last_map [OF ne] .
  qed
  have pos: "0 < fst (last (files db))" if "files db \<noteq> []" using assms that by (auto simp: table_ok_def)
  then show "0 < new_rowid db" by (auto simp: new_rowid_def)
  show lt: "i < new_rowid db" if "i \<in> fst ` set (files db)" for i using le [OF that] that by (auto simp: new_rowid_def)
  show "rows db (new_rowid db) = None" using lt by (force simp: map_of_eq_None_iff)
qed

lemma rows_add [simp]: assumes "table_ok db" shows "rows (addFileEntry r db) = (rows db)(new_rowid db \<mapsto> r)"
  using new_rowid(3) [OF assms] by (auto simp: addFileEntry_def map_add_def fun_eq_iff split: option.splits)

lemma table_ok_add: assumes "table_ok db" shows "table_ok (addFileEntry r db)"
  using assms new_rowid(1) [OF assms] new_rowid(2) [OF assms] by (auto simp: table_ok_def addFileEntry_def sorted_wrt_append)

lemma rows_pos: "table_ok db \<Longrightarrow> rows db i = Some r \<Longrightarrow> 0 < i"
  by (metis (no_types, lifting) fst_conv image_eqI map_of_SomeD table_ok_def)

lemma table_ok_ids: "map fst (files db) = map fst (files db') \<Longrightarrow> table_ok db \<Longrightarrow> table_ok db'"
  by (metis list.set_map table_ok_def)

lemma table_ok_distinct: "table_ok db \<Longrightarrow> distinct (map fst (files db))"
  unfolding table_ok_def using strict_sorted_iff by blast

lemma map_of_filter_value: "distinct (map fst t) \<Longrightarrow> map_of (filter (\<lambda>(k, v). P v) t) j = (case map_of t j of Some v \<Rightarrow> if P v then Some v else None | None \<Rightarrow> None)"
proof (induction t)
  case (Cons e t)
  obtain k v where e: "e = (k, v)" by (cases e)
  have "map_of t k = None" using Cons.prems e by (simp add: map_of_eq_None_iff)
  then show ?case using Cons e by (cases "j = k") auto
qed simp

lemma deleteFiles_rows:
  assumes "table_ok db"
  shows "rows (deleteFiles b db) j = (case rows db j of Some r \<Rightarrow> if backupid r \<noteq> b then Some r else None | None \<Rightarrow> None)"
  using map_of_filter_value [OF table_ok_distinct [OF assms], of "\<lambda>r. backupid r \<noteq> b"] by (simp add: deleteFiles_def)

lemma table_ok_deleteFiles: "table_ok db \<Longrightarrow> table_ok (deleteFiles b db)"
  by (auto simp: table_ok_def deleteFiles_def sorted_wrt_map sorted_wrt_filter)

end
