(* ===== verification/Entry_Index.thy ===== *)
theory Entry_Index
  imports File_Index
begin

text \<open>
  What the code that keeps the file entries relies on: the operations of the index it calls (the methods of \<open>FileIndex\<close>, as a record,
  since they are virtual) and the contract \<open>entry_index\<close> they meet. The write-back cache with its two buffers meets it.
\<close>

record 's index_ops =
  io_exact :: "SIndexKey \<Rightarrow> 's \<Rightarrow> int"
  io_prefer :: "SIndexKey \<Rightarrow> 's \<Rightarrow> int"
  io_all :: "SIndexKey \<Rightarrow> bool \<Rightarrow> 's \<Rightarrow> (u32 \<rightharpoonup> int)"
  io_put :: "SIndexKey \<Rightarrow> int \<Rightarrow> 's \<Rightarrow> 's option"
  io_del :: "SIndexKey \<Rightarrow> 's \<Rightarrow> 's option"
  io_flush :: "'s \<Rightarrow> 's"

definition nonzero :: "int option \<Rightarrow> int option" where
  "nonzero x = (case x of Some v \<Rightarrow> live v | None \<Rightarrow> None)"

locale entry_index =
  fixes be :: bool
    and ops :: "'s index_ops"
    and view :: "'s \<Rightarrow> SIndexKey \<rightharpoonup> int"
    and inv :: "'s \<Rightarrow> bool"
  assumes exact: "inv s \<Longrightarrow> key_wf k \<Longrightarrow> io_exact ops k s = id_of (view s k)"
    and all: "inv s \<Longrightarrow> key_wf k \<Longrightarrow> getClientid be k = 0 \<Longrightarrow> nonzero (io_all ops k with_del s c) = view s (client_key be k c)"
    and put: "inv s \<Longrightarrow> key_wf k \<Longrightarrow> \<exists>s'. io_put ops k v s = Some s' \<and> inv s' \<and> view s' = (view s)(k := live v)"
    and del: "inv s \<Longrightarrow> key_wf k \<Longrightarrow> \<exists>s'. io_del ops k s = Some s' \<and> inv s' \<and> view s' = (view s)(k := None)"
    and flush: "inv s \<Longrightarrow> inv (io_flush ops s) \<and> view (io_flush ops s) = view s"
    and not_0: "inv s \<Longrightarrow> view s k \<noteq> Some 0"

text \<open>A delayed write that has to wait returns after the index thread has made room.\<close>

definition writer_turn :: "file_index \<Rightarrow> file_index" where
  "writer_turn s = (case phase s of Idle \<Rightarrow> writer_take s | Writing \<Rightarrow> writer_commit s | Committed \<Rightarrow> writer_clear s)"

fun put_waiting :: "bool \<Rightarrow> nat \<Rightarrow> SIndexKey \<Rightarrow> int \<Rightarrow> file_index \<Rightarrow> file_index option" where
  "put_waiting be 0 k v s = put_delayed be k v s"
| "put_waiting be (Suc n) k v s =
     (case put_delayed be k v s of Some s' \<Rightarrow> Some s' | None \<Rightarrow> put_waiting be n k v (writer_turn s))"

text \<open>The methods of the index behind the cache, on its content; \<open>get_prefer\<close> is its \<open>get_prefer_client\<close>.\<close>

definition store_get :: "file_index \<Rightarrow> SIndexKey \<Rightarrow> int" where
  "store_get s k = id_of (store s k)"

definition store_all :: "bool \<Rightarrow> file_index \<Rightarrow> SIndexKey \<Rightarrow> (u32 \<rightharpoonup> int)" where
  "store_all be s k = (\<lambda>c. if getClientid be k \<le> c then store s (client_key be k c) else None)"

definition fi_ops :: "bool \<Rightarrow> (index \<Rightarrow> SIndexKey \<Rightarrow> int) \<Rightarrow> file_index index_ops" where
  "fi_ops be get_prefer =
     \<lparr>io_exact = (\<lambda>k s. get_with_cache_exact be (store_get s) k s),
      io_prefer = (\<lambda>k s. get_with_cache_prefer_client be (get_prefer (store s)) k s),
      io_all = (\<lambda>k with_del s. get_all_clients_with_cache be (store_all be s) k with_del s),
      io_put = (\<lambda>k v s. put_waiting be 3 k v s),
      io_del = (\<lambda>k s. put_waiting be 3 k 0 s),
      io_flush = request_flush\<rparr>"

definition fi_ready :: "bool \<Rightarrow> file_index \<Rightarrow> bool" where
  "fi_ready be s \<longleftrightarrow> fi_inv be s \<and> do_accept s"

lemma do_accept_writer [simp]:
  "do_accept (writer_take s) = do_accept s" "do_accept (writer_commit s) = do_accept s" "do_accept (writer_clear s) = do_accept s"
  "do_accept (set_active c s) = do_accept s"
  by (simp_all add: writer_take_def writer_commit_def writer_clear_def set_other_def set_active_def)

lemma writer_turn_ready: "fi_ready be s \<Longrightarrow> fi_ready be (writer_turn s) \<and> fi_view (writer_turn s) = fi_view s"
  using fi_writer [of be s] by (auto simp: fi_ready_def writer_turn_def split: wphase.splits)

lemma put_delayed_ready:
  assumes "fi_ready be s" "key_wf k" "put_delayed be k v s = Some s'"
  shows "fi_ready be s' \<and> fi_view s' = (fi_view s)(k := live v)"
  using fi_put [of be s k v s'] assms by (auto simp: fi_ready_def put_delayed_def split: if_splits)

lemma put_waiting_ready:
  "fi_ready be s \<Longrightarrow> key_wf k \<Longrightarrow> put_waiting be n k v s = Some s' \<Longrightarrow> fi_ready be s' \<and> fi_view s' = (fi_view s)(k := live v)"
proof (induction n arbitrary: s)
  case 0
  then show ?case using put_delayed_ready by simp
next
  case (Suc n)
  show ?case
  proof (cases "put_delayed be k v s")
    case None
    then have p: "put_waiting be n k v (writer_turn s) = Some s'" using Suc.prems(3) by simp
    have t: "fi_ready be (writer_turn s)" "fi_view (writer_turn s) = fi_view s" using writer_turn_ready [OF Suc.prems(1)] by simp_all
    show ?thesis using Suc.IH [OF t(1) Suc.prems(2) p] unfolding t(2) .
  qed (use Suc put_delayed_ready in auto)
qed

text \<open>At most three turns of the index thread make room.\<close>

lemma writer_turns_room:
  assumes "fi_inv be s"
  shows "active_cache_buffer s = [] \<or> active_cache_buffer (writer_turn s) = [] \<or> active_cache_buffer (writer_turn (writer_turn s)) = [] \<or>
    active_cache_buffer (writer_turn (writer_turn (writer_turn s))) = []"
proof -
  have "phase (writer_commit s) = Committed" "phase (writer_clear t) = Idle" "other_cache_buffer (writer_clear t) = []" for t
    by (simp_all add: writer_commit_def writer_clear_def)
  then show ?thesis using assms by (cases "phase s") (simp_all add: writer_turn_def fi_inv_def)
qed

lemma put_waiting_total:
  assumes "fi_ready be s"
  shows "\<exists>s'. put_waiting be 3 k v s = Some s'"
proof -
  have put: "\<exists>s'. put_delayed be k v s = Some s'" if "active_cache_buffer s = []" "fi_ready be s" for s
    using that by (simp add: put_delayed_def fi_ready_def max_buffer_size_def)
  have r: "fi_ready be (writer_turn s)" "fi_ready be (writer_turn (writer_turn s))" "fi_ready be (writer_turn (writer_turn (writer_turn s)))"
    using assms writer_turn_ready by blast+
  have inv: "fi_inv be s" using assms by (simp add: fi_ready_def)
  show ?thesis using writer_turns_room [OF inv] put [of s] put [of "writer_turn s"] put [of "writer_turn (writer_turn s)"]
      put [of "writer_turn (writer_turn (writer_turn s))"] assms r
    by (auto simp: numeral_3_eq_3 split: option.splits)
qed

lemma put_waiting_ok:
  assumes "fi_ready be s" "key_wf k"
  shows "\<exists>s'. put_waiting be 3 k v s = Some s' \<and> fi_ready be s' \<and> fi_view s' = (fi_view s)(k := live v)"
  using put_waiting_total [OF assms(1)] put_waiting_ready [OF assms] by metis

lemma fi_all:
  assumes "fi_ready be s" "key_wf k" "getClientid be k = 0"
  shows "nonzero (get_all_clients_with_cache be (store_all be s) k with_del s c) = fi_view s (client_key be k c)"
proof -
  let ?m = "\<lambda>wd. get_all_clients_with_cache be (store_all be s) k wd s"
  have "?m False = (\<lambda>c. if getClientid be k \<le> c then fi_view s (client_key be k c) else None)"
    by (rule all_clients_view) (use assms in \<open>simp_all add: fi_ready_def store_all_def fun_eq_iff\<close>)
  then have f: "?m False c = fi_view s (client_key be k c)" for c using assms(3) by simp
  have "?m False c = (if ?m True c = Some 0 then None else ?m True c)" for c by (simp add: get_all_clients_with_cache_def Let_def)
  then have "nonzero (?m True c) = ?m False c" "nonzero (?m False c) = ?m False c"
    by (auto simp: nonzero_def live_def split: option.splits)
  then show ?thesis using f by (cases with_del) simp_all
qed

lemma fi_view_not_0: "fi_inv be s \<Longrightarrow> fi_view s k \<noteq> Some 0"
  by (auto simp: fi_view_def live_def fi_inv_def ran_def split: option.splits)

interpretation fi: entry_index be "fi_ops be get_prefer" fi_view "fi_ready be"
proof
  show "io_exact (fi_ops be get_prefer) k s = id_of (fi_view s k)" if "fi_ready be s" "key_wf k" for s k
    using get_with_cache_exact_view [of be s k] that by (simp add: fi_ops_def fi_ready_def store_get_def [abs_def])
  show "nonzero (io_all (fi_ops be get_prefer) k with_del s c) = fi_view s (client_key be k c)"
    if "fi_ready be s" "key_wf k" "getClientid be k = 0" for s k with_del c
    using fi_all [OF that] by (simp add: fi_ops_def)
  show "\<exists>s'. io_put (fi_ops be get_prefer) k v s = Some s' \<and> fi_ready be s' \<and> fi_view s' = (fi_view s)(k := live v)"
    if "fi_ready be s" "key_wf k" for s k v
    using put_waiting_ok [OF that] by (simp add: fi_ops_def)
  show "\<exists>s'. io_del (fi_ops be get_prefer) k s = Some s' \<and> fi_ready be s' \<and> fi_view s' = (fi_view s)(k := None)"
    if "fi_ready be s" "key_wf k" for s k
    using put_waiting_ok [OF that, of 0] by (simp add: fi_ops_def live_def)
  show "fi_ready be (io_flush (fi_ops be get_prefer) s) \<and> fi_view (io_flush (fi_ops be get_prefer) s) = fi_view s" if "fi_ready be s" for s
    using that fi_flags(1,2) by (simp add: fi_ops_def fi_ready_def request_flush_def)
  show "fi_view s k \<noteq> Some 0" if "fi_ready be s" for s k using fi_view_not_0 that by (auto simp: fi_ready_def)
qed

end
