(* ===== verification/File_Entries.thy ===== *)
theory File_Entries
  imports Files_Table Entry_Index
begin

text \<open>
  The file entries of the backups (\<^verbatim>\<open>src/urbackupserver/server_hash.cpp\<close>, \<^verbatim>\<open>IncrFileBackup.cpp\<close>): every file of a backup is a row of the
  table; the rows of one client with the same hash and size form a doubly linked list, and the index points to one row of each list,
  the one with \<open>pointed_to\<close> set. Files below 2048 bytes are not linked. The operations work on the table and, through the methods of
  the index, on the index. A result is the new state or the reason why there is none.
\<close>

definition link_file_min_size :: int where
  "link_file_min_size = 2048"

datatype op_error = Assertion_failed | Bad_key | Waiting

record 's entries =
  edb :: files_db
  eidx :: 's

definition client_file_key :: "bool \<Rightarrow> byte list \<Rightarrow> int \<Rightarrow> int \<Rightarrow> SIndexKey option" where
  "client_file_key be h sz c = SIndexKey_new be h (word_of_int sz) (word_of_int c)"

definition file_key :: "bool \<Rightarrow> byte list \<Rightarrow> int \<Rightarrow> SIndexKey option" where
  "file_key be h sz = SIndexKey_file be h (word_of_int sz)"

text \<open>The clients of a non-zero entry, separated by commas, in the order of the map.\<close>

fun join :: "string list \<Rightarrow> string" where
  "join [] = ''''"
| "join [s] = s"
| "join (s # t # ss) = s @ '','' @ join (t # ss)"

definition clients_of :: "(u32 \<rightharpoonup> int) \<Rightarrow> string" where
  "clients_of m = join (map convert_int64 (sorted_list_of_set (sint ` {c. nonzero (m c) \<noteq> None})))"

subsection \<open>Adding an entry\<close>

text \<open>The branch for a file that is (predicted to be) new for the client: the result is the predecessor, the successor,
  \<open>update_fileindex\<close> and the database.\<close>

definition add_new_client ::
    "'s index_ops \<Rightarrow> bool \<Rightarrow> int \<Rightarrow> int \<Rightarrow> int \<Rightarrow> byte list \<Rightarrow> int \<Rightarrow> int \<Rightarrow> bool \<Rightarrow> 's entries \<Rightarrow> op_error + (int \<times> int \<times> bool \<times> files_db)" where
  "add_new_client ops be backup client incr h sz prev_entry_clientid update_fileindex st =
     (case (if prev_entry_clientid \<noteq> 0
            then (case file_key be h sz of
                    None \<Rightarrow> Inl Bad_key
                  | Some k \<Rightarrow> (let m = io_all ops k True (eidx st) in Inr (clients_of m, id_of (nonzero (m (word_of_int client))))))
            else Inr ('''', 0)) of
        Inl e \<Rightarrow> Inl e
      | Inr (clients, prev) \<Rightarrow>
          if prev = 0
          then Inr (0, 0, update_fileindex,
                 addIncomingFile \<lparr>st_filesize = sz, st_clientid = client, st_backupid = backup, st_existing_clients = clients,
                   st_direction = c_direction_incoming, st_incremental = incr\<rparr> (edb st))
          else
            (case getFileEntry prev (edb st) of
               Some fentry \<Rightarrow> Inr (prev, next_entry fentry, update_fileindex \<or> pointed_to fentry \<noteq> 0, edb st)
             | None \<Rightarrow> Inr (0, 0, update_fileindex, edb st)))"

text \<open>Taking the mark \<open>pointed_to\<close> away from the row that has it.\<close>

definition add_unpoint :: "'s index_ops \<Rightarrow> bool \<Rightarrow> int \<Rightarrow> byte list \<Rightarrow> int \<Rightarrow> int \<Rightarrow> 's \<Rightarrow> files_db \<Rightarrow> op_error + files_db" where
  "add_unpoint ops be client h sz prev s db =
     (case getPointedTo prev db of
        Some v \<Rightarrow>
          if v \<noteq> 0 then Inr (setPointedTo 0 prev db)
          else (case client_file_key be h sz client of
                  None \<Rightarrow> Inl Bad_key
                | Some k \<Rightarrow> (let e = io_exact ops k s in Inr (if e \<noteq> 0 then setPointedTo 0 e db else db)))
      | None \<Rightarrow>
          (case client_file_key be h sz client of
             None \<Rightarrow> Inl Bad_key
           | Some k \<Rightarrow> (let e = io_exact ops k s in Inr (if e \<noteq> 0 then setPointedTo 0 e db else db))))"

definition addFileSQL ::
    "'s index_ops \<Rightarrow> bool \<Rightarrow> int \<Rightarrow> int \<Rightarrow> int \<Rightarrow> string \<Rightarrow> string \<Rightarrow> byte list \<Rightarrow> int \<Rightarrow> int \<Rightarrow> int \<Rightarrow> int \<Rightarrow> int \<Rightarrow> bool \<Rightarrow> 's entries
      \<Rightarrow> op_error + 's entries" where
  "addFileSQL ops be backup client incr fp hash_path h sz rs prev prev_entry_clientid next update_fileindex st =
     (let entry = (\<lambda>next prev p. \<lparr>backupid = backup, fullpath = fp, hashpath = hash_path, shahash = h, filesize = sz, rsize = rs, clientid = client,
            incremental = incr, next_entry = next, prev_entry = prev, pointed_to = p\<rparr>) in
      if sz < link_file_min_size then
        if prev_entry_clientid = 0 \<and> prev = 0 \<and> next = 0
        then Inr (st\<lparr>edb := snd (addFileEntryExternal (entry next prev 0)
               (addIncomingFile \<lparr>st_filesize = sz, st_clientid = client, st_backupid = backup, st_existing_clients = '''',
                  st_direction = c_direction_incoming, st_incremental = incr\<rparr> (edb st)))\<rparr>)
        else Inl Assertion_failed
      else
        (let new_for_client = (prev_entry_clientid \<noteq> client \<or> prev = 0) in
         case (if new_for_client then add_new_client ops be backup client incr h sz prev_entry_clientid update_fileindex st
               else Inr (prev, next, update_fileindex, edb st)) of
           Inl e \<Rightarrow> Inl e
         | Inr (prev, next, update_fileindex, db) \<Rightarrow>
             (case (if update_fileindex \<and> prev \<noteq> 0 then add_unpoint ops be client h sz prev (eidx st) db else Inr db) of
                Inl e \<Rightarrow> Inl e
              | Inr db \<Rightarrow>
                  (let (entryid, db) = addFileEntryExternal (entry next prev (if new_for_client \<or> update_fileindex then 1 else 0)) db in
                   if new_for_client \<or> update_fileindex
                   then (case client_file_key be h sz client of
                           None \<Rightarrow> Inl Bad_key
                         | Some k \<Rightarrow> (case io_put ops k entryid (eidx st) of
                                          None \<Rightarrow> Inl Waiting
                                        | Some s \<Rightarrow> Inr (st\<lparr>edb := db, eidx := s\<rparr>)))
                   else Inr (st\<lparr>edb := db\<rparr>)))))"

text \<open>\<open>addFileEntrySQLWithExisting\<close> of \<^verbatim>\<open>IncrFileBackup.cpp\<close>: look the predecessor up in the index, then add.\<close>

definition addFileEntrySQLWithExisting ::
    "'s index_ops \<Rightarrow> bool \<Rightarrow> int \<Rightarrow> int \<Rightarrow> int \<Rightarrow> string \<Rightarrow> string \<Rightarrow> byte list \<Rightarrow> int \<Rightarrow> int \<Rightarrow> 's entries \<Rightarrow> op_error + 's entries" where
  "addFileEntrySQLWithExisting ops be backup client incr fp hash_path h sz rs st =
     (if sz \<ge> link_file_min_size then
        (case client_file_key be h sz client of
           None \<Rightarrow> Inl Bad_key
         | Some k \<Rightarrow>
             (let e = io_exact ops k (eidx st);
                  update_fileindex = (e = 0);
                  e = (if e = 0 then io_prefer ops k (eidx st) else e);
                  (e, update_fileindex, last_clientid, next, rs) =
                    (if e \<noteq> 0 then
                       (case getFileEntry e (edb st) of
                          None \<Rightarrow> (0, True, 0, 0, rs)
                        | Some fentry \<Rightarrow> (e, update_fileindex, clientid fentry, next_entry fentry, if rs < 0 then rsize fentry else rs))
                     else (e, update_fileindex, 0, 0, rs))
              in addFileSQL ops be backup client incr fp hash_path h sz (if update_fileindex then sz else rs) e last_clientid next update_fileindex st))
      else addFileSQL ops be backup client incr fp hash_path h sz rs 0 0 0 False st)"

subsection \<open>Deleting an entry\<close>

text \<open>When all entries of a backup are removed, changes to rows with ids in the range of that backup are kept in memory.\<close>

record SInMemCorrection =
  next_entries :: "(int, int) smap"
  prev_entries :: "(int, int) smap"
  c_pointed_to :: "(int, int) smap"
  max_correct :: int
  min_correct :: int

definition needs_correction :: "SInMemCorrection \<Rightarrow> int \<Rightarrow> bool" where
  "needs_correction c i \<longleftrightarrow> i \<ge> min_correct c \<and> i \<le> max_correct c"

type_synonym corr_db = "SInMemCorrection option \<times> files_db"

definition corr_pointed :: "int \<Rightarrow> int \<Rightarrow> corr_db \<Rightarrow> corr_db" where
  "corr_pointed p i = (\<lambda>(correction, db). case correction of
     Some c \<Rightarrow> if needs_correction c i then (Some (c\<lparr>c_pointed_to := map_put (<) i p (c_pointed_to c)\<rparr>), db) else (correction, setPointedTo p i db)
   | None \<Rightarrow> (correction, setPointedTo p i db))"

definition corr_prev :: "int \<Rightarrow> int \<Rightarrow> corr_db \<Rightarrow> corr_db" where
  "corr_prev p i = (\<lambda>(correction, db). case correction of
     Some c \<Rightarrow> if needs_correction c i then (Some (c\<lparr>prev_entries := map_put (<) i p (prev_entries c)\<rparr>), db) else (correction, setPrevEntry p i db)
   | None \<Rightarrow> (correction, setPrevEntry p i db))"

definition corr_next :: "int \<Rightarrow> int \<Rightarrow> corr_db \<Rightarrow> corr_db" where
  "corr_next p i = (\<lambda>(correction, db). case correction of
     Some c \<Rightarrow> if needs_correction c i then (Some (c\<lparr>next_entries := map_put (<) i p (next_entries c)\<rparr>), db) else (correction, setNextEntry p i db)
   | None \<Rightarrow> (correction, setNextEntry p i db))"

definition put_key :: "'s index_ops \<Rightarrow> bool \<Rightarrow> byte list \<Rightarrow> int \<Rightarrow> int \<Rightarrow> int \<Rightarrow> 's \<Rightarrow> op_error + 's" where
  "put_key ops be h sz client i s =
     (case client_file_key be h sz client of
        None \<Rightarrow> Inl Bad_key
      | Some k \<Rightarrow> (case io_put ops k i s of None \<Rightarrow> Inl Waiting | Some s \<Rightarrow> Inr s))"

definition outgoing_stat :: "bool \<Rightarrow> int \<Rightarrow> int \<Rightarrow> int \<Rightarrow> string \<Rightarrow> int \<Rightarrow> incoming_stat" where
  "outgoing_stat with_backupstat sz client backup clients incr =
     \<lparr>st_filesize = sz, st_clientid = client, st_backupid = backup, st_existing_clients = clients,
      st_direction = (if with_backupstat then c_direction_outgoing else c_direction_outgoing_nobackupstat), st_incremental = incr\<rparr>"

text \<open>The last entry of its list.\<close>

definition del_last ::
    "'s index_ops \<Rightarrow> bool \<Rightarrow> byte list \<Rightarrow> int \<Rightarrow> int \<Rightarrow> int \<Rightarrow> int \<Rightarrow> int \<Rightarrow> int \<Rightarrow> bool \<Rightarrow> files_db \<Rightarrow> 's \<Rightarrow> op_error + (files_db \<times> 's)" where
  "del_last ops be h sz client backup incr i p with_backupstat db s =
     (case file_key be h sz of
        None \<Rightarrow> Inl Bad_key
      | Some fk \<Rightarrow>
          (let all_clients = io_all ops fk True s;
               target_entryid = id_of (nonzero (all_clients (word_of_int client)));
               clients = (if all_clients \<noteq> Map.empty then clients_of all_clients else convert_int64 client);
               clients = (if target_entryid = 0 then (if clients \<noteq> [] then clients @ '','' else clients) @ convert_int64 client else clients);
               db = addIncomingFile (outgoing_stat with_backupstat sz client backup clients incr) db
           in if p \<noteq> 0 \<and> all_clients \<noteq> Map.empty \<and> (target_entryid = 0 \<or> target_entryid = i)
              then (case client_file_key be h sz client of
                      None \<Rightarrow> Inl Bad_key
                    | Some k \<Rightarrow> (case io_del ops k s of None \<Rightarrow> Inl Waiting | Some s \<Rightarrow> Inr (db, s)))
              else Inr (db, s)))"

text \<open>An entry that the index points to and that has a neighbour.\<close>

definition del_pointed ::
    "'s index_ops \<Rightarrow> bool \<Rightarrow> byte list \<Rightarrow> int \<Rightarrow> int \<Rightarrow> int \<Rightarrow> int \<Rightarrow> int \<Rightarrow> corr_db \<Rightarrow> 's \<Rightarrow> op_error + (corr_db \<times> 's)" where
  "del_pointed ops be h sz client i prev next cdb s =
     (if next \<noteq> 0 \<and> next \<noteq> i then
        (case put_key ops be h sz client next s of Inl e \<Rightarrow> Inl e | Inr s \<Rightarrow> Inr (corr_pointed 1 next cdb, s))
      else if prev \<noteq> i then
        (case put_key ops be h sz client prev s of Inl e \<Rightarrow> Inl e | Inr s \<Rightarrow> Inr (corr_pointed 1 prev cdb, s))
      else Inr (cdb, s))"

definition deleteFileSQL ::
    "'s index_ops \<Rightarrow> bool \<Rightarrow> byte list \<Rightarrow> int \<Rightarrow> int \<Rightarrow> int \<Rightarrow> int \<Rightarrow> int \<Rightarrow> int \<Rightarrow> int \<Rightarrow> int \<Rightarrow> bool \<Rightarrow> bool \<Rightarrow> SInMemCorrection option \<Rightarrow> 's entries
      \<Rightarrow> op_error + (SInMemCorrection option \<times> 's entries)" where
  "deleteFileSQL ops be h sz client backup incr i prev next p del_entry with_backupstat correction st =
     (let del = (if del_entry then delFileEntry i else (\<lambda>db. db)) in
      if prev = 0 \<and> next = 0 \<and> sz < link_file_min_size
      then Inr (correction, st\<lparr>edb := del (addIncomingFile (outgoing_stat with_backupstat sz client backup (convert_int64 client) incr) (edb st))\<rparr>)
      else
        (case (if prev = 0 \<and> next = 0
               then (case del_last ops be h sz client backup incr i p with_backupstat (edb st) (eidx st) of
                       Inl e \<Rightarrow> Inl e | Inr (db, s) \<Rightarrow> Inr ((correction, db), s))
               else if p \<noteq> 0 then del_pointed ops be h sz client i prev next (correction, edb st) (eidx st)
               else Inr ((correction, edb st), eidx st)) of
           Inl e \<Rightarrow> Inl e
         | Inr (cdb, s) \<Rightarrow>
             (let cdb = (if next \<noteq> 0 then corr_prev prev next cdb else cdb);
                  cdb = (if prev \<noteq> 0 then corr_next next prev cdb else cdb)
              in Inr (fst cdb, st\<lparr>edb := del (snd cdb), eidx := s\<rparr>))))"

text \<open>Deletion by id.\<close>

definition deleteFileSQL_id :: "'s index_ops \<Rightarrow> bool \<Rightarrow> int \<Rightarrow> 's entries \<Rightarrow> op_error + 's entries" where
  "deleteFileSQL_id ops be i st =
     (case getFileEntry i (edb st) of
        None \<Rightarrow> Inr st
      | Some r \<Rightarrow>
          (case deleteFileSQL ops be (shahash r) (filesize r) (clientid r) (backupid r) (incremental r) i (prev_entry r) (next_entry r) (pointed_to r)
             True False None st of
             Inl e \<Rightarrow> Inl e
           | Inr (c, st) \<Rightarrow> Inr st))"

end
