(* ===== verification/Entry_Lists.thy ===== *)
theory Entry_Lists
  imports Complex_Main File_Entries
begin

text \<open>
  The invariant of the file entries, stated over the table as a map: the rows are in doubly linked lists, each of one client and file,
  and the index names rows marked by \<open>pointed_to\<close>. Where no copy was added as if its file was not known, every file of a client has one
  list, and the index names exactly its marked row. Unlinking and linking a row keep both forms.
\<close>

type_synonym table = "int \<rightharpoonup> file_entry"

definition row_key :: "bool \<Rightarrow> file_entry \<Rightarrow> SIndexKey option" where
  "row_key be r = client_file_key be (shahash r) (filesize r) (clientid r)"

definition big :: "file_entry \<Rightarrow> bool" where
  "big r \<longleftrightarrow> link_file_min_size \<le> filesize r"

text \<open>Neighbours point back and belong to the same file and client; small files are not linked.\<close>

definition links_ok :: "bool \<Rightarrow> table \<Rightarrow> bool" where
  "links_ok be t \<longleftrightarrow> (\<forall>i r. t i = Some r \<longrightarrow> i \<noteq> 0 \<and>
     (\<not> big r \<longrightarrow> next_entry r = 0 \<and> prev_entry r = 0 \<and> pointed_to r = 0) \<and> (big r \<longrightarrow> row_key be r \<noteq> None) \<and>
     (next_entry r \<noteq> 0 \<longrightarrow> (\<exists>q. t (next_entry r) = Some q \<and> prev_entry q = i \<and> row_key be q = row_key be r)) \<and>
     (prev_entry r \<noteq> 0 \<longrightarrow> (\<exists>q. t (prev_entry r) = Some q \<and> next_entry q = i \<and> row_key be q = row_key be r)))"

text \<open>The lists have no cycles: the rows have ranks that grow along \<open>next_entry\<close>.\<close>

definition ranked :: "(int \<Rightarrow> rat) \<Rightarrow> table \<Rightarrow> bool" where
  "ranked rank t \<longleftrightarrow> (\<forall>i r. t i = Some r \<longrightarrow> next_entry r \<noteq> 0 \<longrightarrow> rank i < rank (next_entry r))"

definition one_list :: "bool \<Rightarrow> table \<Rightarrow> bool" where
  "one_list be t \<longleftrightarrow> (\<forall>i r j q. t i = Some r \<longrightarrow> t j = Some q \<longrightarrow> big r \<longrightarrow> big q \<longrightarrow> row_key be r = row_key be q \<longrightarrow>
     prev_entry r = 0 \<longrightarrow> prev_entry q = 0 \<longrightarrow> i = j)"

text \<open>The index names a marked row of the file, always. When every file of a client has a single list (\<open>single\<close>), the marked row is the
  one the index names, and it names one for every file that is linked. A copy that is added as if the file was not known starts
  another list for the file, and then only the first part holds.\<close>

definition index_ok :: "bool \<Rightarrow> bool \<Rightarrow> index \<Rightarrow> table \<Rightarrow> bool" where
  "index_ok single be V t \<longleftrightarrow>
     (single \<longrightarrow> (\<forall>i r k. t i = Some r \<longrightarrow> pointed_to r \<noteq> 0 \<longrightarrow> row_key be r = Some k \<longrightarrow> V k = Some i)) \<and>
     (\<forall>k i. V k = Some i \<longrightarrow> (\<exists>r. t i = Some r \<and> row_key be r = Some k \<and> pointed_to r \<noteq> 0)) \<and>
     (single \<longrightarrow> (\<forall>i r k. t i = Some r \<longrightarrow> big r \<longrightarrow> row_key be r = Some k \<longrightarrow> V k \<noteq> None))"

definition table_inv :: "bool \<Rightarrow> bool \<Rightarrow> index \<Rightarrow> table \<Rightarrow> bool" where
  "table_inv single be V t \<longleftrightarrow>
     finite (dom t) \<and> links_ok be t \<and> (\<exists>rank. ranked rank t) \<and> (single \<longrightarrow> one_list be t) \<and> index_ok single be V t"

lemma links_okD:
  assumes "links_ok be t" "t i = Some r"
  shows "i \<noteq> 0" "\<not> big r \<Longrightarrow> next_entry r = 0" "\<not> big r \<Longrightarrow> prev_entry r = 0" "\<not> big r \<Longrightarrow> pointed_to r = 0" "big r \<Longrightarrow> \<exists>k. row_key be r = Some k"
    "next_entry r \<noteq> 0 \<Longrightarrow> \<exists>q. t (next_entry r) = Some q \<and> prev_entry q = i \<and> row_key be q = row_key be r"
    "prev_entry r \<noteq> 0 \<Longrightarrow> \<exists>q. t (prev_entry r) = Some q \<and> next_entry q = i \<and> row_key be q = row_key be r"
  using assms unfolding links_ok_def by blast+

lemma index_okD:
  assumes "index_ok single be V t"
  shows "single \<Longrightarrow> t i = Some r \<Longrightarrow> pointed_to r \<noteq> 0 \<Longrightarrow> row_key be r = Some k \<Longrightarrow> V k = Some i"
    "V k = Some i \<Longrightarrow> \<exists>r. t i = Some r \<and> row_key be r = Some k \<and> pointed_to r \<noteq> 0"
    "single \<Longrightarrow> t i = Some r \<Longrightarrow> big r \<Longrightarrow> row_key be r = Some k \<Longrightarrow> V k \<noteq> None"
  using assms unfolding index_ok_def by blast+

text \<open>The neighbours of a row, seen from the other side.\<close>

lemma next_iff: "links_ok be t \<Longrightarrow> t i = Some r \<Longrightarrow> t j = Some q \<Longrightarrow> next_entry q = i \<longleftrightarrow> prev_entry r = j"
proof
  assume l: "links_ok be t" "t i = Some r" "t j = Some q"
  note i = links_okD [OF l(1,2)] and j = links_okD [OF l(1,3)]
  show "prev_entry r = j" if "next_entry q = i" using j(6) that i(1) l(2) by auto
  show "next_entry q = i" if "prev_entry r = j" using i(7) that j(1) l(3) by auto
qed

text \<open>Every row has the head of its list before it.\<close>

lemma list_head:
  assumes "finite (dom t)" "links_ok be t" "ranked rank t"
  shows "t i = Some r \<Longrightarrow> \<exists>h q. t h = Some q \<and> prev_entry q = 0 \<and> row_key be q = row_key be r \<and> (h = i \<or> next_entry q \<noteq> 0)"
proof (induction "card {j \<in> dom t. rank j < rank i}" arbitrary: i r rule: less_induct)
  case less
  show ?case
  proof (cases "prev_entry r = 0")
    case False
    then obtain p where p: "t (prev_entry r) = Some p" "next_entry p = i" "row_key be p = row_key be r"
      using links_okD(7) [OF assms(2) less.prems] by blast
    have lt: "rank (prev_entry r) < rank i" using assms(3) p links_okD(1) [OF assms(2) less.prems] unfolding ranked_def by blast
    have "{j \<in> dom t. rank j < rank (prev_entry r)} \<subset> {j \<in> dom t. rank j < rank i}" using lt p(1) by (auto intro: less_trans)
    then have "card {j \<in> dom t. rank j < rank (prev_entry r)} < card {j \<in> dom t. rank j < rank i}"
      using assms(1) by (intro psubset_card_mono) auto
    then obtain h q where h: "t h = Some q" "prev_entry q = 0" "row_key be q = row_key be p" "h = prev_entry r \<or> next_entry q \<noteq> 0"
      using less.hyps [OF _ p(1)] by blast
    have "next_entry q \<noteq> 0" using h(1,4) p(1,2) links_okD(1) [OF assms(2) less.prems] by auto
    then show ?thesis using h p(3) by (intro exI [of _ h] exI [of _ q]) simp
  qed (use less.prems in blast)
qed

subsection \<open>Unlinking a row\<close>

definition relink :: "int \<Rightarrow> file_entry \<Rightarrow> file_entry \<Rightarrow> file_entry" where
  "relink i r q = q\<lparr>next_entry := if next_entry q = i then next_entry r else next_entry q, prev_entry := if prev_entry q = i then prev_entry r else prev_entry q\<rparr>"

definition unlink :: "int \<Rightarrow> file_entry \<Rightarrow> table \<Rightarrow> table" where
  "unlink i r t = (\<lambda>j. if j = i then None else map_option (relink i r) (t j))"

lemma unlink_Some: "unlink i r t j = Some q' \<longleftrightarrow> j \<noteq> i \<and> (\<exists>q. t j = Some q \<and> q' = relink i r q)"
  by (auto simp: unlink_def)

lemma row_key_upd [simp]:
  "row_key be (q\<lparr>next_entry := n\<rparr>) = row_key be q" "row_key be (q\<lparr>prev_entry := n\<rparr>) = row_key be q" "row_key be (q\<lparr>pointed_to := n\<rparr>) = row_key be q"
  "big (q\<lparr>next_entry := n\<rparr>) = big q" "big (q\<lparr>prev_entry := n\<rparr>) = big q" "big (q\<lparr>pointed_to := n\<rparr>) = big q"
  by (simp_all add: row_key_def big_def)

lemma relink_simps [simp]:
  "next_entry (relink i r q) = (if next_entry q = i then next_entry r else next_entry q)"
  "prev_entry (relink i r q) = (if prev_entry q = i then prev_entry r else prev_entry q)"
  "pointed_to (relink i r q) = pointed_to q" "row_key be (relink i r q) = row_key be q" "big (relink i r q) = big q"
  "backupid (relink i r q) = backupid q"
  by (simp_all add: relink_def)

lemma no_self:
  assumes "ranked rank t" "t i = Some r" "next_entry r \<noteq> 0"
  shows "next_entry r \<noteq> i"
  using assms unfolding ranked_def by fastforce

lemma no_self_prev:
  assumes "links_ok be t" "ranked rank t" "t i = Some r" "prev_entry r \<noteq> 0"
  shows "prev_entry r \<noteq> i"
proof
  assume "prev_entry r = i"
  then have "next_entry r = i" using links_okD(7) [OF assms(1,3,4)] assms(3) by auto
  then show False using no_self [OF assms(2,3)] links_okD(1) [OF assms(1,3)] by simp
qed

lemma unlink_links:
  assumes l: "links_ok be t" and k: "ranked rank t" and t: "t i = Some r"
  shows "links_ok be (unlink i r t)"
  unfolding links_ok_def
proof (intro allI impI)
  fix j q' assume "unlink i r t j = Some q'"
  then obtain q where ji: "j \<noteq> i" and q: "t j = Some q" and
    q': "q' = relink i r q"
    unfolding unlink_Some by blast
  note d = links_okD [OF l q] and di = links_okD [OF l t]
  have nx: "\<exists>x. unlink i r t (next_entry q') = Some x \<and> prev_entry x = j \<and> row_key be x = row_key be q'" if "next_entry q' \<noteq> 0"
  proof (cases "next_entry q = i")
    case True
    then have p: "prev_entry r = j" using next_iff [OF l t q] by simp
    have n: "next_entry r \<noteq> 0" "next_entry q' = next_entry r" using that True q' by simp_all
    obtain x where x: "t (next_entry r) = Some x" "prev_entry x = i" "row_key be x = row_key be r" using di(6) n by blast
    have kk: "row_key be q = row_key be r" using d(6) True t di(1) by auto
    have "next_entry r \<noteq> i" using no_self [OF k t n(1)] .
    then show ?thesis using x p n(2) q' kk by (auto simp: unlink_def)
  next
    case False
    then have n: "next_entry q' = next_entry q" "next_entry q \<noteq> 0" using that q' by simp_all
    obtain x where x: "t (next_entry q) = Some x" "prev_entry x = j" "row_key be x = row_key be q" using d(6) n(2) by blast
    then show ?thesis using n False q' ji by (auto simp: unlink_def)
  qed
  have pv: "\<exists>x. unlink i r t (prev_entry q') = Some x \<and> next_entry x = j \<and> row_key be x = row_key be q'" if "prev_entry q' \<noteq> 0"
  proof (cases "prev_entry q = i")
    case True
    then have p: "next_entry r = j" using next_iff [OF l q t] by simp
    have n: "prev_entry r \<noteq> 0" "prev_entry q' = prev_entry r" using that True q' by simp_all
    obtain x where x: "t (prev_entry r) = Some x" "next_entry x = i" "row_key be x = row_key be r" using di(7) n by blast
    have kk: "row_key be q = row_key be r" using d(7) True t di(1) by auto
    have "prev_entry r \<noteq> i" using no_self_prev [OF l k t n(1)] .
    then show ?thesis using x p n(2) q' kk by (auto simp: unlink_def)
  next
    case False
    then have n: "prev_entry q' = prev_entry q" "prev_entry q \<noteq> 0" using that q' by simp_all
    obtain x where x: "t (prev_entry q) = Some x" "next_entry x = j" "row_key be x = row_key be q" using d(7) n(2) by blast
    then show ?thesis using n False q' ji by (auto simp: unlink_def)
  qed
  show "j \<noteq> 0 \<and> (\<not> big q' \<longrightarrow> next_entry q' = 0 \<and> prev_entry q' = 0 \<and> pointed_to q' = 0) \<and> (big q' \<longrightarrow> row_key be q' \<noteq> None) \<and>
     (next_entry q' \<noteq> 0 \<longrightarrow> (\<exists>q. unlink i r t (next_entry q') = Some q \<and> prev_entry q = j \<and> row_key be q = row_key be q')) \<and>
     (prev_entry q' \<noteq> 0 \<longrightarrow> (\<exists>q. unlink i r t (prev_entry q') = Some q \<and> next_entry q = j \<and> row_key be q = row_key be q'))"
    using nx pv d(1-5) di(1) q' by auto
qed

lemma unlink_ranked:
  assumes l: "links_ok be t" and k: "ranked rank t" and t: "t i = Some r"
  shows "ranked rank (unlink i r t)"
  unfolding ranked_def
proof (intro allI impI)
  fix j q' assume u: "unlink i r t j = Some q'" and n: "next_entry q' \<noteq> 0"
  then obtain q where q: "t j = Some q" "q' = relink i r q" unfolding unlink_Some by blast
  have i: "i \<noteq> 0" using links_okD(1) [OF l t] .
  have "rank j < rank (next_entry q)" if "next_entry q \<noteq> 0" using k q(1) that unfolding ranked_def by blast
  moreover have "rank i < rank (next_entry r)" if "next_entry r \<noteq> 0" using k t that unfolding ranked_def by blast
  ultimately show "rank j < rank (next_entry q')" using n q(2) i by (auto split: if_splits)
qed

lemma unlink_one_list:
  assumes l: "links_ok be t" and o: "one_list be t" and t: "t i = Some r"
  shows "one_list be (unlink i r t)"
proof -
  have i: "i \<noteq> 0" using links_okD(1) [OF l t] .
  have head: "\<exists>h p. t h = Some p \<and> big p \<and> prev_entry p = 0 \<and> row_key be p = row_key be q \<and> h = (if prev_entry q = i then i else j)"
    if "t j = Some q" "big q" "prev_entry (relink i r q) = 0" for j q
  proof (cases "prev_entry q = i")
    case True
    have kk: "row_key be r = row_key be q" "next_entry r = j" using links_okD(7) [OF l that(1)] True i t by auto
    have "big r" using links_okD(2) [OF l t] kk(2) links_okD(1) [OF l that(1)] by blast
    then show ?thesis using True t kk(1) that(3) by auto
  qed (use that in auto)
  show ?thesis unfolding one_list_def
  proof (intro allI impI)
    fix j1 q1' j2 q2'
    assume u: "unlink i r t j1 = Some q1'" "unlink i r t j2 = Some q2'" and b: "big q1'" "big q2'" and
      kk: "row_key be q1' = row_key be q2'" and pv: "prev_entry q1' = 0" "prev_entry q2' = 0"
    obtain q1 q2 where q: "t j1 = Some q1" "q1' = relink i r q1" "j1 \<noteq> i" "t j2 = Some q2" "q2' = relink i r q2" "j2 \<noteq> i"
      using u unfolding unlink_Some by blast
    obtain h1 p1 where h1: "t h1 = Some p1" "big p1" "prev_entry p1 = 0" "row_key be p1 = row_key be q1" "h1 = (if prev_entry q1 = i then i else j1)"
      using head [OF q(1)] b(1) pv(1) q(2) by auto
    obtain h2 p2 where h2: "t h2 = Some p2" "big p2" "prev_entry p2 = 0" "row_key be p2 = row_key be q2" "h2 = (if prev_entry q2 = i then i else j2)"
      using head [OF q(4)] b(2) pv(2) q(5) by auto
    have e: "h1 = h2" using o h1(1-4) h2(1-4) kk q(2,5) unfolding one_list_def by (metis relink_simps(4))
    show "j1 = j2"
    proof (cases "prev_entry q1 = i")
      case True
      then have "prev_entry q2 = i" using e h1(5) h2(5) q(6) by (auto split: if_splits)
      then show ?thesis using next_iff [OF l q(1) t] next_iff [OF l q(4) t] True by simp
    next
      case False
      then show ?thesis using e h1(5) h2(5) q(3) by (auto split: if_splits)
    qed
  qed
qed

text \<open>Marking a row as the one the index points to.\<close>

definition mark :: "int \<Rightarrow> int \<Rightarrow> table \<Rightarrow> table" where
  "mark p i t = t(i := map_option (\<lambda>q. q\<lparr>pointed_to := p\<rparr>) (t i))"

lemma mark_Some: "mark p i t j = Some q' \<longleftrightarrow> (\<exists>q. t j = Some q \<and> q' = (if j = i then q\<lparr>pointed_to := p\<rparr> else q))"
  by (auto simp: mark_def)

lemma mark_links:
  assumes "links_ok be t" "\<And>r. t i = Some r \<Longrightarrow> big r \<or> p = 0"
  shows "links_ok be (mark p i t)"
  unfolding links_ok_def
proof (intro allI impI)
  fix j q' assume "mark p i t j = Some q'"
  then obtain q where q: "t j = Some q" "q' = (if j = i then q\<lparr>pointed_to := p\<rparr> else q)" unfolding mark_Some by blast
  note d = links_okD [OF assms(1) q(1)]
  have m: "\<exists>y. mark p i t a = Some y \<and> next_entry y = next_entry x \<and> prev_entry y = prev_entry x \<and> row_key be y = row_key be x" if "t a = Some x" for a x
    using that by (auto simp: mark_def)
  have nx: "\<exists>x. mark p i t (next_entry q) = Some x \<and> prev_entry x = j \<and> row_key be x = row_key be q" if "next_entry q \<noteq> 0"
    using d(6) [OF that] m by metis
  have pv: "\<exists>x. mark p i t (prev_entry q) = Some x \<and> next_entry x = j \<and> row_key be x = row_key be q" if "prev_entry q \<noteq> 0"
    using d(7) [OF that] m by metis
  show "j \<noteq> 0 \<and> (\<not> big q' \<longrightarrow> next_entry q' = 0 \<and> prev_entry q' = 0 \<and> pointed_to q' = 0) \<and> (big q' \<longrightarrow> row_key be q' \<noteq> None) \<and>
     (next_entry q' \<noteq> 0 \<longrightarrow> (\<exists>q. mark p i t (next_entry q') = Some q \<and> prev_entry q = j \<and> row_key be q = row_key be q')) \<and>
     (prev_entry q' \<noteq> 0 \<longrightarrow> (\<exists>q. mark p i t (prev_entry q') = Some q \<and> next_entry q = j \<and> row_key be q = row_key be q'))"
    using d(1-5) nx pv q assms(2) by auto
qed

lemma one_list_mono:
  assumes o: "one_list be t" and sim: "\<And>a x. u a = Some x \<Longrightarrow> \<exists>y. t a = Some y \<and> prev_entry y = prev_entry x \<and> row_key be y = row_key be x \<and> big y = big x"
  shows "one_list be u"
  unfolding one_list_def
proof (intro allI impI)
  fix i r j q assume u: "u i = Some r" "u j = Some q" and b: "big r" "big q" and k: "row_key be r = row_key be q" and p: "prev_entry r = 0" "prev_entry q = 0"
  obtain r' q' where "t i = Some r'" "prev_entry r' = prev_entry r" "row_key be r' = row_key be r" "big r' = big r"
      "t j = Some q'" "prev_entry q' = prev_entry q" "row_key be q' = row_key be q" "big q' = big q"
    using sim [OF u(1)] sim [OF u(2)] by blast
  then show "i = j" using o b k p unfolding one_list_def by metis
qed

lemma mark_keeps:
  "finite (dom (mark p i t)) = finite (dom t)" "ranked rank (mark p i t) = ranked rank t" "one_list be (mark p i t) = one_list be t"
proof -
  have "dom (mark p i t) = dom t" by (auto simp: mark_def)
  then show "finite (dom (mark p i t)) = finite (dom t)" by simp
  have sim: "\<exists>y. mark p i t a = Some y \<and> next_entry y = next_entry x \<and> prev_entry y = prev_entry x \<and> row_key be y = row_key be x \<and> big y = big x" if "t a = Some x" for a x
    using that by (auto simp: mark_def)
  have mis: "\<exists>y. t a = Some y \<and> next_entry y = next_entry x \<and> prev_entry y = prev_entry x \<and> row_key be y = row_key be x \<and> big y = big x" if "mark p i t a = Some x" for a x
    using that by (auto simp: mark_def split: if_splits)
  show "ranked rank (mark p i t) = ranked rank t" unfolding ranked_def using sim mis by metis
  show "one_list be (mark p i t) = one_list be t" using one_list_mono [of be t "mark p i t"] one_list_mono [of be "mark p i t" t] sim mis by blast
qed

lemma table_invD:
  assumes "table_inv single be V t"
  shows "finite (dom t)" "links_ok be t" "single \<longrightarrow> one_list be t" "index_ok single be V t" "\<exists>rank. ranked rank t"
  using assms by (auto simp: table_inv_def)

lemma unlink_table:
  assumes "finite (dom t)" "links_ok be t" "ranked rank t" "single \<longrightarrow> one_list be t" "t i = Some r"
  shows "finite (dom (unlink i r t))" "links_ok be (unlink i r t)" "ranked rank (unlink i r t)" "single \<longrightarrow> one_list be (unlink i r t)"
proof -
  have "dom (unlink i r t) \<subseteq> dom t" by (auto simp: unlink_def split: if_splits)
  then show "finite (dom (unlink i r t))" using assms(1) finite_subset by blast
qed (use unlink_links unlink_ranked unlink_one_list assms in blast)+

text \<open>A row the index does not point to.\<close>

lemma unlink_inv:
  assumes inv: "table_inv single be V t" and t: "t i = Some r" and p: "pointed_to r = 0"
  shows "table_inv single be V (unlink i r t)"
proof -
  note d = table_invD [OF inv]
  note x = index_okD [OF d(4)]
  obtain rank where rank: "ranked rank t" using d(5) by blast
  have "index_ok single be V (unlink i r t)"
    unfolding index_ok_def
  proof (intro conjI allI impI)
    fix j q' k assume "single" "unlink i r t j = Some q'" "pointed_to q' \<noteq> 0" "row_key be q' = Some k"
    then show "V k = Some j" using x(1) unfolding unlink_Some by (metis relink_simps(3,4))
  next
    fix k j assume "V k = Some j"
    then obtain q where q: "t j = Some q" "row_key be q = Some k" "pointed_to q \<noteq> 0" using x(2) by blast
    then have "j \<noteq> i" using t p by auto
    then show "\<exists>q'. unlink i r t j = Some q' \<and> row_key be q' = Some k \<and> pointed_to q' \<noteq> 0"
      using q by (intro exI [of _ "relink i r q"]) (simp add: unlink_def)
  next
    fix j q' k assume "single" "unlink i r t j = Some q'" "big q'" "row_key be q' = Some k"
    then show "V k \<noteq> None" using x(3) unfolding unlink_Some by (metis relink_simps(4,5))
  qed
  then show ?thesis using unlink_table [OF d(1,2) rank d(3) t] unfolding table_inv_def by blast
qed

text \<open>The only row of its list.\<close>

lemma unlink_inv_last:
  assumes inv: "table_inv single be V t" and t: "t i = Some r" and p: "pointed_to r \<noteq> 0" and k: "row_key be r = Some k" and
    last: "prev_entry r = 0" "next_entry r = 0"
  shows "table_inv single be (V(k := if V k = Some i then None else V k)) (unlink i r t)"
proof -
  let ?V = "V(k := if V k = Some i then None else V k)"
  note d = table_invD [OF inv]
  note x = index_okD [OF d(4)]
  obtain rank where rank: "ranked rank t" using d(5) by blast
  have Vk: "V k = Some i" if single using x(1) [OF that t p k] .
  have b: "big r" using links_okD(4) [OF d(2) t] p by blast
  have only: "j = i" if single and tj: "t j = Some q" "big q" "row_key be q = Some k" for j q
  proof -
    obtain h c where h: "t h = Some c" "prev_entry c = 0" "row_key be c = row_key be q" "h = j \<or> next_entry c \<noteq> 0"
      using list_head [OF d(1,2) rank tj(1)] by blast
    have "big c" using h(1,4) tj links_okD(2) [OF d(2) h(1)] by auto
    then have "h = i" using d(3) \<open>single\<close> h(1-3) t b k tj(3) last(1) unfolding one_list_def by metis
    then show ?thesis using h(1,4) t last(2) by auto
  qed
  have "index_ok single be ?V (unlink i r t)"
    unfolding index_ok_def
  proof (intro conjI allI impI)
    fix j q' k' assume s: single and "unlink i r t j = Some q'" "pointed_to q' \<noteq> 0" "row_key be q' = Some k'"
    then have "V k' = Some j" "j \<noteq> i" using x(1) [OF s] unfolding unlink_Some by (metis relink_simps(3,4), blast)
    then show "?V k' = Some j" using Vk [OF s] by auto
  next
    fix k' j assume "?V k' = Some j"
    then have V: "V k' = Some j" "j \<noteq> i \<or> k' \<noteq> k" by (auto split: if_splits)
    then obtain q where q: "t j = Some q" "row_key be q = Some k'" "pointed_to q \<noteq> 0" using x(2) by blast
    then have "j \<noteq> i" using t k V(2) by auto
    then show "\<exists>q'. unlink i r t j = Some q' \<and> row_key be q' = Some k' \<and> pointed_to q' \<noteq> 0"
      using q by (intro exI [of _ "relink i r q"]) (simp add: unlink_def)
  next
    fix j q' k' assume s: single and "unlink i r t j = Some q'" "big q'" "row_key be q' = Some k'"
    then obtain q where q: "t j = Some q" "j \<noteq> i" "big q" "row_key be q = Some k'" unfolding unlink_Some by (metis relink_simps(4,5))
    then show "?V k' \<noteq> None" using x(3) [OF s q(1,3,4)] only [OF s q(1,3)] by auto
  qed
  then show ?thesis using unlink_table [OF d(1,2) rank d(3) t] unfolding table_inv_def by blast
qed

text \<open>A row the index points to, with a neighbour that takes its place.\<close>

lemma unlink_inv_moved:
  assumes inv: "table_inv single be V t" and t: "t i = Some r" and p: "pointed_to r \<noteq> 0" and k: "row_key be r = Some k" and
    m: "t m = Some q" "row_key be q = Some k" "big q" "m \<noteq> i"
  shows "table_inv single be (V(k \<mapsto> m)) (unlink i r (mark 1 m t))"
proof -
  note d = table_invD [OF inv]
  note x = index_okD [OF d(4)]
  obtain rank where rank: "ranked rank t" using d(5) by blast
  have Vk: "V k = Some i" if single using x(1) [OF that t p k] .
  let ?t = "mark 1 m t"
  have mk: "links_ok be ?t" by (rule mark_links [OF d(2)]) (use m in auto)
  have ti: "?t i = Some r" using t m(4) by (simp add: mark_def)
  have "index_ok single be (V(k \<mapsto> m)) (unlink i r ?t)"
    unfolding index_ok_def
  proof (intro conjI allI impI)
    fix j q' k' assume s: single and a: "unlink i r ?t j = Some q'" "pointed_to q' \<noteq> 0" "row_key be q' = Some k'"
    then obtain c where c: "j \<noteq> i" "?t j = Some c" "pointed_to c \<noteq> 0" "row_key be c = Some k'" unfolding unlink_Some by (metis relink_simps(3,4))
    show "(V(k \<mapsto> m)) k' = Some j"
    proof (cases "j = m")
      case True
      then show ?thesis using c m by (auto simp: mark_def)
    next
      case False
      then have "V k' = Some j" using c x(1) [OF s] by (auto simp: mark_def)
      then show ?thesis using Vk [OF s] c(1) by auto
    qed
  next
    fix k' j assume a: "(V(k \<mapsto> m)) k' = Some j"
    have ul: "\<exists>q'. unlink i r ?t j = Some q' \<and> row_key be q' = row_key be c \<and> pointed_to q' = pointed_to c" if "j \<noteq> i" "?t j = Some c" for c
      using that by (intro exI [of _ "relink i r c"]) (simp add: unlink_def)
    show "\<exists>q'. unlink i r ?t j = Some q' \<and> row_key be q' = Some k' \<and> pointed_to q' \<noteq> 0"
    proof (cases "k' = k")
      case True
      then have "j = m" using a by simp
      then have "?t j = Some (q\<lparr>pointed_to := 1\<rparr>)" using m by (simp add: mark_def)
      then show ?thesis using ul [of "q\<lparr>pointed_to := 1\<rparr>"] m(2,4) True \<open>j = m\<close> by auto
    next
      case False
      then obtain c where c: "t j = Some c" "row_key be c = Some k'" "pointed_to c \<noteq> 0" using x(2) a by (metis fun_upd_other)
      then have "j \<noteq> i" "j \<noteq> m" using t k m(1,2) False by auto
      then show ?thesis using ul [of c] c by (auto simp: mark_def)
    qed
  next
    fix j q' k' assume s: single and "unlink i r ?t j = Some q'" "big q'" "row_key be q' = Some k'"
    then obtain c where c: "?t j = Some c" "big c" "row_key be c = Some k'" unfolding unlink_Some by (metis relink_simps(4,5))
    then have "V k' \<noteq> None" using x(3) [OF s] by (auto simp: mark_def split: if_splits)
    then show "(V(k \<mapsto> m)) k' \<noteq> None" by simp
  qed
  moreover have "finite (dom ?t)" "ranked rank ?t" "single \<longrightarrow> one_list be ?t" using d rank by (simp_all add: mark_keeps)
  ultimately show ?thesis using unlink_table [OF _ mk _ _ ti] unfolding table_inv_def by blast
qed

subsection \<open>Linking a new row\<close>

definition relay :: "int \<Rightarrow> int \<Rightarrow> int \<Rightarrow> int \<Rightarrow> file_entry \<Rightarrow> file_entry" where
  "relay n p q j y = y\<lparr>next_entry := if j = p then n else next_entry y, prev_entry := if j = q then n else prev_entry y\<rparr>"

definition link :: "int \<Rightarrow> file_entry \<Rightarrow> table \<Rightarrow> table" where
  "link n x t = (\<lambda>j. if j = n then Some x else map_option (relay n (prev_entry x) (next_entry x) j) (t j))"

lemma relay_simps [simp]:
  "next_entry (relay n p q j y) = (if j = p then n else next_entry y)" "prev_entry (relay n p q j y) = (if j = q then n else prev_entry y)"
  "pointed_to (relay n p q j y) = pointed_to y" "row_key be (relay n p q j y) = row_key be y" "big (relay n p q j y) = big y"
  by (simp_all add: relay_def)

lemma link_Some: "link n x t j = Some y' \<longleftrightarrow> (if j = n then y' = x else \<exists>y. t j = Some y \<and> y' = relay n (prev_entry x) (next_entry x) j y)"
  by (auto simp: link_def)

text \<open>Where a new row may go: behind a row of its list, or alone; when every file has a single list, alone only if there is none yet.\<close>

definition link_at :: "bool \<Rightarrow> bool \<Rightarrow> table \<Rightarrow> int \<Rightarrow> file_entry \<Rightarrow> SIndexKey \<Rightarrow> bool" where
  "link_at single be t n x k \<longleftrightarrow> n \<noteq> 0 \<and> t n = None \<and> big x \<and> row_key be x = Some k \<and>
     (if prev_entry x = 0 then next_entry x = 0 \<and> (single \<longrightarrow> (\<forall>j y. t j = Some y \<longrightarrow> big y \<longrightarrow> row_key be y \<noteq> Some k))
      else \<exists>y. t (prev_entry x) = Some y \<and> big y \<and> row_key be y = Some k \<and> next_entry y = next_entry x)"

lemma link_links:
  assumes l: "links_ok be t" and a: "link_at single be t n x k"
  shows "links_ok be (link n x t)"
  unfolding links_ok_def
proof (intro allI impI)
  let ?p = "prev_entry x" and ?q = "next_entry x"
  have n: "n \<noteq> 0" "t n = None" "big x" "row_key be x = Some k" using a by (auto simp: link_at_def)
  have p: "\<exists>y. t ?p = Some y \<and> big y \<and> row_key be y = Some k \<and> next_entry y = ?q" if "?p \<noteq> 0" using a that by (auto simp: link_at_def)
  have q: "\<exists>y. t ?q = Some y \<and> row_key be y = Some k \<and> prev_entry y = ?p" "?p \<noteq> 0" if q0: "?q \<noteq> 0"
  proof -
    show p0: "?p \<noteq> 0" using a q0 by (auto simp: link_at_def)
    obtain y where y: "t ?p = Some y" "row_key be y = Some k" "next_entry y = ?q" using p [OF p0] by blast
    then show "\<exists>y. t ?q = Some y \<and> row_key be y = Some k \<and> prev_entry y = ?p" using links_okD(6) [OF l y(1)] q0 by auto
  qed
  fix j y' assume "link n x t j = Some y'"
  then consider "j = n" "y' = x" | y where "j \<noteq> n" "t j = Some y" "y' = relay n ?p ?q j y" unfolding link_Some by (auto split: if_splits)
  then show "j \<noteq> 0 \<and> (\<not> big y' \<longrightarrow> next_entry y' = 0 \<and> prev_entry y' = 0 \<and> pointed_to y' = 0) \<and> (big y' \<longrightarrow> row_key be y' \<noteq> None) \<and>
     (next_entry y' \<noteq> 0 \<longrightarrow> (\<exists>q. link n x t (next_entry y') = Some q \<and> prev_entry q = j \<and> row_key be q = row_key be y')) \<and>
     (prev_entry y' \<noteq> 0 \<longrightarrow> (\<exists>q. link n x t (prev_entry y') = Some q \<and> next_entry q = j \<and> row_key be q = row_key be y'))"
  proof cases
    case 1
    have "\<exists>c. link n x t ?q = Some c \<and> prev_entry c = n \<and> row_key be c = row_key be x" if "?q \<noteq> 0"
      using q(1) [OF that] n by (auto simp: link_def)
    moreover have "\<exists>c. link n x t ?p = Some c \<and> next_entry c = n \<and> row_key be c = row_key be x" if "?p \<noteq> 0"
      using p [OF that] n by (auto simp: link_def)
    ultimately show ?thesis using 1 n by simp
  next
    case 2
    note d = links_okD [OF l 2(2)]
    have j0: "j \<noteq> 0" by (rule d(1))
    have b: "big y" if "j = ?p \<or> j = ?q" using that p q d(3) 2(2) j0 by fastforce
    have nx: "\<exists>c. link n x t (next_entry y') = Some c \<and> prev_entry c = j \<and> row_key be c = row_key be y'" if n0: "next_entry y' \<noteq> 0"
    proof (cases "j = ?p")
      case True
      then have "row_key be y = Some k" using p 2(2) j0 by auto
      then show ?thesis using True 2 n by (auto simp: link_def)
    next
      case False
      then have e: "next_entry y' = next_entry y" "next_entry y \<noteq> 0" using 2(3) n0 by auto
      obtain c where c: "t (next_entry y) = Some c" "prev_entry c = j" "row_key be c = row_key be y" using d(6) [OF e(2)] by blast
      have "next_entry y \<noteq> ?q" using q(1) c(1,2) False e(2) by fastforce
      moreover have "next_entry y \<noteq> n" using c(1) n(2) by auto
      ultimately show ?thesis using c e(1) 2(3) by (auto simp: link_def)
    qed
    have pv: "\<exists>c. link n x t (prev_entry y') = Some c \<and> next_entry c = j \<and> row_key be c = row_key be y'" if n0: "prev_entry y' \<noteq> 0"
    proof (cases "j = ?q")
      case True
      then have "row_key be y = Some k" using q(1) 2(2) j0 by auto
      then show ?thesis using True 2 n by (auto simp: link_def)
    next
      case False
      then have e: "prev_entry y' = prev_entry y" "prev_entry y \<noteq> 0" using 2(3) n0 by auto
      obtain c where c: "t (prev_entry y) = Some c" "next_entry c = j" "row_key be c = row_key be y" using d(7) [OF e(2)] by blast
      have "prev_entry y \<noteq> ?p" using p c(1,2) False e(2) by fastforce
      moreover have "prev_entry y \<noteq> n" using c(1) n(2) by auto
      ultimately show ?thesis using c e(1) 2(3) by (auto simp: link_def)
    qed
    show ?thesis using nx pv d(1-5) b 2(3) by auto
  qed
qed

lemma link_ranked:
  assumes l: "links_ok be t" and k: "ranked rank t" and a: "link_at single be t n x k"
  shows "\<exists>rank. ranked rank (link n x t)"
proof -
  let ?p = "prev_entry x" and ?q = "next_entry x"
  define rn where "rn = (if ?p = 0 then 0 else if ?q = 0 then rank ?p + 1 else (rank ?p + rank ?q) / 2)"
  have n: "t n = None" using a by (simp add: link_at_def)
  have p: "\<exists>y. t ?p = Some y \<and> next_entry y = ?q" if "?p \<noteq> 0" using a that by (auto simp: link_at_def)
  have q: "?q = 0" if "?p = 0" using a that by (auto simp: link_at_def)
  have lt: "rank ?p < rank ?q" if "?p \<noteq> 0" "?q \<noteq> 0" using k p [OF that(1)] that unfolding ranked_def by metis
  have rp: "rank ?p < rn" if "?p \<noteq> 0" using that lt by (auto simp: rn_def)
  have rq: "rn < rank ?q" if "?q \<noteq> 0" using that lt q by (auto simp: rn_def)
  have "ranked (rank(n := rn)) (link n x t)"
    unfolding ranked_def
  proof (intro allI impI)
    fix j y' assume u: "link n x t j = Some y'" and nz: "next_entry y' \<noteq> 0"
    then consider "j = n" "y' = x" | y where "j \<noteq> n" "t j = Some y" "y' = relay n ?p ?q j y" unfolding link_Some by (auto split: if_splits)
    then show "(rank(n := rn)) j < (rank(n := rn)) (next_entry y')"
    proof cases
      case 1
      then have "?q \<noteq> n" using nz p q n links_okD(6) [OF l] by fastforce
      then show ?thesis using 1 nz rq by simp
    next
      case 2
      have j0: "j \<noteq> 0" using links_okD(1) [OF l 2(2)] .
      show ?thesis
      proof (cases "j = ?p")
        case True
        then show ?thesis using 2 rp j0 by simp
      next
        case False
        then have e: "next_entry y' = next_entry y" "next_entry y \<noteq> 0" using 2(3) nz by auto
        then have "next_entry y \<noteq> n" using links_okD(6) [OF l 2(2)] n by auto
        moreover have "rank j < rank (next_entry y)" using k 2(2) e(2) unfolding ranked_def by blast
        ultimately show ?thesis using 2(1) e(1) by simp
      qed
    qed
  qed
  then show ?thesis by blast
qed

lemma link_one_list:
  assumes l: "links_ok be t" and o: "one_list be t" and a: "link_at True be t n x k"
  shows "one_list be (link n x t)"
  unfolding one_list_def
proof (intro allI impI)
  fix i r j q assume u: "link n x t i = Some r" "link n x t j = Some q" and b: "big r" "big q" and kk: "row_key be r = row_key be q" and
    p: "prev_entry r = 0" "prev_entry q = 0"
  have xk: "row_key be x = Some k" "n \<noteq> 0" using a by (auto simp: link_at_def)
  have old: "\<exists>y. t i = Some y \<and> big y \<and> row_key be y = row_key be r \<and> prev_entry y = 0" if "link n x t i = Some r" "i \<noteq> n" "big r" "prev_entry r = 0" for i r
    using that xk(2) by (auto simp: link_Some split: if_splits)
  have new: "prev_entry x \<noteq> 0" if "t i = Some y" "big y" "row_key be y = Some k" for i y
    using a that by (auto simp: link_at_def split: if_splits)
  consider "i = n" "j = n" | "i = n" "j \<noteq> n" | "i \<noteq> n" "j = n" | "i \<noteq> n" "j \<noteq> n" by blast
  then show "i = j"
  proof cases
    case 2
    then have "r = x" using u(1) by (simp add: link_def)
    then show ?thesis using old [OF u(2) 2(2) b(2) p(2)] new kk xk p(1) by metis
  next
    case 3
    then have "q = x" using u(2) by (simp add: link_def)
    then show ?thesis using old [OF u(1) 3(1) b(1) p(1)] new kk xk p(2) by metis
  next
    case 4
    then show ?thesis using old [OF u(1) 4(1) b(1) p(1)] old [OF u(2) 4(2) b(2) p(2)] o kk unfolding one_list_def by metis
  qed simp
qed

lemma link_table:
  assumes "finite (dom t)" "links_ok be t" "\<exists>rank. ranked rank t" "single \<longrightarrow> one_list be t" "link_at single be t n x k"
  shows "finite (dom (link n x t)) \<and> links_ok be (link n x t) \<and> (\<exists>rank. ranked rank (link n x t)) \<and> (single \<longrightarrow> one_list be (link n x t))"
proof -
  have "dom (link n x t) \<subseteq> insert n (dom t)" by (auto simp: link_def split: if_splits)
  then have "finite (dom (link n x t))" using assms(1) finite_subset by blast
  then show ?thesis using link_links [OF assms(2,5)] link_ranked [OF assms(2) _ assms(5)] link_one_list [OF assms(2)] assms(3-5) by (cases single) auto
qed

text \<open>A new row that the index does not point to, behind one of its list.\<close>

lemma link_inv:
  assumes inv: "table_inv single be V t" and a: "link_at single be t n x k" and p: "pointed_to x = 0" and nz: "prev_entry x \<noteq> 0"
  shows "table_inv single be V (link n x t)"
proof -
  note d = table_invD [OF inv]
  note i = index_okD [OF d(4)]
  have n: "t n = None" "row_key be x = Some k" using a by (auto simp: link_at_def)
  have "V k \<noteq> None" if single using a nz i(3) [OF that] by (auto simp: link_at_def)
  moreover have "\<exists>r. link n x t j = Some r \<and> row_key be r = Some k' \<and> pointed_to r \<noteq> 0" if "V k' = Some j" for k' j
    using i(2) [OF that] n(1) by (auto simp: link_def)
  ultimately have "index_ok single be V (link n x t)" using i(1,3) p n unfolding index_ok_def link_Some by (auto split: if_splits)
  then show ?thesis using link_table [OF d(1,2,5,3) a] unfolding table_inv_def by blast
qed

text \<open>A new row that the index will point to: the mark is taken from a row that has it, the one the index names when there is a
  single list.\<close>

definition unmark :: "int option \<Rightarrow> table \<Rightarrow> table" where
  "unmark m t = (case m of Some e \<Rightarrow> mark 0 e t | None \<Rightarrow> t)"

definition unmark_ok :: "bool \<Rightarrow> bool \<Rightarrow> index \<Rightarrow> SIndexKey \<Rightarrow> table \<Rightarrow> int option \<Rightarrow> bool" where
  "unmark_ok single be V k t m \<longleftrightarrow>
     (single \<longrightarrow> m = V k) \<and> (case m of Some e \<Rightarrow> \<exists>y. t e = Some y \<and> row_key be y = Some k | None \<Rightarrow> True)"

lemma unmark_table:
  assumes "links_ok be t"
  shows "links_ok be (unmark m t)" "finite (dom (unmark m t)) = finite (dom t)" "ranked rank (unmark m t) = ranked rank t"
    "one_list be (unmark m t) = one_list be t"
  using assms mark_links [of be t _ 0] by (auto simp: unmark_def mark_keeps split: option.splits)

lemma unmark_Some:
  "unmark m t j = Some y' \<longleftrightarrow> (\<exists>y. t j = Some y \<and> y' = (if m = Some j then y\<lparr>pointed_to := 0\<rparr> else y))"
  by (cases m) (auto simp: unmark_def mark_def)

lemma link_inv_pointed:
  assumes inv: "table_inv single be V t" and m: "unmark_ok single be V k t m" and a: "link_at single be (unmark m t) n x k" and p: "pointed_to x \<noteq> 0"
  shows "table_inv single be (V(k \<mapsto> n)) (link n x (unmark m t))"
proof -
  let ?t = "unmark m t"
  note d = table_invD [OF inv]
  note i = index_okD [OF d(4)]
  have n: "?t n = None" "row_key be x = Some k" using a by (auto simp: link_at_def)
  have "index_ok single be (V(k \<mapsto> n)) (link n x ?t)"
    unfolding index_ok_def
  proof (intro conjI allI impI)
    fix j r k' assume s: single and u: "link n x ?t j = Some r" "pointed_to r \<noteq> 0" "row_key be r = Some k'"
    have mV: "m = V k" using m s by (simp add: unmark_ok_def)
    show "(V(k \<mapsto> n)) k' = Some j"
    proof (cases "j = n")
      case False
      then obtain y where y: "?t j = Some y" "pointed_to y \<noteq> 0" "row_key be y = Some k'" using u by (auto simp: link_Some)
      obtain z where z: "t j = Some z" "y = (if m = Some j then z\<lparr>pointed_to := 0\<rparr> else z)" using y(1) unfolding unmark_Some by blast
      then have "V k \<noteq> Some j" "V k' = Some j" using i(1) [OF s z(1)] y(2,3) mV by (auto split: if_splits)
      then show ?thesis by auto
    qed (use u n in \<open>simp add: link_def\<close>)
  next
    fix k' j assume V: "(V(k \<mapsto> n)) k' = Some j"
    show "\<exists>r. link n x ?t j = Some r \<and> row_key be r = Some k' \<and> pointed_to r \<noteq> 0"
    proof (cases "k' = k")
      case False
      then have "V k' = Some j" using V by simp
      then obtain y where y: "t j = Some y" "row_key be y = Some k'" "pointed_to y \<noteq> 0" using i(2) by blast
      have "m \<noteq> Some j"
      proof
        assume e: "m = Some j"
        show False using m y(1,2) False unfolding unmark_ok_def e by auto
      qed
      then have "?t j = Some y" using y(1) unfolding unmark_Some by simp
      then show ?thesis using y n(1) by (auto simp: link_def)
    qed (use V n p in \<open>simp add: link_def\<close>)
  next
    fix j r k' assume s: single and u: "link n x ?t j = Some r" "big r" "row_key be r = Some k'"
    show "(V(k \<mapsto> n)) k' \<noteq> None"
    proof (cases "j = n")
      case False
      then obtain y where "?t j = Some y" "big y" "row_key be y = Some k'" using u by (auto simp: link_Some)
      then obtain z where "t j = Some z" "big z" "row_key be z = Some k'" unfolding unmark_Some by (auto split: if_splits)
      then show ?thesis using i(3) [OF s] by auto
    qed (use u n in \<open>simp add: link_def\<close>)
  qed
  moreover have "\<exists>rank. ranked rank ?t" "links_ok be ?t" "finite (dom ?t)" "single \<longrightarrow> one_list be ?t" using d unmark_table [OF d(2)] by simp_all
  ultimately show ?thesis using link_table [OF _ _ _ _ a] unfolding table_inv_def by blast
qed

text \<open>A small file.\<close>

lemma small_inv:
  assumes inv: "table_inv single be V t" and n: "t n = None" "n \<noteq> 0" and x: "\<not> big x" "next_entry x = 0" "prev_entry x = 0" "pointed_to x = 0"
  shows "table_inv single be V (t(n \<mapsto> x))"
proof -
  note d = table_invD [OF inv]
  note i = index_okD [OF d(4)]
  have sub: "t j = Some y \<Longrightarrow> (t(n \<mapsto> x)) j = Some y" for j y using n(1) by auto
  have "links_ok be (t(n \<mapsto> x))"
    unfolding links_ok_def
  proof (intro allI impI)
    fix j y assume u: "(t(n \<mapsto> x)) j = Some y"
    show "j \<noteq> 0 \<and> (\<not> big y \<longrightarrow> next_entry y = 0 \<and> prev_entry y = 0 \<and> pointed_to y = 0) \<and> (big y \<longrightarrow> row_key be y \<noteq> None) \<and>
     (next_entry y \<noteq> 0 \<longrightarrow> (\<exists>q. (t(n \<mapsto> x)) (next_entry y) = Some q \<and> prev_entry q = j \<and> row_key be q = row_key be y)) \<and>
     (prev_entry y \<noteq> 0 \<longrightarrow> (\<exists>q. (t(n \<mapsto> x)) (prev_entry y) = Some q \<and> next_entry q = j \<and> row_key be q = row_key be y))"
    proof (cases "j = n")
      case False
      then have tj: "t j = Some y" using u by simp
      note l = links_okD [OF d(2) tj]
      have "\<exists>q. (t(n \<mapsto> x)) (next_entry y) = Some q \<and> prev_entry q = j \<and> row_key be q = row_key be y" if "next_entry y \<noteq> 0"
        using l(6) [OF that] sub by blast
      moreover have "\<exists>q. (t(n \<mapsto> x)) (prev_entry y) = Some q \<and> next_entry q = j \<and> row_key be q = row_key be y" if "prev_entry y \<noteq> 0"
        using l(7) [OF that] sub by blast
      ultimately show ?thesis using l(1-5) by blast
    qed (use u n x in auto)
  qed
  moreover have "\<exists>rank. ranked rank (t(n \<mapsto> x))" using d(5) x by (auto simp: ranked_def)
  moreover have "single \<longrightarrow> one_list be (t(n \<mapsto> x))" using d(3) x(1) unfolding one_list_def by (metis fun_upd_apply option.inject)
  moreover have "index_ok single be V (t(n \<mapsto> x))"
    unfolding index_ok_def
  proof (intro conjI allI impI)
    fix k j assume "V k = Some j"
    then show "\<exists>r. (t(n \<mapsto> x)) j = Some r \<and> row_key be r = Some k \<and> pointed_to r \<noteq> 0" using i(2) sub by metis
  qed (use i(1,3) x n in \<open>auto split: if_splits\<close>)
  ultimately show ?thesis using d(1) unfolding table_inv_def by simp
qed

end
