(* ===== verification/Entry_Deletion.thy ===== *)
theory Entry_Deletion
  imports Entry_Lists
begin

text \<open>
  Deleting file entries: one by one, and all entries of a backup with corrections kept in memory. The table as the corrections leave it
  (\<open>cview\<close>) changes in the same way whether a change goes to the database or to the corrections.
\<close>

subsection \<open>The effect of a deletion\<close>

definition del_target :: "file_entry \<Rightarrow> int" where
  "del_target r = (if next_entry r \<noteq> 0 then next_entry r else prev_entry r)"

definition abs_del :: "bool \<Rightarrow> int \<Rightarrow> file_entry \<Rightarrow> index \<times> table \<Rightarrow> index \<times> table" where
  "abs_del be i r = (\<lambda>(V, t).
     if pointed_to r = 0 then (V, unlink i r t)
     else if prev_entry r = 0 \<and> next_entry r = 0 then (let k = the (row_key be r) in (V(k := if V k = Some i then None else V k), unlink i r t))
     else (V(the (row_key be r) \<mapsto> del_target r), unlink i r (mark 1 (del_target r) t)))"

lemma del_target_row:
  assumes "links_ok be t" "ranked rank t" "t i = Some r" "\<not> (prev_entry r = 0 \<and> next_entry r = 0)"
  shows "\<exists>q. t (del_target r) = Some q \<and> row_key be q = row_key be r \<and> big q" "del_target r \<noteq> i"
proof -
  note d = links_okD [OF assms(1,3)]
  have "\<exists>q. t (del_target r) = Some q \<and> row_key be q = row_key be r \<and> (prev_entry q = i \<or> next_entry q = i)"
    using d(6,7) assms(4) by (auto simp: del_target_def)
  then obtain q where q: "t (del_target r) = Some q" "row_key be q = row_key be r" "prev_entry q = i \<or> next_entry q = i" by blast
  then have "big q" using links_okD(2,3) [OF assms(1) q(1)] d(1) by auto
  then show "\<exists>q. t (del_target r) = Some q \<and> row_key be q = row_key be r \<and> big q" using q by blast
  show "del_target r \<noteq> i" using no_self [OF assms(2,3)] no_self_prev [OF assms(1,2,3)] assms(4) by (auto simp: del_target_def)
qed

lemma abs_del_inv:
  assumes inv: "table_inv single be V t" and t: "t i = Some r"
  shows "case abs_del be i r (V, t) of (V', t') \<Rightarrow> table_inv single be V' t'"
proof (cases "pointed_to r = 0")
  case True
  then show ?thesis using unlink_inv [OF inv t] by (simp add: abs_del_def)
next
  case False
  note d = table_invD [OF inv]
  obtain rank where rank: "ranked rank t" using d(5) by blast
  have "big r" using links_okD(4) [OF d(2) t] False by blast
  then obtain k where k: "row_key be r = Some k" using links_okD(5) [OF d(2) t] by blast
  show ?thesis
  proof (cases "prev_entry r = 0 \<and> next_entry r = 0")
    case True
    then show ?thesis using unlink_inv_last [OF inv t False k] False k by (simp add: abs_del_def Let_def)
  next
    case nb: False
    obtain q where q: "t (del_target r) = Some q" "row_key be q = row_key be r" "big q" using del_target_row(1) [OF d(2) rank t nb] by blast
    have "row_key be q = Some k" using q(2) k by simp
    from unlink_inv_moved [OF inv t False k q(1) this q(3) del_target_row(2) [OF d(2) rank t nb]]
    show ?thesis using False nb k by (auto simp: abs_del_def)
  qed
qed

lemma dom_abs_del: "dom (snd (abs_del be i r (V, t))) = dom t - {i}"
  by (auto simp: abs_del_def unlink_def mark_def Let_def split: if_splits)

subsection \<open>Corrections\<close>

interpretation int_order: key_order "(<) :: int \<Rightarrow> int \<Rightarrow> bool" "\<lambda>_. True"
  by unfold_locales auto

definition corrected :: "SInMemCorrection \<Rightarrow> int \<Rightarrow> file_entry \<Rightarrow> file_entry" where
  "corrected c j q = q\<lparr>next_entry := (case map_of (next_entries c) j of Some v \<Rightarrow> v | None \<Rightarrow> next_entry q),
     prev_entry := (case map_of (prev_entries c) j of Some v \<Rightarrow> v | None \<Rightarrow> prev_entry q),
     pointed_to := (case map_of (c_pointed_to c) j of Some v \<Rightarrow> v | None \<Rightarrow> pointed_to q)\<rparr>"

definition cview :: "corr_db \<Rightarrow> table" where
  "cview = (\<lambda>(correction, db). case correction of None \<Rightarrow> rows db | Some c \<Rightarrow> (\<lambda>j. map_option (corrected c j) (rows db j)))"

definition corr_ok :: "SInMemCorrection option \<Rightarrow> bool" where
  "corr_ok correction \<longleftrightarrow> (case correction of None \<Rightarrow> True | Some c \<Rightarrow>
     smap_ok (<) (\<lambda>_. True) (next_entries c) \<and> smap_ok (<) (\<lambda>_. True) (prev_entries c) \<and> smap_ok (<) (\<lambda>_. True) (c_pointed_to c) \<and>
     dom (map_of (next_entries c)) \<union> dom (map_of (prev_entries c)) \<union> dom (map_of (c_pointed_to c)) \<subseteq> {j. needs_correction c j})"

text \<open>What a change leaves alone: the range, the ids, and in the database every row in the range.\<close>

definition corr_range :: "SInMemCorrection option \<Rightarrow> int \<Rightarrow> bool" where
  "corr_range correction j = (case correction of None \<Rightarrow> False | Some c \<Rightarrow> needs_correction c j)"

definition corr_frame :: "corr_db \<Rightarrow> corr_db \<Rightarrow> bool" where
  "corr_frame a b \<longleftrightarrow> map fst (files (snd b)) = map fst (files (snd a)) \<and> corr_range (fst b) = corr_range (fst a) \<and>
     (\<forall>j. corr_range (fst a) j \<longrightarrow> rows (snd b) j = rows (snd a) j) \<and>
     (\<forall>j. map_option backupid (rows (snd b) j) = map_option backupid (rows (snd a) j))"

lemma map_put_int: "smap_ok (<) (\<lambda>_. True) m \<Longrightarrow> map_of (map_put (<) i (v :: int) m) = (map_of m)(i \<mapsto> v)"
  "smap_ok (<) (\<lambda>_. True) m \<Longrightarrow> smap_ok (<) (\<lambda>_. True) (map_put (<) (i :: int) v m)"
  using int_order.map_of_put int_order.map_put_ok by auto

lemma corrected_put:
  assumes "corr_ok (Some c)"
  shows "corrected (c\<lparr>c_pointed_to := map_put (<) i p (c_pointed_to c)\<rparr>) j q = (if j = i then (corrected c j q)\<lparr>pointed_to := p\<rparr> else corrected c j q)"
    "corrected (c\<lparr>prev_entries := map_put (<) i p (prev_entries c)\<rparr>) j q = (if j = i then (corrected c j q)\<lparr>prev_entry := p\<rparr> else corrected c j q)"
    "corrected (c\<lparr>next_entries := map_put (<) i p (next_entries c)\<rparr>) j q = (if j = i then (corrected c j q)\<lparr>next_entry := p\<rparr> else corrected c j q)"
  using assms by (simp_all add: corrected_def corr_ok_def map_put_int(1))

lemma corrected_out:
  assumes "corr_ok (Some c)" "\<not> needs_correction c i"
  shows "corrected c i q = q"
proof -
  have "map_of (next_entries c) i = None" "map_of (prev_entries c) i = None" "map_of (c_pointed_to c) i = None"
    using assms by (auto simp: corr_ok_def)
  then show ?thesis by (simp add: corrected_def)
qed

lemma corr_ok_put:
  assumes "corr_ok (Some c)" "needs_correction c i"
  shows "corr_ok (Some (c\<lparr>c_pointed_to := map_put (<) i p (c_pointed_to c)\<rparr>))" "corr_ok (Some (c\<lparr>prev_entries := map_put (<) i p (prev_entries c)\<rparr>))"
    "corr_ok (Some (c\<lparr>next_entries := map_put (<) i p (next_entries c)\<rparr>))"
  using assms by (auto simp: corr_ok_def map_put_int needs_correction_def)

lemma corr_effect:
  assumes "corr_ok (fst cdb)"
  shows "cview (corr_pointed p i cdb) = (cview cdb)(i := map_option (\<lambda>q. q\<lparr>pointed_to := p\<rparr>) (cview cdb i))"
    "cview (corr_prev p i cdb) = (cview cdb)(i := map_option (\<lambda>q. q\<lparr>prev_entry := p\<rparr>) (cview cdb i))"
    "cview (corr_next p i cdb) = (cview cdb)(i := map_option (\<lambda>q. q\<lparr>next_entry := p\<rparr>) (cview cdb i))"
    "corr_ok (fst (corr_pointed p i cdb))" "corr_ok (fst (corr_prev p i cdb))" "corr_ok (fst (corr_next p i cdb))"
    "corr_frame cdb (corr_pointed p i cdb)" "corr_frame cdb (corr_prev p i cdb)" "corr_frame cdb (corr_next p i cdb)"
proof -
  obtain correction db where cdb: "cdb = (correction, db)" by (cases cdb)
  note defs = corr_pointed_def corr_prev_def corr_next_def setPointedTo_def setPrevEntry_def setNextEntry_def cview_def
  note frame = corr_frame_def corr_pointed_def corr_prev_def corr_next_def setPointedTo_def setPrevEntry_def setNextEntry_def
  consider "correction = None" | c where "correction = Some c" "needs_correction c i" | c where "correction = Some c" "\<not> needs_correction c i"
    by (cases correction) blast+
  note cases = this
  show "cview (corr_pointed p i cdb) = (cview cdb)(i := map_option (\<lambda>q. q\<lparr>pointed_to := p\<rparr>) (cview cdb i))"
    using cases by cases (use assms cdb in \<open>auto simp: defs fun_eq_iff corrected_put corrected_out option.map_comp comp_def map_option_case split: option.splits\<close>)
  show "cview (corr_prev p i cdb) = (cview cdb)(i := map_option (\<lambda>q. q\<lparr>prev_entry := p\<rparr>) (cview cdb i))"
    using cases by cases (use assms cdb in \<open>auto simp: defs fun_eq_iff corrected_put corrected_out option.map_comp comp_def map_option_case split: option.splits\<close>)
  show "cview (corr_next p i cdb) = (cview cdb)(i := map_option (\<lambda>q. q\<lparr>next_entry := p\<rparr>) (cview cdb i))"
    using cases by cases (use assms cdb in \<open>auto simp: defs fun_eq_iff corrected_put corrected_out option.map_comp comp_def map_option_case split: option.splits\<close>)
  show "corr_ok (fst (corr_pointed p i cdb))" "corr_ok (fst (corr_prev p i cdb))" "corr_ok (fst (corr_next p i cdb))"
    using cases by (cases, use assms cdb in \<open>simp_all add: defs corr_ok_put\<close>)+
  show "corr_frame cdb (corr_pointed p i cdb)" "corr_frame cdb (corr_prev p i cdb)" "corr_frame cdb (corr_next p i cdb)"
    using cases by (cases, use cdb in \<open>auto simp: frame corr_range_def needs_correction_def map_option_case split: option.splits\<close>)+
qed

lemma client_file_keyD:
  assumes "client_file_key be h sz c = Some k"
  shows "key_wf k" "\<exists>fk. file_key be h sz = Some fk \<and> key_wf fk \<and> getClientid be fk = 0 \<and> client_key be fk (word_of_int c) = k"
proof -
  from assms obtain b where b: "rdb h 0 bytes_in_index = Some b" "sint (word_of_int sz :: u64) \<ge> 0"
    "k = \<lparr>khash = b, kfilesize = big_endian64 be (word_of_int sz), kclientid = big_endian32 be (word_of_int c)\<rparr>"
    by (auto simp: client_file_key_def SIndexKey_new_def split: if_splits bind_splits)
  have l: "length b = bytes_in_index" using b(1) by (auto simp: rdb_def bslice_def split: if_splits)
  show "key_wf k" using l b(3) by (simp add: key_wf_def)
  have "big_endian32 be 0 = 0" by (simp add: big_endian32_def endian_swap32_def)
  then show "\<exists>fk. file_key be h sz = Some fk \<and> key_wf fk \<and> getClientid be fk = 0 \<and> client_key be fk (word_of_int c) = k"
    using b l by (simp add: file_key_def SIndexKey_file_def key_wf_def getClientid_def client_key_def)
qed

subsection \<open>Deletion follows its effect\<close>

definition del_links :: "file_entry \<Rightarrow> corr_db \<Rightarrow> corr_db" where
  "del_links r cdb =
     (let cdb = (if next_entry r \<noteq> 0 then corr_prev (prev_entry r) (next_entry r) cdb else cdb)
      in if prev_entry r \<noteq> 0 then corr_next (next_entry r) (prev_entry r) cdb else cdb)"

lemma corr_frame_refl [simp]: "corr_frame a a"
  by (simp add: corr_frame_def)

lemma corr_frame_trans: "corr_frame a b \<Longrightarrow> corr_frame b c \<Longrightarrow> corr_frame a c"
  by (simp add: corr_frame_def)

text \<open>The table \<open>t\<close> is what the corrections leave, without the rows \<open>D\<close> that are gone; row \<open>i\<close>, about to be deleted, is given apart.\<close>

definition agree :: "int \<Rightarrow> int set \<Rightarrow> corr_db \<Rightarrow> table \<Rightarrow> bool" where
  "agree i D cdb t \<longleftrightarrow> (\<forall>j. j \<noteq> i \<longrightarrow> t j = (cview cdb |` (- D)) j)"

lemma del_links_effect:
  assumes "corr_ok (fst cdb)" "links_ok be t" "ranked rank t" "t i = Some r" "agree i D cdb t"
  shows "cview (del_links r cdb) |` (- insert i D) = unlink i r t" "corr_ok (fst (del_links r cdb))" "corr_frame cdb (del_links r cdb)"
proof -
  let ?a = "if next_entry r \<noteq> 0 then corr_prev (prev_entry r) (next_entry r) cdb else cdb"
  have a: "corr_ok (fst ?a)" using corr_effect(5) [OF assms(1)] assms(1) by simp
  show "corr_ok (fst (del_links r cdb))" using a corr_effect(6) [OF a] by (simp add: del_links_def Let_def)
  have f: "corr_frame cdb ?a" using corr_effect(8) [OF assms(1)] by simp
  show "corr_frame cdb (del_links r cdb)"
    unfolding del_links_def Let_def using f corr_frame_trans [OF f corr_effect(9) [OF a]] by simp
  show "cview (del_links r cdb) |` (- insert i D) = unlink i r t"
  proof
    fix j
    have c: "cview (del_links r cdb) j = map_option (\<lambda>q. q\<lparr>next_entry := if prev_entry r \<noteq> 0 \<and> j = prev_entry r then next_entry r else next_entry q,
        prev_entry := if next_entry r \<noteq> 0 \<and> j = next_entry r then prev_entry r else prev_entry q\<rparr>) (cview cdb j)"
      using a assms(1) by (auto simp: del_links_def Let_def corr_effect option.map_comp comp_def map_option_case split: option.splits)
    show "(cview (del_links r cdb) |` (- insert i D)) j = unlink i r t j"
    proof (cases "j = i \<or> t j = None")
      case True
      then show ?thesis using assms(5) c by (auto simp: unlink_def agree_def restrict_map_def split: if_splits)
    next
      case False
      then obtain q where q: "t j = Some q" "j \<noteq> i" by blast
      then have cj: "cview cdb j = Some q" "j \<notin> D" using assms(5) by (auto simp: agree_def restrict_map_def split: if_splits)
      have "next_entry q = i \<longleftrightarrow> prev_entry r = j" "prev_entry q = i \<longleftrightarrow> next_entry r = j" "j \<noteq> 0"
        using next_iff [OF assms(2,4) q(1)] next_iff [OF assms(2) q(1) assms(4)] links_okD(1) [OF assms(2) q(1)] by auto
      then show ?thesis using q cj c by (auto simp: unlink_def relink_def restrict_map_def)
    qed
  qed
qed

lemma corr_pointed_effect:
  assumes "corr_ok (fst cdb)" "agree i D cdb t" "m \<noteq> i"
  shows "agree i D (corr_pointed 1 m cdb) (mark 1 m t)"
  using assms by (auto simp: corr_effect mark_def restrict_map_def agree_def)

lemma deleteFileSQL_links:
  assumes "\<not> (prev_entry r = 0 \<and> next_entry r = 0)"
    "(if p \<noteq> 0 then del_pointed ops be h sz c i (prev_entry r) (next_entry r) (correction, edb st) (eidx st) else Inr ((correction, edb st), eidx st)) = Inr (cdb, s)"
  shows "deleteFileSQL ops be h sz c b incr i (prev_entry r) (next_entry r) p del_entry ws correction st =
    Inr (fst (del_links r cdb), st\<lparr>edb := if del_entry then delFileEntry i (snd (del_links r cdb)) else snd (del_links r cdb), eidx := s\<rparr>)"
  using assms by (auto simp: deleteFileSQL_def del_links_def Let_def)

context entry_index begin

lemma all_client:
  assumes "inv s" "client_file_key be h sz c = Some k"
  shows "\<exists>fk. file_key be h sz = Some fk \<and> nonzero (io_all ops fk with_del s (word_of_int c)) = view s k"
  using client_file_keyD(2) [OF assms(2)] all [OF assms(1)] by metis

lemma put_key_ok:
  assumes "inv s" "client_file_key be h sz c = Some k" "v \<noteq> 0"
  shows "\<exists>s'. put_key ops be h sz c v s = Inr s' \<and> inv s' \<and> view s' = (view s)(k \<mapsto> v)"
  using put [OF assms(1) client_file_keyD(1) [OF assms(2)], of v] assms(2,3) by (auto simp: put_key_def live_def)

text \<open>The last entry of a list: the index forgets the file when it names this entry.\<close>

lemma del_last_ok:
  assumes "inv s" "client_file_key be h sz c = Some k"
  shows "\<exists>st s'. del_last ops be h sz c b incr i p ws db s = Inr (addIncomingFile st db, s') \<and> inv s' \<and>
    view s' = (if p \<noteq> 0 then (view s)(k := if view s k = Some i then None else view s k) else view s)"
proof -
  obtain fk where fk: "file_key be h sz = Some fk" "nonzero (io_all ops fk True s (word_of_int c)) = view s k"
    using all_client [OF assms(1,2)] by blast
  obtain s' where s': "io_del ops k s = Some s'" "inv s'" "view s' = (view s)(k := None)"
    using del [OF assms(1) client_file_keyD(1) [OF assms(2)]] by blast
  show ?thesis
  proof (cases "p \<noteq> 0 \<and> io_all ops fk True s \<noteq> Map.empty \<and> (view s k = None \<or> view s k = Some i)")
    case True
    then have "id_of (view s k) = 0 \<or> id_of (view s k) = i" by (auto simp: id_of_def)
    then show ?thesis using True fk s' assms(2) by (auto simp: del_last_def Let_def)
  next
    case False
    have z: "view s k \<noteq> Some 0" by (rule not_0 [OF assms(1)])
    have n: "view s k = None" if "io_all ops fk True s = Map.empty" using fk(2) that by (simp add: nonzero_def)
    have "\<not> (p \<noteq> 0 \<and> io_all ops fk True s \<noteq> Map.empty \<and> (id_of (view s k) = 0 \<or> id_of (view s k) = i))"
      using False z by (auto simp: id_of_def split: option.splits)
    moreover have "p \<noteq> 0 \<Longrightarrow> (view s)(k := if view s k = Some i then None else view s k) = view s"
      using False n by (auto simp: fun_eq_iff)
    ultimately show ?thesis using fk assms(1) by (auto simp: del_last_def Let_def)
  qed
qed

lemma del_pointed_ok:
  assumes "inv s" "client_file_key be h sz c = Some k" "next \<noteq> 0 \<Longrightarrow> next \<noteq> i" "prev \<noteq> i" "m = (if next \<noteq> 0 then next else prev)" "m \<noteq> 0"
  shows "\<exists>s'. del_pointed ops be h sz c i prev next cdb s = Inr (corr_pointed 1 m cdb, s') \<and> inv s' \<and> view s' = (view s)(k \<mapsto> m)"
  using put_key_ok [OF assms(1,2,6)] assms(3-6) by (auto simp: del_pointed_def)

lemma deleteFileSQL_effect:
  assumes inv: "inv (eidx st)" and ok: "corr_ok correction" and tab: "table_inv single be (view (eidx st)) t" and
    t: "agree i D (correction, edb st) t" and i: "t i = Some r"
  shows "\<exists>cdb s. deleteFileSQL ops be (shahash r) (filesize r) (clientid r) (backupid r) (incremental r) i (prev_entry r) (next_entry r) (pointed_to r)
      del_entry ws correction st = Inr (fst cdb, st\<lparr>edb := if del_entry then delFileEntry i (snd cdb) else snd cdb, eidx := s\<rparr>) \<and>
    inv s \<and> corr_ok (fst cdb) \<and> corr_frame (correction, edb st) cdb \<and>
    (view s, cview cdb |` (- insert i D)) = abs_del be i r (view (eidx st), t)"
proof -
  note d = table_invD [OF tab]
  note l = links_okD [OF d(2) i]
  obtain rank where rank: "ranked rank t" using d(5) by blast
  let ?s = "eidx st" and ?last = "prev_entry r = 0 \<and> next_entry r = 0"
  have agree: "agree i D (correction, addIncomingFile x (edb st)) t" for x
    using t by (simp add: agree_def cview_def split: option.splits)
  have stat: "cview (c, addIncomingFile x db) = cview (c, db)" "corr_frame (c, db) (c, addIncomingFile x db)" for c x db
    by (simp_all add: cview_def corr_frame_def split: option.splits)
  consider (small) "?last" "\<not> big r" | (last) k where "?last" "big r" "row_key be r = Some k" |
    (marked) k where "\<not> ?last" "pointed_to r \<noteq> 0" "row_key be r = Some k" | (plain) "\<not> ?last" "pointed_to r = 0"
    using l(4,5) by blast
  then show ?thesis
  proof cases
    case small
    let ?cdb = "(correction, addIncomingFile (outgoing_stat ws (filesize r) (clientid r) (backupid r) (convert_int64 (clientid r)) (incremental r)) (edb st))"
    have "cview ?cdb |` (- insert i D) = unlink i r t"
      using del_links_effect(1) [of ?cdb be t rank i r D] ok d(2) rank i agree small by (simp add: del_links_def)
    then show ?thesis using small inv ok l(4) stat(2)
      by (intro exI [of _ ?cdb] exI [of _ ?s]) (auto simp: deleteFileSQL_def big_def abs_del_def Let_def)
  next
    case last
    have k: "client_file_key be (shahash r) (filesize r) (clientid r) = Some k" using last(3) by (simp add: row_key_def)
    obtain x s' where dl: "del_last ops be (shahash r) (filesize r) (clientid r) (backupid r) (incremental r) i (pointed_to r) ws (edb st) ?s =
        Inr (addIncomingFile x (edb st), s')" "inv s'" "view s' = (if pointed_to r \<noteq> 0 then (view ?s)(k := if view ?s k = Some i then None else view ?s k) else view ?s)"
      using del_last_ok [OF inv k] by blast
    let ?cdb = "(correction, addIncomingFile x (edb st))"
    have "cview ?cdb |` (- insert i D) = unlink i r t"
      using del_links_effect(1) [of ?cdb be t rank i r D] ok d(2) rank i agree last(1) by (simp add: del_links_def)
    then show ?thesis using last dl ok stat(2)
      by (intro exI [of _ ?cdb] exI [of _ s']) (auto simp: deleteFileSQL_def big_def abs_del_def Let_def)
  next
    case marked
    have k: "client_file_key be (shahash r) (filesize r) (clientid r) = Some k" using marked(3) by (simp add: row_key_def)
    have nz: "del_target r \<noteq> 0" using marked(1) by (auto simp: del_target_def)
    have ni: "next_entry r \<noteq> 0 \<Longrightarrow> next_entry r \<noteq> i" "prev_entry r \<noteq> i" using no_self [OF rank i] no_self_prev [OF d(2) rank i] l(1) by auto
    let ?c = "corr_pointed 1 (del_target r) (correction, edb st)"
    obtain s' where dp: "del_pointed ops be (shahash r) (filesize r) (clientid r) i (prev_entry r) (next_entry r) (correction, edb st) ?s = Inr (?c, s')"
        "inv s'" "view s' = (view ?s)(k \<mapsto> del_target r)"
      using del_pointed_ok [OF inv k ni del_target_def nz] by blast
    have c: "corr_ok (fst ?c)" "corr_frame (correction, edb st) ?c" "agree i D ?c (mark 1 (del_target r) t)"
      using corr_effect(4,7) [of "(correction, edb st)"] corr_pointed_effect [OF _ t del_target_row(2) [OF d(2) rank i marked(1)]] ok by simp_all
    obtain q where q: "t (del_target r) = Some q" "big q" using del_target_row(1) [OF d(2) rank i marked(1)] by blast
    have ml: "links_ok be (mark 1 (del_target r) t)" by (rule mark_links [OF d(2)]) (use q in auto)
    have mi: "mark 1 (del_target r) t i = Some r" using i del_target_row(2) [OF d(2) rank i marked(1)] by (simp add: mark_def)
    have mr: "ranked rank (mark 1 (del_target r) t)" using rank by (simp add: mark_keeps)
    note e = del_links_effect [OF c(1) ml mr mi c(3)]
    have "cview (del_links r ?c) |` (- insert i D) = unlink i r (mark 1 (del_target r) t)" by (rule e(1))
    then show ?thesis using marked dp e(2) corr_frame_trans [OF c(2) e(3)]
      by (intro exI [of _ "del_links r ?c"] exI [of _ s']) (auto simp: deleteFileSQL_links [OF marked(1), where cdb = ?c and s = s'] abs_del_def)
  next
    case plain
    note e = del_links_effect [of "(correction, edb st)", OF _ d(2) rank i t]
    then show ?thesis using plain inv ok
      by (intro exI [of _ "del_links r (correction, edb st)"] exI [of _ ?s])
        (auto simp: deleteFileSQL_links [OF plain(1), where cdb = "(correction, edb st)" and s = ?s] abs_del_def)
  qed
qed

end

definition entries_inv :: "bool \<Rightarrow> bool \<Rightarrow> ('s \<Rightarrow> index) \<Rightarrow> ('s \<Rightarrow> bool) \<Rightarrow> 's entries \<Rightarrow> bool" where
  "entries_inv single be view ready st \<longleftrightarrow> ready (eidx st) \<and> table_ok (edb st) \<and> table_inv single be (view (eidx st)) (rows (edb st))"

lemma table_ok_frame: "corr_frame a b \<Longrightarrow> table_ok (snd b) = table_ok (snd a)"
  by (metis corr_frame_def list.set_map table_ok_def)

lemma cview_None [simp]: "cview (None, db) = rows db"
  by (simp add: cview_def)

lemma deleteFileSQL_None:
  "deleteFileSQL ops be h sz c b incr i prev next p del ws None st = Inr (c', st') \<Longrightarrow> c' = None"
  by (auto simp: deleteFileSQL_def Let_def del_pointed_def corr_pointed_def corr_prev_def corr_next_def split: if_splits sum.splits prod.splits)

context entry_index begin

lemma delete_id:
  assumes "entries_inv single be view inv st" "rows (edb st) i = Some r"
  shows "\<exists>st'. deleteFileSQL_id ops be i st = Inr st' \<and> entries_inv single be view inv st' \<and>
    (view (eidx st'), rows (edb st')) = abs_del be i r (view (eidx st), rows (edb st))"
proof -
  have inv: "inv (eidx st)" "table_ok (edb st)" "table_inv single be (view (eidx st)) (rows (edb st))" using assms(1) by (auto simp: entries_inv_def)
  have ag: "agree i {} (None, edb st) (rows (edb st))" by (simp add: agree_def restrict_map_def)
  have ok: "corr_ok None" by (simp add: corr_ok_def)
  obtain cdb s where d: "deleteFileSQL ops be (shahash r) (filesize r) (clientid r) (backupid r) (incremental r) i (prev_entry r) (next_entry r) (pointed_to r)
      True False None st = Inr (fst cdb, st\<lparr>edb := delFileEntry i (snd cdb), eidx := s\<rparr>)" "inv s" "corr_frame (None, edb st) cdb"
      "(view s, cview cdb |` (- {i})) = abs_del be i r (view (eidx st), rows (edb st))"
    using deleteFileSQL_effect [OF inv(1) ok inv(3) ag assms(2), of True False] by auto
  have "fst cdb = None" using deleteFileSQL_None [OF d(1)] .
  then have cv: "cview cdb = rows (snd cdb)" by (cases cdb) simp
  have rw: "rows (snd cdb) |` (- {i}) = (rows (snd cdb))(i := None)" by (auto simp: restrict_map_def)
  let ?st = "st\<lparr>edb := delFileEntry i (snd cdb), eidx := s\<rparr>"
  have e: "(view (eidx ?st), rows (edb ?st)) = abs_del be i r (view (eidx st), rows (edb st))" using d(4) cv rw by simp
  have "table_ok (snd cdb)" using table_ok_frame [OF d(3)] inv(2) by simp
  then have "table_ok (edb ?st)" using table_ok_del by simp
  moreover have "table_inv single be (view (eidx ?st)) (rows (edb ?st))" using abs_del_inv [OF inv(3) assms(2)] unfolding e [symmetric] by simp
  ultimately have "entries_inv single be view inv ?st" using d(2) by (simp add: entries_inv_def)
  moreover have "deleteFileSQL_id ops be i st = Inr ?st" using d(1) assms(2) by (simp add: deleteFileSQL_id_def getFileEntry_def)
  ultimately show ?thesis using e by blast
qed

end

end
