(* ===== verification/Entry_Addition.thy ===== *)
theory Entry_Addition
  imports Entry_Deletion
begin

text \<open>
  Adding file entries keeps the lists and the index together: the new row goes behind a row of its list, the mark \<open>pointed_to\<close> moves when
  the index does.
\<close>

subsection \<open>The new row\<close>

lemma ext_rows:
  assumes ok: "table_ok db" and l: "links_ok be (rows db)" and a: "link_at single be (rows db) (new_rowid db) x k"
  shows "rows (snd (addFileEntryExternal x db)) = link (new_rowid db) x (rows db)"
proof -
  let ?n = "new_rowid db"
  have n: "rows db ?n = None" using a by (simp add: link_at_def)
  have z: "rows db 0 = None" using links_okD(1) [OF l] by (cases "rows db 0") blast+
  have p: "prev_entry x \<noteq> ?n" using a n new_rowid(1) [OF ok] by (auto simp: link_at_def split: if_splits)
  have q: "next_entry x \<noteq> ?n"
  proof (cases "prev_entry x = 0 \<or> next_entry x = 0")
    case True
    then show ?thesis using a new_rowid(1) [OF ok] by (auto simp: link_at_def)
  next
    case False
    then obtain y where y: "rows db (prev_entry x) = Some y" "next_entry y = next_entry x" using a by (auto simp: link_at_def)
    then show ?thesis using links_okD(6) [OF l y(1)] False n by auto
  qed
  let ?N = "\<lambda>y. y\<lparr>next_entry := ?n\<rparr>" and ?P = "\<lambda>y. y\<lparr>prev_entry := ?n\<rparr>"
  have "rows (snd (addFileEntryExternal x db)) j = link ?n x (rows db) j" for j
  proof -
    have "rows (snd (addFileEntryExternal x db)) j =
        (if j = ?n then Some x else map_option (\<lambda>y. (if j = next_entry x \<and> j \<noteq> 0 then ?P else id) ((if j = prev_entry x \<and> j \<noteq> 0 then ?N else id) y)) (rows db j))"
      using p q ok by (auto simp: addFileEntryExternal_def setNextEntry_def setPrevEntry_def Let_def option.map_comp comp_def option.map_id)
    then show ?thesis using z by (cases "rows db j") (auto simp: link_def relay_def)
  qed
  then show ?thesis by blast
qed

lemma ext_plain:
  assumes "table_ok db" "prev_entry x = 0" "next_entry x = 0"
  shows "rows (snd (addFileEntryExternal x db)) = (rows db)(new_rowid db \<mapsto> x)"
  using assms by (simp add: addFileEntryExternal_def Let_def)

lemma ext_id [simp]: "fst (addFileEntryExternal x db) = new_rowid db"
  by (simp add: addFileEntryExternal_def Let_def)

lemma ext_table_ok: "table_ok db \<Longrightarrow> table_ok (snd (addFileEntryExternal x db))"
  by (simp add: addFileEntryExternal_def Let_def setNextEntry_def setPrevEntry_def table_ok_add)

lemma new_rowid_update [simp]: "new_rowid (update_row i f db) = new_rowid db"
proof -
  have "files (update_row i f db) = [] \<longleftrightarrow> files db = []" by (simp add: update_row_def)
  moreover have "files db \<noteq> [] \<Longrightarrow> fst (last (files (update_row i f db))) = fst (last (files db))"
    using map_fst_update [of i f db] by (metis last_map update_row_def calculation)
  ultimately show ?thesis by (simp add: new_rowid_def)
qed

lemma new_rowid_stat [simp]: "new_rowid (addIncomingFile s db) = new_rowid db"
  by (simp add: new_rowid_def)

subsection \<open>Where the new row goes\<close>

text \<open>What the callers promise: a predecessor of the same client is a row of the file with its successor, as it was read from the table.
  Where every file of a client is to keep a single list, \<open>prev_entry_clientid = 0\<close> also says that the file is new for the client.\<close>

definition add_pre :: "bool \<Rightarrow> SIndexKey \<Rightarrow> bool \<Rightarrow> index \<Rightarrow> table \<Rightarrow> int \<Rightarrow> int \<Rightarrow> int \<Rightarrow> int \<Rightarrow> bool" where
  "add_pre single k be V t client prev prev_entry_clientid next \<longleftrightarrow>
     (if prev_entry_clientid \<noteq> client \<or> prev = 0 then single \<and> prev_entry_clientid = 0 \<longrightarrow> V k = None
      else (case t prev of Some y \<Rightarrow> big y \<and> row_key be y = Some k \<and> next_entry y = next | None \<Rightarrow> False))"

text \<open>The row that was found is one of the list, and the rest of the list is not touched.\<close>

definition at_row :: "SIndexKey \<Rightarrow> bool \<Rightarrow> table \<Rightarrow> int \<Rightarrow> int \<Rightarrow> bool" where
  "at_row k be t prev next \<longleftrightarrow> (\<exists>y. t prev = Some y \<and> big y \<and> row_key be y = Some k \<and> next_entry y = next)"

lemma at_row_unmark: "at_row k be t prev next \<Longrightarrow> at_row k be (unmark m t) prev next"
  by (cases m) (auto simp: at_row_def unmark_def mark_def)

lemma at_row_link:
  assumes "at_row k be t (prev_entry x) (next_entry x)" "links_ok be t" "n \<noteq> 0" "t n = None" "big x" "row_key be x = Some k"
  shows "link_at single be t n x k" "prev_entry x \<noteq> 0"
  using assms links_okD(1) [OF assms(2)] by (auto simp: at_row_def link_at_def)

lemma no_row_link:
  assumes "index_ok single be V t" "single \<longrightarrow> V k = None" "prev_entry x = 0" "next_entry x = 0" "n \<noteq> 0" "unmark m t n = None" "big x" "row_key be x = Some k"
  shows "link_at single be (unmark m t) n x k"
  using assms index_okD(3) [OF assms(1), where k = k] by (auto simp: link_at_def unmark_Some split: if_splits)

lemma index_row:
  assumes "index_ok single be V t" "links_ok be t" "V k = Some i"
  shows "\<exists>y. t i = Some y \<and> big y \<and> row_key be y = Some k \<and> pointed_to y \<noteq> 0" "i \<noteq> 0"
  using index_okD(2) [OF assms(1,3)] links_okD(4,1) [OF assms(2)] by blast+

context entry_index begin

lemma exact_entry:
  assumes "inv s" "client_file_key be h sz c = Some k"
  shows "io_exact ops k s = id_of (view s k)" "io_exact ops k s = 0 \<longleftrightarrow> view s k = None"
  using exact [OF assms(1) client_file_keyD(1) [OF assms(2)]] not_0 [OF assms(1), of k] by (auto simp: id_of_def split: option.splits)

text \<open>Finding the place for a file that is new for the client, or not as new as predicted.\<close>

lemma add_new_client_ok:
  assumes inv: "inv (eidx st)" and k: "client_file_key be h sz c = Some k" and tab: "table_inv single be (view (eidx st)) (rows (edb st))" and
    pre: "single \<and> pc = 0 \<longrightarrow> view (eidx st) k = None"
  shows "((single \<longrightarrow> view (eidx st) k = None) \<and> (\<exists>x. add_new_client ops be b c incr h sz pc u st = Inr (0, 0, u, addIncomingFile x (edb st)))) \<or>
    (\<exists>prev next. view (eidx st) k = Some prev \<and> at_row k be (rows (edb st)) prev next \<and> add_new_client ops be b c incr h sz pc u st = Inr (prev, next, True, edb st))"
proof -
  note d = table_invD [OF tab]
  obtain fk where fk: "file_key be h sz = Some fk" "nonzero (io_all ops fk True (eidx st) (word_of_int c)) = view (eidx st) k"
    using all_client [OF inv k] by blast
  show ?thesis
  proof (cases "pc = 0 \<or> view (eidx st) k = None")
    case True
    then show ?thesis using fk pre by (auto simp: add_new_client_def Let_def id_of_def)
  next
    case False
    then obtain i where Some: "view (eidx st) k = Some i" by blast
    obtain y where y: "rows (edb st) i = Some y" "big y" "row_key be y = Some k" "pointed_to y \<noteq> 0" "i \<noteq> 0"
      using index_row [OF d(4,2) Some] by blast
    have "pc \<noteq> 0" using False by simp
    then have "add_new_client ops be b c incr h sz pc u st = Inr (i, next_entry y, True, edb st)"
      using fk Some y by (simp add: add_new_client_def Let_def id_of_def getFileEntry_def)
    then show ?thesis using Some y by (auto simp: at_row_def)
  qed
qed

lemma add_unpoint_ok:
  assumes inv: "inv s" and k: "client_file_key be h sz c = Some k" and tab: "table_inv single be (view s) (rows db)" and a: "at_row k be (rows db) prev next"
  shows "\<exists>m db'. add_unpoint ops be c h sz prev s db = Inr db' \<and> rows db' = unmark m (rows db) \<and> unmark_ok single be (view s) k (rows db) m \<and>
    table_ok db' = table_ok db \<and> new_rowid db' = new_rowid db"
proof -
  note d = table_invD [OF tab]
  obtain y where y: "rows db prev = Some y" "row_key be y = Some k" using a by (auto simp: at_row_def)
  show ?thesis
  proof (cases "pointed_to y = 0")
    case True
    let ?m = "view s k"
    have "unmark_ok single be (view s) k (rows db) ?m" using index_okD(2) [OF d(4)] by (auto simp: unmark_ok_def split: option.splits)
    moreover have "\<exists>db'. add_unpoint ops be c h sz prev s db = Inr db' \<and> rows db' = unmark ?m (rows db) \<and>
        table_ok db' = table_ok db \<and> new_rowid db' = new_rowid db"
      using y k True not_0 [OF inv, of k] exact_entry [OF inv k]
      by (cases "view s k") (auto simp: add_unpoint_def getPointedTo_def getFileEntry_def setPointedTo_def unmark_def mark_def Let_def id_of_def)
    ultimately show ?thesis by blast
  next
    case False
    have "unmark_ok single be (view s) k (rows db) (Some prev)" using index_okD(1) [OF d(4) _ y(1) False y(2)] y by (simp add: unmark_ok_def)
    moreover have "\<exists>db'. add_unpoint ops be c h sz prev s db = Inr db' \<and> rows db' = unmark (Some prev) (rows db) \<and>
        table_ok db' = table_ok db \<and> new_rowid db' = new_rowid db"
      using y False by (auto simp: add_unpoint_def getPointedTo_def getFileEntry_def setPointedTo_def unmark_def mark_def)
    ultimately show ?thesis by blast
  qed
qed

end

subsection \<open>Adding keeps the invariant\<close>

text \<open>What a row says of its file, without the links.\<close>

definition payload :: "file_entry \<Rightarrow> file_entry" where
  "payload r = r\<lparr>next_entry := 0, prev_entry := 0, pointed_to := 0\<rparr>"

lemma payload_upd [simp]:
  "payload (r\<lparr>next_entry := n\<rparr>) = payload r" "payload (r\<lparr>prev_entry := n\<rparr>) = payload r" "payload (r\<lparr>pointed_to := n\<rparr>) = payload r"
  by (simp_all add: payload_def)

lemma payload_link: "map_option payload (link n x t j) = (if j = n then Some (payload x) else map_option payload (t j))"
  by (cases "t j") (auto simp: link_def relay_def)

lemma payload_unmark: "map_option payload (unmark m t j) = map_option payload (t j)"
  by (cases m; cases "t j") (auto simp: unmark_def mark_def)

lemma payload_unlink: "map_option payload (unlink i r t j) = (if j = i then None else map_option payload (t j))"
  by (cases "t j") (auto simp: unlink_def relink_def)

lemma payload_mark: "map_option payload (mark p i t j) = map_option payload (t j)"
  by (cases "t j") (auto simp: mark_def)

lemma payload_abs_del: "map_option payload (snd (abs_del be i r (V, t)) j) = (if j = i then None else map_option payload (t j))"
  by (auto simp: abs_del_def payload_unlink payload_mark Let_def, auto simp: unlink_def)

text \<open>The whole operation: the state after it is well formed, one row was added, and the others keep what they say of their files.\<close>

definition added :: "file_entry \<Rightarrow> files_db \<Rightarrow> files_db \<Rightarrow> bool" where
  "added x db db' \<longleftrightarrow> (\<forall>j. map_option payload (rows db' j) = (if j = new_rowid db then Some (payload x) else map_option payload (rows db j)))"

definition new_entry :: "int \<Rightarrow> int \<Rightarrow> int \<Rightarrow> string \<Rightarrow> string \<Rightarrow> byte list \<Rightarrow> int \<Rightarrow> int \<Rightarrow> int \<Rightarrow> int \<Rightarrow> int \<Rightarrow> file_entry" where
  "new_entry b c incr fp hp h sz rs next prev p = \<lparr>backupid = b, fullpath = fp, hashpath = hp, shahash = h, filesize = sz, rsize = rs, clientid = c,
     incremental = incr, next_entry = next, prev_entry = prev, pointed_to = p\<rparr>"

lemma new_entry_simps [simp]:
  "row_key be (new_entry b c incr fp hp h sz rs next prev p) = client_file_key be h sz c" "big (new_entry b c incr fp hp h sz rs next prev p) = (link_file_min_size \<le> sz)"
  "next_entry (new_entry b c incr fp hp h sz rs next prev p) = next" "prev_entry (new_entry b c incr fp hp h sz rs next prev p) = prev"
  "pointed_to (new_entry b c incr fp hp h sz rs next prev p) = p"
  "payload (new_entry b c incr fp hp h sz rs next prev p) = new_entry b c incr fp hp h sz rs 0 0 0"
  by (simp_all add: new_entry_def row_key_def big_def payload_def)

text \<open>The index after an addition: it names the new row when the file is new for the client or the caller asks for it.\<close>

definition new_index :: "index \<Rightarrow> SIndexKey \<Rightarrow> int \<Rightarrow> int \<Rightarrow> int \<Rightarrow> int \<Rightarrow> bool \<Rightarrow> int \<Rightarrow> index" where
  "new_index V k sz c prev pc u n = (if link_file_min_size \<le> sz \<and> (pc \<noteq> c \<or> prev = 0 \<or> u) then V(k \<mapsto> n) else V)"

lemma addedI:
  assumes "rows db' = link (new_rowid db) x t" "\<And>j. map_option payload (t j) = map_option payload (rows db j)" "payload x = payload y"
  shows "added y db db'"
  unfolding added_def assms(1) using assms(2,3) by (simp add: payload_link)

context entry_index begin

text \<open>A row that goes behind a row of its list, or alone, and to which the index is moved.\<close>

lemma add_pointed:
  assumes inv: "inv s" and k: "row_key be x = Some k" and tab: "table_inv single be (view s) t" and ok: "table_ok db" and x: "big x" "pointed_to x \<noteq> 0" and
    db: "rows db = unmark m t" "unmark_ok single be (view s) k t m" and
    at: "(single \<longrightarrow> view s k = None) \<and> prev_entry x = 0 \<and> next_entry x = 0 \<or> at_row k be t (prev_entry x) (next_entry x)"
  shows "\<exists>s'. io_put ops k (new_rowid db) s = Some s' \<and> inv s' \<and> table_inv single be (view s') (rows (snd (addFileEntryExternal x db))) \<and>
    rows (snd (addFileEntryExternal x db)) = link (new_rowid db) x (rows db) \<and> view s' = (view s)(k \<mapsto> new_rowid db)"
proof -
  note d = table_invD [OF tab]
  let ?n = "new_rowid db" and ?t = "unmark m t"
  have n: "?n \<noteq> 0" "?t ?n = None" using new_rowid(1,3) [OF ok] db(1) by auto
  have l: "links_ok be ?t" using unmark_table(1) [OF d(2)] .
  have a: "link_at single be ?t ?n x k"
    using at no_row_link [OF d(4) _ _ _ n x(1) k] at_row_link(1) [OF at_row_unmark l n x(1) k] by blast
  have "key_wf k" using k client_file_keyD(1) by (auto simp: row_key_def)
  then obtain s' where s': "io_put ops k ?n s = Some s'" "inv s'" "view s' = (view s)(k \<mapsto> ?n)"
    using put [OF inv, of k ?n] n(1) by (auto simp: live_def)
  have r: "rows (snd (addFileEntryExternal x db)) = link ?n x (rows db)" by (rule ext_rows [OF ok]) (use l a db in auto)
  have "table_inv single be (view s') (link ?n x ?t)" unfolding s'(3) by (rule link_inv_pointed [OF tab db(2) a x(2)])
  then show ?thesis using s' r db by simp
qed

lemma add_plain:
  assumes k: "row_key be x = Some k" and tab: "table_inv single be V (rows db)" and ok: "table_ok db" and x: "big x" "pointed_to x = 0" and
    at: "at_row k be (rows db) (prev_entry x) (next_entry x)"
  shows "table_inv single be V (rows (snd (addFileEntryExternal x db)))" "rows (snd (addFileEntryExternal x db)) = link (new_rowid db) x (rows db)"
proof -
  note d = table_invD [OF tab]
  have n: "new_rowid db \<noteq> 0" "rows db (new_rowid db) = None" using new_rowid(1,3) [OF ok] by auto
  note a = at_row_link [OF at d(2) n x(1) k]
  show r: "rows (snd (addFileEntryExternal x db)) = link (new_rowid db) x (rows db)" by (rule ext_rows [OF ok d(2) a(1)])
  show "table_inv single be V (rows (snd (addFileEntryExternal x db)))" unfolding r by (rule link_inv [OF tab a(1) x(2) a(2)])
qed

lemmas addFileSQL_big = addFileSQL_def Let_def new_entry_def [symmetric] case_prod_beta

abbreviation place :: "int \<Rightarrow> int \<Rightarrow> int \<Rightarrow> byte list \<Rightarrow> int \<Rightarrow> int \<Rightarrow> int \<Rightarrow> int \<Rightarrow> bool \<Rightarrow> 's entries \<Rightarrow> op_error + (int \<times> int \<times> bool \<times> files_db)" where
  "place b c incr h sz prev pc next u st \<equiv>
     (if pc \<noteq> c \<or> prev = 0 then add_new_client ops be b c incr h sz pc u st else Inr (prev, next, u, edb st))"

lemma place_ok:
  assumes "inv (eidx st)" "client_file_key be h sz c = Some k" "table_inv single be (view (eidx st)) (rows (edb st))"
    "add_pre single k be (view (eidx st)) (rows (edb st)) c prev pc next"
  shows "((single \<longrightarrow> view (eidx st) k = None) \<and> (pc \<noteq> c \<or> prev = 0) \<and> (\<exists>x. place b c incr h sz prev pc next u st = Inr (0, 0, u, addIncomingFile x (edb st)))) \<or>
    (\<exists>prev' next' u'. at_row k be (rows (edb st)) prev' next' \<and> (pc \<noteq> c \<or> prev = 0 \<longrightarrow> u') \<and> place b c incr h sz prev pc next u st = Inr (prev', next', u', edb st))"
proof (cases "pc \<noteq> c \<or> prev = 0")
  case True
  then show ?thesis using add_new_client_ok [OF assms(1-3), of pc b incr u] assms(4) by (auto simp: add_pre_def)
next
  case False
  then show ?thesis using assms(4) by (auto simp: add_pre_def at_row_def split: option.splits)
qed

lemma add_alone:
  assumes i: "inv (eidx st)" "table_ok (edb st)" "table_inv single be (view (eidx st)) (rows (edb st))" and big: "link_file_min_size \<le> sz" and
    k: "client_file_key be h sz c = Some k" and none: "single \<longrightarrow> view (eidx st) k = None" and
    f: "pc \<noteq> c \<or> prev = 0" "place b c incr h sz prev pc next u st = Inr (0, 0, u, addIncomingFile x (edb st))"
  shows "\<exists>st'. addFileSQL ops be b c incr fp hp h sz rs prev pc next u st = Inr st' \<and> entries_inv single be view inv st' \<and>
    added (new_entry b c incr fp hp h sz rs 0 0 0) (edb st) (edb st') \<and> view (eidx st') = (view (eidx st))(k \<mapsto> new_rowid (edb st)) \<and>
    rows (edb st') = link (new_rowid (edb st)) (new_entry b c incr fp hp h sz rs 0 0 1) (rows (edb st))"
proof -
  let ?e = "new_entry b c incr fp hp h sz rs" and ?s = "eidx st"
  let ?db = "addIncomingFile x (edb st)"
  have un: "rows ?db = unmark None (rows (edb st))" "unmark_ok single be (view ?s) k (rows (edb st)) None"
    using none by (auto simp: unmark_def unmark_ok_def)
  obtain s' where s': "io_put ops k (new_rowid ?db) ?s = Some s'" "inv s'" "table_inv single be (view s') (rows (snd (addFileEntryExternal (?e 0 0 1) ?db)))"
      "rows (snd (addFileEntryExternal (?e 0 0 1) ?db)) = link (new_rowid ?db) (?e 0 0 1) (rows ?db)" "view s' = (view ?s)(k \<mapsto> new_rowid ?db)"
    using add_pointed [OF i(1) _ i(3) _ _ _ un, of "?e 0 0 1"] i(2) k big none by auto
  have "added (?e 0 0 0) (edb st) (snd (addFileEntryExternal (?e 0 0 1) ?db))"
    by (rule addedI [where x = "?e 0 0 1" and t = "rows ?db"]) (use s'(4) in auto)
  moreover have "addFileSQL ops be b c incr fp hp h sz rs prev pc next u st = Inr (st\<lparr>edb := snd (addFileEntryExternal (?e 0 0 1) ?db), eidx := s'\<rparr>)"
    using f s'(1) k big by (simp add: addFileSQL_big)
  ultimately show ?thesis using s'(2-5) ext_table_ok [of ?db] i(2) by (simp add: entries_inv_def)
qed

lemma add_behind_pointed:
  assumes i: "inv (eidx st)" "table_ok (edb st)" "table_inv single be (view (eidx st)) (rows (edb st))" and big: "link_file_min_size \<le> sz" and
    k: "client_file_key be h sz c = Some k" and at: "at_row k be (rows (edb st)) prev' next'" and
    f: "place b c incr h sz prev pc next u st = Inr (prev', next', True, edb st)"
  shows "\<exists>st'. addFileSQL ops be b c incr fp hp h sz rs prev pc next u st = Inr st' \<and> entries_inv single be view inv st' \<and>
    added (new_entry b c incr fp hp h sz rs 0 0 0) (edb st) (edb st') \<and> view (eidx st') = (view (eidx st))(k \<mapsto> new_rowid (edb st))"
proof -
  let ?e = "new_entry b c incr fp hp h sz rs" and ?s = "eidx st"
  have nz: "prev' \<noteq> 0" using at links_okD(1) [OF table_invD(2) [OF i(3)]] by (auto simp: at_row_def)
  obtain m db where db: "add_unpoint ops be c h sz prev' ?s (edb st) = Inr db" "rows db = unmark m (rows (edb st))" "table_ok db"
      "new_rowid db = new_rowid (edb st)" "unmark_ok single be (view ?s) k (rows (edb st)) m"
    using add_unpoint_ok [OF i(1) k i(3) at] i(2) by auto
  obtain s' where s': "io_put ops k (new_rowid db) ?s = Some s'" "inv s'" "table_inv single be (view s') (rows (snd (addFileEntryExternal (?e next' prev' 1) db)))"
      "rows (snd (addFileEntryExternal (?e next' prev' 1) db)) = link (new_rowid db) (?e next' prev' 1) (rows db)" "view s' = (view ?s)(k \<mapsto> new_rowid db)"
    using add_pointed [OF i(1) _ i(3) db(3) _ _ db(2,5), of "?e next' prev' 1"] k big at by auto
  have "added (?e 0 0 0) (edb st) (snd (addFileEntryExternal (?e next' prev' 1) db))"
    by (rule addedI [where x = "?e next' prev' 1" and t = "rows db"]) (use s'(4) db(2,4) payload_unmark in auto)
  moreover have "addFileSQL ops be b c incr fp hp h sz rs prev pc next u st = Inr (st\<lparr>edb := snd (addFileEntryExternal (?e next' prev' 1) db), eidx := s'\<rparr>)"
    using f nz db(1) s'(1) k big by (simp add: addFileSQL_big)
  ultimately show ?thesis using s'(2,3,5) db(4) ext_table_ok [OF db(3)] by (simp add: entries_inv_def)
qed

lemma add_behind_plain:
  assumes i: "inv (eidx st)" "table_ok (edb st)" "table_inv single be (view (eidx st)) (rows (edb st))" and big: "link_file_min_size \<le> sz" and
    k: "client_file_key be h sz c = Some k" and at: "at_row k be (rows (edb st)) prev' next'" and
    f: "\<not> (pc \<noteq> c \<or> prev = 0)" "place b c incr h sz prev pc next u st = Inr (prev', next', False, edb st)"
  shows "\<exists>st'. addFileSQL ops be b c incr fp hp h sz rs prev pc next u st = Inr st' \<and> entries_inv single be view inv st' \<and>
    added (new_entry b c incr fp hp h sz rs 0 0 0) (edb st) (edb st') \<and> view (eidx st') = view (eidx st)"
proof -
  let ?e = "new_entry b c incr fp hp h sz rs" and ?s = "eidx st"
  have a: "table_inv single be (view ?s) (rows (snd (addFileEntryExternal (?e next' prev' 0) (edb st))))"
      "rows (snd (addFileEntryExternal (?e next' prev' 0) (edb st))) = link (new_rowid (edb st)) (?e next' prev' 0) (rows (edb st))"
    using add_plain [of "?e next' prev' 0" k single "view ?s" "edb st"] k i big at by auto
  have "added (?e 0 0 0) (edb st) (snd (addFileEntryExternal (?e next' prev' 0) (edb st)))"
    by (rule addedI [where x = "?e next' prev' 0" and t = "rows (edb st)"]) (use a(2) in auto)
  moreover have "addFileSQL ops be b c incr fp hp h sz rs prev pc next u st = Inr (st\<lparr>edb := snd (addFileEntryExternal (?e next' prev' 0) (edb st))\<rparr>)"
    using f k big by (simp add: addFileSQL_big)
  ultimately show ?thesis using i(1) a(1) ext_table_ok [OF i(2)] by (simp add: entries_inv_def)
qed

lemma addFileSQL_ok:
  assumes e: "entries_inv single be view inv st" and k: "link_file_min_size \<le> sz \<Longrightarrow> client_file_key be h sz c = Some k" and
    pre: "if link_file_min_size \<le> sz then add_pre single k be (view (eidx st)) (rows (edb st)) c prev pc next else pc = 0 \<and> prev = 0 \<and> next = 0"
  shows "\<exists>st'. addFileSQL ops be b c incr fp hp h sz rs prev pc next u st = Inr st' \<and> entries_inv single be view inv st' \<and>
    added (new_entry b c incr fp hp h sz rs 0 0 0) (edb st) (edb st') \<and>
    view (eidx st') = new_index (view (eidx st)) k sz c prev pc u (new_rowid (edb st))"
proof -
  have i: "inv (eidx st)" "table_ok (edb st)" "table_inv single be (view (eidx st)) (rows (edb st))" using e by (auto simp: entries_inv_def)
  show ?thesis
  proof (cases "link_file_min_size \<le> sz")
    case False
    let ?e = "new_entry b c incr fp hp h sz rs 0 0 0"
    let ?db = "\<lambda>x. snd (addFileEntryExternal ?e (addIncomingFile x (edb st)))"
    have r: "rows (?db x) = (rows (edb st))(new_rowid (edb st) \<mapsto> ?e)" "table_ok (?db x)" for x
      using ext_plain [of "addIncomingFile x (edb st)" ?e] ext_table_ok [of "addIncomingFile x (edb st)"] i(2) by simp_all
    have "table_inv single be (view (eidx st)) (rows (?db x))" for x
      unfolding r(1) using small_inv [OF i(3), of "new_rowid (edb st)" ?e] new_rowid(1,3) [OF i(2)] False by simp
    then show ?thesis using False pre i(1) r by (simp add: addFileSQL_def new_entry_def [symmetric] entries_inv_def added_def new_index_def)
  next
    case big: True
    note k = k [OF big]
    have "add_pre single k be (view (eidx st)) (rows (edb st)) c prev pc next" using pre big by simp
    from place_ok [OF i(1) k i(3) this, of b incr u]
    consider (alone) x where "single \<longrightarrow> view (eidx st) k = None" "pc \<noteq> c \<or> prev = 0" "place b c incr h sz prev pc next u st = Inr (0, 0, u, addIncomingFile x (edb st))"
      | (pointed) prev' next' where "at_row k be (rows (edb st)) prev' next'" "place b c incr h sz prev pc next u st = Inr (prev', next', True, edb st)"
      | (plain) prev' next' where "at_row k be (rows (edb st)) prev' next'" "\<not> (pc \<noteq> c \<or> prev = 0)" "place b c incr h sz prev pc next u st = Inr (prev', next', False, edb st)"
      by (metis (full_types))
    then show ?thesis
    proof cases
      case alone
      then have "pc \<noteq> c \<or> prev = 0 \<or> u" by blast
      then show ?thesis using add_alone [OF i big k alone, of fp hp rs] big by (auto simp: new_index_def)
    next
      case pointed
      then have "pc \<noteq> c \<or> prev = 0 \<or> u" by (auto split: if_splits)
      then show ?thesis using add_behind_pointed [OF i big k pointed, of fp hp rs] big by (auto simp: new_index_def)
    next
      case plain
      then have "\<not> (pc \<noteq> c \<or> prev = 0 \<or> u)" by auto
      then show ?thesis using add_behind_plain [OF i big k plain, of fp hp rs] by (auto simp: new_index_def)
    qed
  qed
qed

end

subsection \<open>Adding a file that the index may know\<close>

text \<open>Client ids are positive values of an \<open>int\<close>.\<close>

definition client_ok :: "int \<Rightarrow> bool" where
  "client_ok c \<longleftrightarrow> 0 < c \<and> c < 2 ^ 31"

definition clients_ok :: "files_db \<Rightarrow> bool" where
  "clients_ok db \<longleftrightarrow> list_all (\<lambda>(i, r). client_ok (clientid r)) (files db)"

lemma clients_okD: "clients_ok db \<Longrightarrow> rows db i = Some r \<Longrightarrow> client_ok (clientid r)"
  by (auto simp: clients_ok_def list_all_iff dest!: map_of_SomeD)

lemma clients_okI: "table_ok db \<Longrightarrow> (\<And>i r. rows db i = Some r \<Longrightarrow> client_ok (clientid r)) \<Longrightarrow> clients_ok db"
  using map_of_eq_Some_iff [OF table_ok_distinct] by (auto simp: clients_ok_def list_all_iff)

lemma client_word: "client_ok a \<Longrightarrow> client_ok b \<Longrightarrow> (word_of_int a :: u32) = word_of_int b \<Longrightarrow> a = b"
proof -
  assume a: "client_ok a" "client_ok b" "(word_of_int a :: u32) = word_of_int b"
  have "uint (word_of_int a :: u32) = a" "uint (word_of_int b :: u32) = b" using a(1,2) by (simp_all add: client_ok_def uint_word_of_int)
  then show ?thesis using a(3) by metis
qed

lemma big_endian32_inj: "big_endian32 be a = big_endian32 be b \<Longrightarrow> a = b"
  by (metis big_endian_twice(1))

lemma row_key_client:
  assumes "row_key be r = Some k" "client_file_key be h sz c = Some k" "client_ok (clientid r)" "client_ok c"
  shows "clientid r = c"
proof -
  have "(word_of_int (clientid r) :: u32) = word_of_int c"
    using assms(1,2) by (auto simp: row_key_def client_file_key_def SIndexKey_new_def split: if_splits bind_splits dest!: big_endian32_inj)
  then show ?thesis by (rule client_word [OF assms(3,4)])
qed

lemma added_clients:
  assumes "added x db db'" "clients_ok db" "client_ok (clientid x)" "table_ok db'"
  shows "clients_ok db'"
proof (rule clients_okI [OF assms(4)])
  fix i r assume "rows db' i = Some r"
  then have "Some (payload r) = (if i = new_rowid db then Some (payload x) else map_option payload (rows db i))"
    using assms(1) unfolding added_def by (metis option.map(2))
  moreover have "clientid (payload q) = clientid q" for q by (simp add: payload_def)
  ultimately show "client_ok (clientid r)" using assms(3) clients_okD [OF assms(2), of i] by (cases "rows db i") (auto split: if_splits, metis+)
qed

context entry_index begin

lemma addFileEntrySQLWithExisting_ok:
  assumes e: "entries_inv single be view inv st" "clients_ok (edb st)" "client_ok c" and
    k: "link_file_min_size \<le> sz \<Longrightarrow> client_file_key be h sz c = Some k" and
    other: "\<And>r. link_file_min_size \<le> sz \<Longrightarrow> view (eidx st) k = None \<Longrightarrow> rows (edb st) (io_prefer ops k (eidx st)) = Some r \<Longrightarrow> clientid r = c \<Longrightarrow>
      big r \<and> row_key be r = Some k"
  shows "\<exists>st' rs'. addFileEntrySQLWithExisting ops be b c incr fp hp h sz rs st = Inr st' \<and> entries_inv single be view inv st' \<and> clients_ok (edb st') \<and>
    added (new_entry b c incr fp hp h sz rs' 0 0 0) (edb st) (edb st')"
proof -
  have i: "inv (eidx st)" "table_inv single be (view (eidx st)) (rows (edb st))" using e(1) by (auto simp: entries_inv_def)
  have fin: ?thesis if "addFileEntrySQLWithExisting ops be b c incr fp hp h sz rs st = addFileSQL ops be b c incr fp hp h sz rs' prev pc nx u st"
    "if link_file_min_size \<le> sz then add_pre single k be (view (eidx st)) (rows (edb st)) c prev pc nx else pc = 0 \<and> prev = 0 \<and> nx = 0" for rs' prev pc nx u
  proof -
    from addFileSQL_ok [OF e(1) k that(2)]
    obtain st' where st': "addFileSQL ops be b c incr fp hp h sz rs' prev pc nx u st = Inr st'" "entries_inv single be view inv st'"
        "added (new_entry b c incr fp hp h sz rs' 0 0 0) (edb st) (edb st')" by blast
    have "clients_ok (edb st')" using added_clients [OF st'(3) e(2)] e(3) st'(2) by (simp add: new_entry_def entries_inv_def)
    then show ?thesis using st' that(1) by auto
  qed
  show ?thesis
  proof (cases "link_file_min_size \<le> sz")
    case False
    then show ?thesis by (intro fin) (simp_all add: addFileEntrySQLWithExisting_def)
  next
    case big: True
    note k = k [OF big]
    note x = exact_entry [OF i(1) k]
    show ?thesis
    proof (cases "view (eidx st) k")
      case None
      let ?p = "io_prefer ops k (eidx st)"
      show ?thesis
      proof (cases "?p = 0 \<or> rows (edb st) ?p = None")
        case True
        then show ?thesis using big k x None
          by (intro fin [where prev = 0 and pc = 0 and nx = 0 and u = True and rs' = sz])
            (auto simp: addFileEntrySQLWithExisting_def Let_def getFileEntry_def add_pre_def)
      next
        case False
        then obtain r where r: "rows (edb st) ?p = Some r" by blast
        have c: "clientid r = c \<longrightarrow> big r \<and> row_key be r = Some k" "clientid r \<noteq> 0"
          using other [OF big None r] clients_okD [OF e(2) r] by (auto simp: client_ok_def)
        then show ?thesis using big k x None False r
          by (intro fin [where prev = ?p and pc = "clientid r" and nx = "next_entry r" and u = True and rs' = sz])
            (auto simp: addFileEntrySQLWithExisting_def Let_def getFileEntry_def add_pre_def)
      qed
    next
      case (Some j)
      obtain y where y: "rows (edb st) j = Some y" "big y" "row_key be y = Some k" "j \<noteq> 0" using index_row [OF table_invD(4,2) [OF i(2)] Some] by blast
      have "clientid y = c" using row_key_client [OF y(3) k clients_okD [OF e(2) y(1)] e(3)] .
      then show ?thesis using big k x Some y
        by (intro fin [where prev = j and pc = c and nx = "next_entry y" and u = False and rs' = "if rs < 0 then rsize y else rs"])
          (auto simp: addFileEntrySQLWithExisting_def Let_def getFileEntry_def add_pre_def id_of_def)
    qed
  qed
qed

end

end
