(* ===== verification/Backup_Removal.thy ===== *)
theory Backup_Removal
  imports Entry_Deletion
begin

text \<open>
  Removing all file entries of a backup (\<^verbatim>\<open>removeFileBackupSql\<close> of \<^verbatim>\<open>src/urbackupserver/server_cleanup.cpp\<close>): the rows of the backup are visited
  once, changes to rows with ids in the range of the backup are kept in memory, the corrections that are left are written back, and
  one statement deletes the rows. The result is that of deleting the entries one by one.
\<close>

definition erase_corrections :: "int \<Rightarrow> SInMemCorrection \<Rightarrow> SInMemCorrection" where
  "erase_corrections i c = c\<lparr>next_entries := filter (\<lambda>(j, v). j \<noteq> i) (next_entries c), prev_entries := filter (\<lambda>(j, v). j \<noteq> i) (prev_entries c),
     c_pointed_to := filter (\<lambda>(j, v). j \<noteq> i) (c_pointed_to c)\<rparr>"

fun remove_rows :: "'s index_ops \<Rightarrow> bool \<Rightarrow> (int \<times> file_entry) list \<Rightarrow> bool \<Rightarrow> SInMemCorrection \<Rightarrow> 's entries
      \<Rightarrow> op_error + (bool \<times> SInMemCorrection \<times> 's entries)" where
  "remove_rows ops be [] modified c st = Inr (modified, c, st)"
| "remove_rows ops be ((i, r) # rs) modified c st =
     (let r = corrected c i r in
      case deleteFileSQL ops be (shahash r) (filesize r) (clientid r) (backupid r) (incremental r) i (prev_entry r) (next_entry r) (pointed_to r)
          False True (Some (erase_corrections i c)) st of
        Inl e \<Rightarrow> Inl e
      | Inr (c', st) \<Rightarrow> remove_rows ops be rs (modified \<or> pointed_to r \<noteq> 0) (the c') st)"

definition write_corrections :: "SInMemCorrection \<Rightarrow> files_db \<Rightarrow> files_db" where
  "write_corrections c db =
     fold (\<lambda>(i, v). setPointedTo v i) (c_pointed_to c)
       (fold (\<lambda>(i, v). setPrevEntry v i) (prev_entries c) (fold (\<lambda>(i, v). setNextEntry v i) (next_entries c) db))"

definition removeFileBackupSql :: "'s index_ops \<Rightarrow> bool \<Rightarrow> int \<Rightarrow> 's entries \<Rightarrow> op_error + 's entries" where
  "removeFileBackupSql ops be b st =
     (let (tmin, tmax) = getBackupIdMinMax b (edb st);
          c = \<lparr>next_entries = [], prev_entries = [], c_pointed_to = [], max_correct = tmax, min_correct = tmin\<rparr>
      in case remove_rows ops be (filter (\<lambda>(i, r). backupid r = b) (files (edb st))) False c st of
           Inl e \<Rightarrow> Inl e
         | Inr (modified, c, st) \<Rightarrow>
             Inr (st\<lparr>edb := deleteFiles b (write_corrections c (edb st)), eidx := if modified then io_flush ops (eidx st) else eidx st\<rparr>))"

text \<open>The reference: one deletion after the other.\<close>

fun delete_each :: "'s index_ops \<Rightarrow> bool \<Rightarrow> int list \<Rightarrow> 's entries \<Rightarrow> op_error + 's entries" where
  "delete_each ops be [] st = Inr st"
| "delete_each ops be (i # is) st = (case deleteFileSQL_id ops be i st of Inl e \<Rightarrow> Inl e | Inr st \<Rightarrow> delete_each ops be is st)"

fun abs_dels :: "bool \<Rightarrow> int list \<Rightarrow> index \<times> table \<Rightarrow> index \<times> table" where
  "abs_dels be [] x = x"
| "abs_dels be (i # is) x = abs_dels be is (abs_del be i (the (snd x i)) x)"

lemma dom_abs_dels: "dom (snd (abs_dels be is x)) = dom (snd x) - set is"
proof (induction "is" arbitrary: x)
  case (Cons i "is")
  then show ?case by (cases x) (auto simp: dom_abs_del)
qed simp

subsection \<open>Corrections, written back\<close>

lemma map_of_erase: "map_of (filter (\<lambda>(j, v). j \<noteq> i) m) = (map_of m)(i := None)"
  by (auto simp: map_of_filter_key)

lemma erase_other: "j \<noteq> i \<Longrightarrow> corrected (erase_corrections i c) j q = corrected c j q"
  by (simp add: corrected_def erase_corrections_def map_of_erase)

lemma smap_ok_filter: "smap_ok lt ok m \<Longrightarrow> smap_ok lt ok (filter P m)"
  by (auto simp: smap_ok_def sorted_wrt_filter)

lemma erase_ok: "corr_ok (Some c) \<Longrightarrow> corr_ok (Some (erase_corrections i c))"
  by (auto simp: corr_ok_def erase_corrections_def map_of_erase smap_ok_filter needs_correction_def split: if_splits)

lemma needs_erase [simp]: "needs_correction (erase_corrections i c) = needs_correction c"
  by (simp add: needs_correction_def erase_corrections_def fun_eq_iff)

lemma fold_update_rows:
  assumes "distinct (map fst m)"
  shows "rows (fold (\<lambda>(i, v). update_row i (f v)) m db) j = (case map_of m j of Some v \<Rightarrow> map_option (f v) (rows db j) | None \<Rightarrow> rows db j)"
  using assms
proof (induction m arbitrary: db)
  case (Cons e m)
  obtain i v where e: "e = (i, v)" by (cases e)
  have "map_of m i = None" using Cons.prems e by (simp add: map_of_eq_None_iff)
  then show ?case using Cons e by (auto split: option.splits)
qed simp

lemma write_corrections_rows:
  assumes "corr_ok (Some c)"
  shows "rows (write_corrections c db) = cview (Some c, db)"
proof -
  have d: "distinct (map fst (next_entries c))" "distinct (map fst (prev_entries c))" "distinct (map fst (c_pointed_to c))"
    using assms int_order.map_ok_distinct by (auto simp: corr_ok_def)
  show ?thesis
    by (auto simp: write_corrections_def setNextEntry_def [abs_def] setPrevEntry_def [abs_def] setPointedTo_def [abs_def] cview_def corrected_def fun_eq_iff
        fold_update_rows [OF d(1), where f = "\<lambda>v r. r\<lparr>next_entry := v\<rparr>"] fold_update_rows [OF d(2), where f = "\<lambda>v r. r\<lparr>prev_entry := v\<rparr>"]
        fold_update_rows [OF d(3), where f = "\<lambda>v r. r\<lparr>pointed_to := v\<rparr>"] option.map_comp comp_def map_option_case split: option.splits)
qed

lemma fold_update_ids: "map fst (files (fold (\<lambda>(i, v). update_row i (f v)) m db)) = map fst (files db)"
  by (induction m arbitrary: db) auto

lemma write_corrections_ids: "map fst (files (write_corrections c db)) = map fst (files db)"
  by (simp add: write_corrections_def setNextEntry_def [abs_def] setPrevEntry_def [abs_def] setPointedTo_def [abs_def] fold_update_ids)

lemma fold_min_le: "fold min xs a \<le> (a :: int)" "x \<in> set xs \<Longrightarrow> fold min xs a \<le> x"
proof (induction xs arbitrary: a)
  case (Cons y xs)
  { case 1 then show ?case using Cons(1) [of "min y a"] by simp }
  { case 2 then show ?case using Cons(1) [of "min y a"] Cons(2) [of "min y a"] by (auto simp: min_def split: if_splits) }
qed simp_all

lemma fold_max_ge: "(a :: int) \<le> fold max xs a" "x \<in> set xs \<Longrightarrow> x \<le> fold max xs a"
proof (induction xs arbitrary: a)
  case (Cons y xs)
  { case 1 then show ?case using Cons(1) [of "max y a"] by simp }
  { case 2 then show ?case using Cons(1) [of "max y a"] Cons(2) [of "max y a"] by (auto simp: max_def split: if_splits) }
qed simp_all

lemma getBackupIdMinMax_range:
  assumes "getBackupIdMinMax b db = (tmin, tmax)" "i \<in> set (backup_ids b db)"
  shows "tmin \<le> i" "i \<le> tmax"
  using assms fold_min_le fold_max_ge by (auto simp: getBackupIdMinMax_def split: list.splits)

subsection \<open>The visit of the rows\<close>

lemma in_range_Some: "corr_range x = corr_range (Some c) \<Longrightarrow> needs_correction c i \<Longrightarrow> \<exists>c'. x = Some c'"
  by (cases x) (auto simp: corr_range_def fun_eq_iff)

text \<open>What holds between two rows: \<open>D\<close> are the rows that were visited, \<open>rs\<close> those to come, unchanged in the database.\<close>

definition visit_inv :: "bool \<Rightarrow> bool \<Rightarrow> index \<Rightarrow> int set \<Rightarrow> (int \<times> file_entry) list \<Rightarrow> SInMemCorrection \<Rightarrow> files_db \<Rightarrow> table \<Rightarrow> bool" where
  "visit_inv single be V D rs c db t \<longleftrightarrow> corr_ok (Some c) \<and> table_inv single be V t \<and> t = cview (Some c, db) |` (- D) \<and> distinct (map fst rs) \<and>
     (\<forall>(i, r) \<in> set rs. rows db i = Some r \<and> i \<notin> D \<and> needs_correction c i)"

lemma visit_head:
  assumes "visit_inv single be V D ((i, r) # rs) c db t"
  shows "t i = Some (corrected c i r)" "agree i D (Some (erase_corrections i c), db) t" "corr_ok (Some (erase_corrections i c))" "table_inv single be V t"
  using assms by (auto simp: visit_inv_def cview_def agree_def restrict_map_def erase_other erase_ok fun_eq_iff map_option_case split: option.splits)

lemma visit_step:
  assumes v: "visit_inv single be V D ((i, r) # rs) c db t" and f: "corr_frame (Some (erase_corrections i c), db) (Some c', db')" and ok: "corr_ok (Some c')" and
    e: "(V', cview (Some c', db') |` (- insert i D)) = abs_del be i (corrected c i r) (V, t)"
  shows "visit_inv single be V' (insert i D) rs c' db' (snd (abs_del be i (corrected c i r) (V, t)))"
proof -
  have n: "needs_correction c' = needs_correction c" "\<And>j. needs_correction c j \<Longrightarrow> rows db' j = rows db j"
    using f by (auto simp: corr_frame_def corr_range_def fun_eq_iff)
  have "table_inv single be V' (snd (abs_del be i (corrected c i r) (V, t)))" using abs_del_inv [OF visit_head(4,1) [OF v]] unfolding e [symmetric] by simp
  moreover have "snd (abs_del be i (corrected c i r) (V, t)) = cview (Some c', db') |` (- insert i D)" using e by (metis snd_conv)
  ultimately show ?thesis using v ok n by (auto simp: visit_inv_def image_iff)
qed

context entry_index begin

lemma remove_rows_ok:
  assumes "inv (eidx st)" "visit_inv single be (view (eidx st)) D rs c (edb st) t"
  shows "\<exists>m c' st'. remove_rows ops be rs modified c st = Inr (m, c', st') \<and> inv (eidx st') \<and>
    visit_inv single be (view (eidx st')) (D \<union> fst ` set rs) [] c' (edb st') (snd (abs_dels be (map fst rs) (view (eidx st), t))) \<and>
    view (eidx st') = fst (abs_dels be (map fst rs) (view (eidx st), t)) \<and>
    map fst (files (edb st')) = map fst (files (edb st)) \<and>
    (\<forall>j. map_option backupid (rows (edb st') j) = map_option backupid (rows (edb st) j))"
  using assms
proof (induction rs arbitrary: D modified c st t)
  case Nil
  then show ?case by simp
next
  case (Cons e rs)
  obtain i r where e: "e = (i, r)" by (cases e)
  have v: "visit_inv single be (view (eidx st)) D ((i, r) # rs) c (edb st) t" using Cons.prems(2) e by simp
  note h = visit_head [OF v]
  let ?r = "corrected c i r" and ?x = "abs_del be i (corrected c i r) (view (eidx st), t)"
  obtain cdb s where d: "deleteFileSQL ops be (shahash ?r) (filesize ?r) (clientid ?r) (backupid ?r) (incremental ?r) i (prev_entry ?r) (next_entry ?r)
      (pointed_to ?r) False True (Some (erase_corrections i c)) st = Inr (fst cdb, st\<lparr>edb := snd cdb, eidx := s\<rparr>)"
      "inv s" "corr_ok (fst cdb)" "corr_frame (Some (erase_corrections i c), edb st) cdb" "(view s, cview cdb |` (- insert i D)) = ?x"
    using deleteFileSQL_effect [OF Cons.prems(1) h(3,4,2,1), of False True] by auto
  have "needs_correction (erase_corrections i c) i" using v by (simp add: visit_inv_def)
  then obtain c' db' where c': "cdb = (Some c', db')"
    using in_range_Some [of "fst cdb" "erase_corrections i c" i] d(4) by (cases cdb) (auto simp: corr_frame_def)
  let ?st = "st\<lparr>edb := db', eidx := s\<rparr>"
  have vs: "view s = fst ?x" using d(5) by (metis fst_conv)
  have x: "?x = (view (eidx ?st), snd ?x)" using vs by simp
  have "visit_inv single be (view s) (insert i D) rs c' db' (snd ?x)" by (rule visit_step [OF v]) (use d c' in auto)
  then have n: "visit_inv single be (view (eidx ?st)) (insert i D) rs c' (edb ?st) (snd ?x)" by simp
  have "inv (eidx ?st)" using d(2) by simp
  from Cons.IH [OF this n, of "modified \<or> pointed_to ?r \<noteq> 0"]
  obtain m c'' st' where ih: "remove_rows ops be rs (modified \<or> pointed_to ?r \<noteq> 0) c' ?st = Inr (m, c'', st')" "inv (eidx st')"
      "visit_inv single be (view (eidx st')) (insert i D \<union> fst ` set rs) [] c'' (edb st') (snd (abs_dels be (map fst rs) ?x))"
      "view (eidx st') = fst (abs_dels be (map fst rs) ?x)" "map fst (files (edb st')) = map fst (files db')"
      "\<forall>j. map_option backupid (rows (edb st') j) = map_option backupid (rows db' j)"
    unfolding x [symmetric] by auto
  have a: "abs_dels be (map fst (e # rs)) (view (eidx st), t) = abs_dels be (map fst rs) ?x" using e h(1) by simp
  have r: "remove_rows ops be (e # rs) modified c st = Inr (m, c'', st')" using e d(1) c' ih(1) by (simp add: Let_def)
  have fr: "map fst (files db') = map fst (files (edb st))" "\<forall>j. map_option backupid (rows db' j) = map_option backupid (rows (edb st) j)"
    using d(4) c' by (auto simp: corr_frame_def)
  have D: "D \<union> fst ` set (e # rs) = insert i D \<union> fst ` set rs" using e by simp
  show ?case unfolding a D using r ih fr by simp
qed

lemma delete_each_ok:
  assumes "entries_inv single be view inv st" "distinct is" "set is \<subseteq> dom (rows (edb st))"
  shows "\<exists>st'. delete_each ops be is st = Inr st' \<and> entries_inv single be view inv st' \<and>
    (view (eidx st'), rows (edb st')) = abs_dels be is (view (eidx st), rows (edb st))"
  using assms
proof (induction "is" arbitrary: st)
  case Nil
  then show ?case by simp
next
  case (Cons i "is")
  obtain r where r: "rows (edb st) i = Some r" using Cons.prems(3) by auto
  obtain st1 where s: "deleteFileSQL_id ops be i st = Inr st1" "entries_inv single be view inv st1"
      "(view (eidx st1), rows (edb st1)) = abs_del be i r (view (eidx st), rows (edb st))"
    using delete_id [OF Cons.prems(1) r] by blast
  have "dom (rows (edb st1)) = dom (rows (edb st)) - {i}" using s(3) dom_abs_del by (metis snd_conv)
  then have "set is \<subseteq> dom (rows (edb st1))" "distinct is" using Cons.prems by auto
  from Cons.IH [OF s(2) this(2,1)] show ?case using s(1,3) r by auto
qed

end

subsection \<open>The removal of a backup\<close>

lemma backup_rows:
  assumes "table_ok db"
  shows "fst ` set (filter (\<lambda>(i, r). backupid r = b) (files db)) = {i. \<exists>r. rows db i = Some r \<and> backupid r = b}"
    "distinct (map fst (filter (\<lambda>(i, r). backupid r = b) (files db)))" "map fst (filter (\<lambda>(i, r). backupid r = b) (files db)) = backup_ids b db"
    "(i, r) \<in> set (filter (\<lambda>(i, r). backupid r = b) (files db)) \<Longrightarrow> rows db i = Some r"
proof -
  note d = table_ok_distinct [OF assms]
  show "fst ` set (filter (\<lambda>(i, r). backupid r = b) (files db)) = {i. \<exists>r. rows db i = Some r \<and> backupid r = b}"
    using d by (force simp: image_iff)
  show "distinct (map fst (filter (\<lambda>(i, r). backupid r = b) (files db)))" using d by (rule distinct_map_filter)
  show "map fst (filter (\<lambda>(i, r). backupid r = b) (files db)) = backup_ids b db" by (simp add: backup_ids_def)
  show "rows db i = Some r" if "(i, r) \<in> set (filter (\<lambda>(i, r). backupid r = b) (files db))" using that d by simp
qed

lemma deleteFiles_restrict:
  assumes "table_ok db" "\<And>j. map_option backupid (rows db j) = map_option backupid (rows db0 j)"
  shows "rows (deleteFiles b db) = rows db |` (- {i. \<exists>r. rows db0 i = Some r \<and> backupid r = b})"
proof
  fix j
  show "rows (deleteFiles b db) j = (rows db |` (- {i. \<exists>r. rows db0 i = Some r \<and> backupid r = b})) j"
    using assms(2) [of j] by (cases "rows db j"; cases "rows db0 j") (auto simp: deleteFiles_rows [OF assms(1)] restrict_map_def)
qed

lemma cview_backupid: "map_option backupid (cview (Some c, db) j) = map_option backupid (rows db j)"
  by (cases "rows db j") (auto simp: cview_def corrected_def)

context entry_index begin

lemma removeFileBackupSql_ok:
  assumes e: "entries_inv single be view inv st"
  shows "\<exists>st'. removeFileBackupSql ops be b st = Inr st' \<and> entries_inv single be view inv st' \<and>
    (view (eidx st'), rows (edb st')) = abs_dels be (backup_ids b (edb st)) (view (eidx st), rows (edb st))"
proof -
  let ?rs = "filter (\<lambda>(i, r). backupid r = b) (files (edb st))" and ?ids = "backup_ids b (edb st)"
  let ?x = "abs_dels be ?ids (view (eidx st), rows (edb st))"
  obtain tmin tmax where mm: "getBackupIdMinMax b (edb st) = (tmin, tmax)" by fastforce
  let ?c = "\<lparr>next_entries = [], prev_entries = [], c_pointed_to = [], max_correct = tmax, min_correct = tmin\<rparr> :: SInMemCorrection"
  have i: "inv (eidx st)" "table_ok (edb st)" "table_inv single be (view (eidx st)) (rows (edb st))" using e by (auto simp: entries_inv_def)
  note b = backup_rows [OF i(2), where b = b]
  have "corrected ?c j q = q" for j q by (simp add: corrected_def)
  then have cv: "cview (Some ?c, edb st) = rows (edb st)" by (simp add: cview_def fun_eq_iff map_option_case split: option.splits)
  have ids: "needs_correction ?c i \<and> rows (edb st) i = Some r" if "(i, r) \<in> set ?rs" for i r
  proof -
    have "i \<in> set ?ids" unfolding b(3) [symmetric] using that by force
    then show ?thesis using getBackupIdMinMax_range [OF mm] b(4) [OF that] by (simp add: needs_correction_def)
  qed
  have v: "visit_inv single be (view (eidx st)) {} ?rs ?c (edb st) (rows (edb st))"
    unfolding visit_inv_def using i(3) cv b(2) ids by (auto simp: corr_ok_def smap_ok_def)
  obtain m c' st' where r: "remove_rows ops be ?rs False ?c st = Inr (m, c', st')" "inv (eidx st')"
      "visit_inv single be (view (eidx st')) (fst ` set ?rs) [] c' (edb st') (snd ?x)"
      "view (eidx st') = fst ?x" "map fst (files (edb st')) = map fst (files (edb st))"
      "\<forall>j. map_option backupid (rows (edb st') j) = map_option backupid (rows (edb st) j)"
    using remove_rows_ok [OF i(1) v, of False] unfolding b(3) by auto
  let ?w = "write_corrections c' (edb st')"
  have c': "corr_ok (Some c')" "snd ?x = cview (Some c', edb st') |` (- fst ` set ?rs)" "table_inv single be (view (eidx st')) (snd ?x)"
    using r(3) unfolding visit_inv_def by (blast, blast, blast)
  have w: "rows ?w = cview (Some c', edb st')" "table_ok ?w"
    using write_corrections_rows [OF c'(1)] write_corrections_ids [of c' "edb st'"] r(5) table_ok_ids [of "edb st" ?w] i(2) by simp_all
  have rw: "rows (deleteFiles b ?w) = snd ?x"
    unfolding c'(2) w(1) [symmetric] b(1) by (rule deleteFiles_restrict [OF w(2)]) (use w(1) r(6) cview_backupid in simp)
  let ?st = "st'\<lparr>edb := deleteFiles b ?w, eidx := if m then io_flush ops (eidx st') else eidx st'\<rparr>"
  have f: "inv (eidx ?st)" "view (eidx ?st) = fst ?x" using flush [OF r(2)] r(2,4) by simp_all
  have "entries_inv single be view inv ?st" unfolding entries_inv_def using f rw table_ok_deleteFiles [OF w(2)] c'(3) r(4) by simp
  moreover have "removeFileBackupSql ops be b st = Inr ?st" using r(1) mm by (simp add: removeFileBackupSql_def)
  moreover have "(view (eidx ?st), rows (edb ?st)) = ?x" using f(2) rw by (simp add: prod_eq_iff)
  ultimately show ?thesis by blast
qed

lemma removal_each:
  assumes "entries_inv single be view inv st"
  shows "\<exists>st1 st2. removeFileBackupSql ops be b st = Inr st1 \<and> delete_each ops be (backup_ids b (edb st)) st = Inr st2 \<and>
    rows (edb st1) = rows (edb st2) \<and> view (eidx st1) = view (eidx st2) \<and> entries_inv single be view inv st1 \<and>
    dom (rows (edb st1)) = {i. \<exists>r. rows (edb st) i = Some r \<and> backupid r \<noteq> b}"
proof -
  have ok: "table_ok (edb st)" using assms by (simp add: entries_inv_def)
  note b = backup_rows [OF ok, where b = b]
  have ids: "set (backup_ids b (edb st)) = {i. \<exists>r. rows (edb st) i = Some r \<and> backupid r = b}" "distinct (backup_ids b (edb st))"
    using b(1-3) by (metis list.set_map, metis)
  have sub: "set (backup_ids b (edb st)) \<subseteq> dom (rows (edb st))" unfolding ids(1) by auto
  obtain st1 where s1: "removeFileBackupSql ops be b st = Inr st1" "entries_inv single be view inv st1"
      "(view (eidx st1), rows (edb st1)) = abs_dels be (backup_ids b (edb st)) (view (eidx st), rows (edb st))"
    using removeFileBackupSql_ok [OF assms] by blast
  obtain st2 where s2: "delete_each ops be (backup_ids b (edb st)) st = Inr st2"
      "(view (eidx st2), rows (edb st2)) = abs_dels be (backup_ids b (edb st)) (view (eidx st), rows (edb st))"
    using delete_each_ok [OF assms ids(2) sub] by blast
  have "dom (rows (edb st1)) = dom (rows (edb st)) - set (backup_ids b (edb st))" using s1(3) dom_abs_dels by (metis snd_conv)
  then have "dom (rows (edb st1)) = {i. \<exists>r. rows (edb st) i = Some r \<and> backupid r \<noteq> b}" unfolding ids(1) by auto
  then show ?thesis using s1 s2 by (metis prod.inject)
qed

end

end
