(* ===== verification/Backup_Entries.thy ===== *)
theory Backup_Entries
  imports Entry_Addition Backup_Removal
begin

text \<open>
  The file entries over the write-back cache: from an empty database, whatever is added and removed and however the index thread runs,
  the lists, the marks and the index stay together, and a lookup finds a row of the file exactly when there is one.
\<close>

lemma payload_abs_dels: "map_option payload (snd (abs_dels be is x) j) = (if j \<in> set is then None else map_option payload (snd x j))"
proof (induction "is" arbitrary: x)
  case (Cons i "is")
  then show ?case by (cases x) (simp add: payload_abs_del)
qed simp

lemma payload_Some: "map_option payload (t j) = Some p \<Longrightarrow> \<exists>r. t j = Some r \<and> payload r = p"
  by (cases "t j") auto

lemma clients_ok_sub:
  assumes "clients_ok db" "table_ok db'" "\<And>j. map_option payload (rows db' j) = (if j \<in> D then None else map_option payload (rows db j))"
  shows "clients_ok db'"
proof (rule clients_okI [OF assms(2)])
  fix i r assume r: "rows db' i = Some r"
  then obtain q where q: "rows db i = Some q" "payload q = payload r" using assms(3) [of i] payload_Some [of "rows db" i "payload r"] by (auto split: if_splits)
  then have "clientid q = clientid r" by (metis file_entry.ext_inject file_entry.surjective file_entry.update_convs(9,10,11) payload_def)
  then show "client_ok (clientid r)" using clients_okD [OF assms(1) q(1)] by simp
qed

subsection \<open>The states that are reached\<close>

definition entries_init :: "file_index entries" where
  "entries_init = \<lparr>edb = \<lparr>files = [], files_incoming_stat = []\<rparr>, eidx = file_index_init\<rparr>"

text \<open>The steps: the operations on entries, and turns of the index thread. Every addition is a call of \<open>addFileSQL\<close> with what the caller
  found (\<open>insert\<close>, under \<open>add_pre\<close>); \<open>addFileEntrySQLWithExisting\<close> finds it itself when the index knows the file for the client. With \<open>single\<close>
  no file that the index knows for the client is added with \<open>prev_entry_clientid = 0\<close>, as \<^verbatim>\<open>server_hash.cpp\<close> does for a copy.\<close>

inductive entries_step :: "bool \<Rightarrow> bool \<Rightarrow> (index \<Rightarrow> SIndexKey \<Rightarrow> int) \<Rightarrow> file_index entries \<Rightarrow> file_index entries \<Rightarrow> bool" for single be get_prefer where
  add: "addFileEntrySQLWithExisting (fi_ops be get_prefer) be b c incr fp hp h sz rs st = Inr st' \<Longrightarrow> client_ok c \<Longrightarrow>
    (link_file_min_size \<le> sz \<Longrightarrow> client_file_key be h sz c = Some k \<and> fi_view (eidx st) k \<noteq> None) \<Longrightarrow>
    entries_step single be get_prefer st st'"
| insert: "addFileSQL (fi_ops be get_prefer) be b c incr fp hp h sz rs prev pc nxt u st = Inr st' \<Longrightarrow> client_ok c \<Longrightarrow>
    (link_file_min_size \<le> sz \<Longrightarrow> client_file_key be h sz c = Some k \<and> add_pre single k be (fi_view (eidx st)) (rows (edb st)) c prev pc nxt) \<Longrightarrow>
    entries_step single be get_prefer st st'"
| delete: "deleteFileSQL_id (fi_ops be get_prefer) be i st = Inr st' \<Longrightarrow> entries_step single be get_prefer st st'"
| remove: "removeFileBackupSql (fi_ops be get_prefer) be b st = Inr st' \<Longrightarrow> entries_step single be get_prefer st st'"
| turn: "entries_step single be get_prefer st (st\<lparr>eidx := writer_turn (eidx st)\<rparr>)"

inductive entries_reach :: "bool \<Rightarrow> bool \<Rightarrow> (index \<Rightarrow> SIndexKey \<Rightarrow> int) \<Rightarrow> file_index entries \<Rightarrow> bool" for single be get_prefer where
  init: "entries_reach single be get_prefer entries_init"
| step: "entries_reach single be get_prefer st \<Longrightarrow> entries_step single be get_prefer st st' \<Longrightarrow> entries_reach single be get_prefer st'"

abbreviation entries_ok :: "bool \<Rightarrow> bool \<Rightarrow> file_index entries \<Rightarrow> bool" where
  "entries_ok single be st \<equiv> entries_inv single be fi_view (fi_ready be) st"

lemma entries_init_ok: "entries_ok single be entries_init" "clients_ok (edb entries_init)"
proof -
  have "fi_view file_index_init = Map.empty" by (simp add: fi_view_def file_index_init_def active_cache_buffer_def other_cache_buffer_def fun_eq_iff)
  moreover have "fi_ready be file_index_init" using fi_reach_inv [OF sample_reach(1)] by (simp add: fi_ready_def file_index_init_def)
  ultimately show "entries_ok single be entries_init"
    by (simp add: entries_init_def entries_inv_def table_ok_def table_inv_def links_ok_def ranked_def one_list_def index_ok_def)
  show "clients_ok (edb entries_init)" by (simp add: entries_init_def clients_ok_def)
qed

lemma entries_okD: "entries_ok single be st \<Longrightarrow> table_ok (edb st)" "entries_ok single be st \<Longrightarrow> fi_ready be (eidx st)"
  "entries_ok single be st \<Longrightarrow> table_inv single be (fi_view (eidx st)) (rows (edb st))"
  by (auto simp: entries_inv_def)

lemma delete_step:
  assumes "entries_ok single be st" "clients_ok (edb st)" "deleteFileSQL_id (fi_ops be get_prefer) be i st = Inr st'"
  shows "entries_ok single be st' \<and> clients_ok (edb st')"
proof (cases "rows (edb st) i")
  case None
  then show ?thesis using assms by (simp add: deleteFileSQL_id_def getFileEntry_def)
next
  case (Some r)
  have s: "entries_ok single be st'" "(fi_view (eidx st'), rows (edb st')) = abs_del be i r (fi_view (eidx st), rows (edb st))"
    using fi.delete_id [OF assms(1) Some, of get_prefer] assms(3) by auto
  have "map_option payload (rows (edb st') j) = (if j \<in> {i} then None else map_option payload (rows (edb st) j))" for j
    using payload_abs_del [of be i r] s(2) by (metis singleton_iff snd_conv)
  then have "clients_ok (edb st')" by (rule clients_ok_sub [OF assms(2) entries_okD(1) [OF s(1)]])
  then show ?thesis using s(1) by blast
qed

lemma remove_step:
  assumes "entries_ok single be st" "clients_ok (edb st)" "removeFileBackupSql (fi_ops be get_prefer) be b st = Inr st'"
  shows "entries_ok single be st' \<and> clients_ok (edb st')"
proof -
  have s: "entries_ok single be st'" "(fi_view (eidx st'), rows (edb st')) = abs_dels be (backup_ids b (edb st)) (fi_view (eidx st), rows (edb st))"
    using fi.removeFileBackupSql_ok [OF assms(1), of get_prefer b] assms(3) by auto
  have "map_option payload (rows (edb st') j) = (if j \<in> set (backup_ids b (edb st)) then None else map_option payload (rows (edb st) j))" for j
    using payload_abs_dels s(2) by (metis snd_conv)
  then have "clients_ok (edb st')" by (rule clients_ok_sub [OF assms(2) entries_okD(1) [OF s(1)]])
  then show ?thesis using s(1) by blast
qed

lemma insert_step:
  assumes "entries_ok single be st" "clients_ok (edb st)" "addFileSQL (fi_ops be get_prefer) be b c incr fp hp h sz rs prev pc nxt u st = Inr st'" "client_ok c"
    "link_file_min_size \<le> sz \<Longrightarrow> client_file_key be h sz c = Some k \<and> add_pre single k be (fi_view (eidx st)) (rows (edb st)) c prev pc nxt"
  shows "entries_ok single be st' \<and> clients_ok (edb st')"
proof -
  have "\<not> link_file_min_size \<le> sz \<Longrightarrow> pc = 0 \<and> prev = 0 \<and> nxt = 0" using assms(3) by (auto simp: addFileSQL_def Let_def split: if_splits)
  then have "if link_file_min_size \<le> sz then add_pre single k be (fi_view (eidx st)) (rows (edb st)) c prev pc nxt else pc = 0 \<and> prev = 0 \<and> nxt = 0"
    using assms(5) by simp
  from fi.addFileSQL_ok [OF assms(1) _ this, where get_prefer = get_prefer and h = h and b = b and incr = incr and fp = fp and hp = hp and rs = rs and u = u] assms(3,5)
  have s: "entries_ok single be st'" "added (new_entry b c incr fp hp h sz rs 0 0 0) (edb st) (edb st')" by auto
  show ?thesis using s added_clients [OF s(2) assms(2) _ entries_okD(1) [OF s(1)]] assms(4) by (simp add: new_entry_def)
qed

lemma entries_step_ok:
  assumes "entries_step single be get_prefer st st'" "entries_ok single be st" "clients_ok (edb st)"
  shows "entries_ok single be st' \<and> clients_ok (edb st')"
  using assms(1)
proof cases
  case (add b c incr fp hp h sz rs k)
  have k: "client_file_key be h sz c = Some k" if "link_file_min_size \<le> sz" using add(3) that by blast
  have "big r \<and> row_key be r = Some k" if "link_file_min_size \<le> sz" "fi_view (eidx st) k = None" for r using add(3) that by blast
  then have "\<exists>st' rs'. addFileEntrySQLWithExisting (fi_ops be get_prefer) be b c incr fp hp h sz rs st = Inr st' \<and> entries_ok single be st' \<and>
      clients_ok (edb st') \<and> added (new_entry b c incr fp hp h sz rs' 0 0 0) (edb st) (edb st')"
    by (intro fi.addFileEntrySQLWithExisting_ok [OF assms(2,3) add(2) k])
  then show ?thesis using add(1) by fastforce
next
  case (insert b c incr fp hp h sz rs prev pc nxt u k)
  then show ?thesis using insert_step [OF assms(2,3)] by blast
next
  case turn
  then show ?thesis using writer_turn_ready [of be "eidx st"] assms(2,3) by (auto simp: entries_inv_def)
qed (use delete_step remove_step assms(2,3) in blast)+

lemma entries_reach_ok: "entries_reach single be get_prefer st \<Longrightarrow> entries_ok single be st \<and> clients_ok (edb st)"
  by (induction rule: entries_reach.induct) (use entries_init_ok entries_step_ok in auto)

subsection \<open>A sample\<close>

text \<open>Two entries of a file of client 3, one in each of the backups 1 and 2; the index points to the second. On a host with little endian.\<close>

definition sample_hash :: "byte list" where
  "sample_hash = replicate 20 7"

definition sample_entry_key :: SIndexKey where
  "sample_entry_key = \<lparr>khash = replicate 16 7, kfilesize = big_endian64 False 4096, kclientid = big_endian32 False 3\<rparr>"

definition sample_row :: "int \<Rightarrow> int \<Rightarrow> int \<Rightarrow> int \<Rightarrow> file_entry" where
  "sample_row b nxt prv p = new_entry b 3 0 ''f'' ''h'' sample_hash 4096 4096 nxt prv p"

definition sample_entries :: "file_index entries" where
  "sample_entries = \<lparr>edb = \<lparr>files = [(1, sample_row 1 2 0 0), (2, sample_row 2 0 1 1)], files_incoming_stat = []\<rparr>,
     eidx = file_index_init\<lparr>store := [sample_entry_key \<mapsto> 2]\<rparr>\<rparr>"

lemma sample_entry_key: "client_file_key False sample_hash 4096 3 = Some sample_entry_key"
proof -
  have "rdb sample_hash 0 bytes_in_index = Some (replicate 16 7)" by code_simp
  moreover have "sint (4096 :: u64) \<ge> 0" by simp
  ultimately show ?thesis by (simp add: client_file_key_def SIndexKey_new_def sample_entry_key_def)
qed

lemma sample_row_simps [simp]:
  "row_key False (sample_row b n q p) = Some sample_entry_key" "big (sample_row b n q p)" "next_entry (sample_row b n q p) = n" "prev_entry (sample_row b n q p) = q"
  "pointed_to (sample_row b n q p) = p" "backupid (sample_row b n q p) = b" "clientid (sample_row b n q p) = 3"
  using sample_entry_key by (simp_all add: sample_row_def link_file_min_size_def) (simp_all add: new_entry_def)

lemma sample_rows: "rows (edb sample_entries) i = Some r \<longleftrightarrow> i = 1 \<and> r = sample_row 1 2 0 0 \<or> i = 2 \<and> r = sample_row 2 0 1 1"
  by (auto simp: sample_entries_def split: if_splits)

lemma sample_view: "fi_view (eidx sample_entries) = [sample_entry_key \<mapsto> 2]"
  by (auto simp: sample_entries_def fi_view_def file_index_init_def active_cache_buffer_def other_cache_buffer_def fun_eq_iff)

lemma sample_entries_ok: "entries_ok True False sample_entries" "clients_ok (edb sample_entries)"
proof -
  let ?t = "rows (edb sample_entries)"
  have "ranked of_int ?t" by (auto simp: ranked_def sample_rows)
  then have k: "\<exists>rank. ranked rank ?t" by blast
  have l: "links_ok False ?t" by (auto simp: links_ok_def sample_rows)
  have o: "one_list False ?t" by (auto simp: one_list_def sample_rows)
  have i: "index_ok True False [sample_entry_key \<mapsto> 2] ?t" by (auto simp: index_ok_def sample_rows split: if_splits)
  have t: "table_inv True False (fi_view (eidx sample_entries)) ?t" using k l o i unfolding table_inv_def sample_view by (simp add: finite_dom_map_of)
  have "fi_reach False (eidx sample_entries)" unfolding sample_entries_def using fi_reach.init [of "[sample_entry_key \<mapsto> 2]" False] by simp
  then have "fi_ready False (eidx sample_entries)" using fi_reach_inv by (simp add: fi_ready_def sample_entries_def file_index_init_def)
  then show "entries_ok True False sample_entries" using t by (simp add: entries_inv_def table_ok_def sample_entries_def)
  show "clients_ok (edb sample_entries)" by (simp add: clients_ok_def sample_entries_def client_ok_def)
qed

text \<open>The first addition, from the empty database.\<close>

abbreviation no_prefer :: "index \<Rightarrow> SIndexKey \<Rightarrow> int" where
  "no_prefer \<equiv> \<lambda>_ _. 0"

definition first_added :: "file_index entries" where
  "first_added = \<lparr>edb = \<lparr>files = [(1, sample_row 1 0 0 1)], files_incoming_stat = [\<lparr>st_filesize = 4096, st_clientid = 3, st_backupid = 1,
     st_existing_clients = '''', st_direction = 0, st_incremental = 0\<rparr>]\<rparr>, eidx = set_active [(sample_entry_key, 1)] file_index_init\<rparr>"

lemma first_add: "addFileSQL (fi_ops False no_prefer) False 1 3 0 ''f'' ''h'' sample_hash 4096 4096 0 0 0 False entries_init = Inr first_added"
proof -
  have "put_delayed False sample_entry_key 1 file_index_init = Some (set_active [(sample_entry_key, 1)] file_index_init)"
    by (simp add: put_delayed_def file_index_init_def active_cache_buffer_def set_active_def max_buffer_size_def)
  then have p: "io_put (fi_ops False no_prefer) sample_entry_key 1 file_index_init = Some (set_active [(sample_entry_key, 1)] file_index_init)"
    by (simp add: fi_ops_def numeral_3_eq_3)
  show ?thesis using sample_entry_key p
    by (simp add: addFileSQL_def add_new_client_def link_file_min_size_def entries_init_def Let_def addFileEntryExternal_def
        addFileEntry_def new_rowid_def addIncomingFile_def c_direction_incoming_def first_added_def sample_row_def new_entry_def)
qed

lemma init_view: "fi_view (eidx entries_init) = Map.empty"
  by (simp add: entries_init_def fi_view_def file_index_init_def active_cache_buffer_def other_cache_buffer_def fun_eq_iff)

lemma first_reach: "entries_reach single False no_prefer first_added"
proof (rule entries_reach.step [OF entries_reach.init entries_step.insert [OF first_add, where k = sample_entry_key]])
  show "client_ok 3" by (simp add: client_ok_def)
qed (simp add: sample_entry_key add_pre_def init_view)

lemma first_view: "fi_view (eidx first_added) sample_entry_key = Some 1"
  by (simp add: first_added_def fi_view_def live_def)

subsection \<open>Theorems\<close>

text \<open>C2. From an empty database, whatever entries are added, deleted one by one or removed with their backup, and however the index thread
  runs: the rows with 2048 bytes or more are in doubly linked lists without cycles, each of one file (hash prefix and size) of one
  client, small files are in no list, and whatever the index names is a row of that file and client that is marked. When no file that
  the index knows for the client is added as a copy without a predecessor, the rows of each file of a client form one list, and the index
  names its marked row, the only one. An addition is a call of \<open>addFileSQL\<close> whose predecessor, when it is of the same client, is a row of
  the file together with its successor.\<close>
theorem entries_invariant:
  assumes "entries_reach single be get_prefer st"
  shows "entries_inv single be fi_view (fi_ready be) st \<and> clients_ok (edb st)"
  using entries_reach_ok [OF assms] .

text \<open>A copy of the file that is known, added as if it was not: it is reached, and two rows are marked.\<close>

lemma copy_added:
  "\<exists>st. addFileSQL (fi_ops False no_prefer) False 2 3 0 ''g'' ''h'' sample_hash 4096 4096 0 0 0 False first_added = Inr st \<and>
    entries_step False False no_prefer first_added st \<and> dom (rows (edb st)) = {1, 2}"
proof -
  have "entries_ok False False first_added" using entries_reach_ok [OF first_reach] by blast
  moreover have "if link_file_min_size \<le> (4096 :: int) then add_pre False sample_entry_key False (fi_view (eidx first_added)) (rows (edb first_added)) 3 0 0 0
    else (0 :: int) = 0 \<and> (0 :: int) = 0 \<and> (0 :: int) = 0" by (simp add: add_pre_def)
  ultimately
  obtain st where st: "addFileSQL (fi_ops False no_prefer) False 2 3 0 ''g'' ''h'' sample_hash 4096 4096 0 0 0 False first_added = Inr st"
      "added (new_entry 2 3 0 ''g'' ''h'' sample_hash 4096 4096 0 0 0) (edb first_added) (edb st)"
    using fi.addFileSQL_ok [of False False first_added 4096 sample_hash 3 sample_entry_key] sample_entry_key by blast
  have "j \<in> dom (rows (edb st)) \<longleftrightarrow> j \<in> {1, 2}" for j
    using st(2) [unfolded added_def, rule_format, of j] by (cases "rows (edb st) j") (auto simp: first_added_def new_rowid_def split: if_splits)
  then have "dom (rows (edb st)) = {1, 2}" by blast
  moreover have "entries_step False False no_prefer first_added st"
    by (rule entries_step.insert [OF st(1), where k = sample_entry_key]) (simp_all add: client_ok_def sample_entry_key add_pre_def)
  ultimately show ?thesis using st(1) by blast
qed

theorem entries_invariant_witness:
  "entries_reach True False no_prefer first_added \<and> rows (edb first_added) 1 = Some (sample_row 1 0 0 1) \<and>
   entries_inv True False fi_view (fi_ready False) first_added \<and>
   (\<exists>st. entries_reach False False no_prefer st \<and> dom (rows (edb st)) = {1, 2} \<and> entries_inv False False fi_view (fi_ready False) st)"
proof -
  obtain st where st: "entries_step False False no_prefer first_added st" "dom (rows (edb st)) = {1, 2}" using copy_added by blast
  note r = entries_reach.step [OF first_reach st(1)]
  show ?thesis using entries_invariant [OF first_reach, of True] entries_invariant [OF r] first_reach [of True] r st(2)
    by (auto simp: first_added_def)
qed

text \<open>C4. In every reachable state a lookup with the hash, the size and the client of a file returns 0 or the id of a row with that hash prefix,
  size and client that is marked as pointed to. When no file that the index knows for the client was added as a copy without a
  predecessor, it returns 0 exactly when the table has no such row of 2048 bytes or more, and the row it returns is the only one
  that is marked.\<close>
theorem entry_lookup_correct:
  assumes "entries_reach single be get_prefer st" "client_file_key be h sz c = Some k"
  shows "case get_with_cache_exact be (store_get (eidx st)) k (eidx st) of e \<Rightarrow>
    if e = 0 then single \<longrightarrow> (\<forall>i r. rows (edb st) i = Some r \<longrightarrow> row_key be r = Some k \<longrightarrow> \<not> big r)
    else (\<exists>r. rows (edb st) e = Some r \<and> row_key be r = Some k \<and> big r \<and> pointed_to r \<noteq> 0) \<and>
      (single \<longrightarrow> (\<forall>i r. rows (edb st) i = Some r \<longrightarrow> row_key be r = Some k \<longrightarrow> pointed_to r \<noteq> 0 \<longrightarrow> i = e))"
proof -
  have ok: "entries_ok single be st" using entries_reach_ok [OF assms(1)] by blast
  note d = table_invD [OF entries_okD(3) [OF ok]]
  have x: "get_with_cache_exact be (store_get (eidx st)) k (eidx st) = id_of (fi_view (eidx st) k)"
    using fi.exact [OF entries_okD(2) [OF ok] client_file_keyD(1) [OF assms(2)], of no_prefer] by (simp add: fi_ops_def)
  show ?thesis
  proof (cases "fi_view (eidx st) k")
    case None
    then show ?thesis using index_okD(3) [OF d(4), where k = k] unfolding x by (auto simp: id_of_def)
  next
    case (Some e)
    then show ?thesis using index_row [OF d(4,2) Some] index_okD(1) [OF d(4), where k = k] unfolding x by (auto simp: id_of_def)
  qed
qed

theorem entry_lookup_correct_witness:
  "entries_reach True False no_prefer first_added \<and>
   (\<exists>r. rows (edb first_added) (get_with_cache_exact False (store_get (eidx first_added)) sample_entry_key (eidx first_added)) = Some r \<and>
    row_key False r = Some sample_entry_key \<and> big r \<and> pointed_to r \<noteq> 0)"
proof -
  have "rows (edb first_added) 1 = Some (sample_row 1 0 0 1)" by (simp add: first_added_def)
  then have "\<not> (\<forall>i r. rows (edb first_added) i = Some r \<longrightarrow> row_key False r = Some sample_entry_key \<longrightarrow> \<not> big r)" using sample_row_simps(1,2) by blast
  then show ?thesis using entry_lookup_correct [OF first_reach [of True] sample_entry_key] first_reach [of True] by (auto split: if_splits)
qed

text \<open>C3. Removing all entries of a backup in one pass, with the changes to its rows kept in memory, never fails and leaves the table and the
  index as deleting the entries one by one does: the rows of the other backups stay, and the lists and the index stay together.\<close>
theorem removeFileBackupSql_correct:
  assumes "entries_inv single be fi_view (fi_ready be) st"
  shows "\<exists>st1 st2. removeFileBackupSql (fi_ops be get_prefer) be b st = Inr st1 \<and> delete_each (fi_ops be get_prefer) be (backup_ids b (edb st)) st = Inr st2 \<and>
    rows (edb st1) = rows (edb st2) \<and> fi_view (eidx st1) = fi_view (eidx st2) \<and> entries_inv single be fi_view (fi_ready be) st1 \<and>
    dom (rows (edb st1)) = {i. \<exists>r. rows (edb st) i = Some r \<and> backupid r \<noteq> b}"
  by (rule fi.removal_each [OF assms])

theorem removeFileBackupSql_correct_witness:
  "entries_inv True False fi_view (fi_ready False) sample_entries \<and>
   (\<exists>st1 st2. removeFileBackupSql (fi_ops False no_prefer) False 2 sample_entries = Inr st1 \<and>
     delete_each (fi_ops False no_prefer) False (backup_ids 2 (edb sample_entries)) sample_entries = Inr st2 \<and>
     rows (edb st1) = rows (edb st2) \<and> fi_view (eidx st1) = fi_view (eidx st2) \<and> dom (rows (edb st1)) = {1})"
proof -
  have "{i. \<exists>r. rows (edb sample_entries) i = Some r \<and> backupid r \<noteq> 2} = {1}" by (auto simp: sample_rows)
  then show ?thesis using removeFileBackupSql_correct [OF sample_entries_ok(1), of no_prefer 2] sample_entries_ok(1) by auto
qed

text \<open>C6. Deleting an entry never fails, keeps the lists and the index together, and takes exactly that row away; the others keep what they
  say of their files.\<close>
theorem deleteFileSQL_correct:
  assumes "entries_inv single be fi_view (fi_ready be) st" "rows (edb st) i = Some r"
  shows "\<exists>st'. deleteFileSQL_id (fi_ops be get_prefer) be i st = Inr st' \<and> entries_inv single be fi_view (fi_ready be) st' \<and>
    (\<forall>j. map_option payload (rows (edb st') j) = (if j = i then None else map_option payload (rows (edb st) j)))"
proof -
  obtain st' where s: "deleteFileSQL_id (fi_ops be get_prefer) be i st = Inr st'" "entries_ok single be st'"
      "(fi_view (eidx st'), rows (edb st')) = abs_del be i r (fi_view (eidx st), rows (edb st))"
    using fi.delete_id [OF assms] by blast
  have "map_option payload (rows (edb st') j) = (if j = i then None else map_option payload (rows (edb st) j))" for j
    using payload_abs_del [of be i r] s(3) by (metis snd_conv)
  then show ?thesis using s by blast
qed

theorem deleteFileSQL_correct_witness:
  "entries_inv True False fi_view (fi_ready False) sample_entries \<and> rows (edb sample_entries) 2 = Some (sample_row 2 0 1 1) \<and>
   (\<exists>st'. deleteFileSQL_id (fi_ops False no_prefer) False 2 sample_entries = Inr st' \<and> entries_inv True False fi_view (fi_ready False) st' \<and>
     (\<forall>j. map_option payload (rows (edb st') j) = (if j = 2 then None else map_option payload (rows (edb sample_entries) j))))"
  using deleteFileSQL_correct [OF sample_entries_ok(1), of 2 "sample_row 2 0 1 1" no_prefer] sample_entries_ok(1) by (simp add: sample_rows)

text \<open>C5. \<open>addFileSQL\<close>, called with a predecessor of the same client that is a row of the file together with its successor, or with a row of
  another client, or with none, never fails, keeps the lists and the index together, and adds exactly one row with what was given; the
  others keep what they say of their files. The index names the new row afterwards when the file is linked and the predecessor is not of
  the client or the caller asks for it, and is unchanged otherwise. That every file of a client has a single list is kept when the
  client id of the predecessor is 0 only for a file that the index does not know for the client.\<close>
theorem addFileSQL_correct:
  assumes "entries_inv single be fi_view (fi_ready be) st" "clients_ok (edb st)" "client_ok c" "client_file_key be h sz c = Some k"
    "if link_file_min_size \<le> sz then add_pre single k be (fi_view (eidx st)) (rows (edb st)) c prev pc nxt else pc = 0 \<and> prev = 0 \<and> nxt = 0"
  shows "\<exists>st'. addFileSQL (fi_ops be get_prefer) be b c incr fp hp h sz rs prev pc nxt u st = Inr st' \<and>
    entries_inv single be fi_view (fi_ready be) st' \<and> clients_ok (edb st') \<and> added (new_entry b c incr fp hp h sz rs 0 0 0) (edb st) (edb st') \<and>
    fi_view (eidx st') = (if link_file_min_size \<le> sz \<and> (pc \<noteq> c \<or> prev = 0 \<or> u) then (fi_view (eidx st))(k \<mapsto> new_rowid (edb st)) else fi_view (eidx st))"
proof -
  obtain st' where st': "addFileSQL (fi_ops be get_prefer) be b c incr fp hp h sz rs prev pc nxt u st = Inr st'"
      "entries_ok single be st'" "added (new_entry b c incr fp hp h sz rs 0 0 0) (edb st) (edb st')"
      "fi_view (eidx st') = new_index (fi_view (eidx st)) k sz c prev pc u (new_rowid (edb st))"
    using fi.addFileSQL_ok [OF assms(1) _ assms(5), where h = h and get_prefer = get_prefer and b = b and incr = incr and fp = fp and hp = hp and rs = rs and u = u]
      assms(4) by auto
  have "clients_ok (edb st')" using added_clients [OF st'(3) assms(2) _ entries_okD(1) [OF st'(2)]] assms(3) by (simp add: new_entry_def)
  then show ?thesis using st' unfolding new_index_def by blast
qed

theorem addFileSQL_correct_witness:
  "\<exists>st' st''. addFileSQL (fi_ops False no_prefer) False 3 3 0 ''g'' ''h'' sample_hash 4096 4096 1 3 2 False sample_entries = Inr st' \<and>
    entries_inv True False fi_view (fi_ready False) st' \<and> fi_view (eidx st') sample_entry_key = Some 2 \<and>
    addFileSQL (fi_ops False no_prefer) False 3 3 0 ''g'' ''h'' sample_hash 4096 4096 2 3 0 True sample_entries = Inr st'' \<and>
    entries_inv True False fi_view (fi_ready False) st'' \<and> fi_view (eidx st'') sample_entry_key = Some 3"
proof -
  have c: "client_ok 3" by (simp add: client_ok_def)
  have r: "rows (edb sample_entries) 1 = Some (sample_row 1 2 0 0)" "rows (edb sample_entries) 2 = Some (sample_row 2 0 1 1)"
    by (simp_all add: sample_rows)
  have n: "new_rowid (edb sample_entries) = 3" by (simp add: sample_entries_def new_rowid_def)
  note w = addFileSQL_correct [OF sample_entries_ok c sample_entry_key, where get_prefer = no_prefer and b = 3 and incr = 0 and fp = "''g''" and hp = "''h''" and rs = 4096]
  obtain st' where st': "addFileSQL (fi_ops False no_prefer) False 3 3 0 ''g'' ''h'' sample_hash 4096 4096 1 3 2 False sample_entries = Inr st'"
    "entries_inv True False fi_view (fi_ready False) st'" "fi_view (eidx st') = fi_view (eidx sample_entries)"
    using w [where prev = 1 and pc = 3 and nxt = 2 and u = False] r by (auto simp: add_pre_def link_file_min_size_def)
  obtain st'' where st'': "addFileSQL (fi_ops False no_prefer) False 3 3 0 ''g'' ''h'' sample_hash 4096 4096 2 3 0 True sample_entries = Inr st''"
    "entries_inv True False fi_view (fi_ready False) st''" "fi_view (eidx st'') = (fi_view (eidx sample_entries))(sample_entry_key \<mapsto> 3)"
    using w [where prev = 2 and pc = 3 and nxt = 0 and u = True] r n by (auto simp: add_pre_def link_file_min_size_def)
  show ?thesis using st' st'' sample_view by simp
qed

lemma weaken_inv: "entries_inv single be view ready st \<Longrightarrow> entries_inv False be view ready st"
  by (auto simp: entries_inv_def table_inv_def index_ok_def)

context entry_index begin

text \<open>A copy of a file the index knows, added without a predecessor.\<close>

lemma add_copy:
  assumes e: "entries_inv single be view inv st" and big: "link_file_min_size \<le> sz" and k: "client_file_key be h sz c = Some k"
  shows "\<exists>st'. addFileSQL ops be b c incr fp hp h sz rs 0 0 0 u st = Inr st' \<and> entries_inv False be view inv st' \<and>
    view (eidx st') = (view (eidx st))(k \<mapsto> new_rowid (edb st)) \<and>
    rows (edb st') = link (new_rowid (edb st)) (new_entry b c incr fp hp h sz rs 0 0 1) (rows (edb st))"
proof -
  have w: "entries_inv False be view inv st" by (rule weaken_inv [OF e])
  have i: "inv (eidx st)" "table_ok (edb st)" "table_inv False be (view (eidx st)) (rows (edb st))" using w by (auto simp: entries_inv_def)
  obtain x where x: "place b c incr h sz 0 0 0 u st = Inr (0, 0, u, addIncomingFile x (edb st))"
    by (auto simp: add_new_client_def)
  have "\<exists>st'. addFileSQL ops be b c incr fp hp h sz rs 0 0 0 u st = Inr st' \<and> entries_inv False be view inv st' \<and>
      added (new_entry b c incr fp hp h sz rs 0 0 0) (edb st) (edb st') \<and> view (eidx st') = (view (eidx st))(k \<mapsto> new_rowid (edb st)) \<and>
      rows (edb st') = link (new_rowid (edb st)) (new_entry b c incr fp hp h sz rs 0 0 1) (rows (edb st))"
    by (rule add_alone [OF i big k, where x = x]) (use x in auto)
  then show ?thesis by blast
qed

end

text \<open>C40. Where a file cannot be linked, \<^verbatim>\<open>server_hash.cpp\<close> (line 1052) adds its copy with \<open>addFileSQL\<close> and no predecessor also when the index
  knows the file for the client. The row that was marked stays marked and the new row, alone in a second list of the file, is marked too
  and takes its place in the index; and when the new row is deleted, the index knows the file no longer, though the marked row is there.\<close>
theorem addFileSQL_known_copy:
  assumes "entries_inv single be fi_view (fi_ready be) st" "link_file_min_size \<le> sz" "client_file_key be h sz c = Some k"
    "fi_view (eidx st) k = Some i"
  shows "\<exists>st' st''. addFileSQL (fi_ops be get_prefer) be b c incr fp hp h sz rs 0 0 0 u st = Inr st' \<and>
    (\<exists>r. rows (edb st') i = Some r \<and> row_key be r = Some k \<and> pointed_to r \<noteq> 0) \<and>
    (\<exists>r. rows (edb st') (new_rowid (edb st)) = Some r \<and> row_key be r = Some k \<and> pointed_to r \<noteq> 0 \<and> next_entry r = 0 \<and> prev_entry r = 0) \<and>
    i \<noteq> new_rowid (edb st) \<and> fi_view (eidx st') k = Some (new_rowid (edb st)) \<and>
    deleteFileSQL_id (fi_ops be get_prefer) be (new_rowid (edb st)) st' = Inr st'' \<and>
    (\<exists>r. rows (edb st'') i = Some r \<and> row_key be r = Some k \<and> big r \<and> pointed_to r \<noteq> 0) \<and> fi_view (eidx st'') k = None"
proof -
  let ?n = "new_rowid (edb st)" and ?x = "new_entry b c incr fp hp h sz rs 0 0 1"
  have ok: "table_ok (edb st)" by (rule entries_okD(1) [OF assms(1)])
  note d = table_invD [OF entries_okD(3) [OF assms(1)]]
  obtain y where y: "rows (edb st) i = Some y" "big y" "row_key be y = Some k" "pointed_to y \<noteq> 0" "i \<noteq> 0"
    using index_row [OF d(4,2) assms(4)] by blast
  have n: "i \<noteq> ?n" using y(1) new_rowid(3) [OF ok] by auto
  obtain st' where st': "addFileSQL (fi_ops be get_prefer) be b c incr fp hp h sz rs 0 0 0 u st = Inr st'" "entries_ok False be st'"
      "fi_view (eidx st') = (fi_view (eidx st))(k \<mapsto> ?n)" "rows (edb st') = link ?n ?x (rows (edb st))"
    using fi.add_copy [OF assms(1-3), of get_prefer b incr fp hp rs u] by blast
  have rows: "rows (edb st') ?n = Some ?x" "rows (edb st') i = Some y" using st'(4) y(1,5) n by (simp_all add: link_def relay_def)
  obtain st'' where st'': "deleteFileSQL_id (fi_ops be get_prefer) be ?n st' = Inr st''"
      "(fi_view (eidx st''), rows (edb st'')) = abs_del be ?n ?x (fi_view (eidx st'), rows (edb st'))"
    using fi.delete_id [OF st'(2) rows(1), of get_prefer] by blast
  have "fi_view (eidx st'') k = None" "rows (edb st'') i = Some (relink ?n ?x y)"
    using st''(2) st'(3) rows(2) n assms(3) by (simp_all add: abs_del_def Let_def unlink_def)
  then show ?thesis using st'(1,3) rows st''(1) y n assms(3) by auto
qed

theorem addFileSQL_known_copy_witness:
  "fi_view (eidx sample_entries) sample_entry_key = Some 2 \<and>
   (\<exists>st' st''. addFileSQL (fi_ops False no_prefer) False 3 3 0 ''g'' ''h'' sample_hash 4096 4096 0 0 0 True sample_entries = Inr st' \<and>
    fi_view (eidx st') sample_entry_key = Some 3 \<and>
    deleteFileSQL_id (fi_ops False no_prefer) False 3 st' = Inr st'' \<and>
    (\<exists>r. rows (edb st'') 2 = Some r \<and> big r \<and> pointed_to r \<noteq> 0) \<and> fi_view (eidx st'') sample_entry_key = None)"
proof -
  have n: "new_rowid (edb sample_entries) = 3" by (simp add: sample_entries_def new_rowid_def)
  have v: "fi_view (eidx sample_entries) sample_entry_key = Some 2" using sample_view by simp
  have "link_file_min_size \<le> 4096" by (simp add: link_file_min_size_def)
  from addFileSQL_known_copy [OF sample_entries_ok(1) this sample_entry_key v, of no_prefer 3 0 "''g''" "''h''" 4096 True]
  show ?thesis unfolding n using v by blast
qed

end
