(* ===== verification/Tree_Diff.thy ===== *)
theory Tree_Diff
  imports Prelude
begin

text \<open>
  Comparing the file tree of a backup with that of the last one (\<^verbatim>\<open>src/urbackupserver/treediff\<close>). The nodes of a tree are a vector, a pointer
  to a node is its position there; \<open>None\<close> as a result stands for an access outside the vector or a loop without end. The data of a node
  are its 8-byte cells: size and change indicator of a file, change indicator of a directory.
\<close>

record tree_node =
  node_type :: char
  node_name :: "string option"
  node_data :: "u64 list option"
  nextSibling :: "nat option"
  node_parent :: "nat option"
  mapped_node :: "nat option"
  num_children :: nat
  subtree_changed :: bool
  node_id :: nat

definition TreeNode_init :: tree_node where
  "TreeNode_init = \<lparr>node_type = CHR 0x00, node_name = None, node_data = None, nextSibling = None, node_parent = None, mapped_node = None,
     num_children = 0, subtree_changed = False, node_id = 0\<rparr>"

text \<open>\<open>this + 1\<close>.\<close>

definition getFirstChild :: "nat \<Rightarrow> tree_node \<Rightarrow> nat option" where
  "getFirstChild i n = (if num_children n > 0 then Some (i + 1) else None)"

fun strcmp :: "string \<Rightarrow> string \<Rightarrow> int" where
  "strcmp [] [] = 0"
| "strcmp [] (b # bs) = - 1"
| "strcmp (a # as) [] = 1"
| "strcmp (a # as) (b # bs) = (if a = b then strcmp as bs else if (of_char a :: nat) < of_char b then - 1 else 1)"

definition nameCompare :: "tree_node \<Rightarrow> tree_node \<Rightarrow> int" where
  "nameCompare n other = (case (node_name n, node_name other) of
     (Some a, Some b) \<Rightarrow> strcmp a b
   | (None, None) \<Rightarrow> 0
   | (None, Some b) \<Rightarrow> - 1
   | (Some a, None) \<Rightarrow> 1)"

definition nameEquals :: "tree_node \<Rightarrow> tree_node \<Rightarrow> bool" where
  "nameEquals n other = (case (node_name n, node_name other) of
     (Some a, Some b) \<Rightarrow> strcmp a b = 0
   | (a, b) \<Rightarrow> a = b)"

definition TreeNode_getDataSize :: "tree_node \<Rightarrow> nat" where
  "TreeNode_getDataSize n = (if node_type n = CHR ''d'' then 8 else 2 * 8)"

definition dataEquals :: "tree_node \<Rightarrow> tree_node \<Rightarrow> bool" where
  "dataEquals n other \<longleftrightarrow> node_type n = node_type other \<and>
     (case (node_data n, node_data other) of
        (Some a, Some b) \<Rightarrow> take (TreeNode_getDataSize n div 8) a = take (TreeNode_getDataSize n div 8) b
      | (a, b) \<Rightarrow> a = b)"

definition isSymlink :: "tree_node \<Rightarrow> bool \<Rightarrow> bool \<Rightarrow> bool" where
  "isSymlink n has_symbit is_windows =
     (let change_indicator :: u64 =
            (if node_type n = CHR ''d'' \<and> TreeNode_getDataSize n = 8 then hd (the (node_data n))
             else if node_type n = CHR ''f'' \<and> TreeNode_getDataSize n = 2 * 8 then the (node_data n) ! 1
             else 0)
      in if has_symbit then and change_indicator 0x4000000000000000 \<noteq> 0
         else if is_windows
         then (and change_indicator 0x8000000000000000 = 0 \<or> node_type n = CHR ''d'') \<and> and change_indicator 0x7000000000000000 > 0
         else and change_indicator 0x8000000000000000 \<noteq> 0)"

subsection \<open>Marking changed subtrees\<close>

partial_function (option) subtreeChangedParent :: "nat \<Rightarrow> tree_node list \<Rightarrow> tree_node list option" where
  "subtreeChangedParent p ns =
     do { n \<leftarrow> rd ns p;
          if subtree_changed n then Some ns
          else (let ns = ns[p := n\<lparr>subtree_changed := True\<rparr>]
                in case node_parent n of None \<Rightarrow> Some ns | Some q \<Rightarrow> subtreeChangedParent q ns) }"

declare subtreeChangedParent.simps [code]

definition subtreeChanged :: "nat \<Rightarrow> tree_node list \<Rightarrow> tree_node list option" where
  "subtreeChanged j ns = do { n \<leftarrow> rd ns j; case node_parent n of None \<Rightarrow> Some ns | Some p \<Rightarrow> subtreeChangedParent p ns }"

subsection \<open>Gathering the differences\<close>

record diff_state =
  nodes1 :: "tree_node list"
  nodes2 :: "tree_node list"
  diffs :: "nat list"
  dir_diffs :: "nat list"
  modified_inplace_ids :: "nat list option"
  deleted_inplace_ids :: "nat list option"

definition typeCompare :: "tree_node \<Rightarrow> tree_node \<Rightarrow> int" where
  "typeCompare n1 n2 =
     (if node_type n1 = CHR ''f'' \<and> node_type n2 = CHR ''d'' then - 1
      else if node_type n1 = CHR ''d'' \<and> node_type n2 = CHR ''f'' then 1
      else nameCompare n1 n2)"

text \<open>The root may be unsorted: look for a child with the type and the name that is not mapped yet.\<close>

partial_function (option) findUnmapped :: "nat option \<Rightarrow> tree_node \<Rightarrow> tree_node list \<Rightarrow> nat option option" where
  "findUnmapped sn n2 ns =
     (case sn of
        None \<Rightarrow> Some None
      | Some i \<Rightarrow>
          do { n \<leftarrow> rd ns i;
               if node_type n2 = node_type n \<and> nameEquals n2 n \<and> mapped_node n = None then Some (Some i)
               else findUnmapped (nextSibling n) n2 ns })"

declare findUnmapped.simps [code]

definition push_opt :: "nat \<Rightarrow> bool \<Rightarrow> nat list option \<Rightarrow> nat list option" where
  "push_opt i b xs = (if b then map_option (\<lambda>xs. xs @ [i]) xs else xs)"

definition setMappedNode :: "nat \<Rightarrow> nat \<Rightarrow> diff_state \<Rightarrow> diff_state" where
  "setMappedNode i j st = st\<lparr>nodes1 := (nodes1 st)[i := (nodes1 st ! i)\<lparr>mapped_node := Some j\<rparr>], nodes2 := (nodes2 st)[j := (nodes2 st ! j)\<lparr>mapped_node := Some i\<rparr>]\<rparr>"

definition new_or_changed :: "nat \<Rightarrow> tree_node \<Rightarrow> diff_state \<Rightarrow> diff_state option" where
  "new_or_changed j n2 st = do { ns \<leftarrow> subtreeChanged j (nodes2 st); Some (st\<lparr>diffs := diffs st @ [node_id n2], nodes2 := ns\<rparr>) }"

text \<open>The parts of an iteration that change the state: a directory whose data differ, an entry that was changed, a symbolic link (which keeps the
  directories above it from being shared), and an entry of the old tree that is gone.\<close>

definition keeps :: "tree_node \<Rightarrow> tree_node \<Rightarrow> bool" where
  "keeps n1 n2 \<longleftrightarrow> node_type n1 = CHR ''d'' \<and> node_type n2 = CHR ''d'' \<or> dataEquals n1 n2"

definition dir_step :: "nat \<Rightarrow> tree_node \<Rightarrow> tree_node \<Rightarrow> diff_state \<Rightarrow> diff_state option" where
  "dir_step j n1 n2 st =
     (if (node_type n1 = CHR ''d'' \<and> node_type n2 = CHR ''d'') \<and> \<not> dataEquals n1 n2
      then do { ns \<leftarrow> subtreeChanged j (nodes2 st); Some (st\<lparr>dir_diffs := dir_diffs st @ [node_id n2], nodes2 := ns\<rparr>) }
      else Some st)"

definition change_step :: "bool \<Rightarrow> bool \<Rightarrow> nat \<Rightarrow> tree_node \<Rightarrow> tree_node \<Rightarrow> diff_state \<Rightarrow> diff_state option" where
  "change_step has_symbit is_windows j n1 n2 st = new_or_changed j n2
     (st\<lparr>modified_inplace_ids := push_opt (node_id n2) (node_type n1 = node_type n2) (modified_inplace_ids st),
         deleted_inplace_ids := push_opt (node_id n1) (node_type n1 = node_type n2 \<and> isSymlink n1 has_symbit is_windows = isSymlink n2 has_symbit is_windows) (deleted_inplace_ids st)\<rparr>)"

definition sym_step :: "bool \<Rightarrow> bool \<Rightarrow> nat \<Rightarrow> tree_node \<Rightarrow> diff_state \<Rightarrow> diff_state option" where
  "sym_step has_symbit is_windows j n2 st = do { ns \<leftarrow> (if isSymlink n2 has_symbit is_windows then subtreeChanged j (nodes2 st) else Some (nodes2 st)); Some (st\<lparr>nodes2 := ns\<rparr>) }"

definition skip_step :: "nat \<Rightarrow> diff_state \<Rightarrow> diff_state option" where
  "skip_step t2 st = do { ns \<leftarrow> subtreeChangedParent t2 (nodes2 st); Some (st\<lparr>nodes2 := ns\<rparr>) }"

partial_function (option) gatherDiffs_loop ::
    "bool \<Rightarrow> bool \<Rightarrow> nat \<Rightarrow> nat \<Rightarrow> nat \<Rightarrow> nat option \<Rightarrow> nat option \<Rightarrow> diff_state \<Rightarrow> diff_state option" where
  "gatherDiffs_loop has_symbit is_windows t1 t2 depth c1 c2 st =
     (case c2 of
        None \<Rightarrow> Some st
      | Some j \<Rightarrow>
          do { n2 \<leftarrow> rd (nodes2 st) j;
               cmp \<leftarrow> (case c1 of None \<Rightarrow> Some 1 | Some i \<Rightarrow> do { n1 \<leftarrow> rd (nodes1 st) i; Some (typeCompare n1 n2) });
               (cmp, c1) \<leftarrow>
                 (if cmp \<noteq> 0 \<and> depth = 0
                  then do { r \<leftarrow> rd (nodes1 st) t1;
                            f \<leftarrow> findUnmapped (getFirstChild t1 r) n2 (nodes1 st);
                            Some (case f of Some i \<Rightarrow> (0, Some i) | None \<Rightarrow> (cmp, c1)) }
                  else Some (cmp, c1));
               if cmp = 0
               then do {
                 i \<leftarrow> c1;
                 n1 \<leftarrow> rd (nodes1 st) i;
                 st \<leftarrow> dir_step j n1 n2 st;
                 st \<leftarrow> (if keeps n1 n2
                        then do { st \<leftarrow> gatherDiffs_loop has_symbit is_windows i j (depth + 1) (getFirstChild i n1) (getFirstChild j n2) st; Some (setMappedNode i j st) }
                        else change_step has_symbit is_windows j n1 n2 st);
                 st \<leftarrow> sym_step has_symbit is_windows j n2 st;
                 gatherDiffs_loop has_symbit is_windows t1 t2 depth (nextSibling n1) (nextSibling n2) st }
               else if cmp < 0
               then do { i \<leftarrow> c1; n1 \<leftarrow> rd (nodes1 st) i; st \<leftarrow> skip_step t2 st; gatherDiffs_loop has_symbit is_windows t1 t2 depth (nextSibling n1) c2 st }
               else do { st \<leftarrow> new_or_changed j n2 st; gatherDiffs_loop has_symbit is_windows t1 t2 depth c1 (nextSibling n2) st } })"

declare gatherDiffs_loop.simps [code]

definition gatherDiffs :: "bool \<Rightarrow> bool \<Rightarrow> nat \<Rightarrow> nat \<Rightarrow> nat \<Rightarrow> diff_state \<Rightarrow> diff_state option" where
  "gatherDiffs has_symbit is_windows t1 t2 depth st =
     do { n1 \<leftarrow> rd (nodes1 st) t1;
          n2 \<leftarrow> rd (nodes2 st) t2;
          gatherDiffs_loop has_symbit is_windows t1 t2 depth (getFirstChild t1 n1) (getFirstChild t2 n2) st }"

subsection \<open>Deleted nodes and large unchanged subtrees\<close>

partial_function (option) gatherDeletes_loop :: "tree_node list \<Rightarrow> nat option \<Rightarrow> nat list \<Rightarrow> nat list option" where
  "gatherDeletes_loop ns c1 deleted_ids =
     (case c1 of
        None \<Rightarrow> Some deleted_ids
      | Some i \<Rightarrow>
          do { n \<leftarrow> rd ns i;
               deleted_ids \<leftarrow> gatherDeletes_loop ns (getFirstChild i n) (if mapped_node n = None then deleted_ids @ [node_id n] else deleted_ids);
               gatherDeletes_loop ns (nextSibling n) deleted_ids })"

declare gatherDeletes_loop.simps [code]

definition gatherDeletes :: "tree_node list \<Rightarrow> nat \<Rightarrow> nat list \<Rightarrow> nat list option" where
  "gatherDeletes ns t1 deleted_ids = do { n \<leftarrow> rd ns t1; gatherDeletes_loop ns (getFirstChild t1 n) deleted_ids }"

partial_function (option) getTreesize_loop :: "tree_node list \<Rightarrow> nat \<Rightarrow> nat option \<Rightarrow> nat \<Rightarrow> nat option" where
  "getTreesize_loop ns limit c treesize =
     (case c of
        None \<Rightarrow> Some treesize
      | Some i \<Rightarrow>
          do { n \<leftarrow> rd ns i;
               s \<leftarrow> getTreesize_loop ns limit (getFirstChild i n) 1;
               if treesize + s > limit then Some (treesize + s)
               else getTreesize_loop ns limit (nextSibling n) (treesize + s) })"

declare getTreesize_loop.simps [code]

definition getTreesize :: "tree_node list \<Rightarrow> nat \<Rightarrow> nat \<Rightarrow> nat option" where
  "getTreesize ns t limit = do { n \<leftarrow> rd ns t; getTreesize_loop ns limit (getFirstChild t n) 1 }"

partial_function (option) gatherLarge_loop :: "tree_node list \<Rightarrow> nat option \<Rightarrow> nat list \<Rightarrow> nat list option" where
  "gatherLarge_loop ns c2 large =
     (case c2 of
        None \<Rightarrow> Some large
      | Some j \<Rightarrow>
          do { n \<leftarrow> rd ns j;
               s \<leftarrow> (if \<not> subtree_changed n \<and> mapped_node n \<noteq> None then getTreesize ns j 10 else Some 0);
               large \<leftarrow> (if s > 10 then Some (large @ [node_id n]) else gatherLarge_loop ns (getFirstChild j n) large);
               gatherLarge_loop ns (nextSibling n) large })"

declare gatherLarge_loop.simps [code]

definition gatherLargeUnchangedSubtrees :: "tree_node list \<Rightarrow> nat \<Rightarrow> nat list \<Rightarrow> nat list option" where
  "gatherLargeUnchangedSubtrees ns t2 large = do { n \<leftarrow> rd ns t2; gatherLarge_loop ns (getFirstChild t2 n) large }"

record tree_diff =
  td_diffs :: "nat list"
  td_deleted :: "nat list option"
  td_large :: "nat list option"
  td_modified :: "nat list option"
  td_dir_diffs :: "nat list"
  td_deleted_inplace :: "nat list option"

text \<open>\<open>diffTrees\<close> on two trees that were read; the flags say which of the optional results are asked for.\<close>

definition diffTrees_nodes :: "bool \<Rightarrow> bool \<Rightarrow> bool \<Rightarrow> bool \<Rightarrow> bool \<Rightarrow> bool \<Rightarrow> tree_node list \<Rightarrow> tree_node list \<Rightarrow> tree_diff option" where
  "diffTrees_nodes has_symbit is_windows want_deleted want_large want_modified want_deleted_inplace ns1 ns2 =
     do { st \<leftarrow> gatherDiffs has_symbit is_windows 0 0 0
            \<lparr>nodes1 = ns1, nodes2 = ns2, diffs = [], dir_diffs = [], modified_inplace_ids = if want_modified then Some [] else None,
             deleted_inplace_ids = if want_deleted_inplace then Some [] else None\<rparr>;
          deleted \<leftarrow> (if want_deleted then do { d \<leftarrow> gatherDeletes (nodes1 st) 0 []; Some (Some (sort d)) } else Some None);
          large \<leftarrow> (if want_large then do { l \<leftarrow> gatherLargeUnchangedSubtrees (nodes2 st) 0 []; Some (Some (sort l)) } else Some None);
          Some \<lparr>td_diffs = sort (diffs st), td_deleted = deleted, td_large = large, td_modified = map_option sort (modified_inplace_ids st),
            td_dir_diffs = sort (dir_diffs st), td_deleted_inplace = map_option sort (deleted_inplace_ids st)\<rparr> }"

end
