(* ===== verification/Tree_Reader.thy ===== *)
theory Tree_Reader
  imports Tree_Diff File_List
begin

text \<open>
  Reading the tree of a file list (\<^verbatim>\<open>TreeReader.cpp\<close>): a first pass counts the nodes and the bytes of names and data, a second one fills the
  vector of nodes and the buffer. The buffer is modelled by its fill level: a write beyond its end is an error of its own, as are a node
  outside the vector and an empty stack. The file is its content.
\<close>

datatype read_error = Unexpected_char char nat | Parents_empty | LastNodes_empty | Out_of_bounds | Assert_failed

datatype read_state = R0 | R1 | R2 | R3 | R4 | R5 | R10

subsection \<open>The first pass\<close>

record counter =
  c_state :: read_state
  c_lines :: nat
  c_size :: nat
  c_name :: string
  c_ltype :: char

definition counter_init :: counter where
  "counter_init = \<lparr>c_state = R0, c_lines = 0, c_size = 0, c_name = [], c_ltype = CHR 0x00\<rparr>"

definition count_line :: "counter \<Rightarrow> counter" where
  "count_line s =
     (let s = s\<lparr>c_state := R0\<rparr>;
          s = (if c_ltype s = CHR ''f'' then s\<lparr>c_size := c_size s + 2 * 8\<rparr> else s);
          s = (if c_ltype s \<noteq> CHR ''d'' \<or> c_name s \<noteq> ''..''
               then (let s = (if c_ltype s = CHR ''d'' then s\<lparr>c_size := c_size s + 8\<rparr> else s)
                     in s\<lparr>c_lines := c_lines s + 1, c_size := c_size s + (length (c_name s) + 1)\<rparr>)
               else s)
      in s\<lparr>c_name := [], c_ltype := CHR 0x00\<rparr>)"

text \<open>The end of a name: a line that ends there, or the data that follow a space.\<close>

definition count_char :: "char \<Rightarrow> counter \<Rightarrow> read_error + counter" where
  "count_char ch s =
     (case c_state s of
        R0 \<Rightarrow> if ch = CHR ''f'' \<or> ch = CHR ''d'' then Inr (s\<lparr>c_ltype := ch, c_state := R1\<rparr>)
              else if ch = CHR ''u'' then Inr (s\<lparr>c_state := R10, c_ltype := CHR ''d'', c_name := ''..''\<rparr>)
              else Inl (Unexpected_char ch (c_lines s))
      | R1 \<Rightarrow> Inr (s\<lparr>c_state := R2\<rparr>)
      | R2 \<Rightarrow> if ch = CHR 0x22 then Inr (s\<lparr>c_state := R3\<rparr>)
              else if ch = CHR 0x5C then Inr (s\<lparr>c_state := R5\<rparr>)
              else Inr (s\<lparr>c_name := c_name s @ [ch]\<rparr>)
      | R5 \<Rightarrow> Inr (s\<lparr>c_name := c_name s @ (if ch \<noteq> CHR 0x22 \<and> ch \<noteq> CHR 0x5C then [CHR 0x5C] else []) @ [ch], c_state := R2\<rparr>)
      | R3 \<Rightarrow> if ch = CHR '' '' then Inr (s\<lparr>c_state := R4\<rparr>)
              else (let s = s\<lparr>c_state := R10\<rparr> in Inr (if ch = CHR 0x0A then count_line s else s))
      | R4 \<Rightarrow> Inr (if ch = CHR 0x0A then count_line s else s)
      | R10 \<Rightarrow> Inr (if ch = CHR 0x0A then count_line s else s))"

fun count_chars :: "string \<Rightarrow> counter \<Rightarrow> read_error + counter" where
  "count_chars [] s = Inr s"
| "count_chars (ch # cs) s = (case count_char ch s of Inl e \<Rightarrow> Inl e | Inr s \<Rightarrow> count_chars cs s)"

subsection \<open>The second pass\<close>

record reader =
  r_state :: read_state
  r_name :: string
  r_data :: string
  r_parents :: "nat list"
  r_last :: "nat list"
  r_first :: bool
  r_idx :: nat
  r_lines :: nat
  r_pos :: nat
  r_nodes :: "tree_node list"

definition find_space :: "string \<Rightarrow> nat option" where
  "find_space s = (if CHR '' '' \<in> set s then Some (length (takeWhile (\<lambda>c. c \<noteq> CHR '' '') s)) else None)"

text \<open>\<open>getuntil\<close> and \<open>getafter\<close> with a space.\<close>

definition getuntil_space :: "string \<Rightarrow> string" where
  "getuntil_space s = (case find_space s of None \<Rightarrow> [] | Some off \<Rightarrow> take off s)"

definition getafter_space :: "string \<Rightarrow> string" where
  "getafter_space s = (case find_space s of None \<Rightarrow> [] | Some off \<Rightarrow> drop 1 (drop off s))"

text \<open>The cells of the data and the name of a node as a C string.\<close>

definition line_data :: "string \<Rightarrow> u64 list" where
  "line_data data =
     (let sdata = drop 1 data in
      if hd data = CHR ''f'' then [word_of_int (os_atoi64 (getuntil_space sdata)), word_of_int (os_atoi64 (getafter_space sdata))]
      else [word_of_int (os_atoi64 (getafter_space sdata))])"

definition c_str :: "string \<Rightarrow> string" where
  "c_str s = takeWhile (\<lambda>c. c \<noteq> CHR 0x00) s"

definition upd_node :: "nat \<Rightarrow> (tree_node \<Rightarrow> tree_node) \<Rightarrow> tree_node list \<Rightarrow> tree_node list" where
  "upd_node i f ns = ns[i := f (ns ! i)]"

definition read_node :: "nat \<Rightarrow> reader \<Rightarrow> read_error + reader" where
  "read_node buffer_size s =
     (let i = r_idx s; ch = hd (r_data s); d = line_data (r_data s); pos = r_pos s + (length (r_name s) + 1) + 8 * length d in
      if \<not> (i < length (r_nodes s) \<and> pos \<le> buffer_size) then Inl Out_of_bounds
      else
        (let ns = upd_node i (\<lambda>n. n\<lparr>node_name := Some (c_str (r_name s)), node_id := r_lines s, node_type := ch, node_data := Some d\<rparr>) (r_nodes s)
         in case (if r_first s then Inr (i # r_last s, ns)
                  else case r_last s of
                         [] \<Rightarrow> Inl Out_of_bounds
                       | l # ls \<Rightarrow> Inr (i # ls, upd_node l (\<lambda>n. n\<lparr>nextSibling := Some i\<rparr>) ns)) of
              Inl e \<Rightarrow> Inl e
            | Inr (lasts, ns) \<Rightarrow>
                (let ns = (case r_parents s of
                             [] \<Rightarrow> ns
                           | p # ps \<Rightarrow> upd_node i (\<lambda>n. n\<lparr>node_parent := Some p\<rparr>) (upd_node p (\<lambda>n. n\<lparr>num_children := num_children n + 1\<rparr>) ns))
                 in Inr (s\<lparr>r_nodes := ns, r_pos := pos, r_last := lasts, r_parents := if ch = CHR ''d'' then i # r_parents s else r_parents s,
                       r_first := ch = CHR ''d'', r_idx := i + 1\<rparr>))))"

definition read_up :: "reader \<Rightarrow> read_error + reader" where
  "read_up s =
     (case r_parents s of
        [] \<Rightarrow> Inl Parents_empty
      | p # ps \<Rightarrow>
          (if r_first s then Inr (s\<lparr>r_parents := ps, r_first := False\<rparr>)
           else case r_last s of
                  [] \<Rightarrow> Inl LastNodes_empty
                | l # ls \<Rightarrow> Inr (s\<lparr>r_parents := ps, r_first := False, r_last := ls, r_nodes := upd_node l (\<lambda>n. n\<lparr>nextSibling := None\<rparr>) (r_nodes s)\<rparr>)))"

definition read_line :: "nat \<Rightarrow> reader \<Rightarrow> read_error + reader" where
  "read_line buffer_size s =
     (case (if r_name s \<noteq> ''..'' then read_node buffer_size s else read_up s) of
        Inl e \<Rightarrow> Inl e
      | Inr s \<Rightarrow> Inr (s\<lparr>r_name := [], r_data := [], r_state := R0, r_lines := r_lines s + 1\<rparr>))"

definition read_char :: "nat \<Rightarrow> char \<Rightarrow> reader \<Rightarrow> read_error + reader" where
  "read_char buffer_size ch s =
     (case r_state s of
        R0 \<Rightarrow> if ch = CHR ''f'' then Inr (s\<lparr>r_data := r_data s @ ''f'', r_state := R1\<rparr>)
              else if ch = CHR ''d'' then Inr (s\<lparr>r_data := r_data s @ ''d'', r_state := R1\<rparr>)
              else if ch = CHR ''u'' then Inr (s\<lparr>r_name := ''..'', r_state := R10\<rparr>)
              else Inl (Unexpected_char ch (r_lines s))
      | R1 \<Rightarrow> Inr (s\<lparr>r_state := R2\<rparr>)
      | R2 \<Rightarrow> if ch = CHR 0x22 then Inr (s\<lparr>r_state := R3\<rparr>)
              else if ch = CHR 0x5C then Inr (s\<lparr>r_state := R5\<rparr>)
              else Inr (s\<lparr>r_name := r_name s @ [ch]\<rparr>)
      | R5 \<Rightarrow> Inr (s\<lparr>r_name := r_name s @ (if ch \<noteq> CHR 0x22 \<and> ch \<noteq> CHR 0x5C then [CHR 0x5C] else []) @ [ch], r_state := R2\<rparr>)
      | R3 \<Rightarrow> if ch = CHR '' '' then Inr (s\<lparr>r_state := R4\<rparr>)
              else (let s = s\<lparr>r_state := R10\<rparr> in if ch = CHR 0x0A then read_line buffer_size s else Inr s)
      | R4 \<Rightarrow> if ch = CHR 0x0A then read_line buffer_size s else Inr (s\<lparr>r_data := r_data s @ [ch]\<rparr>)
      | R10 \<Rightarrow> if ch = CHR 0x0A then read_line buffer_size s else Inr s)"

fun read_chars :: "nat \<Rightarrow> string \<Rightarrow> reader \<Rightarrow> read_error + reader" where
  "read_chars buffer_size [] s = Inr s"
| "read_chars buffer_size (ch # cs) s = (case read_char buffer_size ch s of Inl e \<Rightarrow> Inl e | Inr s \<Rightarrow> read_chars buffer_size cs s)"

definition readTree :: "string \<Rightarrow> read_error + tree_node list" where
  "readTree f =
     (case count_chars f counter_init of
        Inl e \<Rightarrow> Inl e
      | Inr c \<Rightarrow>
          (let buffer_size = c_size c + 5;
               nodes = replicate (c_lines c + 1) TreeNode_init;
               nodes = upd_node 0 (\<lambda>n. n\<lparr>node_name := Some ''root''\<rparr>) nodes
           in case read_chars buffer_size f
                  \<lparr>r_state = R0, r_name = [], r_data = [], r_parents = [0], r_last = [0], r_first = True, r_idx = 1, r_lines = 0, r_pos = 5, r_nodes = nodes\<rparr> of
                Inl e \<Rightarrow> Inl e
              | Inr s \<Rightarrow>
                  if r_idx s = length (r_nodes s) \<and> r_pos s = buffer_size
                  then Inr (upd_node 0 (\<lambda>n. n\<lparr>nextSibling := None\<rparr>) (r_nodes s))
                  else Inl Assert_failed))"

definition diffTrees :: "bool \<Rightarrow> bool \<Rightarrow> bool \<Rightarrow> bool \<Rightarrow> bool \<Rightarrow> bool \<Rightarrow> string \<Rightarrow> string \<Rightarrow> (read_error + tree_diff) option" where
  "diffTrees has_symbit is_windows want_deleted want_large want_modified want_deleted_inplace t1 t2 =
     (case readTree t1 of
        Inl e \<Rightarrow> Some (Inl e)
      | Inr ns1 \<Rightarrow>
          (case readTree t2 of
             Inl e \<Rightarrow> Some (Inl e)
           | Inr ns2 \<Rightarrow> map_option Inr (diffTrees_nodes has_symbit is_windows want_deleted want_large want_modified want_deleted_inplace ns1 ns2)))"

end
