(* ===== verification/Tree_Run.thy ===== *)
theory Tree_Run
  imports Tree_Diff
begin

text \<open>
  The comparison of trees follows its pointers through two vectors; here a vector is read as a tree, and a run of the comparison as a
  derivation over trees. On well-formed vectors every call returns, and what it does is such a run.
\<close>

subsection \<open>Vectors as trees\<close>

datatype tree = Node (lab: nat) (kids: "tree list")

definition first_lab :: "tree list \<Rightarrow> nat option" where
  "first_lab ts = (case ts of [] \<Rightarrow> None | t # _ \<Rightarrow> Some (lab t))"

lemma first_lab_simps [simp]: "first_lab [] = None" "first_lab (t # ts) = Some (lab t)"
  by (simp_all add: first_lab_def)

fun rep_tree :: "tree_node list \<Rightarrow> nat option \<Rightarrow> nat option \<Rightarrow> tree \<Rightarrow> bool"
  and rep_forest :: "tree_node list \<Rightarrow> nat option \<Rightarrow> tree list \<Rightarrow> bool" where
  "rep_tree ns par nxt (Node i ts) \<longleftrightarrow> i < length ns \<and> node_parent (ns ! i) = par \<and> nextSibling (ns ! i) = nxt \<and> num_children (ns ! i) = length ts \<and>
     (ts \<noteq> [] \<longrightarrow> first_lab ts = Some (i + 1)) \<and> rep_forest ns (Some i) ts"
| "rep_forest ns par [] \<longleftrightarrow> True"
| "rep_forest ns par (t # ts) \<longleftrightarrow> rep_tree ns par (first_lab ts) t \<and> rep_forest ns par ts"

text \<open>What the comparison does not change of a node.\<close>

definition static :: "tree_node \<Rightarrow> tree_node" where
  "static n = n\<lparr>mapped_node := None, subtree_changed := False\<rparr>"

definition same_tree :: "tree_node list \<Rightarrow> tree_node list \<Rightarrow> bool" where
  "same_tree ns ns' \<longleftrightarrow> map static ns = map static ns'"

definition parents_ok :: "tree_node list \<Rightarrow> bool" where
  "parents_ok ns \<longleftrightarrow> (\<forall>i < length ns. case node_parent (ns ! i) of None \<Rightarrow> True | Some p \<Rightarrow> p < i)"

lemma static_simps [simp]:
  "node_type (static n) = node_type n" "node_name (static n) = node_name n" "node_data (static n) = node_data n" "nextSibling (static n) = nextSibling n"
  "node_parent (static n) = node_parent n" "num_children (static n) = num_children n" "node_id (static n) = node_id n"
  "static (n\<lparr>mapped_node := m\<rparr>) = static n" "static (n\<lparr>subtree_changed := b\<rparr>) = static n"
  by (simp_all add: static_def)

lemma same_tree_refl [simp]: "same_tree ns ns"
  by (simp add: same_tree_def)

lemma same_tree_trans: "same_tree a b \<Longrightarrow> same_tree b c \<Longrightarrow> same_tree a c"
  by (simp add: same_tree_def)

lemma same_tree_sym: "same_tree a b \<Longrightarrow> same_tree b a"
  by (simp add: same_tree_def)

lemma same_tree_length: "same_tree ns ns' \<Longrightarrow> length ns' = length ns"
  unfolding same_tree_def by (metis length_map)

lemma same_tree_nth: "same_tree ns ns' \<Longrightarrow> i < length ns \<Longrightarrow> static (ns' ! i) = static (ns ! i)"
  unfolding same_tree_def by (metis length_map nth_map)

lemma same_tree_update: "static n = static (ns ! i) \<Longrightarrow> same_tree ns (ns[i := n])"
  by (simp add: same_tree_def map_update) (metis length_map list_update_id list_update_beyond not_le nth_map)

lemma same_nodeD:
  assumes "static n' = static n"
  shows "node_type n' = node_type n" "node_name n' = node_name n" "node_data n' = node_data n" "nextSibling n' = nextSibling n"
    "node_parent n' = node_parent n" "num_children n' = num_children n" "node_id n' = node_id n"
  using assms static_simps by metis+

lemma rep_same_tree:
  "rep_tree ns par nxt t \<Longrightarrow> same_tree ns ns' \<Longrightarrow> rep_tree ns' par nxt t"
  "rep_forest ns par ts \<Longrightarrow> same_tree ns ns' \<Longrightarrow> rep_forest ns' par ts"
proof (induction ns par nxt t and ns par ts rule: rep_tree_rep_forest.induct)
  case (1 ns par nxt i ts)
  then have "static (ns' ! i) = static (ns ! i)" "length ns' = length ns" using same_tree_nth same_tree_length by auto
  then show ?case using 1 same_nodeD [of "ns' ! i" "ns ! i"] by simp
qed simp_all

lemma parents_same_tree: "parents_ok ns \<Longrightarrow> same_tree ns ns' \<Longrightarrow> parents_ok ns'"
  unfolding parents_ok_def by (metis same_nodeD(5) same_tree_length same_tree_nth)

lemma rep_forest_in: "rep_forest ns par ts \<Longrightarrow> t \<in> set ts \<Longrightarrow> \<exists>nxt. rep_tree ns par nxt t"
  by (induction ts) auto

lemma rep_forest_suffix: "rep_forest ns par (xs @ ys) \<Longrightarrow> rep_forest ns par ys"
  by (induction xs) auto

lemma rep_treeD:
  assumes "rep_tree ns par nxt t"
  shows "lab t < length ns" "node_parent (ns ! lab t) = par" "nextSibling (ns ! lab t) = nxt" "rep_forest ns (Some (lab t)) (kids t)"
    "getFirstChild (lab t) (ns ! lab t) = first_lab (kids t)"
  using assms by (cases t; auto simp: getFirstChild_def first_lab_def split: list.splits)+

subsection \<open>Marks\<close>

definition marked :: "tree_node list \<Rightarrow> nat set" where
  "marked ns = {i. i < length ns \<and> subtree_changed (ns ! i)}"

definition up_closed :: "tree_node list \<Rightarrow> bool" where
  "up_closed ns \<longleftrightarrow> (\<forall>i \<in> marked ns. \<forall>q. node_parent (ns ! i) = Some q \<longrightarrow> q \<in> marked ns)"

text \<open>A vector with more marks and nothing else changed.\<close>

definition marks_more :: "tree_node list \<Rightarrow> tree_node list \<Rightarrow> bool" where
  "marks_more ns ns' \<longleftrightarrow> same_tree ns ns' \<and> map mapped_node ns' = map mapped_node ns \<and> marked ns \<subseteq> marked ns'"

lemma marks_more_refl [simp]: "marks_more ns ns"
  by (simp add: marks_more_def)

lemma marks_more_trans: "marks_more a b \<Longrightarrow> marks_more b c \<Longrightarrow> marks_more a c"
  unfolding marks_more_def using same_tree_trans by fastforce

lemma marks_more_set: "p < length ns \<Longrightarrow> marks_more ns (ns[p := (ns ! p)\<lparr>subtree_changed := True\<rparr>])"
  by (auto simp: marks_more_def marked_def same_tree_update nth_list_update map_update) (metis length_map list_update_id nth_map)

lemma subtreeChangedParent_ok:
  assumes "parents_ok ns" "p < length ns"
  shows "\<exists>ns'. subtreeChangedParent p ns = Some ns' \<and> marks_more ns ns' \<and> p \<in> marked ns'"
  using assms
proof (induction p arbitrary: ns rule: less_induct)
  case (less p)
  let ?ns = "ns[p := (ns ! p)\<lparr>subtree_changed := True\<rparr>]"
  note m = marks_more_set [OF less.prems(2)]
  note s = subtreeChangedParent.simps [of p ns]
  have p: "p \<in> marked ?ns" using less.prems by (simp add: marked_def)
  show ?case
  proof (cases "subtree_changed (ns ! p) \<or> node_parent (ns ! p) = None")
    case True
    then show ?thesis using s less.prems m p by (auto simp: rd_eq_Some marked_def)
  next
    case False
    then obtain q where q: "node_parent (ns ! p) = Some q" by blast
    then have "q < p" using less.prems by (auto simp: parents_ok_def)
    moreover have "parents_ok ?ns" using parents_same_tree [OF less.prems(1)] m by (simp add: marks_more_def)
    ultimately obtain ns' where "subtreeChangedParent q ?ns = Some ns'" "marks_more ?ns ns'" using less.IH [of q ?ns] less.prems(2) by auto
    then show ?thesis using s less.prems False q marks_more_trans [OF m] p by (auto simp: rd_eq_Some marks_more_def)
  qed
qed

definition up_closed_but :: "nat \<Rightarrow> tree_node list \<Rightarrow> bool" where
  "up_closed_but p ns \<longleftrightarrow> (\<forall>i \<in> marked ns. \<forall>q. node_parent (ns ! i) = Some q \<longrightarrow> q \<in> marked ns \<or> q = p)"

lemma subtreeChangedParent_up:
  assumes "parents_ok ns" "p < length ns" "up_closed_but p ns" "subtreeChangedParent p ns = Some ns'"
  shows "up_closed ns'"
  using assms
proof (induction p arbitrary: ns rule: less_induct)
  case (less p)
  let ?ns = "ns[p := (ns ! p)\<lparr>subtree_changed := True\<rparr>]"
  have m: "marks_more ns ?ns" using marks_more_set [OF less.prems(2)] .
  note s = subtreeChangedParent.simps [of p ns]
  have ok: "parents_ok ?ns" using parents_same_tree [OF less.prems(1)] m by (simp add: marks_more_def)
  have mk: "marked ?ns = insert p (marked ns)" using less.prems(2) by (auto simp: marked_def nth_list_update)
  have par: "node_parent (?ns ! i) = node_parent (ns ! i)" for i by (cases "i = p") (simp_all add: less.prems(2))
  consider (stop) "subtree_changed (ns ! p)" | (top) "\<not> subtree_changed (ns ! p)" "node_parent (ns ! p) = None"
    | (up) q where "\<not> subtree_changed (ns ! p)" "node_parent (ns ! p) = Some q" by blast
  then show ?case
  proof cases
    case stop
    then have "ns' = ns" "p \<in> marked ns" using s less.prems by (auto simp: rd_eq_Some marked_def)
    then show ?thesis using less.prems(3) by (auto simp: up_closed_but_def up_closed_def)
  next
    case top
    then have "ns' = ?ns" using s less.prems by (auto simp: rd_eq_Some)
    then show ?thesis using less.prems(3) top mk par by (auto simp: up_closed_but_def up_closed_def)
  next
    case up
    have q: "q < p" using less.prems(1,2) up by (auto simp: parents_ok_def)
    have "up_closed_but q ?ns" using less.prems(3) up mk par by (auto simp: up_closed_but_def)
    moreover have "subtreeChangedParent q ?ns = Some ns'" using s less.prems up by (auto simp: rd_eq_Some)
    ultimately show ?thesis using less.IH [OF q ok] q less.prems(2) by simp
  qed
qed

text \<open>Marking from a node of a tree upwards.\<close>

lemma mark_parent:
  assumes "parents_ok ns" "p < length ns"
  shows "\<exists>ns'. subtreeChangedParent p ns = Some ns' \<and> marks_more ns ns' \<and> p \<in> marked ns' \<and> (up_closed ns \<longrightarrow> up_closed ns')"
proof -
  obtain ns' where r: "subtreeChangedParent p ns = Some ns'" "marks_more ns ns'" "p \<in> marked ns'" using subtreeChangedParent_ok [OF assms] by blast
  have "up_closed ns \<Longrightarrow> up_closed_but p ns" by (auto simp: up_closed_but_def up_closed_def)
  then show ?thesis using subtreeChangedParent_up [OF assms _ r(1)] r by blast
qed

lemma mark_node:
  assumes "parents_ok ns" "j < length ns" "node_parent (ns ! j) = Some p"
  shows "\<exists>ns'. subtreeChanged j ns = Some ns' \<and> marks_more ns ns' \<and> p \<in> marked ns' \<and> (up_closed ns \<longrightarrow> up_closed ns')"
proof -
  have "p < length ns" using assms by (force simp: parents_ok_def)
  then show ?thesis using mark_parent [OF assms(1), of p] assms by (simp add: subtreeChanged_def rd_eq_Some)
qed

subsection \<open>Runs\<close>

lemmas loop_unfold = gatherDiffs_loop.simps

definition hit :: "tree_node \<Rightarrow> tree_node \<Rightarrow> bool" where
  "hit n2 n \<longleftrightarrow> node_type n2 = node_type n \<and> nameEquals n2 n \<and> mapped_node n = None"

definition pick :: "nat \<Rightarrow> tree list \<Rightarrow> tree list \<Rightarrow> tree_node \<Rightarrow> tree_node list \<Rightarrow> int \<times> tree list" where
  "pick d all c1s n2 ns =
     (let cmp = (case c1s of [] \<Rightarrow> 1 | a # _ \<Rightarrow> typeCompare (ns ! lab a) n2);
          r = dropWhile (\<lambda>t. \<not> hit n2 (ns ! lab t)) all
      in if cmp \<noteq> 0 \<and> d = 0 \<and> r \<noteq> [] then (0, r) else (cmp, c1s))"

text \<open>What a state says of its two trees does not change.\<close>

definition same_st :: "diff_state \<Rightarrow> diff_state \<Rightarrow> bool" where
  "same_st st st' \<longleftrightarrow> same_tree (nodes1 st) (nodes1 st') \<and> same_tree (nodes2 st) (nodes2 st')"

lemma same_st_refl [simp]: "same_st st st"
  by (simp add: same_st_def)

lemma same_st_trans: "same_st a b \<Longrightarrow> same_st b c \<Longrightarrow> same_st a c"
  by (auto simp: same_st_def intro: same_tree_trans)

lemma findUnmapped_eq:
  assumes "rep_forest ns par ts"
  shows "findUnmapped (first_lab ts) n2 ns = Some (first_lab (dropWhile (\<lambda>t. \<not> hit n2 (ns ! lab t)) ts))"
  using assms
proof (induction ts)
  case Nil
  then show ?case by (simp add: findUnmapped.simps)
next
  case (Cons t ts)
  then have r: "rep_tree ns par (first_lab ts) t" by simp
  show ?case using Cons rep_treeD [OF r] findUnmapped.simps [of "Some (lab t)" n2 ns] by (auto simp: rd_eq_Some hit_def)
qed

text \<open>What an iteration does to the state before or after a recursive call: \<open>ds\<close> and \<open>es\<close> are the differences it reports.\<close>

definition effect :: "nat \<Rightarrow> diff_state \<Rightarrow> nat list \<Rightarrow> nat list \<Rightarrow> diff_state \<Rightarrow> bool" where
  "effect t2 st ds es st' \<longleftrightarrow> nodes1 st' = nodes1 st \<and> marks_more (nodes2 st) (nodes2 st') \<and> diffs st' = diffs st @ ds \<and> dir_diffs st' = dir_diffs st @ es \<and>
     (ds @ es \<noteq> [] \<longrightarrow> t2 \<in> marked (nodes2 st')) \<and> (up_closed (nodes2 st) \<longrightarrow> up_closed (nodes2 st'))"

lemma effect_trans: "effect t2 a ds es b \<Longrightarrow> effect t2 b ds' es' c \<Longrightarrow> effect t2 a (ds @ ds') (es @ es') c"
proof -
  assume a: "effect t2 a ds es b" "effect t2 b ds' es' c"
  have m: "marks_more (nodes2 a) (nodes2 c)" using a marks_more_trans unfolding effect_def by blast
  have "t2 \<in> marked (nodes2 b) \<Longrightarrow> t2 \<in> marked (nodes2 c)" using a(2) by (auto simp: effect_def marks_more_def)
  then show ?thesis using a m by (auto simp: effect_def)
qed

definition dir_differs :: "tree_node \<Rightarrow> tree_node \<Rightarrow> nat list" where
  "dir_differs n1 n2 = (if node_type n1 = CHR ''d'' \<and> node_type n2 = CHR ''d'' \<and> \<not> dataEquals n1 n2 then [node_id n2] else [])"

inductive run :: "bool \<Rightarrow> bool \<Rightarrow> nat \<Rightarrow> nat \<Rightarrow> tree list \<Rightarrow> tree list \<Rightarrow> tree list \<Rightarrow> diff_state \<Rightarrow> diff_state \<Rightarrow> bool" for hs wn where
  stop: "run hs wn t2 d all c1s [] st st"
| keep: "pick d all c1s (nodes2 st ! lab b) (nodes1 st) = (0, a # rest) \<Longrightarrow> keeps (nodes1 st ! lab a) (nodes2 st ! lab b) \<Longrightarrow>
    effect t2 st [] (dir_differs (nodes1 st ! lab a) (nodes2 st ! lab b)) st1 \<Longrightarrow> run hs wn (lab b) (d + 1) (kids a) (kids a) (kids b) st1 st2 \<Longrightarrow>
    effect t2 (setMappedNode (lab a) (lab b) st2) [] [] st3 \<Longrightarrow> run hs wn t2 d all rest c2s st3 st' \<Longrightarrow>
    (isSymlink (nodes2 st ! lab b) hs wn \<longrightarrow> t2 \<in> marked (nodes2 st3)) \<Longrightarrow> run hs wn t2 d all c1s (b # c2s) st st'"
| change: "pick d all c1s (nodes2 st ! lab b) (nodes1 st) = (0, a # rest) \<Longrightarrow> \<not> keeps (nodes1 st ! lab a) (nodes2 st ! lab b) \<Longrightarrow>
    effect t2 st [node_id (nodes2 st ! lab b)] [] st1 \<Longrightarrow> run hs wn t2 d all rest c2s st1 st' \<Longrightarrow> run hs wn t2 d all c1s (b # c2s) st st'"
| skip: "pick d all c1s (nodes2 st ! lab b) (nodes1 st) = (cmp, a # rest) \<Longrightarrow> cmp < 0 \<Longrightarrow> effect t2 st [] [] st1 \<Longrightarrow>
    run hs wn t2 d all rest (b # c2s) st1 st' \<Longrightarrow> run hs wn t2 d all c1s (b # c2s) st st'"
| fresh: "pick d all c1s (nodes2 st ! lab b) (nodes1 st) = (cmp, c1s') \<Longrightarrow> cmp > 0 \<Longrightarrow> effect t2 st [node_id (nodes2 st ! lab b)] [] st1 \<Longrightarrow>
    run hs wn t2 d all c1s' c2s st1 st' \<Longrightarrow> run hs wn t2 d all c1s (b # c2s) st st'"

lemma steps_ok:
  assumes "parents_ok (nodes2 st)" "j < length (nodes2 st)" "node_parent (nodes2 st ! j) = Some t2"
  shows "\<exists>st'. dir_step j n1 n2 st = Some st' \<and> effect t2 st [] (dir_differs n1 n2) st'" "\<exists>st'. new_or_changed j n2 st = Some st' \<and> effect t2 st [node_id n2] [] st'"
    "\<exists>st'. change_step hs w j n1 n2 st = Some st' \<and> effect t2 st [node_id n2] [] st'" "\<exists>st'. sym_step hs w j n2 st = Some st' \<and> effect t2 st [] [] st' \<and> (isSymlink n2 hs w \<longrightarrow> t2 \<in> marked (nodes2 st'))"
proof -
  obtain ns' where n: "subtreeChanged j (nodes2 st) = Some ns'" "marks_more (nodes2 st) ns'" "t2 \<in> marked ns'" "up_closed (nodes2 st) \<longrightarrow> up_closed ns'"
    using mark_node [OF assms] by blast
  show "\<exists>st'. dir_step j n1 n2 st = Some st' \<and> effect t2 st [] (dir_differs n1 n2) st'" using n by (auto simp: dir_step_def effect_def dir_differs_def)
  show "\<exists>st'. new_or_changed j n2 st = Some st' \<and> effect t2 st [node_id n2] [] st'" using n by (auto simp: new_or_changed_def effect_def)
  show "\<exists>st'. change_step hs w j n1 n2 st = Some st' \<and> effect t2 st [node_id n2] [] st'" using n by (auto simp: change_step_def new_or_changed_def effect_def)
  show "\<exists>st'. sym_step hs w j n2 st = Some st' \<and> effect t2 st [] [] st' \<and> (isSymlink n2 hs w \<longrightarrow> t2 \<in> marked (nodes2 st'))" using n by (auto simp: sym_step_def effect_def)
qed

lemma skip_step_ok:
  assumes "parents_ok (nodes2 st)" "t2 < length (nodes2 st)"
  shows "\<exists>st'. skip_step t2 st = Some st' \<and> effect t2 st [] [] st'"
  using mark_parent [OF assms] by (auto simp: skip_step_def effect_def)

lemma effect_same: "effect t2 st ds es st' \<Longrightarrow> same_st st st'"
  by (simp add: effect_def same_st_def marks_more_def)

lemma setMapped_same [simp]: "same_st st (setMappedNode i j st)"
  by (simp add: same_st_def setMappedNode_def same_tree_update)

lemma run_same: "run hs wn t2 d all c1s c2s st st' \<Longrightarrow> same_st st st'"
proof (induction rule: run.induct)
  case (keep d all c1s st b a rest t2 st1 st2 st3 c2s st')
  have "same_st st2 st3" using setMapped_same effect_same [OF keep(5)] same_st_trans by blast
  then show ?case using effect_same [OF keep(3)] keep.IH same_st_trans by blast
qed (auto dest!: effect_same intro: same_st_trans)

text \<open>The situation of a call.\<close>

definition situation :: "nat \<Rightarrow> nat \<Rightarrow> tree list \<Rightarrow> tree list \<Rightarrow> tree list \<Rightarrow> diff_state \<Rightarrow> bool" where
  "situation t1 t2 all c1s c2s st \<longleftrightarrow> rep_forest (nodes1 st) (Some t1) all \<and> (\<exists>pre. all = pre @ c1s) \<and> t1 < length (nodes1 st) \<and>
     getFirstChild t1 (nodes1 st ! t1) = first_lab all \<and> rep_forest (nodes2 st) (Some t2) c2s \<and> parents_ok (nodes2 st) \<and> t2 < length (nodes2 st)"

lemma situation_same:
  assumes "situation t1 t2 all c1s c2s st" "same_st st st'"
  shows "situation t1 t2 all c1s c2s st'"
proof -
  have "same_tree (nodes1 st) (nodes1 st')" "same_tree (nodes2 st) (nodes2 st')" using assms(2) by (auto simp: same_st_def)
  then show ?thesis using assms(1) rep_same_tree(2) parents_same_tree same_tree_length same_nodeD(6) [OF same_tree_nth]
    unfolding situation_def getFirstChild_def by (metis (no_types, lifting))
qed

lemma situation_rest: "situation t1 t2 all c1s (b # c2s) st \<Longrightarrow> all = pre @ rest \<Longrightarrow> situation t1 t2 all rest c2s st"
  by (auto simp: situation_def)

lemma situation_skip: "situation t1 t2 all (a # rest) c2s st \<Longrightarrow> situation t1 t2 all rest c2s st"
  unfolding situation_def by (metis append.assoc append_Cons append_Nil)

lemma situation_node:
  assumes "situation t1 t2 all c1s (b # c2s) st"
  shows "rep_tree (nodes2 st) (Some t2) (first_lab c2s) b" "parents_ok (nodes2 st)" "lab b < length (nodes2 st)" "node_parent (nodes2 st ! lab b) = Some t2"
    "nextSibling (nodes2 st ! lab b) = first_lab c2s"
  using assms rep_treeD [of "nodes2 st" "Some t2" "first_lab c2s" b] by (auto simp: situation_def)

lemma situation_cur:
  assumes "situation t1 t2 all c1s c2s st" "all = pre @ a # rest"
  shows "rep_tree (nodes1 st) (Some t1) (first_lab rest) a" "lab a < length (nodes1 st)" "nextSibling (nodes1 st ! lab a) = first_lab rest"
proof -
  have "rep_forest (nodes1 st) (Some t1) (a # rest)"
    using rep_forest_suffix [of "nodes1 st" "Some t1" pre "a # rest"] assms unfolding situation_def by metis
  then show r: "rep_tree (nodes1 st) (Some t1) (first_lab rest) a" by simp
  show "lab a < length (nodes1 st)" "nextSibling (nodes1 st ! lab a) = first_lab rest" using rep_treeD [OF r] by auto
qed

lemma situation_kids:
  assumes "situation t1 t2 all c1s (b # c2s) st" "all = pre @ a # rest"
  shows "situation (lab a) (lab b) (kids a) (kids a) (kids b) st"
  using rep_treeD [OF situation_cur(1) [OF assms]] rep_treeD [OF situation_node(1) [OF assms(1)]] assms(1) by (auto simp: situation_def)

text \<open>The choice of the node to compare with.\<close>

lemma pick_suffix:
  assumes "pick d all c1s n2 ns = (cmp, cs)" "all = pre @ c1s"
  shows "\<exists>pre'. all = pre' @ cs"
  using assms by (auto simp: pick_def Let_def split: if_splits intro: takeWhile_dropWhile_id [symmetric])

lemma pick_empty: "pick d all c1s n2 ns = (cmp, []) \<Longrightarrow> cmp > 0"
  by (auto simp: pick_def Let_def split: if_splits list.splits)

lemma pick_skip: "pick d all c1s n2 ns = (cmp, cs) \<Longrightarrow> cmp \<noteq> 0 \<Longrightarrow> cs = c1s"
  by (auto simp: pick_def Let_def split: if_splits)

lemma loop_pick:
  assumes s: "situation t1 t2 all c1s (b # c2s) st" and p: "pick d all c1s (nodes2 st ! lab b) (nodes1 st) = (cmp, cs)"
  shows "gatherDiffs_loop hs w t1 t2 d (first_lab c1s) (Some (lab b)) st =
    (let n2 = nodes2 st ! lab b; j = lab b; c1 = first_lab cs in
     if cmp = 0
     then do {
       i \<leftarrow> c1;
       n1 \<leftarrow> rd (nodes1 st) i;
       st \<leftarrow> dir_step j n1 n2 st;
       st \<leftarrow> (if keeps n1 n2
              then do { st \<leftarrow> gatherDiffs_loop hs w i j (d + 1) (getFirstChild i n1) (getFirstChild j n2) st; Some (setMappedNode i j st) }
              else change_step hs w j n1 n2 st);
       st \<leftarrow> sym_step hs w j n2 st;
       gatherDiffs_loop hs w t1 t2 d (nextSibling n1) (nextSibling n2) st }
     else if cmp < 0
     then do { i \<leftarrow> c1; n1 \<leftarrow> rd (nodes1 st) i; st \<leftarrow> skip_step t2 st; gatherDiffs_loop hs w t1 t2 d (nextSibling n1) (Some (lab b)) st }
     else do { st \<leftarrow> new_or_changed j n2 st; gatherDiffs_loop hs w t1 t2 d c1 (nextSibling n2) st })"
proof -
  let ?n2 = "nodes2 st ! lab b"
  have b: "rd (nodes2 st) (lab b) = Some ?n2" using situation_node(3) [OF s] by (simp add: rd_eq_Some)
  obtain pre where pre: "all = pre @ c1s" using s by (auto simp: situation_def)
  let ?cmp = "case c1s of [] \<Rightarrow> 1 | a # _ \<Rightarrow> typeCompare (nodes1 st ! lab a) ?n2"
  have c: "(case first_lab c1s of None \<Rightarrow> Some 1 | Some i \<Rightarrow> do { n1 \<leftarrow> rd (nodes1 st) i; Some (typeCompare n1 ?n2) }) = Some ?cmp"
  proof (cases c1s)
    case (Cons a rest)
    then show ?thesis using situation_cur(2) [OF s, of pre a rest] pre by (simp add: rd_eq_Some)
  qed simp
  have t1: "rd (nodes1 st) t1 = Some (nodes1 st ! t1)" "getFirstChild t1 (nodes1 st ! t1) = first_lab all" "rep_forest (nodes1 st) (Some t1) all"
    using s by (auto simp: situation_def rd_eq_Some)
  have f: "(if ?cmp \<noteq> 0 \<and> d = 0
        then do { r \<leftarrow> rd (nodes1 st) t1; f \<leftarrow> findUnmapped (getFirstChild t1 r) ?n2 (nodes1 st); Some (case f of Some i \<Rightarrow> (0, Some i) | None \<Rightarrow> (?cmp, first_lab c1s)) }
        else Some (?cmp, first_lab c1s)) = Some (cmp, first_lab cs)"
  proof -
    define r where "r = dropWhile (\<lambda>t. \<not> hit ?n2 (nodes1 st ! lab t)) all"
    define m where "m = ?cmp"
    have u: "findUnmapped (first_lab all) ?n2 (nodes1 st) = Some (first_lab r)" unfolding r_def by (rule findUnmapped_eq [OF t1(3)])
    have p': "(if m \<noteq> 0 \<and> d = 0 \<and> r \<noteq> [] then (0, r) else (m, c1s)) = (cmp, cs)" using p unfolding pick_def Let_def r_def m_def .
    show ?thesis unfolding m_def [symmetric] using p' by (cases r) (auto simp: t1(1,2) u split: if_splits)
  qed
  show ?thesis
    by (simp only: loop_unfold [of hs w t1 t2 d "first_lab c1s" "Some (lab b)" st] option.case Option.bind_lunit b c f prod.case Let_def)
qed

definition forest_size :: "tree list \<Rightarrow> nat" where
  "forest_size ts = size_list size ts"

lemma forest_size_simps [simp]: "forest_size [] = 0" "forest_size (t # ts) = size t + forest_size ts + 1"
  by (simp_all add: forest_size_def)

lemma forest_size_kids: "forest_size (kids b) < size b + 1"
  by (cases b) (simp add: forest_size_def)

lemma loop_run:
  assumes "situation t1 t2 all c1s c2s st"
  shows "\<exists>st'. gatherDiffs_loop hs wn t1 t2 d (first_lab c1s) (first_lab c2s) st = Some st' \<and> run hs wn t2 d all c1s c2s st st'"
  using assms
proof (induction "(c2s, c1s)" arbitrary: c2s c1s t1 t2 d all st rule: wf_induct_rule [OF wf_measures [of "[forest_size \<circ> fst, length \<circ> snd]"]])
  case (1 c2s c1s t1 t2 d all st)
  show ?case
  proof (cases c2s)
    case Nil
    then show ?thesis using run.stop by (auto simp: loop_unfold)
  next
    case (Cons b bs)
    note sit = "1.prems" [unfolded Cons]
    let ?n2 = "nodes2 st ! lab b"
    note n = situation_node [OF sit]
    obtain cmp cs where p: "pick d all c1s ?n2 (nodes1 st) = (cmp, cs)" by fastforce
    obtain pre where pre: "all = pre @ cs" using pick_suffix [OF p] sit by (auto simp: situation_def)
    note u = loop_pick [OF sit p, of hs wn, unfolded Let_def]
    consider (new) "cmp > 0" | (old) a rest where "cmp < 0" "cs = a # rest" | (match) a rest where "cmp = 0" "cs = a # rest"
      using pick_empty p by (metis antisym_conv3 neq_Nil_conv)
    then show ?thesis
    proof cases
      case new
      obtain st1 where s1: "new_or_changed (lab b) ?n2 st = Some st1" "effect t2 st [node_id ?n2] [] st1" using steps_ok(2) [OF n(2-4)] by blast
      have "situation t1 t2 all cs bs st1" using situation_rest [OF situation_same [OF sit effect_same [OF s1(2)]] pre] .
      from "1.hyps" [of bs cs, OF _ this] obtain st' where "gatherDiffs_loop hs wn t1 t2 d (first_lab cs) (first_lab bs) st1 = Some st'" "run hs wn t2 d all cs bs st1 st'"
        using Cons by auto
      then show ?thesis using u s1 n(5) new run.fresh [OF p new s1(2)] Cons by auto
    next
      case old
      have c: "cs = c1s" using pick_skip [OF p] old(1) by simp
      obtain st1 where s1: "skip_step t2 st = Some st1" "effect t2 st [] [] st1" using skip_step_ok n(2) sit by (auto simp: situation_def)
      have a: "rd (nodes1 st) (lab a) = Some (nodes1 st ! lab a)" "nextSibling (nodes1 st ! lab a) = first_lab rest"
        using situation_cur [OF sit pre [unfolded old(2)]] by (auto simp: rd_eq_Some)
      have "situation t1 t2 all rest (b # bs) st1" using situation_skip situation_same [OF sit effect_same [OF s1(2)]] c old(2) by blast
      from "1.hyps" [of "b # bs" rest, OF _ this]
      obtain st' where "gatherDiffs_loop hs wn t1 t2 d (first_lab rest) (first_lab (b # bs)) st1 = Some st'" "run hs wn t2 d all rest (b # bs) st1 st'"
        using Cons old(2) c by auto
      then show ?thesis using u s1 a old run.skip [OF p [unfolded old(2)] old(1) s1(2)] Cons by auto
    next
      case match
      note pre = pre [unfolded match(2)]
      let ?n1 = "nodes1 st ! lab a"
      have a: "rd (nodes1 st) (lab a) = Some ?n1" "nextSibling ?n1 = first_lab rest" "getFirstChild (lab a) ?n1 = first_lab (kids a)"
          "getFirstChild (lab b) ?n2 = first_lab (kids b)"
        using situation_cur [OF sit pre] rep_treeD(5) [OF situation_cur(1) [OF sit pre]] rep_treeD(5) [OF n(1)] by (auto simp: rd_eq_Some)
      have tail: "\<exists>st'. gatherDiffs_loop hs wn t1 t2 d (first_lab rest) (first_lab bs) st1 = Some st' \<and> run hs wn t2 d all rest bs st1 st'" if "same_st st st1" for st1
      proof -
        have "situation t1 t2 all rest bs st1" using situation_rest [OF situation_same [OF sit that], of "pre @ [a]" rest] pre by simp
        from "1.hyps" [of bs rest, OF _ this] show ?thesis using Cons by auto
      qed
      show ?thesis
      proof (cases "keeps ?n1 ?n2")
        case True
        obtain st1 where s1: "dir_step (lab b) ?n1 ?n2 st = Some st1" "effect t2 st [] (dir_differs ?n1 ?n2) st1" using steps_ok(1) [OF n(2-4)] by blast
        note sit1 = situation_same [OF sit effect_same [OF s1(2)]]
        from "1.hyps" [of "kids b" "kids a", OF _ situation_kids [OF sit1 pre]]
        obtain st2 where s2: "gatherDiffs_loop hs wn (lab a) (lab b) (d + 1) (first_lab (kids a)) (first_lab (kids b)) st1 = Some st2"
            "run hs wn (lab b) (d + 1) (kids a) (kids a) (kids b) st1 st2"
          using Cons forest_size_kids [of b] by fastforce
        let ?m = "setMappedNode (lab a) (lab b) st2"
        have sm: "same_st st ?m" using effect_same [OF s1(2)] run_same [OF s2(2)] setMapped_same same_st_trans by blast
        obtain st3 where s3: "sym_step hs wn (lab b) ?n2 ?m = Some st3" "effect t2 ?m [] [] st3" "isSymlink ?n2 hs wn \<longrightarrow> t2 \<in> marked (nodes2 st3)"
          using steps_ok(4) [OF situation_node(2-4) [OF situation_same [OF sit sm]]] by blast
        obtain st' where "gatherDiffs_loop hs wn t1 t2 d (first_lab rest) (first_lab bs) st3 = Some st'" "run hs wn t2 d all rest bs st3 st'"
          using tail [of st3] sm effect_same [OF s3(2)] same_st_trans by blast
        then show ?thesis using u match a n(5) True s1 s2 s3 run.keep [OF p [unfolded match] True s1(2) s2(2) s3(2) _ s3(3)] Cons by auto
      next
        case False
        have "dir_step (lab b) ?n1 ?n2 st = Some st" using False by (auto simp: dir_step_def keeps_def)
        moreover obtain st1 where s1: "change_step hs wn (lab b) ?n1 ?n2 st = Some st1" "effect t2 st [node_id ?n2] [] st1" using steps_ok(3) [OF n(2-4)] by blast
        moreover obtain st2 where s2: "sym_step hs wn (lab b) ?n2 st1 = Some st2" "effect t2 st1 [] [] st2"
          using steps_ok(4) [OF situation_node(2-4) [OF situation_same [OF sit effect_same [OF s1(2)]]]] by blast
        moreover have e: "effect t2 st [node_id ?n2] [] st2" using effect_trans [OF s1(2) s2(2)] by simp
        moreover obtain st' where "gatherDiffs_loop hs wn t1 t2 d (first_lab rest) (first_lab bs) st2 = Some st'" "run hs wn t2 d all rest bs st2 st'"
          using tail [OF effect_same [OF e]] by blast
        ultimately show ?thesis using u match a n(5) False run.change [OF p [unfolded match] False e] Cons by auto
      qed
    qed
  qed
qed

end
