(* ===== verification/Tree_Diff_Correct.thy ===== *)
theory Tree_Diff_Correct
  imports Tree_Run "HOL-Library.Char_ord" "HOL-Library.List_Lexorder" "HOL-Library.Product_Lexorder" "HOL-Library.Option_ord"
begin

text \<open>
  What the comparison of trees reports: nothing that changed is missed, on any two trees; on sorted trees nothing else is reported.
\<close>

subsection \<open>The order of siblings\<close>

text \<open>Files come before directories, and then names decide.\<close>

definition node_key :: "tree_node \<Rightarrow> bool \<times> string option" where
  "node_key n = (node_type n = CHR ''d'', node_name n)"

definition typed :: "tree_node \<Rightarrow> bool" where
  "typed n \<longleftrightarrow> node_type n = CHR ''f'' \<or> node_type n = CHR ''d''"

lemma node_char_less: "(of_char a :: nat) < of_char b \<longleftrightarrow> a < b"
  by (simp add: less_char_def)

lemma strcmp_order: "strcmp a b = 0 \<longleftrightarrow> a = b" "strcmp a b < 0 \<longleftrightarrow> a < b"
  by (induction a b rule: strcmp.induct) (auto simp: node_char_less)

lemma nameCompare_order: "nameCompare n m = 0 \<longleftrightarrow> node_name n = node_name m" "nameCompare n m < 0 \<longleftrightarrow> node_name n < node_name m"
  by (auto simp: nameCompare_def strcmp_order split: option.splits)

lemma nameEquals_iff: "nameEquals n m \<longleftrightarrow> node_name n = node_name m"
  by (auto simp: nameEquals_def strcmp_order split: option.splits)

lemma typeCompare_order:
  assumes "typed n" "typed m"
  shows "typeCompare n m = 0 \<longleftrightarrow> node_key n = node_key m" "typeCompare n m < 0 \<longleftrightarrow> node_key n < node_key m"
  using assms by (auto simp: typeCompare_def typed_def node_key_def nameCompare_order)

lemma node_key_type: "typed n \<Longrightarrow> typed m \<Longrightarrow> node_key n = node_key m \<Longrightarrow> node_type n = node_type m"
  by (auto simp: typed_def node_key_def)

lemma static_attr:
  assumes "static n' = static n"
  shows "node_key n' = node_key n" "typed n' = typed n" "node_id n' = node_id n"
  using same_nodeD [OF assms] by (auto simp: node_key_def typed_def)

lemma static_keeps: "static n' = static n \<Longrightarrow> static m' = static m \<Longrightarrow> keeps n' m' = keeps n m"
proof -
  assume a: "static n' = static n" "static m' = static m"
  have g: "TreeNode_getDataSize n' = TreeNode_getDataSize n" using same_nodeD(1) [OF a(1)] by (simp add: TreeNode_getDataSize_def)
  show ?thesis unfolding keeps_def dataEquals_def g same_nodeD [OF a(1)] same_nodeD [OF a(2)] by (rule refl)
qed

lemma static_data:
  assumes "static n' = static n" "static m' = static m"
  shows "dataEquals n' m' = dataEquals n m" "isSymlink m' hs wn = isSymlink m hs wn"
proof -
  have g: "TreeNode_getDataSize n' = TreeNode_getDataSize n" "TreeNode_getDataSize m' = TreeNode_getDataSize m"
    using same_nodeD(1) [OF assms(1)] same_nodeD(1) [OF assms(2)] by (simp_all add: TreeNode_getDataSize_def)
  show "dataEquals n' m' = dataEquals n m" unfolding dataEquals_def g same_nodeD [OF assms(1)] same_nodeD [OF assms(2)] by (rule refl)
  show "isSymlink m' hs wn = isSymlink m hs wn" unfolding isSymlink_def g same_nodeD [OF assms(2)] by (rule refl)
qed

text \<open>The same data, and not a symbolic link.\<close>

definition same_node :: "bool \<Rightarrow> bool \<Rightarrow> tree_node \<Rightarrow> tree_node \<Rightarrow> bool" where
  "same_node hs wn n1 n2 \<longleftrightarrow> dataEquals n1 n2 \<and> \<not> isSymlink n2 hs wn"

lemma same_keeps: "dataEquals n1 n2 \<Longrightarrow> keeps n1 n2"
  by (simp add: keeps_def)

subsection \<open>Nothing is missed\<close>

text \<open>The labels of a tree are positions of typed nodes.\<close>

fun tree_ok :: "tree_node list \<Rightarrow> tree \<Rightarrow> bool" where
  "tree_ok ns (Node i ts) \<longleftrightarrow> i < length ns \<and> typed (ns ! i) \<and> list_all (tree_ok ns) ts"

lemma tree_okD: "tree_ok ns t \<Longrightarrow> lab t < length ns" "tree_ok ns t \<Longrightarrow> typed (ns ! lab t)" "tree_ok ns t \<Longrightarrow> list_all (tree_ok ns) (kids t)"
  by (cases t; simp)+

lemma tree_ok_same: "same_tree ns ns' \<Longrightarrow> tree_ok ns t \<Longrightarrow> tree_ok ns' t"
proof (induction t)
  case (Node i ts)
  then show ?case using static_attr(2) [OF same_tree_nth [OF Node.prems(1)]] same_tree_length [OF Node.prems(1)] by (auto simp: list_all_iff)
qed

text \<open>A node of the new tree is reported, or the old tree has a node with its type and name that is related to it, and so on below.\<close>

fun covered :: "(tree_node \<Rightarrow> tree_node \<Rightarrow> bool) \<Rightarrow> tree_node list \<Rightarrow> tree_node list \<Rightarrow> nat set \<Rightarrow> tree list \<Rightarrow> tree \<Rightarrow> bool" where
  "covered K A1 A2 D as (Node j bs) \<longleftrightarrow> node_id (A2 ! j) \<in> D \<or>
     (\<exists>a \<in> set as. node_key (A1 ! lab a) = node_key (A2 ! j) \<and> K (A1 ! lab a) (A2 ! j) \<and> (\<forall>b \<in> set bs. covered K A1 A2 D (kids a) b))"

lemma covered_iff: "covered K A1 A2 D as b \<longleftrightarrow> node_id (A2 ! lab b) \<in> D \<or>
     (\<exists>a \<in> set as. node_key (A1 ! lab a) = node_key (A2 ! lab b) \<and> K (A1 ! lab a) (A2 ! lab b) \<and> (\<forall>b' \<in> set (kids b). covered K A1 A2 D (kids a) b'))"
  by (cases b) simp

lemma covered_mono: "covered K A1 A2 D as b \<Longrightarrow> D \<subseteq> D' \<Longrightarrow> set as \<subseteq> set as' \<Longrightarrow> covered K A1 A2 D' as' b"
proof (induction b arbitrary: as as')
  case (Node j bs)
  then show ?case by simp (metis subset_iff order_refl)
qed

lemma run_diffs: "run hs wn t2 d all c1s c2s st st' \<Longrightarrow> set (diffs st) \<subseteq> set (diffs st')"
  by (induction rule: run.induct) (auto simp: effect_def setMappedNode_def)

lemma pick_key:
  assumes "pick d all c1s n2 ns = (0, a # rest)" "list_all (tree_ok ns) all" "typed n2" "all = pre @ c1s"
  shows "node_key (ns ! lab a) = node_key n2" "a \<in> set all"
proof -
  obtain pre' where "all = pre' @ a # rest" using pick_suffix [OF assms(1,4)] by auto
  then show "a \<in> set all" by simp
  then have t: "typed (ns ! lab a)" using assms(2) tree_okD(2) by (auto simp: list_all_iff)
  have "typeCompare (ns ! lab a) n2 = 0 \<or> hit n2 (ns ! lab a)"
    using assms(1) by (auto simp: pick_def Let_def dropWhile_eq_Cons_conv split: if_splits list.splits)
  then show "node_key (ns ! lab a) = node_key n2" using typeCompare_order(1) [OF t assms(3)] by (auto simp: hit_def nameEquals_iff node_key_def)
qed

text \<open>A state whose trees are those of given vectors.\<close>

definition like :: "tree_node list \<Rightarrow> tree_node list \<Rightarrow> diff_state \<Rightarrow> bool" where
  "like B1 B2 st \<longleftrightarrow> same_tree B1 (nodes1 st) \<and> same_tree B2 (nodes2 st)"

lemma like_same: "like B1 B2 st \<Longrightarrow> same_st st st' \<Longrightarrow> like B1 B2 st'"
  using same_tree_trans by (auto simp: like_def same_st_def)

lemma like_node:
  assumes "like B1 B2 st"
  shows "tree_ok B1 a \<Longrightarrow> static (nodes1 st ! lab a) = static (B1 ! lab a)" "tree_ok B2 b \<Longrightarrow> static (nodes2 st ! lab b) = static (B2 ! lab b)"
    "tree_ok B1 a \<Longrightarrow> tree_ok (nodes1 st) a" "tree_ok B2 b \<Longrightarrow> tree_ok (nodes2 st) b"
  using assms same_tree_nth tree_okD(1) tree_ok_same by (auto simp: like_def)

lemma pick_match:
  assumes l: "like B1 B2 st" and p: "pick d all c1s (nodes2 st ! lab b) (nodes1 st) = (0, a # rest)" and
    t: "list_all (tree_ok B1) all" "tree_ok B2 b" and s: "\<exists>pre. all = pre @ c1s"
  shows "node_key (B1 ! lab a) = node_key (B2 ! lab b)" "a \<in> set all" "tree_ok B1 a" "\<exists>pre. all = pre @ rest"
    "keeps (nodes1 st ! lab a) (nodes2 st ! lab b) = keeps (B1 ! lab a) (B2 ! lab b)" "node_id (nodes2 st ! lab b) = node_id (B2 ! lab b)"
proof -
  obtain pre where pre: "all = pre @ c1s" using s by blast
  have o: "list_all (tree_ok (nodes1 st)) all" "tree_ok (nodes2 st) b" using t like_node(3,4) [OF l] by (auto simp: list_all_iff)
  note k = pick_key [OF p o(1) tree_okD(2) [OF o(2)] pre]
  then show a: "a \<in> set all" "tree_ok B1 a" using t by (auto simp: list_all_iff)
  obtain pre' where "all = pre' @ a # rest" using pick_suffix [OF p pre] by blast
  then show "\<exists>pre. all = pre @ rest" by (metis append_Cons append_Nil append_assoc)
  note n = like_node(1) [OF l a(2)] like_node(2) [OF l t(2)]
  show "node_key (B1 ! lab a) = node_key (B2 ! lab b)" "node_id (nodes2 st ! lab b) = node_id (B2 ! lab b)"
    using k(1) static_attr [OF n(1)] static_attr [OF n(2)] by simp_all
  show "keeps (nodes1 st ! lab a) (nodes2 st ! lab b) = keeps (B1 ! lab a) (B2 ! lab b)" using static_keeps [OF n] .
qed

text \<open>The states on the way of an iteration that keeps a node.\<close>

lemma keep_same:
  assumes "effect t2 st [] es st1" "run hs wn j d' as as bs st1 st2" "effect t2 (setMappedNode i j st2) [] [] st3"
  shows "same_st st st1" "same_st st st3" "set (diffs st2) \<subseteq> set (diffs st3)"
proof -
  show "same_st st st1" using effect_same [OF assms(1)] .
  moreover have "same_st st2 st3" using same_st_trans [OF setMapped_same effect_same [OF assms(3)]] .
  ultimately show "same_st st st3" using run_same [OF assms(2)] same_st_trans by blast
  show "set (diffs st2) \<subseteq> set (diffs st3)" using assms(3) by (simp add: effect_def setMappedNode_def)
qed

lemma run_covered:
  assumes "run hs wn t2 d all c1s c2s st st'" "like B1 B2 st" "list_all (tree_ok B1) all" "list_all (tree_ok B2) c2s" "\<exists>pre. all = pre @ c1s"
  shows "\<forall>b \<in> set c2s. covered keeps B1 B2 (set (diffs st')) all b"
  using assms
proof (induction rule: run.induct)
  case (stop t2 d all c1s st)
  then show ?case by simp
next
  case (keep d all c1s st b a rest t2 st1 st2 st3 c2s st')
  have b: "tree_ok B2 b" "list_all (tree_ok B2) c2s" using keep.prems(3) by simp_all
  note m = pick_match [OF keep.prems(1) keep(1) keep.prems(2) b(1) keep.prems(4)]
  note k = keep_same [OF keep(3-5)]
  have "\<forall>b' \<in> set (kids b). covered keeps B1 B2 (set (diffs st2)) (kids a) b'"
    using keep.IH(1) [OF like_same [OF keep.prems(1) k(1)] tree_okD(3) [OF m(3)] tree_okD(3) [OF b(1)]] by simp
  then have "\<forall>b' \<in> set (kids b). covered keeps B1 B2 (set (diffs st')) (kids a) b'" using covered_mono k(3) run_diffs [OF keep(6)] by blast
  then have "covered keeps B1 B2 (set (diffs st')) all b" using m keep(2) covered_iff by blast
  then show ?case using keep.IH(2) [OF like_same [OF keep.prems(1) k(2)] keep.prems(2) b(2) m(4)] by simp
next
  case (change d all c1s st b a rest t2 st1 c2s st')
  have b: "tree_ok B2 b" "list_all (tree_ok B2) c2s" using change.prems(3) by simp_all
  note m = pick_match [OF change.prems(1) change(1) change.prems(2) b(1) change.prems(4)]
  have "node_id (B2 ! lab b) \<in> set (diffs st')" using change(3) run_diffs [OF change(4)] m(6) by (auto simp: effect_def)
  then have "covered keeps B1 B2 (set (diffs st')) all b" using covered_iff by blast
  then show ?case using change.IH [OF like_same [OF change.prems(1) effect_same [OF change(3)]] change.prems(2) b(2) m(4)] by simp
next
  case (skip d all c1s st b cmp a rest t2 st1 c2s st')
  have "\<exists>pre. all = pre @ rest" using pick_skip [OF skip(1)] skip(2) skip.prems(4) by (metis append_Cons append_Nil append_assoc less_irrefl)
  then show ?case using skip.IH [OF like_same [OF skip.prems(1) effect_same [OF skip(3)]] skip.prems(2,3)] by blast
next
  case (fresh d all c1s st b cmp c1s' t2 st1 c2s st')
  have b: "tree_ok B2 b" "list_all (tree_ok B2) c2s" using fresh.prems(3) by simp_all
  have c: "c1s' = c1s" using pick_skip [OF fresh(1)] fresh(2) by simp
  have "node_id (B2 ! lab b) \<in> set (diffs st')"
    using fresh(3) run_diffs [OF fresh(4)] static_attr(3) [OF like_node(2) [OF fresh.prems(1) b(1)]] by (auto simp: effect_def)
  then have "covered keeps B1 B2 (set (diffs st')) all b" using covered_iff by blast
  then show ?case using fresh.IH [OF like_same [OF fresh.prems(1) effect_same [OF fresh(3)]] fresh.prems(2) b(2)] fresh.prems(4) c by simp
qed

subsection \<open>Nothing else is reported\<close>

fun labs :: "tree \<Rightarrow> nat list" where
  "labs (Node i ts) = i # concat (map labs ts)"

abbreviation forest_labs :: "tree list \<Rightarrow> nat list" where
  "forest_labs ts \<equiv> concat (map labs ts)"

lemma labs_eq: "labs t = lab t # forest_labs (kids t)"
  by (cases t) simp

lemma suffix_rest: "all = pre @ a # rest \<Longrightarrow> \<exists>pre. all = pre @ rest"
  by (rule exI [of _ "pre @ [a]"]) simp

lemma run_frame1:
  assumes "run hs wn t2 d all c1s c2s st st'" "\<exists>pre. all = pre @ c1s" "i \<notin> set (forest_labs all)"
  shows "nodes1 st' ! i = nodes1 st ! i"
  using assms
proof (induction rule: run.induct)
  case (keep d all c1s st b a rest t2 st1 st2 st3 c2s st')
  obtain pre where pre: "all = pre @ a # rest" using pick_suffix [OF keep(1)] keep.prems(1) by blast
  then have "i \<notin> set (labs a)" "\<exists>pre. all = pre @ rest" using keep.prems(2) suffix_rest by auto
  then show ?case using keep.IH keep.prems(2) keep(3,5) labs_eq [of a] by (auto simp: effect_def setMappedNode_def)
next
  case (change d all c1s st b a rest t2 st1 c2s st')
  obtain pre where pre: "all = pre @ a # rest" using pick_suffix [OF change(1)] change.prems(1) by blast
  then have "\<exists>pre. all = pre @ rest" by (rule suffix_rest)
  then show ?case using change.IH change.prems(2) change(3) by (auto simp: effect_def)
next
  case (skip d all c1s st b cmp a rest t2 st1 c2s st')
  have "\<exists>pre. all = pre @ rest" using pick_skip [OF skip(1)] skip(2) skip.prems(1) by (metis append_Cons append_Nil append_assoc less_irrefl)
  then show ?case using skip.IH skip.prems(2) skip(3) by (auto simp: effect_def)
next
  case (fresh d all c1s st b cmp c1s' t2 st1 c2s st')
  have "c1s' = c1s" using pick_skip [OF fresh(1)] fresh(2) by simp
  then show ?case using fresh.IH fresh.prems fresh(3) by (auto simp: effect_def)
qed simp

text \<open>The specification: a node is reported when the old siblings have none of its type and name, or one that is not kept.\<close>

definition counterpart :: "tree_node list \<Rightarrow> tree_node \<Rightarrow> tree list \<Rightarrow> tree option" where
  "counterpart B1 n2 as = find (\<lambda>a. node_key (B1 ! lab a) = node_key n2) as"

fun spec_ids :: "tree_node list \<Rightarrow> tree_node list \<Rightarrow> tree list \<Rightarrow> tree \<Rightarrow> nat set" where
  "spec_ids B1 B2 as (Node j bs) =
     (case counterpart B1 (B2 ! j) as of
        Some a \<Rightarrow> if keeps (B1 ! lab a) (B2 ! j) then (\<Union>b \<in> set bs. spec_ids B1 B2 (kids a) b) else {node_id (B2 ! j)}
      | None \<Rightarrow> {node_id (B2 ! j)})"

fun sorted_tree :: "tree_node list \<Rightarrow> tree \<Rightarrow> bool" where
  "sorted_tree B (Node i ts) \<longleftrightarrow> sorted_wrt (<) (map (\<lambda>t. node_key (B ! lab t)) ts) \<and> list_all (sorted_tree B) ts"

lemma sorted_treeD: "sorted_tree B t \<Longrightarrow> sorted_wrt (<) (map (\<lambda>t. node_key (B ! lab t)) (kids t))" "sorted_tree B t \<Longrightarrow> list_all (sorted_tree B) (kids t)"
  by (cases t; simp)+

lemma spec_ids_eq: "spec_ids B1 B2 as b =
     (case counterpart B1 (B2 ! lab b) as of
        Some a \<Rightarrow> if keeps (B1 ! lab a) (B2 ! lab b) then (\<Union>b' \<in> set (kids b). spec_ids B1 B2 (kids a) b') else {node_id (B2 ! lab b)}
      | None \<Rightarrow> {node_id (B2 ! lab b)})"
  by (cases b) (simp split: option.splits)

lemma counterpart_Some:
  assumes "distinct (map (\<lambda>t. node_key (B1 ! lab t)) as)" "a \<in> set as" "node_key (B1 ! lab a) = node_key n2"
  shows "counterpart B1 n2 as = Some a"
proof -
  have "counterpart B1 n2 as \<noteq> None" using assms(2,3) by (auto simp: counterpart_def find_None_iff)
  then obtain x where x: "counterpart B1 n2 as = Some x" by blast
  then have "x \<in> set as" "node_key (B1 ! lab x) = node_key n2" by (auto simp: counterpart_def find_Some_iff)
  then have "x = a" using assms by (metis (no_types, lifting) distinct_map inj_on_eq_iff)
  then show ?thesis using x by simp
qed

lemma counterpart_None: "counterpart B1 n2 as = None \<longleftrightarrow> (\<forall>a \<in> set as. node_key (B1 ! lab a) \<noteq> node_key n2)"
  by (auto simp: counterpart_def find_None_iff)

text \<open>How far a call has come: below the root both lists are sorted and what was passed is smaller than what is to come; at the root names are
  distinct and the nodes that are still looked for are not mapped.\<close>

definition progress :: "tree_node list \<Rightarrow> tree_node list \<Rightarrow> nat \<Rightarrow> tree list \<Rightarrow> tree list \<Rightarrow> tree list \<Rightarrow> diff_state \<Rightarrow> bool" where
  "progress B1 B2 d pre c1s c2s st \<longleftrightarrow>
     (if d = 0 then distinct (map (\<lambda>t. node_key (B1 ! lab t)) (pre @ c1s)) \<and> distinct (map (\<lambda>t. node_key (B2 ! lab t)) c2s) \<and> distinct (forest_labs (pre @ c1s)) \<and>
        (\<forall>a \<in> set (pre @ c1s). \<forall>b \<in> set c2s. node_key (B1 ! lab a) = node_key (B2 ! lab b) \<longrightarrow> mapped_node (nodes1 st ! lab a) = None)
      else sorted_wrt (<) (map (\<lambda>t. node_key (B1 ! lab t)) (pre @ c1s)) \<and> sorted_wrt (<) (map (\<lambda>t. node_key (B2 ! lab t)) c2s) \<and>
        (\<forall>a \<in> set pre. \<forall>b \<in> set c2s. node_key (B1 ! lab a) < node_key (B2 ! lab b)))"

lemma progress_distinct: "progress B1 B2 d pre c1s c2s st \<Longrightarrow> distinct (map (\<lambda>t. node_key (B1 ! lab t)) (pre @ c1s))"
  unfolding progress_def by (metis strict_sorted_iff)

lemma progress_fresh:
  assumes l: "like B1 B2 st" and t: "list_all (tree_ok B1) (pre @ c1s)" "tree_ok B2 b" and g: "progress B1 B2 d pre c1s (b # c2s) st" and
    p: "pick d (pre @ c1s) c1s (nodes2 st ! lab b) (nodes1 st) = (cmp, cs)" and c: "cmp > 0"
  shows "counterpart B1 (B2 ! lab b) (pre @ c1s) = None"
  unfolding counterpart_None
proof
  fix a assume a: "a \<in> set (pre @ c1s)"
  let ?k = "\<lambda>x. node_key (B1 ! lab x)" and ?b = "node_key (B2 ! lab b)"
  have key: "?k x = node_key (nodes1 st ! lab x)" "typed (nodes1 st ! lab x)" if "x \<in> set (pre @ c1s)" for x
    using that t(1) static_attr [OF like_node(1) [OF l]] tree_okD(2) [OF like_node(3) [OF l]] by (auto simp: list_all_iff)
  have kb: "?b = node_key (nodes2 st ! lab b)" "typed (nodes2 st ! lab b)"
    using static_attr [OF like_node(2) [OF l t(2)]] tree_okD(2) [OF like_node(4) [OF l t(2)]] by auto
  show "?k a \<noteq> ?b"
  proof (cases "d = 0")
    case True
    have "\<not> hit (nodes2 st ! lab b) (nodes1 st ! lab a)" using p c True a by (auto simp: pick_def Let_def dropWhile_eq_Nil_conv split: if_splits)
    moreover have "?k a = ?b \<Longrightarrow> mapped_node (nodes1 st ! lab a) = None" using g True a by (auto simp: progress_def)
    moreover have "?k a = ?b \<Longrightarrow> node_type (nodes2 st ! lab b) = node_type (nodes1 st ! lab a)" using node_key_type key [OF a] kb by metis
    ultimately show ?thesis using key(1) [OF a] kb(1) by (auto simp: hit_def nameEquals_iff node_key_def)
  next
    case False
    show ?thesis
    proof (cases "a \<in> set pre")
      case True
      then show ?thesis using g False by (auto simp: progress_def)
    next
      case na: False
      then obtain x r where x: "c1s = x # r" "a \<in> set (x # r)" using a by (cases c1s) auto
      have "\<not> typeCompare (nodes1 st ! lab x) (nodes2 st ! lab b) = 0" "\<not> typeCompare (nodes1 st ! lab x) (nodes2 st ! lab b) < 0"
        using p c False x by (auto simp: pick_def Let_def)
      then have "?b < ?k x" using typeCompare_order [OF key(2) kb(2), of x] key(1) [of x] kb(1) x(1) by auto
      moreover have "?k x \<le> ?k a" using g False x by (auto simp: progress_def sorted_wrt_append less_imp_le)
      ultimately show ?thesis by auto
    qed
  qed
qed

lemma progress_skip:
  assumes l: "like B1 B2 st" and t: "list_all (tree_ok B1) (pre @ a # rest)" "tree_ok B2 b" and g: "progress B1 B2 d pre (a # rest) (b # c2s) st" and
    p: "pick d (pre @ a # rest) (a # rest) (nodes2 st ! lab b) (nodes1 st) = (cmp, cs)" and c: "cmp < 0" and e: "nodes1 st1 = nodes1 st"
  shows "progress B1 B2 d (pre @ [a]) rest (b # c2s) st1"
proof -
  have ta: "tree_ok B1 a" using t(1) by simp
  have "typeCompare (nodes1 st ! lab a) (nodes2 st ! lab b) < 0" using p c by (auto simp: pick_def Let_def split: if_splits)
  then have "node_key (B1 ! lab a) < node_key (B2 ! lab b)"
    using typeCompare_order(2) [OF tree_okD(2) [OF like_node(3) [OF l ta]] tree_okD(2) [OF like_node(4) [OF l t(2)]]]
      static_attr(1) [OF like_node(1) [OF l ta]] static_attr(1) [OF like_node(2) [OF l t(2)]] by simp
  moreover have eq: "(pre @ [a]) @ rest = pre @ a # rest" by simp
  ultimately show ?thesis using g e unfolding progress_def eq by (cases "d = 0") (simp, auto intro: less_trans)
qed

lemma progress_match:
  assumes l: "like B1 B2 st" and t: "list_all (tree_ok B1) (pre @ c1s)" "tree_ok B2 b" and g: "progress B1 B2 d pre c1s (b # c2s) st" and
    p: "pick d (pre @ c1s) c1s (nodes2 st ! lab b) (nodes1 st) = (0, a # rest)" and
    e: "\<And>i. i \<notin> set (labs a) \<Longrightarrow> nodes1 st1 ! i = nodes1 st ! i"
  shows "\<exists>pre'. pre @ c1s = pre' @ rest \<and> progress B1 B2 d pre' rest c2s st1"
proof -
  have k: "node_key (B1 ! lab a) = node_key (B2 ! lab b)" using pick_match(1) [OF l p t] by blast
  obtain q where q: "pre @ c1s = q @ a # rest" using pick_suffix [OF p refl] by blast
  have "progress B1 B2 d (q @ [a]) rest c2s st1"
  proof (cases "d = 0")
    case True
    have m: "mapped_node (nodes1 st1 ! lab x) = None" if "x \<in> set (q @ a # rest)" "y \<in> set c2s" "node_key (B1 ! lab x) = node_key (B2 ! lab y)" for x y
    proof -
      have "x \<noteq> a" using that(2,3) k g True by (force simp: progress_def)
      moreover have "distinct (forest_labs (q @ a # rest))" using g True unfolding progress_def q by simp
      moreover have "lab x \<in> set (labs x)" using labs_eq [of x] by simp
      ultimately have "lab x \<notin> set (labs a)" using that(1) by auto
      then show ?thesis using e g True that q by (auto simp: progress_def)
    qed
    then show ?thesis using g True unfolding progress_def q by simp
  next
    case False
    have c: "c1s = a # rest" "q = pre" using p False q by (auto simp: pick_def Let_def split: if_splits)
    then show ?thesis using g False k by (auto simp: progress_def)
  qed
  then show ?thesis using q by (metis append.assoc append_Cons append_Nil)
qed

lemma progress_kids:
  assumes "sorted_tree B1 a" "sorted_tree B2 b" "0 < d"
  shows "progress B1 B2 d [] (kids a) (kids b) st"
  using sorted_treeD(1) [OF assms(1)] sorted_treeD(1) [OF assms(2)] assms(3) by (simp add: progress_def)

lemma run_exact:
  assumes "run hs wn t2 d all c1s c2s st st'" "like B1 B2 st" "list_all (tree_ok B1) all" "list_all (tree_ok B2) c2s"
    "list_all (sorted_tree B1) all" "list_all (sorted_tree B2) c2s" "\<exists>pre. all = pre @ c1s \<and> progress B1 B2 d pre c1s c2s st"
  shows "set (diffs st') = set (diffs st) \<union> (\<Union>b \<in> set c2s. spec_ids B1 B2 all b)"
  using assms
proof (induction rule: run.induct)
  case (stop t2 d all c1s st)
  then show ?case by simp
next
  case (keep d all c1s st b a rest t2 st1 st2 st3 c2s st')
  obtain pre where pre: "all = pre @ c1s" "progress B1 B2 d pre c1s (b # c2s) st" using keep.prems(6) by blast
  have b: "tree_ok B2 b" "list_all (tree_ok B2) c2s" "sorted_tree B2 b" "list_all (sorted_tree B2) c2s" using keep.prems(3,5) by simp_all
  have m: "node_key (B1 ! lab a) = node_key (B2 ! lab b)" "a \<in> set all" "tree_ok B1 a" "keeps (B1 ! lab a) (B2 ! lab b)"
    using pick_match [OF keep.prems(1) keep(1) keep.prems(2) b(1)] pre(1) keep(2) by blast+
  note k = keep_same [OF keep(3-5)]
  have sa: "sorted_tree B1 a" using keep.prems(4) m(2) by (simp add: list_all_iff)
  have n3: "nodes1 st3 ! i = nodes1 st ! i" if "i \<notin> set (labs a)" for i
    using that run_frame1 [OF keep(4), of i] keep(3,5) labs_eq [of a] by (auto simp: effect_def setMappedNode_def)
  have c: "counterpart B1 (B2 ! lab b) all = Some a" using counterpart_Some [OF progress_distinct [OF pre(2)] _ m(1)] m(2) pre(1) by simp
  have 1: "set (diffs st2) = set (diffs st1) \<union> (\<Union>b' \<in> set (kids b). spec_ids B1 B2 (kids a) b')"
    using keep.IH(1) [OF like_same [OF keep.prems(1) k(1)] tree_okD(3) [OF m(3)] tree_okD(3) [OF b(1)] sorted_treeD(2) [OF sa] sorted_treeD(2) [OF b(3)]]
      progress_kids [OF sa b(3)] by simp
  have "\<exists>pre'. all = pre' @ rest \<and> progress B1 B2 d pre' rest c2s st3"
    using progress_match [OF keep.prems(1) keep.prems(2) [unfolded pre(1)] b(1) pre(2) keep(1) [unfolded pre(1)] n3] pre(1) by simp
  then have 2: "set (diffs st') = set (diffs st3) \<union> (\<Union>b \<in> set c2s. spec_ids B1 B2 all b)"
    using keep.IH(2) [OF like_same [OF keep.prems(1) k(2)] keep.prems(2) b(2) keep.prems(4) b(4)] by blast
  have "set (diffs st3) = set (diffs st2)" "set (diffs st1) = set (diffs st)" using keep(3,5) by (auto simp: effect_def setMappedNode_def)
  then show ?case using 1 2 c m(4) spec_ids_eq [of B1 B2 all b] by auto
next
  case (change d all c1s st b a rest t2 st1 c2s st')
  obtain pre where pre: "all = pre @ c1s" "progress B1 B2 d pre c1s (b # c2s) st" using change.prems(6) by blast
  have b: "tree_ok B2 b" "list_all (tree_ok B2) c2s" "list_all (sorted_tree B2) c2s" using change.prems(3,5) by simp_all
  have m: "node_key (B1 ! lab a) = node_key (B2 ! lab b)" "a \<in> set all" "\<not> keeps (B1 ! lab a) (B2 ! lab b)" "node_id (nodes2 st ! lab b) = node_id (B2 ! lab b)"
    using pick_match [OF change.prems(1) change(1) change.prems(2) b(1)] pre(1) change(2) by blast+
  have c: "counterpart B1 (B2 ! lab b) all = Some a" using counterpart_Some [OF progress_distinct [OF pre(2)] _ m(1)] m(2) pre(1) by simp
  have e: "nodes1 st1 = nodes1 st" "set (diffs st1) = insert (node_id (B2 ! lab b)) (set (diffs st))" using change(3) m(4) by (auto simp: effect_def)
  have "\<exists>pre'. all = pre' @ rest \<and> progress B1 B2 d pre' rest c2s st1"
    using progress_match [OF change.prems(1) change.prems(2) [unfolded pre(1)] b(1) pre(2) change(1) [unfolded pre(1)], of st1] pre(1) e(1) by simp
  then have "set (diffs st') = set (diffs st1) \<union> (\<Union>b \<in> set c2s. spec_ids B1 B2 all b)"
    using change.IH [OF like_same [OF change.prems(1) effect_same [OF change(3)]] change.prems(2) b(2) change.prems(4) b(3)] by blast
  then show ?case using c m(3) e(2) spec_ids_eq [of B1 B2 all b] by auto
next
  case (skip d all c1s st b cmp a rest t2 st1 c2s st')
  obtain pre where pre: "all = pre @ c1s" "progress B1 B2 d pre c1s (b # c2s) st" using skip.prems(6) by blast
  have c: "c1s = a # rest" using pick_skip [OF skip(1)] skip(2) by simp
  have e: "nodes1 st1 = nodes1 st" "diffs st1 = diffs st" using skip(3) by (auto simp: effect_def)
  have "progress B1 B2 d (pre @ [a]) rest (b # c2s) st1"
    by (rule progress_skip [OF skip.prems(1) _ _ _ _ skip(2) e(1)]) (use skip.prems(2,3) pre c skip(1) in auto)
  then have "\<exists>pre. all = pre @ rest \<and> progress B1 B2 d pre rest (b # c2s) st1" using pre(1) c by (intro exI [of _ "pre @ [a]"]) simp
  then show ?case using skip.IH [OF like_same [OF skip.prems(1) effect_same [OF skip(3)]] skip.prems(2-5)] e(2) by simp
next
  case (fresh d all c1s st b cmp c1s' t2 st1 c2s st')
  obtain pre where pre: "all = pre @ c1s" "progress B1 B2 d pre c1s (b # c2s) st" using fresh.prems(6) by blast
  have b: "tree_ok B2 b" "list_all (tree_ok B2) c2s" "list_all (sorted_tree B2) c2s" using fresh.prems(3,5) by simp_all
  have c: "c1s' = c1s" using pick_skip [OF fresh(1)] fresh(2) by simp
  have n: "counterpart B1 (B2 ! lab b) all = None"
    using progress_fresh [OF fresh.prems(1) fresh.prems(2) [unfolded pre(1)] b(1) pre(2) fresh(1) [unfolded pre(1)] fresh(2)] pre(1) by simp
  have e: "nodes1 st1 = nodes1 st" "set (diffs st1) = insert (node_id (B2 ! lab b)) (set (diffs st))"
    using fresh(3) static_attr(3) [OF like_node(2) [OF fresh.prems(1) b(1)]] by (auto simp: effect_def)
  have "progress B1 B2 d pre c1s c2s st1" using pre(2) e(1) unfolding progress_def by (cases "d = 0") simp_all
  then have "set (diffs st') = set (diffs st1) \<union> (\<Union>b \<in> set c2s. spec_ids B1 B2 all b)"
    using fresh.IH [OF like_same [OF fresh.prems(1) effect_same [OF fresh(3)]] fresh.prems(2) b(2) fresh.prems(4) b(3)] pre(1) c by blast
  then show ?case using n e(2) spec_ids_eq [of B1 B2 all b] by auto
qed

subsection \<open>Paths\<close>

text \<open>The node \<open>u\<close> is reached from \<open>t\<close> along types and names, without passing a node with an id in \<open>D\<close>.\<close>

inductive leads :: "tree_node list \<Rightarrow> nat set \<Rightarrow> tree \<Rightarrow> (bool \<times> string option) list \<Rightarrow> tree \<Rightarrow> bool" for B D where
  here: "leads B D t [] t"
| down: "c \<in> set (kids t) \<Longrightarrow> node_id (B ! lab c) \<notin> D \<Longrightarrow> leads B D c p u \<Longrightarrow> leads B D t (node_key (B ! lab c) # p) u"

inductive_simps leads_Nil [simp]: "leads B D t [] u"
inductive_simps leads_Cons: "leads B D t (k # p) u"

lemma covered_leads:
  assumes "leads B2 D t2 p u" "\<forall>b \<in> set (kids t2). covered K B1 B2 D (kids t1) b"
  shows "\<exists>v. leads B1 {} t1 p v \<and> (p \<noteq> [] \<longrightarrow> K (B1 ! lab v) (B2 ! lab u)) \<and> (\<forall>b \<in> set (kids u). covered K B1 B2 D (kids v) b)"
  using assms
proof (induction arbitrary: t1 rule: leads.induct)
  case (here t)
  then show ?case by (auto intro: leads.here)
next
  case (down c t p u)
  have "covered K B1 B2 D (kids t1) c" using down(1) down.prems by blast
  then obtain a where a: "a \<in> set (kids t1)" "node_key (B1 ! lab a) = node_key (B2 ! lab c)" "K (B1 ! lab a) (B2 ! lab c)"
      "\<forall>b \<in> set (kids c). covered K B1 B2 D (kids a) b" using covered_iff down(2) by blast
  from down.IH [OF a(4)] obtain v where v: "leads B1 {} a p v" "p \<noteq> [] \<longrightarrow> K (B1 ! lab v) (B2 ! lab u)" "\<forall>b \<in> set (kids u). covered K B1 B2 D (kids v) b" by blast
  have "K (B1 ! lab v) (B2 ! lab u)"
  proof (cases "p = []")
    case True
    then show ?thesis using v(1) down(3) a(3) by simp
  qed (use v in blast)
  moreover have "leads B1 {} t1 (node_key (B2 ! lab c) # p) v" using leads.down [OF a(1) _ v(1)] a(2) by simp
  ultimately show ?case using v(3) by blast
qed

subsection \<open>Marks and mapped nodes\<close>

lemma effect_marks: "effect t2 st ds es st' \<Longrightarrow> marked (nodes2 st) \<subseteq> marked (nodes2 st')" "effect t2 st ds es st' \<Longrightarrow> up_closed (nodes2 st) \<Longrightarrow> up_closed (nodes2 st')"
  "effect t2 st ds es st' \<Longrightarrow> map mapped_node (nodes2 st') = map mapped_node (nodes2 st)"
  by (auto simp: effect_def marks_more_def)

lemma setMapped_marks [simp]: "marked (nodes2 (setMappedNode i j st)) = marked (nodes2 st)"
proof -
  have "subtree_changed ((ns[j := (ns ! j)\<lparr>mapped_node := m\<rparr>]) ! k) = subtree_changed (ns ! k)" for k m and ns :: "tree_node list"
    by (cases "j < length ns"; cases "k = j") (auto simp: list_update_beyond)
  then show ?thesis by (simp add: marked_def setMappedNode_def)
qed

lemma setMapped_up: "up_closed (nodes2 st) \<Longrightarrow> up_closed (nodes2 (setMappedNode i j st))"
proof -
  have "node_parent ((ns[j := (ns ! j)\<lparr>mapped_node := m\<rparr>]) ! k) = node_parent (ns ! k)" for k m and ns :: "tree_node list"
    by (cases "j < length ns"; cases "k = j") (auto simp: list_update_beyond)
  then show "up_closed (nodes2 st) \<Longrightarrow> up_closed (nodes2 (setMappedNode i j st))" unfolding up_closed_def setMapped_marks by (simp add: setMappedNode_def)
qed

lemma run_marks: "run hs wn t2 d all c1s c2s st st' \<Longrightarrow> marked (nodes2 st) \<subseteq> marked (nodes2 st') \<and> (up_closed (nodes2 st) \<longrightarrow> up_closed (nodes2 st'))"
proof (induction rule: run.induct)
  case (keep d all c1s st b a rest t2 st1 st2 st3 c2s st')
  have "marked (nodes2 st2) \<subseteq> marked (nodes2 st3)" "up_closed (nodes2 st2) \<longrightarrow> up_closed (nodes2 st3)"
    using effect_marks(1,2) [OF keep(5)] setMapped_up [of st2] by auto
  then show ?case using effect_marks(1,2) [OF keep(3)] keep.IH by blast
qed (use effect_marks(1,2) in blast)+

text \<open>Below a node that is not marked nothing was reported, no directory has other data, and there is no symbolic link.\<close>

lemma run_unmarked:
  assumes "run hs wn t2 d all c1s c2s st st'" "like B1 B2 st" "list_all (tree_ok B1) all" "list_all (tree_ok B2) c2s" "\<exists>pre. all = pre @ c1s"
    "rep_forest B2 (Some t2) c2s" "up_closed (nodes2 st)" "t2 \<notin> marked (nodes2 st')"
  shows "\<forall>b \<in> set c2s. covered (same_node hs wn) B1 B2 {} all b"
  using assms
proof (induction rule: run.induct)
  case (stop t2 d all c1s st)
  then show ?case by simp
next
  case (keep d all c1s st b a rest t2 st1 st2 st3 c2s st')
  have b: "tree_ok B2 b" "list_all (tree_ok B2) c2s" "rep_tree B2 (Some t2) (first_lab c2s) b" "rep_forest B2 (Some t2) c2s" using keep.prems(3,5) by simp_all
  note m = pick_match [OF keep.prems(1) keep(1) keep.prems(2) b(1) keep.prems(4)]
  note k = keep_same [OF keep(3-5)]
  have up: "up_closed (nodes2 st1)" "up_closed (nodes2 st2)" "up_closed (nodes2 st3)" "up_closed (nodes2 st')"
    using effect_marks(2) [OF keep(3) keep.prems(6)] run_marks [OF keep(4)] run_marks [OF keep(6)] effect_marks(2) [OF keep(5) setMapped_up] by auto
  have mk: "marked (nodes2 st2) \<subseteq> marked (nodes2 st')" using effect_marks(1) [OF keep(5)] run_marks [OF keep(6)] by auto
  have l': "like B1 B2 st'" using like_same [OF like_same [OF keep.prems(1) k(2)] run_same [OF keep(6)]] .
  have "node_parent (nodes2 st' ! lab b) = Some t2" using same_nodeD(5) [OF like_node(2) [OF l' b(1)]] rep_treeD(2) [OF b(3)] by simp
  then have "lab b \<notin> marked (nodes2 st')" using up(4) keep.prems(7) by (auto simp: up_closed_def)
  then have "\<forall>b' \<in> set (kids b). covered (same_node hs wn) B1 B2 {} (kids a) b'"
    using keep.IH(1) [OF like_same [OF keep.prems(1) k(1)] tree_okD(3) [OF m(3)] tree_okD(3) [OF b(1)] _ rep_treeD(4) [OF b(3)] up(1)] mk by auto
  moreover have "same_node hs wn (B1 ! lab a) (B2 ! lab b)"
  proof -
    have mk3: "marked (nodes2 st1) \<subseteq> marked (nodes2 st')" "marked (nodes2 st3) \<subseteq> marked (nodes2 st')"
      using run_marks [OF keep(4)] run_marks [OF keep(6)] effect_marks(1) [OF keep(5)] by auto
    note n = static_data [OF like_node(1) [OF keep.prems(1) m(3)] like_node(2) [OF keep.prems(1) b(1)]]
    have "t2 \<notin> marked (nodes2 st1)" using mk3(1) keep.prems(7) by blast
    then have "dir_differs (nodes1 st ! lab a) (nodes2 st ! lab b) = []" using keep(3) by (auto simp: effect_def)
    then have "dataEquals (nodes1 st ! lab a) (nodes2 st ! lab b)" using keep(2) by (auto simp: dir_differs_def keeps_def split: if_splits)
    moreover have "\<not> isSymlink (nodes2 st ! lab b) hs wn" using keep(7) mk3(2) keep.prems(7) by blast
    ultimately show ?thesis using n by (simp add: same_node_def)
  qed
  ultimately have "covered (same_node hs wn) B1 B2 {} all b" using m covered_iff by blast
  then show ?case using keep.IH(2) [OF like_same [OF keep.prems(1) k(2)] keep.prems(2) b(2) m(4) b(4) up(3) keep.prems(7)] by simp
next
  case (change d all c1s st b a rest t2 st1 c2s st')
  then show ?case using run_marks [OF change(4)] by (auto simp: effect_def)
next
  case (skip d all c1s st b cmp a rest t2 st1 c2s st')
  have "\<exists>pre. all = pre @ rest" using pick_skip [OF skip(1)] skip(2) skip.prems(4) suffix_rest by (metis less_irrefl)
  then show ?case
    using skip.IH [OF like_same [OF skip.prems(1) effect_same [OF skip(3)]] skip.prems(2,3) _ skip.prems(5) effect_marks(2) [OF skip(3) skip.prems(6)] skip.prems(7)] by blast
next
  case (fresh d all c1s st b cmp c1s' t2 st1 c2s st')
  then show ?case using run_marks [OF fresh(4)] by (auto simp: effect_def)
qed

lemma leads_lab: "leads B D t p u \<Longrightarrow> lab u \<in> set (labs t)"
proof (induction rule: leads.induct)
  case (here t)
  then show ?case using labs_eq [of t] by simp
next
  case (down c t p u)
  then show ?case using labs_eq [of t] by auto
qed

lemma labs_ok: "tree_ok B t \<Longrightarrow> i \<in> set (labs t) \<Longrightarrow> i < length B"
  by (induction t) (auto simp: list_all_iff)

abbreviation mapped2 :: "diff_state \<Rightarrow> nat \<Rightarrow> nat option" where
  "mapped2 st i \<equiv> mapped_node (nodes2 st ! i)"

abbreviation mapped1 :: "diff_state \<Rightarrow> nat \<Rightarrow> nat option" where
  "mapped1 st i \<equiv> mapped_node (nodes1 st ! i)"

lemma effect_map2: "effect t2 st ds es st' \<Longrightarrow> i < length (nodes2 st) \<Longrightarrow> mapped2 st' i = mapped2 st i"
  using effect_marks(3) [of t2 st ds es st'] by (metis length_map nth_map)

lemma setMapped_map2: "i \<noteq> j \<Longrightarrow> mapped2 (setMappedNode k j st) i = mapped2 st i"
  by (simp add: setMappedNode_def)

lemma same_length2: "same_st st st' \<Longrightarrow> length (nodes2 st') = length (nodes2 st)"
  using same_tree_length by (simp add: same_st_def)

lemma run_frame2:
  assumes "run hs wn t2 d all c1s c2s st st'" "i \<notin> set (forest_labs c2s)" "i < length (nodes2 st)"
  shows "mapped2 st' i = mapped2 st i"
  using assms
proof (induction rule: run.induct)
  case (keep d all c1s st b a rest t2 st1 st2 st3 c2s st')
  note k = keep_same [OF keep(3-5)]
  have l: "length (nodes2 st1) = length (nodes2 st)" "length (nodes2 st2) = length (nodes2 st)" "length (nodes2 st3) = length (nodes2 st)"
    using same_length2 k(1,2) run_same [OF keep(4)] by auto
  have i: "i \<noteq> lab b" "i \<notin> set (forest_labs (kids b))" "i \<notin> set (forest_labs c2s)" using keep.prems(1) labs_eq [of b] by auto
  have "mapped2 st3 i = mapped2 st2 i" using effect_map2 [OF keep(5), of i] setMapped_map2 [OF i(1)] l keep.prems(2) by (simp add: setMappedNode_def)
  then show ?case using keep.IH i l keep.prems(2) effect_map2 [OF keep(3)] by simp
next
  case (change d all c1s st b a rest t2 st1 c2s st')
  then show ?case using effect_map2 [OF change(3)] same_length2 [OF effect_same [OF change(3)]] by simp
next
  case (skip d all c1s st b cmp a rest t2 st1 c2s st')
  then show ?case using effect_map2 [OF skip(3)] same_length2 [OF effect_same [OF skip(3)]] by simp
next
  case (fresh d all c1s st b cmp c1s' t2 st1 c2s st')
  then show ?case using effect_map2 [OF fresh(3)] same_length2 [OF effect_same [OF fresh(3)]] by simp
qed simp

text \<open>The nodes of the new tree that are to be compared are not mapped yet.\<close>

definition unmapped2 :: "tree list \<Rightarrow> diff_state \<Rightarrow> bool" where
  "unmapped2 ts st \<longleftrightarrow> distinct (forest_labs ts) \<and> (\<forall>i \<in> set (forest_labs ts). i < length (nodes2 st) \<and> mapped2 st i = None)"

lemma unmapped2_effect: "effect t2 st ds es st' \<Longrightarrow> unmapped2 ts st \<Longrightarrow> unmapped2 ts st'"
  unfolding unmapped2_def using effect_map2 same_length2 [OF effect_same] by metis

lemma unmapped2_Cons:
  "unmapped2 (t # ts) st \<Longrightarrow> unmapped2 ts st" "unmapped2 (t # ts) st \<Longrightarrow> unmapped2 (kids t) st" "unmapped2 (t # ts) st \<Longrightarrow> lab t \<notin> set (forest_labs (kids t))"
  "unmapped2 (t # ts) st \<Longrightarrow> i \<in> set (labs t) \<Longrightarrow> i \<notin> set (forest_labs ts)"
  using labs_eq [of t] by (auto simp: unmapped2_def)

lemma unmapped2_keep:
  assumes u: "unmapped2 (b # c2s) st" and "effect t2 st [] es st1" "run hs wn (lab b) d' as as (kids b) st1 st2" "effect t2 (setMappedNode i (lab b) st2) [] [] st3"
  shows "unmapped2 c2s st3" "\<And>i. i \<in> set (labs b) \<Longrightarrow> i \<noteq> lab b \<Longrightarrow> mapped2 st3 i = mapped2 st2 i"
proof -
  note k = keep_same [OF assms(2-4)]
  have l: "length (nodes2 st1) = length (nodes2 st)" "length (nodes2 st2) = length (nodes2 st)" "length (nodes2 st3) = length (nodes2 st)"
    using same_length2 k(1,2) run_same [OF assms(3)] by auto
  have 3: "mapped2 st3 i = mapped2 st2 i" if "i \<noteq> lab b" "i < length (nodes2 st)" for i
    using effect_map2 [OF assms(4), of i] setMapped_map2 [OF that(1)] l that by (simp add: setMappedNode_def)
  have lb: "i < length (nodes2 st)" if "i \<in> set (forest_labs (b # c2s))" for i using u that by (auto simp: unmapped2_def)
  then show "mapped2 st3 i = mapped2 st2 i" if "i \<in> set (labs b)" "i \<noteq> lab b" for i using 3 that by simp
  show "unmapped2 c2s st3" unfolding unmapped2_def
  proof (intro conjI ballI)
    show "distinct (forest_labs c2s)" using u by (simp add: unmapped2_def)
    fix i assume i: "i \<in> set (forest_labs c2s)"
    then have n: "i \<notin> set (labs b)" using unmapped2_Cons(4) [OF u] by blast
    have il: "i < length (nodes2 st)" using lb i by simp
    then show "i < length (nodes2 st3)" using l by simp
    have "mapped2 st2 i = mapped2 st1 i" using run_frame2 [OF assms(3)] n labs_eq [of b] il l by auto
    then show "mapped2 st3 i = None" using 3 [of i] n labs_eq [of b] il effect_map2 [OF assms(2) il] u i by (auto simp: unmapped2_def)
  qed
qed

lemma run_dir_diffs: "run hs wn t2 d all c1s c2s st st' \<Longrightarrow> set (dir_diffs st) \<subseteq> set (dir_diffs st')"
  by (induction rule: run.induct) (auto simp: effect_def setMappedNode_def)

text \<open>A mapped node of the new tree that is not marked: it is in the old tree, with the same data or reported as a directory with other data, and everything
  below it is there with the same data, and is not a symbolic link.\<close>

lemma run_large:
  assumes "run hs wn t2 d all c1s c2s st st'" "like B1 B2 st" "list_all (tree_ok B1) all" "list_all (tree_ok B2) c2s" "\<exists>pre. all = pre @ c1s"
    "rep_forest B2 (Some t2) c2s" "up_closed (nodes2 st)" "unmapped2 c2s st"
    "b0 \<in> set c2s" "leads B2 {} b0 p u" "mapped2 st' (lab u) \<noteq> None" "lab u \<notin> marked (nodes2 st')"
  shows "\<exists>a v. a \<in> set all \<and> node_key (B1 ! lab a) = node_key (B2 ! lab b0) \<and> leads B1 {} a p v \<and> keeps (B1 ! lab v) (B2 ! lab u) \<and>
    (dataEquals (B1 ! lab v) (B2 ! lab u) \<or> node_id (B2 ! lab u) \<in> set (dir_diffs st')) \<and>
    (\<forall>b \<in> set (kids u). covered (same_node hs wn) B1 B2 {} (kids v) b)"
  using assms
proof (induction arbitrary: b0 p rule: run.induct)
  case (stop t2 d all c1s st)
  then show ?case by simp
next
  case (keep d all c1s st b a rest t2 st1 st2 st3 c2s st')
  have b: "tree_ok B2 b" "list_all (tree_ok B2) c2s" "rep_tree B2 (Some t2) (first_lab c2s) b" "rep_forest B2 (Some t2) c2s" using keep.prems(3,5) by simp_all
  note m = pick_match [OF keep.prems(1) keep(1) keep.prems(2) b(1) keep.prems(4)]
  note k = keep_same [OF keep(3-5)]
  note uk = unmapped2_keep [OF keep.prems(7) keep(3-5)]
  have up: "up_closed (nodes2 st1)" "up_closed (nodes2 st3)"
    using effect_marks(2) [OF keep(3) keep.prems(6)] run_marks [OF keep(4)] effect_marks(2) [OF keep(5) setMapped_up] by auto
  have mk: "marked (nodes2 st2) \<subseteq> marked (nodes2 st')" using effect_marks(1) [OF keep(5)] run_marks [OF keep(6)] by auto
  have l1: "like B1 B2 st1" "like B1 B2 st3" using like_same [OF keep.prems(1)] k by blast+
  show ?case
  proof (cases "b0 \<in> set c2s")
    case True
    then show ?thesis using keep.IH(2) [OF l1(2) keep.prems(2) b(2) m(4) b(4) up(2) uk(1) True] keep.prems(9-11) by blast
  next
    case False
    then have b0: "b0 = b" using keep.prems(8) by simp
    show ?thesis
    proof (cases p)
      case Nil
      then have "u = b" using keep.prems(9) b0 by simp
      then have "\<forall>b' \<in> set (kids u). covered (same_node hs wn) B1 B2 {} (kids a) b'"
        using run_unmarked [OF keep(4) l1(1) tree_okD(3) [OF m(3)] tree_okD(3) [OF b(1)] _ rep_treeD(4) [OF b(3)] up(1)] mk keep.prems(11) by auto
      moreover have "dataEquals (B1 ! lab a) (B2 ! lab b) \<or> node_id (B2 ! lab b) \<in> set (dir_diffs st')"
      proof -
        note n = static_data(1) [OF like_node(1) [OF keep.prems(1) m(3)] like_node(2) [OF keep.prems(1) b(1)]]
        have "set (dir_diffs st1) \<subseteq> set (dir_diffs st')" using run_dir_diffs [OF keep(4)] run_dir_diffs [OF keep(6)] keep(5) by (auto simp: effect_def setMappedNode_def)
        moreover have "dataEquals (nodes1 st ! lab a) (nodes2 st ! lab b) \<or> node_id (nodes2 st ! lab b) \<in> set (dir_diffs st1)"
          using keep(2,3) by (auto simp: effect_def dir_differs_def keeps_def)
        ultimately show ?thesis using n m(6) by auto
      qed
      ultimately show ?thesis using m keep(2) \<open>u = b\<close> b0 Nil leads.here by blast
    next
      case (Cons q p')
      then obtain c where c: "c \<in> set (kids b)" "q = node_key (B2 ! lab c)" "leads B2 {} c p' u" using keep.prems(9) b0 by (auto simp: leads_Cons)
      have lu: "lab u \<in> set (labs b)" "lab u \<noteq> lab b" using leads_lab [OF c(3)] c(1) labs_eq [of b] unmapped2_Cons(3) [OF keep.prems(7)] by auto
      have "lab u < length (nodes2 st3)" using keep.prems(7) lu(1) same_length2 [OF k(2)] by (auto simp: unmapped2_def)
      then have "mapped2 st' (lab u) = mapped2 st2 (lab u)" using run_frame2 [OF keep(6)] unmapped2_Cons(4) [OF keep.prems(7) lu(1)] uk(2) [OF lu] by simp
      moreover have "unmapped2 (kids b) st1" using unmapped2_effect [OF keep(3) unmapped2_Cons(2) [OF keep.prems(7)]] .
      ultimately obtain a' v where "a' \<in> set (kids a)" "node_key (B1 ! lab a') = q" "leads B1 {} a' p' v" "keeps (B1 ! lab v) (B2 ! lab u)"
          "dataEquals (B1 ! lab v) (B2 ! lab u) \<or> node_id (B2 ! lab u) \<in> set (dir_diffs st2)" "\<forall>b \<in> set (kids u). covered (same_node hs wn) B1 B2 {} (kids v) b"
        using keep.IH(1) [OF l1(1) tree_okD(3) [OF m(3)] tree_okD(3) [OF b(1)] _ rep_treeD(4) [OF b(3)] up(1) _ c(1,3)] mk keep.prems(10,11) c(2) by auto
      moreover have "set (dir_diffs st2) \<subseteq> set (dir_diffs st')" using run_dir_diffs [OF keep(6)] keep(5) by (auto simp: effect_def setMappedNode_def)
      ultimately show ?thesis using m(1,2) b0 Cons leads.down [of a' a B1 "{}" p' v] by auto
    qed
  qed
next
  case (change d all c1s st b a rest t2 st1 c2s st')
  have b: "tree_ok B2 b" "list_all (tree_ok B2) c2s" "rep_forest B2 (Some t2) c2s" using change.prems(3,5) by simp_all
  have u1: "unmapped2 (b # c2s) st1" using unmapped2_effect [OF change(3) change.prems(7)] .
  have "b0 \<in> set c2s"
  proof (rule ccontr)
    assume "b0 \<notin> set c2s"
    then have "lab u \<in> set (labs b)" using change.prems(8,9) leads_lab by auto
    then show False using run_frame2 [OF change(4)] unmapped2_Cons(4) [OF u1] u1 change.prems(10) by (auto simp: unmapped2_def)
  qed
  then show ?case
    using change.IH [OF like_same [OF change.prems(1) effect_same [OF change(3)]] change.prems(2) b(2) _ b(3) effect_marks(2) [OF change(3) change.prems(6)]
        unmapped2_Cons(1) [OF u1]] pick_match(4) [OF change.prems(1) change(1) change.prems(2) b(1) change.prems(4)] change.prems(9-11) by blast
next
  case (skip d all c1s st b cmp a rest t2 st1 c2s st')
  have "\<exists>pre. all = pre @ rest" using pick_skip [OF skip(1)] skip(2) skip.prems(4) suffix_rest by (metis less_irrefl)
  then show ?case
    using skip.IH [OF like_same [OF skip.prems(1) effect_same [OF skip(3)]] skip.prems(2,3) _ skip.prems(5) effect_marks(2) [OF skip(3) skip.prems(6)]
        unmapped2_effect [OF skip(3) skip.prems(7)]] skip.prems(8-11) by blast
next
  case (fresh d all c1s st b cmp c1s' t2 st1 c2s st')
  have b: "list_all (tree_ok B2) c2s" "rep_forest B2 (Some t2) c2s" "c1s' = c1s" using fresh.prems(3,5) pick_skip [OF fresh(1)] fresh(2) by simp_all
  have u1: "unmapped2 (b # c2s) st1" using unmapped2_effect [OF fresh(3) fresh.prems(7)] .
  have "b0 \<in> set c2s"
  proof (rule ccontr)
    assume "b0 \<notin> set c2s"
    then have "lab u \<in> set (labs b)" using fresh.prems(8,9) leads_lab by auto
    then show False using run_frame2 [OF fresh(4)] unmapped2_Cons(4) [OF u1] u1 fresh.prems(10) by (auto simp: unmapped2_def)
  qed
  then show ?case
    using fresh.IH [OF like_same [OF fresh.prems(1) effect_same [OF fresh(3)]] fresh.prems(2) b(1) _ b(2) effect_marks(2) [OF fresh(3) fresh.prems(6)]
        unmapped2_Cons(1) [OF u1]] fresh.prems(4,9-11) b(3) by blast
qed

text \<open>A node of the old tree that a call maps is in the new tree, unchanged.\<close>

lemma distinct_forest:
  assumes "distinct (forest_labs ts)" "a \<in> set ts" "b \<in> set ts" "i \<in> set (labs a)" "i \<in> set (labs b)"
  shows "a = b"
  using assms by (induction ts) auto

lemma distinct_kids:
  assumes "distinct (forest_labs ts)" "a \<in> set ts"
  shows "distinct (forest_labs (kids a))" "lab a \<notin> set (forest_labs (kids a))"
proof -
  have "distinct (labs a)" using assms by (induction ts) auto
  then show "distinct (forest_labs (kids a))" "lab a \<notin> set (forest_labs (kids a))" using labs_eq [of a] by simp_all
qed

lemma run_mapped:
  assumes "run hs wn t2 d all c1s c2s st st'" "like B1 B2 st" "list_all (tree_ok B1) all" "list_all (tree_ok B2) c2s" "\<exists>pre. all = pre @ c1s"
    "distinct (forest_labs all)" "a0 \<in> set all" "leads B1 {} a0 p v" "mapped1 st' (lab v) \<noteq> mapped1 st (lab v)"
  shows "\<exists>b u. b \<in> set c2s \<and> node_key (B2 ! lab b) = node_key (B1 ! lab a0) \<and> leads B2 {} b p u \<and> keeps (B1 ! lab v) (B2 ! lab u)"
  using assms
proof (induction arbitrary: a0 p rule: run.induct)
  case (stop t2 d all c1s st)
  then show ?case by simp
next
  case (keep d all c1s st b a rest t2 st1 st2 st3 c2s st')
  have b: "tree_ok B2 b" "list_all (tree_ok B2) c2s" using keep.prems(3) by simp_all
  note m = pick_match [OF keep.prems(1) keep(1) keep.prems(2) b(1) keep.prems(4)]
  note k = keep_same [OF keep(3-5)]
  have l1: "like B1 B2 st1" "like B1 B2 st3" using like_same [OF keep.prems(1)] k by blast+
  show ?case
  proof (cases "mapped1 st' (lab v) = mapped1 st3 (lab v)")
    case False
    then show ?thesis using keep.IH(2) [OF l1(2) keep.prems(2) b(2) m(4) keep.prems(5,6,7)] by auto
  next
    case True
    have n1: "nodes1 st1 = nodes1 st" "nodes1 st3 = nodes1 (setMappedNode (lab a) (lab b) st2)" using keep(3,5) by (simp_all add: effect_def)
    have c: "lab v = lab a \<or> mapped1 st2 (lab v) \<noteq> mapped1 st1 (lab v)" using True keep.prems(8) n1 by (auto simp: setMappedNode_def)
    have kid: "mapped1 st2 (lab v) \<noteq> mapped1 st1 (lab v) \<Longrightarrow> lab v \<in> set (forest_labs (kids a))" using run_frame1 [OF keep(4), of "lab v"] by (metis append_Nil)
    have va: "lab v \<in> set (labs a)" using c kid labs_eq [of a] by auto
    have a0: "a0 = a" using distinct_forest [OF keep.prems(5,6) m(2) leads_lab [OF keep.prems(7)] va] .
    note da = distinct_kids [OF keep.prems(5) m(2)]
    show ?thesis
    proof (cases p)
      case Nil
      then have "v = a" using keep.prems(7) a0 by simp
      then show ?thesis using m(1,5) keep(2) a0 Nil leads.here [of B2 "{}" b] by auto
    next
      case (Cons q p')
      then obtain x where x: "x \<in> set (kids a)" "q = node_key (B1 ! lab x)" "leads B1 {} x p' v" using keep.prems(7) a0 by (auto simp: leads_Cons)
      have "lab v \<noteq> lab a" using leads_lab [OF x(3)] x(1) da(2) by auto
      then have "mapped1 st2 (lab v) \<noteq> mapped1 st1 (lab v)" using c by simp
      from keep.IH(1) [OF l1(1) tree_okD(3) [OF m(3)] tree_okD(3) [OF b(1)] _ da(1) x(1,3) this]
      obtain b' u where "b' \<in> set (kids b)" "node_key (B2 ! lab b') = q" "leads B2 {} b' p' u" "keeps (B1 ! lab v) (B2 ! lab u)" using x(2) by auto
      then show ?thesis using m(1) a0 Cons leads.down [of b' b B2 "{}" p' u] by auto
    qed
  qed
next
  case (change d all c1s st b a rest t2 st1 c2s st')
  have b: "tree_ok B2 b" "list_all (tree_ok B2) c2s" using change.prems(3) by simp_all
  have "nodes1 st1 = nodes1 st" using change(3) by (simp add: effect_def)
  then show ?case
    using change.IH [OF like_same [OF change.prems(1) effect_same [OF change(3)]] change.prems(2) b(2) _ change.prems(5-7)]
      pick_match(4) [OF change.prems(1) change(1) change.prems(2) b(1) change.prems(4)] change.prems(8) by auto
next
  case (skip d all c1s st b cmp a rest t2 st1 c2s st')
  have "\<exists>pre. all = pre @ rest" using pick_skip [OF skip(1)] skip(2) skip.prems(4) suffix_rest by (metis less_irrefl)
  moreover have "nodes1 st1 = nodes1 st" using skip(3) by (simp add: effect_def)
  ultimately show ?case using skip.IH [OF like_same [OF skip.prems(1) effect_same [OF skip(3)]] skip.prems(2,3) _ skip.prems(5-7)] skip.prems(8) by auto
next
  case (fresh d all c1s st b cmp c1s' t2 st1 c2s st')
  have b: "list_all (tree_ok B2) c2s" "c1s' = c1s" using fresh.prems(3) pick_skip [OF fresh(1)] fresh(2) by simp_all
  have "nodes1 st1 = nodes1 st" using fresh(3) by (simp add: effect_def)
  then show ?case using fresh.IH [OF like_same [OF fresh.prems(1) effect_same [OF fresh(3)]] fresh.prems(2) b(1) _ fresh.prems(5-7)] fresh.prems(4,8) b(2) by auto
qed

subsection \<open>Deleted nodes and large subtrees\<close>

fun preorder :: "tree \<Rightarrow> tree list" where
  "preorder (Node i ts) = Node i ts # concat (map preorder ts)"

lemma preorder_eq: "preorder t = t # concat (map preorder (kids t))"
  by (cases t) simp

lemma gatherDeletes_eq:
  "rep_tree ns par nxt t \<Longrightarrow> \<exists>ds'. gatherDeletes_loop ns (first_lab (kids t)) ds0 = Some ds' \<and> ds' = ds0 @ map (\<lambda>u. node_id (ns ! lab u)) (filter (\<lambda>u. mapped_node (ns ! lab u) = None) (concat (map preorder (kids t))))"
  "rep_forest ns par ts \<Longrightarrow> gatherDeletes_loop ns (first_lab ts) ds = Some (ds @ map (\<lambda>u. node_id (ns ! lab u)) (filter (\<lambda>u. mapped_node (ns ! lab u) = None) (concat (map preorder ts))))"
proof (induction ns par nxt t and ns par ts arbitrary: ds0 and ds rule: rep_tree_rep_forest.induct)
  case (1 ns par nxt i ts)
  then show ?case by simp
next
  case (2 ns par)
  then show ?case by (simp add: gatherDeletes_loop.simps)
next
  case (3 ns par t ts)
  then have t: "rep_tree ns par (first_lab ts) t" "rep_forest ns par ts" by simp_all
  show ?case using rep_treeD [OF t(1)] "3.IH"(1) [OF t(1)] "3.IH"(2) [OF t(2)] preorder_eq [of t]
    by (subst gatherDeletes_loop.simps) (auto simp: rd_eq_Some)
qed

fun tree_size :: "tree \<Rightarrow> nat" where
  "tree_size (Node i ts) = 1 + sum_list (map tree_size ts)"

lemma tree_size_eq: "tree_size t = 1 + sum_list (map tree_size (kids t))"
  by (cases t) simp

text \<open>The size is right up to the limit, and above it exactly when the tree is larger.\<close>

lemma getTreesize_eq:
  "rep_tree ns par nxt t \<Longrightarrow> \<exists>v. getTreesize_loop ns limit (first_lab (kids t)) 1 = Some v \<and> (v = tree_size t \<or> v > limit \<and> tree_size t > limit)"
  "rep_forest ns par ts \<Longrightarrow> \<exists>v. getTreesize_loop ns limit (first_lab ts) s = Some v \<and>
     (v = s + sum_list (map tree_size ts) \<or> v > limit \<and> s + sum_list (map tree_size ts) > limit)"
proof (induction ns par nxt t and ns par ts arbitrary: and s rule: rep_tree_rep_forest.induct)
  case (1 ns par nxt i ts)
  then have "rep_forest ns (Some i) ts" by simp
  from "1.IH" [OF this, of 1] show ?case by simp
next
  case (2 ns par)
  then show ?case by (simp add: getTreesize_loop.simps)
next
  case (3 ns par t ts)
  then have t: "rep_tree ns par (first_lab ts) t" "rep_forest ns par ts" by simp_all
  obtain v where v: "getTreesize_loop ns limit (first_lab (kids t)) 1 = Some v" "v = tree_size t \<or> v > limit \<and> tree_size t > limit"
    using "3.IH"(1) [OF t(1)] by blast
  obtain x where x: "getTreesize_loop ns limit (first_lab ts) (s + v) = Some x"
      "x = s + v + sum_list (map tree_size ts) \<or> x > limit \<and> s + v + sum_list (map tree_size ts) > limit"
    using "3.IH"(2) [OF t(2), of "s + v"] by blast
  have r: "getTreesize_loop ns limit (Some (lab t)) s = (if s + v > limit then Some (s + v) else Some x)"
    using rep_treeD [OF t(1)] v(1) x(1) by (subst getTreesize_loop.simps) (simp add: rd_eq_Some)
  show ?case using r x(2) v(2) by (auto split: if_splits)
qed

lemma getTreesize_large:
  assumes "rep_tree ns par nxt t"
  shows "\<exists>v. getTreesize ns (lab t) limit = Some v \<and> (v > limit \<longleftrightarrow> tree_size t > limit)"
  using getTreesize_eq(1) [OF assms, of limit] rep_treeD [OF assms] by (auto simp: getTreesize_def rd_eq_Some)

lemma gatherLarge_eq:
  "rep_tree ns par nxt t \<Longrightarrow> \<exists>xs. gatherLarge_loop ns (first_lab (kids t)) ls0 = Some (ls0 @ xs) \<and>
     (\<forall>x \<in> set xs. \<exists>u \<in> set (concat (map preorder (kids t))). x = node_id (ns ! lab u) \<and> \<not> subtree_changed (ns ! lab u) \<and> mapped_node (ns ! lab u) \<noteq> None \<and> tree_size u > 10)"
  "rep_forest ns par ts \<Longrightarrow> \<exists>xs. gatherLarge_loop ns (first_lab ts) ls = Some (ls @ xs) \<and>
     (\<forall>x \<in> set xs. \<exists>u \<in> set (concat (map preorder ts)). x = node_id (ns ! lab u) \<and> \<not> subtree_changed (ns ! lab u) \<and> mapped_node (ns ! lab u) \<noteq> None \<and> tree_size u > 10)"
proof (induction ns par nxt t and ns par ts arbitrary: ls0 and ls rule: rep_tree_rep_forest.induct)
  case (1 ns par nxt i ts)
  then show ?case by simp
next
  case (2 ns par)
  then show ?case by (simp add: gatherLarge_loop.simps)
next
  case (3 ns par t ts)
  then have t: "rep_tree ns par (first_lab ts) t" "rep_forest ns par ts" by simp_all
  note d = rep_treeD [OF t(1)] preorder_eq [of t]
  let ?n = "ns ! lab t" and ?P = "\<lambda>x u. x = node_id (ns ! lab u) \<and> \<not> subtree_changed (ns ! lab u) \<and> mapped_node (ns ! lab u) \<noteq> None \<and> tree_size u > 10"
  obtain v where v: "getTreesize ns (lab t) 10 = Some v" "v > 10 \<longleftrightarrow> tree_size t > 10" using getTreesize_large [OF t(1)] by blast
  let ?s = "if \<not> subtree_changed ?n \<and> mapped_node ?n \<noteq> None then v else 0"
  obtain xs where xs: "(if ?s > 10 then Some (ls @ [node_id ?n]) else gatherLarge_loop ns (first_lab (kids t)) ls) = Some (ls @ xs)"
      "\<forall>x \<in> set xs. \<exists>u \<in> set (preorder t). ?P x u"
  proof (cases "?s > 10")
    case True
    then show ?thesis using v(2) d(6) that [of "[node_id ?n]"] by (auto split: if_splits)
  next
    case False
    then show ?thesis using "3.IH"(1) [OF t(1), of ls] d(6) that by auto
  qed
  obtain ys where ys: "gatherLarge_loop ns (first_lab ts) (ls @ xs) = Some ((ls @ xs) @ ys)" "\<forall>x \<in> set ys. \<exists>u \<in> set (concat (map preorder ts)). ?P x u"
    using "3.IH"(2) [OF t(2), of "ls @ xs"] by auto
  have "gatherLarge_loop ns (Some (lab t)) ls = Some (ls @ xs @ ys)"
    using d(1,3,5) v(1) xs(1) ys(1) by (subst gatherLarge_loop.simps) (auto simp: rd_eq_Some split: if_splits)
  moreover have "\<forall>x \<in> set (xs @ ys). \<exists>u \<in> set (concat (map preorder (t # ts))). ?P x u"
  proof
    fix x assume "x \<in> set (xs @ ys)"
    then obtain u where "u \<in> set (preorder t) \<or> u \<in> set (concat (map preorder ts))" "?P x u" using xs(2) ys(2) unfolding set_append by blast
    then show "\<exists>u \<in> set (concat (map preorder (t # ts))). ?P x u" by (intro bexI [of _ u]) auto
  qed
  ultimately show ?case unfolding first_lab_simps by blast
qed

lemma preorder_leads: "u \<in> set (preorder t) \<Longrightarrow> \<exists>p. leads B {} t p u"
proof (induction t)
  case (Node i ts)
  show ?case
  proof (cases "u = Node i ts")
    case True
    then show ?thesis using leads.here by blast
  next
    case False
    then obtain c where "c \<in> set ts" "u \<in> set (preorder c)" using Node.prems by auto
    then obtain p where "leads B {} c p u" using Node.IH by blast
    then show ?thesis using leads.down [of c "Node i ts" B "{}" p u] \<open>c \<in> set ts\<close> by auto
  qed
qed

lemma leads_preorder: "leads B D t p u \<Longrightarrow> u \<in> set (preorder t)"
proof (induction rule: leads.induct)
  case (here t)
  then show ?case using preorder_eq [of t] by simp
next
  case (down c t p u)
  then show ?case using preorder_eq [of t] by auto
qed

lemma preorder_ok: "list_all (tree_ok ns) ts \<Longrightarrow> u \<in> set (concat (map preorder ts)) \<Longrightarrow> tree_ok ns u"
proof -
  have "tree_ok ns t \<Longrightarrow> u \<in> set (preorder t) \<Longrightarrow> tree_ok ns u" for t by (induction t) (auto simp: list_all_iff)
  then show "list_all (tree_ok ns) ts \<Longrightarrow> u \<in> set (concat (map preorder ts)) \<Longrightarrow> tree_ok ns u" by (auto simp: list_all_iff)
qed

subsection \<open>The comparison of two trees\<close>

text \<open>A vector that holds a tree, as it is after reading.\<close>

definition tree_vector :: "tree_node list \<Rightarrow> tree \<Rightarrow> bool" where
  "tree_vector ns T \<longleftrightarrow> lab T = 0 \<and> rep_tree ns None None T \<and> parents_ok ns \<and> list_all (tree_ok ns) (kids T) \<and> distinct (labs T) \<and>
     list_all (\<lambda>n. mapped_node n = None \<and> \<not> subtree_changed n) ns"

definition start_state :: "bool \<Rightarrow> bool \<Rightarrow> tree_node list \<Rightarrow> tree_node list \<Rightarrow> diff_state" where
  "start_state want_modified want_deleted_inplace ns1 ns2 = \<lparr>nodes1 = ns1, nodes2 = ns2, diffs = [], dir_diffs = [],
     modified_inplace_ids = if want_modified then Some [] else None, deleted_inplace_ids = if want_deleted_inplace then Some [] else None\<rparr>"

lemma start_simps [simp]: "nodes1 (start_state m d ns1 ns2) = ns1" "nodes2 (start_state m d ns1 ns2) = ns2" "diffs (start_state m d ns1 ns2) = []"
  by (simp_all add: start_state_def)

lemma start_ok:
  assumes "tree_vector ns1 T1" "tree_vector ns2 T2"
  shows "situation 0 0 (kids T1) (kids T1) (kids T2) (start_state m d ns1 ns2)" "like ns1 ns2 (start_state m d ns1 ns2)" "up_closed ns2"
    "unmapped2 (kids T2) (start_state m d ns1 ns2)"
proof -
  note r1 = rep_treeD [of ns1 None None T1] and r2 = rep_treeD [of ns2 None None T2]
  show "situation 0 0 (kids T1) (kids T1) (kids T2) (start_state m d ns1 ns2)"
    using assms r1 r2 by (auto simp: situation_def tree_vector_def)
  show "like ns1 ns2 (start_state m d ns1 ns2)" by (simp add: like_def)
  show "up_closed ns2" using assms(2) by (auto simp: up_closed_def marked_def tree_vector_def list_all_length)
  have "i < length ns2" if "i \<in> set (forest_labs (kids T2))" for i using assms(2) that labs_ok by (auto simp: tree_vector_def list_all_iff)
  then show "unmapped2 (kids T2) (start_state m d ns1 ns2)"
    using assms(2) labs_eq [of T2] by (auto simp: unmapped2_def tree_vector_def list_all_length)
qed

text \<open>The comparison returns; what it returns comes from a run over the two trees.\<close>

lemma diffTrees_run:
  assumes "tree_vector ns1 T1" "tree_vector ns2 T2"
  shows "\<exists>st td. run hs wn 0 0 (kids T1) (kids T1) (kids T2) (start_state m di ns1 ns2) st \<and> diffTrees_nodes hs wn de la m di ns1 ns2 = Some td \<and>
    set (td_diffs td) = set (diffs st) \<and> set (td_dir_diffs td) = set (dir_diffs st) \<and>
    (de \<longrightarrow> (\<exists>xs. td_deleted td = Some xs \<and> set xs = (\<lambda>u. node_id (ns1 ! lab u)) ` {u \<in> set (concat (map preorder (kids T1))). mapped1 st (lab u) = None})) \<and>
    (la \<longrightarrow> (\<exists>xs. td_large td = Some xs \<and> (\<forall>x \<in> set xs. \<exists>u \<in> set (concat (map preorder (kids T2))). x = node_id (ns2 ! lab u) \<and>
       lab u \<notin> marked (nodes2 st) \<and> mapped2 st (lab u) \<noteq> None \<and> tree_size u > 10)))"
proof -
  note s = start_ok(1,2) [OF assms, of m di]
  obtain st where st: "gatherDiffs_loop hs wn 0 0 0 (first_lab (kids T1)) (first_lab (kids T2)) (start_state m di ns1 ns2) = Some st"
      "run hs wn 0 0 (kids T1) (kids T1) (kids T2) (start_state m di ns1 ns2) st"
    using loop_run [OF s(1)] by blast
  have l0: "lab T1 = 0" "lab T2 = 0" "rep_tree ns1 None None T1" "rep_tree ns2 None None T2" using assms by (auto simp: tree_vector_def)
  note r1 = rep_treeD [OF l0(3), unfolded l0(1)] and r2 = rep_treeD [OF l0(4), unfolded l0(2)]
  have g: "gatherDiffs hs wn 0 0 0 (start_state m di ns1 ns2) = Some st" using st(1) r1(1,5) r2(1,5) by (simp add: gatherDiffs_def rd_eq_Some)
  have l: "like ns1 ns2 st" using like_same [OF s(2) run_same [OF st(2)]] .
  have rs: "rep_tree (nodes1 st) None None T1" "rep_tree (nodes2 st) None None T2" using rep_same_tree(1) l l0 by (auto simp: like_def)
  note q1 = rep_treeD [OF rs(1), unfolded l0(1)] and q2 = rep_treeD [OF rs(2), unfolded l0(2)]
  have ok: "u \<in> set (concat (map preorder (kids T1))) \<Longrightarrow> tree_ok ns1 u" "u \<in> set (concat (map preorder (kids T2))) \<Longrightarrow> tree_ok ns2 u" for u
    using preorder_ok assms by (auto simp: tree_vector_def)
  let ?ds = "map (\<lambda>u. node_id (nodes1 st ! lab u)) (filter (\<lambda>u. mapped1 st (lab u) = None) (concat (map preorder (kids T1))))"
  have d: "gatherDeletes (nodes1 st) 0 [] = Some ?ds" using gatherDeletes_eq(2) [OF q1(4)] q1(1,5) by (simp add: gatherDeletes_def rd_eq_Some)
  have ids: "node_id (nodes1 st ! lab u) = node_id (ns1 ! lab u)" if "u \<in> set (concat (map preorder (kids T1)))" for u
    using static_attr(3) [OF like_node(1) [OF l ok(1) [OF that]]] .
  have ids2: "node_id (nodes2 st ! lab u) = node_id (ns2 ! lab u)" "lab u < length (nodes2 st)" if "u \<in> set (concat (map preorder (kids T2)))" for u
    using static_attr(3) [OF like_node(2) [OF l ok(2) [OF that]]] tree_okD(1) [OF like_node(4) [OF l ok(2) [OF that]]] by auto
  obtain xs where x: "gatherLargeUnchangedSubtrees (nodes2 st) 0 [] = Some xs" "\<forall>x \<in> set xs. \<exists>u \<in> set (concat (map preorder (kids T2))).
      x = node_id (nodes2 st ! lab u) \<and> \<not> subtree_changed (nodes2 st ! lab u) \<and> mapped2 st (lab u) \<noteq> None \<and> tree_size u > 10"
    using gatherLarge_eq(2) [OF q2(4), of "[]"] q2(1,5) by (auto simp: gatherLargeUnchangedSubtrees_def rd_eq_Some)
  have x': "\<forall>x \<in> set xs. \<exists>u \<in> set (concat (map preorder (kids T2))). x = node_id (ns2 ! lab u) \<and> lab u \<notin> marked (nodes2 st) \<and> mapped2 st (lab u) \<noteq> None \<and> tree_size u > 10"
  proof
    fix y assume "y \<in> set xs"
    then obtain u where "u \<in> set (concat (map preorder (kids T2)))" "y = node_id (nodes2 st ! lab u)" "\<not> subtree_changed (nodes2 st ! lab u)" "mapped2 st (lab u) \<noteq> None" "tree_size u > 10"
      using x(2) by blast
    then show "\<exists>u \<in> set (concat (map preorder (kids T2))). y = node_id (ns2 ! lab u) \<and> lab u \<notin> marked (nodes2 st) \<and> mapped2 st (lab u) \<noteq> None \<and> tree_size u > 10"
      using ids2 by (intro bexI [of _ u]) (auto simp: marked_def)
  qed
  have dd: "set ?ds = (\<lambda>u. node_id (ns1 ! lab u)) ` {u \<in> set (concat (map preorder (kids T1))). mapped1 st (lab u) = None}" using ids by (auto simp: image_iff)
  let ?td = "\<lparr>td_diffs = sort (diffs st), td_deleted = if de then Some (sort ?ds) else None, td_large = if la then Some (sort xs) else None,
      td_modified = map_option sort (modified_inplace_ids st), td_dir_diffs = sort (dir_diffs st), td_deleted_inplace = map_option sort (deleted_inplace_ids st)\<rparr>"
  have "diffTrees_nodes hs wn de la m di ns1 ns2 = Some ?td" using g d x(1) by (simp add: diffTrees_nodes_def start_state_def)
  moreover have "set (td_diffs ?td) = set (diffs st)" "set (td_dir_diffs ?td) = set (dir_diffs st)" by simp_all
  moreover have "de \<longrightarrow> (\<exists>xs. td_deleted ?td = Some xs \<and> set xs = (\<lambda>u. node_id (ns1 ! lab u)) ` {u \<in> set (concat (map preorder (kids T1))). mapped1 st (lab u) = None})"
    using dd set_sort [of "\<lambda>x. x" ?ds] by (intro impI exI [of _ "sort ?ds"]) (simp del: set_map)
  moreover have "la \<longrightarrow> (\<exists>ys. td_large ?td = Some ys \<and> (\<forall>x \<in> set ys. \<exists>u \<in> set (concat (map preorder (kids T2))). x = node_id (ns2 ! lab u) \<and>
      lab u \<notin> marked (nodes2 st) \<and> mapped2 st (lab u) \<noteq> None \<and> tree_size u > 10))"
    using x' by (intro impI exI [of _ "sort xs"]) simp
  ultimately show ?thesis using st(2) by blast
qed

end
