(* ===== verification/Tree_Reader_Correct.thy ===== *)
theory Tree_Reader_Correct
  imports Tree_Reader Tree_Diff_Correct
begin

text \<open>
  A file list written item by item, each directory followed by its content and a line \<open>u\<close>, is read as the tree it stands for, within the
  buffer that the first pass has measured.
\<close>

datatype ftree = FT (ft_item: SFile) (ft_extra: "(string \<times> string) list") (ft_kids: "ftree list")

fun tree_text :: "ftree \<Rightarrow> string" where
  "tree_text (FT cf kvs ts) = writeFileItem_extra cf (extra_str kvs) @ (if isdir cf then concat (map tree_text ts) @ ''u'' @ [CHR 0x0A] else [])"

fun ftree_ok :: "ftree \<Rightarrow> bool" where
  "ftree_ok (FT cf kvs ts) \<longleftrightarrow> name cf \<noteq> ''..'' \<and> item_ok (cf, kvs) \<and> (isdir cf \<or> ts = []) \<and> list_all ftree_ok ts"

fun fnodes :: "ftree \<Rightarrow> nat" where
  "fnodes (FT cf kvs ts) = 1 + sum_list (map fnodes ts)"

fun flines :: "ftree \<Rightarrow> nat" where
  "flines (FT cf kvs ts) = 1 + (if isdir cf then sum_list (map flines ts) + 1 else 0)"

fun fbytes :: "ftree \<Rightarrow> nat" where
  "fbytes (FT cf kvs ts) = length (name cf) + 1 + (if isdir cf then 8 else 16) + sum_list (map fbytes ts)"

definition item_node :: "SFile \<Rightarrow> nat \<Rightarrow> nat \<Rightarrow> nat option \<Rightarrow> nat \<Rightarrow> tree_node" where
  "item_node cf ln p nxt n =
     \<lparr>node_type = if isdir cf then CHR ''d'' else CHR ''f'', node_name = Some (c_str (name cf)),
      node_data = Some (if isdir cf then [word_of_int (last_modified cf)] else [word_of_int (fsize cf), word_of_int (last_modified cf)]),
      nextSibling = nxt, node_parent = Some p, mapped_node = None, num_children = n, subtree_changed = False, node_id = ln\<rparr>"

text \<open>The nodes of a tree that starts at position \<open>i\<close> and line \<open>ln\<close>.\<close>

fun node_list :: "nat \<Rightarrow> nat \<Rightarrow> nat \<Rightarrow> nat option \<Rightarrow> ftree \<Rightarrow> tree_node list"
  and forest_list :: "nat \<Rightarrow> nat \<Rightarrow> nat \<Rightarrow> ftree list \<Rightarrow> tree_node list" where
  "node_list p i ln nxt (FT cf kvs ts) = item_node cf ln p nxt (length ts) # forest_list i (i + 1) (ln + 1) ts"
| "forest_list p i ln [] = []"
| "forest_list p i ln (t # ts) = node_list p i ln (if ts = [] then None else Some (i + fnodes t)) t @ forest_list p (i + fnodes t) (ln + flines t) ts"

fun label_tree :: "nat \<Rightarrow> ftree \<Rightarrow> tree" and label_forest :: "nat \<Rightarrow> ftree list \<Rightarrow> tree list" where
  "label_tree i (FT cf kvs ts) = Node i (label_forest (i + 1) ts)"
| "label_forest i [] = []"
| "label_forest i (t # ts) = label_tree i t # label_forest (i + fnodes t) ts"

lemma length_node_list [simp]: "length (node_list p i ln nxt t) = fnodes t" "length (forest_list p i ln ts) = sum_list (map fnodes ts)"
  by (induction p i ln nxt t and p i ln ts rule: node_list_forest_list.induct) auto

subsection \<open>A line\<close>

definition line_str :: "SFile \<Rightarrow> (string \<times> string) list \<Rightarrow> string" where
  "line_str cf kvs = (if isdir cf then ''d0 '' else CHR ''f'' # convert_int64 (fsize cf) @ '' '') @ convert_int64 (last_modified cf) @
     (if kvs = [] then [] else CHR ''#'' # param_str kvs)"

lemma item_text:
  assumes "isdir cf \<longrightarrow> name cf \<noteq> ''..''"
  shows "writeFileItem_extra cf (extra_str kvs) = hd (line_str cf kvs) # CHR 0x22 # escapeListName (name cf) @ CHR 0x22 # CHR '' '' # tl (line_str cf kvs) @ [CHR 0x0A]"
  using assms by (auto simp: writeFileItem_extra_def item_head_def extra_str_def line_str_def Let_def)

lemma read_name: "r_state s = R2 \<Longrightarrow> read_chars b (escapeListName nm @ rest) s = read_chars b rest (s\<lparr>r_name := r_name s @ nm\<rparr>)"
proof (induction nm arbitrary: s)
  case Nil
  then show ?case by (simp add: escapeListName_def)
next
  case (Cons c nm)
  have e: "escapeListName (c # nm) = (if c = CHR 0x22 then [CHR 0x5C, CHR 0x22] else if c = CHR 0x5C then [CHR 0x5C, CHR 0x5C] else [c]) @ escapeListName nm"
    by (simp add: escapeListName_def)
  have n: "s\<lparr>r_state := R2\<rparr> = s" using Cons.prems by simp
  have "read_chars b (escapeListName (c # nm) @ rest) s = read_chars b (escapeListName nm @ rest) (s\<lparr>r_name := r_name s @ [c]\<rparr>)"
    using Cons.prems n by (auto simp: e read_char_def) (metis (no_types, lifting) reader.update_convs(1,2) reader.surjective n)+
  then show ?case using Cons.IH [of "s\<lparr>r_name := r_name s @ [c]\<rparr>"] Cons.prems by simp
qed

lemma strtoll_stop:
  assumes "x \<noteq> []" "\<And>c. c \<in> set x \<Longrightarrow> isdigit c \<or> c = CHR ''-''"
  shows "strtoll (x @ CHR ''#'' # y) = strtoll x"
proof -
  obtain c x' where x: "x = c # x'" using assms(1) by (cases x) auto
  have nz: "\<And>c. c \<in> set x \<Longrightarrow> c \<noteq> CHR 0x00" using assms(2) isdigit_not by force
  have "\<not> isspace c" using assms(2) [of c] x isdigit_not by (auto simp: isspace_def)
  then have d: "dropWhile isspace (x @ z) = x @ z" for z using x by simp
  have t: "takeWhile (\<lambda>c. c \<noteq> CHR 0x00) (x @ CHR ''#'' # y) = x @ CHR ''#'' # takeWhile (\<lambda>c. c \<noteq> CHR 0x00) y" "takeWhile (\<lambda>c. c \<noteq> CHR 0x00) x = x"
    using nz by (auto simp: takeWhile_append2 takeWhile_eq_all_conv)
  have i: "\<not> isdigit (CHR ''#'')" by (simp add: isdigit_def)
  have w: "takeWhile isdigit (z @ CHR ''#'' # z') = takeWhile isdigit z" for z z' by (induction z) (simp_all add: i)
  show ?thesis unfolding strtoll_def t d d [of "[]", unfolded append_Nil2] Let_def unfolding x by (simp add: w)
qed

lemma os_atoi64_stop:
  assumes "int64_min \<le> i" "i \<le> int64_max" "e = [] \<or> (\<exists>y. e = CHR ''#'' # y)"
  shows "os_atoi64 (convert_int64 i @ e) = i"
proof -
  have "convert_int64 i \<noteq> []" using digits_Cons by (auto simp: convert_int64_def)
  then show ?thesis using os_atoi64_convert [OF assms(1,2)] assms(3) strtoll_stop [of "convert_int64 i"] convert_int64_chars by (auto simp: os_atoi64_def)
qed

lemma find_space_append: "CHR '' '' \<notin> set x \<Longrightarrow> find_space (x @ CHR '' '' # y) = Some (length x)"
proof -
  assume a: "CHR '' '' \<notin> set x"
  have "takeWhile (\<lambda>c. c \<noteq> CHR '' '') (x @ CHR '' '' # y) = x" using a by (induction x) auto
  then show ?thesis by (simp add: find_space_def)
qed

lemma line_data_str:
  assumes "item_ok (cf, kvs)"
  shows "line_data (line_str cf kvs) = (if isdir cf then [word_of_int (last_modified cf)] else [word_of_int (fsize cf), word_of_int (last_modified cf)])"
    "hd (line_str cf kvs) = (if isdir cf then CHR ''d'' else CHR ''f'')" "line_str cf kvs = hd (line_str cf kvs) # tl (line_str cf kvs)"
    "CHR 0x0A \<notin> set (line_str cf kvs)"
proof -
  let ?e = "if kvs = [] then [] else CHR ''#'' # param_str kvs"
  have m: "os_atoi64 (convert_int64 (last_modified cf) @ ?e) = last_modified cf" by (rule os_atoi64_stop) (use assms in \<open>auto simp: item_ok_def\<close>)
  have s: "CHR '' '' \<notin> set (convert_int64 (fsize cf))" using convert_safe by blast
  have f: "find_space (''0 '' @ z) = Some 1" "find_space (convert_int64 (fsize cf) @ '' '' @ z) = Some (length (convert_int64 (fsize cf)))" for z
    using find_space_append [of "''0''" z] find_space_append [OF s, of z] by simp_all
  have z: "os_atoi64 (convert_int64 (fsize cf)) = fsize cf" using os_atoi64_convert assms by (auto simp: item_ok_def)
  show h: "hd (line_str cf kvs) = (if isdir cf then CHR ''d'' else CHR ''f'')" by (simp add: line_str_def)
  show "line_str cf kvs = hd (line_str cf kvs) # tl (line_str cf kvs)" by (simp add: line_str_def)
  show "line_data (line_str cf kvs) = (if isdir cf then [word_of_int (last_modified cf)] else [word_of_int (fsize cf), word_of_int (last_modified cf)])"
    unfolding line_data_def Let_def h using m z f
    by (auto simp: line_str_def getuntil_space_def getafter_space_def)
  have "CHR 0x0A \<notin> set (param_str kvs)" using param_str_no_newline assms by (auto simp: item_ok_def)
  then show "CHR 0x0A \<notin> set (line_str cf kvs)" using convert_safe [of "CHR 0x0A"] by (auto simp: line_str_def)
qed

lemma read_rest: "r_state s = R4 \<Longrightarrow> CHR 0x0A \<notin> set x \<Longrightarrow> read_chars b (x @ rest) s = read_chars b rest (s\<lparr>r_data := r_data s @ x\<rparr>)"
proof (induction x arbitrary: s)
  case (Cons c x)
  then have "read_char b c s = Inr (s\<lparr>r_data := r_data s @ [c]\<rparr>)" by (auto simp: read_char_def)
  then show ?case using Cons by simp
qed simp

lemma read_item:
  assumes "r_state s = R0" "r_name s = []" "r_data s = []" "item_ok (cf, kvs)" "name cf \<noteq> ''..''"
  shows "read_chars b (writeFileItem_extra cf (extra_str kvs) @ rest) s =
    (case read_line b (s\<lparr>r_state := R4, r_name := name cf, r_data := line_str cf kvs\<rparr>) of Inl e \<Rightarrow> Inl e | Inr s' \<Rightarrow> read_chars b rest s')"
proof -
  note l = line_data_str [OF assms(4)]
  let ?c = "hd (line_str cf kvs)" and ?x = "tl (line_str cf kvs)"
  have nx: "CHR 0x0A \<notin> set ?x" using l(4) by (cases "line_str cf kvs") auto
  have lx: "?c # ?x = line_str cf kvs" using l(3) by metis
  let ?s2 = "s\<lparr>r_data := [?c], r_state := R2\<rparr>"
  have "read_chars b (writeFileItem_extra cf (extra_str kvs) @ rest) s = read_chars b (escapeListName (name cf) @ CHR 0x22 # CHR '' '' # ?x @ CHR 0x0A # rest) ?s2"
    using item_text [of cf kvs] assms l(2) by (auto simp: read_char_def)
  also have "\<dots> = read_chars b (CHR 0x22 # CHR '' '' # ?x @ CHR 0x0A # rest) (?s2\<lparr>r_name := name cf\<rparr>)"
    using read_name [of ?s2 b "name cf"] assms(2) by simp
  also have "\<dots> = read_chars b (?x @ CHR 0x0A # rest) (s\<lparr>r_data := [?c], r_state := R4, r_name := name cf\<rparr>)" by (cases s) (simp add: read_char_def)
  also have "\<dots> = read_chars b (CHR 0x0A # rest) (s\<lparr>r_data := [?c] @ ?x, r_state := R4, r_name := name cf\<rparr>)"
    using read_rest [of "s\<lparr>r_data := [?c], r_state := R4, r_name := name cf\<rparr>" ?x b] nx by (cases s) simp
  also have "\<dots> = (case read_line b (s\<lparr>r_state := R4, r_name := name cf, r_data := line_str cf kvs\<rparr>) of Inl e \<Rightarrow> Inl e | Inr s' \<Rightarrow> read_chars b rest s')"
    using lx by (cases s) (simp add: read_char_def)
  finally show ?thesis .
qed

subsection \<open>A tree\<close>

definition addc :: "nat \<Rightarrow> nat \<Rightarrow> tree_node list \<Rightarrow> tree_node list" where
  "addc p n ns = upd_node p (\<lambda>x. x\<lparr>num_children := num_children x + n\<rparr>) ns"

definition link_last :: "bool \<Rightarrow> nat list \<Rightarrow> nat \<Rightarrow> tree_node list \<Rightarrow> tree_node list" where
  "link_last first ls i ns = (if first then ns else upd_node (hd ls) (\<lambda>x. x\<lparr>nextSibling := Some i\<rparr>) ns)"

lemma upd_node_length [simp]: "length (upd_node i f ns) = length ns" "length (addc p n ns) = length ns" "length (link_last b ls i ns) = length ns"
  by (simp_all add: upd_node_def addc_def link_last_def)

lemma upd_node_append: "i < length xs \<Longrightarrow> upd_node i f (xs @ ys) = upd_node i f xs @ ys"
  by (simp add: upd_node_def list_update_append nth_append)

lemma upd_node_at: "length xs = i \<Longrightarrow> upd_node i f (xs @ y # ys) = xs @ f y # ys"
  by (auto simp: upd_node_def nth_append list_update_append)

lemma addc_append: "p < length xs \<Longrightarrow> addc p n (xs @ ys) = addc p n xs @ ys"
  by (simp add: addc_def upd_node_append)

lemma addc_addc: "p < length ns \<Longrightarrow> addc p m (addc p n ns) = addc p (n + m) ns"
  by (simp add: addc_def upd_node_def add.assoc)

lemma addc_0 [simp]: "addc p 0 ns = ns"
  by (simp add: addc_def upd_node_def)

lemma addc_link: "addc p n (link_last b ls i ns) = link_last b ls i (addc p n ns)"
proof -
  have c: "x\<lparr>nextSibling := a, num_children := m\<rparr> = x\<lparr>num_children := m, nextSibling := a\<rparr>" for a m and x :: tree_node by (cases x) simp
  have "p \<noteq> hd ls \<Longrightarrow> ?thesis" by (simp add: addc_def link_last_def upd_node_def list_update_swap)
  moreover have "p = hd ls \<Longrightarrow> ?thesis" by (cases "p < length ns") (auto simp: addc_def link_last_def upd_node_def list_update_beyond c)
  ultimately show ?thesis by blast
qed

lemma read_line_item:
  assumes "r_nodes s = pre @ TreeNode_init # post" "r_idx s = length pre" "r_parents s = p # ps" "p < length pre" "r_first s \<or> (\<exists>l ls. r_last s = l # ls \<and> l < length pre)"
    "item_ok (cf, kvs)" "name cf \<noteq> ''..''" "r_pos s + (length (name cf) + 1) + (if isdir cf then 8 else 16) \<le> b"
  shows "read_line b (s\<lparr>r_state := R4, r_name := name cf, r_data := line_str cf kvs\<rparr>) =
    Inr (s\<lparr>r_state := R0, r_name := [], r_data := [], r_lines := r_lines s + 1,
      r_nodes := link_last (r_first s) (r_last s) (r_idx s) (addc p 1 pre) @ item_node cf (r_lines s) p None 0 # post,
      r_pos := r_pos s + (length (name cf) + 1) + (if isdir cf then 8 else 16),
      r_last := r_idx s # (if r_first s then r_last s else tl (r_last s)),
      r_parents := if isdir cf then r_idx s # p # ps else p # ps, r_first := isdir cf, r_idx := r_idx s + 1\<rparr>)"
proof -
  note l = line_data_str [OF assms(6)]
  let ?s = "s\<lparr>r_state := R4, r_name := name cf, r_data := line_str cf kvs\<rparr>"
  let ?n = "TreeNode_init\<lparr>node_name := Some (c_str (name cf)), node_id := r_lines s, node_type := if isdir cf then CHR ''d'' else CHR ''f'',
      node_data := Some (line_data (line_str cf kvs))\<rparr>"
  have len: "length (line_data (line_str cf kvs)) = (if isdir cf then 1 else 2)" using l(1) by simp
  have n: "?n\<lparr>node_parent := Some p\<rparr> = item_node cf (r_lines s) p None 0" using l(1) by (simp add: item_node_def TreeNode_init_def)
  have u: "upd_node (length pre) f (pre @ TreeNode_init # post) = pre @ f TreeNode_init # post" for f by (rule upd_node_at) simp
  have a: "upd_node (length pre) (\<lambda>n. n\<lparr>node_parent := Some p\<rparr>) (upd_node p (\<lambda>n. n\<lparr>num_children := num_children n + 1\<rparr>) (xs @ ?n # post)) =
      addc p 1 xs @ item_node cf (r_lines s) p None 0 # post" if "length xs = length pre" for xs
    using that assms(4) n by (simp add: upd_node_append upd_node_at addc_def)
  have k: "link_last (r_first s) (r_last s) (length pre) (addc p 1 pre) = addc p 1 (link_last (r_first s) (r_last s) (length pre) pre)" by (rule addc_link [symmetric])
  have "read_node b ?s = Inr (?s\<lparr>r_nodes := link_last (r_first s) (r_last s) (r_idx s) (addc p 1 pre) @ item_node cf (r_lines s) p None 0 # post,
      r_pos := r_pos s + (length (name cf) + 1) + (if isdir cf then 8 else 16),
      r_last := r_idx s # (if r_first s then r_last s else tl (r_last s)),
      r_parents := if isdir cf then r_idx s # p # ps else p # ps, r_first := isdir cf, r_idx := r_idx s + 1\<rparr>)"
  proof (cases "r_first s")
    case True
    then show ?thesis using assms len l(2) a [of pre] by (auto simp: read_node_def Let_def u link_last_def)
  next
    case False
    then obtain x xs where x: "r_last s = x # xs" "x < length pre" using assms(5) by blast
    have "upd_node x (\<lambda>n. n\<lparr>nextSibling := Some (length pre)\<rparr>) (pre @ ?n # post) = link_last False (x # xs) (length pre) pre @ ?n # post"
      using x by (simp add: upd_node_append link_last_def)
    then show ?thesis using False x assms len l(2) a [of "link_last False (x # xs) (length pre) pre"] k by (auto simp: read_node_def Let_def u)
  qed
  then show ?thesis using assms(7) by (cases s) (simp add: read_line_def)
qed

fun last_lab :: "nat \<Rightarrow> ftree list \<Rightarrow> nat" where
  "last_lab i [] = i"
| "last_lab i (t # ts) = (if ts = [] then i else last_lab (i + fnodes t) ts)"

lemma node_list_hd: "node_list p i ln nxt t = item_node (ft_item t) ln p nxt (length (ft_kids t)) # forest_list i (i + 1) (ln + 1) (ft_kids t)"
  by (cases t) simp

lemma fnodes_pos [simp]: "0 < fnodes t"
  by (cases t) simp

lemma forest_list_last:
  "ts \<noteq> [] \<Longrightarrow> i \<le> last_lab i ts \<and> last_lab i ts < i + sum_list (map fnodes ts) \<and> nextSibling (forest_list p i ln ts ! (last_lab i ts - i)) = None"
proof (induction ts arbitrary: i ln)
  case (Cons t ts)
  show ?case
  proof (cases "ts = []")
    case True
    then show ?thesis by (simp add: node_list_hd item_node_def)
  next
    case False
    let ?i = "i + fnodes t"
    note ih = Cons.IH [OF False, of ?i "ln + flines t"]
    have "last_lab ?i ts - i = fnodes t + (last_lab ?i ts - ?i)" using ih by simp
    moreover have "\<not> last_lab ?i ts - i < fnodes t" using ih by linarith
    ultimately show ?thesis using ih False by (simp add: nth_append)
  qed
qed simp

definition at_line :: "reader \<Rightarrow> tree_node list \<Rightarrow> nat \<Rightarrow> nat \<Rightarrow> nat list \<Rightarrow> bool" where
  "at_line s pre k p ps \<longleftrightarrow> r_state s = R0 \<and> r_name s = [] \<and> r_data s = [] \<and> r_nodes s = pre @ replicate k TreeNode_init \<and> r_idx s = length pre \<and>
     r_parents s = p # ps \<and> p < length pre \<and> (r_first s \<or> (\<exists>l ls. r_last s = l # ls \<and> l < length pre))"

definition after_tree :: "reader \<Rightarrow> tree_node list \<Rightarrow> nat \<Rightarrow> nat \<Rightarrow> ftree \<Rightarrow> reader" where
  "after_tree s pre k p t = s\<lparr>r_nodes := link_last (r_first s) (r_last s) (length pre) (addc p 1 pre) @ node_list p (length pre) (r_lines s) None t @ replicate k TreeNode_init,
     r_idx := length pre + fnodes t, r_lines := r_lines s + flines t, r_pos := r_pos s + fbytes t,
     r_last := length pre # (if r_first s then r_last s else tl (r_last s)), r_first := False\<rparr>"

definition after_forest :: "reader \<Rightarrow> tree_node list \<Rightarrow> nat \<Rightarrow> nat \<Rightarrow> ftree list \<Rightarrow> reader" where
  "after_forest s pre k p ts = (if ts = [] then s else
     s\<lparr>r_nodes := link_last (r_first s) (r_last s) (length pre) (addc p (length ts) pre) @ forest_list p (length pre) (r_lines s) ts @ replicate k TreeNode_init,
       r_idx := length pre + sum_list (map fnodes ts), r_lines := r_lines s + sum_list (map flines ts), r_pos := r_pos s + sum_list (map fbytes ts),
       r_last := last_lab (length pre) ts # (if r_first s then r_last s else tl (r_last s)), r_first := False\<rparr>)"

text \<open>The line that ends a directory.\<close>

lemma read_u:
  assumes "r_state s = R0" "r_name s = []" "r_data s = []" "r_parents s = i # p # ps" "\<not> r_first s \<Longrightarrow> \<exists>l ls. r_last s = l # ls \<and> nextSibling (r_nodes s ! l) = None"
  shows "read_chars b (''u'' @ [CHR 0x0A] @ rest) s =
    read_chars b rest (s\<lparr>r_parents := p # ps, r_last := if r_first s then r_last s else tl (r_last s), r_first := False, r_lines := r_lines s + 1\<rparr>)"
proof -
  let ?s = "s\<lparr>r_name := ''..'', r_state := R10\<rparr>"
  have "read_up ?s = Inr (?s\<lparr>r_parents := p # ps, r_last := if r_first s then r_last s else tl (r_last s), r_first := False\<rparr>)"
  proof (cases "r_first s")
    case True
    then show ?thesis using assms(4) by (cases s) (simp add: read_up_def)
  next
    case False
    then obtain l ls where l: "r_last s = l # ls" "nextSibling (r_nodes s ! l) = None" using assms(5) by blast
    have "(r_nodes s ! l)\<lparr>nextSibling := None\<rparr> = r_nodes s ! l" using l(2) by (cases "r_nodes s ! l") simp
    then have "upd_node l (\<lambda>x. x\<lparr>nextSibling := None\<rparr>) (r_nodes s) = r_nodes s" by (simp add: upd_node_def)
    then show ?thesis using False l(1) assms(4) by (cases s) (simp add: read_up_def)
  qed
  then show ?thesis using assms(1-3) by (cases s) (simp add: read_char_def read_line_def)
qed

lemma addc_item: "length xs = i \<Longrightarrow> addc i n (xs @ [item_node cf ln p nxt 0]) = xs @ [item_node cf ln p nxt n]"
  by (simp add: addc_def upd_node_at item_node_def)

lemma read_dir:
  assumes ok: "ftree_ok (FT cf kvs ts)" and dir: "isdir cf" and at: "at_line s pre (fnodes (FT cf kvs ts) + k) p ps" and b: "r_pos s + fbytes (FT cf kvs ts) \<le> b"
    and kids: "\<And>s pre k p ps rest. at_line s pre (sum_list (map fnodes ts) + k) p ps \<Longrightarrow> r_pos s + sum_list (map fbytes ts) \<le> b \<Longrightarrow>
      read_chars b (concat (map tree_text ts) @ rest) s = read_chars b rest (after_forest s pre k p ts)"
  shows "read_chars b (tree_text (FT cf kvs ts) @ rest) s = read_chars b rest (after_tree s pre k p (FT cf kvs ts))"
proof -
  let ?i = "length pre" and ?m = "sum_list (map fnodes ts)"
  let ?X = "link_last (r_first s) (r_last s) ?i (addc p 1 pre)"
  let ?pre = "?X @ [item_node cf (r_lines s) p None 0]"
  let ?ls = "?i # (if r_first s then r_last s else tl (r_last s))"
  note a = at [unfolded at_line_def]
  have nodes: "r_nodes s = pre @ TreeNode_init # replicate (?m + k) TreeNode_init" using a by simp
  define s1 where "s1 = s\<lparr>r_state := R0, r_name := [], r_data := [], r_lines := r_lines s + 1, r_nodes := ?pre @ replicate (?m + k) TreeNode_init,
      r_pos := r_pos s + (length (name cf) + 1) + 8, r_last := ?ls, r_parents := ?i # p # ps, r_first := True, r_idx := ?i + 1\<rparr>"
  have "read_line b (s\<lparr>r_state := R4, r_name := name cf, r_data := line_str cf kvs\<rparr>) = Inr s1"
    using read_line_item [OF nodes, of p ps cf kvs b] a ok dir b by (auto simp: s1_def)
  then have "read_chars b (tree_text (FT cf kvs ts) @ rest) s = read_chars b (concat (map tree_text ts) @ ''u'' @ [CHR 0x0A] @ rest) s1"
    using read_item [of s cf kvs b] a ok dir by simp
  also have "\<dots> = read_chars b (''u'' @ [CHR 0x0A] @ rest) (after_forest s1 ?pre k ?i ts)"
    by (rule kids) (use b dir in \<open>auto simp: at_line_def s1_def\<close>)
  also have "\<dots> = read_chars b rest ((after_forest s1 ?pre k ?i ts)\<lparr>r_parents := p # ps, r_last := ?ls, r_first := False, r_lines := r_lines s + flines (FT cf kvs ts)\<rparr>)"
  proof (cases "ts = []")
    case True
    then show ?thesis using read_u [of "after_forest s1 ?pre k ?i ts" ?i p ps b rest] dir by (simp add: after_forest_def s1_def)
  next
    case False
    then have "nextSibling (r_nodes (after_forest s1 ?pre k ?i ts) ! last_lab (Suc ?i) ts) = None"
      using forest_list_last [OF False, of "Suc ?i" ?i "r_lines s + 1"] by (auto simp: after_forest_def s1_def nth_append link_last_def)
    then show ?thesis using read_u [of "after_forest s1 ?pre k ?i ts" ?i p ps b rest] False dir by (simp add: after_forest_def s1_def)
  qed
  also have "(after_forest s1 ?pre k ?i ts)\<lparr>r_parents := p # ps, r_last := ?ls, r_first := False, r_lines := r_lines s + flines (FT cf kvs ts)\<rparr> =
      after_tree s pre k p (FT cf kvs ts)"
    using a dir by (cases s) (auto simp: after_forest_def after_tree_def s1_def link_last_def addc_item)
  finally show ?thesis .
qed

lemma read_file:
  assumes ok: "ftree_ok (FT cf kvs ts)" and dir: "\<not> isdir cf" and at: "at_line s pre (fnodes (FT cf kvs ts) + k) p ps" and b: "r_pos s + fbytes (FT cf kvs ts) \<le> b"
  shows "read_chars b (tree_text (FT cf kvs ts) @ rest) s = read_chars b rest (after_tree s pre k p (FT cf kvs ts))"
proof -
  let ?i = "length pre"
  note a = at [unfolded at_line_def]
  have ts: "ts = []" using ok dir by simp
  have nodes: "r_nodes s = pre @ TreeNode_init # replicate k TreeNode_init" using a ts by simp
  have "read_line b (s\<lparr>r_state := R4, r_name := name cf, r_data := line_str cf kvs\<rparr>) = Inr (after_tree s pre k p (FT cf kvs ts))"
    using read_line_item [OF nodes, of p ps cf kvs b] a ok dir b ts by (cases s) (auto simp: after_tree_def)
  then show ?thesis using read_item [of s cf kvs b] a ok dir by simp
qed

lemma after_tree_link:
  assumes "p < length pre"
  shows "link_last False (length pre # ls) j (addc p n (link_last f ls' (length pre) (addc p 1 pre) @ node_list p (length pre) ln None t)) =
    link_last f ls' (length pre) (addc p (1 + n) pre) @ node_list p (length pre) ln (Some j) t"
  using assms by (simp add: addc_append addc_link addc_addc node_list_hd) (simp add: link_last_def upd_node_at item_node_def)

lemma after_forest_Cons:
  assumes at: "at_line s pre (fnodes t + (sum_list (map fnodes ts) + k)) p ps" and s1: "s1 = after_tree s pre (sum_list (map fnodes ts) + k) p t"
    and pre1: "pre1 = link_last (r_first s) (r_last s) (length pre) (addc p 1 pre) @ node_list p (length pre) (r_lines s) None t"
  shows "at_line s1 pre1 (sum_list (map fnodes ts) + k) p ps" "after_forest s1 pre1 k p ts = after_forest s pre k p (t # ts)"
proof -
  note a = at [unfolded at_line_def]
  show "at_line s1 pre1 (sum_list (map fnodes ts) + k) p ps" using a by (simp add: at_line_def s1 pre1 after_tree_def)
  show "after_forest s1 pre1 k p ts = after_forest s pre k p (t # ts)"
  proof (cases "ts = []")
    case True
    then show ?thesis by (simp add: after_forest_def s1 after_tree_def)
  next
    case False
    then show ?thesis using a after_tree_link [of p pre] by (simp add: after_forest_def s1 pre1 after_tree_def add.assoc)
  qed
qed

lemma read_forest:
  assumes "\<And>t s pre k ps rest. t \<in> set ts \<Longrightarrow> at_line s pre (fnodes t + k) p ps \<Longrightarrow> r_pos s + fbytes t \<le> b \<Longrightarrow>
      read_chars b (tree_text t @ rest) s = read_chars b rest (after_tree s pre k p t)"
    and "at_line s pre (sum_list (map fnodes ts) + k) p ps" "r_pos s + sum_list (map fbytes ts) \<le> b"
  shows "read_chars b (concat (map tree_text ts) @ rest) s = read_chars b rest (after_forest s pre k p ts)"
  using assms
proof (induction ts arbitrary: s pre)
  case Nil
  then show ?case by (simp add: after_forest_def)
next
  case (Cons t ts)
  define s1 where "s1 = after_tree s pre (sum_list (map fnodes ts) + k) p t"
  define pre1 where "pre1 = link_last (r_first s) (r_last s) (length pre) (addc p 1 pre) @ node_list p (length pre) (r_lines s) None t"
  have at: "at_line s pre (fnodes t + (sum_list (map fnodes ts) + k)) p ps" using Cons.prems(2) by (simp add: add.assoc)
  note c = after_forest_Cons [OF at s1_def pre1_def]
  have "read_chars b (tree_text t @ concat (map tree_text ts) @ rest) s = read_chars b (concat (map tree_text ts) @ rest) s1"
    unfolding s1_def by (rule Cons.prems(1) [OF _ at]) (use Cons.prems(3) in auto)
  also have "\<dots> = read_chars b rest (after_forest s1 pre1 k p ts)"
    by (rule Cons.IH [OF _ c(1)]) (use Cons.prems in \<open>auto simp: s1_def after_tree_def\<close>)
  finally show ?case using c(2) by simp
qed

lemma read_tree:
  "ftree_ok t \<Longrightarrow> at_line s pre (fnodes t + k) p ps \<Longrightarrow> r_pos s + fbytes t \<le> b \<Longrightarrow>
     read_chars b (tree_text t @ rest) s = read_chars b rest (after_tree s pre k p t)"
proof (induction t arbitrary: s pre k p ps rest)
  case (FT cf kvs ts)
  have ok: "ftree_ok t" if "t \<in> set ts" for t using FT.prems(1) that by (auto simp: list_all_iff)
  show ?case
  proof (cases "isdir cf")
    case True
    show ?thesis
      by (rule read_dir [OF FT.prems(1) True FT.prems(2,3)], rule read_forest) (use FT.IH ok in blast)+
  next
    case False
    show ?thesis by (rule read_file [OF FT.prems(1) False FT.prems(2,3)])
  qed
qed

subsection \<open>The first pass\<close>

lemma count_name: "c_state s = R2 \<Longrightarrow> count_chars (escapeListName nm @ rest) s = count_chars rest (s\<lparr>c_name := c_name s @ nm\<rparr>)"
proof (induction nm arbitrary: s)
  case Nil
  then show ?case by (simp add: escapeListName_def)
next
  case (Cons c nm)
  have e: "escapeListName (c # nm) = (if c = CHR 0x22 then [CHR 0x5C, CHR 0x22] else if c = CHR 0x5C then [CHR 0x5C, CHR 0x5C] else [c]) @ escapeListName nm"
    by (simp add: escapeListName_def)
  have "count_chars (escapeListName (c # nm) @ rest) s = count_chars (escapeListName nm @ rest) (s\<lparr>c_name := c_name s @ [c]\<rparr>)"
    using Cons.prems by (cases s) (auto simp: e count_char_def)
  then show ?case using Cons.IH [of "s\<lparr>c_name := c_name s @ [c]\<rparr>"] Cons.prems by simp
qed

lemma count_rest: "c_state s = R4 \<Longrightarrow> CHR 0x0A \<notin> set x \<Longrightarrow> count_chars (x @ rest) s = count_chars rest s"
proof (induction x arbitrary: s)
  case (Cons c x)
  then have "count_char c s = Inr s" by (auto simp: count_char_def)
  then show ?case using Cons by simp
qed simp

text \<open>Between two lines only the totals vary.\<close>

abbreviation totals :: "nat \<Rightarrow> nat \<Rightarrow> counter" where
  "totals n m \<equiv> \<lparr>c_state = R0, c_lines = n, c_size = m, c_name = [], c_ltype = CHR 0x00\<rparr>"

lemma count_item:
  assumes "item_ok (cf, kvs)" "name cf \<noteq> ''..''"
  shows "count_chars (writeFileItem_extra cf (extra_str kvs) @ rest) (totals n m) =
    count_chars rest (totals (n + 1) (m + (length (name cf) + 1 + (if isdir cf then 8 else 16))))"
proof -
  note l = line_data_str [OF assms(1)]
  let ?c = "hd (line_str cf kvs)" and ?x = "tl (line_str cf kvs)"
  have nx: "CHR 0x0A \<notin> set ?x" using l(4) by (cases "line_str cf kvs") auto
  let ?s2 = "\<lparr>c_state = R2, c_lines = n, c_size = m, c_name = [], c_ltype = ?c\<rparr>"
  have "count_chars (writeFileItem_extra cf (extra_str kvs) @ rest) (totals n m) =
      count_chars (escapeListName (name cf) @ CHR 0x22 # CHR '' '' # ?x @ CHR 0x0A # rest) ?s2"
    using item_text [of cf kvs] assms l(2) by (auto simp: count_char_def)
  also have "\<dots> = count_chars (CHR 0x22 # CHR '' '' # ?x @ CHR 0x0A # rest) (?s2\<lparr>c_name := name cf\<rparr>)"
    using count_name [of ?s2 "name cf"] by simp
  also have "\<dots> = count_chars (?x @ CHR 0x0A # rest) (?s2\<lparr>c_name := name cf, c_state := R4\<rparr>)" by (simp add: count_char_def)
  also have "\<dots> = count_chars (CHR 0x0A # rest) (?s2\<lparr>c_name := name cf, c_state := R4\<rparr>)" by (rule count_rest) (simp_all add: nx)
  also have "\<dots> = count_chars rest (totals (n + 1) (m + (length (name cf) + 1 + (if isdir cf then 8 else 16))))"
    using assms(2) l(2) by (simp add: count_char_def count_line_def)
  finally show ?thesis .
qed

lemma count_u: "count_chars (''u'' @ [CHR 0x0A] @ rest) (totals n m) = count_chars rest (totals n m)"
  by (simp add: count_char_def count_line_def)

lemma count_forest:
  assumes "\<And>t n m rest. t \<in> set ts \<Longrightarrow> count_chars (tree_text t @ rest) (totals n m) = count_chars rest (totals (n + fnodes t) (m + fbytes t))"
  shows "count_chars (concat (map tree_text ts) @ rest) (totals n m) = count_chars rest (totals (n + sum_list (map fnodes ts)) (m + sum_list (map fbytes ts)))"
  using assms by (induction ts arbitrary: n m) (simp_all add: add.assoc)

lemma count_tree: "ftree_ok t \<Longrightarrow> count_chars (tree_text t @ rest) (totals n m) = count_chars rest (totals (n + fnodes t) (m + fbytes t))"
proof (induction t arbitrary: n m rest)
  case (FT cf kvs ts)
  have ok: "ftree_ok t" if "t \<in> set ts" for t using FT.prems that by (auto simp: list_all_iff)
  have f: "count_chars (concat (map tree_text ts) @ rest) (totals n m) = count_chars rest (totals (n + sum_list (map fnodes ts)) (m + sum_list (map fbytes ts)))"
    for n m rest by (rule count_forest) (use FT.IH ok in blast)
  show ?case using FT.prems count_item [of cf kvs] f count_u by (auto simp: add.assoc)
qed

subsection \<open>The whole list\<close>

definition root_node :: "nat \<Rightarrow> tree_node" where
  "root_node n = TreeNode_init\<lparr>node_name := Some ''root'', num_children := n\<rparr>"

definition list_text :: "ftree list \<Rightarrow> string" where
  "list_text ts = concat (map tree_text ts)"

definition list_nodes :: "ftree list \<Rightarrow> tree_node list" where
  "list_nodes ts = root_node (length ts) # forest_list 0 1 0 ts"

definition list_tree :: "ftree list \<Rightarrow> tree" where
  "list_tree ts = Node 0 (label_forest 1 ts)"

lemma readTree_text:
  assumes "list_all ftree_ok ts"
  shows "readTree (list_text ts) = Inr (list_nodes ts)"
proof -
  let ?n = "sum_list (map fnodes ts)" and ?b = "sum_list (map fbytes ts)"
  have ok: "ftree_ok t" if "t \<in> set ts" for t using assms that by (auto simp: list_all_iff)
  have c: "count_chars (list_text ts) counter_init = Inr (totals ?n ?b)"
    using count_forest [of ts "[]" 0 0] count_tree ok by (simp add: list_text_def counter_init_def)
  define s where "s = \<lparr>r_state = R0, r_name = [], r_data = [], r_parents = [0], r_last = [0], r_first = True, r_idx = 1, r_lines = 0, r_pos = 5,
      r_nodes = [root_node 0] @ replicate ?n TreeNode_init\<rparr>"
  have r: "read_chars (?b + 5) (list_text ts @ []) s = read_chars (?b + 5) [] (after_forest s [root_node 0] 0 0 ts)" unfolding list_text_def
    by (rule read_forest) (use read_tree ok in \<open>auto simp: at_line_def s_def\<close>)
  have i: "upd_node 0 (\<lambda>n. n\<lparr>node_name := Some ''root''\<rparr>) (TreeNode_init # replicate ?n TreeNode_init) = [root_node 0] @ replicate ?n TreeNode_init"
    by (simp add: upd_node_def root_node_def TreeNode_init_def)
  have a: "addc 0 (length ts) [root_node 0] = [root_node (length ts)]" by (simp add: addc_def upd_node_def root_node_def TreeNode_init_def)
  have f: "r_nodes (after_forest s [root_node 0] 0 0 ts) = list_nodes ts" "r_idx (after_forest s [root_node 0] 0 0 ts) = 1 + ?n"
      "r_pos (after_forest s [root_node 0] 0 0 ts) = 5 + ?b"
    by (auto simp: after_forest_def list_nodes_def s_def a link_last_def)
  have n: "upd_node 0 (\<lambda>n. n\<lparr>nextSibling := None\<rparr>) (list_nodes ts) = list_nodes ts" by (simp add: upd_node_def list_nodes_def root_node_def TreeNode_init_def)
  have l: "length (list_nodes ts) = 1 + ?n" by (simp add: list_nodes_def)
  show ?thesis using r f n l by (simp add: readTree_def c i Let_def add.commute s_def)
qed

subsection \<open>The vector holds the tree\<close>

text \<open>The tree \<open>T\<close> of nodes shows the tree \<open>t\<close> of items whose first line is \<open>ln\<close>.\<close>

definition shows_item :: "tree_node \<Rightarrow> nat \<Rightarrow> SFile \<Rightarrow> bool" where
  "shows_item n ln cf \<longleftrightarrow> (\<exists>p nxt k. n = item_node cf ln p nxt k)"

fun shows_tree :: "tree_node list \<Rightarrow> tree \<Rightarrow> nat \<Rightarrow> ftree \<Rightarrow> bool" and shows_forest :: "tree_node list \<Rightarrow> tree list \<Rightarrow> nat \<Rightarrow> ftree list \<Rightarrow> bool" where
  "shows_tree ns (Node i Ts) ln (FT cf kvs ts) \<longleftrightarrow> shows_item (ns ! i) ln cf \<and> shows_forest ns Ts (ln + 1) ts"
| "shows_forest ns [] ln [] \<longleftrightarrow> True"
| "shows_forest ns (T # Ts) ln (t # ts) \<longleftrightarrow> shows_tree ns T ln t \<and> shows_forest ns Ts (ln + flines t) ts"
| "shows_forest ns Ts ln ts \<longleftrightarrow> False"

lemma label_tree_simps [simp]: "lab (label_tree i t) = i" "kids (label_tree i t) = label_forest (i + 1) (ft_kids t)"
  by (cases t; simp)+

lemma first_lab_forest: "first_lab (label_forest i ts) = (if ts = [] then None else Some i)"
  by (cases ts) simp_all

lemma length_label_forest [simp]: "length (label_forest i ts) = length ts"
  by (induction ts arbitrary: i) simp_all

lemma rep_node_list:
  "ns = pre @ node_list p i ln nxt t @ post \<Longrightarrow> length pre = i \<Longrightarrow>
     rep_tree ns (Some p) nxt (label_tree i t) \<and> tree_ok ns (label_tree i t) \<and> shows_tree ns (label_tree i t) ln t"
  "ns = pre @ forest_list p i ln ts @ post \<Longrightarrow> length pre = i \<Longrightarrow>
     rep_forest ns (Some p) (label_forest i ts) \<and> list_all (tree_ok ns) (label_forest i ts) \<and> shows_forest ns (label_forest i ts) ln ts"
proof (induction p i ln nxt t and p i ln ts arbitrary: pre post and pre post rule: node_list_forest_list.induct)
  case (1 p i ln nxt cf kvs ts)
  have n: "ns ! i = item_node cf ln p nxt (length ts)" "i < length ns" using 1(2,3) by (auto simp: nth_append)
  have f: "ns = (pre @ [item_node cf ln p nxt (length ts)]) @ forest_list i (i + 1) (ln + 1) ts @ post" using 1(2) by simp
  have "typed (ns ! i)" using n by (simp add: typed_def item_node_def)
  then show ?case using n 1(1) [OF f] 1(3) by (auto simp: shows_item_def first_lab_forest) (auto simp: item_node_def)
next
  case (2 p i ln)
  then show ?case by simp
next
  case (3 p i ln t ts)
  let ?x = "if ts = [] then None else Some (i + fnodes t)"
  have a: "ns = pre @ node_list p i ln ?x t @ (forest_list p (i + fnodes t) (ln + flines t) ts @ post)" using 3(3) by simp
  have b: "ns = (pre @ node_list p i ln ?x t) @ forest_list p (i + fnodes t) (ln + flines t) ts @ post" using 3(3) by simp
  show ?case using 3(1) [OF a 3(4)] 3(2) [OF b] 3(4) by (simp add: first_lab_forest)
qed

lemma labs_label: "labs (label_tree i t) = [i ..< i + fnodes t]" "forest_labs (label_forest i ts) = [i ..< i + sum_list (map fnodes ts)]"
proof (induction i t and i ts rule: label_tree_label_forest.induct)
  case (1 i cf kvs ts)
  then show ?case using upt_conv_Cons [of i "i + fnodes (FT cf kvs ts)"] by (simp del: upt_Suc)
next
  case (3 i t ts)
  then show ?case using upt_add_eq_append [of i "i + fnodes t" "sum_list (map fnodes ts)"] by (simp add: add.assoc)
qed simp

lemma node_list_parents:
  "p < i \<Longrightarrow> k < fnodes t \<Longrightarrow> \<exists>q. node_parent (node_list p i ln nxt t ! k) = Some q \<and> q < i + k"
  "p < i \<Longrightarrow> k < sum_list (map fnodes ts) \<Longrightarrow> \<exists>q. node_parent (forest_list p i ln ts ! k) = Some q \<and> q < i + k"
proof (induction p i ln nxt t and p i ln ts arbitrary: k and k rule: node_list_forest_list.induct)
  case (1 p i ln nxt cf kvs ts)
  then show ?case
  proof (cases k)
    case 0
    then show ?thesis using 1(2) by (simp add: item_node_def)
  next
    case (Suc k')
    then show ?thesis using 1(1) [of k'] 1(3) by simp
  qed
next
  case (3 p i ln t ts)
  show ?case
  proof (cases "k < fnodes t")
    case True
    then show ?thesis using 3(1) [of k] 3(3) by (simp add: nth_append)
  next
    case False
    then show ?thesis using 3(2) [of "k - fnodes t"] 3(3,4) by (simp add: nth_append)
  qed
qed simp

lemma node_list_fresh:
  "list_all (\<lambda>n. mapped_node n = None \<and> \<not> subtree_changed n) (node_list p i ln nxt t)"
  "list_all (\<lambda>n. mapped_node n = None \<and> \<not> subtree_changed n) (forest_list p i ln ts)"
  by (induction p i ln nxt t and p i ln ts rule: node_list_forest_list.induct) (simp_all add: item_node_def)

lemma list_nodes_vector: "tree_vector (list_nodes ts) (list_tree ts)"
proof -
  have e: "list_nodes ts = [root_node (length ts)] @ forest_list 0 1 0 ts @ []" by (simp add: list_nodes_def)
  note r = rep_node_list(2) [OF e]
  have "parents_ok (list_nodes ts)" unfolding parents_ok_def
  proof (intro allI impI)
    fix j assume j: "j < length (list_nodes ts)"
    show "case node_parent (list_nodes ts ! j) of None \<Rightarrow> True | Some q \<Rightarrow> q < j"
    proof (cases j)
      case 0
      then show ?thesis by (simp add: list_nodes_def root_node_def TreeNode_init_def)
    next
      case (Suc k)
      then show ?thesis using node_list_parents(2) [of 0 1 k ts 0] j by (auto simp: list_nodes_def)
    qed
  qed
  moreover have "distinct (labs (list_tree ts))" using labs_label(2) [of 1 ts] by (simp add: list_tree_def del: upt_Suc)
  moreover have "rep_tree (list_nodes ts) None None (list_tree ts)" using r
    by (auto simp: list_tree_def first_lab_forest) (simp_all add: list_nodes_def root_node_def TreeNode_init_def)
  ultimately show ?thesis using r node_list_fresh(2) [of 0 1 0 ts] by (simp add: tree_vector_def list_tree_def) (simp add: list_nodes_def root_node_def TreeNode_init_def)
qed

lemma list_shows: "shows_forest (list_nodes ts) (kids (list_tree ts)) 0 ts"
  using rep_node_list(2) [of "list_nodes ts" "[root_node (length ts)]" 0 1 0 ts "[]"] by (simp add: list_nodes_def list_tree_def)

end
