(* ===== verification/Tree_Compare.thy ===== *)
theory Tree_Compare
  imports Tree_Reader_Correct
begin

text \<open>
  What the comparison of two file lists reports, in terms of the items of the lists: an entry is the path of types and names that leads to an
  item, the lines of the items on the path, and the item. The line of an item is the id the comparison reports for it.
\<close>

type_synonym entry = "(bool \<times> string) list \<times> nat list \<times> SFile"

definition item_key :: "SFile \<Rightarrow> bool \<times> string" where
  "item_key cf = (isdir cf, c_str (name cf))"

fun tree_entries :: "nat \<Rightarrow> ftree \<Rightarrow> entry list" and forest_entries :: "nat \<Rightarrow> ftree list \<Rightarrow> entry list" where
  "tree_entries ln (FT cf kvs ts) = ([item_key cf], [ln], cf) # map (\<lambda>(q, is, c). (item_key cf # q, ln # is, c)) (forest_entries (ln + 1) ts)"
| "forest_entries ln [] = []"
| "forest_entries ln (t # ts) = tree_entries ln t @ forest_entries (ln + flines t) ts"

text \<open>The same type and name, and for a file the same size and change indicator.\<close>

definition unchanged :: "SFile \<Rightarrow> SFile \<Rightarrow> bool" where
  "unchanged a b \<longleftrightarrow> item_key a = item_key b \<and> (isdir b \<or> fsize a = fsize b \<and> last_modified a = last_modified b)"

subsection \<open>Entries and nodes\<close>

abbreviation some_name :: "bool \<times> string \<Rightarrow> bool \<times> string option" where
  "some_name k \<equiv> (fst k, Some (snd k))"

lemma shows_item_key: "shows_item n ln cf \<Longrightarrow> node_key n = some_name (item_key cf)" "shows_item n ln cf \<Longrightarrow> node_id n = ln"
  by (auto simp: shows_item_def node_key_def item_node_def item_key_def split: if_splits)

lemma entry_lines: "(q, is, cf) \<in> set (tree_entries ln t) \<Longrightarrow> is \<noteq> []" "(q, is, cf) \<in> set (forest_entries ln ts) \<Longrightarrow> is \<noteq> []"
  by (induction ln t and ln ts arbitrary: q "is" and q "is" rule: tree_entries_forest_entries.induct) auto

lemma some_name_inj: "some_name k = some_name k' \<longleftrightarrow> k = k'"
  by (cases k; cases k') simp

lemma map_some_name: "map some_name q = map some_name q' \<longleftrightarrow> q = q'"
  by (rule inj_map_eq_map) (auto simp: inj_def)

lemma leads_Node: "leads B D t p u \<Longrightarrow> kids t = Ts \<Longrightarrow> p \<noteq> [] \<Longrightarrow> leads B D (Node x Ts) p u"
  by (cases p) (auto simp: leads_Cons)

lemma leads_more: "leads B D (Node x Ts) p u \<Longrightarrow> set Ts \<subseteq> set (kids t) \<Longrightarrow> p \<noteq> [] \<Longrightarrow> leads B D t p u"
  by (cases p) (auto simp: leads_Cons)

lemma entry_leads:
  "shows_tree ns T ln t \<Longrightarrow> (q, is, cf) \<in> set (tree_entries ln t) \<Longrightarrow> set is \<inter> D = {} \<Longrightarrow>
     \<exists>u. leads ns D (Node x [T]) (map some_name q) u \<and> shows_item (ns ! lab u) (last is) cf \<and> q \<noteq> []"
  "shows_forest ns Ts ln ts \<Longrightarrow> (q, is, cf) \<in> set (forest_entries ln ts) \<Longrightarrow> set is \<inter> D = {} \<Longrightarrow>
     \<exists>u. leads ns D (Node x Ts) (map some_name q) u \<and> shows_item (ns ! lab u) (last is) cf \<and> q \<noteq> []"
proof (induction ns T ln t and ns Ts ln ts arbitrary: x q "is" and x q "is" rule: shows_tree_shows_forest.induct)
  case (1 ns i Ts ln cf' kvs ts)
  show ?case
  proof (cases "(q, is, cf) = ([item_key cf'], [ln], cf')")
    case True
    then show ?thesis using 1(2,4) shows_item_key [of "ns ! i"] by (intro exI [of _ "Node i Ts"]) (auto simp: leads_Cons)
  next
    case False
    then obtain q' is' where q: "(q', is', cf) \<in> set (forest_entries (ln + 1) ts)" "q = item_key cf' # q'" "is = ln # is'" using 1(3) by auto
    obtain u where u: "leads ns D (Node i Ts) (map some_name q') u" "shows_item (ns ! lab u) (last is') cf" "q' \<noteq> []"
      using 1(1) [OF _ q(1)] 1(2,4) q(3) by auto
    have "is' \<noteq> []" using entry_lines(2) [OF q(1)] .
    then show ?thesis using u q 1(2,4) shows_item_key [of "ns ! i" ln cf'] by (intro exI [of _ u]) (auto simp: leads_Cons)
  qed
next
  case (3 ns T Ts ln t ts)
  consider "(q, is, cf) \<in> set (tree_entries ln t)" | "(q, is, cf) \<in> set (forest_entries (ln + flines t) ts)" using 3(4) by auto
  then show ?case
  proof cases
    case 1
    then obtain u where "leads ns D (Node x [T]) (map some_name q) u" "shows_item (ns ! lab u) (last is) cf" "q \<noteq> []" using 3(1) [of q "is" x] 3(3,5) by auto
    then show ?thesis using leads_more [of ns D x "[T]" "map some_name q" u "Node x (T # Ts)"] by auto
  next
    case 2
    then obtain u where "leads ns D (Node x Ts) (map some_name q) u" "shows_item (ns ! lab u) (last is) cf" "q \<noteq> []" using 3(2) [of q "is" x] 3(3,5) by auto
    then show ?thesis using leads_more [of ns D x Ts "map some_name q" u "Node x (T # Ts)"] by auto
  qed
qed auto

lemma shows_kids: "shows_tree ns T ln t \<Longrightarrow> shows_item (ns ! lab T) ln (ft_item t) \<and> shows_forest ns (kids T) (ln + 1) (ft_kids t)"
  by (cases T; cases t) simp

lemma tree_entries_eq:
  "tree_entries ln t = ([item_key (ft_item t)], [ln], ft_item t) # map (\<lambda>(q, is, c). (item_key (ft_item t) # q, ln # is, c)) (forest_entries (ln + 1) (ft_kids t))"
  by (cases t) simp

lemma shows_member:
  "shows_forest ns Ts ln ts \<Longrightarrow> c \<in> set Ts \<Longrightarrow> \<exists>ln' t. t \<in> set ts \<and> shows_tree ns c ln' t \<and> set (tree_entries ln' t) \<subseteq> set (forest_entries ln ts)"
proof (induction Ts arbitrary: ln ts)
  case (Cons T Ts)
  then obtain t ts' where ts: "ts = t # ts'" "shows_tree ns T ln t" "shows_forest ns Ts (ln + flines t) ts'" by (cases ts) auto
  show ?case
  proof (cases "c = T")
    case True
    then show ?thesis using ts by auto
  next
    case False
    then obtain ln' t' where "t' \<in> set ts'" "shows_tree ns c ln' t'" "set (tree_entries ln' t') \<subseteq> set (forest_entries (ln + flines t) ts')"
      using Cons.IH [OF ts(3)] Cons.prems(2) by auto
    then show ?thesis using ts(1) by auto
  qed
qed simp

lemma leads_entry:
  "leads ns D T p u \<Longrightarrow> shows_forest ns (kids T) ln ts \<Longrightarrow> p \<noteq> [] \<Longrightarrow>
     \<exists>q is cf. p = map some_name q \<and> (q, is, cf) \<in> set (forest_entries ln ts) \<and> shows_item (ns ! lab u) (last is) cf \<and> set is \<inter> D = {}"
proof (induction arbitrary: ln ts rule: leads.induct)
  case (here t)
  then show ?case by simp
next
  case (down c T p u)
  obtain ln' t where t: "shows_tree ns c ln' t" "set (tree_entries ln' t) \<subseteq> set (forest_entries ln ts)" using shows_member [OF down.prems(1) down(1)] by blast
  note k = shows_kids [OF t(1)]
  have nk: "node_key (ns ! lab c) = some_name (item_key (ft_item t))" "ln' \<notin> D" using k shows_item_key [of "ns ! lab c"] down(2) by auto
  show ?case
  proof (cases "p = []")
    case True
    have "([item_key (ft_item t)], [ln'], ft_item t) \<in> set (forest_entries ln ts)" using t(2) tree_entries_eq [of ln' t] by auto
    moreover have "u = c" using True down(3) by simp
    ultimately show ?thesis using k nk True
      by (intro exI [of _ "[item_key (ft_item t)]"] exI [of _ "[ln']"] exI [of _ "ft_item t"]) simp
  next
    case False
    then obtain q "is" cf where q: "p = map some_name q" "(q, is, cf) \<in> set (forest_entries (ln' + 1) (ft_kids t))" "shows_item (ns ! lab u) (last is) cf" "set is \<inter> D = {}"
      using down.IH [of "ln' + 1" "ft_kids t"] k by blast
    have "(item_key (ft_item t) # q, ln' # is, cf) \<in> set (forest_entries ln ts)" using q(2) t(2) tree_entries_eq [of ln' t] by force
    then show ?thesis using q nk entry_lines(2) [OF q(2)]
      by (intro exI [of _ "item_key (ft_item t) # q"] exI [of _ "ln' # is"] exI [of _ cf]) simp
  qed
qed

text \<open>An entry below an item: the path splits at the item.\<close>

lemma entry_split:
  "shows_tree ns T ln t \<Longrightarrow> (q, is, cf) \<in> set (tree_entries ln t) \<Longrightarrow> y \<in> set is \<Longrightarrow>
     \<exists>q1 q2 u w. q = q1 @ q2 \<and> q1 \<noteq> [] \<and> leads ns {} (Node x [T]) (map some_name q1) u \<and> node_id (ns ! lab u) = y \<and>
       leads ns {} u (map some_name q2) w \<and> shows_item (ns ! lab w) (last is) cf"
  "shows_forest ns Ts ln ts \<Longrightarrow> (q, is, cf) \<in> set (forest_entries ln ts) \<Longrightarrow> y \<in> set is \<Longrightarrow>
     \<exists>q1 q2 u w. q = q1 @ q2 \<and> q1 \<noteq> [] \<and> leads ns {} (Node x Ts) (map some_name q1) u \<and> node_id (ns ! lab u) = y \<and>
       leads ns {} u (map some_name q2) w \<and> shows_item (ns ! lab w) (last is) cf"
proof (induction ns T ln t and ns Ts ln ts arbitrary: x q "is" and x q "is" rule: shows_tree_shows_forest.induct)
  case (1 ns i Ts ln cf' kvs ts)
  have n: "node_key (ns ! i) = some_name (item_key cf')" "node_id (ns ! i) = ln" using 1(2) shows_item_key [of "ns ! i"] by auto
  then have root: "leads ns {} (Node x [Node i Ts]) (map some_name [item_key cf']) (Node i Ts)" by (auto simp: leads_Cons)
  consider (top) "q = [item_key cf']" "is = [ln]" "cf = cf'"
    | (below) q' is' where "(q', is', cf) \<in> set (forest_entries (ln + 1) ts)" "q = item_key cf' # q'" "is = ln # is'" using 1(3) by auto
  then show ?case
  proof cases
    case top
    then show ?thesis using root n 1(2,4)
      by (intro exI [of _ q] exI [of _ "[]"] exI [of _ "Node i Ts"] exI [of _ "Node i Ts"]) simp
  next
    case below
    note ne = entry_lines(2) [OF below(1)]
    have s: "shows_forest ns Ts (ln + 1) ts" using 1(2) by simp
    show ?thesis
    proof (cases "y = ln")
      case True
      obtain w where "leads ns {} (Node i Ts) (map some_name q') w" "shows_item (ns ! lab w) (last is') cf"
        using entry_leads(2) [OF s below(1), of "{}" i] by auto
      then show ?thesis using root n True below(2,3) ne
        by (intro exI [of _ "[item_key cf']"] exI [of _ q'] exI [of _ "Node i Ts"] exI [of _ w]) simp
    next
      case False
      then obtain q1 q2 u w where *: "q' = q1 @ q2" "q1 \<noteq> []" "leads ns {} (Node i Ts) (map some_name q1) u" "node_id (ns ! lab u) = y"
          "leads ns {} u (map some_name q2) w" "shows_item (ns ! lab w) (last is') cf"
        using 1(1) [OF s below(1), of i] 1(4) below(3) by auto
      have "leads ns {} (Node x [Node i Ts]) (map some_name (item_key cf' # q1)) u" using *(3) n(1) by (auto simp: leads_Cons)
      then show ?thesis using * below(2,3) ne
        by (intro exI [of _ "item_key cf' # q1"] exI [of _ q2] exI [of _ u] exI [of _ w]) simp
    qed
  qed
next
  case (3 ns T Ts ln t ts)
  have up: "leads ns {} (Node x (T # Ts)) (map some_name q1) u" if "set Us \<subseteq> set (T # Ts)" "leads ns {} (Node x Us) (map some_name q1) u" "q1 \<noteq> []" for Us q1 u
    using that leads_more [of ns "{}" x Us "map some_name q1" u "Node x (T # Ts)"] by simp
  consider "(q, is, cf) \<in> set (tree_entries ln t)" | "(q, is, cf) \<in> set (forest_entries (ln + flines t) ts)" using 3(4) by auto
  then show ?case
  proof cases
    case 1
    show ?thesis using 3(1) [OF _ 1 3(5), of x] 3(3) up [of "[T]"] by fastforce
  next
    case 2
    show ?thesis using 3(2) [OF _ 2 3(5), of x] 3(3) up [of Ts] by fastforce
  qed
qed auto

subsection \<open>Items\<close>

lemma entry_item_ok:
  "ftree_ok t \<Longrightarrow> (q, is, cf) \<in> set (tree_entries ln t) \<Longrightarrow> \<exists>kvs. item_ok (cf, kvs)"
  "list_all ftree_ok ts \<Longrightarrow> (q, is, cf) \<in> set (forest_entries ln ts) \<Longrightarrow> \<exists>kvs. item_ok (cf, kvs)"
  by (induction ln t and ln ts arbitrary: q "is" and q "is" rule: tree_entries_forest_entries.induct) auto

lemma word_of_int_64:
  assumes "int64_min \<le> i" "i \<le> int64_max" "int64_min \<le> j" "j \<le> int64_max"
  shows "(word_of_int i :: u64) = word_of_int j \<longleftrightarrow> i = j"
proof
  assume e: "(word_of_int i :: u64) = word_of_int j"
  have "sint (word_of_int k :: u64) = k" if "int64_min \<le> k" "k \<le> int64_max" for k
    using that by (simp add: sint_sbintrunc' signed_take_bit_int_eq_self int64_min_def int64_max_def)
  then show "i = j" using assms e by metis
qed simp

lemma keeps_unchanged:
  assumes "shows_item n l a" "shows_item n' l' b" "item_ok (a, kvs)" "item_ok (b, kvs')" "node_key n = node_key n'"
  shows "keeps n n' \<longleftrightarrow> unchanged a b"
proof -
  have k: "item_key a = item_key b" using assms(5) shows_item_key(1) [OF assms(1)] shows_item_key(1) [OF assms(2)] some_name_inj by metis
  have w: "(word_of_int (fsize a) :: u64) = word_of_int (fsize b) \<longleftrightarrow> fsize a = fsize b"
      "(word_of_int (last_modified a) :: u64) = word_of_int (last_modified b) \<longleftrightarrow> last_modified a = last_modified b"
    using assms(3,4) word_of_int_64 by (simp_all add: item_ok_def)
  have d: "isdir a = isdir b" using k by (simp add: item_key_def)
  then show ?thesis using assms(1,2) k w
    by (cases "isdir b") (auto simp: keeps_def unchanged_def dataEquals_def TreeNode_getDataSize_def shows_item_def item_node_def)
qed

text \<open>The same data: also for a directory the change indicator. Whether an item is a symbolic link is said by its change indicator.\<close>

definition same_item :: "SFile \<Rightarrow> SFile \<Rightarrow> bool" where
  "same_item a b \<longleftrightarrow> item_key a = item_key b \<and> last_modified a = last_modified b \<and> (isdir b \<or> fsize a = fsize b)"

definition item_symlink :: "bool \<Rightarrow> bool \<Rightarrow> SFile \<Rightarrow> bool" where
  "item_symlink has_symbit is_windows cf =
     (let change_indicator :: u64 = word_of_int (last_modified cf)
      in if has_symbit then and change_indicator 0x4000000000000000 \<noteq> 0
         else if is_windows then (and change_indicator 0x8000000000000000 = 0 \<or> isdir cf) \<and> and change_indicator 0x7000000000000000 > 0
         else and change_indicator 0x8000000000000000 \<noteq> 0)"

lemma shows_symlink: "shows_item n l cf \<Longrightarrow> isSymlink n hs wn = item_symlink hs wn cf"
  by (cases "isdir cf") (auto simp: isSymlink_def item_symlink_def TreeNode_getDataSize_def shows_item_def item_node_def Let_def)

lemma data_same:
  assumes "shows_item n l a" "shows_item n' l' b" "item_ok (a, kvs)" "item_ok (b, kvs')" "node_key n = node_key n'"
  shows "dataEquals n n' \<longleftrightarrow> same_item a b"
proof -
  have k: "item_key a = item_key b" using assms(5) shows_item_key(1) [OF assms(1)] shows_item_key(1) [OF assms(2)] some_name_inj by metis
  have w: "(word_of_int (fsize a) :: u64) = word_of_int (fsize b) \<longleftrightarrow> fsize a = fsize b"
      "(word_of_int (last_modified a) :: u64) = word_of_int (last_modified b) \<longleftrightarrow> last_modified a = last_modified b"
    using assms(3,4) word_of_int_64 by (simp_all add: item_ok_def)
  have d: "isdir a = isdir b" using k by (simp add: item_key_def)
  then show ?thesis using assms(1,2) k w
    by (cases "isdir b") (auto simp: same_item_def dataEquals_def TreeNode_getDataSize_def shows_item_def item_node_def)
qed

text \<open>The ids of the nodes grow along the vector.\<close>

lemma forest_ids:
  "ftree_ok t \<Longrightarrow> sorted_wrt (<) (map node_id (node_list p i ln nxt t)) \<and> (\<forall>n \<in> set (node_list p i ln nxt t). ln \<le> node_id n \<and> node_id n < ln + flines t)"
  "list_all ftree_ok ts \<Longrightarrow> sorted_wrt (<) (map node_id (forest_list p i ln ts)) \<and>
     (\<forall>n \<in> set (forest_list p i ln ts). ln \<le> node_id n \<and> node_id n < ln + sum_list (map flines ts))"
proof (induction p i ln nxt t and p i ln ts rule: node_list_forest_list.induct)
  case (1 p i ln nxt cf kvs ts)
  then show ?case by (force simp: item_node_def)
next
  case (3 p i ln t ts)
  then show ?case by (force simp: sorted_wrt_append)
qed simp

lemma labs_preorder: "map lab (preorder t) = labs t" "map lab (concat (map preorder ts)) = forest_labs ts"
proof -
  show p: "map lab (preorder t) = labs t" for t by (induction t) (simp add: map_concat comp_def cong: map_cong)
  show "map lab (concat (map preorder ts)) = forest_labs ts" by (simp add: map_concat comp_def p)
qed

abbreviation list_preorder :: "ftree list \<Rightarrow> tree list" where
  "list_preorder ts \<equiv> concat (map preorder (kids (list_tree ts)))"

lemma node_id_unique:
  assumes "list_all ftree_ok ts" "u \<in> set (list_preorder ts)" "v \<in> set (list_preorder ts)" "node_id (list_nodes ts ! lab u) = node_id (list_nodes ts ! lab v)"
  shows "u = v"
proof -
  let ?n = "sum_list (map fnodes ts)"
  have l: "map lab (list_preorder ts) = [1 ..< 1 + ?n]" using labs_label(2) [of 1 ts] labs_preorder(2) [of "kids (list_tree ts)"] by (simp add: list_tree_def)
  have m: "lab w \<in> {1 ..< 1 + ?n}" if "w \<in> set (list_preorder ts)" for w
    using that l by (metis atLeastLessThan_upt image_eqI set_map)
  obtain i j where ij: "lab u = Suc i" "i < ?n" "lab v = Suc j" "j < ?n"
    using m [OF assms(2)] m [OF assms(3)] by (cases "lab u"; cases "lab v") auto
  have s: "sorted_wrt (<) (map node_id (forest_list 0 1 0 ts))" using forest_ids(2) [OF assms(1)] by blast
  have "map node_id (forest_list 0 1 0 ts) ! i = map node_id (forest_list 0 1 0 ts) ! j" using assms(4) ij by (simp add: list_nodes_def)
  moreover have "distinct (map node_id (forest_list 0 1 0 ts))" using s strict_sorted_iff by blast
  ultimately have "i = j" using ij by (metis length_map length_node_list(2) nth_eq_iff_index_eq)
  moreover have "inj_on lab (set (list_preorder ts))" using l distinct_upt distinct_map by metis
  ultimately show ?thesis using inj_onD [of lab _ u v] ij assms(2,3) by simp
qed

lemma list_kids: "lab (list_tree ts) = 0"
  by (simp add: list_tree_def)

lemma diffTrees_text:
  assumes "list_all ftree_ok old" "list_all ftree_ok new"
  shows "diffTrees hs w de la m di (list_text old) (list_text new) = map_option Inr (diffTrees_nodes hs w de la m di (list_nodes old) (list_nodes new))"
  using readTree_text [OF assms(1)] readTree_text [OF assms(2)] by (simp add: diffTrees_def)

text \<open>The list has the item at the path, unchanged.\<close>

definition has_entry :: "ftree list \<Rightarrow> (bool \<times> string) list \<Rightarrow> SFile \<Rightarrow> bool" where
  "has_entry ts q cf \<longleftrightarrow> (\<exists>(q', is, cf') \<in> set (forest_entries 0 ts). q' = q \<and> unchanged cf' cf)"

lemma unchanged_sym: "unchanged a b \<longleftrightarrow> unchanged b a"
  by (auto simp: unchanged_def item_key_def)

lemma leads_key: "leads B D t p u \<Longrightarrow> p \<noteq> [] \<Longrightarrow> node_key (B ! lab u) = last p"
proof (induction rule: leads.induct)
  case (down c t p u)
  then show ?case by (cases "p = []") auto
qed simp

text \<open>A node of one list and one of the other at the same path, with the same data.\<close>

definition has_same_entry :: "ftree list \<Rightarrow> (bool \<times> string) list \<Rightarrow> SFile \<Rightarrow> bool" where
  "has_same_entry ts q cf \<longleftrightarrow> (\<exists>(q', is, cf') \<in> set (forest_entries 0 ts). q' = q \<and> same_item cf' cf)"

lemma leads_has_entry:
  assumes "list_all ftree_ok ts" "leads (list_nodes ts) D (list_tree ts) (map some_name q) v" "q \<noteq> []" "shows_item n l cf" "item_ok (cf, kvs)"
    "node_key n = some_name (last q)"
  shows "keeps (list_nodes ts ! lab v) n \<Longrightarrow> has_entry ts q cf" "dataEquals (list_nodes ts ! lab v) n \<Longrightarrow> has_same_entry ts q cf"
proof -
  obtain q' "is" a where a': "map some_name q = map some_name q'" "(q', is, a) \<in> set (forest_entries 0 ts)" "shows_item (list_nodes ts ! lab v) (last is) a"
    using leads_entry [OF assms(2) list_shows] assms(3) by auto
  then have a: "(q, is, a) \<in> set (forest_entries 0 ts)" "shows_item (list_nodes ts ! lab v) (last is) a" using map_some_name by auto
  obtain kvs' where k: "item_ok (a, kvs')" using entry_item_ok(2) [OF assms(1) a(1)] by blast
  have n: "node_key (list_nodes ts ! lab v) = node_key n" using leads_key [OF assms(2)] assms(3,6) by (simp add: last_map)
  show "has_entry ts q cf" if "keeps (list_nodes ts ! lab v) n"
    using keeps_unchanged [OF a(2) assms(4) k assms(5) n] that a(1) by (auto simp: has_entry_def)
  show "has_same_entry ts q cf" if "dataEquals (list_nodes ts ! lab v) n"
    using data_same [OF a(2) assms(4) k assms(5) n] that a(1) by (auto simp: has_same_entry_def)
qed

subsection \<open>The results of a run\<close>

lemma entry_node:
  assumes "list_all ftree_ok ts" "(q, is, cf) \<in> set (forest_entries 0 ts)" "set is \<inter> D = {}"
  obtains u kvs where "leads (list_nodes ts) D (list_tree ts) (map some_name q) u" "shows_item (list_nodes ts ! lab u) (last is) cf" "q \<noteq> []" "item_ok (cf, kvs)"
    "node_key (list_nodes ts ! lab u) = some_name (last q)"
proof -
  obtain u where u: "leads (list_nodes ts) D (Node 0 (kids (list_tree ts))) (map some_name q) u" "shows_item (list_nodes ts ! lab u) (last is) cf" "q \<noteq> []"
    using entry_leads(2) [OF list_shows assms(2,3)] by blast
  obtain kvs where "item_ok (cf, kvs)" using entry_item_ok(2) [OF assms(1,2)] by blast
  moreover have l: "leads (list_nodes ts) D (list_tree ts) (map some_name q) u" using u(1) by (simp add: list_tree_def)
  moreover have "node_key (list_nodes ts ! lab u) = some_name (last q)" using leads_key [OF l] u(3) by (simp add: last_map)
  ultimately show ?thesis using that u by blast
qed

lemma list_ok: "list_all (tree_ok (list_nodes ts)) (kids (list_tree ts))" "rep_forest (list_nodes ts) (Some 0) (kids (list_tree ts))" "distinct (forest_labs (kids (list_tree ts)))"
proof -
  have v: "tree_vector (list_nodes ts) (list_tree ts)" by (rule list_nodes_vector)
  then show "list_all (tree_ok (list_nodes ts)) (kids (list_tree ts))" by (simp add: tree_vector_def)
  show "rep_forest (list_nodes ts) (Some 0) (kids (list_tree ts))" using v rep_treeD(4) [of "list_nodes ts" None None "list_tree ts"] by (simp add: tree_vector_def)
  show "distinct (forest_labs (kids (list_tree ts)))" using v labs_eq [of "list_tree ts"] by (simp add: tree_vector_def)
qed

lemma run_reported:
  assumes "list_all ftree_ok old" "list_all ftree_ok new" "run hs wn 0 0 (kids (list_tree old)) (kids (list_tree old)) (kids (list_tree new)) (start_state m di (list_nodes old) (list_nodes new)) st"
    "(q, is, cf) \<in> set (forest_entries 0 new)" "set is \<inter> set (diffs st) = {}"
  shows "has_entry old q cf"
proof -
  obtain u kvs where u: "leads (list_nodes new) (set (diffs st)) (list_tree new) (map some_name q) u" "shows_item (list_nodes new ! lab u) (last is) cf" "q \<noteq> []"
      "item_ok (cf, kvs)" "node_key (list_nodes new ! lab u) = some_name (last q)" by (rule entry_node [OF assms(2,4,5)])
  have "\<forall>b \<in> set (kids (list_tree new)). covered keeps (list_nodes old) (list_nodes new) (set (diffs st)) (kids (list_tree old)) b"
    using run_covered [OF assms(3) start_ok(2) [OF list_nodes_vector list_nodes_vector] list_ok(1) list_ok(1)] by blast
  from covered_leads [OF u(1) this] obtain v where "leads (list_nodes old) {} (list_tree old) (map some_name q) v" "keeps (list_nodes old ! lab v) (list_nodes new ! lab u)"
    using u(3) by auto
  then show ?thesis using leads_has_entry(1) [OF assms(1) _ u(3,2,4,5)] by blast
qed

lemma leads_kids: "leads B D T (k # p) u \<longleftrightarrow> (\<exists>c \<in> set (kids T). node_key (B ! lab c) = k \<and> node_id (B ! lab c) \<notin> D \<and> leads B D c p u)"
  by (auto simp: leads_Cons)

lemma keeps_sym: "keeps a b \<Longrightarrow> keeps b a"
  by (auto simp: keeps_def dataEquals_def TreeNode_getDataSize_def split: option.splits)

lemma run_not_deleted:
  assumes "list_all ftree_ok old" "list_all ftree_ok new" "run hs wn 0 0 (kids (list_tree old)) (kids (list_tree old)) (kids (list_tree new)) (start_state m di (list_nodes old) (list_nodes new)) st"
    "(q, is, cf) \<in> set (forest_entries 0 old)" "last is \<notin> (\<lambda>u. node_id (list_nodes old ! lab u)) ` {u \<in> set (list_preorder old). mapped1 st (lab u) = None}"
  shows "has_entry new q cf"
proof -
  obtain v kvs where v: "leads (list_nodes old) {} (list_tree old) (map some_name q) v" "shows_item (list_nodes old ! lab v) (last is) cf" "q \<noteq> []"
      "item_ok (cf, kvs)" "node_key (list_nodes old ! lab v) = some_name (last q)" by (rule entry_node [OF assms(1,4), of "{}"]) simp
  obtain k q' where q: "q = k # q'" using v(3) by (cases q) auto
  obtain a where a: "a \<in> set (kids (list_tree old))" "node_key (list_nodes old ! lab a) = some_name k" "leads (list_nodes old) {} a (map some_name q') v"
    using v(1) q by (auto simp: leads_kids)
  have "v \<in> set (list_preorder old)" using leads_preorder [OF a(3)] a(1) by auto
  then have "mapped1 st (lab v) \<noteq> None" using assms(5) shows_item_key(2) [OF v(2)] by (metis (mono_tags, lifting) image_eqI mem_Collect_eq)
  moreover have "lab v < length (list_nodes old)" using tree_okD(1) preorder_ok [OF list_ok(1)] \<open>v \<in> set (list_preorder old)\<close> by blast
  then have "mapped_node (list_nodes old ! lab v) = None" using list_nodes_vector [of old] by (simp add: tree_vector_def list_all_length)
  ultimately have "mapped1 st (lab v) \<noteq> mapped1 (start_state m di (list_nodes old) (list_nodes new)) (lab v)" by simp
  from run_mapped [OF assms(3) start_ok(2) [OF list_nodes_vector list_nodes_vector] list_ok(1) list_ok(1) _ list_ok(3) a(1,3) this]
  obtain b u where b: "b \<in> set (kids (list_tree new))" "node_key (list_nodes new ! lab b) = some_name k" "leads (list_nodes new) {} b (map some_name q') u"
      "keeps (list_nodes old ! lab v) (list_nodes new ! lab u)" using a(2) by auto
  then have "leads (list_nodes new) {} (list_tree new) (map some_name q) u" using q by (auto simp: leads_kids)
  then show ?thesis using leads_has_entry(1) [OF assms(2) _ v(3,2,4,5)] keeps_sym b(4) by blast
qed

lemma leads_trans: "leads B D s p t \<Longrightarrow> leads B D t p' u \<Longrightarrow> leads B D s (p @ p') u"
  by (induction rule: leads.induct) (auto intro: leads.intros)

lemma run_large_below:
  assumes "list_all ftree_ok old" "list_all ftree_ok new" "run hs wn 0 0 (kids (list_tree old)) (kids (list_tree old)) (kids (list_tree new)) (start_state m di (list_nodes old) (list_nodes new)) st"
    "u \<in> set (list_preorder new)" "lab u \<notin> marked (nodes2 st)" "mapped2 st (lab u) \<noteq> None"
    "(q, is, cf) \<in> set (forest_entries 0 new)" "node_id (list_nodes new ! lab u) \<in> set is"
  shows "has_entry old q cf \<and> (has_same_entry old q cf \<and> \<not> item_symlink hs wn cf \<or>
    last is = node_id (list_nodes new ! lab u) \<and> (has_same_entry old q cf \<or> last is \<in> set (dir_diffs st)))"
proof -
  let ?B1 = "list_nodes old" and ?B2 = "list_nodes new"
  obtain q1 q2 u' w where s: "q = q1 @ q2" "q1 \<noteq> []" "leads ?B2 {} (Node 0 (kids (list_tree new))) (map some_name q1) u'" "node_id (?B2 ! lab u') = node_id (?B2 ! lab u)"
      "leads ?B2 {} u' (map some_name q2) w" "shows_item (?B2 ! lab w) (last is) cf"
    using entry_split(2) [OF list_shows assms(7,8)] by blast
  have s3: "leads ?B2 {} (list_tree new) (map some_name q1) u'" using s(3) by (simp add: list_tree_def)
  obtain k q1' where q1: "q1 = k # q1'" using s(2) by (cases q1) auto
  obtain b where b: "b \<in> set (kids (list_tree new))" "node_key (?B2 ! lab b) = some_name k" "leads ?B2 {} b (map some_name q1') u'"
    using s3 q1 by (auto simp: leads_kids)
  have "u' \<in> set (list_preorder new)" using leads_preorder [OF b(3)] b(1) by auto
  then have u': "u' = u" using node_id_unique [OF assms(2) _ assms(4) s(4)] by blast
  obtain a v where a: "a \<in> set (kids (list_tree old))" "node_key (?B1 ! lab a) = node_key (?B2 ! lab b)" "leads ?B1 {} a (map some_name q1') v"
      "keeps (?B1 ! lab v) (?B2 ! lab u)" "dataEquals (?B1 ! lab v) (?B2 ! lab u) \<or> node_id (?B2 ! lab u) \<in> set (dir_diffs st)"
      "\<forall>b \<in> set (kids u). covered (same_node hs wn) ?B1 ?B2 {} (kids v) b"
    using run_large [OF assms(3) start_ok(2) [OF list_nodes_vector list_nodes_vector] list_ok(1) list_ok(1) _ list_ok(2) _ start_ok(4) [OF list_nodes_vector list_nodes_vector] b(1)
        b(3) [unfolded u'] assms(6,5)] start_ok(3) [OF list_nodes_vector list_nodes_vector] by auto
  obtain v' where v': "leads ?B1 {} v (map some_name q2) v'" "q2 \<noteq> [] \<longrightarrow> same_node hs wn (?B1 ! lab v') (?B2 ! lab w)"
    using covered_leads [OF s(5) [unfolded u'] a(6)] by auto
  have "leads ?B1 {} (list_tree old) (map some_name q1) v" using a(1-3) b(2) q1 by (auto simp: leads_kids)
  then have l: "leads ?B1 {} (list_tree old) (map some_name q) v'" using leads_trans v'(1) s(1) by force
  have lw: "leads ?B2 {} (list_tree new) (map some_name q) w" using leads_trans [OF s3 s(5)] s(1) by simp
  obtain kvs where ok: "item_ok (cf, kvs)" using entry_item_ok(2) [OF assms(2,7)] by blast
  have q: "q \<noteq> []" using s(1,2) by simp
  have "node_key (?B2 ! lab w) = some_name (last q)" using leads_key [OF lw] q by (simp add: last_map)
  note e = leads_has_entry [OF assms(1) l q s(6) ok this]
  show ?thesis
  proof (cases "q2 = []")
    case True
    then have w: "w = u" "v' = v" using s(5) v'(1) u' by simp_all
    have "last is = node_id (?B2 ! lab u)" using shows_item_key(2) [OF s(6)] w(1) by simp
    then show ?thesis using e a(4,5) w by auto
  next
    case False
    then have "same_node hs wn (?B1 ! lab v') (?B2 ! lab w)" using v'(2) by blast
    then show ?thesis using e same_keeps shows_symlink [OF s(6)] by (auto simp: same_node_def)
  qed
qed

subsection \<open>The exact differences of sorted lists\<close>

text \<open>The lines the comparison should report: the items without a counterpart in the old list and the files whose data differ.\<close>

definition old_item :: "ftree list \<Rightarrow> SFile \<Rightarrow> ftree option" where
  "old_item as cf = find (\<lambda>a. item_key (ft_item a) = item_key cf) as"

fun changed_tree :: "ftree list \<Rightarrow> nat \<Rightarrow> ftree \<Rightarrow> nat list" and changed_forest :: "ftree list \<Rightarrow> nat \<Rightarrow> ftree list \<Rightarrow> nat list" where
  "changed_tree as ln (FT cf kvs ts) =
     (case old_item as cf of
        Some a \<Rightarrow> if unchanged (ft_item a) cf then changed_forest (ft_kids a) (ln + 1) ts else [ln]
      | None \<Rightarrow> [ln])"
| "changed_forest as ln [] = []"
| "changed_forest as ln (t # ts) = changed_tree as ln t @ changed_forest as (ln + flines t) ts"

text \<open>A directory lists its files before its directories, each by name; of the top level only that no two items have the same type and name is required.\<close>

fun sorted_ftree :: "ftree \<Rightarrow> bool" where
  "sorted_ftree (FT cf kvs ts) \<longleftrightarrow> sorted_wrt (<) (map (item_key \<circ> ft_item) ts) \<and> list_all sorted_ftree ts"

definition sorted_list :: "ftree list \<Rightarrow> bool" where
  "sorted_list ts \<longleftrightarrow> distinct (map (item_key \<circ> ft_item) ts) \<and> list_all sorted_ftree ts"

lemma some_name_less: "some_name k < some_name k' \<longleftrightarrow> k < k'"
  by (cases k; cases k') simp

lemma shows_keys: "shows_forest B Ts ln ts \<Longrightarrow> map (\<lambda>t. node_key (B ! lab t)) Ts = map (some_name \<circ> (item_key \<circ> ft_item)) ts"
proof (induction Ts arbitrary: ln ts)
  case Nil
  then show ?case by (cases ts) auto
next
  case (Cons T Ts)
  then obtain t ts' where t: "ts = t # ts'" "shows_tree B T ln t" "shows_forest B Ts (ln + flines t) ts'" by (cases ts) auto
  then show ?case using Cons.IH [OF t(3)] shows_kids [OF t(2)] shows_item_key(1) [of "B ! lab T" ln "ft_item t"] by simp
qed

lemma shows_sorted:
  "shows_tree B T ln t \<Longrightarrow> sorted_ftree t \<Longrightarrow> sorted_tree B T"
  "shows_forest B Ts ln ts \<Longrightarrow> list_all sorted_ftree ts \<Longrightarrow> list_all (sorted_tree B) Ts"
proof (induction B T ln t and B Ts ln ts rule: shows_tree_shows_forest.induct)
  case (1 ns i Ts ln cf kvs ts)
  have "sorted_wrt (<) (map (\<lambda>t. node_key (ns ! lab t)) Ts)"
    unfolding shows_keys [OF conjunct2 [OF 1(2) [unfolded shows_tree.simps]]] using 1(3)
    by (auto simp: sorted_wrt_map less_prod_def' elim!: sorted_wrt_mono_rel [rotated])
  then show ?case using 1 by simp
qed auto

lemma counterpart_old:
  assumes "shows_forest B As ln as" "node_key n2 = some_name (item_key cf)"
  shows "(counterpart B n2 As = None \<and> old_item as cf = None) \<or>
    (\<exists>A a ln'. counterpart B n2 As = Some A \<and> old_item as cf = Some a \<and> shows_tree B A ln' a \<and> a \<in> set as)"
  using assms(1)
proof (induction As arbitrary: ln as)
  case Nil
  then show ?case by (cases as) (auto simp: counterpart_def old_item_def)
next
  case (Cons A As)
  then obtain a as' where a: "as = a # as'" "shows_tree B A ln a" "shows_forest B As (ln + flines a) as'" by (cases as) auto
  have "node_key (B ! lab A) = some_name (item_key (ft_item a))" using shows_kids [OF a(2)] shows_item_key(1) by blast
  then have "node_key (B ! lab A) = node_key n2 \<longleftrightarrow> item_key (ft_item a) = item_key cf" using assms(2) some_name_inj by metis
  then show ?case using Cons.IH [OF a(3)] a by (auto simp: counterpart_def old_item_def)
qed

lemma ftree_okD: "ftree_ok t \<Longrightarrow> \<exists>kvs. item_ok (ft_item t, kvs)" "ftree_ok t \<Longrightarrow> list_all ftree_ok (ft_kids t)"
  by (cases t; auto)+

lemma spec_ids_lines:
  "shows_tree B2 T ln t \<Longrightarrow> ftree_ok t \<Longrightarrow> shows_forest B1 As l as \<Longrightarrow> list_all ftree_ok as \<Longrightarrow> spec_ids B1 B2 As T = set (changed_tree as ln t)"
  "shows_forest B2 Ts ln ts \<Longrightarrow> list_all ftree_ok ts \<Longrightarrow> shows_forest B1 As l as \<Longrightarrow> list_all ftree_ok as \<Longrightarrow>
     (\<Union>T \<in> set Ts. spec_ids B1 B2 As T) = set (changed_forest as ln ts)"
proof (induction B2 T ln t and B2 Ts ln ts arbitrary: As l as and As l as rule: shows_tree_shows_forest.induct)
  case (1 B2 j Ts ln cf kvs ts)
  have n: "node_key (B2 ! j) = some_name (item_key cf)" "node_id (B2 ! j) = ln" "shows_item (B2 ! j) ln cf" using 1(2) shows_item_key by auto
  show ?case
  proof (cases "old_item as cf")
    case None
    then show ?thesis using counterpart_old [OF 1(4) n(1)] n(2) by auto
  next
    case (Some a)
    then obtain A l' where A: "counterpart B1 (B2 ! j) As = Some A" "shows_tree B1 A l' a" "a \<in> set as" using counterpart_old [OF 1(4) n(1)] by auto
    have ok: "ftree_ok a" using A(3) 1(5) by (auto simp: list_all_iff)
    note k = shows_kids [OF A(2)]
    have "node_key (B1 ! lab A) = node_key (B2 ! j)" using A(1) by (auto simp: counterpart_def find_Some_iff)
    moreover obtain kvs' where "item_ok (ft_item a, kvs')" using ftree_okD(1) [OF ok] by blast
    ultimately have "keeps (B1 ! lab A) (B2 ! j) \<longleftrightarrow> unchanged (ft_item a) cf" using keeps_unchanged [OF conjunct1 [OF k] n(3)] 1(3) by auto
    moreover have "(\<Union>T \<in> set Ts. spec_ids B1 B2 (kids A) T) = set (changed_forest (ft_kids a) (ln + 1) ts)"
      using 1(1) [OF _ _ conjunct2 [OF k] ftree_okD(2) [OF ok]] 1(2,3) by simp
    ultimately show ?thesis using Some A(1) n(2) by simp
  qed
next
  case (3 ns T Ts ln t ts)
  then show ?case by auto
qed auto

subsection \<open>Properties\<close>

lemma start_progress:
  assumes "sorted_list old" "sorted_list new"
  shows "progress (list_nodes old) (list_nodes new) 0 [] (kids (list_tree old)) (kids (list_tree new)) (start_state m di (list_nodes old) (list_nodes new))"
proof -
  have k: "distinct (map (\<lambda>t. node_key (list_nodes ts ! lab t)) (kids (list_tree ts)))" if "sorted_list ts" for ts
    unfolding shows_keys [OF list_shows] map_map [symmetric] using that by (simp add: sorted_list_def distinct_map inj_on_def prod_eq_iff)
  have "mapped_node (list_nodes old ! lab a) = None" if "a \<in> set (kids (list_tree old))" for a
    using that list_ok(1) [of old] tree_okD(1) [of "list_nodes old" a] list_nodes_vector [of old] by (auto simp: tree_vector_def list_all_iff)
  then show ?thesis using k assms list_ok(3) by (simp add: progress_def)
qed

text \<open>C11. Reading a file list: a list written item by item, each directory followed by its content and a line \<open>u\<close>, is read without error, the
  second pass stays within the nodes and the buffer that the first one has measured, and the vector holds the tree of the items: first child, next
  sibling, parent and number of children of every node, its type, name, data and line.\<close>

theorem readTree_roundtrip:
  assumes "list_all ftree_ok ts"
  shows "readTree (list_text ts) = Inr (list_nodes ts) \<and> tree_vector (list_nodes ts) (list_tree ts) \<and> shows_forest (list_nodes ts) (kids (list_tree ts)) 0 ts"
  using readTree_text [OF assms] list_nodes_vector list_shows by blast

definition sample_item :: "bool \<Rightarrow> string \<Rightarrow> int \<Rightarrow> SFile" where
  "sample_item d n i = SFile_init\<lparr>name := n, fsize := i, last_modified := i, isdir := d\<rparr>"

definition sample_list :: "string \<Rightarrow> ftree list" where
  "sample_list cs = [FT (sample_item True ''a'' 7) [] (map (\<lambda>c. FT (sample_item False [c] 5) [] []) cs)]"

lemma sample_ok: "list_all ftree_ok (sample_list cs)"
  by (simp add: sample_list_def sample_item_def item_ok_def extra_ok_def list_all_iff int64_min_def int64_max_def SFile_init_def)

theorem readTree_roundtrip_witness:
  "\<exists>ns. readTree (''d'' @ [CHR 0x22] @ ''a'' @ [CHR 0x22] @ '' 0 7'' @ [CHR 0x0A] @ ''f'' @ [CHR 0x22] @ ''b'' @ [CHR 0x22] @ '' 5 5'' @ [CHR 0x0A] @ ''u'' @ [CHR 0x0A]) = Inr ns \<and>
     map (\<lambda>n. (node_name n, nextSibling n, node_parent n, num_children n, node_id n)) ns =
       [(Some ''root'', None, None, 1, 0), (Some ''a'', None, Some 0, 1, 0), (Some ''b'', None, Some 1, 0, 1)]"
proof -
  have "list_text (sample_list ''b'') = ''d'' @ [CHR 0x22] @ ''a'' @ [CHR 0x22] @ '' 0 7'' @ [CHR 0x0A] @ ''f'' @ [CHR 0x22] @ ''b'' @ [CHR 0x22] @ '' 5 5'' @ [CHR 0x0A] @ ''u'' @ [CHR 0x0A]"
    by code_simp
  moreover have "map (\<lambda>n. (node_name n, nextSibling n, node_parent n, num_children n, node_id n)) (list_nodes (sample_list ''b'')) =
      [(Some ''root'', None, None, 1, 0), (Some ''a'', None, Some 0, 1, 0), (Some ''b'', None, Some 1, 0, 1)]" by code_simp
  ultimately show ?thesis using readTree_roundtrip [OF sample_ok, of "''b''"] by metis
qed

text \<open>C7. The comparison of any two lists returns and misses nothing: an item of the new list, if neither its own line nor that of a directory
  above it is reported, is in the old list at the same path, with the same type and name and, for a file, the same size and change indicator.\<close>

theorem diffTrees_complete:
  assumes "list_all ftree_ok old" "list_all ftree_ok new"
  shows "\<exists>td. diffTrees has_symbit is_windows want_deleted want_large want_modified want_deleted_inplace (list_text old) (list_text new) = Some (Inr td) \<and>
    (\<forall>(q, is, cf) \<in> set (forest_entries 0 new). set is \<inter> set (td_diffs td) = {} \<longrightarrow> has_entry old q cf)"
proof -
  obtain st td where st: "run has_symbit is_windows 0 0 (kids (list_tree old)) (kids (list_tree old)) (kids (list_tree new)) (start_state want_modified want_deleted_inplace (list_nodes old) (list_nodes new)) st"
      "diffTrees_nodes has_symbit is_windows want_deleted want_large want_modified want_deleted_inplace (list_nodes old) (list_nodes new) = Some td" "set (td_diffs td) = set (diffs st)"
    using diffTrees_run [OF list_nodes_vector list_nodes_vector] by metis
  then show ?thesis using run_reported [OF assms st(1)] diffTrees_text [OF assms] by auto
qed

theorem diffTrees_complete_witness:
  "\<exists>td. diffTrees False False True True True True (list_text (sample_list ''bd'')) (list_text (sample_list ''bcd'')) = Some (Inr td) \<and> {0, 2} \<inter> set (td_diffs td) \<noteq> {}"
proof -
  obtain td where td: "diffTrees False False True True True True (list_text (sample_list ''bd'')) (list_text (sample_list ''bcd'')) = Some (Inr td)"
      "\<forall>(q, is, cf) \<in> set (forest_entries 0 (sample_list ''bcd'')). set is \<inter> set (td_diffs td) = {} \<longrightarrow> has_entry (sample_list ''bd'') q cf"
    using diffTrees_complete [OF sample_ok sample_ok] by blast
  let ?c = "([(True, ''a''), (False, ''c'')], [0, 2], sample_item False ''c'' 5)"
  have "?c \<in> set (forest_entries 0 (sample_list ''bcd''))" "\<not> has_entry (sample_list ''bd'') [(True, ''a''), (False, ''c'')] (sample_item False ''c'' 5)" by code_simp+
  then have "0 \<in> set (td_diffs td) \<or> 2 \<in> set (td_diffs td)" using td(2) by fastforce
  then show ?thesis using td(1) by auto
qed

text \<open>C8. On lists whose directories are sorted (the order of the top level does not matter) the comparison reports exactly the items without a
  counterpart in the old list and the files whose data differ, once at the highest such item of a path.\<close>

theorem diffTrees_exact:
  assumes "list_all ftree_ok old" "list_all ftree_ok new" "sorted_list old" "sorted_list new"
  shows "\<exists>td. diffTrees has_symbit is_windows want_deleted want_large want_modified want_deleted_inplace (list_text old) (list_text new) = Some (Inr td) \<and>
    set (td_diffs td) = set (changed_forest old 0 new)"
proof -
  let ?start = "start_state want_modified want_deleted_inplace (list_nodes old) (list_nodes new)"
  obtain st td where st: "run has_symbit is_windows 0 0 (kids (list_tree old)) (kids (list_tree old)) (kids (list_tree new)) ?start st"
      "diffTrees_nodes has_symbit is_windows want_deleted want_large want_modified want_deleted_inplace (list_nodes old) (list_nodes new) = Some td" "set (td_diffs td) = set (diffs st)"
    using diffTrees_run [OF list_nodes_vector list_nodes_vector] by metis
  have sorted: "list_all (sorted_tree (list_nodes ts)) (kids (list_tree ts))" if "sorted_list ts" for ts
    using shows_sorted(2) [OF list_shows] that by (simp add: sorted_list_def)
  have "set (diffs st) = set (diffs ?start) \<union> (\<Union>b \<in> set (kids (list_tree new)). spec_ids (list_nodes old) (list_nodes new) (kids (list_tree old)) b)"
    by (rule run_exact [OF st(1) start_ok(2) [OF list_nodes_vector list_nodes_vector] list_ok(1) list_ok(1) sorted [OF assms(3)] sorted [OF assms(4)]])
      (use start_progress [OF assms(3,4)] in auto)
  then have "set (td_diffs td) = set (changed_forest old 0 new)" using spec_ids_lines(2) [OF list_shows assms(2) list_shows assms(1)] st(3) by simp
  then show ?thesis using st(2) diffTrees_text [OF assms(1,2)] by auto
qed

theorem diffTrees_exact_witness:
  "\<exists>td. diffTrees False False True True True True (list_text (sample_list ''bd'')) (list_text (sample_list ''bcd'')) = Some (Inr td) \<and> set (td_diffs td) = {2}"
proof -
  have "sorted_list (sample_list ''bd'')" "sorted_list (sample_list ''bcd'')" by code_simp+
  moreover have "set (changed_forest (sample_list ''bd'') 0 (sample_list ''bcd'')) = {2}" by code_simp
  ultimately show ?thesis using diffTrees_exact [OF sample_ok sample_ok] by metis
qed

text \<open>C9. Deleted items: an item of the old list whose line is not among the deleted ones is in the new list at the same path, with the same type
  and name and, for a file, the same size and change indicator.\<close>

theorem diffTrees_deleted:
  assumes "list_all ftree_ok old" "list_all ftree_ok new"
  shows "\<exists>td deleted. diffTrees has_symbit is_windows True want_large want_modified want_deleted_inplace (list_text old) (list_text new) = Some (Inr td) \<and>
    td_deleted td = Some deleted \<and> (\<forall>(q, is, cf) \<in> set (forest_entries 0 old). last is \<notin> set deleted \<longrightarrow> has_entry new q cf)"
proof -
  obtain st td xs where st: "run has_symbit is_windows 0 0 (kids (list_tree old)) (kids (list_tree old)) (kids (list_tree new)) (start_state want_modified want_deleted_inplace (list_nodes old) (list_nodes new)) st"
      "diffTrees_nodes has_symbit is_windows True want_large want_modified want_deleted_inplace (list_nodes old) (list_nodes new) = Some td"
      "td_deleted td = Some xs" "set xs = (\<lambda>u. node_id (list_nodes old ! lab u)) ` {u \<in> set (list_preorder old). mapped1 st (lab u) = None}"
    using diffTrees_run [OF list_nodes_vector list_nodes_vector, of has_symbit is_windows old new want_modified want_deleted_inplace True want_large] by blast
  have "has_entry new q cf" if "(q, is, cf) \<in> set (forest_entries 0 old)" "last is \<notin> set xs" for q "is" cf
    using run_not_deleted [OF assms st(1) that(1)] that(2) st(4) by simp
  then show ?thesis using st(2,3) diffTrees_text [OF assms] by auto
qed

theorem diffTrees_deleted_witness:
  "\<exists>td deleted. diffTrees False False True True True True (list_text (sample_list ''bd'')) (list_text (sample_list ''d'')) = Some (Inr td) \<and>
     td_deleted td = Some deleted \<and> 1 \<in> set deleted"
proof -
  have "([(True, ''a''), (False, ''b'')], [0, 1], sample_item False ''b'' 5) \<in> set (forest_entries 0 (sample_list ''bd''))"
      "\<not> has_entry (sample_list ''d'') [(True, ''a''), (False, ''b'')] (sample_item False ''b'' 5)" by code_simp+
  then show ?thesis using diffTrees_deleted [OF sample_ok sample_ok, of False False True True True "''bd''" "''d''"] by fastforce
qed

text \<open>C10. Large unchanged subtrees: an item of the new list at or below an item reported as a large unchanged subtree is in the old list at the same
  path, unchanged. Every item below it has the same data there (for a directory the same change indicator too) and is not a symbolic link; the item that
  is reported has the same data, or it is a directory that is also reported as one whose data differ.\<close>

theorem diffTrees_large:
  assumes "list_all ftree_ok old" "list_all ftree_ok new"
  shows "\<exists>td large. diffTrees has_symbit is_windows want_deleted True want_modified want_deleted_inplace (list_text old) (list_text new) = Some (Inr td) \<and>
    td_large td = Some large \<and> (\<forall>(q, is, cf) \<in> set (forest_entries 0 new). set is \<inter> set large \<noteq> {} \<longrightarrow> has_entry old q cf \<and>
      (if last is \<in> set large then has_same_entry old q cf \<or> last is \<in> set (td_dir_diffs td)
       else has_same_entry old q cf \<and> \<not> item_symlink has_symbit is_windows cf))"
proof -
  obtain st td xs where st: "run has_symbit is_windows 0 0 (kids (list_tree old)) (kids (list_tree old)) (kids (list_tree new)) (start_state want_modified want_deleted_inplace (list_nodes old) (list_nodes new)) st"
      "diffTrees_nodes has_symbit is_windows want_deleted True want_modified want_deleted_inplace (list_nodes old) (list_nodes new) = Some td"
      "td_large td = Some xs" "\<forall>x \<in> set xs. \<exists>u \<in> set (list_preorder new). x = node_id (list_nodes new ! lab u) \<and> lab u \<notin> marked (nodes2 st) \<and> mapped2 st (lab u) \<noteq> None \<and> tree_size u > 10"
      "set (td_dir_diffs td) = set (dir_diffs st)"
    using diffTrees_run [OF list_nodes_vector list_nodes_vector, of has_symbit is_windows old new want_modified want_deleted_inplace want_deleted True] by blast
  have "has_entry old q cf \<and> (if last is \<in> set xs then has_same_entry old q cf \<or> last is \<in> set (td_dir_diffs td)
       else has_same_entry old q cf \<and> \<not> item_symlink has_symbit is_windows cf)"
    if e: "(q, is, cf) \<in> set (forest_entries 0 new)" and x: "x \<in> set is" "x \<in> set xs" for q "is" cf x
  proof -
    obtain u where u: "u \<in> set (list_preorder new)" "x = node_id (list_nodes new ! lab u)" "lab u \<notin> marked (nodes2 st)" "mapped2 st (lab u) \<noteq> None"
      using st(4) x(2) by blast
    show ?thesis using run_large_below [OF assms st(1) u(1,3,4) e] x u(2) st(5) by auto
  qed
  then show ?thesis using st(2,3) diffTrees_text [OF assms] by fastforce
qed

definition touched_list :: "string \<Rightarrow> ftree list" where
  "touched_list cs = [FT (sample_item True ''a'' 8) [] (map (\<lambda>c. FT (sample_item False [c] 5) [] []) cs)]"

lemma touched_ok: "list_all ftree_ok (touched_list cs)"
  by (simp add: touched_list_def sample_item_def item_ok_def extra_ok_def list_all_iff int64_min_def int64_max_def SFile_init_def)

theorem diffTrees_large_witness:
  "\<exists>td. diffTrees False False True True True True (list_text (sample_list ''bcdefghijklm'')) (list_text (touched_list ''bcdefghijklm'')) = Some (Inr td) \<and>
     td_large td = Some [0] \<and> 0 \<in> set (td_dir_diffs td) \<and>
     has_same_entry (sample_list ''bcdefghijklm'') [(True, ''a''), (False, ''b'')] (sample_item False ''b'' 5)"
proof -
  let ?old = "sample_list ''bcdefghijklm''" and ?new = "touched_list ''bcdefghijklm''"
  obtain td large where td: "diffTrees False False True True True True (list_text ?old) (list_text ?new) = Some (Inr td)" "td_large td = Some large"
      "\<forall>(q, is, cf) \<in> set (forest_entries 0 ?new). set is \<inter> set large \<noteq> {} \<longrightarrow> has_entry ?old q cf \<and>
        (if last is \<in> set large then has_same_entry ?old q cf \<or> last is \<in> set (td_dir_diffs td) else has_same_entry ?old q cf \<and> \<not> item_symlink False False cf)"
    using diffTrees_large [OF sample_ok touched_ok] by blast
  have "map_option td_large (diffTrees_nodes False False True True True True (list_nodes ?old) (list_nodes ?new)) = Some (Some [0])" by code_simp
  then have l: "large = [0]" using td(1,2) diffTrees_text [OF sample_ok touched_ok] by auto
  have "([(True, ''a'')], [0], sample_item True ''a'' 8) \<in> set (forest_entries 0 ?new)" "\<not> has_same_entry ?old [(True, ''a'')] (sample_item True ''a'' 8)"
    "([(True, ''a''), (False, ''b'')], [0, 1], sample_item False ''b'' 5) \<in> set (forest_entries 0 ?new)" by code_simp+
  from td(3) [rule_format, OF this(1)] td(3) [rule_format, OF this(3)] this(2) show ?thesis using td(1,2) l by auto
qed

end
