(* ===== verification/Tcp_Stack.thy ===== *)
theory Tcp_Stack
  imports Data_Stream
begin

text \<open>
  Messages over a byte stream (\<^verbatim>\<open>src/urbackupcommon/fileclient/tcpstack.cpp\<close>): a message is sent as a packet of an optional checksum, its length and its bytes,
  in writes of at most 4096 bytes; the receiver collects whatever bytes arrive and takes packets off the front. The pipe is a parameter, and so is
  the checksum, which is computed by a library. \<open>size_t\<close> is \<open>nat\<close>; the length of a packet is an \<open>unsigned int\<close>.
\<close>

record tcp_stack =
  tcp_buffer :: "byte list"
  add_checksum :: bool
  max_packet_size :: nat

type_synonym 'p write_op = "'p \<Rightarrow> byte list \<Rightarrow> int \<Rightarrow> bool \<Rightarrow> bool \<times> 'p"

definition MAX_PACKET :: nat where
  "MAX_PACKET = 4096"

definition checksum_len :: nat where
  "checksum_len = 16"

definition CTCPStack_init :: "bool \<Rightarrow> nat \<Rightarrow> tcp_stack" where
  "CTCPStack_init checksum max_size = \<lparr>tcp_buffer = [], add_checksum = checksum, max_packet_size = max_size\<rparr>"

definition AddData :: "byte list \<Rightarrow> tcp_stack \<Rightarrow> bool \<times> tcp_stack" where
  "AddData buf t =
     (if length buf > 0
      then if length (tcp_buffer t) + length buf > max_packet_size t then (False, t)
           else (True, t\<lparr>tcp_buffer := tcp_buffer t @ buf\<rparr>)
      else (True, t))"

text \<open>The bytes of a packet.\<close>

definition send_packet :: "(byte list \<Rightarrow> byte list) \<Rightarrow> bool \<Rightarrow> byte list \<Rightarrow> tcp_stack \<Rightarrow> byte list" where
  "send_packet md5 be buf t =
     (let len = host_bytes be 4 (unat (little_endian32 be (of_nat (length buf)))) in
      if \<not> add_checksum t then len @ buf
      else md5 (take (length buf mod 2 ^ 32 + 4) (len @ buf)) @ len @ buf)"

function send_loop :: "'p write_op \<Rightarrow> byte list \<Rightarrow> nat \<Rightarrow> bool \<Rightarrow> int \<Rightarrow> bool \<Rightarrow> 'p \<Rightarrow> bool \<times> 'p" where
  "send_loop pwrite buffer currpos first_packet timeoutms flush p =
     (if currpos < length buffer
      then (let ts = min MAX_PACKET (length buffer - currpos);
                curr_flush = (if currpos + ts < length buffer then False else flush)
            in case pwrite p (take ts (drop currpos buffer)) (if first_packet then timeoutms else - 1) curr_flush of
                 (b, p) \<Rightarrow> if \<not> b then (False, p) else send_loop pwrite buffer (currpos + ts) False timeoutms flush p)
      else (True, p))"
  by pat_completeness auto
termination
  by (relation "measure (\<lambda>(pwrite, buffer, currpos, rest). length buffer - currpos)") (auto simp: MAX_PACKET_def)

definition tcp_Send :: "(byte list \<Rightarrow> byte list) \<Rightarrow> bool \<Rightarrow> 'p write_op \<Rightarrow> byte list \<Rightarrow> int \<Rightarrow> bool \<Rightarrow> tcp_stack \<Rightarrow> 'p \<Rightarrow> nat \<times> 'p" where
  "tcp_Send md5 be pwrite buf timeoutms flush t p =
     (if length buf > max_packet_size t then (0, p)
      else case send_loop pwrite (send_packet md5 be buf t) 0 True timeoutms flush p of
             (b, p) \<Rightarrow> if \<not> b then (0, p) else (length buf, p))"

definition packet_len :: "bool \<Rightarrow> byte list \<Rightarrow> nat" where
  "packet_len be bs = unat (little_endian32 be (of_nat (host_nat be (take 4 bs))))"

definition getPacket :: "(byte list \<Rightarrow> byte list) \<Rightarrow> bool \<Rightarrow> tcp_stack \<Rightarrow> byte list option \<times> tcp_stack" where
  "getPacket md5 be t =
     (let buffer = tcp_buffer t in
      if \<not> add_checksum t
      then (if length buffer \<ge> 4
            then (let len = packet_len be buffer in
                  if len < max_packet_size t \<and> length buffer \<ge> len + 4
                  then (Some (take len (drop 4 buffer)), t\<lparr>tcp_buffer := drop (len + 4) buffer\<rparr>)
                  else (None, t))
            else (None, t))
      else (if length buffer \<ge> 4 + checksum_len
            then (let len = packet_len be (drop checksum_len buffer) in
                  if len < max_packet_size t \<and> length buffer \<ge> checksum_len + len + 4
                  then if md5 (take (len + 4) (drop checksum_len buffer)) = take checksum_len buffer
                       then (Some (take len (drop (checksum_len + 4) buffer)), t\<lparr>tcp_buffer := drop (checksum_len + len + 4) buffer\<rparr>)
                       else (None, t\<lparr>tcp_buffer := drop (checksum_len + len + 4) buffer\<rparr>)
                  else (None, t))
            else (None, t)))"

definition removeFront :: "nat \<Rightarrow> tcp_stack \<Rightarrow> tcp_stack" where
  "removeFront b t = t\<lparr>tcp_buffer := drop (min b (length (tcp_buffer t))) (tcp_buffer t)\<rparr>"

definition tcp_reset :: "tcp_stack \<Rightarrow> tcp_stack" where
  "tcp_reset t = t\<lparr>tcp_buffer := []\<rparr>"

definition setAddChecksum :: "bool \<Rightarrow> tcp_stack \<Rightarrow> tcp_stack" where
  "setAddChecksum b t = t\<lparr>add_checksum := b\<rparr>"

definition setMaxPacketSize :: "nat \<Rightarrow> tcp_stack \<Rightarrow> tcp_stack" where
  "setMaxPacketSize mp t = t\<lparr>max_packet_size := mp\<rparr>"

subsection \<open>Sending\<close>

text \<open>The writes of \<open>Send\<close>: pieces of the packet, in order.\<close>

fun pieces :: "nat \<Rightarrow> byte list \<Rightarrow> byte list list" where
  "pieces n bs = (if bs = [] \<or> n = 0 then [] else take n bs # pieces n (drop n bs))"

declare pieces.simps [simp del]

lemma concat_pieces: "0 < n \<Longrightarrow> concat (pieces n bs) = bs"
  by (induction n bs rule: pieces.induct) (subst pieces.simps, auto)

lemma pieces_length: "d \<in> set (pieces n bs) \<Longrightarrow> length d \<le> n"
  by (induction n bs rule: pieces.induct) (subst (asm) (2) pieces.simps, auto split: if_splits)

lemma send_loop_pieces:
  assumes w: "\<And>p d tm fl p'. pwrite p d tm fl = (True, p') \<Longrightarrow> length d \<le> MAX_PACKET \<Longrightarrow> wire p' = wire p @ frame (conf p) d \<and> conf p' = conf p"
  shows "send_loop pwrite buffer currpos first_packet tm fl p = (True, p') \<Longrightarrow>
    wire p' = wire p @ concat (map (frame (conf p)) (pieces MAX_PACKET (drop currpos buffer))) \<and> conf p' = conf p"
proof (induction "length buffer - currpos" arbitrary: currpos first_packet p rule: less_induct)
  case less
  show ?case
  proof (cases "currpos < length buffer")
    case False
    then show ?thesis using less.prems by (simp add: pieces.simps)
  next
    case True
    let ?ts = "min MAX_PACKET (length buffer - currpos)" and ?d = "take MAX_PACKET (drop currpos buffer)"
    have d: "take ?ts (drop currpos buffer) = ?d" "drop (currpos + ?ts) buffer = drop MAX_PACKET (drop currpos buffer)"
      by (auto simp: min_def MAX_PACKET_def add.commute)
    obtain p1 fl1 where p1: "pwrite p ?d (if first_packet then tm else - 1) fl1 = (True, p1)" "send_loop pwrite buffer (currpos + ?ts) False tm fl p1 = (True, p')"
      using less.prems True d(1) by (simp add: send_loop.simps [of pwrite buffer currpos] Let_def split: prod.splits if_splits del: send_loop.simps)
    have "wire p1 = wire p @ frame (conf p) ?d \<and> conf p1 = conf p" using w [OF p1(1)] by simp
    moreover have "wire p' = wire p1 @ concat (map (frame (conf p1)) (pieces MAX_PACKET (drop (currpos + ?ts) buffer))) \<and> conf p' = conf p1"
      using less.hyps [OF _ p1(2)] True by (simp add: MAX_PACKET_def)
    ultimately show ?thesis using d(2) True pieces.simps [of MAX_PACKET "drop currpos buffer"] by (simp add: MAX_PACKET_def)
  qed
qed

text \<open>The bytes of a message on the wire do not depend on the byte order of the host.\<close>

definition packet :: "(byte list \<Rightarrow> byte list) \<Rightarrow> bool \<Rightarrow> byte list \<Rightarrow> byte list" where
  "packet md5 ck m = (let l = enc_le 4 (length m) in if ck then md5 (l @ m) @ l @ m else l @ m)"

lemma enc_le_4: "length (enc_le 4 n) = 4"
  by (simp add: enc_le_numeral)

lemma unat_of_nat_32: "n < 2 ^ 32 \<Longrightarrow> unat (of_nat n :: u32) = n"
  by (simp add: unsigned_of_nat take_bit_nat_eq_self)

lemma send_packet_eq: "length m < 2 ^ 32 \<Longrightarrow> send_packet md5 be m t = packet md5 (add_checksum t) m"
  by (simp add: send_packet_def packet_def Let_def unat_of_nat_32 enc_le_4)

lemma packet_len_eq: "n < 2 ^ 32 \<Longrightarrow> take 4 bs = enc_le 4 n \<Longrightarrow> packet_len be bs = n"
  using host_nat_little_endian(1) [of be "of_nat n"] unat_of_nat_32 [of n] by (simp add: packet_len_def)

text \<open>The buffer holds the beginning of a stream of packets.\<close>

lemma getPacket_eq:
  assumes "tcp_buffer t @ rest = packet md5 (add_checksum t) m @ later" "length m < 2 ^ 32" "\<And>x. length (md5 x) = 16"
  shows "getPacket md5 be t = (if length m < max_packet_size t \<and> length (packet md5 (add_checksum t) m) \<le> length (tcp_buffer t)
    then (Some m, t\<lparr>tcp_buffer := drop (length (packet md5 (add_checksum t) m)) (tcp_buffer t)\<rparr>) else (None, t))"
proof -
  let ?b = "tcp_buffer t" and ?l = "enc_le 4 (length m)"
  have tk: "take n ?b = take n (packet md5 (add_checksum t) m @ later)" if "n \<le> length ?b" for n
    using assms(1) that by (metis append_eq_append_conv_if append_take_drop_id take_append diff_is_0_eq' take0 append_Nil2)
  show ?thesis
  proof (cases "add_checksum t")
    case False
    then have p: "packet md5 (add_checksum t) m = ?l @ m" by (simp add: packet_def)
    show ?thesis
    proof (cases "4 \<le> length ?b")
      case True
      then have len: "packet_len be ?b = length m" using packet_len_eq [OF assms(2)] tk [of 4] p by (simp add: enc_le_4)
      have m: "take (length m) (drop 4 ?b) = m" if "length m + 4 \<le> length ?b"
      proof -
        have "take (length m) (drop 4 ?b) = drop 4 (take (length m + 4) ?b)" by (simp add: take_drop)
        also have "\<dots> = m" using tk [OF that] p by (simp add: enc_le_4)
        finally show ?thesis .
      qed
      show ?thesis using False True len m p by (simp add: getPacket_def Let_def enc_le_4 add.commute)
    qed (use False p in \<open>simp add: getPacket_def Let_def enc_le_4\<close>)
  next
    case True
    then have p: "packet md5 (add_checksum t) m = md5 (?l @ m) @ ?l @ m" by (simp add: packet_def Let_def)
    show ?thesis
    proof (cases "20 \<le> length ?b")
      case l: True
      have d: "take n (drop 16 ?b) = take n ((?l @ m) @ later)" if "n + 16 \<le> length ?b" for n
      proof -
        have "take n (drop 16 ?b) = drop 16 (take (n + 16) ?b)" by (simp add: take_drop)
        also have "\<dots> = take n ((?l @ m) @ later)" using tk [OF that] p assms(3) by (simp add: take_drop)
        finally show ?thesis .
      qed
      have len: "packet_len be (drop 16 ?b) = length m" using packet_len_eq [OF assms(2)] d [of 4] l by (simp add: enc_le_4)
      have c: "take (length m + 4) (drop 16 ?b) = ?l @ m" "take 16 ?b = md5 (?l @ m)" "take (length m) (drop 20 ?b) = m" if "16 + length m + 4 \<le> length ?b"
      proof -
        show 1: "take (length m + 4) (drop 16 ?b) = ?l @ m" using d [of "length m + 4"] that by (simp add: enc_le_4)
        show "take 16 ?b = md5 (?l @ m)" using tk [of 16] l p assms(3) by simp
        have "take (length m) (drop 20 ?b) = drop 4 (take (length m + 4) (drop 16 ?b))" by (simp add: take_drop add.commute)
        then show "take (length m) (drop 20 ?b) = m" using 1 by (simp add: enc_le_4)
      qed
      show ?thesis using True l len c assms(3) p by (simp add: getPacket_def Let_def checksum_len_def enc_le_4 add.commute)
    qed (use True p assms(3) in \<open>simp add: getPacket_def Let_def checksum_len_def enc_le_4\<close>)
  qed
qed

subsection \<open>Receiving\<close>

lemma getPacket_shorter: "getPacket md5 be t = (Some m, t') \<Longrightarrow> length (tcp_buffer t') < length (tcp_buffer t)"
  by (auto simp: getPacket_def Let_def checksum_len_def split: if_splits)

text \<open>The way the stack is used: add what arrived, then take packets until there is none.\<close>

function drain :: "(byte list \<Rightarrow> byte list) \<Rightarrow> bool \<Rightarrow> tcp_stack \<Rightarrow> byte list list \<times> tcp_stack" where
  "drain md5 be t = (case getPacket md5 be t of (None, t) \<Rightarrow> ([], t) | (Some m, t) \<Rightarrow> (case drain md5 be t of (ms, t) \<Rightarrow> (m # ms, t)))"
  by pat_completeness auto
termination
  by (relation "measure (\<lambda>(md5, be, t). length (tcp_buffer t))") (auto dest: getPacket_shorter [OF sym])

declare drain.simps [simp del]

fun receive :: "(byte list \<Rightarrow> byte list) \<Rightarrow> bool \<Rightarrow> byte list list \<Rightarrow> tcp_stack \<Rightarrow> bool \<times> byte list list \<times> tcp_stack" where
  "receive md5 be [] t = (True, [], t)"
| "receive md5 be (c # cs) t =
     (case AddData c t of
        (ok, t) \<Rightarrow> if \<not> ok then (False, [], t)
                   else (case drain md5 be t of (ms, t) \<Rightarrow> (case receive md5 be cs t of (ok, ms', t) \<Rightarrow> (ok, ms @ ms', t))))"

abbreviation packets :: "(byte list \<Rightarrow> byte list) \<Rightarrow> bool \<Rightarrow> byte list list \<Rightarrow> byte list" where
  "packets md5 ck ms \<equiv> concat (map (packet md5 ck) ms)"

lemma packet_length: "(\<And>x. length (md5 x) = 16) \<Longrightarrow> length (packet md5 ck m) = length m + (if ck then 20 else 4)"
  by (simp add: packet_def Let_def enc_le_4)

lemma drain_eq:
  assumes "tcp_buffer t @ rest = packets md5 (add_checksum t) ms" "\<forall>m \<in> set ms. length m < 2 ^ 32 \<and> length m < max_packet_size t" "\<And>x. length (md5 x) = 16"
  shows "\<exists>k b. drain md5 be t = (take k ms, t\<lparr>tcp_buffer := b\<rparr>) \<and> b @ rest = packets md5 (add_checksum t) (drop k ms) \<and>
    (drop k ms = [] \<or> length b < length (packet md5 (add_checksum t) (hd (drop k ms))))"
  using assms(1,2)
proof (induction ms arbitrary: t)
  case Nil
  then have "getPacket md5 be t = (None, t)" by (simp add: getPacket_def checksum_len_def)
  then show ?case using Nil by (intro exI [of _ 0] exI [of _ "[]"]) (cases t, simp add: drain.simps [of md5 be t] drain.simps)
next
  case (Cons m ms)
  let ?p = "packet md5 (add_checksum t) m"
  have g: "getPacket md5 be t = (if length ?p \<le> length (tcp_buffer t) then (Some m, t\<lparr>tcp_buffer := drop (length ?p) (tcp_buffer t)\<rparr>) else (None, t))"
    using getPacket_eq [of t rest md5 m "packets md5 (add_checksum t) ms" be, OF _ _ assms(3)] Cons.prems by simp
  show ?case
  proof (cases "length ?p \<le> length (tcp_buffer t)")
    case False
    then show ?thesis using g False Cons.prems(1) by (intro exI [of _ 0] exI [of _ "tcp_buffer t"]) (simp add: drain.simps [of md5 be t])
  next
    case True
    let ?t = "t\<lparr>tcp_buffer := drop (length ?p) (tcp_buffer t)\<rparr>"
    have "tcp_buffer ?t @ rest = packets md5 (add_checksum ?t) ms"
    proof -
      have "drop (length ?p) (tcp_buffer t @ rest) = packets md5 (add_checksum t) ms" using Cons.prems(1) by simp
      then show ?thesis using True by simp
    qed
    then obtain k b where k: "drain md5 be ?t = (take k ms, ?t\<lparr>tcp_buffer := b\<rparr>)" "b @ rest = packets md5 (add_checksum ?t) (drop k ms)"
        "drop k ms = [] \<or> length b < length (packet md5 (add_checksum ?t) (hd (drop k ms)))"
      using Cons.IH [of ?t] Cons.prems(2) by auto
    then show ?thesis using g True k by (intro exI [of _ "Suc k"] exI [of _ b]) (simp add: drain.simps [of md5 be t])
  qed
qed

lemma receive_eq:
  assumes "\<And>x. length (md5 x) = 16"
    "\<forall>m \<in> set ms. length m < 2 ^ 32 \<and> length m + 20 \<le> n" "\<forall>c \<in> set cs. length c + n \<le> max_packet_size t + 1" "tcp_buffer t @ concat cs = packets md5 (add_checksum t) ms"
    "length (tcp_buffer t) < n" "\<forall>m \<in> set ms. length m < max_packet_size t" "cs = [] \<longrightarrow> tcp_buffer t = []"
  shows "receive md5 be cs t = (True, ms, t\<lparr>tcp_buffer := []\<rparr>)"
  using assms(2-)
proof (induction cs arbitrary: t ms)
  case Nil
  then have "packets md5 (add_checksum t) ms = []" by simp
  then have "ms = []" using packet_length [of md5 "add_checksum t" "hd ms", OF assms(1)] by (cases ms) (auto split: if_splits)
  then show ?case using Nil by (cases t) simp
next
  case (Cons c cs)
  let ?t = "t\<lparr>tcp_buffer := tcp_buffer t @ c\<rparr>"
  have a: "AddData c t = (True, ?t)" using Cons.prems(2,4) by (cases t) (auto simp: AddData_def)
  have s: "tcp_buffer ?t @ concat cs = packets md5 (add_checksum ?t) ms" using Cons.prems(3) by simp
  obtain k b where k: "drain md5 be ?t = (take k ms, ?t\<lparr>tcp_buffer := b\<rparr>)" "b @ concat cs = packets md5 (add_checksum ?t) (drop k ms)"
      "drop k ms = [] \<or> length b < length (packet md5 (add_checksum ?t) (hd (drop k ms)))"
    using drain_eq [OF s _ assms(1), where be = be] Cons.prems(1,5) by auto
  let ?u = "?t\<lparr>tcp_buffer := b\<rparr>"
  have hd: "hd (drop k ms) \<in> set ms" if "drop k ms \<noteq> []" using that by (metis hd_in_set in_set_dropD)
  have b: "length b < n"
  proof (cases "drop k ms = []")
    case True
    then show ?thesis using k(2) Cons.prems(4) by simp
  next
    case False
    then have "length (hd (drop k ms)) + 20 \<le> n" using hd Cons.prems(1) by blast
    then show ?thesis using k(3) False packet_length [of md5 "add_checksum ?t" "hd (drop k ms)", OF assms(1)] by (auto split: if_splits)
  qed
  have e: "b = []" if "cs = []"
  proof (cases "drop k ms")
    case (Cons m ms')
    then show ?thesis using k(2,3) that by auto
  qed (use k(2) in simp)
  have "receive md5 be cs ?u = (True, drop k ms, ?u\<lparr>tcp_buffer := []\<rparr>)"
    by (rule Cons.IH) (use Cons.prems k(2) b e in \<open>auto dest: in_set_dropD\<close>)
  then show ?case using a k(1) by simp
qed

subsection \<open>Limits and errors\<close>

text \<open>A packet that does not fit into the buffer of the receiver never arrives.\<close>

lemma receive_too_large:
  assumes "\<And>x. length (md5 x) = 16" "length m < 2 ^ 32" "max_packet_size t < length (packet md5 (add_checksum t) m)"
    "tcp_buffer t @ concat cs = packet md5 (add_checksum t) m" "length (tcp_buffer t) \<le> max_packet_size t"
  shows "\<exists>t'. receive md5 be cs t = (False, [], t')"
  using assms(3-)
proof (induction cs arbitrary: t)
  case (Cons c cs)
  show ?case
  proof (cases "fst (AddData c t)")
    case False
    then show ?thesis by (cases "AddData c t") simp
  next
    case True
    let ?t = "t\<lparr>tcp_buffer := tcp_buffer t @ c\<rparr>"
    have a: "AddData c t = (True, ?t)" "length (tcp_buffer ?t) \<le> max_packet_size ?t" using True Cons.prems(3) by (cases t, auto simp: AddData_def split: if_splits)+
    have "getPacket md5 be ?t = (None, ?t)"
      using getPacket_eq [of ?t "concat cs" md5 m "[]" be] Cons.prems a(2) assms(1,2) by simp
    then have "drain md5 be ?t = ([], ?t)" by (simp add: drain.simps [of md5 be ?t])
    moreover obtain t' where "receive md5 be cs ?t = (False, [], t')" using Cons.IH [of ?t] Cons.prems a(2) by auto
    ultimately show ?thesis using a(1) by simp
  qed
qed simp

text \<open>A packet whose checksum is wrong is dropped as a whole.\<close>

lemma getPacket_corrupt:
  assumes "tcp_buffer t = ck @ enc_le 4 (length m) @ m @ rest" "length ck = 16" "ck \<noteq> md5 (enc_le 4 (length m) @ m)" "add_checksum t" "length m < 2 ^ 32" "length m < max_packet_size t"
  shows "getPacket md5 be t = (None, t\<lparr>tcp_buffer := rest\<rparr>)"
proof -
  have "packet_len be (drop 16 (tcp_buffer t)) = length m" using packet_len_eq [OF assms(5)] assms(1,2) by (simp add: enc_le_4)
  then show ?thesis using assms by (simp add: getPacket_def Let_def checksum_len_def enc_le_4)
qed

end
