(* ===== verification/Web_Socket.thy ===== *)
theory Web_Socket
  imports Data_Stream
begin

text \<open>
  The web socket framing of the internet mode (\<^verbatim>\<open>src/urbackupcommon/WebSocketPipe.cpp\<close>): \<open>Write\<close> puts a message into a frame, \<open>consume\<close> decodes
  whatever bytes the pipe delivers, in place, and keeps its position in the frame between two calls. The pipe underneath is a parameter: it
  decides whether a write succeeds, given what was written before; what is written to it is kept in \<open>written\<close>. \<open>None\<close> stands for an access outside
  the buffer, for the failure of the assertion, and for a shift by more bits than an \<open>int\<close> has, which C++ leaves undefined.
\<close>

datatype read_step = EReadState_Header1 | EReadState_HeaderSize1 | EReadState_HeaderSize2 | EReadState_HeaderMask | EReadState_Body

record web_socket =
  mask_writes :: bool
  expect_read_mask :: bool
  step_state :: read_step
  header_bits1 :: byte
  header_bits2 :: byte
  payload_size :: u64
  remaining_size_bytes :: nat
  consumed_size_bytes :: nat
  read_mask :: "byte list"
  curr_has_read_mask :: bool
  read_mask_idx :: u32
  ws_error :: bool
  pipe_add :: "byte list"
  masking_key :: "byte list"
  written :: "byte list list"

type_synonym out_pipe = "byte list list \<Rightarrow> byte list \<Rightarrow> bool"

text \<open>The fields the constructor leaves uninitialised have some value.\<close>

definition WebSocketPipe_init :: "bool \<Rightarrow> bool \<Rightarrow> byte list \<Rightarrow> byte list \<Rightarrow> web_socket \<Rightarrow> web_socket" where
  "WebSocketPipe_init mw erm add key s = s\<lparr>mask_writes := mw, expect_read_mask := erm, ws_error := False, pipe_add := add,
     step_state := EReadState_Header1, masking_key := if mw then key else replicate 4 0\<rparr>"

definition has_read_mask :: "web_socket \<Rightarrow> bool" where
  "has_read_mask s \<longleftrightarrow> header_bits2 s AND push_bit 7 1 \<noteq> 0"

definition get_opcode :: "web_socket \<Rightarrow> byte" where
  "get_opcode s = header_bits1 s AND (push_bit 3 1 OR push_bit 2 1 OR push_bit 1 1 OR push_bit 0 1)"

definition pipe_Write :: "out_pipe \<Rightarrow> byte list \<Rightarrow> web_socket \<Rightarrow> bool \<times> web_socket" where
  "pipe_Write pw msg s = (pw (written s) msg, s\<lparr>written := written s @ [msg]\<rparr>)"

subsection \<open>Writing a frame\<close>

definition frame_header :: "bool \<Rightarrow> nat \<Rightarrow> byte list" where
  "frame_header be bsize =
     (push_bit 7 1 OR 2) #
     (if bsize > 65535 then 127 # host_bytes be 8 bsize
      else if bsize > 125 then 126 # host_bytes be 2 bsize
      else [of_nat bsize])"

definition ws_Write :: "out_pipe \<Rightarrow> bool \<Rightarrow> byte list \<Rightarrow> web_socket \<Rightarrow> bool \<times> web_socket" where
  "ws_Write pw be buffer s =
     (let header = frame_header be (length buffer) in
      if mask_writes s
      then (let header = header[1 := header ! 1 OR push_bit 7 1] @ masking_key s
            in pipe_Write pw (header @ map (\<lambda>i. buffer ! i XOR masking_key s ! (i mod 4)) [0..<length buffer]) s)
      else case pipe_Write pw header s of
             (ok, s) \<Rightarrow> if \<not> ok then (False, s) else pipe_Write pw buffer s)"

subsection \<open>Decoding\<close>

definition ws_header1 :: "byte \<Rightarrow> web_socket \<Rightarrow> web_socket" where
  "ws_header1 b s =
     (let s = s\<lparr>header_bits1 := b, step_state := EReadState_HeaderSize1\<rparr>;
          opcode = get_opcode s;
          s = (if opcode \<noteq> 0 \<and> opcode \<noteq> 1 \<and> opcode \<noteq> 2 \<and> opcode \<noteq> 8 \<and> opcode \<noteq> 9 \<and> opcode \<noteq> 10 then s\<lparr>ws_error := True\<rparr> else s)
      in if header_bits1 s AND 1 = 0 \<and> opcode \<noteq> 0 \<and> opcode \<noteq> 1 \<and> opcode \<noteq> 2 then s\<lparr>ws_error := True\<rparr> else s)"

text \<open>After the size: the mask or the payload.\<close>

definition ws_size_end :: "web_socket \<Rightarrow> web_socket" where
  "ws_size_end s =
     (if has_read_mask s then s\<lparr>step_state := EReadState_HeaderMask, remaining_size_bytes := 4, consumed_size_bytes := 0, curr_has_read_mask := True\<rparr>
      else s\<lparr>curr_has_read_mask := False, step_state := EReadState_Body\<rparr>)"

definition ws_size1 :: "byte \<Rightarrow> web_socket \<Rightarrow> web_socket" where
  "ws_size1 b s =
     (let s = s\<lparr>header_bits2 := b\<rparr>;
          s = (if expect_read_mask s \<and> \<not> has_read_mask s then s\<lparr>ws_error := True\<rparr> else s);
          tmp_payload_size = b AND 0x7F
      in if tmp_payload_size < 126 then ws_size_end (s\<lparr>payload_size := ucast tmp_payload_size\<rparr>)
         else if tmp_payload_size = 126
         then s\<lparr>remaining_size_bytes := 2, consumed_size_bytes := 0, payload_size := 0, step_state := EReadState_HeaderSize2\<rparr>
         else if tmp_payload_size = 127
         then s\<lparr>remaining_size_bytes := 8, consumed_size_bytes := 0, payload_size := 0, step_state := EReadState_HeaderSize2\<rparr>
         else s\<lparr>ws_error := True\<rparr>)"

text \<open>The byte is promoted to \<open>int\<close> before the shift, and the result is sign extended.\<close>

definition ws_size2 :: "byte \<Rightarrow> web_socket \<Rightarrow> web_socket option" where
  "ws_size2 b s =
     (if consumed_size_bytes s * 8 < 32
      then (let s = s\<lparr>remaining_size_bytes := remaining_size_bytes s - 1,
                      payload_size := payload_size s OR scast (push_bit (consumed_size_bytes s * 8) (ucast b :: u32)),
                      consumed_size_bytes := consumed_size_bytes s + 1\<rparr>
            in Some (if remaining_size_bytes s = 0 then ws_size_end s else s))
      else None)"

definition ws_mask :: "byte \<Rightarrow> web_socket \<Rightarrow> web_socket option" where
  "ws_mask b s =
     do { m \<leftarrow> wr (read_mask s) (consumed_size_bytes s) b;
          let s = s\<lparr>remaining_size_bytes := remaining_size_bytes s - 1, read_mask := m, consumed_size_bytes := consumed_size_bytes s + 1\<rparr>
          in Some (if remaining_size_bytes s = 0 then s\<lparr>step_state := EReadState_Body, read_mask_idx := 0\<rparr> else s) }"

definition is_data :: "web_socket \<Rightarrow> bool" where
  "is_data s \<longleftrightarrow> get_opcode s = 0 \<or> get_opcode s = 1 \<or> get_opcode s = 2"

text \<open>The end of a frame: a close frame and a ping are answered.\<close>

definition ws_frame_end :: "out_pipe \<Rightarrow> web_socket \<Rightarrow> web_socket" where
  "ws_frame_end pw s =
     (let s = s\<lparr>step_state := EReadState_Header1\<rparr> in
      if get_opcode s = 8 then (snd (pipe_Write pw [header_bits1 s, header_bits2 s OR push_bit 7 1] s))\<lparr>ws_error := True\<rparr>
      else if get_opcode s = 9
      then (case pipe_Write pw [10 OR push_bit 7 1, push_bit 7 1] s of (ok, s) \<Rightarrow> if \<not> ok then s\<lparr>ws_error := True\<rparr> else s)
      else s)"

fun unmask_loop :: "nat \<Rightarrow> byte list \<Rightarrow> nat \<Rightarrow> nat \<Rightarrow> byte list \<Rightarrow> u32 \<Rightarrow> (byte list \<times> u32) option" where
  "unmask_loop 0 rmask consumed out_off buffer idx = Some (buffer, idx)"
| "unmask_loop (Suc n) rmask consumed out_off buffer idx =
     do { b \<leftarrow> rd buffer consumed;
          m \<leftarrow> rd rmask (unat (idx mod 4));
          buffer \<leftarrow> wr buffer out_off (b XOR m);
          unmask_loop n rmask (consumed + 1) (out_off + 1) buffer (idx + 1) }"

text \<open>The payload, as far as it is in the buffer; the result is the buffer, \<open>consumed\<close> and \<open>out_off\<close>.\<close>

definition ws_body :: "out_pipe \<Rightarrow> nat \<Rightarrow> byte list \<Rightarrow> nat \<Rightarrow> nat \<Rightarrow> web_socket \<Rightarrow> (byte list \<times> nat \<times> nat \<times> web_socket) option" where
  "ws_body pw bsize buffer consumed out_off s =
     (let toread = min (bsize - consumed) (unat (payload_size s));
          s = s\<lparr>payload_size := payload_size s - of_nat toread\<rparr>
      in do { (buffer, consumed, out_off, s) \<leftarrow>
                (if \<not> is_data s then Some (buffer, consumed + toread, out_off, s)
                 else if out_off = consumed
                 then (if curr_has_read_mask s
                       then do { (buffer, idx) \<leftarrow> unmask_loop toread (read_mask s) out_off out_off buffer (read_mask_idx s);
                                 Some (buffer, out_off + toread, out_off + toread, s\<lparr>read_mask_idx := idx\<rparr>) }
                       else Some (buffer, consumed + toread, out_off + toread, s))
                 else if out_off < consumed
                 then (if curr_has_read_mask s
                       then do { (buffer, idx) \<leftarrow> unmask_loop toread (read_mask s) consumed out_off buffer (read_mask_idx s);
                                 Some (buffer, consumed + toread, out_off + toread, s\<lparr>read_mask_idx := idx\<rparr>) }
                       else do { buffer \<leftarrow> memmove buffer out_off consumed toread; Some (buffer, consumed + toread, out_off + toread, s) })
                 else None);
              Some (buffer, consumed, out_off, if payload_size s = 0 then ws_frame_end pw s else s) })"

partial_function (option) consume_loop ::
    "out_pipe \<Rightarrow> nat \<Rightarrow> byte list \<Rightarrow> nat \<Rightarrow> nat \<Rightarrow> web_socket \<Rightarrow> (byte list \<times> nat \<times> nat \<times> web_socket) option" where
  "consume_loop pw bsize buffer consumed out_off s =
     (if bsize > consumed
      then (case step_state s of
              EReadState_Header1 \<Rightarrow> do { b \<leftarrow> rd buffer consumed; consume_loop pw bsize buffer (consumed + 1) out_off (ws_header1 b s) }
            | EReadState_HeaderSize1 \<Rightarrow> do { b \<leftarrow> rd buffer consumed; consume_loop pw bsize buffer (consumed + 1) out_off (ws_size1 b s) }
            | EReadState_HeaderSize2 \<Rightarrow> do { b \<leftarrow> rd buffer consumed; s \<leftarrow> ws_size2 b s; consume_loop pw bsize buffer (consumed + 1) out_off s }
            | EReadState_HeaderMask \<Rightarrow> do { b \<leftarrow> rd buffer consumed; s \<leftarrow> ws_mask b s; consume_loop pw bsize buffer (consumed + 1) out_off s }
            | EReadState_Body \<Rightarrow>
                do { (buffer, consumed, out_off, s) \<leftarrow> ws_body pw bsize buffer consumed out_off s; consume_loop pw bsize buffer consumed out_off s })
      else Some (buffer, consumed, out_off, s))"

declare consume_loop.simps [code]

text \<open>The result: the buffer, the number of bytes consumed, and the number of bytes of data at its beginning.\<close>

definition consume :: "out_pipe \<Rightarrow> byte list \<Rightarrow> nat \<Rightarrow> web_socket \<Rightarrow> (byte list \<times> nat \<times> nat \<times> web_socket) option" where
  "consume pw buffer bsize s = consume_loop pw bsize buffer 0 0 s"

subsection \<open>Reading\<close>

text \<open>What the pipe delivers: the bytes of each of its reads (none when it returns 0), and whether there is time left afterwards.\<close>

type_synonym in_pipe = "(byte list \<times> bool) list"

fun ws_Read_loop :: "out_pipe \<Rightarrow> in_pipe \<Rightarrow> web_socket \<Rightarrow> (byte list \<times> web_socket \<times> in_pipe) option" where
  "ws_Read_loop pw [] s = Some ([], s, [])"
| "ws_Read_loop pw ((bs, time_left) # rs) s =
     (if bs = [] then Some ([], s, rs)
      else do { (buf, consumed, data_size, s) \<leftarrow> consume pw bs (length bs) s;
                if data_size > 0 then Some (take data_size buf, s, rs)
                else if time_left then ws_Read_loop pw rs s
                else Some ([], s, rs) })"

definition ws_Read_string :: "out_pipe \<Rightarrow> in_pipe \<Rightarrow> web_socket \<Rightarrow> (byte list \<times> web_socket \<times> in_pipe) option" where
  "ws_Read_string pw rs s =
     (if pipe_add s \<noteq> []
      then do { (buf, consumed_out, data_size, s) \<leftarrow> consume pw (pipe_add s) (length (pipe_add s)) s;
                let s = s\<lparr>pipe_add := drop consumed_out buf\<rparr>
                in if data_size > 0 then Some (take data_size buf, s, rs) else ws_Read_loop pw rs s }
      else ws_Read_loop pw rs s)"

text \<open>The variant with a buffer of \<open>bsize\<close> bytes, which the pipe must not exceed.\<close>

definition ws_Read :: "out_pipe \<Rightarrow> nat \<Rightarrow> in_pipe \<Rightarrow> web_socket \<Rightarrow> (byte list \<times> web_socket \<times> in_pipe) option" where
  "ws_Read pw bsize rs s =
     (if pipe_add s \<noteq> []
      then do { (buf, consumed_out, data_size, s) \<leftarrow> consume pw (pipe_add s) (min bsize (length (pipe_add s))) s;
                let s = s\<lparr>pipe_add := drop consumed_out buf\<rparr>
                in if data_size > 0 then Some (take data_size buf, s, rs) else ws_Read_loop pw rs s }
      else ws_Read_loop pw rs s)"

end
