(* ===== verification/Web_Socket_Correct.thy ===== *)
theory Web_Socket_Correct
  imports Web_Socket
begin

text \<open>
  The decoder in place does what a decoder byte by byte does, so the way the stream is cut into reads does not matter; and frames that were
  written are decoded to the data.
\<close>

subsection \<open>The decoder byte by byte\<close>

fun unmask_bytes :: "byte list \<Rightarrow> byte list \<Rightarrow> u32 \<Rightarrow> (byte list \<times> u32) option" where
  "unmask_bytes m [] idx = Some ([], idx)"
| "unmask_bytes m (b # bs) idx =
     do { x \<leftarrow> rd m (unat (idx mod 4)); (out, idx) \<leftarrow> unmask_bytes m bs (idx + 1); Some ((b XOR x) # out, idx) }"

definition data_bytes :: "byte list \<Rightarrow> web_socket \<Rightarrow> (byte list \<times> web_socket) option" where
  "data_bytes bs s =
     (if \<not> is_data s then Some ([], s)
      else if curr_has_read_mask s then do { (out, idx) \<leftarrow> unmask_bytes (read_mask s) bs (read_mask_idx s); Some (out, s\<lparr>read_mask_idx := idx\<rparr>) }
      else Some (bs, s))"

definition payload_bytes :: "out_pipe \<Rightarrow> byte list \<Rightarrow> web_socket \<Rightarrow> (byte list \<times> web_socket) option" where
  "payload_bytes pw bs s =
     do { (out, s) \<leftarrow> data_bytes bs (s\<lparr>payload_size := payload_size s - of_nat (length bs)\<rparr>);
          Some (out, if payload_size s = 0 then ws_frame_end pw s else s) }"

text \<open>A frame without payload ends when the next byte comes.\<close>

definition ws_ready :: "out_pipe \<Rightarrow> web_socket \<Rightarrow> web_socket" where
  "ws_ready pw s = (if step_state s = EReadState_Body \<and> payload_size s = 0 then ws_frame_end pw s else s)"

definition ws_byte :: "out_pipe \<Rightarrow> byte \<Rightarrow> web_socket \<Rightarrow> (byte list \<times> web_socket) option" where
  "ws_byte pw b s =
     (let s = ws_ready pw s in
      case step_state s of
        EReadState_Header1 \<Rightarrow> Some ([], ws_header1 b s)
      | EReadState_HeaderSize1 \<Rightarrow> Some ([], ws_size1 b s)
      | EReadState_HeaderSize2 \<Rightarrow> map_option (Pair []) (ws_size2 b s)
      | EReadState_HeaderMask \<Rightarrow> map_option (Pair []) (ws_mask b s)
      | EReadState_Body \<Rightarrow> payload_bytes pw [b] s)"

fun ws_bytes :: "out_pipe \<Rightarrow> byte list \<Rightarrow> web_socket \<Rightarrow> (byte list \<times> web_socket) option" where
  "ws_bytes pw [] s = Some ([], s)"
| "ws_bytes pw (b # bs) s = do { (out, s) \<leftarrow> ws_byte pw b s; (out', s) \<leftarrow> ws_bytes pw bs s; Some (out @ out', s) }"

lemma ws_bytes_append: "ws_bytes pw (xs @ ys) s = do { (out, s) \<leftarrow> ws_bytes pw xs s; (out', s) \<leftarrow> ws_bytes pw ys s; Some (out @ out', s) }"
  by (induction xs arbitrary: s) (auto simp: Option.bind_assoc split: Option.bind_split prod.splits)

lemma unmask_bytes_length: "unmask_bytes m bs idx = Some (out, idx') \<Longrightarrow> length out = length bs"
  by (induction bs arbitrary: idx out idx') (auto split: Option.bind_splits)

lemma unmask_bytes_append: "unmask_bytes m (xs @ ys) idx = do { (out, idx) \<leftarrow> unmask_bytes m xs idx; (out', idx) \<leftarrow> unmask_bytes m ys idx; Some (out @ out', idx) }"
  by (induction xs arbitrary: idx) (auto split: Option.bind_split prod.splits)

lemma data_bytes_state: "data_bytes bs s = Some (out, s') \<Longrightarrow> \<exists>idx. s' = s\<lparr>read_mask_idx := idx\<rparr>"
  by (cases s) (auto simp: data_bytes_def split: Option.bind_splits if_splits)

lemma ws_frame_end_state [simp]: "step_state (ws_frame_end pw s) = EReadState_Header1"
  by (simp add: ws_frame_end_def pipe_Write_def Let_def)

text \<open>The payload at once or byte by byte.\<close>

lemma data_bytes_Cons:
  "data_bytes (b # bs) s = do { (out, s) \<leftarrow> data_bytes [b] s; (out', s) \<leftarrow> data_bytes bs s; Some (out @ out', s) }"
  by (cases s) (auto simp: data_bytes_def is_data_def get_opcode_def split: Option.bind_split prod.splits)

lemma data_bytes_payload: "data_bytes bs (s\<lparr>payload_size := n\<rparr>) = map_option (\<lambda>(out, s). (out, s\<lparr>payload_size := n\<rparr>)) (data_bytes bs s)"
  by (cases s) (auto simp: data_bytes_def is_data_def get_opcode_def split: Option.bind_split prod.splits)

lemma payload_Cons:
  assumes "bs \<noteq> []" "length (b # bs) \<le> unat (payload_size s)"
  shows "payload_bytes pw (b # bs) s = do { (out, s) \<leftarrow> payload_bytes pw [b] s; (out', s) \<leftarrow> payload_bytes pw bs s; Some (out @ out', s) }"
    "payload_bytes pw [b] s = Some (out, s') \<Longrightarrow> \<exists>idx. s' = s\<lparr>payload_size := payload_size s - 1, read_mask_idx := idx\<rparr>" "unat (payload_size s - 1) = unat (payload_size s) - 1"
proof -
  have "1 \<le> unat (payload_size s)" using assms by simp
  then have "1 \<le> payload_size s" by (simp add: word_le_nat_alt)
  then show u: "unat (payload_size s - 1) = unat (payload_size s) - 1" by (simp add: unat_sub)
  then have nz: "payload_size s - 1 \<noteq> 0" using assms by (cases bs) auto
  show "\<exists>idx. s' = s\<lparr>payload_size := payload_size s - 1, read_mask_idx := idx\<rparr>" if "payload_bytes pw [b] s = Some (out, s')"
    using that nz data_bytes_state [of "[b]" "s\<lparr>payload_size := payload_size s - 1\<rparr>"] by (auto simp: payload_bytes_def split: Option.bind_splits)
  have e: "payload_size s - of_nat (length (b # bs)) = payload_size s - 1 - of_nat (length bs)" by simp
  show "payload_bytes pw (b # bs) s = do { (out, s) \<leftarrow> payload_bytes pw [b] s; (out', s) \<leftarrow> payload_bytes pw bs s; Some (out @ out', s) }"
  proof (cases "data_bytes [b] s")
    case None
    then show ?thesis using data_bytes_Cons [of b bs s] by (simp add: payload_bytes_def data_bytes_payload)
  next
    case (Some r)
    then obtain o1 s1 where r: "data_bytes [b] s = Some (o1, s1)" by (cases r) auto
    obtain idx where s1: "s1 = s\<lparr>read_mask_idx := idx\<rparr>" using data_bytes_state [OF r] by blast
    have "payload_bytes pw [b] s = Some (o1, s1\<lparr>payload_size := payload_size s - 1\<rparr>)"
      using r nz by (simp add: payload_bytes_def data_bytes_payload)
    then show ?thesis using data_bytes_Cons [of b bs s] r s1 e
      by (cases "data_bytes bs s1") (auto simp: payload_bytes_def data_bytes_payload diff_eq_eq add.commute)
  qed
qed

lemma payload_bytes_eq:
  "step_state s = EReadState_Body \<Longrightarrow> bs \<noteq> [] \<Longrightarrow> length bs \<le> unat (payload_size s) \<Longrightarrow> ws_bytes pw bs s = payload_bytes pw bs s"
proof (induction bs arbitrary: s)
  case (Cons b bs)
  have "payload_size s \<noteq> 0" using Cons.prems(3) by auto
  then have b: "ws_byte pw b s = payload_bytes pw [b] s" using Cons.prems(1) by (simp add: ws_byte_def ws_ready_def)
  show ?case
  proof (cases "bs = []")
    case True
    then show ?thesis using b by (cases "payload_bytes pw [b] s") auto
  next
    case False
    note c = payload_Cons [OF False Cons.prems(3)]
    show ?thesis
    proof (cases "payload_bytes pw [b] s")
      case None
      then show ?thesis using b c(1) by simp
    next
      case (Some r)
      then obtain o1 s1 where r: "payload_bytes pw [b] s = Some (o1, s1)" by (cases r) auto
      then obtain idx where "s1 = s\<lparr>payload_size := payload_size s - 1, read_mask_idx := idx\<rparr>" using c(2) by blast
      then have "ws_bytes pw bs s1 = payload_bytes pw bs s1" using Cons.IH [OF _ False] Cons.prems c(3) by simp
      then show ?thesis using b r c(1) by simp
    qed
  qed
qed simp

subsection \<open>The decoder in place\<close>

lemma unmask_loop_eq:
  "consumed + n \<le> length buffer \<Longrightarrow> out_off \<le> consumed \<Longrightarrow>
   unmask_loop n m consumed out_off buffer idx =
     map_option (\<lambda>(out, idx). (take out_off buffer @ out @ drop (out_off + n) buffer, idx)) (unmask_bytes m (take n (drop consumed buffer)) idx)"
proof (induction n arbitrary: consumed out_off buffer idx)
  case (Suc n)
  have t: "take (Suc n) (drop consumed buffer) = buffer ! consumed # take n (drop (Suc consumed) buffer)"
    using Suc.prems by (simp add: Cons_nth_drop_Suc [symmetric])
  show ?case
  proof (cases "rd m (unat (idx mod 4))")
    case None
    then show ?thesis using Suc.prems t by (simp add: rd_eq_Some)
  next
    case (Some x)
    let ?buf = "buffer[out_off := buffer ! consumed XOR x]"
    have d: "drop (Suc consumed) ?buf = drop (Suc consumed) buffer" using Suc.prems by simp
    have "take (Suc out_off) ?buf = take out_off buffer @ [buffer ! consumed XOR x]" using Suc.prems by (simp add: take_Suc_conv_app_nth)
    moreover have "drop (Suc out_off + n) ?buf = drop (out_off + Suc n) buffer" by simp
    ultimately show ?thesis using Suc.IH [of "Suc consumed" ?buf "Suc out_off" "idx + 1"] Suc.prems t Some d
      by (auto simp: rd_eq_Some wr_eq_Some option.map_comp comp_def split: Option.bind_split)
  qed
qed simp

lemma ws_body_eq:
  assumes "consumed < bsize" "bsize \<le> length buffer" "out_off \<le> consumed" "n = min (bsize - consumed) (unat (payload_size s))"
  shows "ws_body pw bsize buffer consumed out_off s =
    map_option (\<lambda>(out, s'). (take out_off buffer @ out @ drop (out_off + length out) buffer, consumed + n, out_off + length out, s')) (payload_bytes pw (take n (drop consumed buffer)) s)"
proof -
  have l: "consumed + n \<le> length buffer" "length (take n (drop consumed buffer)) = n" using assms by auto
  have m: "memmove buffer out_off consumed n = Some (take out_off buffer @ take n (drop consumed buffer) @ drop (out_off + n) buffer)"
    using l assms(3) by (simp add: memmove_def rdb_def wrb_def bslice_def patch_def)
  have c: "take consumed buffer @ take n (drop consumed buffer) @ drop (consumed + n) buffer = buffer"
    by (metis append_take_drop_id drop_drop add.commute)
  let ?bs = "take n (drop consumed buffer)" and ?s = "s\<lparr>payload_size := payload_size s - of_nat n\<rparr>"
  have p: "payload_bytes pw ?bs s = do { (out, s) \<leftarrow> data_bytes ?bs ?s; Some (out, if payload_size s = 0 then ws_frame_end pw s else s) }"
    unfolding payload_bytes_def l(2) ..
  consider (skip) "\<not> is_data ?s" | (masked) "is_data ?s" "curr_has_read_mask ?s" | (plain) "is_data ?s" "\<not> curr_has_read_mask ?s" by blast
  then show ?thesis
  proof cases
    case skip
    then show ?thesis by (simp add: Let_def ws_body_def assms(4) [symmetric] p data_bytes_def)
  next
    case masked
    have u: "unmask_loop n (read_mask s) consumed out_off buffer (read_mask_idx s) =
        map_option (\<lambda>(out, idx). (take out_off buffer @ out @ drop (out_off + n) buffer, idx)) (unmask_bytes (read_mask s) ?bs (read_mask_idx s))"
      by (rule unmask_loop_eq [OF l(1) assms(3)])
    show ?thesis
    proof (cases "unmask_bytes (read_mask s) ?bs (read_mask_idx s)")
      case None
      then show ?thesis using masked u assms(3) by (cases "out_off = consumed") (simp_all add: Let_def ws_body_def assms(4) [symmetric] p data_bytes_def)
    next
      case (Some r)
      then obtain out idx where r: "unmask_bytes (read_mask s) ?bs (read_mask_idx s) = Some (out, idx)" by (cases r) auto
      then have "length out = n" using unmask_bytes_length l(2) by metis
      then show ?thesis using masked u r assms(3) by (cases "out_off = consumed") (simp_all add: Let_def ws_body_def assms(4) [symmetric] p data_bytes_def)
    qed
  next
    case plain
    then show ?thesis using m c l(2) assms(3) by (cases "out_off = consumed") (simp_all add: Let_def ws_body_def assms(4) [symmetric] p data_bytes_def)
  qed
qed

lemma payload_bytes_length: "payload_bytes pw bs s = Some (out, s') \<Longrightarrow> length out \<le> length bs"
  by (auto simp: payload_bytes_def data_bytes_def dest: unmask_bytes_length split: Option.bind_splits if_splits)

text \<open>What a call with \<open>bs\<close> left to consume returns.\<close>

definition consumed_as :: "out_pipe \<Rightarrow> nat \<Rightarrow> byte list \<Rightarrow> byte list \<Rightarrow> nat \<Rightarrow> web_socket \<Rightarrow> (byte list \<times> nat \<times> nat \<times> web_socket) option" where
  "consumed_as pw bsize bs buffer out_off s =
     map_option (\<lambda>(out, s). (take out_off buffer @ out @ drop (out_off + length out) buffer, bsize, out_off + length out, s)) (ws_bytes pw bs s)"

lemma consumed_as_Cons:
  "ws_byte pw b s = None \<Longrightarrow> consumed_as pw bsize (b # bs) buffer out_off s = None"
  "ws_byte pw b s = Some ([], s') \<Longrightarrow> consumed_as pw bsize (b # bs) buffer out_off s = consumed_as pw bsize bs buffer out_off s'"
  by (simp_all add: consumed_as_def split: Option.bind_split)

lemma consumed_as_append:
  assumes "ws_bytes pw xs s = Some (out, s')" "out_off + length out \<le> length buffer"
  shows "consumed_as pw bsize (xs @ ys) buffer out_off s =
    consumed_as pw bsize ys (take out_off buffer @ out @ drop (out_off + length out) buffer) (out_off + length out) s'"
proof -
  have l: "length (take out_off buffer) = out_off" using assms(2) by simp
  have t: "take (out_off + length out) (take out_off buffer @ out @ z) = take out_off buffer @ out" for z using l by simp
  have d: "drop (out_off + length out + k) (take out_off buffer @ out @ drop (out_off + length out) buffer) = drop (out_off + length out + k) buffer" for k
    using l by (simp add: add.commute)
  show ?thesis unfolding consumed_as_def ws_bytes_append using assms(1) t d
    by (cases "ws_bytes pw ys s'") (auto simp: add.assoc)
qed

lemma consume_loop_eq:
  assumes "consumed \<le> bsize" "bsize \<le> length buffer" "out_off \<le> consumed"
  shows "consume_loop pw bsize buffer consumed out_off s = consumed_as pw bsize (take (bsize - consumed) (drop consumed buffer)) buffer out_off s"
  using assms
proof (induction "2 * (bsize - consumed) + (if step_state s = EReadState_Body then 1 else 0)" arbitrary: buffer consumed out_off s rule: less_induct)
  case less
  show ?case
  proof (cases "consumed = bsize")
    case True
    then show ?thesis by (simp add: consume_loop.simps consumed_as_def)
  next
    case False
    then have lt: "consumed < bsize" "consumed < length buffer" using less.prems by simp_all
    have "take (bsize - consumed) (drop consumed buffer) = take (Suc (bsize - Suc consumed)) (buffer ! consumed # drop (Suc consumed) buffer)"
      using lt by (simp add: Cons_nth_drop_Suc Suc_diff_Suc)
    then have t: "take (bsize - consumed) (drop consumed buffer) = buffer ! consumed # take (bsize - Suc consumed) (drop (Suc consumed) buffer)" by simp
    have hd: "consume_loop pw bsize buffer (Suc consumed) out_off s' = consumed_as pw bsize (take (bsize - Suc consumed) (drop (Suc consumed) buffer)) buffer out_off s'" for s'
      using less.hyps [of "Suc consumed" s' buffer out_off] less.prems lt Suc_diff_Suc [OF lt(1), symmetric] by simp
    show ?thesis
    proof (cases "step_state s = EReadState_Body")
      case False
      then have "ws_ready pw s = s" by (simp add: ws_ready_def)
      then show ?thesis using False lt hd consumed_as_Cons [of pw "buffer ! consumed" s] unfolding t
        by (cases "step_state s"; cases "ws_size2 (buffer ! consumed) s"; cases "ws_mask (buffer ! consumed) s")
          (auto simp: consume_loop.simps [of pw bsize buffer consumed] rd_eq_Some ws_byte_def)
    next
      case True
      define n where "n = min (bsize - consumed) (unat (payload_size s))"
      let ?bs = "take n (drop consumed buffer)" and ?ys = "take (bsize - (consumed + n)) (drop (consumed + n) buffer)"
      have body: "consume_loop pw bsize buffer consumed out_off s = do { (buffer, consumed, out_off, s) \<leftarrow> ws_body pw bsize buffer consumed out_off s;
          consume_loop pw bsize buffer consumed out_off s }"
        using True lt by (simp add: consume_loop.simps [of pw bsize buffer consumed])
      note e = ws_body_eq [OF lt(1) less.prems(2,3) n_def, of pw]
      show ?thesis
      proof (cases "payload_size s = 0")
        case z: True
        let ?s = "ws_frame_end pw s"
        have u: "s\<lparr>payload_size := payload_size s - of_nat (length ([] :: byte list))\<rparr> = s" by simp
        have "payload_bytes pw [] s = Some ([], ?s)" unfolding payload_bytes_def u using z by (simp add: data_bytes_def)
        then have "consume_loop pw bsize buffer consumed out_off s = consume_loop pw bsize buffer consumed out_off ?s" using body e z by (simp add: n_def)
        also have "\<dots> = consumed_as pw bsize (take (bsize - consumed) (drop consumed buffer)) buffer out_off ?s"
          using less.hyps [of consumed ?s buffer out_off] less.prems True by simp
        also have "\<dots> = consumed_as pw bsize (take (bsize - consumed) (drop consumed buffer)) buffer out_off s"
          unfolding t using True z by (simp add: consumed_as_def ws_byte_def ws_ready_def)
        finally show ?thesis .
      next
        case False
        then have n: "0 < n" "n \<le> bsize - consumed" "n \<le> unat (payload_size s)" "?bs \<noteq> []" "length ?bs = n" using lt less.prems by (auto simp: n_def unat_gt_0)
        have p: "ws_bytes pw ?bs s = payload_bytes pw ?bs s" using payload_bytes_eq [OF True n(4)] n(3,5) by simp
        have sn: "n + (bsize - (consumed + n)) = bsize - consumed" using n(2) lt by simp
        have sp: "take (bsize - consumed) (drop consumed buffer) = ?bs @ ?ys" using take_add [of n "bsize - (consumed + n)" "drop consumed buffer"]
          unfolding sn by (simp add: add.commute)
        show ?thesis
        proof (cases "payload_bytes pw ?bs s")
          case None
          then show ?thesis using body e p unfolding sp by (simp add: consumed_as_def ws_bytes_append)
        next
          case (Some r)
          then obtain out s' where r: "payload_bytes pw ?bs s = Some (out, s')" by (cases r) auto
          have lo: "length out \<le> n" using payload_bytes_length [OF r] n(5) by simp
          let ?buf = "take out_off buffer @ out @ drop (out_off + length out) buffer"
          have b: "length ?buf = length buffer" "drop (consumed + n) ?buf = drop (consumed + n) buffer" using lo less.prems n(2) by auto
          have mm: "2 * (bsize - (consumed + n)) + (if step_state s' = EReadState_Body then 1 else 0) < 2 * (bsize - consumed) + 1" "consumed + n \<le> bsize"
            using n(1,2) lt by (auto split: if_splits)
          have "consume_loop pw bsize buffer consumed out_off s = consume_loop pw bsize ?buf (consumed + n) (out_off + length out) s'" using body e r by simp
          also have "\<dots> = consumed_as pw bsize ?ys ?buf (out_off + length out) s'"
            using less.hyps [of "consumed + n" s' ?buf "out_off + length out"] less.prems mm lo b by (simp add: True)
          also have "\<dots> = consumed_as pw bsize (?bs @ ?ys) buffer out_off s"
            by (rule consumed_as_append [symmetric]) (use p r lo less.prems n(2) in auto)
          finally show ?thesis unfolding sp .
        qed
      qed
    qed
  qed
qed

lemma consume_eq:
  assumes "bsize \<le> length buffer"
  shows "consume pw buffer bsize s = map_option (\<lambda>(out, s). (out @ drop (length out) buffer, bsize, length out, s)) (ws_bytes pw (take bsize buffer) s)"
  using consume_loop_eq [of 0 bsize buffer 0 pw s] assms by (simp add: consume_def consumed_as_def)

subsection \<open>Frames that were written\<close>

definition frame_bytes :: "bool \<Rightarrow> bool \<Rightarrow> byte list \<Rightarrow> byte list \<Rightarrow> byte list" where
  "frame_bytes be mw key data =
     (let header = frame_header be (length data)
      in if mw then header[1 := header ! 1 OR push_bit 7 1] @ key @ map (\<lambda>i. data ! i XOR key ! (i mod 4)) [0..<length data]
         else header @ data)"

lemma size_byte:
  assumes "b < (128 :: byte)"
  shows "b AND 0x7F = b" "b AND push_bit 7 1 = 0" "(b OR push_bit 7 1) AND 0x7F = b" "(b OR push_bit 7 1) AND push_bit 7 1 \<noteq> 0"
proof -
  have "unat b < 2 ^ 7" using assms by (simp add: word_less_nat_alt)
  then have t: "take_bit 7 b = b" by (simp add: take_bit_nat_eq_self unsigned_take_bit_eq word_eq_iff_unsigned [where ?'a = nat])
  have nb: "\<not> bit b n" if "7 \<le> n" for n using that t by (metis bit_take_bit_iff not_le)
  have m: "(0x7F :: byte) = mask 7" by (simp add: mask_eq_exp_minus_1)
  show "b AND 0x7F = b" unfolding m using t by (simp add: take_bit_eq_mask)
  show "b AND push_bit 7 1 = 0" "(b OR push_bit 7 1) AND 0x7F = b" by (rule word8_eqI; simp add: bit_simps nb)+
  show "(b OR push_bit 7 1) AND push_bit 7 1 \<noteq> 0"
  proof
    assume "(b OR push_bit 7 1) AND push_bit 7 1 = 0"
    then have "bit ((b OR push_bit 7 1) AND push_bit 7 1) 7 = bit (0 :: byte) 7" by simp
    then show False by (simp add: bit_simps)
  qed
qed

lemma size_join:
  assumes "n < 65536"
  shows "(scast (push_bit 0 (ucast (of_nat n :: byte) :: u32)) :: u64) OR scast (push_bit 8 (ucast (of_nat (n div 256) :: byte) :: u32)) = of_nat n"
proof -
  define x where "x = (of_nat n :: u64)"
  have "unat x = n" using assms by (simp add: x_def take_bit_nat_eq_self unsigned_of_nat)
  then have n: "n = unat x" by simp
  have b: "(of_nat n :: byte) = ucast x" "(of_nat (n div 256) :: byte) = ucast (drop_bit 8 x)"
    using of_nat_unat_div [of x 0] of_nat_unat_div [of x 1] n by simp_all
  have "take_bit 16 x = x" using assms n by (simp add: take_bit_nat_eq_self unsigned_take_bit_eq word_eq_iff_unsigned [where ?'a = nat])
  then have l: "i < 16" if "bit x i" for i using that by (metis bit_take_bit_iff)
  show ?thesis unfolding b unfolding x_def [symmetric]
    by (rule bit_word_eqI) (auto simp: bit_simps min_def dest: l)
qed

lemma unat_mod_4: "unat (of_nat i mod 4 :: u32) = i mod 4"
proof -
  have "unat (of_nat i mod 4 :: u32) = i mod 2 ^ 32 mod 4" by (simp add: unat_mod_distrib unsigned_of_nat take_bit_eq_mod)
  also have "\<dots> = i mod 4" by (rule mod_mod_cancel) simp
  finally show ?thesis .
qed

lemma unmask_mask:
  assumes "length key = 4"
  shows "unmask_bytes key (map (\<lambda>i. data ! i XOR key ! (i mod 4)) [k..<length data]) (of_nat k) = Some (drop k data, of_nat (max k (length data)))"
proof (induction "length data - k" arbitrary: k)
  case 0
  then show ?case by simp
next
  case (Suc n)
  then have k: "k < length data" by simp
  have "n = length data - Suc k" using Suc(2) by simp
  then show ?case using Suc(1) [of "Suc k"] k assms upt_conv_Cons [OF k]
    by (simp add: unat_mod_4 rd_eq_Some xor.assoc Cons_nth_drop_Suc max_def add.commute split: if_splits)
qed

text \<open>Between two frames; a data frame without payload has not ended yet.\<close>

definition between :: "web_socket \<Rightarrow> bool" where
  "between s \<longleftrightarrow> length (read_mask s) = 4 \<and> (step_state s = EReadState_Header1 \<or> step_state s = EReadState_Body \<and> payload_size s = 0 \<and> is_data s)"

text \<open>What a decoded frame leaves as it was.\<close>

definition quiet :: "web_socket \<Rightarrow> web_socket \<Rightarrow> bool" where
  "quiet s s' \<longleftrightarrow> ws_error s' = ws_error s \<and> written s' = written s \<and> expect_read_mask s' = expect_read_mask s \<and> pipe_add s' = pipe_add s"

lemma quiet_refl [simp]: "quiet s s"
  by (simp add: quiet_def)

lemma quiet_trans: "quiet a b \<Longrightarrow> quiet b c \<Longrightarrow> quiet a c"
  by (simp add: quiet_def)

lemma is_data_opcode: "is_data s \<Longrightarrow> get_opcode s \<noteq> 8 \<and> get_opcode s \<noteq> 9"
  by (auto simp: is_data_def)

lemma frame_end_data: "is_data s \<Longrightarrow> ws_frame_end pw s = s\<lparr>step_state := EReadState_Header1\<rparr>"
  using is_data_opcode [of s] by (simp add: ws_frame_end_def get_opcode_def)

lemma ws_ready_between: "between s \<Longrightarrow> ws_ready pw s = s\<lparr>step_state := EReadState_Header1\<rparr>"
  by (cases s) (auto simp: between_def ws_ready_def frame_end_data)

definition in_body :: "nat \<Rightarrow> bool \<Rightarrow> byte list \<Rightarrow> web_socket \<Rightarrow> bool" where
  "in_body n mw key s \<longleftrightarrow> step_state s = EReadState_Body \<and> payload_size s = of_nat n \<and> is_data s \<and> curr_has_read_mask s = mw \<and> length (read_mask s) = 4 \<and>
     (mw \<longrightarrow> read_mask s = key \<and> read_mask_idx s = 0)"

lemma decode_first:
  assumes "between s"
  shows "\<exists>s1. ws_byte pw (push_bit 7 1 OR 2) s = Some ([], s1) \<and> quiet s s1 \<and> step_state s1 = EReadState_HeaderSize1 \<and> is_data s1 \<and> length (read_mask s1) = 4"
  using assms by (auto simp: ws_byte_def ws_ready_between ws_header1_def Let_def quiet_def is_data_def get_opcode_def between_def)

text \<open>The mask, if there is one, after the size.\<close>

lemma decode_mask:
  assumes "step_state s = EReadState_HeaderMask" "remaining_size_bytes s = 4" "consumed_size_bytes s = 0" "curr_has_read_mask s" "is_data s" "length (read_mask s) = 4"
    "payload_size s = of_nat n" "length key = 4"
  shows "\<exists>s1. ws_bytes pw key s = Some ([], s1) \<and> quiet s s1 \<and> in_body n True key s1"
proof -
  obtain a b c d where k: "key = [a, b, c, d]" using assms(8) by (auto simp: eval_nat_numeral length_Suc_conv)
  obtain p q r t where m: "read_mask s = [p, q, r, t]" using assms(6) by (auto simp: eval_nat_numeral length_Suc_conv)
  show ?thesis using assms m unfolding k
    by (cases s) (auto simp: ws_byte_def ws_ready_def ws_mask_def wr_def quiet_def in_body_def is_data_def get_opcode_def Let_def)
qed

lemma decode_size_end:
  assumes "is_data s" "length (read_mask s) = 4" "payload_size s = of_nat n" "length key = 4" "has_read_mask s = mw"
  shows "\<exists>s1. ws_bytes pw (if mw then key else []) (ws_size_end s) = Some ([], s1) \<and> quiet s s1 \<and> in_body n mw key s1"
proof (cases mw)
  case True
  let ?s = "ws_size_end s"
  have e: "ws_size_end s = s\<lparr>step_state := EReadState_HeaderMask, remaining_size_bytes := 4, consumed_size_bytes := 0, curr_has_read_mask := True\<rparr>"
    using True assms(5) by (simp add: ws_size_end_def)
  have "\<exists>s1. ws_bytes pw key ?s = Some ([], s1) \<and> quiet ?s s1 \<and> in_body n True key s1"
    by (rule decode_mask) (use assms e in \<open>simp_all add: is_data_def get_opcode_def\<close>)
  moreover have "quiet s ?s" using e by (simp add: quiet_def)
  ultimately show ?thesis using True quiet_trans [of s ?s] by auto
next
  case False
  then show ?thesis using assms by (auto simp: ws_size_end_def in_body_def is_data_def get_opcode_def quiet_def)
qed

definition size_bytes :: "bool \<Rightarrow> nat \<Rightarrow> byte list" where
  "size_bytes mw n = (let m = (if mw then push_bit 7 1 else 0) in if n > 125 then [126 OR m, of_nat n, of_nat (n div 256)] else [of_nat n OR m])"

lemma decode_size:
  assumes "step_state s = EReadState_HeaderSize1" "is_data s" "length (read_mask s) = 4" "n < 65536" "length key = 4" "expect_read_mask s \<longrightarrow> mw"
  shows "\<exists>s1. ws_bytes pw (size_bytes mw n @ (if mw then key else [])) s = Some ([], s1) \<and> quiet s s1 \<and> in_body n mw key s1"
proof -
  let ?m = "if mw then push_bit 7 1 else (0 :: byte)"
  show ?thesis
  proof (cases "n > 125")
    case True
    let ?s = "s\<lparr>header_bits2 := 126 OR ?m, remaining_size_bytes := 0, consumed_size_bytes := Suc (Suc 0), payload_size := of_nat n, step_state := EReadState_HeaderSize2\<rparr>"
    have b: "(126 OR ?m) AND 0x7F = 126" "(126 OR ?m) AND push_bit 7 1 \<noteq> 0 \<longleftrightarrow> mw" using size_byte [of 126] by (simp_all add: word_less_nat_alt)
    have j: "(scast (ucast (of_nat n :: byte) :: u32) :: u64) OR scast (push_bit 8 (ucast (of_nat (n div 256) :: byte) :: u32)) = of_nat n" using size_join [OF assms(4)] by simp
    have 1: "ws_bytes pw (size_bytes mw n) s = Some ([], ws_size_end ?s)"
      using assms(1,6) b j True by (cases s) (auto simp: size_bytes_def Let_def ws_byte_def ws_ready_def ws_size1_def ws_size2_def has_read_mask_def)
    have "\<exists>s1. ws_bytes pw (if mw then key else []) (ws_size_end ?s) = Some ([], s1) \<and> quiet ?s s1 \<and> in_body n mw key s1"
      by (rule decode_size_end) (use assms b(2) in \<open>simp_all add: is_data_def get_opcode_def has_read_mask_def\<close>)
    moreover have "quiet s ?s" by (simp add: quiet_def)
    ultimately show ?thesis unfolding ws_bytes_append 1 using quiet_trans [of s ?s] by auto
  next
    case False
    let ?s = "s\<lparr>header_bits2 := of_nat n OR ?m, payload_size := of_nat n\<rparr>"
    have l: "(of_nat n :: byte) < 126" using False by (simp add: word_less_nat_alt unsigned_of_nat take_bit_nat_eq_self)
    then have b: "(of_nat n OR ?m) AND 0x7F = (of_nat n :: byte)" "(of_nat n OR ?m) AND push_bit 7 1 \<noteq> (0 :: byte) \<longleftrightarrow> mw"
      using size_byte [of "of_nat n"] by (simp_all add: word_less_nat_alt)
    have u: "(ucast (of_nat n :: byte) :: u64) = of_nat n" using False by (simp add: word_eq_iff_unsigned [where ?'a = nat] unsigned_ucast_eq unsigned_of_nat take_bit_nat_eq_self)
    have 1: "ws_bytes pw (size_bytes mw n) s = Some ([], ws_size_end ?s)"
      using assms(1,6) b l u False by (cases s) (auto simp: size_bytes_def Let_def ws_byte_def ws_ready_def ws_size1_def has_read_mask_def)
    have "\<exists>s1. ws_bytes pw (if mw then key else []) (ws_size_end ?s) = Some ([], s1) \<and> quiet ?s s1 \<and> in_body n mw key s1"
      by (rule decode_size_end) (use assms b(2) in \<open>simp_all add: is_data_def get_opcode_def has_read_mask_def\<close>)
    moreover have "quiet s ?s" by (simp add: quiet_def)
    ultimately show ?thesis unfolding ws_bytes_append 1 using quiet_trans [of s ?s] by auto
  qed
qed

lemma decode_body:
  assumes "in_body (length data) mw key s" "length key = 4" "length data < 65536"
  shows "\<exists>s1. ws_bytes pw (if mw then map (\<lambda>i. data ! i XOR key ! (i mod 4)) [0..<length data] else data) s = Some (data, s1) \<and> quiet s s1 \<and> between s1"
proof (cases "data = []")
  case True
  then show ?thesis using assms(1) by (auto simp: in_body_def between_def quiet_def)
next
  case False
  let ?bs = "if mw then map (\<lambda>i. data ! i XOR key ! (i mod 4)) [0..<length data] else data" and ?s = "s\<lparr>payload_size := 0\<rparr>"
  have l: "length ?bs = length data" "?bs \<noteq> []" using False by simp_all
  have u: "unat (payload_size s) = length data" "payload_size s - of_nat (length ?bs) = 0" using assms(1,3) l(1) by (simp_all add: in_body_def unsigned_of_nat take_bit_nat_eq_self)
  have k: "unmask_bytes key (map (\<lambda>i. data ! i XOR key ! (i mod 4)) [0..<length data]) 0 = Some (data, of_nat (length data))"
    using unmask_mask [OF assms(2), of data 0] by simp
  have d: "is_data ?s" "length (read_mask s) = 4" using assms(1) by (simp_all add: in_body_def is_data_def get_opcode_def)
  have "\<exists>s1. data_bytes ?bs ?s = Some (data, s1)" using assms(1) d k by (cases mw) (auto simp: data_bytes_def in_body_def)
  then obtain s1 where s1: "data_bytes ?bs ?s = Some (data, s1)" "\<exists>i. s1 = ?s\<lparr>read_mask_idx := i\<rparr>" using data_bytes_state by blast
  have "ws_bytes pw ?bs s = payload_bytes pw ?bs s" by (rule payload_bytes_eq) (use assms(1) l u in \<open>auto simp: in_body_def\<close>)
  then have "ws_bytes pw ?bs s = Some (data, ws_frame_end pw s1)" using s1 unfolding payload_bytes_def u(2) by auto
  moreover have "is_data s1" using s1(2) d(1) by (auto simp: is_data_def get_opcode_def)
  ultimately show ?thesis using s1(2) d(2) by (auto simp: frame_end_data quiet_def between_def)
qed

lemma decode_frame:
  assumes "between s" "length data < 65536" "length key = 4" "expect_read_mask s \<longrightarrow> mw"
  shows "\<exists>s1. ws_bytes pw (frame_bytes False mw key data) s = Some (data, s1) \<and> quiet s s1 \<and> between s1"
proof -
  let ?n = "length data" and ?bs = "if mw then map (\<lambda>i. data ! i XOR key ! (i mod 4)) [0..<length data] else data"
  have "enc_le 2 ?n = [of_nat ?n, of_nat (?n div 256)]" by (simp add: enc_le_numeral)
  then have f: "frame_bytes False mw key data = [push_bit 7 1 OR 2] @ (size_bytes mw ?n @ (if mw then key else [])) @ ?bs"
    using assms(2) by (simp add: frame_bytes_def frame_header_def size_bytes_def Let_def host_bytes_def)
  obtain s1 where s1: "ws_byte pw (push_bit 7 1 OR 2) s = Some ([], s1)" "quiet s s1" "step_state s1 = EReadState_HeaderSize1" "is_data s1" "length (read_mask s1) = 4"
    using decode_first [OF assms(1)] by blast
  obtain s2 where s2: "ws_bytes pw (size_bytes mw ?n @ (if mw then key else [])) s1 = Some ([], s2)" "quiet s1 s2" "in_body ?n mw key s2"
    using decode_size [OF s1(3-5) assms(2,3)] assms(4) s1(2) by (auto simp: quiet_def)
  obtain s3 where s3: "ws_bytes pw ?bs s2 = Some (data, s3)" "quiet s2 s3" "between s3" using decode_body [OF s2(3) assms(3,2)] by blast
  have 1: "ws_bytes pw [push_bit 7 1 OR 2] s = Some ([], s1)" using s1(1) by simp
  show ?thesis using quiet_trans [OF s1(2) quiet_trans [OF s2(2) s3(2)]] s3(3)
    unfolding f ws_bytes_append [of pw "[push_bit 7 1 OR 2]"] 1 ws_bytes_append [of pw "size_bytes mw ?n @ (if mw then key else [])"]
    using s2(1) s3(1) by simp
qed

lemma decode_frames:
  assumes "between s" "list_all (\<lambda>d. length d < 65536) ds" "length key = 4" "expect_read_mask s \<longrightarrow> mw"
  shows "\<exists>s1. ws_bytes pw (concat (map (frame_bytes False mw key) ds)) s = Some (concat ds, s1) \<and> quiet s s1 \<and> between s1"
  using assms(1,2,4)
proof (induction ds arbitrary: s)
  case (Cons d ds)
  obtain s1 where s1: "ws_bytes pw (frame_bytes False mw key d) s = Some (d, s1)" "quiet s s1" "between s1" using decode_frame [OF Cons.prems(1) _ assms(3), of d mw pw] Cons.prems(2,3) by auto
  obtain s2 where "ws_bytes pw (concat (map (frame_bytes False mw key) ds)) s1 = Some (concat ds, s2)" "quiet s1 s2" "between s2"
    using Cons.IH [OF s1(3)] Cons.prems s1(2) by (auto simp: quiet_def)
  then show ?case using s1 quiet_trans by (auto simp: ws_bytes_append)
qed simp

subsection \<open>Reading and writing\<close>

text \<open>The data in the bytes of one read.\<close>

definition decoded :: "out_pipe \<Rightarrow> byte list \<Rightarrow> web_socket \<Rightarrow> (byte list \<times> nat \<times> web_socket) option" where
  "decoded pw bs s = map_option (\<lambda>(buf, consumed, n, s). (take n buf, consumed, s)) (consume pw bs (length bs) s)"

lemma decoded_eq: "decoded pw bs s = map_option (\<lambda>(out, s). (out, length bs, s)) (ws_bytes pw bs s)"
  by (cases "ws_bytes pw bs s") (auto simp: decoded_def consume_eq)

fun decode_pieces :: "out_pipe \<Rightarrow> byte list list \<Rightarrow> web_socket \<Rightarrow> (byte list \<times> web_socket) option" where
  "decode_pieces pw [] s = Some ([], s)"
| "decode_pieces pw (c # cs) s = do { (out, _, s) \<leftarrow> decoded pw c s; (out', s) \<leftarrow> decode_pieces pw cs s; Some (out @ out', s) }"

lemma decode_pieces_eq: "decode_pieces pw cs s = ws_bytes pw (concat cs) s"
  by (induction cs arbitrary: s) (auto simp: decoded_eq ws_bytes_append bind_map_option split: Option.bind_split)

fun write_all :: "out_pipe \<Rightarrow> bool \<Rightarrow> byte list list \<Rightarrow> web_socket \<Rightarrow> bool \<times> web_socket" where
  "write_all pw be [] s = (True, s)"
| "write_all pw be (d # ds) s = (case ws_Write pw be d s of (ok, s) \<Rightarrow> if ok then write_all pw be ds s else (False, s))"

lemma ws_Write_bytes:
  assumes "ws_Write pw be d s = (True, s')"
  shows "concat (written s') = concat (written s) @ frame_bytes be (mask_writes s) (masking_key s) d" "mask_writes s' = mask_writes s" "masking_key s' = masking_key s"
  using assms by (auto simp: ws_Write_def frame_bytes_def pipe_Write_def Let_def split: if_splits)

lemma write_all_bytes:
  "write_all pw be ds s = (True, s') \<Longrightarrow> concat (written s') = concat (written s) @ concat (map (frame_bytes be (mask_writes s) (masking_key s)) ds)"
proof (induction ds arbitrary: s)
  case (Cons d ds)
  then obtain s1 where s1: "ws_Write pw be d s = (True, s1)" "write_all pw be ds s1 = (True, s')" by (auto split: prod.splits if_splits)
  then show ?case using Cons.IH [OF s1(2)] ws_Write_bytes [OF s1(1)] by simp
qed simp

text \<open>A call of \<open>Read\<close> returns the data in what it has taken from the pipe.\<close>

lemma ws_Read_loop_eq:
  "ws_Read_loop pw rs s = Some (out, s', rs') \<Longrightarrow> \<exists>k. rs' = drop k rs \<and> ws_bytes pw (concat (map fst (take k rs))) s = Some (out, s')"
proof (induction pw rs s rule: ws_Read_loop.induct)
  case (2 pw bs time_left rs s)
  show ?case
  proof (cases "bs = []")
    case True
    then show ?thesis using 2(2) by (intro exI [of _ 1]) auto
  next
    case False
    then obtain o1 s1 where c: "ws_bytes pw bs s = Some (o1, s1)" using 2(2) by (auto simp: consume_eq split: Option.bind_splits)
    show ?thesis
    proof (cases "o1 = [] \<and> time_left")
      case True
      then have "ws_Read_loop pw rs s1 = Some (out, s', rs')" using 2(2) c False by (auto simp: consume_eq)
      then obtain k where "rs' = drop k rs" "ws_bytes pw (concat (map fst (take k rs))) s1 = Some (out, s')"
        using 2(1) [of "(o1 @ drop (length o1) bs, length bs, length o1, s1)" _ _ _ "(length o1, s1)" "length o1" s1] False c True by (auto simp: consume_eq)
      then show ?thesis using c True by (intro exI [of _ "Suc k"]) (simp add: ws_bytes_append)
    next
      case f: False
      then have "out = o1" "s' = s1" "rs' = rs" using 2(2) c False by (auto simp: consume_eq split: if_splits)
      then show ?thesis using c by (intro exI [of _ 1]) simp
    qed
  qed
qed simp

lemma ws_bytes_length: "ws_bytes pw bs s = Some (out, s') \<Longrightarrow> length out \<le> length bs"
proof (induction bs arbitrary: s out)
  case (Cons b bs)
  have "length o1 \<le> 1" if "ws_byte pw b s = Some (o1, s1)" for o1 s1
    using that payload_bytes_length [of pw "[b]"] by (auto simp: ws_byte_def Let_def split: read_step.splits)
  then show ?case using Cons by (fastforce split: Option.bind_splits)
qed simp

lemma ws_Read_string_eq:
  assumes "ws_Read_string pw rs s = Some (out, s', rs')"
  shows "\<exists>k o1 s1 o2. rs' = drop k rs \<and> ws_bytes pw (pipe_add s) s = Some (o1, s1) \<and>
    ws_bytes pw (concat (map fst (take k rs))) (if pipe_add s = [] then s else s1\<lparr>pipe_add := []\<rparr>) = Some (o2, s') \<and> out = o1 @ o2"
proof (cases "pipe_add s = []")
  case True
  then show ?thesis using assms ws_Read_loop_eq [of pw rs s out s' rs'] by (auto simp: ws_Read_string_def)
next
  case False
  then obtain o1 s1 where c: "ws_bytes pw (pipe_add s) s = Some (o1, s1)" using assms by (auto simp: ws_Read_string_def consume_eq split: Option.bind_splits)
  show ?thesis
  proof (cases "o1 = []")
    case True
    then have "ws_Read_loop pw rs (s1\<lparr>pipe_add := []\<rparr>) = Some (out, s', rs')" using assms c False by (auto simp: ws_Read_string_def consume_eq)
    then show ?thesis using ws_Read_loop_eq [of pw rs "s1\<lparr>pipe_add := []\<rparr>"] c True False by auto
  next
    case o: False
    have l: "length o1 \<le> length (pipe_add s)" using assms c False o by (metis ws_bytes_length)
    then have "out = o1" "s' = s1\<lparr>pipe_add := []\<rparr>" "rs' = rs" using assms c False o by (auto simp: ws_Read_string_def consume_eq)
    then show ?thesis using c False by (intro exI [of _ 0]) auto
  qed
qed

subsection \<open>What goes wrong\<close>

text \<open>A size of eight bytes: the shift of the fifth is undefined.\<close>

lemma size2_step:
  assumes "step_state s = EReadState_HeaderSize2" "remaining_size_bytes s = 8 - k" "consumed_size_bytes s = k" "k < 4"
  shows "\<exists>s1. ws_byte pw b s = Some ([], s1) \<and> step_state s1 = EReadState_HeaderSize2 \<and> remaining_size_bytes s1 = 8 - Suc k \<and> consumed_size_bytes s1 = Suc k"
  using assms by (auto simp: ws_byte_def ws_ready_def ws_size2_def Let_def)

lemma size2_undefined:
  assumes "step_state s = EReadState_HeaderSize2" "remaining_size_bytes s = 8 - k" "consumed_size_bytes s = k" "k \<le> 4" "4 < k + length bs"
  shows "ws_bytes pw bs s = None"
  using assms
proof (induction bs arbitrary: s k)
  case (Cons b bs)
  show ?case
  proof (cases "k < 4")
    case True
    then obtain s1 where "ws_byte pw b s = Some ([], s1)" "ws_bytes pw bs s1 = None"
      using size2_step [OF Cons.prems(1-3), of pw b] Cons.IH [of _ "Suc k"] Cons.prems(5) by fastforce
    then show ?thesis by simp
  next
    case False
    then have "ws_byte pw b s = None" using Cons.prems by (auto simp: ws_byte_def ws_ready_def ws_size2_def)
    then show ?thesis by simp
  qed
qed simp

lemma large_frame:
  assumes "between s" "65535 < length data"
  shows "ws_bytes pw (frame_bytes be mw key data) s = None"
proof -
  let ?m = "if mw then push_bit 7 1 else (0 :: byte)"
  have h: "length (host_bytes be 8 (length data)) = 8" by (simp add: host_bytes_def enc_le_numeral)
  define rest where "rest = (if mw then key @ map (\<lambda>i. data ! i XOR key ! (i mod 4)) [0..<length data] else data)"
  have f: "frame_bytes be mw key data = (push_bit 7 1 OR 2) # (127 OR ?m) # host_bytes be 8 (length data) @ rest"
    using assms(2) by (simp add: frame_bytes_def frame_header_def Let_def rest_def)
  obtain s1 where s1: "ws_byte pw (push_bit 7 1 OR 2) s = Some ([], s1)" "step_state s1 = EReadState_HeaderSize1" using decode_first [OF assms(1)] by blast
  have b: "(127 OR ?m) AND 0x7F = 127" using size_byte(1,3) [of 127] by (simp add: word_less_nat_alt)
  obtain s2 where s2: "ws_byte pw (127 OR ?m) s1 = Some ([], s2)" "step_state s2 = EReadState_HeaderSize2" "remaining_size_bytes s2 = 8 - 0" "consumed_size_bytes s2 = 0"
    using s1(2) b by (auto simp: ws_byte_def ws_ready_def ws_size1_def Let_def)
  have "ws_bytes pw (host_bytes be 8 (length data) @ rest) s2 = None" by (rule size2_undefined [OF s2(2-4)]) (simp_all add: h)
  then show ?thesis using s1 s2 unfolding f by simp
qed

text \<open>The test of the FIN bit looks at the lowest bit, which belongs to the opcode.\<close>

lemma even_control_error:
  assumes "between s" "b AND 15 = 8 \<or> b AND 15 = 10"
  shows "\<exists>s1. ws_byte pw b s = Some ([], s1) \<and> ws_error s1"
proof -
  have "b AND 1 = 0"
  proof -
    have "(b AND 15) AND 1 = b AND 1" by (rule word8_eqI) (simp add: bit_simps)
    then show ?thesis using assms(2) by auto
  qed
  then show ?thesis using assms by (auto simp: ws_byte_def ws_ready_between ws_header1_def Let_def get_opcode_def)
qed

end
