(* ===== verification/Message_Channel.thy ===== *)
theory Message_Channel
  imports Tcp_Stack Web_Socket_Correct
begin

text \<open>
  Messages over a pipe: whatever frames the pipe puts around the writes and however the network cuts the stream, the messages of a sender arrive
  at the receiver unchanged and in order. The contract of the pipe is a locale; web socket pipes meet it.
\<close>

text \<open>Messages are sent one after the other until one fails. An empty message cannot be told from a failure.\<close>

fun send_all :: "(byte list \<Rightarrow> byte list) \<Rightarrow> bool \<Rightarrow> 'p write_op \<Rightarrow> int \<Rightarrow> bool \<Rightarrow> byte list list \<Rightarrow> tcp_stack \<Rightarrow> 'p \<Rightarrow> bool \<times> 'p" where
  "send_all md5 be pwrite tm fl [] t p = (True, p)"
| "send_all md5 be pwrite tm fl (m # ms) t p =
     (case tcp_Send md5 be pwrite m tm fl t p of (n, p) \<Rightarrow> if n = 0 then (False, p) else send_all md5 be pwrite tm fl ms t p)"

text \<open>
  What the stack relies on: a write adds a frame to the bytes on the wire, and a receiver that has seen a number of whole frames decodes the
  pieces of further ones to their data, never more from a piece than its length.
\<close>

locale framed_pipe =
  fixes pwrite :: "'p write_op" and wire :: "'p \<Rightarrow> byte list" and conf :: "'p \<Rightarrow> 'k" and frame :: "'k \<Rightarrow> byte list \<Rightarrow> byte list"
    and conf_ok :: "'k \<Rightarrow> bool" and receiver :: "'k \<Rightarrow> 'r \<Rightarrow> bool" and decode :: "byte list list \<Rightarrow> 'r \<Rightarrow> (byte list list \<times> 'r) option"
  assumes write_frame: "pwrite p d tm fl = (True, p') \<Longrightarrow> length d \<le> MAX_PACKET \<Longrightarrow> wire p' = wire p @ frame (conf p) d \<and> conf p' = conf p"
    and decode_frame: "conf_ok k \<Longrightarrow> receiver k r \<Longrightarrow> list_all (\<lambda>d. length d \<le> MAX_PACKET) ds \<Longrightarrow> concat cs = concat (map (frame k) ds) \<Longrightarrow>
      \<exists>outs r'. decode cs r = Some (outs, r') \<and> concat outs = concat ds \<and> list_all2 (\<lambda>x c. length x \<le> length c) outs cs \<and> receiver k r'"
begin

lemma send_wire:
  assumes "tcp_Send md5 be pwrite m tm fl t p = (n, p')" "n \<noteq> 0" "length m < 2 ^ 32"
  shows "wire p' = wire p @ concat (map (frame (conf p)) (pieces MAX_PACKET (packet md5 (add_checksum t) m))) \<and> conf p' = conf p"
proof -
  have s: "send_loop pwrite (packet md5 (add_checksum t) m) 0 True tm fl p = (True, p')"
    using assms by (auto simp: tcp_Send_def send_packet_eq simp del: send_loop.simps split: if_splits prod.splits)
  show ?thesis using send_loop_pieces [where wire = wire and frame = frame and conf = conf, OF write_frame s] by simp
qed

lemma send_all_wire:
  "send_all md5 be pwrite tm fl ms t p = (True, p') \<Longrightarrow> \<forall>m \<in> set ms. length m < 2 ^ 32 \<Longrightarrow>
     wire p' = wire p @ concat (map (frame (conf p)) (concat (map (pieces MAX_PACKET \<circ> packet md5 (add_checksum t)) ms))) \<and> conf p' = conf p"
proof (induction ms arbitrary: p)
  case (Cons m ms)
  obtain n p1 where s: "tcp_Send md5 be pwrite m tm fl t p = (n, p1)" "n \<noteq> 0" "send_all md5 be pwrite tm fl ms t p1 = (True, p')"
    using Cons.prems(1) by (auto split: prod.splits if_splits)
  show ?case using Cons.IH [OF s(3)] Cons.prems(2) send_wire [OF s(1,2)] by simp
qed simp

lemma messages_arrive:
  assumes "send_all md5 be1 pwrite tm fl ms t p = (True, p')" "conf_ok (conf p)" "receiver (conf p) r" "wire p' = wire p @ concat cs"
    "\<And>x. length (md5 x) = 16" "\<forall>m \<in> set ms. length m < 2 ^ 32" "\<forall>m \<in> set ms. \<forall>c \<in> set cs. length m + 20 + length c \<le> max_packet_size t'"
    "tcp_buffer t' = []" "add_checksum t' = add_checksum t"
  shows "\<exists>outs r'. decode cs r = Some (outs, r') \<and> receive md5 be2 outs t' = (True, ms, t') \<and> receiver (conf p) r'"
proof (cases "ms = []")
  case True
  then have "concat cs = concat (map (frame (conf p)) [])" using assms(1,4) by simp
  then obtain outs r' where o: "decode cs r = Some (outs, r')" "concat outs = []" "receiver (conf p) r'" using decode_frame [OF assms(2,3), of "[]" cs] by auto
  have "receive md5 be2 outs t' = (True, [], t')"
  proof -
    have g: "drain md5 be2 t' = ([], t')" using assms(8) by (simp add: drain.simps [of md5 be2 t'] getPacket_def Let_def checksum_len_def)
    have "\<forall>x \<in> set outs. x = []" using o(2) by auto
    then show ?thesis by (induction outs) (simp_all add: AddData_def g)
  qed
  then show ?thesis using o True by auto
next
  case False
  let ?ds = "concat (map (pieces MAX_PACKET \<circ> packet md5 (add_checksum t)) ms)"
  have w: "concat cs = concat (map (frame (conf p)) ?ds)" using send_all_wire [OF assms(1,6)] assms(4) by simp
  have "list_all (\<lambda>d. length d \<le> MAX_PACKET) ?ds" using pieces_length by (auto simp: list_all_iff)
  then obtain outs r' where o: "decode cs r = Some (outs, r')" "concat outs = concat ?ds" "list_all2 (\<lambda>x c. length x \<le> length c) outs cs" "receiver (conf p) r'"
    using decode_frame [OF assms(2,3) _ w] by blast
  have cc: "concat (concat (map (pieces MAX_PACKET \<circ> packet md5 ck) xs)) = packets md5 ck xs" for ck xs
    by (induction xs) (simp_all add: concat_pieces MAX_PACKET_def)
  define n where "n = Max ((\<lambda>m. length m + 20) ` set ms)"
  have "n \<in> (\<lambda>m. length m + 20) ` set ms" unfolding n_def by (rule Max_in) (use False in auto)
  then have n: "\<forall>m \<in> set ms. length m + 20 \<le> n" "\<exists>m \<in> set ms. n = length m + 20" by (auto simp: n_def)
  have le: "\<exists>c \<in> set cs. length x \<le> length c" if x: "x \<in> set outs" for x
  proof -
    obtain i where "i < length outs" "x = outs ! i" using x by (auto simp: in_set_conv_nth)
    then show ?thesis using o(3) by (intro bexI [of _ "cs ! i"]) (auto simp: list_all2_conv_all_nth)
  qed
  have "length x + n \<le> max_packet_size t' + 1" if "x \<in> set outs" for x
    using le [OF that] n(2) assms(7) by fastforce
  moreover have "outs \<noteq> []"
  proof
    assume "outs = []"
    then have "packets md5 (add_checksum t) ms = []" using o(2) cc by simp
    then show False using False packet_length [of md5 "add_checksum t" "hd ms", OF assms(5)] by (cases ms) (auto split: if_splits)
  qed
  moreover from this have "length m < max_packet_size t'" if "m \<in> set ms" for m
    using assms(7) that o(3) by (cases cs) fastforce+
  ultimately have "receive md5 be2 outs t' = (True, ms, t'\<lparr>tcp_buffer := []\<rparr>)"
    by (intro receive_eq [where n = n]) (use assms(5,6,8,9) n o(2) cc in auto)
  then show ?thesis using o assms(8) by (cases t') auto
qed

end

subsection \<open>Web socket pipes\<close>

fun decode_each :: "out_pipe \<Rightarrow> byte list list \<Rightarrow> web_socket \<Rightarrow> (byte list list \<times> web_socket) option" where
  "decode_each pw [] s = Some ([], s)"
| "decode_each pw (c # cs) s =
     do { (buf, consumed, n, s) \<leftarrow> consume pw c (length c) s; (outs, s) \<leftarrow> decode_each pw cs s; Some (take n buf # outs, s) }"

lemma decode_each_eq:
  "ws_bytes pw (concat cs) s = Some (out, s') \<Longrightarrow> \<exists>outs. decode_each pw cs s = Some (outs, s') \<and> concat outs = out \<and> list_all2 (\<lambda>x c. length x \<le> length c) outs cs"
proof (induction cs arbitrary: s out)
  case (Cons c cs)
  obtain o1 s1 o2 where o: "ws_bytes pw c s = Some (o1, s1)" "ws_bytes pw (concat cs) s1 = Some (o2, s')" "out = o1 @ o2"
    using Cons.prems by (auto simp: ws_bytes_append split: Option.bind_splits)
  then show ?case using Cons.IH [OF o(2)] ws_bytes_length [OF o(1)] by (auto simp: consume_eq)
qed simp

definition ws_conf :: "web_socket \<Rightarrow> bool \<times> byte list" where
  "ws_conf s = (mask_writes s, masking_key s)"

definition ws_receiver :: "bool \<times> byte list \<Rightarrow> web_socket \<Rightarrow> bool" where
  "ws_receiver k r \<longleftrightarrow> between r \<and> \<not> ws_error r \<and> (expect_read_mask r \<longrightarrow> fst k)"

interpretation ws: framed_pipe "\<lambda>s d tm fl. ws_Write pw False d s" "\<lambda>s. concat (written s)" ws_conf "\<lambda>(mw, key). frame_bytes False mw key"
    "\<lambda>(mw, key). length key = 4" ws_receiver "decode_each pw'" for pw pw'
proof
  show "concat (written p') = concat (written p) @ (case ws_conf p of (mw, key) \<Rightarrow> frame_bytes False mw key) d \<and> ws_conf p' = ws_conf p"
    if "ws_Write pw False d p = (True, p')" for p d p'
    using ws_Write_bytes [OF that] by (simp add: ws_conf_def)
  show "\<exists>outs r'. decode_each pw' cs r = Some (outs, r') \<and> concat outs = concat ds \<and> list_all2 (\<lambda>x c. length x \<le> length c) outs cs \<and> ws_receiver k r'"
    if a: "case k of (mw, key) \<Rightarrow> length key = 4" "ws_receiver k r" "list_all (\<lambda>d. length d \<le> MAX_PACKET) ds"
      "concat cs = concat (map (case k of (mw, key) \<Rightarrow> frame_bytes False mw key) ds)" for k r ds cs
  proof -
    obtain mw key where k: "k = (mw, key)" by (cases k)
    have "list_all (\<lambda>d. length d < 65536) ds" using a(3) by (auto simp: list_all_iff MAX_PACKET_def)
    then obtain s1 where "ws_bytes pw' (concat cs) r = Some (concat ds, s1)" "quiet r s1" "between s1"
      using decode_frames [of r ds key mw pw'] a k by (auto simp: ws_receiver_def)
    then show ?thesis using decode_each_eq [of pw' cs r "concat ds" s1] a(2) by (auto simp: ws_receiver_def quiet_def)
  qed
qed

subsection \<open>Properties\<close>

text \<open>C12. Messages sent through a web socket pipe, masked or not, arrive as they were sent and in order, whatever pieces the network cuts the stream into,
  as long as the receiver's limit leaves room for a packet and a piece. The checksum is any function to 16 bytes.\<close>

theorem websocket_messages_arrive:
  assumes "send_all md5 False (\<lambda>s d tm fl. ws_Write pw False d s) tm fl ms t p = (True, p')" "length (masking_key p) = 4"
    "between r" "\<not> ws_error r" "expect_read_mask r \<longrightarrow> mask_writes p" "concat (written p') = concat (written p) @ concat cs"
    "\<forall>x. length (md5 x) = 16" "\<forall>m \<in> set ms. length m < 2 ^ 32" "\<forall>m \<in> set ms. \<forall>c \<in> set cs. length m + 20 + length c \<le> max_packet_size t'"
    "tcp_buffer t' = []" "add_checksum t' = add_checksum t"
  shows "\<exists>outs r'. decode_each pw' cs r = Some (outs, r') \<and> receive md5 be outs t' = (True, ms, t') \<and> between r' \<and> \<not> ws_error r'"
  using ws.messages_arrive [OF assms(1) _ _ assms(6) _ assms(8-11), of r pw' be] assms(2-5,7) by (auto simp: ws_conf_def ws_receiver_def)

definition sample_socket :: "bool \<Rightarrow> bool \<Rightarrow> web_socket" where
  "sample_socket mw erm = WebSocketPipe_init mw erm [] [1, 2, 3, 4] \<lparr>mask_writes = False, expect_read_mask = False, step_state = EReadState_Body, header_bits1 = 0, header_bits2 = 0,
     payload_size = 0, remaining_size_bytes = 0, consumed_size_bytes = 0, read_mask = [0, 0, 0, 0], curr_has_read_mask = False, read_mask_idx = 0, ws_error = True,
     pipe_add = [], masking_key = [], written = []\<rparr>"

definition sample_digest :: "byte list \<Rightarrow> byte list" where
  "sample_digest bs = replicate 16 (sum_list bs)"

definition sample_sent :: "bool \<times> web_socket" where
  "sample_sent = send_all sample_digest False (\<lambda>s d tm fl. ws_Write (\<lambda>_ _. True) False d s) 10 True [[7, 8], [9]] (CTCPStack_init True 100) (sample_socket True False)"

theorem websocket_messages_arrive_witness:
  "\<exists>outs r'. decode_each (\<lambda>_ _. True) [take 5 (concat (written (snd sample_sent))), drop 5 (concat (written (snd sample_sent)))] (sample_socket False True) = Some (outs, r') \<and>
     receive sample_digest True outs (CTCPStack_init True 100) = (True, [[7, 8], [9]], CTCPStack_init True 100) \<and> between r' \<and> \<not> ws_error r'"
proof -
  let ?w = "concat (written (snd sample_sent))"
  note d = sample_sent_def sample_socket_def WebSocketPipe_init_def CTCPStack_init_def tcp_Send_def send_packet_eq packet_def sample_digest_def MAX_PACKET_def
    ws_Write_def pipe_Write_def frame_header_def Let_def enc_le_numeral
  have f: "fst sample_sent" by (simp add: d)
  have l: "length ?w = 55" by (simp add: d)
  have s: "send_all sample_digest False (\<lambda>s d tm fl. ws_Write (\<lambda>_ _. True) False d s) 10 True [[7, 8], [9]] (CTCPStack_init True 100) (sample_socket True False) = (True, snd sample_sent)"
    using f unfolding sample_sent_def [symmetric] by (simp add: prod_eq_iff)
  show ?thesis
    by (rule websocket_messages_arrive [OF s, where pw' = "\<lambda>_ _. True" and be = True])
      (use l in \<open>simp_all add: sample_socket_def WebSocketPipe_init_def between_def sample_digest_def CTCPStack_init_def\<close>)
qed

text \<open>C13. The decoder does not depend on how the stream is cut: the data, the state and the replies are the same whether the bytes come in one read or in any
  pieces, also when a piece ends inside a header or a mask.\<close>

theorem consume_pieces: "decoded pw (concat cs) s = map_option (\<lambda>(out, s). (out, length (concat cs), s)) (decode_pieces pw cs s)"
  unfolding decoded_eq decode_pieces_eq ..

text \<open>C20. A call of \<open>Read\<close> returns the data in exactly the bytes it has taken: those left over from the handshake and those of the reads it made.\<close>

theorem ws_Read_correct:
  assumes "ws_Read_string pw rs s = Some (out, s', rs')"
  shows "\<exists>k o1 s1 o2. rs' = drop k rs \<and> decode_pieces pw [pipe_add s] s = Some (o1, s1) \<and>
    decode_pieces pw (map fst (take k rs)) (if pipe_add s = [] then s else s1\<lparr>pipe_add := []\<rparr>) = Some (o2, s') \<and> out = o1 @ o2"
  using ws_Read_string_eq [OF assms] unfolding decode_pieces_eq by simp

theorem ws_Read_correct_witness:
  "\<exists>k s1. decode_pieces (\<lambda>_ _. True) (map fst (take k [([0x82, 1], True), ([7, 0x82], True)])) (sample_socket False False) = Some ([7], s1) \<and>
     step_state s1 = EReadState_HeaderSize1"
proof -
  let ?rs = "[([0x82, 1 :: byte], True), ([7, 0x82], True)]"
  have "map_option (\<lambda>(out, s, rs). (out, pipe_add s, step_state s)) (ws_Read_string (\<lambda>_ _. True) ?rs (sample_socket False False)) = Some ([7], [], EReadState_HeaderSize1)"
    by code_simp
  then obtain s' rs' where r: "ws_Read_string (\<lambda>_ _. True) ?rs (sample_socket False False) = Some ([7], s', rs')" "step_state s' = EReadState_HeaderSize1" by auto
  have "pipe_add (sample_socket False False) = []" by (simp add: sample_socket_def WebSocketPipe_init_def)
  then show ?thesis using ws_Read_correct [OF r(1)] r(2) by (auto simp: decoded_eq)
qed

text \<open>C37. A frame of more than 65535 bytes, whose size takes eight bytes, cannot be decoded: the shift of the fifth byte of the size is undefined. The pipe
  writes such frames.\<close>

theorem large_frame_undefined:
  assumes "between r" "65535 < length d" "ws_Write pw be d s = (True, s')" "written s = []"
  shows "decoded pw' (concat (written s')) r = None"
  using ws_Write_bytes(1) [OF assms(3)] assms(4) large_frame [OF assms(1,2)] by (simp add: decoded_eq)

theorem large_frame_undefined_witness:
  "decoded (\<lambda>_ _. True) (concat (written (snd (ws_Write (\<lambda>_ _. True) False (replicate 65536 0) (sample_socket False False))))) (sample_socket False False) = None"
proof -
  have "fst (ws_Write (\<lambda>_ _. True) False (replicate 65536 0) (sample_socket False False))"
    by (simp add: ws_Write_def pipe_Write_def sample_socket_def WebSocketPipe_init_def)
  then show ?thesis
    by (intro large_frame_undefined [of _ "replicate 65536 0" "\<lambda>_ _. True" False "sample_socket False False"])
      (simp_all add: prod_eq_iff between_def sample_socket_def WebSocketPipe_init_def)
qed

text \<open>C38. The first byte of a close or pong frame marks the connection as broken, whether its FIN bit is set or not.\<close>

theorem close_pong_error:
  assumes "between s" "b AND 15 = 8 \<or> b AND 15 = 10"
  shows "\<exists>s1. consume pw [b] 1 s = Some ([b], 1, 0, s1) \<and> ws_error s1"
proof -
  obtain s1 where "ws_byte pw b s = Some ([], s1)" "ws_error s1" using even_control_error [OF assms] by blast
  then show ?thesis by (simp add: consume_eq)
qed

theorem close_pong_error_witness: "\<exists>s1. consume (\<lambda>_ _. True) [0x8A] 1 (sample_socket False False) = Some ([0x8A], 1, 0, s1) \<and> ws_error s1"
  by (rule close_pong_error) (simp_all add: between_def sample_socket_def WebSocketPipe_init_def)

text \<open>C19. The receiver takes a packet off a stream of packets exactly when all its bytes are there and it is below the limit, and otherwise leaves the
  buffer as it is.\<close>

theorem getPacket_correct:
  assumes "tcp_buffer t @ rest = packet md5 (add_checksum t) m @ later" "length m < 2 ^ 32" "\<forall>x. length (md5 x) = 16"
  shows "getPacket md5 be t = (if length m < max_packet_size t \<and> length (packet md5 (add_checksum t) m) \<le> length (tcp_buffer t)
    then (Some m, t\<lparr>tcp_buffer := drop (length (packet md5 (add_checksum t) m)) (tcp_buffer t)\<rparr>) else (None, t))"
  using getPacket_eq [OF assms(1,2)] assms(3) by blast

theorem getPacket_correct_witness: "getPacket sample_digest True \<lparr>tcp_buffer = [2, 0, 0, 0, 5, 6, 1], add_checksum = False, max_packet_size = 10\<rparr> =
    (Some [5, 6], \<lparr>tcp_buffer = [1], add_checksum = False, max_packet_size = 10\<rparr>)"
  using getPacket_correct [of "\<lparr>tcp_buffer = [2, 0, 0, 0, 5, 6, 1], add_checksum = False, max_packet_size = 10\<rparr>" "[]" sample_digest "[5, 6]" "[1]" True]
  by (simp add: packet_def Let_def enc_le_numeral sample_digest_def)

text \<open>C39. \<open>Send\<close> accepts messages that no receiver with the same limit can take: with its length (and checksum) the packet exceeds the limit of the buffer, so
  adding its last piece fails, however the stream is cut.\<close>

theorem Send_above_limit:
  assumes "length m \<le> max_packet_size t" "max_packet_size t < length (packet md5 (add_checksum t) m)" "length m < 2 ^ 32" "\<forall>x. length (md5 x) = 16"
    "tcp_buffer t = []" "concat cs = packet md5 (add_checksum t) m"
  shows "fst (tcp_Send md5 be (\<lambda>p d tm fl. (True, p @ d)) m tm fl t []) = length m \<and> (\<exists>t'. receive md5 be cs t = (False, [], t'))"
proof
  have "\<exists>p'. send_loop (\<lambda>p d tm fl. (True, p @ d)) bs k f tm fl p = (True, p')" for bs k f p
    by (induction "\<lambda>(p :: byte list) (d :: byte list) (tm :: int) (fl :: bool). (True, p @ d)" bs k f tm fl p rule: send_loop.induct) (simp add: Let_def)
  then obtain p' where "send_loop (\<lambda>p d tm fl. (True, p @ d)) (send_packet md5 be m t) 0 True tm fl [] = (True, p')" by blast
  then show "fst (tcp_Send md5 be (\<lambda>p d tm fl. (True, p @ d)) m tm fl t []) = length m"
    using assms(1) by (simp add: tcp_Send_def del: send_loop.simps)
  show "\<exists>t'. receive md5 be cs t = (False, [], t')" by (rule receive_too_large) (use assms in auto)
qed

theorem Send_above_limit_witness:
  "\<exists>t'. receive sample_digest False [[3, 0], [0, 0, 1, 2, 3]] (CTCPStack_init False 6) = (False, [], t')"
  using Send_above_limit [of "[1, 2, 3]" "CTCPStack_init False 6" sample_digest "[[3, 0], [0, 0, 1, 2, 3]]" False]
  by (simp add: CTCPStack_init_def packet_def Let_def enc_le_numeral sample_digest_def del: receive.simps)

end
