(* ===== verification/Chunk_Patch.thy ===== *)
theory Chunk_Patch
  imports Data_Stream "HOL-Library.Signed_Division"
begin

text \<open>
  Applying a patch file to a file (\<^verbatim>\<open>ChunkPatcher.cpp\<close>, \<^verbatim>\<open>ExtentIterator.cpp\<close>). A file is its content, a position and the offsets that
  cannot be read. The callback object of the patcher is a record of its three methods over a state of their own. Loops that may run forever are
  iterations of a step in the option monad: \<open>None\<close> is a loop that never ends. A failed assertion is a result of its own.
\<close>

subsection \<open>Loops that may not end\<close>

partial_function (option) iterate :: "('s \<Rightarrow> ('s + 'r) option) \<Rightarrow> 's \<Rightarrow> 'r option" where
  "iterate step s = do { x \<leftarrow> step s; case x of Inl s' \<Rightarrow> iterate step s' | Inr r \<Rightarrow> Some r }"

declare iterate.simps [code]

lemma iterate_stop: "step s = Some (Inr r) \<Longrightarrow> iterate step s = Some r"
  by (simp add: iterate.simps)

lemma iterate_next: "step s = Some (Inl s') \<Longrightarrow> iterate step s = iterate step s'"
  by (subst iterate.simps) simp

lemma iterate_total_next: "f s = Inl s' \<Longrightarrow> iterate (\<lambda>s. Some (f s)) s = iterate (\<lambda>s. Some (f s)) s'"
  by (simp add: iterate_next)

lemma iterate_total_stop: "f s = Inr r \<Longrightarrow> iterate (\<lambda>s. Some (f s)) s = Some r"
  by (simp add: iterate_stop)

text \<open>A loop whose step keeps an invariant and decreases a measure ends, with a result of its last step.\<close>

lemma iterate_total:
  assumes step: "\<And>s. I s \<Longrightarrow> (\<exists>s'. step s = Some (Inl s') \<and> I s' \<and> m s' < (m s :: nat)) \<or> (\<exists>r. step s = Some (Inr r) \<and> Q r)"
  shows "I s \<Longrightarrow> \<exists>r. iterate step s = Some r \<and> Q r"
proof (induction "m s" arbitrary: s rule: less_induct)
  case less
  from step [OF less.prems] show ?case
    using less.hyps by (auto simp: iterate_stop iterate_next)
qed

text \<open>A loop whose step always goes on under an invariant never ends.\<close>

lemma iterate_diverges:
  assumes step: "\<And>s. I s \<Longrightarrow> \<exists>s'. step s = Some (Inl s') \<and> I s'" and s: "I s"
  shows "iterate step s = None"
proof -
  have "iterate st s = Some r \<Longrightarrow> st = step \<longrightarrow> \<not> I s" for st s r
    by (erule iterate.raw_induct [rotated]) (use step in \<open>fastforce simp: bind_eq_Some_conv\<close>)
  then show ?thesis using s by (cases "iterate step s") auto
qed

subsection \<open>Files and sparse extents\<close>

record ifile =
  fl_data :: "byte list"
  fl_pos :: nat
  fl_bad :: "nat list"

text \<open>\<open>Read\<close> returns the bytes, which may be fewer than asked for at the end of the file, and whether the system call failed.\<close>

definition IFile_Read :: "int \<Rightarrow> ifile \<Rightarrow> byte list \<times> bool \<times> ifile" where
  "IFile_Read n f =
     (if list_ex (\<lambda>b. fl_pos f \<le> b \<and> int b < int (fl_pos f) + n) (fl_bad f) then ([], True, f)
      else (let d = take (nat (min n (int (length (fl_data f))))) (drop (fl_pos f) (fl_data f)) in (d, False, f\<lparr>fl_pos := fl_pos f + length d\<rparr>)))"

definition IFile_Seek :: "int \<Rightarrow> ifile \<Rightarrow> bool \<times> ifile" where
  "IFile_Seek spos f = (if spos < 0 then (False, f) else (True, f\<lparr>fl_pos := nat spos\<rparr>))"

definition IFile_Size :: "ifile \<Rightarrow> int" where
  "IFile_Size f = int (length (fl_data f))"

record sparse_extent =
  ext_offset :: int
  ext_size :: int

definition no_extent :: sparse_extent where
  "no_extent = \<lparr>ext_offset = -1, ext_size = -1\<rparr>"

definition roundUp :: "int \<Rightarrow> int \<Rightarrow> int" where
  "roundUp numToRound multiple = ((numToRound + multiple - 1) sdiv multiple) * multiple"

definition roundDown :: "int \<Rightarrow> int \<Rightarrow> int" where
  "roundDown numToRound multiple = (numToRound sdiv multiple) * multiple"

text \<open>The iterator over the extents of a file; a missing file is \<open>None\<close>. Numbers are in the byte order of the host.\<close>

record extent_iterator =
  sparse_extents_f :: "ifile option"
  num_sparse_extents :: int
  next_sparse_extent_num :: int
  ei_blocksize :: int

definition host_i64 :: "bool \<Rightarrow> byte list \<Rightarrow> int" where
  "host_i64 be bs = sint (of_nat (host_nat be bs) :: u64)"

definition ExtentIterator_init :: "ifile option \<Rightarrow> int \<Rightarrow> extent_iterator" where
  "ExtentIterator_init f blocksize =
     \<lparr>sparse_extents_f = map_option (\<lambda>f. snd (IFile_Seek 0 f)) f, num_sparse_extents = -1, next_sparse_extent_num = 0, ei_blocksize = blocksize\<rparr>"

definition ExtentIterator_reset :: "extent_iterator \<Rightarrow> extent_iterator" where
  "ExtentIterator_reset it =
     it\<lparr>num_sparse_extents := -1, next_sparse_extent_num := 0, sparse_extents_f := map_option (\<lambda>f. snd (IFile_Seek 0 f)) (sparse_extents_f it)\<rparr>"

text \<open>The loop of \<open>nextExtent\<close>; \<open>ret\<close> is the extent read last.\<close>

function next_extent_loop :: "bool \<Rightarrow> ifile \<Rightarrow> sparse_extent \<Rightarrow> extent_iterator \<Rightarrow> sparse_extent \<times> extent_iterator" where
  "next_extent_loop be f ret it =
     (if next_sparse_extent_num it < num_sparse_extents it \<and> ext_offset ret = -1 then
        (case IFile_Read 16 f of (d, _, f) \<Rightarrow>
           (if length d \<noteq> 16 then (no_extent, it\<lparr>sparse_extents_f := Some f, num_sparse_extents := 0\<rparr>)
            else
              (let ret = \<lparr>ext_offset = host_i64 be (take 8 d), ext_size = host_i64 be (drop 8 d)\<rparr>;
                   it = it\<lparr>next_sparse_extent_num := next_sparse_extent_num it + 1\<rparr>;
                   ret_end = roundDown (ext_offset ret + ext_size ret) (ei_blocksize it);
                   ret = ret\<lparr>ext_offset := roundUp (ext_offset ret) (ei_blocksize it)\<rparr>
               in if ext_offset ret < ret_end then (ret\<lparr>ext_size := ret_end - ext_offset ret\<rparr>, it\<lparr>sparse_extents_f := Some f\<rparr>)
                  else next_extent_loop be f ret it)))
      else (no_extent, it\<lparr>sparse_extents_f := Some f\<rparr>))"
  by pat_completeness auto
termination
  by (relation "measure (\<lambda>(be, f, ret, it). nat (num_sparse_extents it - next_sparse_extent_num it))") auto

declare next_extent_loop.simps [simp del]

definition nextExtent :: "bool \<Rightarrow> extent_iterator \<Rightarrow> sparse_extent \<times> extent_iterator" where
  "nextExtent be it =
     (let it = (if num_sparse_extents it = -1 then
                  (case sparse_extents_f it of
                     None \<Rightarrow> it\<lparr>num_sparse_extents := 0\<rparr>
                   | Some f \<Rightarrow> (case IFile_Read 8 f of (d, _, f) \<Rightarrow>
                       it\<lparr>sparse_extents_f := Some f, num_sparse_extents := (if length d \<noteq> 8 then 0 else host_i64 be d)\<rparr>))
                else it)
      in case sparse_extents_f it of
           None \<Rightarrow> (no_extent, it)
         | Some f \<Rightarrow> next_extent_loop be f no_extent it)"

subsection \<open>The patcher\<close>

text \<open>A buffer that is \<open>NULL\<close> is \<open>None\<close>; so is a pointer to the sparse flag that is \<open>NULL\<close>. A method that sets the flag returns it.\<close>

record 'c chunk_cb =
  next_chunk_patcher_bytes :: "byte list option \<Rightarrow> int \<Rightarrow> bool \<Rightarrow> bool option \<Rightarrow> 'c \<Rightarrow> bool option \<times> 'c"
  next_sparse_extent_bytes :: "sparse_extent \<Rightarrow> 'c \<Rightarrow> 'c"
  chunk_patcher_pos :: "'c \<Rightarrow> int"

record 'c patcher =
  p_filesize :: int
  p_cb :: 'c
  require_unchanged :: bool
  with_sparse :: bool
  last_sparse_start :: int
  curr_only_zeros :: bool
  curr_changed :: bool
  unchanged_align :: int
  sparse_buf :: "byte list"
  unchanged_align_start :: int
  unchanged_align_end :: int
  unchanged_align_end_next :: int
  last_unchanged :: bool

definition sparse_blocksize :: int where
  "sparse_blocksize = 512 * 1024"

definition patch_buffer_size :: int where
  "patch_buffer_size = 512 * 1024"

text \<open>The constructor leaves some fields as they are in memory: \<open>fs\<close>, \<open>lss\<close>, \<open>oz\<close> and \<open>ch\<close>.\<close>

definition ChunkPatcher_init :: "int \<Rightarrow> int \<Rightarrow> bool \<Rightarrow> bool \<Rightarrow> 'c \<Rightarrow> 'c patcher" where
  "ChunkPatcher_init fs lss oz ch c =
     \<lparr>p_filesize = fs, p_cb = c, require_unchanged = True, with_sparse = False, last_sparse_start = lss, curr_only_zeros = oz, curr_changed = ch,
      unchanged_align = 0, sparse_buf = [], unchanged_align_start = -1, unchanged_align_end = -1, unchanged_align_end_next = -1,
      last_unchanged = False\<rparr>"

definition setRequireUnchanged :: "bool \<Rightarrow> 'c patcher \<Rightarrow> 'c patcher" where
  "setRequireUnchanged b t = t\<lparr>require_unchanged := b\<rparr>"

definition setUnchangedAlign :: "int \<Rightarrow> 'c patcher \<Rightarrow> 'c patcher" where
  "setUnchangedAlign a t = t\<lparr>unchanged_align := a\<rparr>"

definition setWithSparse :: "bool \<Rightarrow> 'c patcher \<Rightarrow> 'c patcher" where
  "setWithSparse b t = t\<lparr>with_sparse := b\<rparr>"

definition buf_is_zero :: "byte list \<Rightarrow> bool" where
  "buf_is_zero buf = list_all (\<lambda>b. b = 0) buf"

definition emit :: "'c chunk_cb \<Rightarrow> byte list option \<Rightarrow> int \<Rightarrow> bool \<Rightarrow> bool option \<Rightarrow> 'c patcher \<Rightarrow> bool option \<times> 'c patcher" where
  "emit cb buf bsize changed sp t = (case next_chunk_patcher_bytes cb buf bsize changed sp (p_cb t) of (sp, c) \<Rightarrow> (sp, t\<lparr>p_cb := c\<rparr>))"

definition assert_pos :: "'c chunk_cb \<Rightarrow> int \<Rightarrow> 'c patcher \<Rightarrow> bool" where
  "assert_pos cb pos t \<longleftrightarrow> chunk_patcher_pos cb (p_cb t) < 0 \<or> chunk_patcher_pos cb (p_cb t) = pos"

definition finishSparse :: "'c chunk_cb \<Rightarrow> int \<Rightarrow> 'c patcher \<Rightarrow> 'c patcher" where
  "finishSparse cb pos t =
     (if last_sparse_start t \<noteq> -1 \<and> roundDown pos sparse_blocksize > last_sparse_start t
      then (let ext = \<lparr>ext_offset = last_sparse_start t, ext_size = roundDown pos sparse_blocksize - last_sparse_start t\<rparr>
            in t\<lparr>p_cb := next_sparse_extent_bytes cb ext (p_cb t), last_sparse_start := -1\<rparr>)
      else t)"

text \<open>In these two, \<open>None\<close> is an assertion that fails.\<close>

definition finishChunkPatcher :: "'c chunk_cb \<Rightarrow> int \<Rightarrow> 'c patcher \<Rightarrow> 'c patcher option" where
  "finishChunkPatcher cb pos t =
     (let t = finishSparse cb pos t; sparse_buf_used = pos smod sparse_blocksize in
      if sparse_buf_used > 0 \<and> \<not> last_unchanged t
      then (let t = snd (emit cb (Some (take (nat sparse_buf_used) (sparse_buf t))) sparse_buf_used (curr_changed t) None t)
            in if assert_pos cb pos t then Some t else None)
      else Some t)"

text \<open>The end of a block of the sparse buffer: it is handed on, as a sparse one when it holds zeros only.\<close>

definition flush_block :: "'c chunk_cb \<Rightarrow> int \<Rightarrow> int \<Rightarrow> 'c patcher \<Rightarrow> 'c patcher option" where
  "flush_block cb pos next_checkpoint t =
     (let t = (if curr_only_zeros t
               then (if last_sparse_start t = -1 then t\<lparr>last_sparse_start := next_checkpoint - sparse_blocksize\<rparr> else t)
               else if last_sparse_start t \<noteq> -1 then finishSparse cb pos t else t);
          t = (if \<not> curr_only_zeros t then snd (emit cb (Some (sparse_buf t)) sparse_blocksize (curr_changed t) None t)
               else snd (emit cb None sparse_blocksize (curr_changed t) (Some True) t))
      in if assert_pos cb next_checkpoint t then Some (t\<lparr>curr_only_zeros := True, curr_changed := False\<rparr>) else None)"

function next_bytes_loop :: "'c chunk_cb \<Rightarrow> int \<Rightarrow> byte list \<Rightarrow> bool \<Rightarrow> 'c patcher \<Rightarrow> 'c patcher option" where
  "next_bytes_loop cb pos buf changed t =
     (if buf = [] then Some t
      else if pos smod sparse_blocksize = 0 \<and> int (length buf) = sparse_blocksize then
        (let t = t\<lparr>curr_only_zeros := buf_is_zero buf\<rparr> in
         if curr_only_zeros t then
           (let t = (if last_sparse_start t = -1 then t\<lparr>last_sparse_start := pos\<rparr> else t)
            in if assert_pos cb pos t then Some (snd (emit cb None (int (length buf)) changed (Some True) t)) else None)
         else
           (let t = (if last_sparse_start t \<noteq> -1 then finishSparse cb pos t else t)
            in if assert_pos cb pos t
               then Some ((snd (emit cb (Some buf) (int (length buf)) changed None t))\<lparr>curr_only_zeros := True, curr_changed := False\<rparr>)
               else None))
      else
        (let next_checkpoint = roundDown pos sparse_blocksize + sparse_blocksize;
             n = min (length buf) (nat (next_checkpoint - pos));
             used = nat (pos smod sparse_blocksize);
             t = t\<lparr>curr_only_zeros := curr_only_zeros t \<and> buf_is_zero (take n buf), curr_changed := changed \<or> curr_changed t,
                   sparse_buf := take used (sparse_buf t) @ take n buf @ drop (used + n) (sparse_buf t)\<rparr>
         in case (if pos + int n = next_checkpoint then flush_block cb pos next_checkpoint t else Some t) of
              None \<Rightarrow> None
            | Some t \<Rightarrow> next_bytes_loop cb (pos + int n) (drop n buf) changed t))"
  by pat_completeness auto

lemma smod_less: "0 < m \<Longrightarrow> (pos :: int) smod m < m"
  using smod_int_range [of m pos] by auto

lemma to_checkpoint: "0 < m \<Longrightarrow> 0 < roundDown pos m + m - pos"
  using smod_less [of m pos] minus_sdiv_mult_eq_smod [of pos m] by (simp add: roundDown_def)

lemma sparse_blocksize_pos [simp]: "0 < sparse_blocksize"
  by (simp add: sparse_blocksize_def)

termination next_bytes_loop
proof (relation "measure (\<lambda>(cb, pos, buf, changed, t). length buf)", goal_cases)
  case (2 cb pos buf changed t nc n)
  then show ?case using to_checkpoint [of sparse_blocksize pos] by simp
qed simp

declare next_bytes_loop.simps [simp del]

text \<open>\<open>buf\<close> is \<open>None\<close> only for a sparse extent, of \<open>bsize\<close> bytes.\<close>

definition nextChunkPatcherBytes :: "'c chunk_cb \<Rightarrow> int \<Rightarrow> byte list option \<Rightarrow> int \<Rightarrow> bool \<Rightarrow> bool \<Rightarrow> 'c patcher \<Rightarrow> 'c patcher option" where
  "nextChunkPatcherBytes cb pos buf bsize changed sparse t =
     (let t = t\<lparr>last_unchanged := False\<rparr> in
      if sparse then
        (if \<not> (pos smod sparse_blocksize = 0 \<and> (unchanged_align t = 0 \<or> pos smod unchanged_align t = 0)) then None
         else
           (let t = (if last_sparse_start t = -1 then t\<lparr>last_sparse_start := roundUp pos sparse_blocksize\<rparr> else t)
            in if assert_pos cb pos t then Some (snd (emit cb None bsize changed (Some True) t)) else None))
      else (case buf of None \<Rightarrow> None | Some b \<Rightarrow> next_bytes_loop cb pos b changed t))"

text \<open>The variables of \<open>ApplyPatch\<close>: the patcher, the files, the extents, the next header and the two positions.\<close>

record 'c patching =
  a_this :: "'c patcher"
  a_file :: ifile
  a_patch :: ifile
  extent_it :: "extent_iterator option"
  curr_sparse_extent :: sparse_extent
  patchf_pos :: int
  patch_off :: int
  patch_size :: int
  has_header :: bool
  file_pos :: int

text \<open>How a part of \<open>ApplyPatch\<close> ends: with an assertion that fails, by returning from the function, or by going on.\<close>

datatype 'a ctl = Assertion | Return bool 'a | Normal 'a

subsection \<open>Headers and data of a patch\<close>

definition read_header_step :: "bool \<Rightarrow> 'c patching \<Rightarrow> 'c patching + (bool \<times> bool \<times> 'c patching)" where
  "read_header_step be a =
     (case IFile_Read 12 (a_patch a) of (d, err, patchf) \<Rightarrow>
        (let a = a\<lparr>a_patch := patchf, patchf_pos := patchf_pos a + int (length d)\<rparr> in
         if length d \<noteq> 12 then Inr (False, err, a\<lparr>patch_off := -1, patch_size := 0\<rparr>)
         else
           (let a = a\<lparr>patch_off := sint (little_endian64 be (of_nat (host_nat be (take 8 d)))),
                      patch_size := uint (little_endian32 be (of_nat (host_nat be (drop 8 d))))\<rparr>
            in if patch_off a = -1
               then (let a = a\<lparr>patchf_pos := patchf_pos a + patch_size a\<rparr>
                     in Inl (a\<lparr>a_patch := snd (IFile_Seek (patchf_pos a) (a_patch a))\<rparr>))
               else Inr (True, err, a))))"

definition readNextValidPatch :: "bool \<Rightarrow> 'c patching \<Rightarrow> (bool \<times> bool \<times> 'c patching) option" where
  "readNextValidPatch be a = iterate (\<lambda>a. Some (read_header_step be a)) a"

definition next_header :: "bool \<Rightarrow> 'c patching \<Rightarrow> 'c patching ctl option" where
  "next_header be a =
     (if has_header a \<and> patch_off a = -1 then
        do { (h, err, a) \<leftarrow> readNextValidPatch be a;
             let a = a\<lparr>has_header := h\<rparr>; t = a_this a in
             if err then Some (Return False a)
             else if patch_off a \<noteq> -1 \<and> unchanged_align t \<noteq> 0
             then Some (Normal (a\<lparr>a_this := t\<lparr>unchanged_align_start := roundDown (patch_off a) (unchanged_align t),
                      unchanged_align_end_next := roundUp (patch_off a + patch_size a) (unchanged_align t)\<rparr>\<rparr>))
             else Some (Normal a) }
      else Some (Normal a))"

text \<open>Bytes are handed on directly or through the detection of sparse blocks.\<close>

definition forward_bytes :: "'c chunk_cb \<Rightarrow> int \<Rightarrow> byte list \<Rightarrow> bool \<Rightarrow> 'c patcher \<Rightarrow> 'c patcher option" where
  "forward_bytes cb pos buf changed t =
     (if with_sparse t then nextChunkPatcherBytes cb pos (Some buf) (int (length buf)) changed False t
      else if assert_pos cb pos t then Some (snd (emit cb (Some buf) (int (length buf)) changed None t)) else None)"

definition patch_data_step :: "'c chunk_cb \<Rightarrow> 'c patching \<Rightarrow> 'c patching + 'c patching ctl" where
  "patch_data_step cb a =
     (if patch_size a > 0 then
        (case IFile_Read (min patch_buffer_size (patch_size a)) (a_patch a) of (buf, err, patchf) \<Rightarrow>
           (let a = a\<lparr>a_patch := patchf\<rparr>; r = int (length buf) in
            if err then Inr (Return False a)
            else
              (let a = a\<lparr>patchf_pos := patchf_pos a + r\<rparr> in
               case forward_bytes cb (file_pos a) buf True (a_this a) of
                 None \<Rightarrow> Inr Assertion
               | Some t \<Rightarrow> Inl (a\<lparr>a_this := t, patch_size := patch_size a - r, file_pos := file_pos a + r\<rparr>))))
      else Inr (Normal a))"

definition patch_region :: "'c chunk_cb \<Rightarrow> 'c patching \<Rightarrow> 'c patching ctl option" where
  "patch_region cb a =
     (if file_pos a \<noteq> patch_off a then Some Assertion
      else do {
        r \<leftarrow> iterate (\<lambda>a. Some (patch_data_step cb a)) (a\<lparr>a_this := (a_this a)\<lparr>unchanged_align_end := unchanged_align_end_next (a_this a)\<rparr>\<rparr>);
        Some (case r of
                Normal a \<Rightarrow>
                  (let a = (if require_unchanged (a_this a) then a\<lparr>a_file := snd (IFile_Seek (file_pos a) (a_file a))\<rparr> else a)
                   in Normal (a\<lparr>patch_off := -1\<rparr>))
              | x \<Rightarrow> x) })"

subsection \<open>Unchanged data\<close>

definition u32_of :: "int \<Rightarrow> int" where
  "u32_of i = i mod 2 ^ 32"

definition skip_extents_step :: "bool \<Rightarrow> 'c patching \<Rightarrow> 'c patching + 'c patching" where
  "skip_extents_step be a =
     (let e = curr_sparse_extent a in
      if ext_offset e \<noteq> -1 \<and> ext_offset e + ext_size e \<le> file_pos a
      then (case extent_it a of
              None \<Rightarrow> Inr a
            | Some it \<Rightarrow> (case nextExtent be it of (e, it) \<Rightarrow> Inl (a\<lparr>curr_sparse_extent := e, extent_it := Some it\<rparr>)))
      else Inr a)"

text \<open>Data that must be read although unchanged, because the aligned block around them has a patch; and where such a block cuts the read.\<close>

definition in_patched_block :: "int \<Rightarrow> 'c patcher \<Rightarrow> bool" where
  "in_patched_block pos t \<longleftrightarrow>
     (unchanged_align_start t \<noteq> -1 \<and> unchanged_align_end_next t \<noteq> -1 \<and> unchanged_align_start t \<le> pos \<and> pos < unchanged_align_end_next t) \<or>
     (unchanged_align_end t \<noteq> -1 \<and> pos < unchanged_align_end t)"

definition cut_at_block :: "bool \<Rightarrow> int \<Rightarrow> int \<Rightarrow> 'c patcher \<Rightarrow> int" where
  "cut_at_block req pos tr t =
     (if \<not> req \<and> unchanged_align_start t \<noteq> -1 \<and> pos < unchanged_align_start t \<and> pos + tr > unchanged_align_start t
      then u32_of (unchanged_align_start t - pos)
      else if unchanged_align_end t \<noteq> -1 \<and> pos < unchanged_align_end t \<and> pos + tr > unchanged_align_end t
      then u32_of (unchanged_align_end t - pos)
      else tr)"

text \<open>Unchanged data that are skipped: the callback may declare them sparse.\<close>

definition skip_unchanged :: "'c chunk_cb \<Rightarrow> int \<Rightarrow> int \<Rightarrow> 'c patcher \<Rightarrow> 'c patcher option" where
  "skip_unchanged cb pos tr t =
     (let p_is_sparse = (if unchanged_align t \<noteq> 0 \<and> tr < unchanged_align t \<and> last_sparse_start t = -1 then None else Some False) in
      if assert_pos cb pos t
      then (case emit cb None tr False p_is_sparse t of (sp, t) \<Rightarrow>
              (let t = t\<lparr>last_unchanged := True\<rparr>; is_sparse = (p_is_sparse \<noteq> None \<and> sp = Some True) in
               Some (if is_sparse then (if last_sparse_start t = -1 then t\<lparr>last_sparse_start := pos\<rparr> else t)
                     else if last_sparse_start t \<noteq> -1 then finishSparse cb pos t else t)))
      else None)"

definition unchanged_step :: "'c chunk_cb \<Rightarrow> int \<Rightarrow> 'c patching \<times> int \<Rightarrow> ('c patching \<times> int) + 'c patching ctl" where
  "unchanged_step cb fsz = (\<lambda>(a, tr).
     if tr > 0 \<and> file_pos a < fsz \<and> file_pos a < p_filesize (a_this a) then
       (let tr = min tr patch_buffer_size;
            t = a_this a;
            pos = file_pos a;
            inb = (unchanged_align t \<noteq> 0 \<and> in_patched_block pos t);
            req = (require_unchanged t \<or> inb);
            a = (if inb then a\<lparr>a_file := snd (IFile_Seek pos (a_file a))\<rparr> else a);
            tr = (if unchanged_align t \<noteq> 0 then cut_at_block req pos tr t else tr);
            fin = (\<lambda>a. if unchanged_align (a_this a) \<noteq> 0 \<and> file_pos a = unchanged_align_end (a_this a)
                       then a\<lparr>a_this := (a_this a)\<lparr>unchanged_align_end := -1\<rparr>\<rparr> else a)
        in if req then
             (case IFile_Read tr (a_file a) of (buf, err, f) \<Rightarrow>
                (let a = a\<lparr>a_file := f\<rparr> in
                 if err then Inr (Return False a)
                 else (case forward_bytes cb pos buf False t of
                         None \<Rightarrow> Inr Assertion
                       | Some t \<Rightarrow> Inl (fin (a\<lparr>a_this := t, file_pos := pos + int (length buf)\<rparr>), tr - int (length buf)))))
           else
             (let tr = (if pos + tr > fsz then u32_of (fsz - pos) else tr) in
              case skip_unchanged cb pos tr t of
                None \<Rightarrow> Inr Assertion
              | Some t \<Rightarrow> Inl (fin (a\<lparr>a_this := t, file_pos := pos + tr\<rparr>), 0)))
     else Inr (Normal a))"

text \<open>A sparse extent that covers the data up to the next patch is skipped in whole blocks; before its first whole block the read is cut.\<close>

definition skip_sparse :: "'c chunk_cb \<Rightarrow> int \<Rightarrow> 'c patching \<Rightarrow> 'c patching ctl" where
  "skip_sparse cb tr a =
     (let t = a_this a; pos = file_pos a;
          tr = tr - tr smod sparse_blocksize;
          tr = (if unchanged_align t \<noteq> 0 then u32_of (tr - tr smod unchanged_align t) else tr)
      in case (if with_sparse t then nextChunkPatcherBytes cb pos None tr False True t
               else if assert_pos cb pos t then Some (snd (emit cb None tr False (Some True) t)) else None) of
           None \<Rightarrow> Assertion
         | Some t \<Rightarrow> Normal (a\<lparr>a_this := t, file_pos := pos + tr\<rparr>))"

definition unchanged_region :: "'c chunk_cb \<Rightarrow> bool \<Rightarrow> int \<Rightarrow> int \<Rightarrow> 'c patching \<Rightarrow> 'c patching ctl option" where
  "unchanged_region cb be fsz tr a =
     do { a \<leftarrow> iterate (\<lambda>a. Some (skip_extents_step be a)) a;
          let t = a_this a; pos = file_pos a; e = curr_sparse_extent a; align = unchanged_align t;
              tr = (if pos + tr > p_filesize t then u32_of (p_filesize t - pos) else tr)
          in if ext_offset e \<noteq> -1 \<and> tr \<ge> sparse_blocksize \<and> tr \<ge> align \<and> ext_offset e \<le> pos \<and> ext_offset e + ext_size e \<ge> pos + tr
             then if pos smod sparse_blocksize = 0 \<and> (align = 0 \<or> pos smod align = 0) then Some (skip_sparse cb tr a)
                  else (let tr = (if align \<noteq> 0 \<and> pos smod align \<noteq> 0 then min tr (u32_of (align - pos smod align)) else tr);
                            tr = (if pos smod sparse_blocksize \<noteq> 0 then min tr (u32_of (sparse_blocksize - pos smod sparse_blocksize)) else tr)
                        in iterate (\<lambda>s. Some (unchanged_step cb fsz s)) (a, tr))
             else iterate (\<lambda>s. Some (unchanged_step cb fsz s)) (a, tr) }"

subsection \<open>The whole patch\<close>

text \<open>
  One round of the loop. The last patch may be longer than what is left of the file: it is cut, and ends the loop. The two errors for a corrupt
  patch end in an assertion.
\<close>

definition patch_step :: "'c chunk_cb \<Rightarrow> bool \<Rightarrow> int \<Rightarrow> int \<Rightarrow> 'c patching \<Rightarrow> ('c patching + 'c patching ctl) option" where
  "patch_step cb be fsz max_read a =
     (if \<not> (file_pos a < fsz \<and> file_pos a < p_filesize (a_this a) \<or> has_header a) then Some (Inr (Normal a))
      else do {
        h \<leftarrow> next_header be a;
        case h of
          Normal a \<Rightarrow>
            (let pos = file_pos a; fsize = p_filesize (a_this a); hoff = patch_off a - pos;
                 tr = (if patch_off a \<noteq> -1 \<and> hoff \<ge> 0 \<and> hoff < max_read then hoff else max_read);
                 cont = (\<lambda>r. case r of Normal a \<Rightarrow> Inl a | x \<Rightarrow> Inr x)
             in if \<not> has_header a \<and> (pos \<ge> fsize \<or> pos \<ge> fsz) then Some (Inr (Normal a))
                else if patch_off a \<noteq> -1 \<and> hoff < 0 then Some (Inr Assertion)
                else if tr = 0 \<and> pos + patch_size a > fsize
                then map_option Inr (patch_region cb (a\<lparr>patch_size := u32_of (fsize - pos)\<rparr>))
                else if pos \<ge> fsize then Some (Inr Assertion)
                else if tr = 0 then map_option cont (patch_region cb a)
                else if pos < fsz then map_option cont (unchanged_region cb be fsz tr a)
                else Some (Inr Assertion))
        | x \<Rightarrow> Some (Inr x) })"

text \<open>The fields that \<open>ApplyPatch\<close> resets, and those that only matter for sparse files.\<close>

definition reset_align :: "'c patcher \<Rightarrow> 'c patcher" where
  "reset_align t = t\<lparr>unchanged_align_start := -1, unchanged_align_end := -1, unchanged_align_end_next := -1, last_unchanged := False\<rparr>"

definition reset_sparse :: "'c patcher \<Rightarrow> 'c patcher" where
  "reset_sparse t =
     (let n = nat sparse_blocksize
      in t\<lparr>last_sparse_start := -1, curr_only_zeros := True, curr_changed := False,
           sparse_buf := take n (sparse_buf t) @ replicate (n - length (sparse_buf t)) 0\<rparr>)"

definition ApplyPatch :: "'c chunk_cb \<Rightarrow> bool \<Rightarrow> ifile \<Rightarrow> ifile \<Rightarrow> extent_iterator option \<Rightarrow> 'c patcher \<Rightarrow> 'c patching ctl option" where
  "ApplyPatch cb be file patchf it t =
     (let patchf = snd (IFile_Seek 0 patchf); file = snd (IFile_Seek 0 file); t = reset_align t;
          a = \<lparr>a_this = t, a_file = file, a_patch = patchf, extent_it = it, curr_sparse_extent = no_extent, patchf_pos = 0, patch_off = -1,
               patch_size = 0, has_header = True, file_pos = 0\<rparr>
      in case IFile_Read 8 patchf of (d, _, patchf) \<Rightarrow>
        (if length d \<noteq> 8 then Some (Return False (a\<lparr>a_patch := patchf\<rparr>))
         else
           (let t = t\<lparr>p_filesize := sint (little_endian64 be (of_nat (host_nat be d)))\<rparr>;
                t = (if with_sparse t \<or> it \<noteq> None then reset_sparse t else t);
                a = a\<lparr>a_this := t, a_patch := patchf, patchf_pos := 8\<rparr>;
                a = (case it of None \<Rightarrow> a | Some it \<Rightarrow> (case nextExtent be it of (e, it) \<Rightarrow> a\<lparr>curr_sparse_extent := e, extent_it := Some it\<rparr>));
                max_read = u32_of (2 ^ 32 - 1 - (if unchanged_align t \<noteq> 0 then (2 ^ 32 - 1) smod unchanged_align t else 0))
            in do {
                 r \<leftarrow> iterate (patch_step cb be (IFile_Size file) max_read) a;
                 Some (case r of
                         Normal a \<Rightarrow>
                           (if with_sparse (a_this a)
                            then (case finishChunkPatcher cb (file_pos a) (a_this a) of
                                    None \<Rightarrow> Assertion
                                  | Some t \<Rightarrow> Return True (a\<lparr>a_this := t\<rparr>))
                            else Return True a)
                       | x \<Rightarrow> x) })))"

end
