(* ===== verification/Chunk_Patch_Correct.thy ===== *)
theory Chunk_Patch_Correct
  imports Chunk_Patch
begin

text \<open>
  What applying a patch does: the callback receives the patched file, whatever buffers the data are read in.
\<close>

subsection \<open>Patches\<close>

text \<open>
  A patch file holds the size of the new file and records, each an offset and data; a record with offset \<open>-1\<close> has been invalidated. Applying
  it writes the valid records over the old file, one after the other, and cuts the result at the new size.
\<close>

type_synonym patch_record = "int \<times> byte list"

definition record_bytes :: "patch_record \<Rightarrow> byte list" where
  "record_bytes r = enc_le 8 (unat (word_of_int (fst r) :: u64)) @ enc_le 4 (length (snd r)) @ snd r"

definition patch_bytes :: "int \<Rightarrow> patch_record list \<Rightarrow> byte list" where
  "patch_bytes fsize rs = enc_le 8 (unat (word_of_int fsize :: u64)) @ concat (map record_bytes rs)"

definition overwrite :: "patch_record \<Rightarrow> byte list \<Rightarrow> byte list" where
  "overwrite r f = take (nat (fst r)) f @ snd r @ drop (nat (fst r) + length (snd r)) f"

definition valid_records :: "patch_record list \<Rightarrow> patch_record list" where
  "valid_records rs = filter (\<lambda>r. fst r \<noteq> -1) rs"

definition patched :: "int \<Rightarrow> patch_record list \<Rightarrow> byte list \<Rightarrow> byte list" where
  "patched fsize rs src = take (nat fsize) (fold overwrite (valid_records rs) src)"

text \<open>Records come in the order of their offsets and do not overlap. Only beyond the end of the old file they must leave no gap.\<close>

fun records_ok :: "int \<Rightarrow> int \<Rightarrow> int \<Rightarrow> patch_record list \<Rightarrow> bool" where
  "records_ok fsize old pos [] \<longleftrightarrow> True"
| "records_ok fsize old pos (r # rs) \<longleftrightarrow>
     pos \<le> fst r \<and> fst r < fsize \<and> fst r \<le> max pos old \<and> (fst r + int (length (snd r)) \<le> fsize \<or> rs = []) \<and>
     records_ok fsize old (fst r + int (length (snd r))) rs"

definition record_size_ok :: "patch_record \<Rightarrow> bool" where
  "record_size_ok r \<longleftrightarrow> length (snd r) < 2 ^ 32 \<and> - (2 ^ 63) \<le> fst r \<and> fst r < 2 ^ 63"

text \<open>The part of the new file from a position on.\<close>

fun rest_of :: "int \<Rightarrow> byte list \<Rightarrow> int \<Rightarrow> patch_record list \<Rightarrow> byte list" where
  "rest_of fsize src pos [] = take (nat (fsize - pos)) (drop (nat pos) src)"
| "rest_of fsize src pos (r # rs) =
     take (nat (fst r - pos)) (drop (nat pos) src) @ take (nat (fsize - fst r)) (snd r) @
     (if fst r + int (length (snd r)) \<le> fsize then rest_of fsize src (fst r + int (length (snd r))) rs else [])"

lemma take_append_ge: "length zs = n \<Longrightarrow> n \<le> k \<Longrightarrow> take k (zs @ d) = zs @ take (k - n) d"
  by simp

lemma fold_overwrite_prefix:
  "records_ok fsize old pos rs \<Longrightarrow> int (length xs) = pos \<Longrightarrow> length src = nat old \<Longrightarrow> 0 \<le> fsize \<Longrightarrow> pos \<le> fsize \<Longrightarrow>
   take (nat fsize) (fold overwrite rs (xs @ drop (length xs) src)) = xs @ rest_of fsize src pos rs"
proof (induction rs arbitrary: pos xs)
  case Nil
  then have "nat (fsize - int (length xs)) = nat fsize - length xs" "nat (int (length xs)) = length xs" by auto
  with Nil show ?case by auto
next
  case (Cons r rs)
  let ?o = "nat (fst r)" and ?d = "snd r"
  have o: "fst r = int ?o" and xo: "length xs \<le> ?o" and of: "int ?o < fsize" using Cons.prems by auto
  let ?ys = "xs @ take (?o - length xs) (drop (length xs) src) @ ?d"
  have len: "length (xs @ take (?o - length xs) (drop (length xs) src)) = ?o" using Cons.prems xo by auto
  have tk: "take ?o (xs @ drop (length xs) src) = xs @ take (?o - length xs) (drop (length xs) src)" using xo by simp
  have dr: "drop (?o + length ?d) (xs @ drop (length xs) src) = drop (?o + length ?d) src" using xo by (simp add: add.commute)
  have ov: "overwrite r (xs @ drop (length xs) src) = ?ys @ drop (length ?ys) src"
    using len dr tk by (simp add: overwrite_def del: length_append) (simp only: append.assoc [symmetric] length_append len)
  have pos: "nat (fst r - pos) = ?o - length xs" "nat pos = length xs" using Cons.prems xo by auto
  have ly: "length ?ys = ?o + length ?d" using len by (simp only: length_append)
  show ?case
  proof (cases "fst r + int (length ?d) \<le> fsize")
    case True
    then have nf: "length ?d \<le> nat (fsize - fst r)" by simp
    have "take (nat fsize) (fold overwrite rs (?ys @ drop (length ?ys) src)) = ?ys @ rest_of fsize src (fst r + int (length ?d)) rs"
      by (rule Cons.IH) (use Cons.prems ly o True in auto)
    then show ?thesis using True pos nf by (simp add: ov)
  next
    case False
    then have "rs = []" using Cons.prems by simp
    moreover have "take (nat fsize) (?ys @ drop (length ?ys) src) = xs @ take (?o - length xs) (drop (length xs) src) @ take (nat (fsize - fst r)) ?d"
    proof -
      have fo: "nat (fsize - fst r) = nat fsize - ?o" using o of by linarith
      have "nat fsize \<le> length ?ys" using False o ly by linarith
      then have "take (nat fsize) (?ys @ drop (length ?ys) src) = take (nat fsize) ?ys" by simp
      also have "\<dots> = take (nat fsize) ((xs @ take (?o - length xs) (drop (length xs) src)) @ ?d)" by simp
      also have "\<dots> = (xs @ take (?o - length xs) (drop (length xs) src)) @ take (nat fsize - ?o) ?d"
        by (rule take_append_ge [OF len]) (use of in linarith)
      finally show ?thesis by (simp add: fo)
    qed
    ultimately show ?thesis using False pos by (simp add: ov)
  qed
qed

lemma patched_rest:
  "records_ok fsize (int (length src)) 0 (valid_records rs) \<Longrightarrow> 0 \<le> fsize \<Longrightarrow> patched fsize rs src = rest_of fsize src 0 (valid_records rs)"
  using fold_overwrite_prefix [of fsize "int (length src)" 0 "valid_records rs" "[]" src] by (simp add: patched_def)

subsection \<open>Reading the patch file\<close>

lemma IFile_Read_ok:
  "fl_bad f = [] \<Longrightarrow> IFile_Read n f = (take (nat n) (drop (fl_pos f) (fl_data f)), False, f\<lparr>fl_pos := fl_pos f + length (take (nat n) (drop (fl_pos f) (fl_data f)))\<rparr>)"
proof -
  have "take (nat (min n (int (length (fl_data f))))) (drop (fl_pos f) (fl_data f)) = take (nat n) (drop (fl_pos f) (fl_data f))"
    by (simp add: min_def)
  then show "fl_bad f = [] \<Longrightarrow> ?thesis" by (simp add: IFile_Read_def Let_def)
qed

lemma length_record_bytes [simp]: "length (record_bytes r) = 12 + length (snd r)"
  by (simp add: record_bytes_def)

lemma sint_offset: "record_size_ok r \<Longrightarrow> sint (word_of_int (fst r) :: u64) = fst r"
  by (simp add: record_size_ok_def sint_sbintrunc' signed_take_bit_int_eq_self)

lemma record_header:
  assumes "record_size_ok r"
  shows "sint (little_endian64 be (of_nat (host_nat be (take 8 (record_bytes r))))) = fst r"
    "uint (little_endian32 be (of_nat (host_nat be (drop 8 (take 12 (record_bytes r)))))) = int (length (snd r))"
proof -
  have "unat (of_nat (length (snd r)) :: u32) = length (snd r)" using assms by (simp add: record_size_ok_def unat_of_nat)
  then show "uint (little_endian32 be (of_nat (host_nat be (drop 8 (take 12 (record_bytes r)))))) = int (length (snd r))"
    using host_nat_little_endian(1) [of be "of_nat (length (snd r))"] by (simp add: record_bytes_def uint_nat)
qed (simp add: record_bytes_def sint_offset assms)

text \<open>The records still to come, at the position of the patch file.\<close>

definition patch_at :: "byte list \<Rightarrow> patch_record list \<Rightarrow> 'c patching \<Rightarrow> bool" where
  "patch_at ds rs a \<longleftrightarrow> fl_bad (a_patch a) = [] \<and> patchf_pos a = int (fl_pos (a_patch a)) \<and>
     drop (fl_pos (a_patch a)) (fl_data (a_patch a)) = ds @ concat (map record_bytes rs) \<and> list_all record_size_ok rs"

lemma read_header_step_record:
  assumes "patch_at [] (r # rs) a"
  shows "\<exists>f pp. read_header_step be a =
      (let a' = a\<lparr>a_patch := f, patchf_pos := pp, patch_off := fst r, patch_size := int (length (snd r))\<rparr>
       in if fst r = -1 then Inl a' else Inr (True, False, a')) \<and>
     (\<forall>x y. patch_at (if fst r = -1 then [] else snd r) rs (a\<lparr>a_patch := f, patchf_pos := pp, patch_off := x, patch_size := y\<rparr>))"
proof -
  let ?f = "a_patch a"
  have dr: "drop (fl_pos ?f) (fl_data ?f) = record_bytes r @ concat (map record_bytes rs)" and bad: "fl_bad ?f = []" and ok: "record_size_ok r"
    and rs: "list_all record_size_ok rs" and pp: "patchf_pos a = int (fl_pos ?f)"
    using assms by (auto simp: patch_at_def)
  have "take 12 (record_bytes r @ concat (map record_bytes rs)) = take 12 (record_bytes r)" by simp
  then have rd: "IFile_Read 12 ?f = (take 12 (record_bytes r), False, ?f\<lparr>fl_pos := fl_pos ?f + 12\<rparr>)"
    using IFile_Read_ok [OF bad, of 12] by (simp add: dr)
  note h = record_header(1) [OF ok]
  have d12: "drop (fl_pos ?f + 12) (fl_data ?f) = snd r @ concat (map record_bytes rs)"
    using arg_cong [OF dr, of "drop 12"] by (simp add: record_bytes_def add.commute)
  have dall: "drop (fl_pos ?f + 12 + length (snd r)) (fl_data ?f) = concat (map record_bytes rs)"
    using arg_cong [OF d12, of "drop (length (snd r))"] by (simp add: add.commute)
  show ?thesis
  proof (cases "fst r = -1")
    case True
    show ?thesis
      by (rule exI [of _ "?f\<lparr>fl_pos := fl_pos ?f + 12 + length (snd r)\<rparr>"], rule exI [of _ "patchf_pos a + 12 + int (length (snd r))"])
        (use True dall bad rs pp in \<open>auto simp: read_header_step_def rd h record_header(2) [OF ok] Let_def patch_at_def IFile_Seek_def nat_add_distrib\<close>)
  next
    case False
    show ?thesis
      by (rule exI [of _ "?f\<lparr>fl_pos := fl_pos ?f + 12\<rparr>"], rule exI [of _ "patchf_pos a + 12"])
        (use False d12 bad rs pp in \<open>auto simp: read_header_step_def rd h record_header(2) [OF ok] Let_def patch_at_def\<close>)
  qed
qed

lemma read_header_step_end:
  "patch_at [] [] a \<Longrightarrow> \<exists>f. read_header_step be a = Inr (False, False, a\<lparr>a_patch := f, patch_off := -1, patch_size := 0\<rparr>) \<and>
     patch_at [] [] (a\<lparr>a_patch := f\<rparr>)"
  by (rule exI [of _ "a_patch a"]) (simp add: read_header_step_def patch_at_def IFile_Read_ok)

lemma readNextValidPatch_correct:
  "patch_at [] rs a \<Longrightarrow> \<exists>f pp. case valid_records rs of
     [] \<Rightarrow> readNextValidPatch be a = Some (False, False, a\<lparr>a_patch := f, patchf_pos := pp, patch_off := -1, patch_size := 0\<rparr>) \<and>
           (\<forall>x y. patch_at [] [] (a\<lparr>a_patch := f, patchf_pos := pp, patch_off := x, patch_size := y\<rparr>))
   | r # vs \<Rightarrow> readNextValidPatch be a = Some (True, False, a\<lparr>a_patch := f, patchf_pos := pp, patch_off := fst r, patch_size := int (length (snd r))\<rparr>) \<and>
           (\<exists>rs'. valid_records rs' = vs \<and> (\<forall>x y. patch_at (snd r) rs' (a\<lparr>a_patch := f, patchf_pos := pp, patch_off := x, patch_size := y\<rparr>)))"
  (is "_ \<Longrightarrow> \<exists>f pp. ?P a rs f pp")
proof (induction rs arbitrary: a)
  case Nil
  then obtain f where "read_header_step be a = Inr (False, False, a\<lparr>a_patch := f, patch_off := -1, patch_size := 0\<rparr>)" "patch_at [] [] (a\<lparr>a_patch := f\<rparr>)"
    using read_header_step_end by blast
  then show ?case
    by (intro exI [of _ f] exI [of _ "patchf_pos a"]) (simp add: valid_records_def readNextValidPatch_def iterate_stop patch_at_def)
next
  case (Cons r rs)
  from read_header_step_record [OF Cons.prems, of be] obtain f pp where step: "read_header_step be a =
      (let a' = a\<lparr>a_patch := f, patchf_pos := pp, patch_off := fst r, patch_size := int (length (snd r))\<rparr>
       in if fst r = -1 then Inl a' else Inr (True, False, a'))"
    and at: "\<And>x y. patch_at (if fst r = -1 then [] else snd r) rs (a\<lparr>a_patch := f, patchf_pos := pp, patch_off := x, patch_size := y\<rparr>)"
    by blast
  show ?case
  proof (cases "fst r = -1")
    case True
    let ?a = "a\<lparr>a_patch := f, patchf_pos := pp, patch_off := -1, patch_size := int (length (snd r))\<rparr>"
    have "readNextValidPatch be a = readNextValidPatch be ?a"
      using step True by (simp add: readNextValidPatch_def Let_def iterate_next)
    moreover have "patch_at [] rs ?a" using at True by simp
    then obtain f' pp' where "?P ?a rs f' pp'" using Cons.IH by blast
    ultimately show ?thesis using True
      by (intro exI [of _ f'] exI [of _ pp']) (auto simp: valid_records_def split: list.splits)
  next
    case False
    then show ?thesis using step at
      by (intro exI [of _ f] exI [of _ pp]) (auto simp: valid_records_def readNextValidPatch_def Let_def iterate_stop)
  qed
qed

subsection \<open>Where the bytes go\<close>

text \<open>
  The contract of what is behind the patcher. \<open>sink t out\<close> says that the bytes \<open>out\<close>, the first ones of the new file, have arrived. Changed bytes
  are any; unchanged ones are those of the old file at the same position. Unchanged bytes may be skipped only when they need not be read.
\<close>

definition src_slice :: "byte list \<Rightarrow> nat \<Rightarrow> nat \<Rightarrow> byte list" where
  "src_slice src pos n = take n (drop pos src)"

definition config :: "'c patcher \<Rightarrow> int \<times> bool \<times> bool \<times> int" where
  "config t = (p_filesize t, require_unchanged t, with_sparse t, unchanged_align t)"

lemma reset_sparse_simps [simp]: "unchanged_align (reset_sparse t) = unchanged_align t" "with_sparse (reset_sparse t) = with_sparse t"
  by (simp_all add: reset_sparse_def Let_def)

definition started :: "int \<Rightarrow> 'c patcher \<Rightarrow> 'c patcher" where
  "started fsize t = (let t = (reset_align t)\<lparr>p_filesize := fsize\<rparr> in if with_sparse t then reset_sparse t else t)"

locale byte_sink =
  fixes cb :: "'c chunk_cb" and src :: "byte list" and sparse :: bool and req :: bool and sink :: "'c patcher \<Rightarrow> byte list \<Rightarrow> bool"
  assumes forward: "sink t out \<Longrightarrow> with_sparse t = sparse \<Longrightarrow> changed \<or> buf = src_slice src (length out) (length buf) \<Longrightarrow>
      \<exists>t'. forward_bytes cb (int (length out)) buf changed t = Some t' \<and> config t' = config t \<and> sink t' (out @ buf)"
    and skip: "sink t out \<Longrightarrow> with_sparse t = sparse \<Longrightarrow> \<not> req \<Longrightarrow> unchanged_align t = 0 \<Longrightarrow> length out + n \<le> length src \<Longrightarrow>
      \<exists>t'. skip_unchanged cb (int (length out)) (int n) t = Some t' \<and> config t' = config t \<and> sink t' (out @ src_slice src (length out) n)"
    and sink_frame: "sink t out \<Longrightarrow> sink (t\<lparr>unchanged_align_end := i\<rparr>) out"
begin

text \<open>The fixed part of the state: no alignment, no extents, files that can be read.\<close>

definition steady :: "int \<Rightarrow> 'c patching \<Rightarrow> bool" where
  "steady fsize a \<longleftrightarrow> config (a_this a) = (fsize, req, sparse, 0) \<and> curr_sparse_extent a = no_extent \<and> fl_data (a_file a) = src \<and>
     fl_bad (a_file a) = []"

definition synced :: "'c patching \<Rightarrow> bool" where
  "synced a \<longleftrightarrow> (req \<longrightarrow> int (fl_pos (a_file a)) = file_pos a)"

definition arrived :: "byte list \<Rightarrow> 'c patching \<Rightarrow> bool" where
  "arrived out a \<longleftrightarrow> file_pos a = int (length out) \<and> sink (a_this a) out"

text \<open>The data of one record, in buffers.\<close>

lemma patch_data_loop:
  assumes "steady fsize a" "arrived out a" "patch_at ds rs a" "int n = patch_size a" "n \<le> length ds"
  shows "\<exists>a'. iterate (\<lambda>a. Some (patch_data_step cb a)) a = Some (Normal a') \<and> config (a_this a') = config (a_this a) \<and> arrived (out @ take n ds) a' \<and>
    patch_at (drop n ds) rs a' \<and> patch_size a' = 0 \<and> a_file a' = a_file a \<and> curr_sparse_extent a' = curr_sparse_extent a \<and> has_header a' = has_header a"
  using assms
proof (induction n arbitrary: a out ds rule: less_induct)
  case (less n)
  show ?case
  proof (cases "n = 0")
    case True
    then show ?thesis using less.prems by (auto simp: patch_data_step_def iterate_stop)
  next
    case False
    let ?m = "min 524288 n" and ?f = "a_patch a"
    have dr: "drop (fl_pos ?f) (fl_data ?f) = ds @ concat (map record_bytes rs)" and bad: "fl_bad ?f = []"
      using less.prems by (auto simp: patch_at_def)
    have m: "min patch_buffer_size (patch_size a) = int ?m" using less.prems(4) [symmetric] by (simp add: patch_buffer_size_def)
    have rd: "IFile_Read (int ?m) ?f = (take ?m ds, False, ?f\<lparr>fl_pos := fl_pos ?f + ?m\<rparr>)"
      using IFile_Read_ok [OF bad, of "int ?m"] less.prems(5) by (simp add: dr)
    obtain t where t: "forward_bytes cb (int (length out)) (take ?m ds) True (a_this a) = Some t" "config t = config (a_this a)" "sink t (out @ take ?m ds)"
      using forward [of "a_this a" out True "take ?m ds"] less.prems by (auto simp: steady_def arrived_def config_def)
    let ?a = "a\<lparr>a_patch := ?f\<lparr>fl_pos := fl_pos ?f + ?m\<rparr>, patchf_pos := patchf_pos a + int ?m, a_this := t, patch_size := patch_size a - int ?m,
      file_pos := file_pos a + int ?m\<rparr>"
    have step: "patch_data_step cb a = Inl ?a"
      using t False less.prems by (simp add: patch_data_step_def m rd Let_def arrived_def min_absorb2 del: of_nat_min)
    have "\<exists>a'. iterate (\<lambda>a. Some (patch_data_step cb a)) ?a = Some (Normal a') \<and> config (a_this a') = config (a_this ?a) \<and>
        arrived ((out @ take ?m ds) @ take (n - ?m) (drop ?m ds)) a' \<and> patch_at (drop (n - ?m) (drop ?m ds)) rs a' \<and> patch_size a' = 0 \<and>
        a_file a' = a_file ?a \<and> curr_sparse_extent a' = curr_sparse_extent ?a \<and> has_header a' = has_header ?a"
    proof (rule less.IH)
      have "drop (fl_pos ?f + ?m) (fl_data ?f) = drop ?m (ds @ concat (map record_bytes rs))"
        by (simp only: dr [symmetric] drop_drop add.commute)
      then show "patch_at (drop ?m ds) rs ?a" using less.prems(3,5) by (simp add: patch_at_def)
    qed (use False less.prems t in \<open>auto simp: steady_def arrived_def config_def\<close>)
    moreover have eq: "(out @ take ?m ds) @ take (n - ?m) (drop ?m ds) = out @ take n ds" "drop (n - ?m) (drop ?m ds) = drop n ds"
      using take_add [of ?m "n - ?m" ds] by simp_all
    ultimately show ?thesis unfolding iterate_total_next [of "patch_data_step cb", OF step] eq by (simp add: t(2))
  qed
qed

lemma patch_region_correct:
  assumes "steady fsize a" "arrived out a" "patch_at ds rs a" "int n = patch_size a" "n \<le> length ds" "file_pos a = patch_off a"
  shows "\<exists>a'. patch_region cb a = Some (Normal a') \<and> steady fsize a' \<and> synced a' \<and> arrived (out @ take n ds) a' \<and>
    patch_at (drop n ds) rs a' \<and> patch_off a' = -1 \<and> has_header a' = has_header a"
proof -
  let ?a = "a\<lparr>a_this := (a_this a)\<lparr>unchanged_align_end := unchanged_align_end_next (a_this a)\<rparr>\<rparr>"
  have "arrived out ?a" "steady fsize ?a" "patch_at ds rs ?a"
    using assms sink_frame by (auto simp: arrived_def steady_def config_def patch_at_def)
  from patch_data_loop [OF this(2,1,3), of n] assms obtain a' where a': "iterate (\<lambda>a. Some (patch_data_step cb a)) ?a = Some (Normal a')"
    "config (a_this a') = config (a_this ?a)" "arrived (out @ take n ds) a'" "patch_at (drop n ds) rs a'"
    "a_file a' = a_file ?a" "curr_sparse_extent a' = curr_sparse_extent ?a" "has_header a' = has_header ?a"
    by auto
  let ?b = "(if require_unchanged (a_this a') then a'\<lparr>a_file := snd (IFile_Seek (file_pos a') (a_file a'))\<rparr> else a')\<lparr>patch_off := -1\<rparr>"
  have "patch_region cb a = Some (Normal ?b)" using assms a'(1) by (simp add: patch_region_def Let_def)
  moreover have "steady fsize ?b" "synced ?b" "arrived (out @ take n ds) ?b" "patch_at (drop n ds) rs ?b" "has_header ?b = has_header a"
    using a' assms by (auto simp: steady_def synced_def arrived_def patch_at_def config_def IFile_Seek_def)
  ultimately show ?thesis by (intro exI [of _ ?b]) simp
qed

text \<open>The unchanged data up to the next record, the end of the old or of the new file.\<close>

lemma unchanged_loop:
  assumes st: "steady fsize a" and sy: "synced a" and ar: "arrived out a"
    and n: "length out < length src" "int (length out + n) \<le> fsize" "0 < n"
  obtains a' k where "iterate (\<lambda>s. Some (unchanged_step cb (int (length src)) s)) (a, int n) = Some (Normal a')" "0 < k" "k \<le> n"
    "length out + k \<le> length src" "steady fsize a'" "synced a'" "arrived (out @ src_slice src (length out) k) a'" "a_patch a' = a_patch a" "patchf_pos a' = patchf_pos a"
    "patch_off a' = patch_off a" "patch_size a' = patch_size a" "has_header a' = has_header a"
proof -
  let ?pos = "length out" and ?f = "a_file a" and ?step = "unchanged_step cb (int (length src))"
  define m where "m = min 524288 n"
  define k where "k = min m (length src - ?pos)"
  have pos: "file_pos a = int ?pos" and cfg: "config (a_this a) = (fsize, req, sparse, 0)" using st ar by (auto simp: arrived_def steady_def)
  have fl: "fl_data ?f = src" "fl_bad ?f = []" "req \<longrightarrow> fl_pos ?f = ?pos" using st sy ar by (auto simp: arrived_def steady_def synced_def)
  have m: "min (int n) patch_buffer_size = int m" "m \<le> 524288" "m \<le> n" "0 < m" using n by (auto simp: patch_buffer_size_def m_def)
  have k: "0 < k" "k \<le> m" "?pos + k \<le> length src" using n m by (auto simp: k_def)
  have cut: "int (length src) < int ?pos + int m \<Longrightarrow> u32_of (int (length src) - int ?pos) = int k"
    "\<not> int (length src) < int ?pos + int m \<Longrightarrow> m = k"
    using n m by (auto simp: k_def u32_of_def)
  have len: "length (src_slice src ?pos k) = k" "src_slice src ?pos m = src_slice src ?pos k" using k by (simp_all add: src_slice_def k_def min_def)
  obtain t f n' where t: "config t = (fsize, req, sparse, 0)" "sink t (out @ src_slice src ?pos k)"
    and f: "fl_data f = src" "fl_bad f = []" "req \<longrightarrow> fl_pos f = ?pos + k"
    and step: "?step (a, int n) = Inl (a\<lparr>a_this := t, a_file := f, file_pos := int ?pos + int k\<rparr>, n')" and n': "n' = 0 \<or> ?pos + k = length src"
  proof (cases req)
    case r: True
    then have rd: "IFile_Read (int m) ?f = (src_slice src ?pos k, False, ?f\<lparr>fl_pos := ?pos + k\<rparr>)"
      using IFile_Read_ok [OF fl(2), of "int m"] fl len by (simp add: src_slice_def [symmetric])
    obtain t where t: "forward_bytes cb (int ?pos) (src_slice src ?pos k) False (a_this a) = Some t" "config t = (fsize, req, sparse, 0)"
        "sink t (out @ src_slice src ?pos k)"
      using forward [of "a_this a" out False "src_slice src ?pos k"] ar cfg len by (auto simp: arrived_def config_def)
    have go: "int n > 0" "int ?pos < int (length src)" "int ?pos < fsize" using n by auto
    have "?step (a, int n) = Inl (a\<lparr>a_this := t, a_file := ?f\<lparr>fl_pos := ?pos + k\<rparr>, file_pos := int ?pos + int k\<rparr>, int m - int k)"
      using r t(1,2) go cfg rd len(1) pos m(1) by (simp add: unchanged_step_def Let_def config_def del: of_nat_min of_nat_add)
    moreover have "int m - int k = 0 \<or> ?pos + k = length src" using n by (auto simp: k_def)
    ultimately show thesis using t fl by (intro that [of t "?f\<lparr>fl_pos := ?pos + k\<rparr>" "int m - int k"]) simp_all
  next
    case r: False
    obtain t where t: "skip_unchanged cb (int ?pos) (int k) (a_this a) = Some t" "config t = (fsize, req, sparse, 0)" "sink t (out @ src_slice src ?pos k)"
      using skip [of "a_this a" out k] r ar cfg k by (auto simp: arrived_def config_def)
    have "?step (a, int n) = Inl (a\<lparr>a_this := t, a_file := ?f, file_pos := int ?pos + int k\<rparr>, 0)"
      by (cases "int (length src) < int ?pos + int m")
        (use r t n cfg pos m(1) cut in \<open>simp_all add: unchanged_step_def Let_def config_def\<close>)
    then show thesis using t fl r by (intro that [of t ?f 0]) simp_all
  qed
  let ?a = "a\<lparr>a_this := t, a_file := f, file_pos := int ?pos + int k\<rparr>"
  have "?step (?a, n') = Inr (Normal ?a)" using n' t(1) by (auto simp: unchanged_step_def)
  with step have "iterate (\<lambda>s. Some (?step s)) (a, int n) = Some (Normal ?a)"
    by (simp add: iterate_total_next [of ?step] iterate_total_stop [of ?step])
  then show thesis
    by (rule that [of _ k]) (use n k m t f st len in \<open>simp_all add: steady_def synced_def arrived_def\<close>)
qed

text \<open>The records that are left: the one whose header has been read, and those in the file.\<close>

definition pending :: "'c patching \<Rightarrow> patch_record list \<Rightarrow> bool" where
  "pending a vs \<longleftrightarrow>
     patch_off a = -1 \<and> (\<exists>rs. patch_at [] rs a \<and> valid_records rs = vs) \<and> (has_header a \<or> vs = []) \<or>
     patch_off a \<noteq> -1 \<and> has_header a \<and>
       (\<exists>ds rs. patch_at ds rs a \<and> patch_size a = int (length ds) \<and> length ds < 2 ^ 32 \<and> vs = (patch_off a, ds) # valid_records rs)"

definition on_way :: "int \<Rightarrow> byte list \<Rightarrow> byte list \<Rightarrow> patch_record list \<Rightarrow> 'c patching \<Rightarrow> bool" where
  "on_way fsize fin out vs a \<longleftrightarrow> steady fsize a \<and> synced a \<and> arrived out a \<and> int (length out) \<le> fsize \<and> pending a vs \<and>
     records_ok fsize (int (length src)) (int (length out)) vs \<and> fin = out @ rest_of fsize src (int (length out)) vs"

lemma valid_record_size_ok: "list_all record_size_ok rs \<Longrightarrow> valid_records rs = r # vs \<Longrightarrow> record_size_ok r"
  by (metis filter_is_subset list.set_intros(1) list_all_iff subsetD valid_records_def)

lemma next_header_correct:
  assumes "on_way fsize fin out vs a"
  obtains a' where "next_header be a = Some (Normal a')" "on_way fsize fin out vs a'" "vs = [] \<longrightarrow> \<not> has_header a' \<and> patch_off a' = -1"
    "vs \<noteq> [] \<longrightarrow> has_header a' \<and> patch_off a' \<noteq> -1"
proof (cases "has_header a \<and> patch_off a = -1")
  case True
  then obtain rs where rs: "patch_at [] rs a" "valid_records rs = vs" using assms by (auto simp: on_way_def pending_def)
  from readNextValidPatch_correct [OF rs(1), of be] obtain f pp where rd: "case vs of
      [] \<Rightarrow> readNextValidPatch be a = Some (False, False, a\<lparr>a_patch := f, patchf_pos := pp, patch_off := -1, patch_size := 0\<rparr>) \<and>
           (\<forall>x y. patch_at [] [] (a\<lparr>a_patch := f, patchf_pos := pp, patch_off := x, patch_size := y\<rparr>))
    | r # vs \<Rightarrow> readNextValidPatch be a = Some (True, False, a\<lparr>a_patch := f, patchf_pos := pp, patch_off := fst r, patch_size := int (length (snd r))\<rparr>) \<and>
           (\<exists>rs'. valid_records rs' = vs \<and> (\<forall>x y. patch_at (snd r) rs' (a\<lparr>a_patch := f, patchf_pos := pp, patch_off := x, patch_size := y\<rparr>)))"
    unfolding rs(2) by blast
  have cfg: "config (a_this a) = (fsize, req, sparse, 0)" using assms by (auto simp: on_way_def steady_def)
  show ?thesis
  proof (cases vs)
    case Nil
    let ?a = "a\<lparr>a_patch := f, patchf_pos := pp, patch_off := -1, patch_size := 0, has_header := False\<rparr>"
    have "next_header be a = Some (Normal ?a)" using True rd Nil by (simp add: next_header_def Let_def)
    moreover have "pending ?a vs"
      using rd Nil unfolding pending_def by (intro disjI1) (auto simp: patch_at_def valid_records_def intro!: exI [of _ "[]"])
    then have "on_way fsize fin out vs ?a"
      using assms by (simp add: on_way_def steady_def synced_def arrived_def)
    ultimately show ?thesis using that [of ?a] Nil by simp
  next
    case (Cons r ws)
    let ?a = "a\<lparr>a_patch := f, patchf_pos := pp, patch_off := fst r, patch_size := int (length (snd r)), has_header := True\<rparr>"
    have ok: "fst r \<noteq> -1" "length (snd r) < 2 ^ 32" "record_size_ok r"
      using assms rs Cons valid_record_size_ok by (fastforce simp: on_way_def patch_at_def record_size_ok_def)+
    have "next_header be a = Some (Normal ?a)" using True rd Cons cfg by (simp add: next_header_def Let_def config_def)
    moreover from rd Cons obtain rs' where rs': "valid_records rs' = ws" "\<forall>x y. patch_at (snd r) rs' (a\<lparr>a_patch := f, patchf_pos := pp, patch_off := x, patch_size := y\<rparr>)"
      by auto
    have "pending ?a vs"
      unfolding pending_def by (intro disjI2 conjI exI [of _ "snd r"] exI [of _ rs']) (use rs' Cons ok in \<open>auto simp: patch_at_def\<close>)
    then have "on_way fsize fin out vs ?a"
      using assms by (simp add: on_way_def steady_def synced_def arrived_def)
    ultimately show ?thesis using that [of ?a] Cons ok by simp
  qed
next
  case False
  then show ?thesis using assms that [of a] by (auto simp: next_header_def on_way_def pending_def)
qed

lemma records_ok_advance:
  "records_ok fsize old pos vs \<Longrightarrow> pos \<le> pos' \<Longrightarrow> pos' \<le> old \<Longrightarrow> (vs \<noteq> [] \<longrightarrow> pos' \<le> fst (hd vs)) \<Longrightarrow> records_ok fsize old pos' vs"
  by (cases vs) auto

lemma rest_of_advance:
  assumes "0 < fsize" "pos + k \<le> length src" "int (pos + k) \<le> fsize" "vs \<noteq> [] \<longrightarrow> int (pos + k) \<le> fst (hd vs)"
  shows "rest_of fsize src (int pos) vs = src_slice src pos k @ rest_of fsize src (int (pos + k)) vs"
proof -
  have split: "take (nat (e - int pos)) (drop pos src) = src_slice src pos k @ take (nat (e - int (pos + k))) (drop (pos + k) src)"
    if "int (pos + k) \<le> e" for e
  proof -
    have "nat (e - int pos) = k + nat (e - int (pos + k))" using that by auto
    then show ?thesis by (simp add: take_add src_slice_def add.commute)
  qed
  show ?thesis
  proof (cases vs)
    case Nil
    then show ?thesis using split [of fsize] assms(3) by (simp add: nat_int_add)
  next
    case (Cons r ws)
    then show ?thesis using split [of "fst r"] assms(4) by (simp add: nat_int_add)
  qed
qed

lemma unchanged_round:
  assumes w: "on_way fsize fin out vs a" and p: "length out < length src" "int (length out) < fsize" "0 < tr" "tr < 2 ^ 32"
    and v: "vs \<noteq> [] \<longrightarrow> int (length out) + tr \<le> fst (hd vs)"
  obtains a' out' where "unchanged_region cb be (int (length src)) tr a = Some (Normal a')" "on_way fsize fin out' vs a'" "length out < length out'"
proof -
  let ?pos = "length out"
  define n where "n = nat (if int ?pos + tr > fsize then fsize - int ?pos else tr)"
  have st: "steady fsize a" and sy: "synced a" and ar: "arrived out a" and pe: "pending a vs"
    and ok: "records_ok fsize (int (length src)) (int ?pos) vs" and fin: "fin = out @ rest_of fsize src (int ?pos) vs"
    using w by (auto simp: on_way_def)
  have n: "int n = (if int ?pos + tr > fsize then u32_of (fsize - int ?pos) else tr)" "0 < n" "int (?pos + n) \<le> fsize" "int n \<le> tr"
    using p by (auto simp: n_def u32_of_def)
  from unchanged_loop [OF st sy ar p(1) n(3,2)] obtain a' k where
    it: "iterate (\<lambda>s. Some (unchanged_step cb (int (length src)) s)) (a, int n) = Some (Normal a')"
    and k: "0 < k" "k \<le> n" "?pos + k \<le> length src" and a': "steady fsize a'" "synced a'" "arrived (out @ src_slice src ?pos k) a'"
      "a_patch a' = a_patch a" "patchf_pos a' = patchf_pos a" "patch_off a' = patch_off a" "patch_size a' = patch_size a" "has_header a' = has_header a"
    by blast
  have pe': "pending a' vs" using pe a' by (simp add: pending_def patch_at_def)
  have len: "length (src_slice src ?pos k) = k" using k by (simp add: src_slice_def)
  have "unchanged_region cb be (int (length src)) tr a = Some (Normal a')"
    using st ar it n(1) by (simp add: unchanged_region_def steady_def arrived_def config_def no_extent_def skip_extents_step_def iterate_total_stop Let_def split: if_splits)
  moreover have hd: "vs \<noteq> [] \<longrightarrow> int (?pos + k) \<le> fst (hd vs)" using v k n(4) by auto
  have "on_way fsize fin (out @ src_slice src ?pos k) vs a'"
    using a' k n(3) len records_ok_advance [OF ok, of "int (?pos + k)"] rest_of_advance [of fsize ?pos k vs] hd fin p pe'
    by (auto simp: on_way_def)
  ultimately show ?thesis using that len k by force
qed

text \<open>
  One round of the loop ends it with the whole file, or goes on with a longer part or fewer records. After the header, a round is at a record,
  or before the next one.
\<close>

definition round_done :: "int \<Rightarrow> byte list \<Rightarrow> byte list \<Rightarrow> patch_record list \<Rightarrow> ('c patching + 'c patching ctl) option \<Rightarrow> bool" where
  "round_done fsize fin out vs x \<longleftrightarrow>
     (\<exists>a'. x = Some (Inr (Normal a')) \<and> steady fsize a' \<and> arrived fin a') \<or>
     (\<exists>a' out' vs'. x = Some (Inl a') \<and> on_way fsize fin out' vs' a' \<and>
        length out \<le> length out' \<and> (length out < length out' \<and> vs' = vs \<or> length vs' < length vs))"

lemma round_unchanged:
  assumes "on_way fsize fin out vs b" "length out < length src" "int (length out) < fsize" "0 < tr" "tr < 2 ^ 32"
    "vs \<noteq> [] \<longrightarrow> int (length out) + tr \<le> fst (hd vs)"
  shows "round_done fsize fin out vs (map_option (\<lambda>r. case r of Normal a \<Rightarrow> Inl a | x \<Rightarrow> Inr x) (unchanged_region cb be (int (length src)) tr b))"
proof -
  from unchanged_round [OF assms] obtain a' out' where "unchanged_region cb be (int (length src)) tr b = Some (Normal a')"
    "on_way fsize fin out' vs a'" "length out < length out'" by blast
  then show ?thesis unfolding round_done_def by (intro disjI2 exI [of _ a'] exI [of _ out'] exI [of _ vs]) simp
qed

lemma round_record:
  assumes w: "on_way fsize fin out ((patch_off b, ds) # valid_records rs) b" and at: "patch_off b = int (length out)"
    and rs: "patch_at ds rs b" "patch_size b = int (length ds)" "length ds < 2 ^ 32" "has_header b"
  shows "round_done fsize fin out ((patch_off b, ds) # valid_records rs)
     (if int (length out) + patch_size b > fsize then map_option Inr (patch_region cb (b\<lparr>patch_size := u32_of (fsize - int (length out))\<rparr>))
      else map_option (\<lambda>r. case r of Normal a \<Rightarrow> Inl a | x \<Rightarrow> Inr x) (patch_region cb b))"
proof -
  let ?pos = "length out"
  have st: "steady fsize b" and ar: "arrived out b" and pf: "int ?pos \<le> fsize" and fb: "file_pos b = int ?pos"
    and ok: "records_ok fsize (int (length src)) (int ?pos) ((patch_off b, ds) # valid_records rs)"
    and fin: "fin = out @ rest_of fsize src (int ?pos) ((patch_off b, ds) # valid_records rs)"
    using w by (auto simp: on_way_def arrived_def)
  show ?thesis
  proof (cases "int ?pos + int (length ds) > fsize")
    case True
    let ?n = "nat (fsize - int ?pos)"
    let ?b = "b\<lparr>patch_size := u32_of (fsize - int ?pos)\<rparr>"
    have n: "int ?n = u32_of (fsize - int ?pos)" "?n \<le> length ds" using True pf rs(3) by (auto simp: u32_of_def)
    have "steady fsize ?b" "arrived out ?b" "patch_at ds rs ?b" using st ar rs(1) by (auto simp: steady_def arrived_def patch_at_def)
    from patch_region_correct [OF this, of ?n] n fb at obtain a' where
      "patch_region cb ?b = Some (Normal a')" "steady fsize a'" "arrived (out @ take ?n ds) a'" by auto
    moreover have "fin = out @ take ?n ds" using fin at True by simp
    ultimately show ?thesis using True rs(2) unfolding round_done_def by (intro disjI1 exI [of _ a']) simp
  next
    case False
    from patch_region_correct [OF st ar rs(1), of "length ds"] rs(2) fb at obtain a' where a':
      "patch_region cb b = Some (Normal a')" "steady fsize a'" "synced a'" "arrived (out @ ds) a'" "patch_at [] rs a'" "patch_off a' = -1"
      "has_header a' = has_header b" by auto
    have "fin = (out @ ds) @ rest_of fsize src (int (length (out @ ds))) (valid_records rs)"
      using fin at False by simp
    then have "on_way fsize fin (out @ ds) (valid_records rs) a'"
      using a' ok at False rs(4) by (auto simp: on_way_def pending_def)
    then show ?thesis using a'(1) False rs(2) unfolding round_done_def
      by (intro disjI2 exI [of _ a'] exI [of _ "out @ ds"] exI [of _ "valid_records rs"]) simp
  qed
qed

lemma patch_step_correct:
  assumes w: "on_way fsize fin out vs a"
  shows "round_done fsize fin out vs (patch_step cb be (int (length src)) 4294967295 a)"
proof -
  let ?pos = "length out"
  have end_fin: "fin = out" if "vs = []" "int ?pos \<ge> int (length src) \<or> int ?pos \<ge> fsize"
    using w that by (auto simp: on_way_def)
  have fa: "file_pos a = int ?pos" "p_filesize (a_this a) = fsize" using w by (auto simp: on_way_def arrived_def steady_def config_def)
  show ?thesis
  proof (cases "int ?pos < int (length src) \<and> int ?pos < fsize \<or> has_header a")
    case False
    then have "vs = []" using w by (auto simp: on_way_def pending_def)
    then show ?thesis using False w end_fin by (auto simp: round_done_def patch_step_def fa on_way_def)
  next
    case loop: True
    from next_header_correct [OF w, of be] obtain b where b: "next_header be a = Some (Normal b)" "on_way fsize fin out vs b"
      "vs = [] \<longrightarrow> \<not> has_header b \<and> patch_off b = -1" "vs \<noteq> [] \<longrightarrow> has_header b \<and> patch_off b \<noteq> -1" by blast
    have fb: "file_pos b = int ?pos" "p_filesize (a_this b) = fsize" and st: "steady fsize b" and ar: "arrived out b" and pe: "pending b vs"
      and ok: "records_ok fsize (int (length src)) (int ?pos) vs"
      using b(2) by (auto simp: on_way_def arrived_def steady_def config_def)
    note step = patch_step_def [of cb be "int (length src)" 4294967295 a] fa b(1) fb
    show ?thesis
    proof (cases vs)
      case Nil
      show ?thesis
      proof (cases "int ?pos < int (length src) \<and> int ?pos < fsize")
        case True
        then show ?thesis using round_unchanged [OF b(2), of 4294967295 be] loop b(3) Nil by (simp add: step Let_def)
      next
        case False
        then show ?thesis using loop b(3) Nil end_fin st ar by (auto simp: step Let_def round_done_def)
      qed
    next
      case (Cons r ws)
      from pe b(4) Cons obtain ds rs where rs: "patch_at ds rs b" "patch_size b = int (length ds)" "length ds < 2 ^ 32" "has_header b"
          and vs: "vs = (patch_off b, ds) # valid_records rs" "patch_off b \<noteq> -1"
        by (auto simp: pending_def)
      have off: "int ?pos \<le> patch_off b" "patch_off b < fsize" "patch_off b \<le> max (int ?pos) (int (length src))" using ok vs by auto
      show ?thesis
      proof (cases "patch_off b = int ?pos")
        case True
        then show ?thesis using round_record [OF _ True rs, of fsize fin] b(2) loop rs(4) vs off(2) by (simp add: step Let_def split: if_splits)
      next
        case False
        let ?tr = "if patch_off b - int ?pos < 4294967295 then patch_off b - int ?pos else 4294967295"
        have lt: "int ?pos < patch_off b" "int ?pos < int (length src)" "int ?pos < fsize" using False off by auto
        then have "round_done fsize fin out vs (map_option (\<lambda>r. case r of Normal a \<Rightarrow> Inl a | x \<Rightarrow> Inr x) (unchanged_region cb be (int (length src)) ?tr b))"
          using vs by (intro round_unchanged [OF b(2)]) auto
        then show ?thesis using loop lt vs(2) rs(4) by (simp add: step Let_def split: if_splits)
      qed
    qed
  qed
qed

lemma patch_loop:
  "on_way fsize fin out vs a \<Longrightarrow>
    \<exists>a'. iterate (patch_step cb be (int (length src)) 4294967295) a = Some (Normal a') \<and> steady fsize a' \<and> arrived fin a'"
proof (induction "nat (fsize - int (length out)) + length vs" arbitrary: out vs a rule: less_induct)
  case less
  let ?step = "patch_step cb be (int (length src)) 4294967295"
  from patch_step_correct [OF less.prems, of be] consider
    (fin) a' where "?step a = Some (Inr (Normal a'))" "steady fsize a'" "arrived fin a'"
  | (go) a' out' vs' where "?step a = Some (Inl a')" "on_way fsize fin out' vs' a'" "length out \<le> length out'"
      "length out < length out' \<and> vs' = vs \<or> length vs' < length vs"
    unfolding round_done_def by blast
  then show ?case
  proof cases
    case fin
    then show ?thesis by (simp add: iterate_stop)
  next
    case go
    have "int (length out') \<le> fsize" using go(2) by (simp add: on_way_def)
    then have "nat (fsize - int (length out')) + length vs' < nat (fsize - int (length out)) + length vs" using go(3,4) by auto
    from less.hyps [OF this go(2)] show ?thesis by (simp add: iterate_next [of ?step, OF go(1)])
  qed
qed

text \<open>The whole of \<open>ApplyPatch\<close>, from a sink that has received nothing.\<close>

lemma ApplyPatch_sink:
  assumes f: "fl_data f = src" "fl_bad f = []" and p: "fl_data pf = patch_bytes fsize rs" "fl_bad pf = []" "list_all record_size_ok rs"
    and fs: "0 \<le> fsize" "fsize < 2 ^ 63" and ok: "records_ok fsize (int (length src)) 0 (valid_records rs)"
    and t: "require_unchanged t = req" "with_sparse t = sparse" "unchanged_align t = 0" and s: "sink (started fsize t) []"
  shows "\<exists>a. sink (a_this a) (patched fsize rs src) \<and> config (a_this a) = (fsize, req, sparse, 0) \<and> file_pos a = int (length (patched fsize rs src)) \<and>
    ApplyPatch cb be f pf None t =
      Some (if sparse then (case finishChunkPatcher cb (file_pos a) (a_this a) of None \<Rightarrow> Assertion | Some t \<Rightarrow> Return True (a\<lparr>a_this := t\<rparr>))
            else Return True a)"
proof -
  let ?f = "f\<lparr>fl_pos := 0\<rparr>" and ?pf = "pf\<lparr>fl_pos := 8\<rparr>"
  let ?a = "\<lparr>a_this = started fsize t, a_file = ?f, a_patch = ?pf, extent_it = None, curr_sparse_extent = no_extent, patchf_pos = 8,
    patch_off = -1, patch_size = 0, has_header = True, file_pos = 0\<rparr>"
  have sint: "sint (word_of_int fsize :: u64) = fsize"
    using fs by (simp add: sint_sbintrunc' signed_take_bit_int_eq_self)
  have rd: "IFile_Read 8 (pf\<lparr>fl_pos := 0\<rparr>) = (enc_le 8 (unat (word_of_int fsize :: u64)), False, ?pf)"
    using p by (simp add: IFile_Read_ok patch_bytes_def)
  have ct: "config (started fsize t) = (fsize, req, sparse, 0)"
    using t by (simp add: started_def config_def reset_align_def reset_sparse_def Let_def)
  have "on_way fsize (patched fsize rs src) [] (valid_records rs) ?a"
    using f p fs ok s ct by (auto simp: on_way_def steady_def synced_def arrived_def pending_def patch_at_def patch_bytes_def patched_rest)
  from patch_loop [OF this, of be] obtain a' where
    a': "iterate (patch_step cb be (int (length src)) 4294967295) ?a = Some (Normal a')" "steady fsize a'" "arrived (patched fsize rs src) a'" by blast
  have ws: "with_sparse (a_this a') = sparse" using a'(2) by (simp add: steady_def config_def)
  have "ApplyPatch cb be f pf None t =
      Some (if sparse then (case finishChunkPatcher cb (file_pos a') (a_this a') of None \<Rightarrow> Assertion | Some t \<Rightarrow> Return True (a'\<lparr>a_this := t\<rparr>))
            else Return True a')"
    using a'(1) ws t f by (cases "with_sparse t") (simp_all add: ApplyPatch_def IFile_Seek_def rd sint IFile_Size_def Let_def u32_of_def started_def reset_align_def)
  with a'(2,3) show ?thesis by (intro exI [of _ a']) (simp add: steady_def arrived_def)
qed

end

end
