(* ===== verification/Patch_File.thy ===== *)
theory Patch_File
  imports Chunk_Patch_Correct
begin

text \<open>
  Patching a file of a backup (\<^verbatim>\<open>server_hash.cpp\<close>): the callback that writes the new file and the function \<open>patchFile\<close> around the patcher. The new
  file starts empty, or as a copy of the old one that shares its blocks; then only changed data are written.
\<close>

subsection \<open>Writing\<close>

text \<open>\<open>Write\<close> stops before the first offset that cannot be written and returns how many bytes it wrote. Writing behind the end fills the gap with zeros.\<close>

definition write_at :: "nat \<Rightarrow> byte list \<Rightarrow> byte list \<Rightarrow> byte list" where
  "write_at pos buf d = (if buf = [] then d else take pos d @ replicate (pos - length d) 0 @ buf @ drop (pos + length buf) d)"

definition IFile_Write :: "byte list \<Rightarrow> ifile \<Rightarrow> nat \<times> ifile" where
  "IFile_Write buf f =
     (let n = length (takeWhile (\<lambda>i. i \<notin> set (fl_bad f)) [fl_pos f..<fl_pos f + length buf])
      in (n, f\<lparr>fl_data := write_at (fl_pos f) (take n buf) (fl_data f), fl_pos := fl_pos f + n\<rparr>))"

function write_rest :: "byte list \<Rightarrow> ifile \<Rightarrow> bool \<times> ifile" where
  "write_rest buf f =
     (case IFile_Write buf f of (rc, f) \<Rightarrow> if rc < length buf \<and> rc > 0 then write_rest (drop rc buf) f else (rc \<noteq> 0, f))"
  by pat_completeness auto
termination
  by (relation "measure (\<lambda>(buf, f). length buf)") auto

declare write_rest.simps [simp del]

text \<open>\<open>space\<close> is the answer of the callback that makes room when a write fails; offsets that cannot be written stay so.\<close>

definition writeRepeatFreeSpace :: "bool \<Rightarrow> byte list \<Rightarrow> ifile \<Rightarrow> bool \<times> ifile" where
  "writeRepeatFreeSpace space buf f =
     (case IFile_Write buf f of (rc, f) \<Rightarrow>
        if rc \<noteq> length buf then (if space then write_rest (drop rc buf) f else (False, f)) else (True, f))"

subsection \<open>The callback\<close>

record server_hash =
  chunk_output_fn :: ifile
  chunk_patch_pos :: int
  has_reflink :: bool
  cow_filesize :: int
  chunk_patcher_has_error :: bool

definition hash_next_chunk_patcher_bytes ::
  "bool \<Rightarrow> byte list option \<Rightarrow> int \<Rightarrow> bool \<Rightarrow> bool option \<Rightarrow> server_hash \<Rightarrow> bool option \<times> server_hash" where
  "hash_next_chunk_patcher_bytes space buf bsize changed is_sparse h =
     (let h = (if \<not> has_reflink h \<or> changed then
                 (case buf of
                    None \<Rightarrow> h
                  | Some b \<Rightarrow>
                      (case IFile_Seek (chunk_patch_pos h) (chunk_output_fn h) of (s, f) \<Rightarrow>
                         (case writeRepeatFreeSpace space b f of (w, f) \<Rightarrow>
                            h\<lparr>chunk_output_fn := f, chunk_patcher_has_error := (chunk_patcher_has_error h \<or> \<not> s \<or> \<not> w)\<rparr>)))
               else h);
          h = h\<lparr>chunk_patch_pos := chunk_patch_pos h + bsize\<rparr>
      in (is_sparse, if has_reflink h \<and> changed then h\<lparr>cow_filesize := cow_filesize h + bsize\<rparr> else h))"

definition hash_cb :: "bool \<Rightarrow> server_hash chunk_cb" where
  "hash_cb space = \<lparr>next_chunk_patcher_bytes = hash_next_chunk_patcher_bytes space, next_sparse_extent_bytes = (\<lambda>e h. h),
     chunk_patcher_pos = chunk_patch_pos\<rparr>"

subsection \<open>Patching\<close>

text \<open>A hole is zeros where the file has bytes; \<open>punch\<close> says whether the file system can punch holes. Otherwise zeros are written, in pieces.\<close>

definition PunchHole :: "bool \<Rightarrow> int \<Rightarrow> int \<Rightarrow> ifile \<Rightarrow> bool \<times> ifile" where
  "PunchHole punch off n f =
     (if punch \<and> 0 \<le> off then (True, f\<lparr>fl_data := take (nat off) (fl_data f) @ replicate (min (nat n) (length (fl_data f) - nat off)) 0 @
        drop (nat off + nat n) (fl_data f)\<rparr>) else (False, f))"

function write_zeros :: "bool \<Rightarrow> int \<Rightarrow> ifile \<Rightarrow> bool \<times> ifile" where
  "write_zeros space n f =
     (if 0 < n then
        (case writeRepeatFreeSpace space (replicate (nat (min n 32768)) 0) f of (w, f) \<Rightarrow>
           if w then write_zeros space (n - min n 32768) f else (False, f))
      else (True, f))"
  by pat_completeness auto
termination
  by (relation "measure (\<lambda>(space, n, f). nat n)") auto

declare write_zeros.simps [simp del]

definition punchHoleOrZero :: "bool \<Rightarrow> bool \<Rightarrow> int \<Rightarrow> int \<Rightarrow> ifile \<Rightarrow> bool \<times> ifile" where
  "punchHoleOrZero punch space off n f =
     (case PunchHole punch off n f of (p, f) \<Rightarrow>
        if p then (True, f)
        else (case IFile_Seek off f of (s, f) \<Rightarrow> if s then write_zeros space n f else (False, f)))"

text \<open>The holes of the new file, from the first extent on. The result is whether one failed and the size that the extents ask for, if larger.\<close>

definition punch_step :: "bool \<Rightarrow> bool \<Rightarrow> bool \<Rightarrow> sparse_extent \<times> extent_iterator \<times> ifile \<times> bool \<times> int \<times> bool \<Rightarrow>
    (sparse_extent \<times> extent_iterator \<times> ifile \<times> bool \<times> int \<times> bool) + (ifile \<times> bool \<times> int \<times> bool)" where
  "punch_step be punch space = (\<lambda>(e, it, f, err, dstfsize, sparse_resize).
     if ext_offset e \<noteq> -1 then
       (case punchHoleOrZero punch space (ext_offset e) (ext_size e) f of (p, f) \<Rightarrow>
          (let grow = (ext_offset e + ext_size e > dstfsize) in
           case nextExtent be it of (e', it) \<Rightarrow>
             Inl (e', it, f, err \<or> \<not> p, if grow then ext_offset e + ext_size e else dstfsize, sparse_resize \<or> grow)))
     else Inr (f, err, dstfsize, sparse_resize))"

definition IFile_Resize :: "int \<Rightarrow> ifile \<Rightarrow> ifile" where
  "IFile_Resize n f = f\<lparr>fl_data := take (nat n) (fl_data f) @ replicate (nat n - length (fl_data f)) 0\<rparr>"

text \<open>
  \<open>patchFile\<close> up to the copy of the hash output, with files that can be opened and resized. \<open>reflink\<close> is whether the copy that shares blocks was made: then the new file starts as \<open>dest\<close>,
  otherwise it is created empty. Resetting the iterator makes its state before the patch and after it the same. The results are those of \<open>ctl\<close>,
  with the new file.
\<close>

definition patchFile :: "bool \<Rightarrow> bool \<Rightarrow> bool \<Rightarrow> bool \<Rightarrow> ifile \<Rightarrow> ifile \<Rightarrow> ifile \<Rightarrow> int \<Rightarrow> extent_iterator option \<Rightarrow> server_hash patcher \<Rightarrow>
    ifile ctl option" where
  "patchFile be space punch reflink patchf source dest tfilesize it t =
     (let fn = (if reflink then dest else dest\<lparr>fl_data := []\<rparr>)\<lparr>fl_pos := 0\<rparr>;
          h = (p_cb t)\<lparr>chunk_output_fn := fn, has_reflink := reflink, chunk_patch_pos := 0, chunk_patcher_has_error := False\<rparr>;
          t = setRequireUnchanged (\<not> reflink) (t\<lparr>p_cb := h\<rparr>)
      in do {
        r \<leftarrow> ApplyPatch (hash_cb space) be source patchf it t;
        case r of
          Return b a \<Rightarrow>
            (let h = p_cb (a_this a); f = chunk_output_fn h; size0 = IFile_Size f in
             do {
               (f, err, dstfsize, sparse_resize) \<leftarrow>
                 (case it of
                    None \<Rightarrow> Some (f, chunk_patcher_has_error h, size0, False)
                  | Some it \<Rightarrow>
                      (case nextExtent be (ExtentIterator_reset it) of (e, it) \<Rightarrow>
                         iterate (\<lambda>s. Some (punch_step be punch space s)) (e, it, f, chunk_patcher_has_error h, size0, False)));
               let f = (if sparse_resize then IFile_Resize dstfsize f else f) in
               Some (if err \<or> \<not> b then Return False f
                     else if p_filesize (a_this a) \<noteq> tfilesize then Assertion
                     else if dstfsize > p_filesize (a_this a) then Normal (IFile_Resize (p_filesize (a_this a)) f)
                     else if dstfsize \<noteq> tfilesize then Assertion
                     else Normal f) })
        | _ \<Rightarrow> Some Assertion })"

subsection \<open>The new file\<close>

lemma writeRepeatFreeSpace_ok:
  "fl_bad f = [] \<Longrightarrow> writeRepeatFreeSpace space buf f =
     (True, f\<lparr>fl_data := write_at (fl_pos f) buf (fl_data f), fl_pos := fl_pos f + length buf\<rparr>)"
proof -
  have tw: "takeWhile (\<lambda>i. True) xs = xs" for xs :: "nat list" by (induction xs) auto
  show "fl_bad f = [] \<Longrightarrow> ?thesis" by (simp add: writeRepeatFreeSpace_def IFile_Write_def Let_def tw)
qed

text \<open>What has arrived is in the new file, followed by the rest of the old one where the files share their blocks.\<close>

definition hash_sink :: "bool \<Rightarrow> byte list \<Rightarrow> server_hash patcher \<Rightarrow> byte list \<Rightarrow> bool" where
  "hash_sink reflink src t out \<longleftrightarrow>
     (let h = p_cb t; f = chunk_output_fn h
      in chunk_patch_pos h = int (length out) \<and> \<not> chunk_patcher_has_error h \<and> has_reflink h = reflink \<and> fl_bad f = [] \<and>
         fl_data f = out @ (if reflink then drop (length out) src else []))"

lemma write_at_end: "write_at (length out) buf (out @ rest) = out @ buf @ drop (length buf) rest"
  by (simp add: write_at_def)

lemma hash_emit:
  assumes s: "hash_sink reflink src t out" and b: "n = int (length d)" "(reflink \<and> \<not> changed) \<or> buf = Some d" "changed \<or> d = src_slice src (length out) (length d)"
  shows "hash_sink reflink src (snd (emit (hash_cb space) buf n changed sp t)) (out @ d)"
proof (cases "reflink \<and> \<not> changed")
  case True
  then have d: "d = src_slice src (length out) (length d)" using b(3) by simp
  have "drop (length out) src = d @ drop (length out + length d) src"
    using append_take_drop_id [of "length d" "drop (length out) src"] d by (simp add: src_slice_def add.commute)
  then show ?thesis using s b(1) True
    by (simp add: hash_sink_def emit_def hash_cb_def hash_next_chunk_patcher_bytes_def Let_def)
next
  case False
  then have "buf = Some d" using b(2) by blast
  then show ?thesis using s b(1) False
    by (auto simp: hash_sink_def emit_def hash_cb_def hash_next_chunk_patcher_bytes_def Let_def IFile_Seek_def writeRepeatFreeSpace_ok write_at_end add.commute
        split: if_splits)
qed

text \<open>A callback that does nothing with extents sees one call for unchanged data that are skipped.\<close>

lemma skip_unchanged_call:
  assumes "assert_pos cb pos t" "unchanged_align t = 0" "\<And>e c. next_sparse_extent_bytes cb e c = c"
  shows "\<exists>t'. skip_unchanged cb pos n t = Some t' \<and> config t' = config t \<and> p_cb t' = p_cb (snd (emit cb None n False (Some False) t))"
proof -
  obtain sp u where e: "emit cb None n False (Some False) t = (sp, u)" by (cases "emit cb None n False (Some False) t")
  then have "config u = config t" by (auto simp: emit_def config_def split: prod.splits)
  then show ?thesis using assms e by (auto simp: skip_unchanged_def config_def finishSparse_def Let_def)
qed

lemma hash_sink_cong: "p_cb t = p_cb u \<Longrightarrow> hash_sink reflink src t out \<longleftrightarrow> hash_sink reflink src u out"
  by (simp add: hash_sink_def)

interpretation hashs: byte_sink "hash_cb space" src False "\<not> reflink" "hash_sink reflink src" for space src reflink
proof
  fix t :: "server_hash patcher" and out buf :: "byte list" and changed i
  assume s: "hash_sink reflink src t out"
  have pos: "assert_pos (hash_cb space) (int (length out)) t" using s by (simp add: hash_sink_def assert_pos_def hash_cb_def Let_def)
  show "hash_sink reflink src (t\<lparr>unchanged_align_end := i\<rparr>) out" using s by (simp add: hash_sink_def)
  show "\<exists>t'. forward_bytes (hash_cb space) (int (length out)) buf changed t = Some t' \<and> config t' = config t \<and> hash_sink reflink src t' (out @ buf)"
    if "with_sparse t = False" "changed \<or> buf = src_slice src (length out) (length buf)"
    using that pos hash_emit [OF s, of _ buf changed "Some buf" space None]
    by (simp add: forward_bytes_def emit_def config_def split: prod.splits)
  show "\<exists>t'. skip_unchanged (hash_cb space) (int (length out)) (int n) t = Some t' \<and> config t' = config t \<and>
      hash_sink reflink src t' (out @ src_slice src (length out) n)"
    if "\<not> \<not> reflink" "unchanged_align t = 0" "length out + n \<le> length src" for n
  proof -
    have l: "length (src_slice src (length out) n) = n" using that by (simp add: src_slice_def)
    have "hash_sink reflink src (snd (emit (hash_cb space) None (int n) False (Some False) t)) (out @ src_slice src (length out) n)"
      by (rule hash_emit [OF s]) (use l that in auto)
    moreover from skip_unchanged_call [OF pos that(2)] obtain t' where
      "skip_unchanged (hash_cb space) (int (length out)) (int n) t = Some t'" "config t' = config t"
      "p_cb t' = p_cb (snd (emit (hash_cb space) None (int n) False (Some False) t))" by (auto simp: hash_cb_def)
    ultimately show ?thesis using hash_sink_cong by blast
  qed
qed

lemma ApplyPatch_hash:
  assumes f: "fl_data source = src" "fl_bad source = []" and p: "fl_data pf = patch_bytes fsize rs" "fl_bad pf = []" "list_all record_size_ok rs"
    and fs: "0 \<le> fsize" "fsize < 2 ^ 63" and ok: "records_ok fsize (int (length src)) 0 (valid_records rs)"
    and t: "require_unchanged t = (\<not> reflink)" "\<not> with_sparse t" "unchanged_align t = 0" and s: "hash_sink reflink src t []"
  shows "\<exists>a. ApplyPatch (hash_cb space) be source pf None t = Some (Return True a) \<and> hash_sink reflink src (a_this a) (patched fsize rs src) \<and>
    p_filesize (a_this a) = fsize"
proof -
  have "hash_sink reflink src (started fsize t) []" using s t(2) by (simp add: hash_sink_def started_def reset_align_def Let_def)
  from hashs.ApplyPatch_sink [OF f p fs ok t(1) _ t(3) this, of space be] t(2) obtain a where
    "hash_sink reflink src (a_this a) (patched fsize rs src)" "config (a_this a) = (fsize, \<not> reflink, False, 0)"
    "ApplyPatch (hash_cb space) be source pf None t = Some (Return True a)" by auto
  then show ?thesis by (auto simp: config_def)
qed

text \<open>C28. Patching a file gives the new file exactly: the old one with the valid records of the patch written over it, cut at the new size. This holds
  whether the new file is written in full or starts as a copy that shares its blocks with the old one and receives the changes only; no assertion
  fails and no error is reported. Conditions: the files can be read and written; the patch is a size and records in ascending order that do not
  overlap, begin within the new file and leave no gap behind the end of the old one; old data and records make up the new size; no sparse extents,
  no sparse blocks and no alignment.
\<close>

theorem patchFile_correct:
  assumes "fl_data source = src" "fl_bad source = []" "fl_data pf = patch_bytes fsize rs" "fl_bad pf = []" "list_all record_size_ok rs"
    and "0 \<le> fsize" "fsize < 2 ^ 63" "records_ok fsize (int (length src)) 0 (valid_records rs)" "int (length (patched fsize rs src)) = fsize"
    and "fl_bad dest = []" "reflink \<longrightarrow> fl_data dest = src" "\<not> with_sparse t" "unchanged_align t = 0"
  shows "\<exists>f. patchFile be space punch reflink pf source dest fsize None t = Some (Normal f) \<and> fl_data f = patched fsize rs src"
proof -
  let ?h = "(p_cb t)\<lparr>chunk_output_fn := (if reflink then dest else dest\<lparr>fl_data := []\<rparr>)\<lparr>fl_pos := 0\<rparr>, has_reflink := reflink, chunk_patch_pos := 0,
    chunk_patcher_has_error := False\<rparr>"
  let ?t = "setRequireUnchanged (\<not> reflink) (t\<lparr>p_cb := ?h\<rparr>)" and ?new = "patched fsize rs src"
  have "hash_sink reflink src ?t []" using assms(10,11) by (simp add: hash_sink_def setRequireUnchanged_def)
  from ApplyPatch_hash [OF assms(1-8) _ _ _ this, of space be] assms(12,13) obtain a where
    a: "ApplyPatch (hash_cb space) be source pf None ?t = Some (Return True a)" "hash_sink reflink src (a_this a) ?new" "p_filesize (a_this a) = fsize"
    by (auto simp: setRequireUnchanged_def)
  let ?f = "chunk_output_fn (p_cb (a_this a))"
  have f: "fl_data ?f = ?new @ (if reflink then drop (length ?new) src else [])" "\<not> chunk_patcher_has_error (p_cb (a_this a))"
    using a(2) by (simp_all add: hash_sink_def Let_def)
  have n: "length ?new = nat fsize" using assms(9) by simp
  show ?thesis
    using a(1,3) f n assms(6,9) by (auto simp: patchFile_def IFile_Size_def IFile_Resize_def Let_def)
qed

text \<open>A file of four bytes, a record that was invalidated, one inside the file and one that makes it longer.\<close>

definition sample_file :: "byte list \<Rightarrow> ifile" where
  "sample_file d = \<lparr>fl_data = d, fl_pos = 0, fl_bad = []\<rparr>"

definition sample_records :: "patch_record list" where
  "sample_records = [(1, [9, 9]), (-1, [5]), (4, [7])]"

definition sample_patcher :: "server_hash patcher" where
  "sample_patcher = ChunkPatcher_init 0 0 False False \<lparr>chunk_output_fn = sample_file [], chunk_patch_pos = 0, has_reflink = False, cow_filesize = 0,
     chunk_patcher_has_error = False\<rparr>"

theorem patchFile_correct_witness:
  "(\<exists>f. patchFile False True True False (sample_file (patch_bytes 5 sample_records)) (sample_file [1, 2, 3, 4]) (sample_file [8]) 5 None sample_patcher =
      Some (Normal f) \<and> fl_data f = [1, 9, 9, 4, 7]) \<and>
   (\<exists>f. patchFile False True True True (sample_file (patch_bytes 5 sample_records)) (sample_file [1, 2, 3, 4]) (sample_file [1, 2, 3, 4]) 5 None sample_patcher =
      Some (Normal f) \<and> fl_data f = [1, 9, 9, 4, 7])"
proof -
  let ?src = "[1, 2, 3, 4] :: byte list"
  have p: "patched 5 sample_records ?src = [1, 9, 9, 4, 7]"
    by (simp add: patched_def sample_records_def valid_records_def overwrite_def)
  have r: "records_ok 5 (int (length ?src)) 0 (valid_records sample_records)" "list_all record_size_ok sample_records"
    by (simp_all add: sample_records_def valid_records_def record_size_ok_def)
  have "\<exists>f. patchFile False True True reflink (sample_file (patch_bytes 5 sample_records)) (sample_file ?src) (sample_file dst) 5 None sample_patcher =
      Some (Normal f) \<and> fl_data f = patched 5 sample_records ?src" if "reflink \<longrightarrow> dst = ?src" for reflink dst
    by (rule patchFile_correct) (use r p that in \<open>simp_all add: sample_file_def sample_patcher_def ChunkPatcher_init_def\<close>)
  from this [of False "[8]"] this [of True ?src] show ?thesis unfolding p by auto
qed

end
