(* ===== verification/Spec2Isabelle.thy ===== *)
theory Spec2Isabelle
  imports Midl Mid2l Midl_Sort LMDB_Read LMDB_Alloc_Correct Data_Stream String_Escape File_List File_Index LMDB_File_Index Backup_Entries Tree_Compare Message_Channel Patch_File
begin

text \<open>
  Verification of core parts of the UrBackup backup server.

  \<^bold>\<open>The program.\<close> A backup server keeps, for every file of every backup, a row in an SQL table. Rows with the same content and client form a
  doubly linked list, and an index finds one row of each list, so that a file that is already stored is linked and not copied. The index is a
  memory-mapped B+tree (an embedded LMDB) with a write-back cache in front of it. The client sends the list of its files; the server
  compares it with the list of the last backup to decide what to load, what to link, and what was deleted. Messages between the parts are byte
  streams and escaped strings.

  \<^bold>\<open>Conventions.\<close> Machine integers are words, or \<open>int\<close> and \<open>nat\<close> where the code stays within range and the range is a hypothesis or is
  proved. An access outside an array, a failed allocation and a loop that does not end are values (\<open>None\<close>, an error code, or \<open>Inl\<close>), so a
  theorem that an operation returns is also a theorem that it stays within its arrays and ends. Loops are \<open>partial_function (option)\<close> or
  recursive functions with a termination proof; no fuel is used. Library code (\<open>std::map\<close>, \<open>std::sort\<close>, \<open>strcmp\<close>, \<open>strtoll\<close>) is modelled by what its
  standard says. \<open>be\<close> is the byte order of the host.

  \<^bold>\<open>The theories.\<close>

  \<^item> \<open>Prelude\<close>, \<open>Page_Memory\<close>, \<open>Std_Map\<close>: word types, checked array access, the contract of a binary search (locale \<open>probe_search\<close>), byte
    memory, ordered maps over a comparison (locale \<open>key_order\<close>).
  \<^item> \<open>Midl\<close>, \<open>Midl_Sort\<close>, \<open>Mid2l\<close> (\<^verbatim>\<open>src/urbackupserver/lmdb/midl.c\<close>): the ID lists of free pages and the list of dirty pages. Search, growth,
    merge, the quicksort with its fixed stack, and the insertion into the dirty list are proved to stay in their arrays and to be correct.
  \<^item> \<open>LMDB_Page\<close>, \<open>LMDB_Page_Refine\<close> (\<^verbatim>\<open>mdb.c\<close>): pages as bytes with their node arrays; adding and deleting a node refine insertion into and
    deletion from a list of nodes; data too large for a page are written to overflow pages.
  \<^item> \<open>LMDB_Txn\<close>, \<open>LMDB_Search\<close>, \<open>LMDB_Cursor\<close>, \<open>LMDB_Lookup\<close>, \<open>LMDB_Iterate\<close>, \<open>LMDB_Read\<close>: page lookup in a transaction, key comparison, search in a
    page, descent and movement of cursors. On every well-formed B+tree \<open>mdb_get\<close>, \<open>MDB_SET_RANGE\<close> and \<open>MDB_NEXT\<close> behave as on the sorted list
    of its entries.
  \<^item> \<open>LMDB_Alloc\<close>, \<open>LMDB_Alloc_Correct\<close>: allocation of pages from the free list or at the end of the file, the oldest reader, copying of pages before
    writing. The lemma on allocation covers the case in which no record of the free database is to be fetched.
  \<^item> \<open>Varint\<close>, \<open>Data_Stream\<close> (\<^verbatim>\<open>src/common/data.cpp\<close>): variable-length integers; the writer and reader of messages. Locales: \<open>getter\<close> (what a reader of
    a field promises, interpreted for every reader) and \<open>field_codec\<close> (writing then reading a message).
  \<^item> \<open>String_Escape\<close> (\<^verbatim>\<open>src/urbackupcommon/escape.cpp\<close>, \<^verbatim>\<open>src/stringtools.cpp\<close>): escapings and their inverses (locale \<open>escaping\<close>), base 64, hexadecimal,
    replacement.
  \<^item> \<open>File_List\<close> (\<^verbatim>\<open>src/urbackupcommon/filelist_utils.cpp\<close>): writer and parser of file lists, and their round trip.
  \<^item> \<open>Index_Key\<close>, \<open>File_Index\<close> (\<^verbatim>\<open>src/urbackupserver/FileIndex.h\<close>, \<^verbatim>\<open>FileIndex.cpp\<close>): the packed key and the write-back cache, as a step relation \<open>fi_step\<close> in
    which every delayed write, every lookup and every part of the loop of the index thread is a step. In all interleavings buffers and index
    together behave as one map.
  \<^item> \<open>LMDB_File_Index\<close> (\<^verbatim>\<open>LMDBFileIndex.cpp\<close>): the lookups of the index over the modelled database. The property below joins cache, lookup and decoding.
  \<^item> \<open>Files_Table\<close>, \<open>File_Entries\<close>, \<open>Backup_Removal\<close> (\<^verbatim>\<open>dao/ServerFilesDao.cpp\<close>, \<^verbatim>\<open>server_hash.cpp\<close>, \<^verbatim>\<open>IncrFileBackup.cpp\<close>, \<^verbatim>\<open>server_cleanup.cpp\<close>): the table of file
    entries and the operations that add, delete and remove entries. \<open>Entry_Index\<close> states what they rely on of the index (locale \<open>entry_index\<close>)
    and interprets it on the cache; \<open>Entry_Lists\<close>, \<open>Entry_Addition\<close>, \<open>Entry_Deletion\<close> and \<open>Backup_Entries\<close> prove the invariant of lists, marks and index
    in every reachable state. The invariant has a flag \<open>single\<close>: without it a file of a client may have several lists, as after the copy of a known file
    that \<^verbatim>\<open>server_hash.cpp\<close> adds without a predecessor; with it such additions are left out, and every file of a client has one list whose marked row the
    index names. What is given to \<open>addFileSQL\<close> as predecessor must be a row of the file when it is of the same client; the lookup \<open>get_prefer_client\<close>
    does not promise this, and it is a hypothesis on the call.
  \<^item> \<open>Chunk_Patch\<close>, \<open>Chunk_Patch_Correct\<close>, \<open>Patch_File\<close> (\<^verbatim>\<open>ChunkPatcher.cpp\<close>, \<^verbatim>\<open>ExtentIterator.cpp\<close>, \<^verbatim>\<open>server_hash.cpp\<close>): applying a patch file to a file, over any callback
    (locale \<open>byte_sink\<close>, interpreted on the callback that writes the new file), with sparse extents, sparse blocks and alignment in the definitions and
    the case without them in the theorem.
  \<^item> \<open>Tree_Diff\<close>, \<open>Tree_Reader\<close> (\<^verbatim>\<open>src/urbackupserver/treediff\<close>): the vector of nodes, the two passes of the reader, and the comparison of two trees. \<open>Tree_Run\<close>
    turns runs over pointers into derivations over trees, \<open>Tree_Diff_Correct\<close> and \<open>Tree_Reader_Correct\<close> hold the lemmas on either part, and
    \<open>Tree_Compare\<close> states the results over the items of the two lists.
  \<^item> \<open>Web_Socket\<close>, \<open>Web_Socket_Correct\<close> (\<^verbatim>\<open>src/urbackupcommon/WebSocketPipe.cpp\<close>): frames of a web socket, written and decoded in place by a state machine that
    may stop at any byte. It is proved equal to a decoder byte by byte, hence independent of how the stream is cut.
  \<^item> \<open>Tcp_Stack\<close> (\<^verbatim>\<open>src/urbackupcommon/fileclient/tcpstack.cpp\<close>): packets of messages over a byte stream. \<open>Message_Channel\<close> states what it relies on of a pipe
    (locale \<open>framed_pipe\<close>), proves that messages arrive, and interprets it on web socket pipes.
  \<^bold>\<open>Limits of the models.\<close> The database operations of the index thread succeed, and of \<open>flush\<close> only the request is a step. The reader of file lists gets
  the whole file; read errors are left out. For directories the comparison of trees takes type and name for equality, as the code does; that the change
  indicator differs is reported apart. Messages over web sockets are proved to arrive from little endian senders, since sizes are written in the byte
  order of the host. The MD5 function (\<^verbatim>\<open>src/md5.cpp\<close>) is a parameter with results of 16 bytes. The allocation of \<open>len + 1\<close> bytes in \<open>getPacket\<close> does not wrap
  around; it would for a packet of 4 GiB. Files that are patched are opened and resized without errors.

  \<^bold>\<open>Bounds.\<close> The depth of a B+tree is that of the cursor stack (32). The sort uses a stack of 2 * 8 * sizeof(int) cells and is proved never to need more.
  Page numbers and sizes keep their widths.

  \<^bold>\<open>Not modelled.\<close> The writing side of LMDB above single pages (\<open>mdb_cursor_put\<close>, \<open>mdb_cursor_del\<close>, splits and merges, commit, meta pages, the lock
  file): it is many times the size of what it would add to the properties here, which take a well-formed tree as given. Threads, sockets, the file system,
  the SQL database itself, the web interface, the client's indexing and the image and cloud formats are input and output around the modelled
  parts. Third-party code (SQLite, miniz, Lua, the SDKs) is not part of the program.
\<close>

text \<open>C1. The cached index down to the database file: in every reachable state of the cache in front of a database that holds the entries
  \<open>es\<close>, the exact lookup and the listing of all clients, run through the cache, the B-tree lookup and the variable-length decoding,
  return what the combined map of buffers and database says.\<close>
theorem cached_index_correct:
  assumes "fi_reach be s" "index_rep be txn es" "store s = map_of es" "key_wf key"
  shows "get_with_cache_exact be (\<lambda>k. fst (the (lmdb_get be txn k))) key s = id_of (fi_view s key) \<and>
    get_all_clients_with_cache be (\<lambda>k. fst (the (lmdb_get_all_clients be txn k))) key False s =
      (\<lambda>c. if getClientid be key \<le> c then fi_view s (client_key be key c) else None)"
proof (intro conjI)
  have "get_with_cache_exact be (\<lambda>k. fst (the (lmdb_get be txn k))) key s = get_with_cache_exact be (\<lambda>k. id_of (store s k)) key s"
    using lmdb_get_eq [OF assms(2,4)] assms(3) by (simp add: get_with_cache_exact_def cong: option.case_cong)
  then show "get_with_cache_exact be (\<lambda>k. fst (the (lmdb_get be txn k))) key s = id_of (fi_view s key)"
    using get_with_cache_exact_view [OF fi_reach_inv [OF assms(1)] assms(4)] by simp
  show "get_all_clients_with_cache be (\<lambda>k. fst (the (lmdb_get_all_clients be txn k))) key False s =
      (\<lambda>c. if getClientid be key \<le> c then fi_view s (client_key be key c) else None)"
    by (rule all_clients_view [OF fi_reach_inv [OF assms(1)] assms(4)]) (unfold lmdb_get_all_clients_eq [OF assms(2,4)] assms(3), simp)
qed


definition sample_cached :: file_index where
  "sample_cached = file_index_init\<lparr>store := map_of index_entries\<rparr>"

theorem cached_index_correct_witness:
  "get_with_cache_exact False (\<lambda>k. fst (the (lmdb_get False index_txn k))) (sample_key 0) sample_cached = 5 \<and>
   get_all_clients_with_cache False (\<lambda>k. fst (the (lmdb_get_all_clients False index_txn k))) (sample_key 0) False sample_cached 1 = Some 6"
proof -
  have "0 \<notin> ran (map_of index_entries)" by (auto simp: ran_def index_entries_def)
  then have r: "fi_reach False sample_cached" unfolding sample_cached_def by (rule fi_reach.init)
  have s: "store sample_cached = map_of index_entries" by (simp add: sample_cached_def)
  have "fi_view sample_cached k = map_of index_entries k" for k
    by (simp add: fi_view_def sample_cached_def file_index_init_def active_cache_buffer_def other_cache_buffer_def)
  then show ?thesis using cached_index_correct [OF r index_sample s sample_key_wf, of 0] sample_client map_of_index_entries
    by (simp add: id_of_def)
qed

end
